(* ===== verification/JS_Base.thy ===== *)
theory JS_Base
  imports Complex_Main "HOL-Library.Word" "HOL-Library.Log_Nat"
begin

text \<open>
  Prelude: the part of the JavaScript language and its standard library that the modelled
  TypeScript relies on.

  Strings are sequences of UTF-16 code units (\<open>16 word list\<close>), numbers are exact rationals
  (plus the non-finite values), objects live in a store of addresses, and the
  tree type \<open>jtree\<close> is the value of an acyclic object graph once its identities are forgotten.
  Also here: the two text encodings (UTF-16 to code points, UTF-8), the shared lemmas on lists
  and options, and the fact collections \<open>js_char\<close> and \<open>js_len\<close>.
\<close>

named_theorems js_char \<open>definitions of code-unit classes\<close>
named_theorems js_len \<open>length bounds used by termination and resource arguments\<close>


section \<open>Generic lemmas\<close>

lemma find_Some_mem: "find P xs = Some x \<Longrightarrow> x \<in> set xs \<and> P x"
  by (induction xs) (auto split: if_splits)

lemma find_None_conv: "find P xs = None \<longleftrightarrow> (\<forall>x \<in> set xs. \<not> P x)"
  by (induction xs) auto

lemma find_distinct_key:
  "distinct (map f xs) \<Longrightarrow> x \<in> set xs \<Longrightarrow> find (\<lambda>y. f y = f x) xs = Some x"
  by (induction xs) (auto simp: rev_image_eqI)

lemma find_key_map_update:
  assumes "\<And>x. f (g x) = f x"
  shows "find (\<lambda>y. f y = k) (map g xs) = map_option g (find (\<lambda>y. f y = k) xs)"
  using assms by (induction xs) auto

lemma map_if_key_notin [simp]:
  "k \<notin> f ` set xs \<Longrightarrow> map (\<lambda>x. if f x = k then g x else x) xs = xs"
  by (induction xs) auto

lemma distinct_map_filter_key: "distinct (map f xs) \<Longrightarrow> distinct (map f (filter P xs))"
  by (induction xs) auto

lemma distinct_key_eq:
  "distinct (map f xs) \<Longrightarrow> x \<in> set xs \<Longrightarrow> y \<in> set xs \<Longrightarrow> f x = f y \<Longrightarrow> x = y"
  by (induction xs) (auto simp: image_iff)

lemma find_key_case:
  assumes "distinct (map f xs)"
  shows "(case find (\<lambda>x. f x = k) xs of None \<Rightarrow> True | Some x \<Rightarrow> P x) \<longleftrightarrow>
    \<not> (\<exists>x \<in> set xs. f x = k \<and> \<not> P x)"
proof (cases "find (\<lambda>x. f x = k) xs")
  case None
  then have "\<forall>x \<in> set xs. f x \<noteq> k" by (simp only: find_None_conv)
  with None show ?thesis by auto
next
  case (Some x)
  then have x: "x \<in> set xs" "f x = k" by (auto dest: find_Some_mem)
  then have "y = x" if "y \<in> set xs" "f y = k" for y
    using that distinct_key_eq [OF assms] by simp
  with x show ?thesis unfolding Some option.case by blast
qed

lemma map_zip_fst:
  "length ks = length ts \<Longrightarrow> map (\<lambda>p. f (fst p)) (zip ks ts) = map f ks"
  by (induction ks ts rule: list_induct2) auto

lemma map_zip_snd:
  "length ks = length ts \<Longrightarrow> map (\<lambda>p. f (snd p)) (zip ks ts) = map f ts"
  by (induction ks ts rule: list_induct2) auto

lemma sum_list_map_le:
  fixes f g :: "'a \<Rightarrow> nat"
  shows "(\<And>x. x \<in> set xs \<Longrightarrow> f x \<le> g x) \<Longrightarrow> sum_list (map f xs) \<le> sum_list (map g xs)"
  by (induction xs) (auto intro: add_mono)


section \<open>Code units and strings\<close>

type_synonym code_unit = "16 word"
type_synonym jsstr = "code_unit list"

text \<open>A string literal of the source, as its UTF-16 code units (the literals are ASCII).\<close>

definition js :: "string \<Rightarrow> jsstr" where
  "js s = map of_char s"

lemma of_char_16_eq_iff [simp]: "(of_char c :: 16 word) = of_char d \<longleftrightarrow> c = d"
proof
  assume *: "(of_char c :: 16 word) = of_char d"
  have bound: "of_char a < (65536::nat)" for a :: char
  proof -
    have "of_char a mod 256 < (256::nat)" by (rule mod_less_divisor) simp
    then have "of_char a < (256::nat)" by (simp only: of_char_mod_256)
    then show ?thesis by linarith
  qed
  have "(of_nat (of_char c) :: 16 word) = of_nat (of_char d)"
    using * by (simp add: of_nat_of_char)
  then have "(of_char c :: nat) = of_char d"
    using bound [of c] bound [of d] by (simp add: word_of_nat_eq_iff take_bit_eq_mod)
  then show "c = d"
    by (simp add: of_char_eq_iff)
qed simp

lemma js_eq_iff [simp]: "js s = js t \<longleftrightarrow> s = t"
  unfolding js_def
  by (rule inj_map_eq_map) (simp add: inj_def)

lemma js_Nil_iff [simp]: "js s = [] \<longleftrightarrow> s = []" "[] = js s \<longleftrightarrow> s = []"
  by (simp_all add: js_def)

lemma length_js [simp]: "length (js s) = length s"
  by (simp add: js_def)

abbreviation cu :: "char \<Rightarrow> code_unit" where
  "cu c \<equiv> of_char c"

text \<open>Surrogates (\<open>validation.ts\<close>, lines 8 to 11 name the same four bounds).\<close>

definition is_high :: "code_unit \<Rightarrow> bool" where
  [js_char]: "is_high c \<longleftrightarrow> 0xD800 \<le> c \<and> c \<le> 0xDBFF"

definition is_low :: "code_unit \<Rightarrow> bool" where
  [js_char]: "is_low c \<longleftrightarrow> 0xDC00 \<le> c \<and> c \<le> 0xDFFF"

text \<open>The code points of a string; a surrogate without its partner stands for itself.\<close>

fun code_points :: "jsstr \<Rightarrow> nat list" where
  "code_points [] = []"
| "code_points [c] = [unat c]"
| "code_points (c # d # s) =
     (if is_high c \<and> is_low d
      then (0x10000 + (unat c - 0xD800) * 0x400 + (unat d - 0xDC00)) # code_points s
      else unat c # code_points (d # s))"

text \<open>\<open>TextEncoder.encode\<close>: UTF-8, an unpaired surrogate becoming U+FFFD.\<close>

definition utf8_cp :: "nat \<Rightarrow> 8 word list" where
  "utf8_cp n =
     (if n < 0x80 then [of_nat n]
      else if n < 0x800 then [of_nat (0xC0 + n div 64), of_nat (0x80 + n mod 64)]
      else if 0xD800 \<le> n \<and> n \<le> 0xDFFF then [0xEF, 0xBF, 0xBD]
      else if n < 0x10000 then
        [of_nat (0xE0 + n div 4096), of_nat (0x80 + n div 64 mod 64), of_nat (0x80 + n mod 64)]
      else
        [of_nat (0xF0 + n div 262144), of_nat (0x80 + n div 4096 mod 64),
         of_nat (0x80 + n div 64 mod 64), of_nat (0x80 + n mod 64)])"

definition utf8_encode :: "jsstr \<Rightarrow> 8 word list" where
  "utf8_encode s = concat (map utf8_cp (code_points s))"

lemma utf8_encode_Nil [simp]: "utf8_encode [] = []"
  by (simp add: utf8_encode_def)

text \<open>White space and line terminators, as \<open>String.prototype.trim\<close> removes them.\<close>

definition is_js_space :: "code_unit \<Rightarrow> bool" where
  [js_char]: "is_js_space c \<longleftrightarrow>
     0x09 \<le> c \<and> c \<le> 0x0D \<or> c = 0x20 \<or> c = 0xA0 \<or> c = 0x1680 \<or>
     0x2000 \<le> c \<and> c \<le> 0x200A \<or> c = 0x2028 \<or> c = 0x2029 \<or> c = 0x202F \<or>
     c = 0x205F \<or> c = 0x3000 \<or> c = 0xFEFF"

definition js_trim :: "jsstr \<Rightarrow> jsstr" where
  "js_trim s = rev (dropWhile is_js_space (rev (dropWhile is_js_space s)))"

lemma js_trim_fixed_iff:
  "js_trim s = s \<longleftrightarrow> s = [] \<or> \<not> is_js_space (hd s) \<and> \<not> is_js_space (last s)"
proof (cases s)
  case Nil
  then show ?thesis by (simp add: js_trim_def)
next
  case (Cons c t)
  have len: "length (dropWhile is_js_space u) \<le> length u" for u
    by (rule length_dropWhile_le)
  have "js_trim s = s \<Longrightarrow> \<not> is_js_space (hd s) \<and> \<not> is_js_space (last s)"
  proof (rule ccontr)
    assume eq: "js_trim s = s" and bad: "\<not> (\<not> is_js_space (hd s) \<and> \<not> is_js_space (last s))"
    show False
    proof (cases "is_js_space (hd s)")
      case True
      then have "length (dropWhile is_js_space s) < length s"
        using len [of t] Cons by simp
      then show False
        using eq len [of "rev (dropWhile is_js_space s)"] by (simp add: js_trim_def)
          (metis length_rev not_le)
    next
      case False
      then have "dropWhile is_js_space s = s" using Cons by simp
      moreover have "is_js_space (hd (rev s))"
        using bad False by (metis hd_rev)
      then have "length (dropWhile is_js_space (rev s)) < length (rev s)"
        using len [of "tl (rev s)"] Cons by (cases "rev s") (auto simp: less_Suc_eq_le len)
      ultimately show False
        using eq by (simp add: js_trim_def) (metis length_rev less_irrefl)
    qed
  qed
  moreover have "\<not> is_js_space (hd s) \<Longrightarrow> \<not> is_js_space (last s) \<Longrightarrow> js_trim s = s"
  proof -
    assume h: "\<not> is_js_space (hd s)" and l: "\<not> is_js_space (last s)"
    have "dropWhile is_js_space s = s" using h Cons by simp
    moreover have "dropWhile is_js_space (rev s) = rev s"
      using l Cons by (metis dropWhile_eq_self_iff hd_rev)
    ultimately show ?thesis by (simp add: js_trim_def)
  qed
  ultimately show ?thesis using Cons by blast
qed


section \<open>Numbers\<close>

text \<open>
  A JavaScript number by its mathematical value; the two zeros are one value, as every
  comparison of the modelled code (\<open>===\<close>, \<open><\<close>) and \<open>JSON.stringify\<close> treat them.
\<close>

datatype jsnum = NumNaN | NumInf bool | NumFin rat

abbreviation num_int :: "int \<Rightarrow> jsnum" where
  "num_int i \<equiv> NumFin (of_int i)"

definition MAX_SAFE_INTEGER :: int where
  "MAX_SAFE_INTEGER = 9007199254740991"

definition safe_int :: "int \<Rightarrow> bool" where
  "safe_int i \<longleftrightarrow> - MAX_SAFE_INTEGER \<le> i \<and> i \<le> MAX_SAFE_INTEGER"

text \<open>\<open>Number.isInteger\<close> and \<open>Number.isSafeInteger\<close>, returning the integer.\<close>

definition as_integer :: "jsnum \<Rightarrow> int option" where
  "as_integer n =
     (case n of NumFin r \<Rightarrow> if of_int \<lfloor>r\<rfloor> = r then Some \<lfloor>r\<rfloor> else None | _ \<Rightarrow> None)"

definition as_safe_integer :: "jsnum \<Rightarrow> int option" where
  "as_safe_integer n =
     (case as_integer n of Some i \<Rightarrow> if safe_int i then Some i else None | None \<Rightarrow> None)"

lemma as_integer_num_int [simp]: "as_integer (num_int i) = Some i"
  by (simp add: as_integer_def)

lemma as_integer_eq_Some: "as_integer n = Some i \<longleftrightarrow> n = num_int i"
  by (auto simp: as_integer_def split: jsnum.splits if_splits)

lemma as_safe_integer_eq_Some: "as_safe_integer n = Some i \<longleftrightarrow> n = num_int i \<and> safe_int i"
  by (auto simp: as_safe_integer_def as_integer_eq_Some split: option.splits if_splits)


section \<open>Sorting and maps\<close>

text \<open>\<open>Array.prototype.sort\<close>: a stable sort by a comparison function.\<close>

fun js_insert :: "('a \<Rightarrow> 'a \<Rightarrow> int) \<Rightarrow> 'a \<Rightarrow> 'a list \<Rightarrow> 'a list" where
  "js_insert cmp x [] = [x]"
| "js_insert cmp x (y # ys) = (if cmp x y \<le> 0 then x # y # ys else y # js_insert cmp x ys)"

definition js_sort :: "('a \<Rightarrow> 'a \<Rightarrow> int) \<Rightarrow> 'a list \<Rightarrow> 'a list" where
  "js_sort cmp xs = foldr (js_insert cmp) xs []"

lemma js_sort_sort_key:
  assumes "\<And>x y. cmp x y \<le> 0 \<longleftrightarrow> f x \<le> f y"
  shows "js_sort cmp xs = sort_key f xs"
proof -
  have "js_insert cmp x ys = insort_key f x ys" for x ys
    by (induction ys) (auto simp: assms)
  then have "js_insert cmp = insort_key f" by blast
  then show ?thesis by (simp add: js_sort_def sort_key_def)
qed

lemma js_sort_permutes: "set (js_sort cmp xs) = set xs \<and> length (js_sort cmp xs) = length xs"
proof -
  have ins: "set (js_insert cmp x ys) = insert x (set ys) \<and> length (js_insert cmp x ys) = Suc (length ys)" for x ys
    by (induction ys) auto
  show ?thesis by (induction xs) (simp_all add: js_sort_def ins)
qed

text \<open>\<open>Array.prototype.findIndex\<close>, the index \<open>- 1\<close> being \<open>None\<close>.\<close>

fun findIndex :: "('a \<Rightarrow> bool) \<Rightarrow> 'a list \<Rightarrow> nat option" where
  "findIndex P [] = None"
| "findIndex P (x # xs) = (if P x then Some 0 else map_option Suc (findIndex P xs))"

lemma findIndex_Some: "findIndex P xs = Some i \<Longrightarrow> i < length xs \<and> P (xs ! i)"
  by (induction xs arbitrary: i) (auto split: if_splits)

text \<open>
  \<open>new Map(entries)\<close>: a later entry of a key replaces the value of an earlier one but keeps its place
  among the keys.
\<close>

definition js_lookup :: "('k \<times> 'v) list \<Rightarrow> 'k \<Rightarrow> 'v option" where
  "js_lookup entries = map_of (rev entries)"

definition js_keys :: "('k \<times> 'v) list \<Rightarrow> 'k list" where
  "js_keys entries = rev (remdups (rev (map fst entries)))"

lemma set_js_keys [simp]: "set (js_keys entries) = fst ` set entries"
  by (simp add: js_keys_def)

lemma js_keys_distinct: "distinct (map fst entries) \<Longrightarrow> js_keys entries = map fst entries"
  by (simp add: js_keys_def distinct_remdups_id)

lemma js_lookup_eq_None: "js_lookup entries k = None \<longleftrightarrow> k \<notin> fst ` set entries"
  by (simp add: js_lookup_def map_of_eq_None_iff)

lemma js_lookup_SomeD: "js_lookup entries k = Some v \<Longrightarrow> (k, v) \<in> set entries"
  by (auto simp: js_lookup_def dest: map_of_SomeD)

lemma js_lookup_distinct: "distinct (map fst entries) \<Longrightarrow> js_lookup entries k = Some v \<longleftrightarrow> (k, v) \<in> set entries"
  by (simp add: js_lookup_def rev_map [symmetric])


section \<open>Values, objects and the store\<close>

text \<open>
  A primitive value; \<open>POther\<close> is a value whose \<open>typeof\<close> is none of the tested
  ones (a function, a symbol, a bigint), known by its identity.
\<close>

datatype jsprim = PUndef | PNull | PBool bool | PNum jsnum | PStr jsstr | POther nat

text \<open>
  Addresses of objects are paths, so that a freshly built tree has a canonical store
  (\<open>tree_heap\<close> below); nothing else depends on their shape.
\<close>

type_synonym addr = "nat list"

datatype jsval = Prim jsprim | Ref addr

datatype jskey = KStr jsstr | KSym nat

text \<open>
  A property descriptor: a data property with its value, or an accessor with the outcome of
  its getter (\<open>None\<close> when it throws); the flag is \<open>enumerable\<close>.
\<close>

datatype jsdesc = DataDesc jsval bool | AccessorDesc "jsval option" bool

datatype jsproto = ProtoObject | ProtoArray | ProtoNull | ProtoOther

record jsobj =
  obj_array :: bool
  obj_proto :: jsproto
  obj_props :: "(jskey \<times> jsdesc) list"

type_synonym heap = "addr \<Rightarrow> jsobj"

datatype js_error = TypeError string

text \<open>
  Reading a property of a value: a \<open>TypeError\<close> on \<open>undefined\<close> and \<open>null\<close>, the own
  property (through its getter) on an object, \<open>undefined\<close> where there is none.
\<close>

definition js_get :: "heap \<Rightarrow> jsval \<Rightarrow> string \<Rightarrow> js_error + jsval" where
  "js_get h v k =
     (case v of
        Prim PUndef \<Rightarrow> Inl (TypeError ''Cannot read properties of undefined'')
      | Prim PNull \<Rightarrow> Inl (TypeError ''Cannot read properties of null'')
      | Prim _ \<Rightarrow> Inr (Prim PUndef)
      | Ref a \<Rightarrow>
          (case map_of (obj_props (h a)) (KStr (js k)) of
             None \<Rightarrow> Inr (Prim PUndef)
           | Some (DataDesc w _) \<Rightarrow> Inr w
           | Some (AccessorDesc (Some w) _) \<Rightarrow> Inr w
           | Some (AccessorDesc None _) \<Rightarrow> Inl (TypeError ''getter'')))"


section \<open>Errors as values\<close>

text \<open>Sequencing of steps that may throw.\<close>

definition ebind :: "'e + 'a \<Rightarrow> ('a \<Rightarrow> 'e + 'b) \<Rightarrow> 'e + 'b" where
  "ebind m f = (case m of Inl e \<Rightarrow> Inl e | Inr x \<Rightarrow> f x)"

lemma ebind_simps [simp]: "ebind (Inl e) f = Inl e" "ebind (Inr x) f = f x"
  by (simp_all add: ebind_def)

lemma ebind_Inr_iff: "ebind m f = Inr y \<longleftrightarrow> (\<exists>x. m = Inr x \<and> f x = Inr y)"
  by (cases m) auto

lemma if_Inl_Inr_iff: "(if b then Inl e else m) = Inr y \<longleftrightarrow> \<not> b \<and> m = Inr y"
  by simp

lemmas ok_iff = ebind_Inr_iff if_Inl_Inr_iff

abbreviation jstr :: "string \<Rightarrow> jsval" where
  "jstr s \<equiv> Prim (PStr (js s))"

text \<open>The values that are false in a condition.\<close>

fun falsy :: "jsval \<Rightarrow> bool" where
  "falsy (Prim PUndef) = True"
| "falsy (Prim PNull) = True"
| "falsy (Prim (PBool b)) = (\<not> b)"
| "falsy (Prim (PNum n)) = (n = NumNaN \<or> n = NumFin 0)"
| "falsy (Prim (PStr s)) = (s = [])"
| "falsy (Prim (POther _)) = False"
| "falsy (Ref _) = False"


section \<open>Trees\<close>

text \<open>
  The value of an acyclic object graph whose containers are plain arrays and records: what
  \<open>JSON.parse\<close> returns and what a strict snapshot copies.
\<close>

datatype jtree = TPrim jsprim | TArr "jtree list" | TObj "(jsstr \<times> jtree) list"

abbreviation TNull :: jtree where "TNull \<equiv> TPrim PNull"
abbreviation TUndef :: jtree where "TUndef \<equiv> TPrim PUndef"
abbreviation TBool :: "bool \<Rightarrow> jtree" where "TBool b \<equiv> TPrim (PBool b)"
abbreviation TStr :: "jsstr \<Rightarrow> jtree" where "TStr s \<equiv> TPrim (PStr s)"
abbreviation TInt :: "int \<Rightarrow> jtree" where "TInt i \<equiv> TPrim (PNum (num_int i))"

text \<open>Reading a field of a record; a missing one is \<open>undefined\<close>.\<close>

definition field :: "(jsstr \<times> jtree) list \<Rightarrow> string \<Rightarrow> jtree" where
  "field fs k = (case map_of fs (js k) of Some t \<Rightarrow> t | None \<Rightarrow> TUndef)"

text \<open>A record literal of the source, fields in the order written.\<close>

definition jobj :: "(string \<times> jtree) list \<Rightarrow> jtree" where
  "jobj fs = TObj (map (\<lambda>(k, t). (js k, t)) fs)"

lemma map_of_js_fields [simp]:
  "map_of (map (\<lambda>(k, t). (js k, t)) fs) (js k) = map_of fs k"
  by (induction fs) auto

text \<open>
  The canonical store of a tree: the object at address \<open>p\<close> is the container reached by
  following the child indices of \<open>p\<close> from the root, which has address \<open>[]\<close>.
\<close>

fun subtrees :: "jtree \<Rightarrow> jtree list" where
  "subtrees (TPrim _) = []"
| "subtrees (TArr ts) = ts"
| "subtrees (TObj fs) = map snd fs"

fun subtree_at :: "jtree \<Rightarrow> addr \<Rightarrow> jtree" where
  "subtree_at t [] = t"
| "subtree_at t (i # p) =
     (if i < length (subtrees t) then subtree_at (subtrees t ! i) p else TUndef)"

definition tree_val :: "jtree \<Rightarrow> addr \<Rightarrow> jsval" where
  "tree_val t p = (case t of TPrim v \<Rightarrow> Prim v | _ \<Rightarrow> Ref p)"

text \<open>The decimal text of an array index (\<open>String(index)\<close>).\<close>

fun nat_digits :: "nat \<Rightarrow> code_unit list" where
  "nat_digits n =
     (if n < 10 then [of_nat (48 + n)] else nat_digits (n div 10) @ [of_nat (48 + n mod 10)])"

declare nat_digits.simps [simp del]

definition tree_obj :: "jtree \<Rightarrow> addr \<Rightarrow> jsobj" where
  "tree_obj t p =
     (case t of
        TArr ts \<Rightarrow>
          \<lparr>obj_array = True, obj_proto = ProtoArray,
           obj_props =
             map (\<lambda>i. (KStr (nat_digits i), DataDesc (tree_val (ts ! i) (p @ [i])) True)) [0..<length ts]
             @ [(KStr (js ''length''), DataDesc (Prim (PNum (num_int (int (length ts))))) False)]\<rparr>
      | TObj fs \<Rightarrow>
          \<lparr>obj_array = False, obj_proto = ProtoObject,
           obj_props =
             map (\<lambda>i. (KStr (fst (fs ! i)), DataDesc (tree_val (snd (fs ! i)) (p @ [i])) True))
               [0..<length fs]\<rparr>
      | TPrim _ \<Rightarrow> \<lparr>obj_array = False, obj_proto = ProtoObject, obj_props = []\<rparr>)"

definition tree_heap :: "jtree \<Rightarrow> heap" where
  "tree_heap t p = tree_obj (subtree_at t p) p"

end
