(* ===== verification/Json_Number.thy ===== *)
theory Json_Number
  imports JS_Base
begin

text \<open>
  The numbers of JSON texts. \<open>parse_number\<close> reads a literal and rounds it to the nearest binary64 value; \<open>number_text\<close> prints
  a number as \<open>Number.prototype.toString\<close> does, by the shortest decimal that reads back as the number. The last section proves that
  every printed number is read back, and that every binary64 value is printed.
\<close>

section \<open>Numbers\<close>

definition pow2 :: "int \<Rightarrow> rat" where
  "pow2 e = (if 0 \<le> e then 2 ^ nat e else 1 / 2 ^ nat (- e))"

text \<open>The binary exponent \<open>k\<close> with \<open>2 ^ k \<le> x < 2 ^ (k + 1)\<close>, for positive \<open>x\<close>.\<close>

definition exponent2 :: "rat \<Rightarrow> int" where
  "exponent2 x =
     (let (n, d) = quotient_of x; k = bitlen n - bitlen d in if pow2 k \<le> x then k else k - 1)"

definition round_half_even :: "rat \<Rightarrow> int" where
  "round_half_even x =
     (let f = \<lfloor>x\<rfloor>; r = x - of_int f in
      if r < 1 / 2 then f else if r > 1 / 2 then f + 1 else if even f then f else f + 1)"

definition to_double :: "rat \<Rightarrow> jsnum" where
  "to_double x =
     (if x = 0 then NumFin 0
      else let e = max (- 1074) (exponent2 \<bar>x\<bar> - 52);
               y = pow2 e * of_int (round_half_even (x / pow2 e))
           in if \<bar>y\<bar> \<ge> 2 ^ 1024 then NumInf (y > 0) else NumFin y)"

lemma bitlen_le_53: "0 < i \<Longrightarrow> i \<le> MAX_SAFE_INTEGER \<Longrightarrow> bitlen i \<le> 53"
  using bitlen_le_iff_power [of i 53] by (simp add: MAX_SAFE_INTEGER_def)

lemma to_double_safe [simp]: "safe_int i \<Longrightarrow> to_double (of_int i) = num_int i"
proof (cases "i = 0")
  case False
  assume safe: "safe_int i"
  define e where "e = max (- 1074) (exponent2 \<bar>of_int i\<bar> - 52)"
  have abs: "\<bar>of_int i\<bar> = (of_int \<bar>i\<bar> :: rat)" by simp
  have q: "quotient_of \<bar>of_int i\<bar> = (\<bar>i\<bar>, 1)"
    using quotient_of_int [of "\<bar>i\<bar>"] by (simp add: Rat.of_int_def)
  have one: "bitlen 1 = 1" by (simp add: bitlen_def floorlog_def)
  have "bitlen \<bar>i\<bar> \<le> 53"
    using bitlen_le_53 [of "\<bar>i\<bar>"] safe False by (auto simp: safe_int_def)
  then have "exponent2 \<bar>of_int i\<bar> \<le> 52"
    by (simp add: exponent2_def q Let_def one)
  then have "e \<le> 0" by (simp add: e_def)
  then have inv: "1 / pow2 e = of_int (2 ^ nat (- e))" by (cases "e = 0") (simp_all add: pow2_def)
  then have "of_int i / pow2 e = of_int (i * 2 ^ nat (- e))"
    by (metis (no_types, opaque_lifting) divide_inverse inverse_eq_divide of_int_mult)
  then have "round_half_even (of_int i / pow2 e) = i * 2 ^ nat (- e)"
    by (simp only: round_half_even_def floor_of_int Let_def) simp
  moreover have "pow2 e * of_int (2 ^ nat (- e)) = 1"
    using \<open>e \<le> 0\<close> by (cases "e = 0") (simp_all add: pow2_def)
  ultimately have y: "pow2 e * of_int (round_half_even (of_int i / pow2 e)) = of_int i"
    by (metis mult.assoc mult.commute mult.left_neutral of_int_mult)
  have "\<bar>of_int i :: rat\<bar> < 2 ^ 1024"
  proof -
    have "\<bar>of_int i :: rat\<bar> \<le> of_int MAX_SAFE_INTEGER"
      using safe by (simp add: abs safe_int_def abs_le_iff flip: of_int_abs)
    also have "\<dots> < 2 ^ 53" by (simp add: MAX_SAFE_INTEGER_def)
    also have "\<dots> \<le> 2 ^ 1024" by (rule power_increasing) simp_all
    finally show ?thesis .
  qed
  with False y show ?thesis
    by (simp add: to_double_def Let_def flip: e_def)
qed (simp add: to_double_def)

text \<open>Decimal digits and their value.\<close>

definition is_digit :: "code_unit \<Rightarrow> bool" where
  [js_char]: "is_digit c \<longleftrightarrow> 0x30 \<le> c \<and> c \<le> 0x39"

definition digits_value :: "code_unit list \<Rightarrow> nat" where
  "digits_value ds = foldl (\<lambda>n d. 10 * n + (unat d - 48)) 0 ds"
text \<open>
  A number literal: sign, integer part, optional fraction, optional exponent; returns the
  value and the rest of the text.
\<close>

definition number_int :: "jsstr \<Rightarrow> (code_unit list \<times> jsstr) option" where
  "number_int s =
     (case s of
        [] \<Rightarrow> None
      | c # r \<Rightarrow>
          if c = 0x30 then Some ([c], r)
          else if is_digit c then Some (takeWhile is_digit s, dropWhile is_digit s)
          else None)"

definition number_frac :: "jsstr \<Rightarrow> (code_unit list \<times> jsstr) option" where
  "number_frac s =
     (case s of
        [] \<Rightarrow> Some ([], s)
      | c # r \<Rightarrow>
          if c = 0x2E then
            (if takeWhile is_digit r = [] then None
             else Some (takeWhile is_digit r, dropWhile is_digit r))
          else Some ([], s))"

definition number_exp :: "jsstr \<Rightarrow> (int \<times> jsstr) option" where
  "number_exp s =
     (case s of
        [] \<Rightarrow> Some (0, s)
      | c # r \<Rightarrow>
          if c = 0x65 \<or> c = 0x45 then
            (let neg = (r \<noteq> [] \<and> hd r = 0x2D);
                 r' = (if r \<noteq> [] \<and> (hd r = 0x2B \<or> hd r = 0x2D) then tl r else r);
                 n = int (digits_value (takeWhile is_digit r'))
             in if takeWhile is_digit r' = [] then None
                else Some (if neg then - n else n, dropWhile is_digit r'))
          else Some (0, s))"

definition pow10 :: "int \<Rightarrow> rat" where
  "pow10 e = (if 0 \<le> e then 10 ^ nat e else 1 / 10 ^ nat (- e))"

definition parse_number :: "jsstr \<Rightarrow> (jsnum \<times> jsstr) option" where
  "parse_number s =
     (let neg = (s \<noteq> [] \<and> hd s = 0x2D); s1 = (if neg then tl s else s) in
      case number_int s1 of
        None \<Rightarrow> None
      | Some (ds, s2) \<Rightarrow>
          (case number_frac s2 of
             None \<Rightarrow> None
           | Some (fs, s3) \<Rightarrow>
               (case number_exp s3 of
                  None \<Rightarrow> None
                | Some (e, s4) \<Rightarrow>
                    Some (to_double ((if neg then - 1 else 1) * of_nat (digits_value (ds @ fs)) *
                            pow10 (e - int (length fs))), s4))))"

lemma number_int_length: "number_int s = Some (ds, r) \<Longrightarrow> length r < length s"
  by (auto simp: number_int_def less_Suc_eq_le length_dropWhile_le split: list.splits if_splits)

lemma number_frac_length: "number_frac s = Some (ds, r) \<Longrightarrow> length r \<le> length s"
  by (auto simp: number_frac_def le_SucI length_dropWhile_le split: list.splits if_splits)

lemma number_exp_length: "number_exp s = Some (ds, r) \<Longrightarrow> length r \<le> length s"
proof -
  have "length (dropWhile is_digit (tl u)) \<le> Suc (length u)" for u :: jsstr
    using length_dropWhile_le [of is_digit "tl u"] by simp
  then show "number_exp s = Some (ds, r) \<Longrightarrow> length r \<le> length s"
    by (auto simp: number_exp_def Let_def le_SucI length_dropWhile_le split: list.splits if_splits)
qed

lemma parse_number_length: "parse_number s = Some (x, r) \<Longrightarrow> length r < length s"
  by (fastforce simp: parse_number_def Let_def split: option.splits if_splits
      dest: number_int_length number_frac_length number_exp_length)


section \<open>Printing\<close>

definition int_text :: "int \<Rightarrow> jsstr" where
  "int_text i = (if i < 0 then 0x2D # nat_digits (nat (- i)) else nat_digits (nat i))"

text \<open>The exponent \<open>n\<close> with \<open>10 ^ (n - 1) \<le> x < 10 ^ n\<close>, for positive \<open>x\<close>.\<close>

definition decimal_exponent :: "rat \<Rightarrow> int" where
  "decimal_exponent x =
     (let (a, b) = quotient_of x; d = int (length (nat_digits (nat a))) - int (length (nat_digits (nat b)))
      in if pow10 d \<le> x then d + 1 else d)"

text \<open>The two neighbours of \<open>x\<close> among the multiples of \<open>10 ^ p\<close>, the nearer first, the even one at a tie.\<close>

definition neighbours :: "rat \<Rightarrow> int \<Rightarrow> int list" where
  "neighbours x p =
     (let y = x / pow10 p; f = \<lfloor>y\<rfloor> in if round_half_even y = f then [f, f + 1] else [f + 1, f])"

definition signed :: "rat \<Rightarrow> rat \<Rightarrow> rat" where
  "signed r v = (if r < 0 then - 1 else 1) * v"

text \<open>
  The search for the fewest digits. Seventeen digits are always enough; the bound of \<open>shortest_decimal\<close> is larger, so that the
  last step meets the number itself. Ten multiples are one of the next power, which has fewer digits.
\<close>

fun decimal_search :: "rat \<Rightarrow> int \<Rightarrow> nat \<Rightarrow> (int \<times> int) option" where
  "decimal_search r p 0 = None"
| "decimal_search r p (Suc m) =
     (case find (\<lambda>s. to_double (signed r (of_int s * pow10 p)) = NumFin r) (neighbours \<bar>r\<bar> p) of
        Some s \<Rightarrow> Some (if s = 10 then (1, p + 1) else (s, p))
      | None \<Rightarrow> decimal_search r (p - 1) m)"

definition shortest_decimal :: "rat \<Rightarrow> (int \<times> int) option" where
  "shortest_decimal r =
     (let n = decimal_exponent \<bar>r\<bar> in decimal_search r (n - 1) (max 1 (nat (n + 1074))))"

text \<open>The layout of the decimal \<open>s * 10 ^ p\<close>.\<close>

definition decimal_text :: "nat \<Rightarrow> int \<Rightarrow> jsstr" where
  "decimal_text s p =
     (let ds = nat_digits s; k = int (length ds); n = p + k in
      if k \<le> n \<and> n \<le> 21 then ds @ replicate (nat p) 0x30
      else if 0 < n \<and> n \<le> 21 then take (nat n) ds @ 0x2E # drop (nat n) ds
      else if - 6 < n \<and> n \<le> 0 then 0x30 # 0x2E # replicate (nat (- n)) 0x30 @ ds
      else hd ds # (if k = 1 then [] else 0x2E # tl ds) @
        0x65 # (if n - 1 < 0 then 0x2D else 0x2B) # nat_digits (nat \<bar>n - 1\<bar>))"

text \<open>A safe integer is its own shortest decimal. \<open>None\<close> stands for the two infinities and \<open>NaN\<close>, which the modelled code never prints.\<close>

definition number_text :: "jsnum \<Rightarrow> jsstr option" where
  "number_text x =
     (case x of
        NumFin r \<Rightarrow>
          (case as_safe_integer x of
             Some i \<Rightarrow> Some (int_text i)
           | None \<Rightarrow> map_option (\<lambda>(s, p). (if r < 0 then [0x2D] else []) @ decimal_text (nat s) p) (shortest_decimal r))
      | _ \<Rightarrow> None)"


section \<open>Round trip\<close>

lemma of_nat_16_less: "n < 65536 \<Longrightarrow> unat (of_nat n :: code_unit) = n"
  by (simp add: unat_of_nat take_bit_eq_mod)
lemma digit_unit: "n < 10 \<Longrightarrow> is_digit (of_nat (48 + n)) \<and> unat (of_nat (48 + n) :: code_unit) = 48 + n"
proof -
  assume "n < 10"
  then have "unat (of_nat (48 + n) :: code_unit) = 48 + n" by (intro of_nat_16_less) simp
  with \<open>n < 10\<close> show ?thesis by (simp add: js_char word_le_nat_alt)
qed

lemma digits_value_snoc: "digits_value (ds @ [d]) = 10 * digits_value ds + (unat d - 48)"
  by (simp add: digits_value_def)

lemma nat_digits_correct:
  "list_all is_digit (nat_digits n) \<and> digits_value (nat_digits n) = n \<and> nat_digits n \<noteq> [] \<and>
   (hd (nat_digits n) = 0x30 \<longrightarrow> n = 0)"
proof (induction n rule: nat_digits.induct)
  case (1 n)
  show ?case
  proof (cases "n < 10")
    case True
    have "(of_nat (48 + n) :: code_unit) = 0x30 \<Longrightarrow> n = 0"
      using digit_unit [OF True] by (auto dest: arg_cong [of _ _ unat])
    with True digit_unit [OF True] show ?thesis
      by (auto simp: nat_digits.simps [of n] digits_value_def)
  next
    case False
    have "n mod 10 < 10" by simp
    with 1 False digit_unit [of "n mod 10"] show ?thesis
      by (auto simp: nat_digits.simps [of n] digits_value_snoc)
  qed
qed

text \<open>What may follow a printed value: nothing, or the punctuation of its container.\<close>

definition stops :: "jsstr \<Rightarrow> bool" where
  "stops r \<longleftrightarrow> (case r of [] \<Rightarrow> True | c # _ \<Rightarrow> c = 0x2C \<or> c = 0x5D \<or> c = 0x7D)"

lemma stops_simps [simp]:
  "stops []" "stops (0x2C # r)" "stops (0x5D # r)" "stops (0x7D # r)"
  by (simp_all add: stops_def)

lemma takeWhile_digits_stops:
  assumes "list_all is_digit ds" "stops r"
  shows "takeWhile is_digit (ds @ r) = ds" "dropWhile is_digit (ds @ r) = r"
proof -
  have "takeWhile is_digit r = []" "dropWhile is_digit r = r"
    using assms(2) by (auto simp: stops_def js_char split: list.splits)
  with assms(1) show "takeWhile is_digit (ds @ r) = ds" "dropWhile is_digit (ds @ r) = r"
    by (simp_all add: list_all_iff takeWhile_append dropWhile_append3)
qed

lemma number_tail_stops: "stops r \<Longrightarrow> number_frac r = Some ([], r) \<and> number_exp r = Some (0, r)"
  by (auto simp: stops_def number_frac_def number_exp_def split: list.splits)

lemma number_int_digits:
  assumes "stops r"
  shows "number_int (nat_digits n @ r) = Some (nat_digits n, r)"
proof -
  obtain d ds where dd: "nat_digits n = d # ds" using nat_digits_correct [of n] by (cases "nat_digits n") auto
  have all: "list_all is_digit (d # ds)" using nat_digits_correct [of n] dd by simp
  show ?thesis
  proof (cases "d = 0x30")
    case True
    then have "n = 0" using nat_digits_correct [of n] dd by simp
    then have "ds = []" using dd by (simp add: nat_digits.simps)
    with dd True show ?thesis by (simp add: number_int_def)
  next
    case False
    with all takeWhile_digits_stops [OF all assms] dd show ?thesis
      by (simp add: number_int_def)
  qed
qed

lemma nat_digits_head: "hd (nat_digits n @ r) \<noteq> 0x2D" "nat_digits n @ r \<noteq> []"
proof -
  obtain d ds where "nat_digits n = d # ds" "is_digit d"
    using nat_digits_correct [of n] by (cases "nat_digits n") auto
  then show "hd (nat_digits n @ r) \<noteq> 0x2D" "nat_digits n @ r \<noteq> []" by (auto simp: js_char)
qed

lemma parse_number_int_text:
  assumes "safe_int i" "stops r"
  shows "parse_number (int_text i @ r) = Some (num_int i, r)"
proof (cases "i < 0")
  case True
  have "- rat_of_nat (nat (- i)) = of_int i" using True by simp
  with True assms show ?thesis
    using to_double_safe [OF assms(1)]
    by (simp add: parse_number_def int_text_def number_int_digits number_tail_stops
        nat_digits_correct pow10_def Let_def)
next
  case False
  have "rat_of_nat (nat i) = of_int i" using False by simp
  with False assms nat_digits_head [of "nat i" r] show ?thesis
    using to_double_safe [OF assms(1)]
    by (simp add: parse_number_def int_text_def number_int_digits number_tail_stops
        nat_digits_correct pow10_def Let_def)
qed
lemma int_text_head: "\<exists>c u. int_text i = c # u \<and> (c = 0x2D \<or> is_digit c)"
proof -
  obtain d ds where "nat_digits (nat i) = d # ds" "is_digit d"
    using nat_digits_correct [of "nat i"] by (cases "nat_digits (nat i)") auto
  then show ?thesis by (auto simp: int_text_def)
qed

lemma pow10_powi: "pow10 e = 10 powi e"
  by (simp add: pow10_def power_int_def power_one_over inverse_eq_divide)

lemma pow10_add: "pow10 (a + b) = pow10 a * pow10 b"
  by (simp add: pow10_powi power_int_add)

lemma pow10_pos [simp]: "pow10 e > 0" "pow10 e \<noteq> 0"
  by (simp_all add: pow10_def)

lemma pow10_nat [simp]: "pow10 (int n) = 10 ^ n"
  by (simp add: pow10_def)

lemma digits_value_zeros: "digits_value (replicate m 0x30 @ ds) = digits_value ds"
  by (induction m) (simp_all add: digits_value_def)

lemma digits_value_trailing: "digits_value (ds @ replicate m 0x30) = digits_value ds * 10 ^ m"
proof (induction m)
  case (Suc m)
  have "ds @ replicate (Suc m) 0x30 = (ds @ replicate m 0x30) @ [0x30]" by (simp add: replicate_append_same)
  with Suc show ?case by (simp only: digits_value_snoc) simp
qed simp

text \<open>A text that cannot continue the digits before it.\<close>

definition no_digit :: "jsstr \<Rightarrow> bool" where
  "no_digit t \<longleftrightarrow> (case t of [] \<Rightarrow> True | c # _ \<Rightarrow> \<not> is_digit c)"

lemma takeWhile_digits:
  assumes "list_all is_digit ds" "no_digit t"
  shows "takeWhile is_digit (ds @ t) = ds" "dropWhile is_digit (ds @ t) = t"
proof -
  have "takeWhile is_digit t = []" "dropWhile is_digit t = t"
    using assms(2) by (auto simp: no_digit_def split: list.splits)
  with assms(1) show "takeWhile is_digit (ds @ t) = ds" "dropWhile is_digit (ds @ t) = t"
    by (simp_all add: list_all_iff takeWhile_append dropWhile_append3)
qed

lemma stops_no_digit: "stops r \<Longrightarrow> no_digit r"
  by (auto simp: stops_def no_digit_def js_char split: list.splits)

definition frac_part :: "code_unit list \<Rightarrow> jsstr" where
  "frac_part fs = (if fs = [] then [] else 0x2E # fs)"

definition exp_part :: "int option \<Rightarrow> jsstr" where
  "exp_part e = (case e of None \<Rightarrow> [] | Some i \<Rightarrow> 0x65 # (if i < 0 then 0x2D else 0x2B) # nat_digits (nat \<bar>i\<bar>))"

lemma number_int_part:
  assumes "list_all is_digit ds" "ds \<noteq> []" "hd ds \<noteq> 0x30 \<or> ds = [0x30]" "no_digit t"
  shows "number_int (ds @ t) = Some (ds, t)"
proof -
  obtain c cs where ds: "ds = c # cs" using assms(2) by (cases ds) auto
  show ?thesis using takeWhile_digits [OF assms(1,4)] assms(1,3) ds by (auto simp: number_int_def)
qed

lemma number_frac_part:
  assumes "list_all is_digit fs" "no_digit t" "t = [] \<or> hd t \<noteq> 0x2E"
  shows "number_frac (frac_part fs @ t) = Some (fs, t)"
proof (cases fs)
  case Nil
  then show ?thesis using assms(3) by (cases t) (auto simp: number_frac_def frac_part_def)
next
  case (Cons c cs)
  then show ?thesis using takeWhile_digits [OF assms(1,2)] by (simp add: number_frac_def frac_part_def)
qed

lemma number_exp_part:
  assumes "stops r"
  shows "number_exp (exp_part e @ r) = Some (case e of None \<Rightarrow> 0 | Some i \<Rightarrow> i, r)"
proof (cases e)
  case None
  then show ?thesis using number_tail_stops [OF assms] by (simp add: exp_part_def)
next
  case (Some i)
  let ?ds = "nat_digits (nat \<bar>i\<bar>)"
  have "takeWhile is_digit (?ds @ r) = ?ds" "dropWhile is_digit (?ds @ r) = r"
    using takeWhile_digits [OF _ stops_no_digit [OF assms]] nat_digits_correct by blast+
  then show ?thesis
    using Some nat_digits_correct [of "nat \<bar>i\<bar>"] by (cases "i < 0") (simp_all add: number_exp_def exp_part_def Let_def)
qed

lemma parse_number_parts:
  assumes "list_all is_digit ds" "ds \<noteq> []" "hd ds \<noteq> 0x30 \<or> ds = [0x30]" "list_all is_digit fs" "stops r"
  shows "parse_number ((if neg then [0x2D] else []) @ ds @ frac_part fs @ exp_part e @ r) =
    Some (to_double ((if neg then - 1 else 1) * of_nat (digits_value (ds @ fs)) *
      pow10 ((case e of None \<Rightarrow> 0 | Some i \<Rightarrow> i) - int (length fs))), r)"
proof -
  have e: "no_digit (exp_part e @ r)" "exp_part e @ r = [] \<or> hd (exp_part e @ r) \<noteq> 0x2E"
    using stops_no_digit [OF assms(5)] assms(5)
    by (auto simp: exp_part_def no_digit_def js_char stops_def split: option.splits list.splits)
  have f: "no_digit (frac_part fs @ exp_part e @ r)" using e(1) by (simp add: frac_part_def no_digit_def js_char)
  have "hd (ds @ t) \<noteq> 0x2D" for t using assms(1,2) by (cases ds) (auto simp: js_char)
  then show ?thesis
    using number_int_part [OF assms(1-3) f] number_frac_part [OF assms(4) e] number_exp_part [OF assms(5), of e] assms(2)
    by (simp add: parse_number_def Let_def)
qed

lemma parse_decimal_text:
  assumes "0 < s" "stops r"
  shows "parse_number ((if neg then [0x2D] else []) @ decimal_text s p @ r) =
    Some (to_double ((if neg then - 1 else 1) * (of_nat s * pow10 p)), r)"
proof -
  let ?ds = "nat_digits s"
  define n where "n = p + int (length ?ds)"
  have ds: "list_all is_digit ?ds" "?ds \<noteq> []" "hd ?ds \<noteq> 0x30" "digits_value ?ds = s"
    using nat_digits_correct [of s] assms(1) by auto
  have zeros: "list_all is_digit (replicate m 0x30)" for m by (simp add: list_all_iff js_char)
  have reads: ?thesis
    if t: "decimal_text s p = ds @ frac_part fs @ exp_part e" "list_all is_digit ds" "ds \<noteq> []" "hd ds \<noteq> 0x30 \<or> ds = [0x30]"
      "list_all is_digit fs" "of_nat (digits_value (ds @ fs)) * pow10 ((case e of None \<Rightarrow> 0 | Some i \<Rightarrow> i) - int (length fs)) = of_nat s * pow10 p"
    for ds fs e
    using parse_number_parts [OF t(2-5) assms(2), of neg e] unfolding t(1) mult.assoc t(6) append_assoc .
  consider "int (length ?ds) \<le> n \<and> n \<le> 21" | "\<not> int (length ?ds) \<le> n" "0 < n \<and> n \<le> 21"
    | "- 6 < n \<and> n \<le> 0" | "\<not> (0 < n \<and> n \<le> 21)" "\<not> (- 6 < n \<and> n \<le> 0)" by linarith
  then show ?thesis
  proof cases
    case 1
    have p: "int (nat p) = p" using 1 by (simp add: n_def)
    have layout: "decimal_text s p = (?ds @ replicate (nat p) 0x30) @ frac_part [] @ exp_part None"
      using 1 by (simp add: decimal_text_def Let_def n_def frac_part_def exp_part_def)
    have "of_nat (digits_value (?ds @ replicate (nat p) 0x30)) = (of_nat s * pow10 p :: rat)"
      using pow10_nat [of "nat p"] unfolding p digits_value_trailing ds(4) by simp
    with ds zeros show ?thesis by (intro reads [OF layout]) (simp_all add: pow10_def [of 0])
  next
    case 2
    let ?a = "take (nat n) ?ds" and ?b = "drop (nat n) ?ds"
    have len: "int (length ?b) = - p" "?b \<noteq> []" "?a \<noteq> []" using 2 by (auto simp: n_def)
    have layout: "decimal_text s p = ?a @ frac_part ?b @ exp_part None"
      using 2 len by (simp add: decimal_text_def Let_def n_def [symmetric] frac_part_def exp_part_def)
    have "list_all is_digit ?a" "list_all is_digit ?b" "hd ?a \<noteq> 0x30"
      using ds(1,3) len(3) by (auto simp: list_all_iff dest: in_set_takeD in_set_dropD)
    with len show ?thesis by (intro reads [OF layout]) (simp_all add: ds(4))
  next
    case 3
    let ?b = "replicate (nat (- n)) 0x30 @ ?ds"
    have len: "int (length ?b) = - p" "?b \<noteq> []" using 3 ds(2) by (auto simp: n_def)
    have "\<not> int (length ?ds) \<le> n" using 3 ds(2) by (cases ?ds) auto
    then have layout: "decimal_text s p = [0x30] @ frac_part ?b @ exp_part None"
      using 3 len by (simp add: decimal_text_def Let_def n_def [symmetric] frac_part_def exp_part_def)
    have "digits_value ([0x30] @ ?b) = s"
      using digits_value_zeros [of "Suc (nat (- n))" ?ds] ds(4) by simp
    moreover have "list_all is_digit ?b" using ds(1) zeros by simp
    ultimately show ?thesis using len(1) by (intro reads [OF layout]) (simp_all add: js_char)
  next
    case 4
    obtain c cs where cs: "?ds = c # cs" using ds(2) by (cases ?ds) auto
    have long: "\<not> (int (length ?ds) \<le> n \<and> n \<le> 21)" using 4(1) cs by auto
    have layout: "decimal_text s p = [c] @ frac_part cs @ exp_part (Some (n - 1))"
      unfolding decimal_text_def Let_def n_def [symmetric] if_not_P [OF long] if_not_P [OF 4(1)] if_not_P [OF 4(2)]
      by (simp add: cs frac_part_def exp_part_def)
    have "n - 1 - int (length cs) = p" using cs by (simp add: n_def)
    moreover have "digits_value ([c] @ cs) = s" using ds(4) cs by simp
    ultimately show ?thesis using ds(1,3) cs by (intro reads [OF layout]) simp_all
  qed
qed

lemma decimal_text_head: "\<exists>c u. decimal_text s p = c # u \<and> is_digit c"
proof -
  obtain c cs where "nat_digits s = c # cs" "is_digit c"
    using nat_digits_correct [of s] by (cases "nat_digits s") auto
  moreover have "is_digit 0x30" by (simp add: js_char)
  moreover have "take (nat n) (c # cs) = c # take (nat n - 1) cs" if "0 < n" for n :: int
    using that by (simp add: take_Cons')
  ultimately show ?thesis by (auto simp: decimal_text_def Let_def)
qed

lemma neighbours_nonneg: "s \<in> set (neighbours \<bar>r\<bar> p) \<Longrightarrow> 0 \<le> s"
proof -
  have "0 \<le> \<lfloor>\<bar>r\<bar> / pow10 p\<rfloor>" by (simp add: less_imp_le)
  then show "s \<in> set (neighbours \<bar>r\<bar> p) \<Longrightarrow> 0 \<le> s" by (auto simp: neighbours_def Let_def split: if_splits)
qed

lemma decimal_search_Some:
  assumes "decimal_search r p m = Some (s, q)" "r \<noteq> 0"
  shows "0 < s \<and> to_double (signed r (of_int s * pow10 q)) = NumFin r"
  using assms
proof (induction r p m rule: decimal_search.induct)
  case (2 r p m)
  show ?case
  proof (cases "find (\<lambda>s. to_double (signed r (of_int s * pow10 p)) = NumFin r) (neighbours \<bar>r\<bar> p)")
    case (Some k)
    then have k: "k \<in> set (neighbours \<bar>r\<bar> p)" "to_double (signed r (of_int k * pow10 p)) = NumFin r"
      by (auto simp: find_Some_iff)
    have "k \<noteq> 0" using k(2) 2(3) by (auto simp: to_double_def signed_def)
    then have "0 < k" using neighbours_nonneg [OF k(1)] by simp
    moreover have "of_int 10 * pow10 p = of_int 1 * pow10 (p + 1)" by (simp add: pow10_add pow10_def [of 1])
    ultimately show ?thesis using 2(2) k(2) Some by (auto split: if_splits)
  next
    case None
    then show ?thesis using 2 by simp
  qed
qed simp

lemma number_text_parse:
  assumes "number_text x = Some t" "stops r"
  shows "parse_number (t @ r) = Some (x, r) \<and> (\<exists>c u. t = c # u \<and> (c = 0x2D \<or> is_digit c))"
proof -
  obtain v where x: "x = NumFin v" using assms(1) by (auto simp: number_text_def split: jsnum.splits)
  show ?thesis
  proof (cases "as_safe_integer x")
    case (Some i)
    then have "t = int_text i" "x = num_int i" "safe_int i"
      using assms(1) by (simp_all add: number_text_def x) (simp_all add: as_safe_integer_eq_Some)
    then show ?thesis using parse_number_int_text [OF _ assms(2)] int_text_head by auto
  next
    case None
    then obtain s p where sp: "shortest_decimal v = Some (s, p)" "t = (if v < 0 then [0x2D] else []) @ decimal_text (nat s) p"
      using assms(1) by (auto simp: number_text_def x)
    have "v \<noteq> 0" using None by (auto simp: x as_safe_integer_def as_integer_def safe_int_def MAX_SAFE_INTEGER_def split: if_splits)
    with sp(1) have s: "0 < s" "to_double (signed v (of_int s * pow10 p)) = NumFin v"
      using decimal_search_Some by (auto simp: shortest_decimal_def Let_def)
    have "parse_number (((if v < 0 then [0x2D] else []) @ decimal_text (nat s) p) @ r) =
        Some (to_double ((if v < 0 then - 1 else 1) * (of_nat (nat s) * pow10 p)), r)"
      using parse_decimal_text [OF _ assms(2), of "nat s" "v < 0" p] s(1) by simp
    moreover have "of_nat (nat s) = (of_int s :: rat)" using s(1) by simp
    ultimately show ?thesis using s(2) decimal_text_head [of "nat s" p] by (auto simp: sp(2) x signed_def)
  qed
qed

lemma number_text_safe [simp]: "safe_int i \<Longrightarrow> number_text (num_int i) = Some (int_text i)"
  by (simp add: number_text_def as_safe_integer_def)

lemma number_text_numeral [simp]:
  "safe_int (numeral k) \<Longrightarrow> number_text (NumFin (numeral k)) = Some (int_text (numeral k))"
  "number_text (NumFin 1) = Some (int_text 1)" "number_text (NumFin 0) = Some (int_text 0)"
  using number_text_safe [of "numeral k"] number_text_safe [of 1] number_text_safe [of 0]
  by (simp_all add: safe_int_def MAX_SAFE_INTEGER_def)


section \<open>Binary64 values\<close>

definition binary64 :: "jsnum \<Rightarrow> bool" where
  "binary64 x \<longleftrightarrow> (case x of NumFin r \<Rightarrow> to_double r = NumFin r | _ \<Rightarrow> True)"

lemma pow2_powi: "pow2 e = 2 powi e"
  by (simp add: pow2_def power_int_def power_one_over inverse_eq_divide)

lemma pow2_add: "pow2 (a + b) = pow2 a * pow2 b"
  by (simp add: pow2_powi power_int_add)

lemma pow2_pos [simp]: "pow2 e > 0" "pow2 e \<noteq> 0"
  by (simp_all add: pow2_def)

lemma pow2_abs [simp]: "\<bar>pow2 e\<bar> = pow2 e"
  by (simp add: abs_of_pos)

lemma pow2_nat [simp]: "pow2 (int n) = 2 ^ n"
  by (simp add: pow2_def)

lemma pow2_mono: "a \<le> b \<Longrightarrow> pow2 a \<le> pow2 b"
  unfolding pow2_powi by (rule power_int_increasing) simp_all

lemma pow2_less: "pow2 a < pow2 b \<Longrightarrow> a < b"
  using pow2_mono [of b a] by (meson not_less)

lemma exponent2_bounds:
  assumes "0 < x"
  shows "pow2 (exponent2 x) \<le> x" "x < pow2 (exponent2 x + 1)"
proof -
  obtain n d where q: "quotient_of x = (n, d)" by fastforce
  have d: "0 < d" and x: "x = of_int n / of_int d" using quotient_of_denom_pos [OF q] quotient_of_div [OF q] by auto
  then have n: "0 < n" using assms by (simp add: zero_less_divide_iff)
  have bits: "pow2 (bitlen i - 1) \<le> of_int i" "of_int i < pow2 (bitlen i)" if "0 < i" for i
  proof -
    have "1 \<le> bitlen i" using that bitlen_eq_zero_iff [of i] bitlen_nonneg [of i] by linarith
    then have "pow2 (bitlen i - 1) = of_int (2 ^ nat (bitlen i - 1))" "pow2 (bitlen i) = of_int (2 ^ nat (bitlen i))"
      by (simp_all add: pow2_def)
    then show "pow2 (bitlen i - 1) \<le> of_int i" "of_int i < pow2 (bitlen i)"
      using bitlen_bounds [OF that] by (simp_all only: of_int_le_iff of_int_less_iff)
  qed
  let ?k = "bitlen n - bitlen d"
  have split: "pow2 (bitlen n) = pow2 (?k + 1) * pow2 (bitlen d - 1)" "pow2 (bitlen n - 1) = pow2 (?k - 1) * pow2 (bitlen d)"
    by (simp_all flip: pow2_add)
  have "pow2 (?k + 1) * pow2 (bitlen d - 1) \<le> pow2 (?k + 1) * of_int d"
    by (rule mult_left_mono [OF bits(1) [OF d]]) (simp add: less_imp_le)
  then have "of_int n < pow2 (?k + 1) * of_int d" using bits(2) [OF n] split(1) by linarith
  then have upper: "x < pow2 (?k + 1)" using d by (simp add: x divide_less_eq mult.commute)
  have "pow2 (?k - 1) * of_int d < pow2 (?k - 1) * pow2 (bitlen d)"
    by (rule mult_strict_left_mono [OF bits(2) [OF d]]) simp
  then have "pow2 (?k - 1) * of_int d < of_int n" using bits(1) [OF n] split(2) by linarith
  then have lower: "pow2 (?k - 1) < x" using d by (simp add: x less_divide_eq mult.commute)
  show "pow2 (exponent2 x) \<le> x" "x < pow2 (exponent2 x + 1)"
    using upper lower by (auto simp: exponent2_def q Let_def)
qed

lemma round_half_even_of_int [simp]: "round_half_even (of_int i) = i"
  by (simp add: round_half_even_def)

lemma round_half_even_bound:
  assumes "\<bar>y\<bar> < of_int m"
  shows "\<bar>round_half_even y\<bar> \<le> m"
proof -
  have "- m \<le> \<lfloor>y\<rfloor>" "\<lfloor>y\<rfloor> < m" using assms by (simp_all add: le_floor_iff floor_less_iff abs_less_iff minus_less_iff less_imp_le)
  then show ?thesis by (auto simp: round_half_even_def Let_def)
qed

text \<open>Rounding reaches a fixed point at once.\<close>

lemma to_double_grid:
  assumes "to_double x = NumFin y" "x \<noteq> 0"
  obtains e j where "- 1074 \<le> e" "y = pow2 e * of_int j" "\<bar>j\<bar> \<le> 2 ^ 53" "\<bar>y\<bar> < 2 ^ 1024"
proof -
  define e where "e = max (- 1074) (exponent2 \<bar>x\<bar> - 52)"
  define j where "j = round_half_even (x / pow2 e)"
  have y: "y = pow2 e * of_int j" "\<bar>y\<bar> < 2 ^ 1024"
    using assms by (auto simp: to_double_def Let_def e_def [symmetric] j_def [symmetric] split: if_splits)
  have "\<bar>x\<bar> < pow2 (exponent2 \<bar>x\<bar> + 1)" using exponent2_bounds(2) [of "\<bar>x\<bar>"] assms(2) by simp
  also have "\<dots> \<le> pow2 (53 + e)" by (rule pow2_mono) (simp add: e_def)
  also have "\<dots> = 2 ^ 53 * pow2 e" using pow2_nat [of 53] by (simp add: pow2_add)
  finally have "\<bar>x / pow2 e\<bar> < of_int (2 ^ 53)" by (simp add: abs_divide divide_less_eq less_imp_le)
  then have "\<bar>j\<bar> \<le> 2 ^ 53" unfolding j_def by (rule round_half_even_bound)
  then show ?thesis using that [of e j] y by (simp add: e_def)
qed

lemma to_double_exact:
  assumes "- 1074 \<le> e" "y = pow2 e * of_int j" "\<bar>j\<bar> \<le> 2 ^ 53" "\<bar>y\<bar> < 2 ^ 1024"
  shows "to_double y = NumFin y"
proof (cases "y = 0")
  case False
  define e' where "e' = max (- 1074) (exponent2 \<bar>y\<bar> - 52)"
  have "\<exists>i. y / pow2 e' = of_int i"
  proof (cases "e' \<le> e")
    case True
    then have "pow2 e = pow2 (int (nat (e - e'))) * pow2 e'" by (simp only: pow2_add [symmetric]) simp
    then have "pow2 e = 2 ^ nat (e - e') * pow2 e'" by (simp only: pow2_nat)
    then have "y / pow2 e' = of_int (2 ^ nat (e - e') * j)" by (simp add: assms(2))
    then show ?thesis by blast
  next
    case False
    then have big: "e + 53 \<le> exponent2 \<bar>y\<bar>" using assms(1) by (auto simp: e'_def)
    have "pow2 (e + 53) \<le> pow2 (exponent2 \<bar>y\<bar>)" by (rule pow2_mono [OF big])
    also have "\<dots> \<le> \<bar>y\<bar>" using exponent2_bounds(1) [of "\<bar>y\<bar>"] \<open>y \<noteq> 0\<close> by simp
    finally have low: "pow2 (e + 53) \<le> \<bar>y\<bar>" .
    have ten: "pow2 (e + 53) = pow2 e * of_int (2 ^ 53)" using pow2_nat [of 53] by (simp add: pow2_add)
    have absy: "\<bar>y\<bar> = pow2 e * of_int \<bar>j\<bar>" by (simp add: assms(2) abs_mult)
    have "of_int (2 ^ 53) \<le> (of_int \<bar>j\<bar> :: rat)" using low unfolding ten absy by simp
    then have j: "\<bar>j\<bar> = 2 ^ 53" using assms(3) by (simp only: of_int_le_iff)
    then have eq: "\<bar>y\<bar> = pow2 (e + 53)" using ten absy by simp
    have "pow2 (exponent2 \<bar>y\<bar>) \<le> \<bar>y\<bar>" using exponent2_bounds(1) [of "\<bar>y\<bar>"] \<open>y \<noteq> 0\<close> by simp
    also have "\<dots> < pow2 (e + 54)" unfolding eq by (simp add: pow2_powi power_int_strict_increasing)
    finally have "exponent2 \<bar>y\<bar> < e + 54" by (rule pow2_less)
    then have e': "e' = e + 1" using big assms(1) by (simp add: e'_def)
    have "even \<bar>j\<bar>" unfolding j by simp
    then obtain z where z: "j = 2 * z" by (auto elim: evenE)
    then have "y / pow2 e' = of_int z" by (simp add: assms(2) e' pow2_add pow2_def [of 1])
    then show ?thesis by blast
  qed
  then obtain i where i: "y / pow2 e' = of_int i" by blast
  then have "pow2 e' * of_int i = y" by (simp add: nonzero_divide_eq_eq mult.commute)
  with i assms(4) False show ?thesis by (simp add: to_double_def Let_def e'_def [symmetric])
qed (simp add: to_double_def)

lemma to_double_binary64 [simp]: "binary64 (to_double x)"
proof (cases "to_double x")
  case (NumFin y)
  have "to_double y = NumFin y"
  proof (cases "x = 0")
    case True
    then show ?thesis using NumFin by (simp add: to_double_def)
  next
    case False
    show ?thesis by (rule to_double_grid [OF NumFin False], rule to_double_exact)
  qed
  then show ?thesis by (simp add: NumFin binary64_def)
qed (simp_all add: binary64_def)

text \<open>Every finite binary64 value is printed: the last decimal of the search is the value itself.\<close>

lemma decimal_search_total:
  assumes "to_double r = NumFin r" "i < m" "\<bar>r\<bar> / pow10 (p - int i) = of_int j"
  shows "decimal_search r p m \<noteq> None"
  using assms(2,3)
proof (induction m arbitrary: p i)
  case (Suc m)
  show ?case
  proof (cases i)
    case 0
    let ?P = "\<lambda>s. to_double (signed r (of_int s * pow10 p)) = NumFin r"
    have j: "\<bar>r\<bar> / pow10 p = of_int j" using Suc.prems 0 by simp
    then have "of_int j * pow10 p = \<bar>r\<bar>" by (simp add: divide_eq_eq)
    moreover have "signed r \<bar>r\<bar> = r" by (simp add: signed_def)
    ultimately have "?P j" using assms(1) by simp
    moreover have "j \<in> set (neighbours \<bar>r\<bar> p)" by (simp add: neighbours_def Let_def j)
    ultimately have "find ?P (neighbours \<bar>r\<bar> p) \<noteq> None" by (auto simp: find_None_iff)
    then show ?thesis by auto
  next
    case (Suc i')
    have "p - int i = p - 1 - int i'" using Suc by simp
    with Suc.prems(2) have "\<bar>r\<bar> / pow10 (p - 1 - int i') = of_int j" by (simp only:)
    then have "decimal_search r (p - 1) m \<noteq> None" using Suc.IH [of i' "p - 1"] Suc.prems(1) Suc by blast
    then show ?thesis by (auto split: option.split)
  qed
qed simp

lemma grid_decimal:
  assumes "- int N \<le> e" "r = pow2 e * of_int j"
  shows "\<exists>i. \<bar>r\<bar> / pow10 (- int (N + b)) = of_int i"
proof -
  have "pow10 (- int (N + b)) = 1 / 10 ^ (N + b)" by (simp only: pow10_powi power_int_minus power_int_of_nat inverse_eq_divide)
  also have "\<dots> = 1 / (2 ^ N * (5 ^ N * 10 ^ b))" by (simp add: power_add power_mult_distrib [symmetric] mult.assoc [symmetric])
  finally have "\<bar>r\<bar> / pow10 (- int (N + b)) = \<bar>of_int j\<bar> * (pow2 e * 2 ^ N) * (5 ^ N * 10 ^ b)"
    by (simp add: assms(2) abs_mult)
  moreover have "pow2 e * pow2 (int N) = pow2 (int (nat (e + int N)))"
    using assms(1) by (simp only: pow2_add [symmetric]) simp
  then have "pow2 e * 2 ^ N = 2 ^ nat (e + int N)" by (simp only: pow2_nat)
  ultimately have "\<bar>r\<bar> / pow10 (- int (N + b)) = of_int (\<bar>j\<bar> * 2 ^ nat (e + int N) * (5 ^ N * 10 ^ b))" by simp
  then show ?thesis by blast
qed

lemma number_text_total:
  assumes "binary64 (NumFin r)"
  shows "number_text (NumFin r) \<noteq> None"
proof -
  have r: "to_double r = NumFin r" using assms by (simp add: binary64_def)
  let ?n = "decimal_exponent \<bar>r\<bar>"
  define m where "m = max 1 (nat (?n + 1074))"
  obtain e j where ej: "- int 1074 \<le> e" "r = pow2 e * of_int j"
  proof (cases "r = 0")
    case True
    then show ?thesis using that [of 0 0] by simp
  next
    case False
    show ?thesis by (rule to_double_grid [OF r False]) (rule that, simp_all)
  qed
  define b where "b = nat (int m - ?n - 1074)"
  have m: "nat (?n + 1074) \<le> m" "1 \<le> m" by (simp_all add: m_def)
  then have last: "?n - 1 - int (m - 1) = - int (1074 + b)" by (simp add: nat_le_iff b_def)
  obtain i where "\<bar>r\<bar> / pow10 (?n - 1 - int (m - 1)) = of_int i" using grid_decimal [OF ej, of b] unfolding last by blast
  then have "shortest_decimal r \<noteq> None"
    unfolding shortest_decimal_def Let_def m_def [symmetric] using m(2) by (intro decimal_search_total [OF r, of "m - 1"]) simp_all
  then show ?thesis by (auto simp: number_text_def split: option.splits)
qed

end
