(* ===== verification/Step_System.thy ===== *)
theory Step_System
  imports Main
begin

text \<open>
  The interface of a reducer: a state machine given by its initial state and its step function,
  with an invariant it promises. The clients' facts (every reachable state, every run) are
  proved once here; each reducer of the program interprets the locale with its own step.
\<close>

inductive reachable :: "'s \<Rightarrow> ('s \<Rightarrow> 'e \<Rightarrow> 's) \<Rightarrow> 's \<Rightarrow> bool" for init step where
  reachable_init: "reachable init step init"
| reachable_step: "reachable init step s \<Longrightarrow> reachable init step (step s e)"

lemma reachable_foldl: "reachable init step (foldl step init es)"
  by (induction es rule: rev_induct) (auto intro: reachable.intros)

lemma reachable_iff_foldl: "reachable init step s \<longleftrightarrow> (\<exists>es. s = foldl step init es)"
proof
  assume "reachable init step s"
  then show "\<exists>es. s = foldl step init es"
  proof induction
    case reachable_init
    show ?case by (rule exI [of _ "[]"]) simp
  next
    case (reachable_step s e)
    then obtain es where "s = foldl step init es" by blast
    then show ?case by (intro exI [of _ "es @ [e]"]) simp
  qed
qed (auto intro: reachable_foldl)

locale step_system =
  fixes init :: 's and step :: "'s \<Rightarrow> 'e \<Rightarrow> 's" and inv :: "'s \<Rightarrow> bool"
  assumes init_inv: "inv init"
    and step_inv: "inv s \<Longrightarrow> inv (step s e)"
begin

lemma reachable_inv: "reachable init step s \<Longrightarrow> inv s"
  by (induction rule: reachable.induct) (auto intro: init_inv step_inv)

lemma foldl_inv: "inv s \<Longrightarrow> inv (foldl step s es)"
  by (induction es arbitrary: s) (auto intro: step_inv)

end

text \<open>
  A system with a relation between the states before and after a step that is kept by
  composition, such as an order on what the state remembers.
\<close>

locale monotone_system = step_system init step inv
  for init :: 's and step :: "'s \<Rightarrow> 'e \<Rightarrow> 's" and inv :: "'s \<Rightarrow> bool" +
  fixes later :: "'s \<Rightarrow> 's \<Rightarrow> bool"
  assumes later_refl: "later s s"
    and later_trans: "later s t \<Longrightarrow> later t u \<Longrightarrow> later s u"
    and step_later: "inv s \<Longrightarrow> later s (step s e)"
begin

lemma foldl_later: "inv s \<Longrightarrow> later s (foldl step s es)"
proof (induction es arbitrary: s)
  case (Cons e es)
  then have "later (step s e) (foldl step (step s e) es)" by (simp add: step_inv)
  with step_later [OF Cons.prems] show ?case using later_trans by fastforce
qed (simp add: later_refl)

end

end
