(* ===== verification/Parent_Transcript.thy ===== *)
theory Parent_Transcript
  imports Json_Number Step_System
begin

text \<open>
  The transcript of the parent conversation, \<open>src/app/src/entities/messages/parentTranscriptReducer.ts\<close>, with the types of
  \<open>entities/messages/types.ts\<close>. The reducer keeps a window of the latest messages, bounded in number and in text.

  A message of an event is a tree, since \<open>sanitizeMessage\<close> trusts nothing about it; the cursor and the number of omitted messages have their
  declared types. The conversion of a tool's status by \<open>String\<close> can throw, and so can the reducer: \<open>Inl\<close>. What is left of the text
  budget is an integer, as in the code; the loop invariant \<open>window\<close> shows that it never becomes negative. The theorems are that the window is bounded
  and shows text only in every run, that it has the newest messages, that text within the budget is shown unchanged, and when the reducer throws.
\<close>


section \<open>Numbers and characters\<close>

fun num_add :: "jsnum \<Rightarrow> jsnum \<Rightarrow> jsnum" where
  "num_add (NumFin a) (NumFin b) = to_double (a + b)"
| "num_add (NumInf p) (NumInf q) = (if p = q then NumInf p else NumNaN)"
| "num_add (NumInf p) (NumFin b) = NumInf p"
| "num_add (NumFin a) (NumInf q) = NumInf q"
| "num_add _ _ = NumNaN"

fun num_less :: "jsnum \<Rightarrow> jsnum \<Rightarrow> bool" where
  "num_less (NumFin a) (NumFin b) = (a < b)"
| "num_less (NumInf p) (NumInf q) = (\<not> p \<and> q)"
| "num_less (NumInf p) (NumFin b) = (\<not> p)"
| "num_less (NumFin a) (NumInf q) = q"
| "num_less _ _ = False"

text \<open>\<open>Array.from\<close> of a string: its characters, a surrogate pair being one.\<close>

fun characters :: "jsstr \<Rightarrow> jsstr list" where
  "characters [] = []"
| "characters [c] = [[c]]"
| "characters (c # d # s) =
     (if is_high c \<and> is_low d then [c, d] # characters s else [c] # characters (d # s))"

abbreviation size_of :: "jsstr \<Rightarrow> int" where
  "size_of s \<equiv> int (length (characters s))"


section \<open>Types\<close>

record HarnessCursor =
  runtimeGeneration :: jsstr
  sequence :: jsnum

datatype MessageBlock =
    Text_Block jsstr
  | Thinking_Block jsstr bool
  | Tool_Call jsstr jsstr jtree

datatype ParentMessage =
    User_Message (message_id: jsstr) jsstr jsnum
  | Notice_Message (message_id: jsstr) jsstr jsnum
  | Assistant_Message (message_id: jsstr) "MessageBlock list" bool jsnum

record ParentTranscriptState =
  cursor :: "HarnessCursor option"
  messages :: "ParentMessage list"
  omittedBefore :: jsnum
  payloadClipped :: bool

datatype ParentTranscriptEvent =
    Snapshot_Event HarnessCursor "jtree list" jsnum
  | Message_Event HarnessCursor jtree

fun event_cursor :: "ParentTranscriptEvent \<Rightarrow> HarnessCursor" where
  "event_cursor (Snapshot_Event c _ _) = c"
| "event_cursor (Message_Event c _) = c"

fun is_snapshot :: "ParentTranscriptEvent \<Rightarrow> bool" where
  "is_snapshot (Snapshot_Event _ _ _) = True"
| "is_snapshot (Message_Event _ _) = False"

fun is_assistant :: "ParentMessage \<Rightarrow> bool" where
  "is_assistant (Assistant_Message _ _ _ _) = True"
| "is_assistant _ = False"


section \<open>Bounding the text\<close>

definition MAX_PARENT_MESSAGES :: nat where
  "MAX_PARENT_MESSAGES = 300"

definition MAX_PARENT_TEXT_CHARS :: int where
  "MAX_PARENT_TEXT_CHARS = 128 * 1024"

definition createEmptyParentTranscript :: ParentTranscriptState where
  "createEmptyParentTranscript = \<lparr>cursor = None, messages = [], omittedBefore = NumFin 0, payloadClipped = False\<rparr>"

definition CLIPPED_TEXT :: jsstr where
  "CLIPPED_TEXT = 0x0A # 0x0A # js ''[Content clipped in this view]''"

definition clipText :: "jsstr \<Rightarrow> int \<Rightarrow> jsstr \<times> bool" where
  "clipText v limit =
     (if size_of v \<le> limit then (v, False)
      else let suffix = concat (take (nat (max 0 limit)) (characters CLIPPED_TEXT))
           in (concat (take (nat (max 0 (limit - int (length suffix)))) (characters v)) @ suffix, True))"

text \<open>The state of the loop over the messages, from the newest to the oldest.\<close>

record bound_state =
  remaining :: int
  clipped :: bool
  dropped :: nat
  retained :: "ParentMessage list"

text \<open>The text blocks of a message, and the loop over them.\<close>

fun text_blocks :: "MessageBlock list \<Rightarrow> jsstr list" where
  "text_blocks [] = []"
| "text_blocks (Text_Block t # bs) = t # text_blocks bs"
| "text_blocks (_ # bs) = text_blocks bs"

fun bound_blocks :: "jsstr list \<Rightarrow> int \<Rightarrow> bool \<Rightarrow> MessageBlock list \<times> int \<times> bool" where
  "bound_blocks [] left clip = ([], left, clip)"
| "bound_blocks (t # ts) left clip =
     (if left = 0 then ([], left, True)
      else let (v, c) = clipText t left;
               (bs, left', clip') = bound_blocks ts (left - size_of v) (clip \<or> c)
           in (Text_Block v # bs, left', clip'))"

text \<open>The message that carries only text, and the loop over messages.\<close>

definition bound_text :: "(jsstr \<Rightarrow> ParentMessage) \<Rightarrow> jsstr \<Rightarrow> bound_state \<Rightarrow> bound_state" where
  "bound_text mk text st =
     (let (v, c) = clipText text (remaining st)
      in st\<lparr>retained := retained st @ [mk v], remaining := remaining st - size_of v, clipped := clipped st \<or> c\<rparr>)"

fun bound_message :: "ParentMessage \<Rightarrow> bound_state \<Rightarrow> bound_state" where
  "bound_message (User_Message i text w) st = bound_text (\<lambda>v. User_Message i v w) text st"
| "bound_message (Notice_Message i text w) st = bound_text (\<lambda>v. Notice_Message i v w) text st"
| "bound_message (Assistant_Message i blocks streaming w) st =
     (if text_blocks blocks = []
      then if streaming then st\<lparr>retained := retained st @ [Assistant_Message i [] streaming w]\<rparr> else st
      else let (bs, left, clip) = bound_blocks (text_blocks blocks) (remaining st) (clipped st)
           in st\<lparr>retained := retained st @ [Assistant_Message i bs streaming w], remaining := left, clipped := clip\<rparr>)"

definition bound_step :: "bound_state \<Rightarrow> ParentMessage \<Rightarrow> bound_state" where
  "bound_step st m =
     (if remaining st = 0 then st\<lparr>dropped := dropped st + 1, clipped := True\<rparr> else bound_message m st)"

definition bound_start :: bound_state where
  "bound_start = \<lparr>remaining = MAX_PARENT_TEXT_CHARS, clipped = False, dropped = 0, retained = []\<rparr>"

definition boundAggregateText :: "ParentMessage list \<Rightarrow> ParentMessage list \<times> nat \<times> bool" where
  "boundAggregateText ms =
     (let st = foldl bound_step bound_start (rev ms) in (rev (retained st), dropped st, clipped st))"


section \<open>Reading messages\<close>

fun validIdentity :: "jtree \<Rightarrow> bool" where
  "validIdentity (TPrim (PStr s)) = (0 < length s \<and> length s \<le> 1024)"
| "validIdentity _ = False"

text \<open>
  \<open>String(v)\<close>, as far as its comparison with the words for a status needs it: \<open>Inr (Some s)\<close> if the text is the string \<open>s\<close>, \<open>Inr None\<close> if it is
  no such word (the other primitive values; \<open>[object Object]\<close>; a list joined by commas). An array joins the texts of its members;
  an object with a member \<open>toString\<close>, which is data and hence not callable, has no text, and \<open>String\<close> throws a \<open>TypeError\<close>.
\<close>

fun String_text :: "jtree \<Rightarrow> js_error + jsstr option" where
  "String_text (TPrim (PStr s)) = Inr (Some s)"
| "String_text (TPrim _) = Inr None"
| "String_text (TObj fs) =
     (if map_of fs (js ''toString'') = None then Inr None
      else Inl (TypeError ''Cannot convert object to primitive value''))"
| "String_text (TArr ts) =
     (case find (\<lambda>r. case r of Inl _ \<Rightarrow> True | Inr _ \<Rightarrow> False) (map String_text ts) of
        Some (Inl e) \<Rightarrow> Inl e
      | _ \<Rightarrow> (case ts of [t] \<Rightarrow> String_text t | _ \<Rightarrow> Inr None))"

definition TOOL_STATUSES :: "jsstr list" where
  "TOOL_STATUSES = [js ''pending'', js ''running'', js ''blocked'', js ''succeeded'', js ''failed'']"

text \<open>A block of the message: the block to push and its text, whether it was cut, or \<open>Inr None\<close> for a block that is left out.\<close>

fun is_string :: "jtree \<Rightarrow> bool" where
  "is_string (TPrim (PStr _)) = True"
| "is_string _ = False"

fun the_string :: "jtree \<Rightarrow> jsstr" where
  "the_string (TPrim (PStr s)) = s"
| "the_string _ = []"

fun is_boolean :: "jtree \<Rightarrow> bool" where
  "is_boolean (TPrim (PBool _)) = True"
| "is_boolean _ = False"

fun the_boolean :: "jtree \<Rightarrow> bool" where
  "the_boolean (TPrim (PBool b)) = b"
| "the_boolean _ = False"

definition tool_call :: "(jsstr \<times> jtree) list \<Rightarrow> js_error + bool" where
  "tool_call block =
     (if field block ''kind'' = TStr (js ''tool_call'') \<and> validIdentity (field block ''toolCallId'') \<and> validIdentity (field block ''toolId'')
      then ebind (String_text (field block ''status'')) (\<lambda>s. Inr (case s of None \<Rightarrow> False | Some w \<Rightarrow> w \<in> set TOOL_STATUSES))
      else Inr False)"

fun sanitize_blocks :: "jtree list \<Rightarrow> int \<Rightarrow> bool \<Rightarrow> js_error + (MessageBlock list \<times> bool)" where
  "sanitize_blocks [] left clip = Inr ([], clip)"
| "sanitize_blocks (TObj block # cs) left clip =
     (let kind = field block ''kind''; text = field block ''text''; redacted = field block ''redacted''; (v, c) = clipText (the_string text) left
      in if kind = TStr (js ''text'') \<and> is_string text then
           ebind (sanitize_blocks cs (max 0 (left - size_of v)) (clip \<or> c)) (\<lambda>(bs, clip'). Inr (Text_Block v # bs, clip'))
         else if kind = TStr (js ''thinking'') \<and> is_string text \<and> is_boolean redacted then
           ebind (sanitize_blocks cs (max 0 (left - size_of v)) (clip \<or> c)) (\<lambda>(bs, clip'). Inr (Thinking_Block v (the_boolean redacted) # bs, clip'))
         else ebind (tool_call block) (\<lambda>ok.
           if ok then
             ebind (sanitize_blocks cs left clip) (\<lambda>(bs, clip').
               Inr (Tool_Call (the_string (field block ''toolCallId'')) (the_string (field block ''toolId'')) (field block ''status'') # bs, clip'))
           else sanitize_blocks cs left True))"
| "sanitize_blocks (_ # cs) left clip = sanitize_blocks cs left clip"

fun time_value :: "jtree \<Rightarrow> jsnum option" where
  "time_value (TPrim (PNum (NumFin r))) = (if r < 0 then None else Some (NumFin r))"
| "time_value _ = None"

text \<open>The message by its kind, once its identity \<open>i\<close> and its time \<open>w\<close> are known; \<open>Inr None\<close> is the result \<open>null\<close>.\<close>

definition sanitize_kind :: "(jsstr \<times> jtree) list \<Rightarrow> jsstr \<Rightarrow> jsnum \<Rightarrow> js_error + (ParentMessage \<times> bool) option" where
  "sanitize_kind fs i w =
     (let kind = field fs ''kind''; text = clipText (the_string (field fs ''text'')) MAX_PARENT_TEXT_CHARS
      in if kind = TStr (js ''user'') \<or> kind = TStr (js ''notice'') then
           if \<not> is_string (field fs ''text'') then Inr None
           else if kind = TStr (js ''user'') then Inr (Some (User_Message i (fst text) w, snd text))
           else Inr (Some (Notice_Message i (fst text) w, snd text))
         else if kind \<noteq> TStr (js ''assistant'') \<or> \<not> is_boolean (field fs ''streaming'') then Inr None
         else case field fs ''blocks'' of
           TArr cs \<Rightarrow>
             ebind (sanitize_blocks (take 256 cs) MAX_PARENT_TEXT_CHARS (length cs > 256)) (\<lambda>r.
               Inr (Some (Assistant_Message i (fst r) (the_boolean (field fs ''streaming'')) w, snd r)))
         | _ \<Rightarrow> Inr None)"

fun sanitizeMessage :: "jtree \<Rightarrow> js_error + (ParentMessage \<times> bool) option" where
  "sanitizeMessage (TObj fs) =
     (if field fs ''channel'' \<noteq> TStr (js ''parent'') \<or> \<not> validIdentity (field fs ''id'') then Inr None
      else case time_value (field fs ''emittedAtMs'') of
        None \<Rightarrow> Inr None
      | Some w \<Rightarrow> sanitize_kind fs (the_string (field fs ''id'')) w)"
| "sanitizeMessage _ = Inr None"


section \<open>The reducer\<close>

definition cursorAdvances :: "ParentTranscriptState \<Rightarrow> ParentTranscriptEvent \<Rightarrow> bool" where
  "cursorAdvances state event =
     (let c = event_cursor event
      in case as_safe_integer (sequence c) of
           None \<Rightarrow> False
         | Some n \<Rightarrow>
             if \<not> validIdentity (TStr (runtimeGeneration c)) \<or> n < 0 then False
             else case cursor state of
               None \<Rightarrow> is_snapshot event
             | Some known \<Rightarrow>
                 if runtimeGeneration c \<noteq> runtimeGeneration known then is_snapshot event
                 else num_less (sequence known) (sequence c))"

text \<open>\<open>event.messages.map(sanitizeMessage).filter(...)\<close>: an exception of one message is one of the whole.\<close>

fun sanitize_all :: "jtree list \<Rightarrow> js_error + (ParentMessage \<times> bool) list" where
  "sanitize_all [] = Inr []"
| "sanitize_all (m # ms) =
     ebind (sanitizeMessage m) (\<lambda>r. ebind (sanitize_all ms) (\<lambda>rs.
       Inr (case r of None \<Rightarrow> rs | Some x \<Rightarrow> x # rs)))"

definition newest :: "nat \<Rightarrow> 'a list \<Rightarrow> 'a list" where
  "newest n xs = drop (length xs - n) xs"

text \<open>The state with the messages \<open>ms\<close> within the text budget.\<close>

definition bounded_state :: "HarnessCursor \<Rightarrow> ParentMessage list \<Rightarrow> jsnum \<Rightarrow> bool \<Rightarrow> ParentTranscriptState" where
  "bounded_state c ms omitted short =
     (let (bounded, lost, clip) = boundAggregateText ms
      in \<lparr>cursor = Some c, messages = bounded, omittedBefore = num_add omitted (num_int (int lost)), payloadClipped = (short \<or> clip)\<rparr>)"

definition snapshot_state :: "ParentTranscriptState \<Rightarrow> HarnessCursor \<Rightarrow> jtree list \<Rightarrow> jsnum \<Rightarrow> js_error + ParentTranscriptState" where
  "snapshot_state state c ms omitted =
     (case as_safe_integer omitted of
        None \<Rightarrow> Inr state
      | Some n \<Rightarrow>
          if n < 0 then Inr state
          else ebind (sanitize_all ms) (\<lambda>sanitized.
            let kept = newest MAX_PARENT_MESSAGES sanitized
            in Inr (bounded_state c (map fst kept)
                 (num_add omitted (num_int (max 0 (int (length sanitized) - int (length kept)))))
                 (list_ex snd sanitized \<or> length sanitized \<noteq> length ms))))"

text \<open>The messages and the omissions after a message has come, before the text is bounded; \<open>None\<close> if the message is ignored.\<close>

definition next_messages :: "ParentTranscriptState \<Rightarrow> ParentMessage \<Rightarrow> (ParentMessage list \<times> jsnum) option" where
  "next_messages state m =
     (case findIndex (\<lambda>x. message_id x = message_id m) (messages state) of
        Some i \<Rightarrow>
          if \<not> is_assistant (messages state ! i) \<or> \<not> is_assistant m then None
          else Some ((messages state)[i := m], omittedBefore state)
      | None \<Rightarrow>
          let appended = messages state @ [m]
          in Some (newest MAX_PARENT_MESSAGES appended,
                   num_add (omittedBefore state) (num_int (max 0 (int (length appended) - int MAX_PARENT_MESSAGES)))))"

definition message_state :: "ParentTranscriptState \<Rightarrow> HarnessCursor \<Rightarrow> jtree \<Rightarrow> js_error + ParentTranscriptState" where
  "message_state state c v =
     ebind (sanitizeMessage v) (\<lambda>r.
       case r of
         None \<Rightarrow> Inr state
       | Some (m, short) \<Rightarrow>
           (case next_messages state m of
              None \<Rightarrow> Inr state
            | Some (nextMessages, omitted) \<Rightarrow> Inr (bounded_state c nextMessages omitted (payloadClipped state \<or> short))))"

definition reduceParentTranscript :: "ParentTranscriptState \<Rightarrow> ParentTranscriptEvent \<Rightarrow> js_error + ParentTranscriptState" where
  "reduceParentTranscript state event =
     (if \<not> cursorAdvances state event then Inr state
      else case event of
        Snapshot_Event c ms omitted \<Rightarrow> snapshot_state state c ms omitted
      | Message_Event c m \<Rightarrow> message_state state c m)"

text \<open>A run: an event on which the reducer throws leaves the caller with the state it had.\<close>

definition transcript_step :: "ParentTranscriptState \<Rightarrow> ParentTranscriptEvent \<Rightarrow> ParentTranscriptState" where
  "transcript_step s e = (case reduceParentTranscript s e of Inl _ \<Rightarrow> s | Inr t \<Rightarrow> t)"


section \<open>Characters and clipping\<close>

lemma concat_characters [simp]: "concat (characters s) = s"
  by (induction s rule: characters.induct) auto

lemma characters_append:
  "t = [] \<or> \<not> is_low (hd t) \<Longrightarrow> characters (s @ t) = characters s @ characters t"
proof (induction s rule: characters.induct)
  case (2 c)
  then show ?case by (cases t) auto
qed auto

lemma characters_take [simp]: "characters (concat (take k (characters s))) = take k (characters s)"
proof (induction s arbitrary: k rule: characters.induct)
  case (2 c)
  then show ?case by (cases k) auto
next
  case (3 c d s)
  show ?case
  proof (cases k)
    case (Suc k')
    show ?thesis
    proof (cases "is_high c \<and> is_low d")
      case True
      with 3 Suc show ?thesis by simp
    next
      case False
      have u: "concat (take k' (characters (d # s))) = [] \<or> hd (concat (take k' (characters (d # s)))) = d"
        by (cases k'; cases s) auto
      have "characters ([c] @ concat (take k' (characters (d # s)))) = [c] # take k' (characters (d # s))"
        using u 3(2) [OF False, of k'] False by (cases "concat (take k' (characters (d # s)))") auto
      then show ?thesis using False Suc by auto
    qed
  qed simp
qed simp

lemma characters_clipped_text: "characters CLIPPED_TEXT = map (\<lambda>c. [c]) CLIPPED_TEXT"
  by code_simp

lemma length_clipped_text [simp]: "length CLIPPED_TEXT = 32"
  by (simp add: CLIPPED_TEXT_def)

lemma clipped_text_suffix: "concat (take n (characters CLIPPED_TEXT)) = take n CLIPPED_TEXT"
  by (simp add: characters_clipped_text take_map)

lemma characters_clipped_suffix: "length (characters (take n CLIPPED_TEXT)) = min n 32"
  using characters_take [of n CLIPPED_TEXT] by (simp add: clipped_text_suffix) (simp add: characters_clipped_text)

lemma clipped_suffix_start: "take n CLIPPED_TEXT = [] \<or> \<not> is_low (hd (take n CLIPPED_TEXT))"
  by (cases n) (simp_all add: CLIPPED_TEXT_def is_low_def)

lemma clipText_fits [simp]: "size_of v \<le> limit \<Longrightarrow> clipText v limit = (v, False)"
  by (simp add: clipText_def)

lemma clipText_cuts:
  assumes "0 \<le> limit" "limit < size_of v"
  shows "\<exists>u. clipText v limit = (u, True) \<and> size_of u = limit"
  using assms
  by (simp add: clipText_def Let_def clipped_text_suffix characters_append [OF clipped_suffix_start] characters_clipped_suffix)
    (auto simp: min_def)

lemma clipText_cases:
  assumes "0 \<le> limit"
  obtains (fits) "clipText v limit = (v, False)" "size_of v \<le> limit"
  | (cuts) u where "clipText v limit = (u, True)" "size_of u = limit" "limit < size_of v"
  using clipText_cuts [OF assms, of v] by (cases "size_of v \<le> limit") (auto simp: clipText_def)


section \<open>The window\<close>

text \<open>What a message shows: its text, if there is any, and the fact that it is still coming.\<close>

definition blocks_size :: "MessageBlock list \<Rightarrow> int" where
  "blocks_size bs = sum_list (map size_of (text_blocks bs))"

fun text_size :: "ParentMessage \<Rightarrow> int" where
  "text_size (User_Message _ t _) = size_of t"
| "text_size (Notice_Message _ t _) = size_of t"
| "text_size (Assistant_Message _ bs _ _) = blocks_size bs"

definition total_text :: "ParentMessage list \<Rightarrow> int" where
  "total_text ms = sum_list (map text_size ms)"

fun has_content :: "ParentMessage \<Rightarrow> bool" where
  "has_content (Assistant_Message _ bs streaming _) = (text_blocks bs \<noteq> [] \<or> streaming)"
| "has_content _ = True"

fun only_text :: "ParentMessage \<Rightarrow> ParentMessage" where
  "only_text (Assistant_Message i bs streaming w) = Assistant_Message i (map Text_Block (text_blocks bs)) streaming w"
| "only_text m = m"

lemma text_blocks_map [simp]: "text_blocks (map Text_Block ts) = ts"
  by (induction ts) auto

lemma only_text_simps [simp]:
  "message_id (only_text m) = message_id m" "text_size (only_text m) = text_size m"
  "has_content (only_text m) = has_content m" "only_text (only_text m) = only_text m"
  by (cases m; simp add: blocks_size_def)+

lemma blocks_size_simps [simp]: "blocks_size [] = 0" "blocks_size (Text_Block t # bs) = size_of t + blocks_size bs"
  by (simp_all add: blocks_size_def)

lemma blocks_size_nonneg: "0 \<le> blocks_size bs"
  unfolding blocks_size_def by (rule sum_list_nonneg) auto

lemma blocks_size_map: "blocks_size (map Text_Block ts) = sum_list (map size_of ts)"
  by (simp add: blocks_size_def)

lemma bound_blocks_spec:
  assumes "0 \<le> left" "bound_blocks ts left clip = (bs, left', clip')"
  shows "0 \<le> left' \<and> left' = left - blocks_size bs \<and> bs = map Text_Block (text_blocks bs) \<and> (clip \<longrightarrow> clip') \<and>
    blocks_size bs \<le> sum_list (map size_of ts) \<and> (ts \<noteq> [] \<and> left \<noteq> 0 \<longrightarrow> bs \<noteq> []) \<and>
    (\<not> clip' \<longrightarrow> bs = map Text_Block ts) \<and> (clip' \<and> \<not> clip \<longrightarrow> left' = 0)"
  using assms
proof (induction ts left clip arbitrary: bs left' clip' rule: bound_blocks.induct)
  case (2 t ts left clip)
  show ?case
  proof (cases "left = 0")
    case True
    moreover have "0 \<le> sum_list (map size_of ts)" by (rule sum_list_nonneg) auto
    ultimately show ?thesis using 2(3) by auto
  next
    case False
    obtain v c where v: "clipText t left = (v, c)" by force
    obtain bs1 left1 clip1 where r: "bound_blocks ts (left - size_of v) (clip \<or> c) = (bs1, left1, clip1)"
      by (metis prod_cases3)
    have vs: "size_of v \<le> left \<and> size_of v \<le> size_of t \<and> (\<not> c \<longrightarrow> v = t) \<and> (c \<longrightarrow> size_of v = left)"
      using 2(2) v by (cases rule: clipText_cases [of left t]) auto
    have eq: "bs = Text_Block v # bs1" "left' = left1" "clip' = clip1"
      using 2(3) False v r by auto
    note IH = 2(1) [OF False v [symmetric] refl _ r]
    show ?thesis using IH vs blocks_size_nonneg [of bs1] unfolding eq by auto
  qed
qed auto

text \<open>One message: it is shown as it is, without its other blocks, unless it is cut and then fills the window.\<close>

lemma bound_message_spec:
  assumes "0 < remaining st" "\<not> clipped st" "has_content m"
  obtains m' where "retained (bound_message m st) = retained st @ [m']" "dropped (bound_message m st) = dropped st"
    "message_id m' = message_id m" "only_text m' = m'" "has_content m'" "text_size m' \<le> text_size m"
    "remaining (bound_message m st) = remaining st - text_size m'" "0 \<le> remaining (bound_message m st)"
    "\<not> clipped (bound_message m st) \<Longrightarrow> m' = only_text m" "clipped (bound_message m st) \<Longrightarrow> remaining (bound_message m st) = 0"
proof (cases m)
  case (User_Message i t w)
  have "0 \<le> remaining st" using assms(1) by simp
  then show thesis
  proof (cases rule: clipText_cases [where v = t])
    case fits
    with User_Message assms show thesis by (intro that [of "User_Message i t w"]) (auto simp: bound_text_def)
  next
    case (cuts u)
    with User_Message assms show thesis by (intro that [of "User_Message i u w"]) (auto simp: bound_text_def)
  qed
next
  case (Notice_Message i t w)
  have "0 \<le> remaining st" using assms(1) by simp
  then show thesis
  proof (cases rule: clipText_cases [where v = t])
    case fits
    with Notice_Message assms show thesis by (intro that [of "Notice_Message i t w"]) (auto simp: bound_text_def)
  next
    case (cuts u)
    with Notice_Message assms show thesis by (intro that [of "Notice_Message i u w"]) (auto simp: bound_text_def)
  qed
next
  case (Assistant_Message i bs str w)
  show thesis
  proof (cases "text_blocks bs = []")
    case True
    with Assistant_Message assms show thesis
      by (intro that [of "Assistant_Message i [] str w"]) (auto simp: blocks_size_def)
  next
    case False
    obtain cs left clip where r: "bound_blocks (text_blocks bs) (remaining st) (clipped st) = (cs, left, clip)"
      by (metis prod_cases3)
    have spec: "0 \<le> left \<and> left = remaining st - blocks_size cs \<and> cs = map Text_Block (text_blocks cs) \<and>
      blocks_size cs \<le> blocks_size bs \<and> cs \<noteq> [] \<and> (\<not> clip \<longrightarrow> cs = map Text_Block (text_blocks bs)) \<and> (clip \<longrightarrow> left = 0)"
      using bound_blocks_spec [OF _ r] assms(1,2) False by (auto simp: blocks_size_def)
    then have "text_blocks cs \<noteq> []" by (metis list.map_disc_iff)
    with spec show thesis
      by (intro that [of "Assistant_Message i cs str w"]) (use Assistant_Message False r in auto)
  qed
qed

lemma bound_message_hidden: "\<not> has_content m \<Longrightarrow> bound_message m st = st"
  by (cases m) auto

lemma total_text_simps [simp]:
  "total_text [] = 0" "total_text (xs @ ys) = total_text xs + total_text ys" "total_text (m # xs) = text_size m + total_text xs"
  "total_text (rev xs) = total_text xs"
  by (simp_all add: total_text_def rev_map [symmetric] sum_list_rev)

lemma text_size_nonneg: "0 \<le> text_size m"
  by (cases m) (auto simp: blocks_size_nonneg)

lemma total_text_nonneg: "0 \<le> total_text ms"
  unfolding total_text_def by (rule sum_list_nonneg) (auto simp: text_size_nonneg)

text \<open>
  What the loop has done with the messages seen so far (the newest first): those in \<open>newer\<close> are shown, the rest is dropped. Nothing is lost
  before the window is full, and only the last message kept can be cut.
\<close>

definition window :: "ParentMessage list \<Rightarrow> bound_state \<Rightarrow> bool" where
  "window seen st \<longleftrightarrow> (\<exists>newer older. seen = newer @ older \<and> dropped st = length older \<and>
     map message_id (retained st) = map message_id (filter has_content newer) \<and>
     butlast (retained st) = butlast (map only_text (filter has_content newer)) \<and>
     (\<not> clipped st \<longrightarrow> older = [] \<and> retained st = map only_text (filter has_content newer)) \<and>
     (clipped st \<longrightarrow> remaining st = 0) \<and>
     remaining st = MAX_PARENT_TEXT_CHARS - total_text (retained st) \<and> 0 \<le> remaining st \<and>
     total_text (retained st) \<le> total_text seen \<and>
     list_all (\<lambda>m. has_content m \<and> only_text m = m) (retained st))"

lemma window_start: "window [] bound_start"
  by (auto simp: window_def bound_start_def MAX_PARENT_TEXT_CHARS_def)

lemma window_step:
  assumes "window seen st"
  shows "window (seen @ [m]) (bound_step st m)"
proof -
  obtain newer older where w: "seen = newer @ older" "dropped st = length older"
    "map message_id (retained st) = map message_id (filter has_content newer)"
    "butlast (retained st) = butlast (map only_text (filter has_content newer))"
    "\<not> clipped st \<longrightarrow> older = [] \<and> retained st = map only_text (filter has_content newer)"
    "clipped st \<longrightarrow> remaining st = 0"
    "remaining st = MAX_PARENT_TEXT_CHARS - total_text (retained st)" "0 \<le> remaining st"
    "total_text (retained st) \<le> total_text seen"
    "list_all (\<lambda>m. has_content m \<and> only_text m = m) (retained st)"
    using assms unfolding window_def by blast
  consider (full) "remaining st = 0" | (hidden) "remaining st \<noteq> 0" "\<not> has_content m" | (kept) "remaining st \<noteq> 0" "has_content m"
    by blast
  then show ?thesis
  proof cases
    case full
    then show ?thesis using w text_size_nonneg [of m] unfolding window_def bound_step_def
      by (intro exI [of _ newer] exI [of _ "older @ [m]"]) simp
  next
    case hidden
    then have "\<not> clipped st" "bound_step st m = st" using w by (auto simp: bound_step_def bound_message_hidden)
    then show ?thesis using w hidden text_size_nonneg [of m] unfolding window_def
      by (intro exI [of _ "newer @ [m]"] exI [of _ "[]"]) simp
  next
    case kept
    then have c: "\<not> clipped st" "0 < remaining st" using w by auto
    from bound_message_spec [OF c(2,1) kept(2)] obtain m' where m':
      "retained (bound_message m st) = retained st @ [m']" "dropped (bound_message m st) = dropped st"
      "message_id m' = message_id m" "only_text m' = m'" "has_content m'" "text_size m' \<le> text_size m"
      "remaining (bound_message m st) = remaining st - text_size m'" "0 \<le> remaining (bound_message m st)"
      "\<not> clipped (bound_message m st) \<Longrightarrow> m' = only_text m" "clipped (bound_message m st) \<Longrightarrow> remaining (bound_message m st) = 0"
      by metis
    have step: "bound_step st m = bound_message m st" using kept by (simp add: bound_step_def)
    show ?thesis using w c kept m' unfolding window_def step
      by (intro exI [of _ "newer @ [m]"] exI [of _ "[]"]) auto
  qed
qed

lemma window_foldl: "window xs (foldl bound_step bound_start xs)"
  by (induction xs rule: rev_induct) (auto intro: window_start window_step)

lemma boundAggregateText_window:
  assumes "boundAggregateText ms = (kept, lost, clip)"
  obtains older newer where "ms = older @ newer" "lost = length older"
    "map message_id kept = map message_id (filter has_content newer)" "tl kept = tl (map only_text (filter has_content newer))"
    "\<not> clip \<longrightarrow> older = [] \<and> kept = map only_text (filter has_content newer)"
    "clip \<longrightarrow> total_text kept = MAX_PARENT_TEXT_CHARS" "total_text kept \<le> MAX_PARENT_TEXT_CHARS" "total_text kept \<le> total_text ms"
    "list_all (\<lambda>m. has_content m \<and> only_text m = m) kept"
proof -
  let ?st = "foldl bound_step bound_start (rev ms)"
  have k: "kept = rev (retained ?st)" "lost = dropped ?st" "clip = clipped ?st"
    using assms by (auto simp: boundAggregateText_def Let_def)
  from window_foldl [of "rev ms"] obtain newer older where w: "rev ms = newer @ older" "dropped ?st = length older"
    "map message_id (retained ?st) = map message_id (filter has_content newer)"
    "butlast (retained ?st) = butlast (map only_text (filter has_content newer))"
    "\<not> clipped ?st \<longrightarrow> older = [] \<and> retained ?st = map only_text (filter has_content newer)"
    "clipped ?st \<longrightarrow> remaining ?st = 0"
    "remaining ?st = MAX_PARENT_TEXT_CHARS - total_text (retained ?st)" "0 \<le> remaining ?st"
    "total_text (retained ?st) \<le> total_text (rev ms)"
    "list_all (\<lambda>m. has_content m \<and> only_text m = m) (retained ?st)"
    unfolding window_def by blast
  have tl_rev: "tl (rev xs) = rev (butlast xs)" for xs :: "ParentMessage list"
    by (induction xs rule: rev_induct) auto
  show thesis
  proof (rule that [of "rev older" "rev newer"])
    show "ms = rev older @ rev newer" using w(1) by (metis rev_append rev_swap)
    show "total_text kept \<le> total_text ms" using w(9) by (simp only: k total_text_simps)
    show "tl kept = tl (map only_text (filter has_content (rev newer)))"
      using w(4) unfolding k by (simp only: tl_rev rev_filter [symmetric] rev_map [symmetric])
  qed (use w k in \<open>auto simp: rev_filter [symmetric] rev_map [symmetric]\<close>)
qed

lemma boundAggregateText_fits:
  assumes "total_text ms < MAX_PARENT_TEXT_CHARS"
  shows "boundAggregateText ms = (map only_text (filter has_content ms), 0, False)"
proof -
  obtain kept lost clip where r: "boundAggregateText ms = (kept, lost, clip)" by (metis prod_cases3)
  show ?thesis
    by (rule boundAggregateText_window [OF r]) (use assms r in auto)
qed

lemma boundAggregateText_length: "length (fst (boundAggregateText ms)) \<le> length ms"
proof -
  obtain kept lost clip where r: "boundAggregateText ms = (kept, lost, clip)" by (metis prod_cases3)
  obtain older newer where w: "ms = older @ newer" "map message_id kept = map message_id (filter has_content newer)"
    by (rule boundAggregateText_window [OF r])
  have "length kept = length (filter has_content newer)" using w(2) by (metis length_map)
  moreover have "length (filter has_content newer) \<le> length newer" by (rule length_filter_le)
  moreover have "length ms = length older + length newer" using w(1) by simp
  ultimately show ?thesis unfolding r fst_conv by linarith
qed


section \<open>Every run\<close>

abbreviation valid_id :: "jsstr \<Rightarrow> bool" where
  "valid_id i \<equiv> validIdentity (TStr i)"

definition transcript_ok :: "ParentTranscriptState \<Rightarrow> bool" where
  "transcript_ok s \<longleftrightarrow>
     length (messages s) \<le> MAX_PARENT_MESSAGES \<and> total_text (messages s) \<le> MAX_PARENT_TEXT_CHARS \<and>
     list_all (\<lambda>m. has_content m \<and> only_text m = m) (messages s) \<and> list_all valid_id (map message_id (messages s)) \<and>
     binary64 (omittedBefore s)"

lemma validIdentity_string: "validIdentity v \<Longrightarrow> valid_id (the_string v)"
  by (cases v rule: validIdentity.cases) auto

lemma sanitize_kind_id: "sanitize_kind fs i w = Inr (Some (m, c)) \<Longrightarrow> message_id m = i"
  by (auto simp: sanitize_kind_def Let_def ok_iff split: if_splits jtree.splits)

lemma sanitizeMessage_id: "sanitizeMessage v = Inr (Some (m, c)) \<Longrightarrow> valid_id (message_id m)"
  by (cases v rule: sanitizeMessage.cases)
    (auto simp del: validIdentity.simps dest!: sanitize_kind_id intro: validIdentity_string split: if_splits option.splits)

lemma sanitize_all_ids: "sanitize_all ms = Inr rs \<Longrightarrow> list_all valid_id (map (message_id \<circ> fst) rs)"
  by (induction ms arbitrary: rs) (auto simp: ok_iff simp del: validIdentity.simps dest: sanitizeMessage_id split: option.splits)

lemma binary64_num_add [simp]: "binary64 (num_add a b)"
  by (cases a; cases b) (auto simp: binary64_def [of "NumInf _"] binary64_def [of NumNaN])

lemma bounded_state_ok:
  assumes "length ms \<le> MAX_PARENT_MESSAGES" "list_all valid_id (map message_id ms)"
  shows "transcript_ok (bounded_state c ms n b)"
proof -
  obtain kept lost clip where r: "boundAggregateText ms = (kept, lost, clip)" by (metis prod_cases3)
  obtain older newer where w: "ms = older @ newer" "map message_id kept = map message_id (filter has_content newer)"
    "total_text kept \<le> MAX_PARENT_TEXT_CHARS" "list_all (\<lambda>m. has_content m \<and> only_text m = m) kept"
    by (rule boundAggregateText_window [OF r])
  have "list_all valid_id (map message_id kept)" using assms(2) unfolding w(1,2) by (auto simp: list_all_iff)
  then show ?thesis using w(3,4) boundAggregateText_length [of ms] assms(1) r
    by (simp add: transcript_ok_def bounded_state_def del: validIdentity.simps)
qed

lemma newest_simps: "length (newest n xs) \<le> n" "set (newest n xs) \<subseteq> set xs"
  by (auto simp: newest_def dest: in_set_dropD)

lemma snapshot_state_ok:
  assumes "transcript_ok s" "snapshot_state s c ms n = Inr t"
  shows "transcript_ok t"
proof (cases "t = s")
  case False
  then obtain rs om b where rs: "sanitize_all ms = Inr rs" and t: "t = bounded_state c (map fst (newest MAX_PARENT_MESSAGES rs)) om b"
    using assms(2) by (auto simp: snapshot_state_def ok_iff Let_def split: option.splits if_splits)
  show ?thesis unfolding t
    by (rule bounded_state_ok)
      (use sanitize_all_ids [OF rs] newest_simps [of MAX_PARENT_MESSAGES rs] in \<open>auto simp: list_all_iff simp del: validIdentity.simps\<close>)
qed (use assms in simp)

lemma next_messages_ok:
  assumes "transcript_ok s" "valid_id (message_id m)" "next_messages s m = Some (ms, n)"
  shows "length ms \<le> MAX_PARENT_MESSAGES \<and> list_all valid_id (map message_id ms)"
proof (cases "findIndex (\<lambda>x. message_id x = message_id m) (messages s)")
  case None
  then have "ms = newest MAX_PARENT_MESSAGES (messages s @ [m])" using assms(3) by (simp add: next_messages_def Let_def)
  then show ?thesis using newest_simps [of MAX_PARENT_MESSAGES "messages s @ [m]"] assms(1,2)
    by (auto simp: transcript_ok_def list_all_iff simp del: validIdentity.simps)
next
  case (Some i)
  then have "ms = (messages s)[i := m]" using assms(3) by (simp add: next_messages_def split: if_splits)
  then show ?thesis using set_update_subset_insert [of "messages s" i m] assms(1,2)
    by (auto simp: transcript_ok_def list_all_iff simp del: validIdentity.simps)
qed

lemma message_state_ok:
  assumes "transcript_ok s" "message_state s c v = Inr t"
  shows "transcript_ok t"
proof (cases "t = s")
  case False
  obtain r where r: "sanitizeMessage v = Inr r" using assms(2) by (auto simp: message_state_def ebind_Inr_iff)
  with False assms(2) obtain m short where m1: "r = Some (m, short)" by (cases r) (auto simp: message_state_def)
  with r False assms(2) obtain ms n where m2: "next_messages s m = Some (ms, n)"
    by (cases "next_messages s m") (auto simp: message_state_def)
  have m: "sanitizeMessage v = Inr (Some (m, short))" "next_messages s m = Some (ms, n)" using r m1 m2 by simp_all
  with assms(2) obtain b where t: "t = bounded_state c ms n b" by (auto simp: message_state_def)
  show ?thesis unfolding t using next_messages_ok [OF assms(1) sanitizeMessage_id [OF m(1)] m(2)] by (blast intro: bounded_state_ok)
qed (use assms in simp)

lemma transcript_step_ok: "transcript_ok s \<Longrightarrow> transcript_ok (transcript_step s e)"
  by (auto simp: transcript_step_def reduceParentTranscript_def intro: snapshot_state_ok message_state_ok
      split: sum.splits if_splits ParentTranscriptEvent.splits)

lemma empty_transcript_ok: "transcript_ok createEmptyParentTranscript"
  by (simp add: transcript_ok_def createEmptyParentTranscript_def MAX_PARENT_TEXT_CHARS_def binary64_def to_double_def)

interpretation transcripts: step_system createEmptyParentTranscript transcript_step transcript_ok
  by unfold_locales (auto intro: empty_transcript_ok transcript_step_ok)

text \<open>
  C24: in every state that events can lead to, whatever their messages contain, the transcript has at most 300 messages and at most
  131,072 characters of text, every message shows something and consists of text alone (no reasoning and no tool call gets in), and every
  identity has between 1 and 1,024 code units.
\<close>
theorem transcript_bounded:
  assumes "reachable createEmptyParentTranscript transcript_step s"
  shows "length (messages s) \<le> 300 \<and> total_text (messages s) \<le> 131072 \<and>
    (\<forall>m \<in> set (messages s). has_content m \<and> only_text m = m \<and> 0 < length (message_id m) \<and> length (message_id m) \<le> 1024)"
  using transcripts.reachable_inv [OF assms]
  by (simp add: transcript_ok_def list_all_iff MAX_PARENT_MESSAGES_def MAX_PARENT_TEXT_CHARS_def)


text \<open>The message on the wire.\<close>

fun block_tree :: "MessageBlock \<Rightarrow> jtree" where
  "block_tree (Text_Block t) = jobj [(''kind'', TStr (js ''text'')), (''text'', TStr t)]"
| "block_tree (Thinking_Block t r) = jobj [(''kind'', TStr (js ''thinking'')), (''text'', TStr t), (''redacted'', TBool r)]"
| "block_tree (Tool_Call c t st) =
     jobj [(''kind'', TStr (js ''tool_call'')), (''toolCallId'', TStr c), (''toolId'', TStr t), (''status'', st)]"

fun message_tree :: "ParentMessage \<Rightarrow> jtree" where
  "message_tree (User_Message i t w) =
     jobj [(''channel'', TStr (js ''parent'')), (''kind'', TStr (js ''user'')), (''id'', TStr i), (''text'', TStr t), (''emittedAtMs'', TPrim (PNum w))]"
| "message_tree (Notice_Message i t w) =
     jobj [(''channel'', TStr (js ''parent'')), (''kind'', TStr (js ''notice'')), (''id'', TStr i), (''text'', TStr t), (''emittedAtMs'', TPrim (PNum w))]"
| "message_tree (Assistant_Message i bs str w) =
     jobj [(''channel'', TStr (js ''parent'')), (''kind'', TStr (js ''assistant'')), (''id'', TStr i), (''blocks'', TArr (map block_tree bs)),
       (''streaming'', TBool str), (''emittedAtMs'', TPrim (PNum w))]"

text \<open>A short run: a snapshot with a question and an answer that so far has called a tool only, then the first words of the answer.\<close>

definition demo_user :: ParentMessage where
  "demo_user = User_Message (js ''u1'') (js ''hi'') (num_int 1)"

definition demo_answer :: "MessageBlock list \<Rightarrow> ParentMessage" where
  "demo_answer bs = Assistant_Message (js ''a1'') bs True (num_int 2)"

definition demo_cursor :: "int \<Rightarrow> HarnessCursor" where
  "demo_cursor n = \<lparr>runtimeGeneration = js ''g1'', sequence = num_int n\<rparr>"

definition demo_transcript :: ParentTranscriptState where
  "demo_transcript = \<lparr>cursor = Some (demo_cursor 1), messages = [demo_user, demo_answer []], omittedBefore = num_int 4, payloadClipped = False\<rparr>"

lemma demo_snapshot:
  "transcript_step createEmptyParentTranscript
     (Snapshot_Event (demo_cursor 1) [message_tree demo_user, message_tree (demo_answer [Tool_Call (js ''c1'') (js ''t1'') (TStr (js ''running''))])]
        (num_int 4)) = demo_transcript"
  by code_simp

lemma demo_transcript_reachable: "reachable createEmptyParentTranscript transcript_step demo_transcript"
  using reachable_step [OF reachable_init] unfolding demo_snapshot [symmetric] .

theorem transcript_bounded_witness:
  "length (messages demo_transcript) \<le> 300 \<and> total_text (messages demo_transcript) \<le> 131072 \<and>
    has_content (demo_answer []) \<and> only_text (demo_answer []) = demo_answer [] \<and> length (message_id demo_user) \<le> 1024"
  using transcript_bounded [OF demo_transcript_reachable] by (simp add: demo_transcript_def)


section \<open>The window has the newest messages\<close>

text \<open>
  C25: \<open>boundAggregateText\<close> keeps the newest of the messages that have content and counts the older messages as dropped. It shows text only: other
  blocks, and finished answers without any text, are left out silently. Of what it keeps, only the oldest message can be
  cut. Unless it reports that something was clipped, every message with content is there with all of its text; if it does,
  the window is full to the last character.
\<close>
theorem window_has_newest:
  assumes "boundAggregateText ms = (kept, lost, clip)"
  shows "\<exists>older newer. ms = older @ newer \<and> lost = length older \<and>
    map message_id kept = map message_id (filter has_content newer) \<and> tl kept = tl (map only_text (filter has_content newer)) \<and>
    (if clip then total_text kept = MAX_PARENT_TEXT_CHARS else older = [] \<and> kept = map only_text (filter has_content ms))"
  by (rule boundAggregateText_window [OF assms], intro exI conjI) (assumption | (use assms in auto))+


theorem window_has_newest_witness:
  "\<exists>older newer. [demo_answer [Thinking_Block (js ''hm'') False], demo_user] = older @ newer \<and> 0 = length older \<and>
    map message_id [demo_answer [], demo_user] = map message_id (filter has_content newer) \<and>
    tl [demo_answer [], demo_user] = tl (map only_text (filter has_content newer)) \<and>
    (if False then total_text [demo_answer [], demo_user] = MAX_PARENT_TEXT_CHARS
     else older = [] \<and> [demo_answer [], demo_user] = map only_text (filter has_content [demo_answer [Thinking_Block (js ''hm'') False], demo_user]))"
  by (rule window_has_newest) code_simp


section \<open>A message as it was sent\<close>

fun message_time :: "ParentMessage \<Rightarrow> jsnum" where
  "message_time (User_Message _ _ w) = w"
| "message_time (Notice_Message _ _ w) = w"
| "message_time (Assistant_Message _ _ _ w) = w"

fun block_count :: "ParentMessage \<Rightarrow> nat" where
  "block_count (Assistant_Message _ bs _ _) = length bs"
| "block_count _ = 0"

text \<open>A message of text that the reader takes as it is.\<close>

definition plain_message :: "ParentMessage \<Rightarrow> bool" where
  "plain_message m \<longleftrightarrow> valid_id (message_id m) \<and> time_value (TPrim (PNum (message_time m))) \<noteq> None \<and>
     only_text m = m \<and> has_content m \<and> block_count m \<le> 256"

lemma time_value_same: "time_value (TPrim (PNum w)) = Some w' \<Longrightarrow> w' = w"
  by (cases w) (auto split: if_splits)

lemma sanitize_text_blocks:
  "sum_list (map size_of ts) \<le> left \<Longrightarrow>
   sanitize_blocks (map (block_tree \<circ> Text_Block) ts) left clip = Inr (map Text_Block ts, clip)"
proof (induction ts arbitrary: left)
  case (Cons t ts)
  moreover have "0 \<le> sum_list (map size_of ts)" by (rule sum_list_nonneg) auto
  ultimately show ?case by (simp add: jobj_def field_def)
qed simp

lemma sanitize_plain:
  assumes "plain_message m" "text_size m \<le> MAX_PARENT_TEXT_CHARS"
  shows "sanitizeMessage (message_tree m) = Inr (Some (m, False))"
proof -
  obtain w where w: "time_value (TPrim (PNum (message_time m))) = Some w" "w = message_time m"
    using assms(1) time_value_same by (auto simp: plain_message_def)
  show ?thesis
  proof (cases m)
    case (Assistant_Message i bs str v)
    then have bs: "bs = map Text_Block (text_blocks bs)" "length bs \<le> 256" using assms(1) by (auto simp: plain_message_def)
    have "sanitize_blocks (map block_tree bs) MAX_PARENT_TEXT_CHARS False = Inr (bs, False)"
      using sanitize_text_blocks [of "text_blocks bs" MAX_PARENT_TEXT_CHARS False] assms(2) Assistant_Message bs(1)
      by (metis blocks_size_def map_map text_size.simps(3))
    with w bs(2) assms(1) Assistant_Message show ?thesis
      by (auto simp: plain_message_def jobj_def field_def sanitize_kind_def simp del: time_value.simps validIdentity.simps)
  qed (use w assms in \<open>auto simp: plain_message_def jobj_def field_def sanitize_kind_def simp del: time_value.simps validIdentity.simps\<close>)
qed

text \<open>Where a message goes: in the place of the one with its identity, or to the end.\<close>

fun place :: "ParentMessage \<Rightarrow> ParentMessage list \<Rightarrow> ParentMessage list" where
  "place m [] = [m]"
| "place m (x # xs) = (if message_id x = message_id m then m # xs else x # place m xs)"

lemma place_findIndex:
  "place m xs = (case findIndex (\<lambda>x. message_id x = message_id m) xs of None \<Rightarrow> xs @ [m] | Some i \<Rightarrow> xs[i := m])"
  by (induction xs) (auto split: option.splits)

lemma set_place: "set (place m xs) \<subseteq> insert m (set xs)"
  by (induction xs) auto

lemma text_size_place: "text_size m \<le> total_text (place m xs)"
proof (induction xs)
  case (Cons x xs)
  then show ?case using text_size_nonneg [of x] total_text_nonneg [of xs] by simp
qed simp

lemma num_add_zero: "binary64 n \<Longrightarrow> num_add n (num_int 0) = n"
  by (cases n) (auto simp: binary64_def)

lemma next_messages_place:
  assumes "binary64 (omittedBefore s)" "length (place m (messages s)) \<le> MAX_PARENT_MESSAGES"
    and "\<forall>x \<in> set (messages s). message_id x = message_id m \<longrightarrow> is_assistant x \<and> is_assistant m"
  shows "next_messages s m = Some (place m (messages s), omittedBefore s)"
proof (cases "findIndex (\<lambda>x. message_id x = message_id m) (messages s)")
  case None
  then have "place m (messages s) = messages s @ [m]" by (simp add: place_findIndex)
  then show ?thesis using None assms(2) num_add_zero [OF assms(1)] by (simp add: next_messages_def newest_def)
next
  case (Some i)
  then have "is_assistant (messages s ! i) \<and> is_assistant m" using findIndex_Some [OF Some] assms(3) nth_mem by blast
  then show ?thesis using Some by (simp add: next_messages_def place_findIndex)
qed

text \<open>
  C26: in a reachable state, a message of text whose cursor advances, with a valid identity and time, at most 256 blocks, and content to show,
  is shown exactly as it was sent, if the result has at most 300 messages and fewer than 131,072 characters: it replaces the message with its
  identity or, if there is none, comes last, and all other messages, the count of omitted messages and the clipping flag stay as they are. If there is a message with its
  identity, both must be answers of the assistant, which is how an answer grows while it streams.
\<close>
theorem message_shown_as_sent:
  assumes "reachable createEmptyParentTranscript transcript_step s" "cursorAdvances s (Message_Event c (message_tree m))"
    and "plain_message m" "\<forall>x \<in> set (messages s). message_id x = message_id m \<longrightarrow> is_assistant x \<and> is_assistant m"
    and "length (place m (messages s)) \<le> 300" "total_text (place m (messages s)) < 131072"
  shows "reduceParentTranscript s (Message_Event c (message_tree m)) =
    Inr (s\<lparr>cursor := Some c, messages := place m (messages s)\<rparr>)"
proof -
  have ok: "transcript_ok s" by (rule transcripts.reachable_inv [OF assms(1)])
  then have b: "binary64 (omittedBefore s)" by (simp add: transcript_ok_def)
  have "filter has_content (place m (messages s)) = place m (messages s)" "map only_text (place m (messages s)) = place m (messages s)"
    using ok assms(3) set_place [of m "messages s"]
    by (auto simp: transcript_ok_def list_all_iff plain_message_def intro!: filter_True map_idI)
  then have "boundAggregateText (place m (messages s)) = (place m (messages s), 0, False)"
    using boundAggregateText_fits assms(6) by (simp add: MAX_PARENT_TEXT_CHARS_def)
  moreover have "next_messages s m = Some (place m (messages s), omittedBefore s)"
    using next_messages_place [OF b _ assms(4)] assms(5) by (simp add: MAX_PARENT_MESSAGES_def)
  moreover have "sanitizeMessage (message_tree m) = Inr (Some (m, False))"
    using sanitize_plain [OF assms(3)] assms(6) text_size_place [of m "messages s"] by (simp add: MAX_PARENT_TEXT_CHARS_def)
  ultimately show ?thesis using assms(2) num_add_zero [OF b]
    by (simp add: reduceParentTranscript_def message_state_def bounded_state_def)
qed

theorem message_shown_as_sent_witness:
  "reduceParentTranscript demo_transcript (Message_Event (demo_cursor 2) (message_tree (demo_answer [Text_Block (js ''yes'')]))) =
    Inr (demo_transcript\<lparr>cursor := Some (demo_cursor 2), messages := [demo_user, demo_answer [Text_Block (js ''yes'')]]\<rparr>)"
proof -
  have "place (demo_answer [Text_Block (js ''yes'')]) (messages demo_transcript) = [demo_user, demo_answer [Text_Block (js ''yes'')]]"
    by code_simp
  moreover have "cursorAdvances demo_transcript (Message_Event (demo_cursor 2) (message_tree (demo_answer [Text_Block (js ''yes'')])))"
    by code_simp
  moreover have "plain_message (demo_answer [Text_Block (js ''yes'')])" by code_simp
  moreover have "total_text [demo_user, demo_answer [Text_Block (js ''yes'')]] < 131072" by code_simp
  moreover have "\<forall>x \<in> set (messages demo_transcript). message_id x = message_id (demo_answer [Text_Block (js ''yes'')]) \<longrightarrow>
      is_assistant x \<and> is_assistant (demo_answer [Text_Block (js ''yes'')])" by code_simp
  ultimately show ?thesis
    using message_shown_as_sent [OF demo_transcript_reachable, of "demo_cursor 2" "demo_answer [Text_Block (js ''yes'')]"] by simp
qed


section \<open>When the reducer throws\<close>

text \<open>A value that has no text: an object whose member \<open>toString\<close> is data, or an array with such a member.\<close>

fun unprintable :: "jtree \<Rightarrow> bool" where
  "unprintable (TPrim _) = False"
| "unprintable (TObj fs) = (map_of fs (js ''toString'') \<noteq> None)"
| "unprintable (TArr ts) = list_ex unprintable ts"

fun poisoned_block :: "jtree \<Rightarrow> bool" where
  "poisoned_block (TObj block) \<longleftrightarrow> field block ''kind'' = TStr (js ''tool_call'') \<and>
     validIdentity (field block ''toolCallId'') \<and> validIdentity (field block ''toolId'') \<and> unprintable (field block ''status'')"
| "poisoned_block _ \<longleftrightarrow> False"

fun poisoned :: "jtree \<Rightarrow> bool" where
  "poisoned (TObj fs) \<longleftrightarrow>
     field fs ''channel'' = TStr (js ''parent'') \<and> validIdentity (field fs ''id'') \<and> time_value (field fs ''emittedAtMs'') \<noteq> None \<and>
     field fs ''kind'' = TStr (js ''assistant'') \<and> is_boolean (field fs ''streaming'') \<and>
     (case field fs ''blocks'' of TArr cs \<Rightarrow> list_ex poisoned_block (take 256 cs) | _ \<Rightarrow> False)"
| "poisoned _ \<longleftrightarrow> False"

definition throws :: "js_error + 'a \<Rightarrow> bool" where
  "throws r \<longleftrightarrow> (\<exists>x. r = Inl x)"

lemma throws_simps [simp]: "throws (Inl x)" "\<not> throws (Inr y)"
  by (simp_all add: throws_def)

lemma throws_ebind: "throws (ebind m f) \<longleftrightarrow> throws m \<or> (\<exists>x. m = Inr x \<and> throws (f x))"
  by (cases m) auto

lemma throws_String_text: "throws (String_text t) \<longleftrightarrow> unprintable t"
proof (induction t rule: String_text.induct)
  case (4 ts)
  show ?case
  proof (cases "find (\<lambda>r. case r of Inl _ \<Rightarrow> True | Inr _ \<Rightarrow> False) (map String_text ts)")
    case None
    then have "\<not> unprintable t" if "t \<in> set ts" for t
      using that 4 by (auto simp: find_None_conv throws_def split: sum.splits)
    then show ?thesis using None 4 by (auto simp: list_ex_iff split: list.splits)
  next
    case (Some r)
    from find_Some_mem [OF Some] obtain t where t: "t \<in> set ts" "r = String_text t" "case r of Inl _ \<Rightarrow> True | Inr _ \<Rightarrow> False"
      by auto
    then obtain x where "String_text t = Inl x" "r = Inl x" by (cases "String_text t") auto
    then show ?thesis using Some 4(1) [OF t(1)] t(1) by (auto simp: list_ex_iff)
  qed
qed auto

lemma throws_tool_call: "throws (tool_call block) \<longleftrightarrow> poisoned_block (TObj block)"
  by (auto simp: tool_call_def throws_ebind throws_String_text)

lemma tool_call_kind: "tool_call block = Inr True \<Longrightarrow> field block ''kind'' = TStr (js ''tool_call'')"
  by (auto simp: tool_call_def split: if_splits)

lemma throws_sanitize_blocks: "throws (sanitize_blocks cs left clip) \<longleftrightarrow> list_ex poisoned_block cs"
proof (induction cs left clip rule: sanitize_blocks.induct)
  case (2 block cs left clip)
  obtain v c where v: "clipText (the_string (field block ''text'')) left = (v, c)" by force
  show ?case
  proof (cases "field block ''kind'' = TStr (js ''tool_call'')")
    case True
    then show ?thesis using 2 v throws_tool_call [of block] by (cases "tool_call block") (auto simp: throws_ebind)
  next
    case False
    then have "tool_call block = Inr False" by (simp add: tool_call_def)
    with False show ?thesis using 2 v by (auto simp: throws_ebind Let_def)
  qed
qed auto

lemma throws_sanitizeMessage: "throws (sanitizeMessage v) \<longleftrightarrow> poisoned v"
  by (cases v rule: sanitizeMessage.cases)
    (auto simp: sanitize_kind_def Let_def throws_ebind throws_sanitize_blocks split: option.splits jtree.splits)

lemma throws_sanitize_all: "throws (sanitize_all ms) \<longleftrightarrow> list_ex poisoned ms"
proof (induction ms)
  case (Cons m ms)
  then show ?case using throws_sanitizeMessage [of m] by (cases "sanitizeMessage m") (auto simp: throws_ebind)
qed simp

text \<open>
  C40: an event of the declared shape (a cursor of a string and a number, an array of messages) makes the reducer throw exactly if it comes in
  time, its count of omitted messages is a non-negative safe integer in the case of a snapshot, and one of its messages is an answer of the assistant, itself well-formed, that has among its first
  256 blocks a tool call with valid identities whose status is an object with a member \<open>toString\<close>, or an array with such a
  value in it. Whatever else the messages contain, the reducer returns a state.
\<close>
theorem reducer_throws_exactly:
  "(\<exists>x. reduceParentTranscript s e = Inl x) \<longleftrightarrow>
     cursorAdvances s e \<and>
     (case e of
        Snapshot_Event c ms n \<Rightarrow> (\<exists>i. as_safe_integer n = Some i \<and> 0 \<le> i) \<and> list_ex poisoned ms
      | Message_Event c m \<Rightarrow> poisoned m)"
proof -
  have "throws (snapshot_state s c ms n) \<longleftrightarrow> (\<exists>i. as_safe_integer n = Some i \<and> 0 \<le> i) \<and> list_ex poisoned ms" for c ms n
    by (auto simp: snapshot_state_def throws_ebind throws_sanitize_all Let_def split: option.splits)
  moreover have "throws (message_state s c m) \<longleftrightarrow> poisoned m" for c m
  proof (cases "sanitizeMessage m")
    case (Inr r)
    then show ?thesis using throws_sanitizeMessage [of m]
      by (cases r) (auto simp: message_state_def split: option.split prod.split)
  qed (use throws_sanitizeMessage [of m] in \<open>simp add: message_state_def\<close>)
  ultimately show ?thesis
    unfolding throws_def [symmetric] by (auto simp: reduceParentTranscript_def split: ParentTranscriptEvent.splits)
qed

end
