(* ===== verification/Json.thy ===== *)
theory Json
  imports Json_Number
begin

text \<open>
  The two functions of the JavaScript library's \<open>JSON\<close> object that the modelled code calls.

  \<open>json_parse\<close> follows the grammar of \<open>JSON.parse\<close> (a \<open>SyntaxError\<close> is \<open>None\<close>); numbers
  are rounded to the nearest binary64 value. Its recursion carries fuel, and
  \<open>parse_value_enough\<close> shows that the fuel \<open>json_parse\<close> supplies is never exhausted.
  \<open>json_stringify\<close> prints the trees whose leaves are \<open>null\<close>, booleans, strings and finite
  numbers, the only ones the modelled code prints (\<open>None\<close> on any other tree). The last section
  proves the round trip, through the interface \<open>codec\<close> of an injective printer.
\<close>

text \<open>The outcome of a fuelled recursive descent.\<close>

datatype 'a outcome = OutOfFuel | Fail | Done 'a

section \<open>Strings\<close>

definition hex_value :: "code_unit \<Rightarrow> nat option" where
  "hex_value c =
     (if is_digit c then Some (unat c - 48)
      else if 0x61 \<le> c \<and> c \<le> 0x66 then Some (unat c - 87)
      else if 0x41 \<le> c \<and> c \<le> 0x46 then Some (unat c - 55)
      else None)"

definition hex4 :: "code_unit \<Rightarrow> code_unit \<Rightarrow> code_unit \<Rightarrow> code_unit \<Rightarrow> code_unit option" where
  "hex4 a b c d =
     (case (hex_value a, hex_value b, hex_value c, hex_value d) of
        (Some w, Some x, Some y, Some z) \<Rightarrow> Some (of_nat (4096 * w + 256 * x + 16 * y + z))
      | _ \<Rightarrow> None)"

definition simple_escape :: "code_unit \<Rightarrow> code_unit option" where
  "simple_escape e =
     (if e = 0x22 \<or> e = 0x5C \<or> e = 0x2F then Some e
      else if e = 0x62 then Some 0x08
      else if e = 0x66 then Some 0x0C
      else if e = 0x6E then Some 0x0A
      else if e = 0x72 then Some 0x0D
      else if e = 0x74 then Some 0x09
      else None)"

text \<open>The characters of a string literal after its opening quote.\<close>

fun parse_chars :: "jsstr \<Rightarrow> (jsstr \<times> jsstr) option" where
  "parse_chars [] = None"
| "parse_chars (c # s) =
     (if c = 0x22 then Some ([], s)
      else if c < 0x20 then None
      else if c = 0x5C then
        (case s of
           [] \<Rightarrow> None
         | e # s' \<Rightarrow>
             if e = 0x75 then
               (case s' of
                  h1 # h2 # h3 # h4 # s'' \<Rightarrow>
                    (case hex4 h1 h2 h3 h4 of
                       None \<Rightarrow> None
                     | Some u \<Rightarrow> map_option (\<lambda>(t, r). (u # t, r)) (parse_chars s''))
                | _ \<Rightarrow> None)
             else
               (case simple_escape e of
                  None \<Rightarrow> None
                | Some u \<Rightarrow> map_option (\<lambda>(t, r). (u # t, r)) (parse_chars s')))
      else map_option (\<lambda>(t, r). (c # t, r)) (parse_chars s))"

definition is_json_space :: "code_unit \<Rightarrow> bool" where
  [js_char]: "is_json_space c \<longleftrightarrow> c = 0x20 \<or> c = 0x09 \<or> c = 0x0A \<or> c = 0x0D"

definition skip_ws :: "jsstr \<Rightarrow> jsstr" where
  "skip_ws s = dropWhile is_json_space s"

fun parse_literal :: "jsstr \<Rightarrow> jsstr \<Rightarrow> jsstr option" where
  "parse_literal [] s = Some s"
| "parse_literal (c # l) (d # s) = (if c = d then parse_literal l s else None)"
| "parse_literal (c # l) [] = None"


section \<open>JSON.parse\<close>

text \<open>The scalar values, parsed without recursion.\<close>

definition parse_scalar :: "jsstr \<Rightarrow> (jtree \<times> jsstr) option" where
  "parse_scalar s =
     (case s of
        [] \<Rightarrow> None
      | c # r \<Rightarrow>
          if c = 0x22 then map_option (\<lambda>(u, q). (TStr u, q)) (parse_chars r)
          else if c = 0x74 then map_option (\<lambda>q. (TBool True, q)) (parse_literal (js ''true'') s)
          else if c = 0x66 then map_option (\<lambda>q. (TBool False, q)) (parse_literal (js ''false'') s)
          else if c = 0x6E then map_option (\<lambda>q. (TNull, q)) (parse_literal (js ''null'') s)
          else map_option (\<lambda>(x, q). (TPrim (PNum x), q)) (parse_number s))"

text \<open>The members of an object as written, duplicates included; \<open>norm_tree\<close> resolves them.\<close>

fun parse_value :: "nat \<Rightarrow> jsstr \<Rightarrow> (jtree \<times> jsstr) outcome"
  and parse_members :: "nat \<Rightarrow> jsstr \<Rightarrow> ((jsstr \<times> jtree) list \<times> jsstr) outcome"
  and parse_elements :: "nat \<Rightarrow> jsstr \<Rightarrow> (jtree list \<times> jsstr) outcome" where
  "parse_value 0 s = OutOfFuel"
| "parse_value (Suc n) s =
     (case skip_ws s of
        [] \<Rightarrow> Fail
      | c # r \<Rightarrow>
          if c = 0x7B then
            (case skip_ws r of
               [] \<Rightarrow> Fail
             | d # r' \<Rightarrow>
                 if d = 0x7D then Done (TObj [], r')
                 else (case parse_members n (d # r') of
                         OutOfFuel \<Rightarrow> OutOfFuel
                       | Fail \<Rightarrow> Fail
                       | Done (ms, q) \<Rightarrow> Done (TObj ms, q)))
          else if c = 0x5B then
            (case skip_ws r of
               [] \<Rightarrow> Fail
             | d # r' \<Rightarrow>
                 if d = 0x5D then Done (TArr [], r')
                 else (case parse_elements n (d # r') of
                         OutOfFuel \<Rightarrow> OutOfFuel
                       | Fail \<Rightarrow> Fail
                       | Done (ts, q) \<Rightarrow> Done (TArr ts, q)))
          else (case parse_scalar (c # r) of None \<Rightarrow> Fail | Some (t, q) \<Rightarrow> Done (t, q)))"
| "parse_members 0 s = OutOfFuel"
| "parse_members (Suc n) s =
     (case s of
        [] \<Rightarrow> Fail
      | c # r \<Rightarrow>
          if c \<noteq> 0x22 then Fail
          else (case parse_chars r of
            None \<Rightarrow> Fail
          | Some (k, q) \<Rightarrow>
              (case skip_ws q of
                 [] \<Rightarrow> Fail
               | d # q1 \<Rightarrow>
                   if d \<noteq> 0x3A then Fail
                   else (case parse_value n q1 of
                     OutOfFuel \<Rightarrow> OutOfFuel
                   | Fail \<Rightarrow> Fail
                   | Done (t, q2) \<Rightarrow>
                       (case skip_ws q2 of
                          [] \<Rightarrow> Fail
                        | e # q3 \<Rightarrow>
                            if e = 0x7D then Done ([(k, t)], q3)
                            else if e \<noteq> 0x2C then Fail
                            else (case parse_members n (skip_ws q3) of
                              OutOfFuel \<Rightarrow> OutOfFuel
                            | Fail \<Rightarrow> Fail
                            | Done (ms, q4) \<Rightarrow> Done ((k, t) # ms, q4)))))))"
| "parse_elements 0 s = OutOfFuel"
| "parse_elements (Suc n) s =
     (case parse_value n s of
        OutOfFuel \<Rightarrow> OutOfFuel
      | Fail \<Rightarrow> Fail
      | Done (t, q2) \<Rightarrow>
          (case skip_ws q2 of
             [] \<Rightarrow> Fail
           | e # q3 \<Rightarrow>
               if e = 0x5D then Done ([t], q3)
               else if e \<noteq> 0x2C then Fail
               else (case parse_elements n (skip_ws q3) of
                 OutOfFuel \<Rightarrow> OutOfFuel
               | Fail \<Rightarrow> Fail
               | Done (ts, q4) \<Rightarrow> Done (t # ts, q4))))"

text \<open>A repeated key keeps its first place and its last value.\<close>

fun put_member :: "jsstr \<Rightarrow> jtree \<Rightarrow> (jsstr \<times> jtree) list \<Rightarrow> (jsstr \<times> jtree) list" where
  "put_member k t [] = [(k, t)]"
| "put_member k t ((l, u) # ms) = (if k = l then (l, t) # ms else (l, u) # put_member k t ms)"

fun put_members :: "(jsstr \<times> jtree) list \<Rightarrow> (jsstr \<times> jtree) list \<Rightarrow> (jsstr \<times> jtree) list" where
  "put_members acc [] = acc"
| "put_members acc ((k, t) # ms) = put_members (put_member k t acc) ms"

fun norm_tree :: "jtree \<Rightarrow> jtree" where
  "norm_tree (TPrim v) = TPrim v"
| "norm_tree (TArr ts) = TArr (map norm_tree ts)"
| "norm_tree (TObj ms) = TObj (put_members [] (map (\<lambda>(k, t). (k, norm_tree t)) ms))"

definition json_fuel :: "jsstr \<Rightarrow> nat" where
  "json_fuel s = 2 * length s + 2"

definition json_parse_raw :: "jsstr \<Rightarrow> jtree option" where
  "json_parse_raw s =
     (case parse_value (json_fuel s) s of
        Done (t, r) \<Rightarrow> if skip_ws r = [] then Some t else None
      | _ \<Rightarrow> None)"

definition json_parse :: "jsstr \<Rightarrow> jtree option" where
  "json_parse s = map_option norm_tree (json_parse_raw s)"


section \<open>Termination: the fuel is enough\<close>

lemma length_skip_ws [js_len]: "length (skip_ws s) \<le> length s"
  by (simp add: skip_ws_def length_dropWhile_le)

lemma less_skip_ws: "n < length (skip_ws s) \<Longrightarrow> n < length s"
  using length_skip_ws [of s] by simp

lemma skip_ws_Cons_length: "skip_ws s = c # r \<Longrightarrow> length r < length s"
  using length_skip_ws [of s] by simp

lemma parse_chars_length: "parse_chars s = Some (t, r) \<Longrightarrow> length r < length s"
  by (induction s arbitrary: t r rule: parse_chars.induct)
    (fastforce split: if_splits list.splits option.splits)+

lemma parse_literal_length: "parse_literal l s = Some r \<Longrightarrow> length r + length l = length s"
  by (induction l s rule: parse_literal.induct) (auto split: if_splits)

text \<open>The successful runs of the two list parsers, by what they read.\<close>

lemma parse_members_Done_iff:
  "parse_members (Suc n) s = Done (ms, r) \<longleftrightarrow>
     (\<exists>u k q q1 t q2 q3.
        s = 0x22 # u \<and> parse_chars u = Some (k, q) \<and> skip_ws q = 0x3A # q1 \<and>
        parse_value n q1 = Done (t, q2) \<and>
        (skip_ws q2 = 0x7D # q3 \<and> ms = [(k, t)] \<and> r = q3 \<or>
         skip_ws q2 = 0x2C # q3 \<and>
           (\<exists>ms'. parse_members n (skip_ws q3) = Done (ms', r) \<and> ms = (k, t) # ms')))"
  by (auto split: if_splits list.splits option.splits outcome.splits)

lemma parse_elements_Done_iff:
  "parse_elements (Suc n) s = Done (ts, r) \<longleftrightarrow>
     (\<exists>t q2 q3.
        parse_value n s = Done (t, q2) \<and>
        (skip_ws q2 = 0x5D # q3 \<and> ts = [t] \<and> r = q3 \<or>
         skip_ws q2 = 0x2C # q3 \<and>
           (\<exists>ts'. parse_elements n (skip_ws q3) = Done (ts', r) \<and> ts = t # ts')))"
  by (auto split: if_splits list.splits option.splits outcome.splits)

lemma parse_value_Done_iff:
  "parse_value (Suc n) s = Done (t, r) \<longleftrightarrow>
     (\<exists>u. skip_ws s = 0x7B # u \<and>
        (skip_ws u = 0x7D # r \<and> t = TObj [] \<or>
         skip_ws u \<noteq> [] \<and> hd (skip_ws u) \<noteq> 0x7D \<and>
           (\<exists>ms. parse_members n (skip_ws u) = Done (ms, r) \<and> t = TObj ms))) \<or>
     (\<exists>u. skip_ws s = 0x5B # u \<and>
        (skip_ws u = 0x5D # r \<and> t = TArr [] \<or>
         skip_ws u \<noteq> [] \<and> hd (skip_ws u) \<noteq> 0x5D \<and>
           (\<exists>ts. parse_elements n (skip_ws u) = Done (ts, r) \<and> t = TArr ts))) \<or>
     (\<exists>c u. skip_ws s = c # u \<and> c \<noteq> 0x7B \<and> c \<noteq> 0x5B \<and> parse_scalar (c # u) = Some (t, r))"
  (is "?L \<longleftrightarrow> ?O \<or> ?A \<or> ?S")
proof (cases "skip_ws s")
  case Nil
  then show ?thesis by simp
next
  case (Cons c u)
  consider "c = 0x7B" | "c = 0x5B" | "c \<noteq> 0x7B" "c \<noteq> 0x5B" by blast
  then show ?thesis
  proof cases
    case 1
    with Cons show ?thesis by (auto split: list.splits if_splits outcome.splits)
  next
    case 2
    with Cons show ?thesis by (auto split: list.splits if_splits outcome.splits)
  next
    case 3
    with Cons show ?thesis by (auto split: option.splits)
  qed
qed

lemma parse_scalar_length: "parse_scalar s = Some (t, r) \<Longrightarrow> length r < length s"
  by (auto simp: parse_scalar_def split: list.splits if_splits
      dest: parse_chars_length parse_literal_length parse_number_length)

lemma parse_length:
  "(\<forall>t r. parse_value n s = Done (t, r) \<longrightarrow> length r < length s) \<and>
   (\<forall>ms r. parse_members n s = Done (ms, r) \<longrightarrow> length r < length s) \<and>
   (\<forall>ts r. parse_elements n s = Done (ts, r) \<longrightarrow> length r < length s)"
proof (induction n arbitrary: s)
  case 0
  then show ?case by simp
next
  case (Suc n)
  then have IH: "parse_value n s = Done (t, r) \<Longrightarrow> length r < length s"
    "parse_members n s = Done (ms, r) \<Longrightarrow> length r < length s"
    "parse_elements n s = Done (ts, r) \<Longrightarrow> length r < length s" for s t ms ts r
    by blast+
  have ms: "length r < length s" if "parse_members (Suc n) s = Done (ms, r)" for ms r
  proof -
    from that obtain u k q q1 t q2 q3 where
      "s = 0x22 # u" "parse_chars u = Some (k, q)" "skip_ws q = 0x3A # q1"
      "parse_value n q1 = Done (t, q2)" and
      rest: "skip_ws q2 = 0x7D # q3 \<and> r = q3 \<or>
             skip_ws q2 = 0x2C # q3 \<and> (\<exists>ms'. parse_members n (skip_ws q3) = Done (ms', r))"
      unfolding parse_members_Done_iff by blast
    then have "length q3 < length s"
      by (auto dest!: IH(1) parse_chars_length skip_ws_Cons_length)
    moreover have "length r \<le> length q3"
      using rest IH(2) [of "skip_ws q3"] length_skip_ws [of q3] by fastforce
    ultimately show ?thesis by simp
  qed
  have ts: "length r < length s" if "parse_elements (Suc n) s = Done (ts, r)" for ts r
  proof -
    from that obtain t q2 q3 where "parse_value n s = Done (t, q2)" and
      rest: "skip_ws q2 = 0x5D # q3 \<and> r = q3 \<or>
             skip_ws q2 = 0x2C # q3 \<and> (\<exists>ts'. parse_elements n (skip_ws q3) = Done (ts', r))"
      unfolding parse_elements_Done_iff by blast
    then have "length q3 < length s"
      by (auto dest!: IH(1) skip_ws_Cons_length)
    moreover have "length r \<le> length q3"
      using rest IH(3) [of "skip_ws q3"] length_skip_ws [of q3] by fastforce
    ultimately show ?thesis by simp
  qed
  have v: "length r < length s" if "parse_value (Suc n) s = Done (t, r)" for t r
    using that length_skip_ws [of s] unfolding parse_value_Done_iff
    by (elim disjE exE conjE)
      (auto dest!: IH(2,3) skip_ws_Cons_length parse_scalar_length less_skip_ws)
  from ms ts v show ?case by blast
qed

lemmas parse_value_length [js_len] = parse_length [THEN conjunct1, rule_format]
lemmas parse_members_length [js_len] = parse_length [THEN conjunct2, THEN conjunct1, rule_format]
lemmas parse_elements_length [js_len] = parse_length [THEN conjunct2, THEN conjunct2, rule_format]

text \<open>Where a run out of fuel comes from.\<close>

lemma parse_value_OutOfFuel:
  assumes "parse_value (Suc n) s = OutOfFuel"
  shows "\<exists>c u d v. skip_ws s = c # u \<and> skip_ws u = d # v \<and>
           (parse_members n (d # v) = OutOfFuel \<or> parse_elements n (d # v) = OutOfFuel)"
proof (cases "skip_ws s")
  case (Cons c u)
  consider "c = 0x7B" | "c = 0x5B" | "c \<noteq> 0x7B" "c \<noteq> 0x5B" by blast
  then show ?thesis
    using assms Cons by cases (auto split: list.splits if_splits outcome.splits option.splits)
qed (use assms in simp)

lemma parse_members_OutOfFuel:
  assumes "parse_members (Suc n) s = OutOfFuel"
  shows "\<exists>c u k q d q1. s = c # u \<and> parse_chars u = Some (k, q) \<and> skip_ws q = d # q1 \<and>
           (parse_value n q1 = OutOfFuel \<or>
            (\<exists>t q2 e q3. parse_value n q1 = Done (t, q2) \<and> skip_ws q2 = e # q3 \<and>
               parse_members n (skip_ws q3) = OutOfFuel))"
  using assms by (auto split: list.splits if_splits outcome.splits option.splits)

lemma parse_elements_OutOfFuel:
  assumes "parse_elements (Suc n) s = OutOfFuel"
  shows "parse_value n s = OutOfFuel \<or>
         (\<exists>t q2 e q3. parse_value n s = Done (t, q2) \<and> skip_ws q2 = e # q3 \<and>
            parse_elements n (skip_ws q3) = OutOfFuel)"
  using assms by (auto split: list.splits if_splits outcome.splits)

lemma parse_enough:
  "(2 * length s + 2 \<le> n \<longrightarrow> parse_value n s \<noteq> OutOfFuel) \<and>
   (2 * length s + 1 \<le> n \<longrightarrow> parse_members n s \<noteq> OutOfFuel) \<and>
   (2 * length s + 3 \<le> n \<longrightarrow> parse_elements n s \<noteq> OutOfFuel)"
proof (induction n arbitrary: s)
  case 0
  then show ?case by simp
next
  case (Suc n)
  then have IH: "2 * length s + 2 \<le> n \<Longrightarrow> parse_value n s \<noteq> OutOfFuel"
    "2 * length s + 1 \<le> n \<Longrightarrow> parse_members n s \<noteq> OutOfFuel"
    "2 * length s + 3 \<le> n \<Longrightarrow> parse_elements n s \<noteq> OutOfFuel" for s
    by blast+
  have v: "parse_value (Suc n) s \<noteq> OutOfFuel" if fuel: "2 * length s + 2 \<le> Suc n"
  proof
    assume "parse_value (Suc n) s = OutOfFuel"
    then obtain c u d v where "skip_ws s = c # u" "skip_ws u = d # v"
      and out: "parse_members n (d # v) = OutOfFuel \<or> parse_elements n (d # v) = OutOfFuel"
      using parse_value_OutOfFuel by blast
    then have "length (d # v) < length s"
      by (auto dest!: skip_ws_Cons_length)
    with out fuel IH(2,3) [of "d # v"] show False by auto
  qed
  have ms: "parse_members (Suc n) s \<noteq> OutOfFuel" if fuel: "2 * length s + 1 \<le> Suc n"
  proof
    assume "parse_members (Suc n) s = OutOfFuel"
    from parse_members_OutOfFuel [OF this] obtain c u k q d q1 where read: "s = c # u" "parse_chars u = Some (k, q)" "skip_ws q = d # q1"
      and out: "parse_value n q1 = OutOfFuel \<or>
        (\<exists>t q2 e q3. parse_value n q1 = Done (t, q2) \<and> skip_ws q2 = e # q3 \<and>
           parse_members n (skip_ws q3) = OutOfFuel)"
      by (elim exE conjE) (rule that)
    from read have q1: "length q1 + 2 < length s"
      by (auto dest!: parse_chars_length skip_ws_Cons_length)
    with fuel IH(1) [of q1] out obtain t q2 e q3 where
      "parse_value n q1 = Done (t, q2)" "skip_ws q2 = e # q3" and
      out': "parse_members n (skip_ws q3) = OutOfFuel" by auto
    then have "length (skip_ws q3) < length s"
      using q1 length_skip_ws [of q3] by (auto dest!: skip_ws_Cons_length parse_value_length)
    with fuel IH(2) [of "skip_ws q3"] out' show False by auto
  qed
  have ts: "parse_elements (Suc n) s \<noteq> OutOfFuel" if fuel: "2 * length s + 3 \<le> Suc n"
  proof
    assume "parse_elements (Suc n) s = OutOfFuel"
    then obtain t q2 e q3 where
      "parse_value n s = Done (t, q2)" "skip_ws q2 = e # q3" and
      out: "parse_elements n (skip_ws q3) = OutOfFuel"
      using parse_elements_OutOfFuel [of n s] IH(1) [of s] fuel by auto
    then have "length (skip_ws q3) + 1 < length s"
      using length_skip_ws [of q3] by (auto dest!: skip_ws_Cons_length parse_value_length)
    with fuel IH(3) [of "skip_ws q3"] out show False by auto
  qed
  from v ms ts show ?case by blast
qed

lemma parse_value_enough: "parse_value (json_fuel s) s \<noteq> OutOfFuel"
  using parse_enough [of s "json_fuel s"] by (simp add: json_fuel_def)


section \<open>JSON.stringify\<close>

definition hex_digit :: "nat \<Rightarrow> code_unit" where
  "hex_digit n = of_nat (if n < 10 then 48 + n else 87 + n)"

definition unicode_escape :: "code_unit \<Rightarrow> jsstr" where
  "unicode_escape c =
     [0x5C, 0x75, hex_digit (unat c div 4096), hex_digit (unat c div 256 mod 16),
      hex_digit (unat c div 16 mod 16), hex_digit (unat c mod 16)]"

definition quote_unit :: "code_unit \<Rightarrow> jsstr" where
  "quote_unit c =
     (if c = 0x08 then [0x5C, 0x62]
      else if c = 0x09 then [0x5C, 0x74]
      else if c = 0x0A then [0x5C, 0x6E]
      else if c = 0x0C then [0x5C, 0x66]
      else if c = 0x0D then [0x5C, 0x72]
      else if c = 0x22 then [0x5C, 0x22]
      else if c = 0x5C then [0x5C, 0x5C]
      else if c < 0x20 \<or> is_high c \<or> is_low c then unicode_escape c
      else [c])"

text \<open>A surrogate pair is printed as it is, an unpaired surrogate as an escape.\<close>

fun quote_body :: "jsstr \<Rightarrow> jsstr" where
  "quote_body [] = []"
| "quote_body [c] = quote_unit c"
| "quote_body (c # d # s) =
     (if is_high c \<and> is_low d then c # d # quote_body s
      else quote_unit c @ quote_body (d # s))"

definition string_text :: "jsstr \<Rightarrow> jsstr" where
  "string_text s = 0x22 # quote_body s @ [0x22]"

fun join_comma :: "jsstr list \<Rightarrow> jsstr" where
  "join_comma [] = []"
| "join_comma [x] = x"
| "join_comma (x # y # xs) = x @ 0x2C # join_comma (y # xs)"

fun prim_text :: "jsprim \<Rightarrow> jsstr option" where
  "prim_text PNull = Some (js ''null'')"
| "prim_text (PBool b) = Some (if b then js ''true'' else js ''false'')"
| "prim_text (PStr s) = Some (string_text s)"
| "prim_text (PNum x) = number_text x"
| "prim_text PUndef = None"
| "prim_text (POther _) = None"

definition member_text :: "jsstr \<Rightarrow> jsstr \<Rightarrow> jsstr" where
  "member_text k x = string_text k @ 0x3A # x"

fun json_stringify :: "jtree \<Rightarrow> jsstr option" where
  "json_stringify (TPrim v) = prim_text v"
| "json_stringify (TArr ts) =
     map_option (\<lambda>xs. 0x5B # join_comma xs @ [0x5D]) (those (map json_stringify ts))"
| "json_stringify (TObj ms) =
     map_option (\<lambda>xs. 0x7B # join_comma xs @ [0x7D])
       (those (map (\<lambda>(k, t). map_option (member_text k) (json_stringify t)) ms))"


section \<open>Round trip\<close>

lemma hex_value_digit: "n < 16 \<Longrightarrow> hex_value (hex_digit n) = Some n"
  by (auto simp: hex_value_def hex_digit_def js_char word_le_nat_alt of_nat_16_less)

lemma hex4_escape:
  "hex4 (hex_digit (unat c div 4096)) (hex_digit (unat c div 256 mod 16))
     (hex_digit (unat c div 16 mod 16)) (hex_digit (unat c mod 16)) = Some c"
proof -
  define n where "n = unat c"
  have n: "n < 65536" using unsigned_less [of c, where 'a = nat] by (simp add: n_def)
  have "n div 4096 < 16" using n by auto
  moreover have "4096 * (n div 4096) + 256 * (n div 256 mod 16) + 16 * (n div 16 mod 16) + n mod 16 = n"
  proof -
    have "n div 16 * 16 + n mod 16 = n" by (rule div_mult_mod_eq)
    moreover have "n div 256 * 16 + n div 16 mod 16 = n div 16"
      using div_mult_mod_eq [of "n div 16" 16] by (simp add: div_mult2_eq [symmetric])
    moreover have "n div 4096 * 16 + n div 256 mod 16 = n div 256"
      using div_mult_mod_eq [of "n div 256" 16] by (simp add: div_mult2_eq [symmetric])
    ultimately show ?thesis by linarith
  qed
  moreover have "of_nat n = c" by (simp add: n_def)
  ultimately show ?thesis
    unfolding n_def [symmetric] by (simp add: hex4_def hex_value_digit)
qed

lemma parse_chars_plain:
  "\<not> c < 0x20 \<Longrightarrow> c \<noteq> 0x22 \<Longrightarrow> c \<noteq> 0x5C \<Longrightarrow>
   parse_chars (c # s) = map_option (\<lambda>(t, r). (c # t, r)) (parse_chars s)"
  by simp

lemma parse_chars_quote_unit:
  "parse_chars (quote_unit c @ s) = map_option (\<lambda>(t, r). (c # t, r)) (parse_chars s)"
  by (auto simp: quote_unit_def unicode_escape_def hex4_escape simple_escape_def)

lemma surrogate_plain:
  "is_high c \<or> is_low c \<Longrightarrow> \<not> c < 0x20 \<and> c \<noteq> 0x22 \<and> c \<noteq> 0x5C"
  by (auto simp: js_char word_le_nat_alt word_less_nat_alt)

lemma parse_chars_quote_body: "parse_chars (quote_body s @ 0x22 # r) = Some (s, r)"
proof (induction s rule: quote_body.induct)
  case (2 c)
  then show ?case by (simp add: parse_chars_quote_unit)
next
  case (3 c d s)
  show ?case
  proof (cases "is_high c \<and> is_low d")
    case True
    then show ?thesis
      using 3 surrogate_plain [of c] surrogate_plain [of d] by (simp add: parse_chars_plain)
  next
    case False
    then show ?thesis
      using 3 by (auto simp: parse_chars_quote_unit)
  qed
qed simp

text \<open>The first character of a printed value.\<close>

definition value_head :: "code_unit \<Rightarrow> bool" where
  "value_head c \<longleftrightarrow> \<not> is_json_space c \<and> c \<noteq> 0x5D \<and> c \<noteq> 0x7D"

lemma prim_text_parse:
  assumes "prim_text v = Some x" "stops r"
  shows "\<exists>c u. x = c # u \<and> value_head c \<and> c \<noteq> 0x7B \<and> c \<noteq> 0x5B \<and>
           parse_scalar (x @ r) = Some (TPrim v, r)"
proof (cases v)
  case (PNum n)
  then have n: "number_text n = Some x" using assms(1) by simp
  from number_text_parse [OF n assms(2)] obtain c u where
    cu: "x = c # u" "c = 0x2D \<or> is_digit c" "parse_number ((c # u) @ r) = Some (n, r)" by auto
  with PNum show ?thesis by (auto simp: parse_scalar_def value_head_def js_char)
qed (use assms parse_chars_quote_body in
    \<open>auto simp: parse_scalar_def value_head_def js_char js_def string_text_def split: if_splits\<close>)

lemma skip_ws_head: "value_head c \<Longrightarrow> skip_ws (c # s) = c # s"
  by (simp add: skip_ws_def value_head_def)

lemma skip_ws_punct [simp]:
  "skip_ws (0x2C # r) = 0x2C # r" "skip_ws (0x5D # r) = 0x5D # r" "skip_ws (0x7D # r) = 0x7D # r"
  "skip_ws (0x3A # r) = 0x3A # r" "skip_ws (0x22 # r) = 0x22 # r" "skip_ws [] = []"
  by (simp_all add: skip_ws_def js_char)

text \<open>What a printed value must satisfy for its container to read it back.\<close>

definition reads_back :: "jtree \<Rightarrow> jsstr \<Rightarrow> bool" where
  "reads_back t x \<longleftrightarrow>
     (\<exists>c u. x = c # u \<and> value_head c) \<and>
     (\<forall>n r. 2 * length x + 2 \<le> n \<longrightarrow> stops r \<longrightarrow> parse_value n (x @ r) = Done (t, r))"

lemma reads_back_parse:
  "reads_back t x \<Longrightarrow> 2 * length x + 2 \<le> n \<Longrightarrow> stops r \<Longrightarrow> parse_value n (x @ r) = Done (t, r)"
  by (simp add: reads_back_def)

lemma join_comma_Cons: "join_comma (x # xs) = (if xs = [] then x else x @ 0x2C # join_comma xs)"
  by (cases xs) auto

lemma join_comma_head: "\<exists>v. join_comma ((c # u) # ys) = c # v"
  by (cases ys) auto

lemma elements_read_back:
  assumes "list_all2 reads_back ts xs" "ts \<noteq> []" "2 * length (join_comma xs) + 3 \<le> n"
  shows "parse_elements n (join_comma xs @ 0x5D # r) = Done (ts, r)"
  using assms
proof (induction ts xs arbitrary: n rule: list_all2_induct)
  case (Cons t ts x xs)
  then obtain m where n: "n = Suc m" by (cases n) auto
  show ?case
  proof (cases "ts = []")
    case True
    with Cons have "xs = []" by simp
    moreover have "parse_value m (x @ 0x5D # r) = Done (t, 0x5D # r)"
      using Cons.hyps(1) Cons.prems n True \<open>xs = []\<close> by (intro reads_back_parse) auto
    ultimately show ?thesis using True n by simp
  next
    case False
    with Cons.hyps(2) obtain y ys where xs: "xs = y # ys" by (cases xs) auto
    from Cons.hyps(2) xs False obtain c u where y: "y = c # u" "value_head c"
      by (auto simp: reads_back_def list_all2_Cons2)
    then obtain v where v: "join_comma xs = c # v" using xs join_comma_head by blast
    have head: "parse_value m (x @ 0x2C # join_comma xs @ 0x5D # r)
        = Done (t, 0x2C # join_comma xs @ 0x5D # r)"
      using Cons.hyps(1) Cons.prems n xs by (intro reads_back_parse) (auto simp: join_comma_Cons)
    have "parse_elements m (join_comma xs @ 0x5D # r) = Done (ts, r)"
      using Cons.prems n xs False by (intro Cons.IH) (auto simp: join_comma_Cons)
    with head n xs v y(2) show ?thesis
      by (simp add: join_comma_Cons skip_ws_head)
  qed
qed simp

lemma members_read_back:
  assumes "list_all2 (\<lambda>(k, t) x. \<exists>y. x = member_text k y \<and> reads_back t y) ms xs" "ms \<noteq> []"
    "2 * length (join_comma xs) + 1 \<le> n"
  shows "parse_members n (join_comma xs @ 0x7D # r) = Done (ms, r)"
  using assms
proof (induction ms xs arbitrary: n rule: list_all2_induct)
  case (Cons m ms x xs)
  obtain k t where m: "m = (k, t)" by (cases m)
  with Cons.hyps(1) obtain y where x: "x = member_text k y" and y: "reads_back t y" by auto
  from Cons.prems obtain n' where n: "n = Suc n'" by (cases n) auto
  have len: "2 * length y + 2 \<le> n'"
    using Cons.prems n x by (auto simp: join_comma_Cons member_text_def string_text_def split: if_splits)
  obtain c u where yc: "y = c # u" "value_head c" using y by (auto simp: reads_back_def)
  show ?case
  proof (cases "ms = []")
    case True
    with Cons have "xs = []" by simp
    moreover have "parse_value n' (y @ 0x7D # r) = Done (t, 0x7D # r)"
      using y len by (intro reads_back_parse) auto
    ultimately show ?thesis
      using True n x m by (simp add: member_text_def string_text_def parse_chars_quote_body)
  next
    case False
    with Cons.hyps(2) obtain x' xs' where xs: "xs = x' # xs'" by (cases xs) auto
    from Cons.hyps(2) xs False obtain v where "x' = 0x22 # v"
      by (auto simp: member_text_def string_text_def list_all2_Cons2)
    then obtain w where w: "join_comma xs = 0x22 # w" using xs join_comma_head by blast
    have head: "parse_value n' (y @ 0x2C # join_comma xs @ 0x7D # r)
        = Done (t, 0x2C # join_comma xs @ 0x7D # r)"
      using y len by (intro reads_back_parse) auto
    have "parse_members n' (join_comma xs @ 0x7D # r) = Done (ms, r)"
      using Cons.prems n xs False by (intro Cons.IH) (auto simp: join_comma_Cons)
    with head n x m xs w show ?thesis
      by (simp add: join_comma_Cons member_text_def string_text_def parse_chars_quote_body)
  qed
qed simp

lemma those_list_all2: "those (map f xs) = Some ys \<longleftrightarrow> list_all2 (\<lambda>x y. f x = Some y) xs ys"
  by (induction xs arbitrary: ys) (auto simp: list_all2_Cons1 split: option.splits)

lemma stringify_reads_back: "json_stringify t = Some x \<Longrightarrow> reads_back t x"
proof (induction t arbitrary: x rule: json_stringify.induct)
  case (1 v)
  have "prim_text v = Some x" using 1 by simp
  then have "stops r \<Longrightarrow> \<exists>c u. x = c # u \<and> value_head c \<and> c \<noteq> 0x7B \<and> c \<noteq> 0x5B \<and>
      parse_scalar (x @ r) = Some (TPrim v, r)" for r
    by (rule prim_text_parse)
  note p = this
  from p [of "[]"] obtain c u where x: "x = c # u" "value_head c" by auto
  have "parse_value n (x @ r) = Done (TPrim v, r)" if "2 * length x + 2 \<le> n" "stops r" for n r
  proof -
    obtain m where "n = Suc m" using \<open>2 * length x + 2 \<le> n\<close> by (cases n) auto
    with p [OF \<open>stops r\<close>] x show ?thesis by (auto simp: parse_value_Done_iff skip_ws_head)
  qed
  with x show ?case by (auto simp: reads_back_def)
next
  case (2 ts)
  then obtain xs where xs: "those (map json_stringify ts) = Some xs" and x: "x = 0x5B # join_comma xs @ [0x5D]"
    by auto
  have all: "list_all2 reads_back ts xs"
    using xs unfolding those_list_all2
    by (rule list.rel_mono_strong) (use "2.IH" in auto)
  have "parse_value n (x @ r) = Done (TArr ts, r)" if fuel: "2 * length x + 2 \<le> n" for n r
  proof -
    obtain m where n: "n = Suc m" using fuel by (cases n) auto
    have ws: "skip_ws (0x5B # s) = 0x5B # s" for s by (simp add: skip_ws_def js_char)
    show ?thesis
    proof (cases "ts = []")
      case True
      with all x n show ?thesis by (simp add: ws)
    next
      case False
      then obtain c u ys where "xs = (c # u) # ys" and c: "value_head c"
        using all by (cases ts; cases xs) (auto simp: reads_back_def)
      then obtain v where cv: "join_comma xs = c # v" "value_head c"
        using join_comma_head by blast
      have "parse_elements m (join_comma xs @ 0x5D # r) = Done (ts, r)"
        using all False fuel x n by (intro elements_read_back) auto
      with cv x n ws show ?thesis
        by (auto simp: parse_value_Done_iff skip_ws_head value_head_def)
    qed
  qed
  with x show ?case by (auto simp: reads_back_def value_head_def js_char)
next
  case (3 ms)
  then obtain xs where
    xs: "those (map (\<lambda>(k, t). map_option (member_text k) (json_stringify t)) ms) = Some xs" and
    x: "x = 0x7B # join_comma xs @ [0x7D]"
    by auto
  have all: "list_all2 (\<lambda>(k, t) x. \<exists>y. x = member_text k y \<and> reads_back t y) ms xs"
    using xs unfolding those_list_all2
    by (rule list.rel_mono_strong) (use "3.IH" in auto)
  have "parse_value n (x @ r) = Done (TObj ms, r)" if fuel: "2 * length x + 2 \<le> n" for n r
  proof -
    obtain m where n: "n = Suc m" using fuel by (cases n) auto
    have ws: "skip_ws (0x7B # s) = 0x7B # s" for s by (simp add: skip_ws_def js_char)
    show ?thesis
    proof (cases "ms = []")
      case True
      with all x n show ?thesis by (simp add: ws)
    next
      case False
      then obtain y ys where "xs = (0x22 # y) # ys"
        using all by (cases ms; cases xs) (auto simp: member_text_def string_text_def)
      then obtain v where v: "join_comma xs = 0x22 # v"
        using join_comma_head by blast
      have "parse_members m (join_comma xs @ 0x7D # r) = Done (ms, r)"
        using all False fuel x n by (intro members_read_back) auto
      with v x n ws show ?thesis
        by (auto simp: parse_value_Done_iff)
    qed
  qed
  with x show ?case by (auto simp: reads_back_def value_head_def js_char)
qed

lemma json_parse_raw_stringify: "json_stringify t = Some s \<Longrightarrow> json_parse_raw s = Some t"
  using reads_back_parse [OF stringify_reads_back, of t s "json_fuel s" "[]"]
  by (simp add: json_parse_raw_def json_fuel_def)

text \<open>A tree in which no object repeats a key; normalisation does not change it.\<close>

fun strict_tree :: "jtree \<Rightarrow> bool" where
  "strict_tree (TPrim v) \<longleftrightarrow> True"
| "strict_tree (TArr ts) \<longleftrightarrow> list_all strict_tree ts"
| "strict_tree (TObj ms) \<longleftrightarrow> distinct (map fst ms) \<and> list_all (\<lambda>(k, t). strict_tree t) ms"

lemma put_member_new: "k \<notin> fst ` set ms \<Longrightarrow> put_member k t ms = ms @ [(k, t)]"
  by (induction k t ms rule: put_member.induct) auto

lemma put_members_distinct:
  "distinct (map fst (acc @ ms)) \<Longrightarrow> put_members acc ms = acc @ ms"
  by (induction acc ms rule: put_members.induct) (auto simp: put_member_new)

lemma norm_tree_strict: "strict_tree t \<Longrightarrow> norm_tree t = t"
proof (induction t rule: norm_tree.induct)
  case (2 ts)
  then show ?case by (simp add: list_all_iff map_idI)
next
  case (3 ms)
  then have "map (\<lambda>(k, t). (k, norm_tree t)) ms = ms"
    by (intro map_idI) (auto simp: list_all_iff)
  with 3 show ?case by (simp add: put_members_distinct)
qed simp

lemma json_parse_strict: "json_parse_raw s = Some t \<Longrightarrow> strict_tree t \<Longrightarrow> json_parse s = Some t"
  by (simp add: json_parse_def norm_tree_strict)

text \<open>
  The interface of a text format: a printer, defined on some values, and a reader that
  returns what was printed. Its clients use that printing is injective.
\<close>

locale codec =
  fixes print :: "'a \<Rightarrow> 'b option" and read :: "'b \<Rightarrow> 'a option" and good :: "'a \<Rightarrow> bool"
  assumes read_print: "good v \<Longrightarrow> print v = Some x \<Longrightarrow> read x = Some v"
begin

lemma print_inject:
  assumes "good v" "good w" "print v = Some x" "print w = Some y"
  shows "x = y \<longleftrightarrow> v = w"
  using assms read_print by (metis option.inject)

end

interpretation raw_json: codec json_stringify json_parse_raw "\<lambda>t. True"
  by unfold_locales (simp add: json_parse_raw_stringify)

interpretation strict_json: codec json_stringify json_parse strict_tree
  by unfold_locales (simp add: json_parse_strict json_parse_raw_stringify)

lemma json_round_trip:
  assumes "json_stringify t = Some s" and "strict_tree t"
  shows "json_parse s = Some t"
  using assms strict_json.read_print by blast


section \<open>Printable trees\<close>

lemma those_map_Some: "\<forall>x \<in> set xs. f x \<noteq> None \<Longrightarrow> those (map f xs) \<noteq> None"
  by (induction xs) (auto split: option.splits)

text \<open>Trees whose leaves all have a JSON text.\<close>

fun printable :: "jtree \<Rightarrow> bool" where
  "printable (TPrim v) \<longleftrightarrow> prim_text v \<noteq> None"
| "printable (TArr ts) \<longleftrightarrow> list_all printable ts"
| "printable (TObj fs) \<longleftrightarrow> list_all (\<lambda>(k, t). printable t) fs"

lemma printable_stringify: "printable t \<Longrightarrow> json_stringify t \<noteq> None"
proof (induction t rule: printable.induct)
  case (2 ts)
  then show ?case using those_map_Some [of ts json_stringify] by (auto simp: list_all_iff)
next
  case (3 fs)
  then show ?case
    using those_map_Some [of fs "\<lambda>(k, t). map_option (member_text k) (json_stringify t)"]
    by (fastforce simp: list_all_iff)
qed simp

text \<open>
  The text of a tree used as the key of a record (\<open>JSON.stringify\<close> of an array of strings and
  safe integers); keys of printable trees are equal only for equal trees.
\<close>

definition json_key :: "jtree \<Rightarrow> jsstr" where
  "json_key t = (case json_stringify t of Some k \<Rightarrow> k | None \<Rightarrow> [])"

lemma json_key_inject: "printable t \<Longrightarrow> printable u \<Longrightarrow> json_key t = json_key u \<longleftrightarrow> t = u"
  using printable_stringify [of t] printable_stringify [of u] raw_json.print_inject [of t "json_key t" u "json_key u"]
  by (auto simp: json_key_def split: option.splits)

lemma strict_jobj [simp]:
  "strict_tree (jobj fs) \<longleftrightarrow> distinct (map fst fs) \<and> (\<forall>(k, t) \<in> set fs. strict_tree t)"
proof -
  have "map fst (map (\<lambda>(k, t). (js k, t)) fs) = map js (map fst fs)" by auto
  moreover have "inj js" by (simp add: inj_def)
  ultimately have "distinct (map fst (map (\<lambda>(k, t). (js k, t)) fs)) \<longleftrightarrow> distinct (map fst fs)"
    by (simp add: distinct_map inj_on_subset del: map_map) (metis inj_on_subset subset_UNIV)
  then show ?thesis by (auto simp: jobj_def list_all_iff)
qed

lemma printable_jobj: "printable (jobj fs) \<longleftrightarrow> list_all (\<lambda>(k, t). printable t) fs"
  by (simp add: jobj_def list_all_iff case_prod_unfold)


section \<open>The numbers of a parsed text\<close>

fun binary64_tree :: "jtree \<Rightarrow> bool" where
  "binary64_tree (TPrim v) \<longleftrightarrow> (case v of PNum n \<Rightarrow> binary64 n | _ \<Rightarrow> True)"
| "binary64_tree (TArr ts) \<longleftrightarrow> list_all binary64_tree ts"
| "binary64_tree (TObj ms) \<longleftrightarrow> list_all (\<lambda>(k, t). binary64_tree t) ms"

lemma parse_number_binary64: "parse_number s = Some (x, r) \<Longrightarrow> binary64 x"
  by (auto simp: parse_number_def Let_def split: option.splits)

lemma parse_scalar_binary64: "parse_scalar s = Some (t, r) \<Longrightarrow> binary64_tree t"
  by (auto simp: parse_scalar_def split: list.splits if_splits dest: parse_number_binary64)

lemma parse_binary64:
  "(\<forall>t r. parse_value n s = Done (t, r) \<longrightarrow> binary64_tree t) \<and>
   (\<forall>ms r. parse_members n s = Done (ms, r) \<longrightarrow> list_all (\<lambda>(k, t). binary64_tree t) ms) \<and>
   (\<forall>ts r. parse_elements n s = Done (ts, r) \<longrightarrow> list_all binary64_tree ts)"
proof (induction n arbitrary: s)
  case (Suc n)
  then have IH: "parse_value n s = Done (t, r) \<Longrightarrow> binary64_tree t"
    "parse_members n s = Done (ms, r) \<Longrightarrow> list_all (\<lambda>(k, t). binary64_tree t) ms"
    "parse_elements n s = Done (ts, r) \<Longrightarrow> list_all binary64_tree ts" for s t ms ts r
    by blast+
  have "binary64_tree t" if "parse_value (Suc n) s = Done (t, r)" for t r
    using that unfolding parse_value_Done_iff by (elim disjE exE conjE) (auto dest: IH(2,3) parse_scalar_binary64)
  moreover have "list_all (\<lambda>(k, t). binary64_tree t) ms" if "parse_members (Suc n) s = Done (ms, r)" for ms r
    using that unfolding parse_members_Done_iff by (elim disjE exE conjE) (auto dest: IH(1,2))
  moreover have "list_all binary64_tree ts" if "parse_elements (Suc n) s = Done (ts, r)" for ts r
    using that unfolding parse_elements_Done_iff by (elim disjE exE conjE) (auto dest: IH(1,3))
  ultimately show ?case by blast
qed simp

lemma put_member_all: "list_all (\<lambda>(k, t). P t) ms \<Longrightarrow> P t \<Longrightarrow> list_all (\<lambda>(k, t). P t) (put_member k t ms)"
  by (induction k t ms rule: put_member.induct) auto

lemma put_members_all:
  "list_all (\<lambda>(k, t). P t) acc \<Longrightarrow> list_all (\<lambda>(k, t). P t) ms \<Longrightarrow> list_all (\<lambda>(k, t). P t) (put_members acc ms)"
  by (induction acc ms rule: put_members.induct) (auto intro: put_member_all)

lemma norm_tree_binary64: "binary64_tree t \<Longrightarrow> binary64_tree (norm_tree t)"
proof (induction t rule: norm_tree.induct)
  case (3 ms)
  then have "list_all (\<lambda>(k, t). binary64_tree t) (map (\<lambda>(k, t). (k, norm_tree t)) ms)" by (auto simp: list_all_iff)
  then show ?case using put_members_all [of binary64_tree "[]"] by simp
qed (auto simp: list_all_iff)

lemma json_parse_binary64: "json_parse s = Some t \<Longrightarrow> binary64_tree t"
  using parse_binary64 norm_tree_binary64 by (fastforce simp: json_parse_def json_parse_raw_def split: outcome.splits if_splits)

end
