(* ===== verification/Graph_Model.thy ===== *)
theory Graph_Model
  imports JS_Base "HOL-Library.List_Lexorder"
begin

text \<open>
  The orchestration graph, \<open>src/app/src/domain/orchestrationGraph.ts\<close>: agents, tasks with parents and dependencies,
  attempts at tasks, the record of events, the validation of a graph and its creation.

  Optional fields are options. A message is its fixed text and the identifiers and numbers that it interpolates.
  The sums \<open>generation + 1\<close> are exact: in a valid graph the generations of a task count its attempts, and
  an array has fewer than \<open>2\<^sup>3\<^sup>2\<close> of them. The set \<open>visiting\<close> of the three searches for cycles is restored at the
  end of every visit, so it is an argument here, the path from the start of the search.
\<close>


section \<open>Data\<close>

definition GRAPH_SCHEMA_VERSION :: jsnum where
  "GRAPH_SCHEMA_VERSION = num_int 2"

datatype TaskStatus = Task_pending | Task_running | Task_awaiting_review | Task_succeeded | Task_failed | Task_cancelled

record GraphAgent =
  agent_id :: jsstr
  agent_label :: jsstr
  parentAgentId :: "jsstr option"

record GraphTaskInput =
  input_id :: jsstr
  input_title :: jsstr
  input_ownerAgentId :: jsstr
  input_parentTaskId :: "jsstr option"
  input_dependsOn :: "jsstr list option"
  input_priority :: "jsnum option"
  input_reviewRequired :: "bool option"

record GraphTask =
  task_id :: jsstr
  task_title :: jsstr
  ownerAgentId :: jsstr
  parentTaskId :: "jsstr option"
  dependsOn :: "jsstr list"
  task_priority :: jsnum
  reviewRequired :: bool
  task_status :: TaskStatus

record GraphInput =
  input_maxParallelism :: jsnum
  input_agents :: "GraphAgent list"
  input_tasks :: "GraphTaskInput list"

datatype AttemptKind = Work | Retry | Fallback | Review

datatype AttemptStatus = Attempt_running | Attempt_succeeded | Attempt_failed | Attempt_cancelled

record GraphAttempt =
  att_id :: jsstr
  att_taskId :: jsstr
  att_agentId :: jsstr
  att_kind :: AttemptKind
  generation :: jsnum
  att_status :: AttemptStatus
  startedAt :: jsnum
  completedAt :: "jsnum option"
  previousAttemptId :: "jsstr option"
  supersedesAttemptId :: "jsstr option"
  reviewsAttemptId :: "jsstr option"

datatype work_outcome = Work_ok | Work_failed

text \<open>The fields of each event stand in the order of its interface.\<close>

datatype GraphEvent =
  Work_started jsstr jsstr jsstr jsnum
| Work_completed jsstr work_outcome jsnum
| Handoff_recorded jsstr jsstr jsstr jsnum jsstr
| Task_cancelled_event jsstr jsnum jsstr
| Review_started jsstr jsstr jsstr jsstr jsnum
| Review_completed jsstr bool jsnum
| Retry_started jsstr jsstr jsstr jsstr jsnum
| Fallback_started jsstr jsstr jsstr jsstr jsstr jsnum

text \<open>A recorded event is an event, or a cancellation with the tasks it affects.\<close>

datatype RecordedGraphEvent = Plain GraphEvent | Cancellation jsstr jsnum jsstr "jsstr list"

record GraphRecord =
  sequence :: jsnum
  record_event :: RecordedGraphEvent

record GraphState =
  schemaVersion :: jsnum
  maxParallelism :: jsnum
  agents :: "GraphAgent list"
  tasks :: "GraphTask list"
  attempts :: "GraphAttempt list"
  records :: "GraphRecord list"

datatype issue_part = Name jsstr | Number jsnum

datatype graph_issue = Issue string "issue_part list"

datatype graph_error = GraphValidationError "graph_issue list" | GraphTransitionError string "jsstr list"

fun event_at :: "GraphEvent \<Rightarrow> jsnum" where
  "event_at (Work_started t a g w) = w"
| "event_at (Work_completed a out w) = w"
| "event_at (Handoff_recorded t f g w m) = w"
| "event_at (Task_cancelled_event t w r) = w"
| "event_at (Review_started t a g v w) = w"
| "event_at (Review_completed a ok w) = w"
| "event_at (Retry_started t a g p w) = w"
| "event_at (Fallback_started t a g p r w) = w"

fun recorded_at :: "RecordedGraphEvent \<Rightarrow> jsnum" where
  "recorded_at (Plain e) = event_at e"
| "recorded_at (Cancellation t w r ts) = w"

fun hasAffectedTaskIds :: "RecordedGraphEvent \<Rightarrow> bool" where
  "hasAffectedTaskIds (Cancellation t w r ts) = True"
| "hasAffectedTaskIds (Plain e) = False"


section \<open>Numbers\<close>

fun isFinite :: "jsnum \<Rightarrow> bool" where
  "isFinite (NumFin r) = True"
| "isFinite _ = False"

text \<open>The comparison \<open>n > m\<close> of a count with a number, the comparison \<open>n >= m\<close>, and \<open>m + 1\<close>.\<close>

fun count_exceeds :: "nat \<Rightarrow> jsnum \<Rightarrow> bool" where
  "count_exceeds n (NumFin r) = (of_nat n > r)"
| "count_exceeds n (NumInf pos) = (\<not> pos)"
| "count_exceeds n NumNaN = False"

fun count_reaches :: "nat \<Rightarrow> jsnum \<Rightarrow> bool" where
  "count_reaches n (NumFin r) = (of_nat n \<ge> r)"
| "count_reaches n (NumInf pos) = (\<not> pos)"
| "count_reaches n NumNaN = False"

fun num_succ :: "jsnum \<Rightarrow> jsnum" where
  "num_succ (NumFin r) = NumFin (r + 1)"
| "num_succ n = n"

text \<open>Strict equality with another number, which \<open>NaN\<close> fails.\<close>

definition num_eq :: "jsnum \<Rightarrow> jsnum \<Rightarrow> bool" where
  "num_eq a b \<longleftrightarrow> a \<noteq> NumNaN \<and> a = b"


section \<open>Validation of single values\<close>

definition issue_if :: "bool \<Rightarrow> string \<Rightarrow> issue_part list \<Rightarrow> graph_issue list" where
  "issue_if bad txt parts = (if bad then [Issue txt parts] else [])"

definition validatePositiveInteger :: "jsnum \<Rightarrow> issue_part list \<Rightarrow> graph_issue list" where
  "validatePositiveInteger v label =
     issue_if (case as_integer v of None \<Rightarrow> True | Some i \<Rightarrow> i < 1) ''must be a positive integer'' label"

definition validateFiniteNumber :: "jsnum \<Rightarrow> issue_part list \<Rightarrow> graph_issue list" where
  "validateFiniteNumber v label = issue_if (\<not> isFinite v) ''must be finite'' label"

definition validateNonEmpty :: "jsstr \<Rightarrow> issue_part list \<Rightarrow> graph_issue list" where
  "validateNonEmpty v label = issue_if (js_trim v = []) ''must not be empty'' label"

fun unique_loop :: "string \<Rightarrow> jsstr list \<Rightarrow> jsstr list \<Rightarrow> graph_issue list" where
  "unique_loop txt ids [] = []"
| "unique_loop txt ids (i # is) = issue_if (i \<in> set ids) txt [Name i] @ unique_loop txt (i # ids) is"

definition validateUniqueIds :: "jsstr list \<Rightarrow> string \<Rightarrow> graph_issue list" where
  "validateUniqueIds items kind = unique_loop (''duplicate '' @ kind @ '' id'') [] items"


section \<open>Cycles\<close>

type_synonym visit_state = "jsstr list \<times> graph_issue list"

text \<open>The keys that are not on the path: their number bounds the depth of a search.\<close>

definition off_path :: "'k set \<Rightarrow> 'k list \<Rightarrow> nat" where
  "off_path K path = card (K - set path)"

lemma off_path_less [simp]:
  assumes "finite K" "k \<in> K" "k \<notin> set path"
  shows "off_path K (k # path) < off_path K path"
proof -
  have "K - set (k # path) = (K - set path) - {k}" by auto
  then show ?thesis using assms by (simp only: off_path_def) (rule card_Diff1_less, auto)
qed

function parent_visit ::
  "(jsstr \<Rightarrow> graph_issue) \<Rightarrow> (jsstr \<times> jsstr option) list \<Rightarrow> jsstr list \<Rightarrow> jsstr \<Rightarrow> visit_state \<Rightarrow> visit_state" where
  "parent_visit issue parents visiting i (visited, issues) =
     (if i \<in> set visited \<or> i \<notin> fst ` set parents then (visited, issues)
      else if i \<in> set visiting then (visited, issues @ [issue i])
      else
        let (visited', issues') =
          (case js_lookup parents i of
             Some (Some p) \<Rightarrow> parent_visit issue parents (i # visiting) p (visited, issues)
           | _ \<Rightarrow> (visited, issues))
        in (i # visited', issues'))"
  by pat_completeness auto
termination
  by (relation "measure (\<lambda>(_, parents, visiting, _, _). off_path (fst ` set parents) visiting)")
    simp_all

declare parent_visit.simps [simp del]

definition validateParentCycles :: "string \<Rightarrow> (jsstr \<times> jsstr option) list \<Rightarrow> graph_issue list" where
  "validateParentCycles kind parents =
     snd (fold (parent_visit (\<lambda>i. Issue (kind @ '' parent cycle'') [Name i]) parents []) (js_keys parents) ([], []))"

function dependency_visit :: "(jsstr \<times> jsstr list) list \<Rightarrow> jsstr list \<Rightarrow> jsstr \<Rightarrow> visit_state \<Rightarrow> visit_state"
  and dependency_visits :: "(jsstr \<times> jsstr list) list \<Rightarrow> jsstr list \<Rightarrow> jsstr list \<Rightarrow> visit_state \<Rightarrow> visit_state" where
  "dependency_visit deps visiting i (visited, issues) =
     (if i \<in> set visited \<or> i \<notin> fst ` set deps then (visited, issues)
      else if i \<in> set visiting then (visited, issues @ [Issue ''dependency cycle'' [Name i]])
      else
        let (visited', issues') =
          dependency_visits deps (i # visiting) (case js_lookup deps i of Some ds \<Rightarrow> ds | None \<Rightarrow> []) (visited, issues)
        in (i # visited', issues'))"
| "dependency_visits deps visiting [] s = s"
| "dependency_visits deps visiting (d # ds) s = dependency_visits deps visiting ds (dependency_visit deps visiting d s)"
  by pat_completeness auto
termination
  by (relation "inv_image (less_than <*lex*> less_than) (\<lambda>x. case x of
        Inl (deps, visiting, _, _) \<Rightarrow> (off_path (fst ` set deps) visiting, 0)
      | Inr (deps, visiting, ds, _) \<Rightarrow> (off_path (fst ` set deps) visiting, Suc (length ds)))")
    (simp_all add: wf_inv_image [OF wf_lex_prod [OF wf_less_than wf_less_than]])

declare dependency_visit.simps [simp del]

definition validateDependencyCycles :: "GraphTask list \<Rightarrow> graph_issue list" where
  "validateDependencyCycles ts =
     (let deps = map (\<lambda>t. (task_id t, dependsOn t)) ts in
      snd (fold (dependency_visit deps []) (js_keys deps) ([], [])))"


section \<open>Closure of a cancellation\<close>

text \<open>One pass of the loop over the tasks, and the loop until a pass changes nothing.\<close>

definition joins :: "jsstr list \<Rightarrow> GraphTask \<Rightarrow> bool" where
  "joins found t \<longleftrightarrow> task_id t \<notin> set found \<and>
     ((case parentTaskId t of Some p \<Rightarrow> p \<in> set found | None \<Rightarrow> False) \<or> list_ex (\<lambda>d. d \<in> set found) (dependsOn t))"

fun closure_pass :: "GraphTask list \<Rightarrow> jsstr list \<Rightarrow> jsstr list" where
  "closure_pass [] found = found"
| "closure_pass (t # ts) found = closure_pass ts (if joins found t then found @ [task_id t] else found)"

lemma closure_pass_new:
  "set found \<subseteq> set (closure_pass ts found) \<and> set (closure_pass ts found) \<subseteq> set found \<union> task_id ` set ts \<and>
   (closure_pass ts found \<noteq> found \<longrightarrow> length found < length (closure_pass ts found)) \<and>
   (distinct found \<longrightarrow> distinct (closure_pass ts found))"
proof (induction ts arbitrary: found)
  case (Cons t ts)
  show ?case using Cons.IH [of found] Cons.IH [of "found @ [task_id t]"]
    by (cases "joins found t") (auto simp: joins_def)
qed simp

lemma closure_pass_more:
  assumes "closure_pass ts found \<noteq> found"
  shows "\<exists>k \<in> task_id ` set ts. k \<notin> set found \<and> k \<in> set (closure_pass ts found)"
  using assms
proof (induction ts arbitrary: found)
  case (Cons t ts)
  show ?case
  proof (cases "joins found t")
    case True
    then show ?thesis using closure_pass_new [of "found @ [task_id t]" ts] by (auto simp: joins_def)
  next
    case False
    then show ?thesis using Cons by auto
  qed
qed simp

lemma closure_pass_shrinks:
  assumes "closure_pass ts found \<noteq> found"
  shows "off_path (task_id ` set ts) (closure_pass ts found) < off_path (task_id ` set ts) found"
  unfolding off_path_def using closure_pass_more [OF assms] closure_pass_new [of found ts]
  by (intro psubset_card_mono) auto

function closure_loop :: "GraphTask list \<Rightarrow> jsstr list \<Rightarrow> jsstr list" where
  "closure_loop ts found =
     (let found' = closure_pass ts found in if found' = found then found else closure_loop ts found')"
  by pat_completeness auto
termination
  by (relation "measure (\<lambda>(ts, found). off_path (task_id ` set ts) found)") (simp_all add: closure_pass_shrinks)

declare closure_loop.simps [simp del]

text \<open>\<open>sort\<close> without a comparison function orders strings by code units.\<close>

definition cancellationTaskIds :: "GraphState \<Rightarrow> jsstr \<Rightarrow> jsstr list" where
  "cancellationTaskIds g rootTaskId = sort (closure_loop (tasks g) [rootTaskId])"


section \<open>Validation of attempts\<close>

abbreviation taskTable :: "GraphState \<Rightarrow> jsstr \<Rightarrow> GraphTask option" where
  "taskTable g \<equiv> js_lookup (map (\<lambda>t. (task_id t, t)) (tasks g))"

abbreviation attemptTable :: "GraphAttempt list \<Rightarrow> jsstr \<Rightarrow> GraphAttempt option" where
  "attemptTable as \<equiv> js_lookup (map (\<lambda>a. (att_id a, a)) as)"

definition superseded :: "GraphAttempt list \<Rightarrow> jsstr list" where
  "superseded as = List.map_filter supersedesAttemptId as"

definition currentWorkAttempt :: "GraphState \<Rightarrow> jsstr \<Rightarrow> GraphAttempt option" where
  "currentWorkAttempt g k =
     (let workAttempts = filter (\<lambda>a. att_taskId a = k \<and> att_kind a \<noteq> Review) (attempts g) in
      find (\<lambda>a. att_id a \<notin> set (superseded workAttempts)) workAttempts)"

definition validateAttemptLineage :: "GraphAttempt \<Rightarrow> jsstr option \<Rightarrow> (jsstr \<Rightarrow> GraphAttempt option) \<Rightarrow> graph_issue list" where
  "validateAttemptLineage a prev byId =
     issue_if (case Option.bind prev byId of
         None \<Rightarrow> True
       | Some p \<Rightarrow> att_taskId p \<noteq> att_taskId a \<or> att_status p \<noteq> Attempt_failed)
       ''must reference a failed attempt on the same task'' [Name (att_id a)]"

definition validateWorkSupersession :: "GraphAttempt \<Rightarrow> (jsstr \<Rightarrow> GraphAttempt option) \<Rightarrow> graph_issue list" where
  "validateWorkSupersession a byId =
     (let missing = [Issue ''must supersede a work predecessor on the same task'' [Name (att_id a)]] in
      case Option.bind (supersedesAttemptId a) byId of
        None \<Rightarrow> missing
      | Some p \<Rightarrow>
          if att_kind p = Review \<or> att_taskId p \<noteq> att_taskId a then missing
          else
            issue_if (\<not> num_eq (generation a) (num_succ (generation p)))
              ''generation must follow its superseded predecessor'' [Name (att_id a)] @
            (let failedWorkAttemptId =
               (case Option.bind (previousAttemptId a) byId of
                  None \<Rightarrow> None
                | Some f \<Rightarrow> if att_kind f = Review then reviewsAttemptId f else Some (att_id f))
             in issue_if (failedWorkAttemptId \<noteq> Some (att_id p))
                  ''failure lineage must bind to its superseded work'' [Name (att_id a)]))"

definition review_issues :: "GraphState \<Rightarrow> GraphAttempt \<Rightarrow> graph_issue list" where
  "review_issues g a =
     (let reviewed = Option.bind (reviewsAttemptId a) (attemptTable (attempts g)) in
      (case reviewed of
         None \<Rightarrow> [Issue ''must reference a succeeded work attempt on the same task'' [Name (att_id a)]]
       | Some r \<Rightarrow>
           if att_taskId r \<noteq> att_taskId a \<or> att_kind r = Review \<or> att_status r \<noteq> Attempt_succeeded
           then [Issue ''must reference a succeeded work attempt on the same task'' [Name (att_id a)]]
           else if att_agentId r = att_agentId a
           then [Issue ''must use a different agent than the reviewed work'' [Name (att_id a)]]
           else issue_if (\<not> num_eq (generation a) (generation r))
             ''generation must match reviewed work generation'' [Name (att_id a)]) @
      issue_if ((att_status a = Attempt_running \<or> att_status a = Attempt_succeeded) \<and>
          map_option att_id (currentWorkAttempt g (att_taskId a)) \<noteq> map_option att_id reviewed)
        ''authoritative review must bind to the current work attempt'' [Name (att_id a)] @
      issue_if (case taskTable g (att_taskId a) of None \<Rightarrow> True | Some t \<Rightarrow> \<not> reviewRequired t)
        ''belongs to a task that does not require review'' [Name (att_id a)] @
      issue_if (supersedesAttemptId a \<noteq> None) ''review cannot supersede work'' [Name (att_id a)])"

definition expected_status :: "GraphAttempt \<Rightarrow> TaskStatus" where
  "expected_status a = (if att_kind a = Review then Task_awaiting_review else Task_running)"

definition attempt_issues :: "GraphState \<Rightarrow> GraphAttempt \<Rightarrow> graph_issue list" where
  "attempt_issues g a =
     validateNonEmpty (att_id a) [Name (js ''attempt id'')] @
     issue_if (att_taskId a \<notin> task_id ` set (tasks g)) ''references missing task'' [Name (att_id a), Name (att_taskId a)] @
     issue_if (att_agentId a \<notin> agent_id ` set (agents g)) ''references missing agent'' [Name (att_id a), Name (att_agentId a)] @
     validatePositiveInteger (generation a) [Name (att_id a), Name (js ''generation'')] @
     validateFiniteNumber (startedAt a) [Name (att_id a), Name (js ''startedAt'')] @
     (case completedAt a of None \<Rightarrow> [] | Some w \<Rightarrow> validateFiniteNumber w [Name (att_id a), Name (js ''completedAt'')]) @
     (if att_status a = Attempt_running
      then issue_if (completedAt a \<noteq> None) ''running attempt cannot have completedAt'' [Name (att_id a)]
      else issue_if (completedAt a = None) ''completed attempt must have completedAt'' [Name (att_id a)]) @
     (if att_kind a = Retry \<or> att_kind a = Fallback
      then validateAttemptLineage a (previousAttemptId a) (attemptTable (attempts g)) @
        validateWorkSupersession a (attemptTable (attempts g))
      else issue_if (previousAttemptId a \<noteq> None) ''cannot reference a previous attempt'' [Name (att_id a)]) @
     (if att_kind a = Review then review_issues g a
      else issue_if (reviewsAttemptId a \<noteq> None) ''cannot reference a reviewed attempt'' [Name (att_id a)]) @
     (if att_kind a = Work
      then issue_if (\<not> num_eq (generation a) (num_int 1)) ''initial work attempt must have generation 1'' [Name (att_id a)] @
        issue_if (supersedesAttemptId a \<noteq> None) ''initial work attempt cannot supersede another attempt'' [Name (att_id a)]
      else []) @
     (case taskTable g (att_taskId a) of
        None \<Rightarrow> []
      | Some t \<Rightarrow> issue_if (att_status a = Attempt_running \<and> task_status t \<noteq> expected_status a)
          ''running attempt is inconsistent with task status'' [Name (att_id a), Name (task_id t)])"

function chain_visit :: "GraphAttempt list \<Rightarrow> jsstr list \<Rightarrow> GraphAttempt \<Rightarrow> visit_state \<Rightarrow> visit_state" where
  "chain_visit as visiting a (visited, issues) =
     (if att_id a \<in> set visiting then (visited, issues @ [Issue ''work supersession cycle'' [Name (att_id a)]])
      else if att_id a \<in> set visited then (visited, issues)
      else
        let (visited', issues') =
          (case Option.bind (supersedesAttemptId a) (attemptTable as) of
             Some p \<Rightarrow> chain_visit as (att_id a # visiting) p (visited, issues)
           | None \<Rightarrow> (visited, issues))
        in (att_id a # visited', issues'))"
  by pat_completeness auto

lemma attemptTable_SomeD: "attemptTable as k = Some a \<Longrightarrow> a \<in> set as \<and> att_id a = k"
  by (auto dest: js_lookup_SomeD)

lemma off_path_le: "finite K \<Longrightarrow> off_path K (k # path) \<le> off_path K path"
  unfolding off_path_def by (intro card_mono) auto

termination chain_visit
proof (relation "measure (\<lambda>(as, visiting, a, _). off_path (att_id ` set as) visiting + (if att_id a \<in> att_id ` set as then 0 else 1))")
  fix "as" :: "GraphAttempt list" and visiting visited and a p :: GraphAttempt and issues :: "graph_issue list"
  assume *: "att_id a \<notin> set visiting" "Option.bind (supersedesAttemptId a) (attemptTable as) = Some p"
  then have "att_id p \<in> att_id ` set as" by (auto simp: bind_eq_Some_conv dest: attemptTable_SomeD)
  then show "((as, att_id a # visiting, p, visited, issues), as, visiting, a, visited, issues)
      \<in> measure (\<lambda>(as, visiting, a, _). off_path (att_id ` set as) visiting + (if att_id a \<in> att_id ` set as then 0 else 1))"
    using *(1) off_path_le [of "att_id ` set as" "att_id a" visiting] by auto
qed simp

declare chain_visit.simps [simp del]

fun generation_loop :: "jsstr \<Rightarrow> jsnum list \<Rightarrow> GraphAttempt list \<Rightarrow> graph_issue list" where
  "generation_loop k seen [] = []"
| "generation_loop k seen (a # as) =
     issue_if (generation a \<in> set seen) ''duplicate work generation'' [Name k, Number (generation a)] @
     issue_if ((case generation a of NumFin r \<Rightarrow> r > 1 | NumInf pos \<Rightarrow> pos | NumNaN \<Rightarrow> False) \<and> att_kind a = Work)
       ''generation must be a retry or fallback'' [Name k, Number (generation a)] @
     generation_loop k (generation a # seen) as"

text \<open>The chain of the work attempts at one task.\<close>

definition chain_issues :: "jsstr \<Rightarrow> GraphAttempt list \<Rightarrow> graph_issue list" where
  "chain_issues k as =
     generation_loop k [] as @
     concat (map (\<lambda>n. issue_if (num_int (int n) \<notin> generation ` set as) ''work generation chain is missing generation''
       [Name k, Number (num_int (int n))]) [1..<Suc (length as)]) @
     issue_if (length (filter (\<lambda>a. att_id a \<notin> set (superseded as)) as) \<noteq> 1)
       ''must have exactly one current unsuperseded work attempt'' [Name k] @
     snd (fold (chain_visit as []) as ([], []))"

text \<open>The map \<open>workByTask\<close> groups the work attempts by task, in the order in which the tasks first appear.\<close>

definition validateWorkAttemptChains :: "GraphState \<Rightarrow> graph_issue list" where
  "validateWorkAttemptChains g =
     (let work = filter (\<lambda>a. att_kind a \<noteq> Review) (attempts g) in
      concat (map (\<lambda>k. chain_issues k (filter (\<lambda>a. att_taskId a = k) work))
        (js_keys (map (\<lambda>a. (att_taskId a, a)) work))))"

definition approves :: "GraphTask \<Rightarrow> GraphAttempt \<Rightarrow> GraphAttempt \<Rightarrow> bool" where
  "approves t current a \<longleftrightarrow>
     att_taskId a = task_id t \<and> att_kind a = Review \<and> att_status a = Attempt_succeeded \<and>
     reviewsAttemptId a = Some (att_id current) \<and> num_eq (generation a) (generation current)"

definition outcome_issues :: "GraphState \<Rightarrow> GraphTask \<Rightarrow> graph_issue list" where
  "outcome_issues g t =
     (if task_status t \<noteq> Task_succeeded then []
      else
        case currentWorkAttempt g (task_id t) of
          None \<Rightarrow> [Issue ''successful task must have succeeded current work'' [Name (task_id t)]]
        | Some c \<Rightarrow>
            if att_status c \<noteq> Attempt_succeeded
            then [Issue ''successful task must have succeeded current work'' [Name (task_id t)]]
            else issue_if (reviewRequired t \<and> \<not> list_ex (approves t c) (attempts g))
              ''successful task must have an approved review of its current work attempt'' [Name (task_id t)])"

definition validateTaskOutcomeAuthority :: "GraphState \<Rightarrow> graph_issue list" where
  "validateTaskOutcomeAuthority g = concat (map (outcome_issues g) (tasks g))"

definition activeAttemptCount :: "GraphState \<Rightarrow> nat" where
  "activeAttemptCount g = length (filter (\<lambda>a. att_status a = Attempt_running) (attempts g))"

definition validateAttempts :: "GraphState \<Rightarrow> graph_issue list" where
  "validateAttempts g =
     validateUniqueIds (map att_id (attempts g)) ''attempt'' @
     concat (map (attempt_issues g) (attempts g)) @
     issue_if (count_exceeds (activeAttemptCount g) (maxParallelism g)) ''running attempts exceed maxParallelism''
       [Number (num_int (int (activeAttemptCount g))), Number (maxParallelism g)] @
     validateWorkAttemptChains g @
     validateTaskOutcomeAuthority g"


section \<open>Validation of the record\<close>

definition validateRecordTaskReference :: "GraphState \<Rightarrow> string \<Rightarrow> jsstr \<Rightarrow> graph_issue list" where
  "validateRecordTaskReference g ty k =
     issue_if (k \<notin> task_id ` set (tasks g)) (ty @ '' references unknown task'') [Name k]"

definition validateRecordAgentReference :: "GraphState \<Rightarrow> string \<Rightarrow> jsstr \<Rightarrow> graph_issue list" where
  "validateRecordAgentReference g ty k =
     issue_if (k \<notin> agent_id ` set (agents g)) (ty @ '' references unknown agent'') [Name k]"

definition validateRecordAttemptReference :: "GraphState \<Rightarrow> string \<Rightarrow> jsstr \<Rightarrow> graph_issue list" where
  "validateRecordAttemptReference g ty k =
     issue_if (attemptTable (attempts g) k = None) (ty @ '' references unknown attempt'') [Name k]"

text \<open>A record that names an attempt which exists must agree with it.\<close>

definition mismatch :: "GraphState \<Rightarrow> string \<Rightarrow> jsstr \<Rightarrow> (GraphAttempt \<Rightarrow> bool) \<Rightarrow> graph_issue list" where
  "mismatch g txt k bad =
     issue_if (case attemptTable (attempts g) k of None \<Rightarrow> False | Some a \<Rightarrow> bad a) txt [Name k]"

fun validateRecordReferences :: "GraphState \<Rightarrow> RecordedGraphEvent \<Rightarrow> graph_issue list" where
  "validateRecordReferences g (Plain (Work_started t a ag w)) =
     validateRecordTaskReference g ''work.started'' t @ validateRecordAgentReference g ''work.started'' ag @
     validateRecordAttemptReference g ''work.started'' a @
     mismatch g ''work.started does not match attempt'' a (\<lambda>x. att_kind x \<noteq> Work \<or> att_taskId x \<noteq> t \<or> att_agentId x \<noteq> ag)"
| "validateRecordReferences g (Plain (Work_completed a out w)) =
     validateRecordAttemptReference g ''work.completed'' a @ mismatch g ''work.completed references review attempt'' a (\<lambda>x. att_kind x = Review)"
| "validateRecordReferences g (Plain (Handoff_recorded t f ag w m)) =
     validateRecordTaskReference g ''handoff.recorded'' t @ validateRecordAgentReference g ''handoff.recorded'' f @
     validateRecordAgentReference g ''handoff.recorded'' ag"
| "validateRecordReferences g (Plain (Task_cancelled_event t w r)) =
     validateRecordTaskReference g ''task.cancelled'' t @ [Issue ''task.cancelled is missing affectedTaskIds'' []]"
| "validateRecordReferences g (Cancellation t w r ts) =
     validateRecordTaskReference g ''task.cancelled'' t @
     concat (map (validateRecordTaskReference g ''task.cancelled'') ts) @
     issue_if (t \<in> task_id ` set (tasks g) \<and> ts \<noteq> cancellationTaskIds g t)
       ''cancellation affectedTaskIds do not match the authorized closure'' []"
| "validateRecordReferences g (Plain (Review_started t a ag v w)) =
     validateRecordTaskReference g ''review.started'' t @ validateRecordAgentReference g ''review.started'' ag @
     validateRecordAttemptReference g ''review.started'' a @ validateRecordAttemptReference g ''review.started'' v @
     mismatch g ''review.started does not match attempt'' a
       (\<lambda>x. att_kind x \<noteq> Review \<or> att_taskId x \<noteq> t \<or> att_agentId x \<noteq> ag \<or> reviewsAttemptId x \<noteq> Some v)"
| "validateRecordReferences g (Plain (Review_completed a ok w)) =
     validateRecordAttemptReference g ''review.completed'' a @ mismatch g ''review.completed references non-review attempt'' a (\<lambda>x. att_kind x \<noteq> Review)"
| "validateRecordReferences g (Plain (Retry_started t a ag p w)) =
     validateRecordTaskReference g ''retry.started'' t @ validateRecordAgentReference g ''retry.started'' ag @
     validateRecordAttemptReference g ''retry.started'' a @ validateRecordAttemptReference g ''retry.started'' p @
     mismatch g ''retry.started does not match attempt'' a
       (\<lambda>x. att_kind x \<noteq> Retry \<or> att_taskId x \<noteq> t \<or> att_agentId x \<noteq> ag \<or> previousAttemptId x \<noteq> Some p)"
| "validateRecordReferences g (Plain (Fallback_started t a ag p r w)) =
     validateRecordTaskReference g ''fallback.started'' t @ validateRecordAgentReference g ''fallback.started'' ag @
     validateRecordAttemptReference g ''fallback.started'' a @ validateRecordAttemptReference g ''fallback.started'' p @
     mismatch g ''fallback.started does not match attempt'' a
       (\<lambda>x. att_kind x \<noteq> Fallback \<or> att_taskId x \<noteq> t \<or> att_agentId x \<noteq> ag \<or> previousAttemptId x \<noteq> Some p)"

text \<open>The attempt that an event starts.\<close>

fun started_attempt :: "RecordedGraphEvent \<Rightarrow> jsstr option" where
  "started_attempt (Plain (Work_started t a g w)) = Some a"
| "started_attempt (Plain (Retry_started t a g p w)) = Some a"
| "started_attempt (Plain (Fallback_started t a g p r w)) = Some a"
| "started_attempt (Plain (Review_started t a g v w)) = Some a"
| "started_attempt _ = None"

text \<open>Reading past the end of an array yields \<open>undefined\<close>.\<close>

definition at_index :: "'a list \<Rightarrow> nat \<Rightarrow> 'a option" where
  "at_index xs i = (if i < length xs then Some (xs ! i) else None)"

definition validateAttemptChronology :: "GraphState \<Rightarrow> graph_issue list" where
  "validateAttemptChronology g =
     (let recorded = List.map_filter started_attempt (map record_event (records g)); ids = map att_id (attempts g) in
      unique_loop ''attempt has more than one start in record chronology'' [] recorded @
      issue_if (length recorded \<noteq> length ids) ''attempt chronology must contain exactly one start record per attempt'' [] @
      concat (map (\<lambda>i. issue_if (at_index recorded i \<noteq> at_index ids i)
        ''attempt order must match immutable record chronology'' [Number (num_int (int i))])
        [0..<max (length recorded) (length ids)]))"

fun record_text_issues :: "RecordedGraphEvent \<Rightarrow> graph_issue list" where
  "record_text_issues (Plain (Handoff_recorded t f g w m)) = issue_if (js_trim m = []) ''empty handoff message'' []"
| "record_text_issues (Plain (Fallback_started t a g p r w)) = issue_if (js_trim r = []) ''empty fallback reason'' []"
| "record_text_issues (Cancellation t w r ts) = issue_if (sort ts \<noteq> ts) ''cancellation affectedTaskIds must be sorted'' []"
| "record_text_issues _ = []"

fun records_loop :: "GraphState \<Rightarrow> nat \<Rightarrow> GraphRecord list \<Rightarrow> graph_issue list" where
  "records_loop g index [] = []"
| "records_loop g index (r # rs) =
     issue_if (\<not> num_eq (sequence r) (num_int (int index + 1))) ''record must have sequence'' [Number (num_int (int index + 1))] @
     validateFiniteNumber (recorded_at (record_event r)) [Number (sequence r)] @
     record_text_issues (record_event r) @
     validateRecordReferences g (record_event r) @
     records_loop g (Suc index) rs"

definition validateRecords :: "GraphState \<Rightarrow> graph_issue list" where
  "validateRecords g = validateAttemptChronology g @ records_loop g 0 (records g)"


section \<open>Validation and creation of a graph\<close>

definition agent_issues :: "GraphState \<Rightarrow> GraphAgent \<Rightarrow> graph_issue list" where
  "agent_issues g a =
     validateNonEmpty (agent_id a) [Name (js ''agent id'')] @
     validateNonEmpty (agent_label a) [Name (agent_id a), Name (js ''label'')] @
     (case parentAgentId a of
        None \<Rightarrow> []
      | Some p \<Rightarrow>
          if p = agent_id a then [Issue ''agent cannot parent itself'' [Name p]]
          else issue_if (p \<notin> agent_id ` set (agents g)) ''references missing parent agent'' [Name (agent_id a), Name p])"

fun dependency_loop :: "GraphState \<Rightarrow> jsstr \<Rightarrow> jsstr list \<Rightarrow> jsstr list \<Rightarrow> graph_issue list" where
  "dependency_loop g k seen [] = []"
| "dependency_loop g k seen (d # ds) =
     (if d = k then [Issue ''cannot depend on itself'' [Name k]]
      else issue_if (d \<notin> task_id ` set (tasks g)) ''references missing dependency'' [Name k, Name d]) @
     issue_if (d \<in> set seen) ''lists dependency more than once'' [Name k, Name d] @
     dependency_loop g k (d # seen) ds"

definition task_issues :: "GraphState \<Rightarrow> GraphTask \<Rightarrow> graph_issue list" where
  "task_issues g t =
     validateNonEmpty (task_id t) [Name (js ''task id'')] @
     validateNonEmpty (task_title t) [Name (task_id t), Name (js ''title'')] @
     issue_if (ownerAgentId t \<notin> agent_id ` set (agents g)) ''references missing owner agent''
       [Name (task_id t), Name (ownerAgentId t)] @
     (case parentTaskId t of
        None \<Rightarrow> []
      | Some p \<Rightarrow>
          if p = task_id t then [Issue ''task cannot parent itself'' [Name p]]
          else issue_if (p \<notin> task_id ` set (tasks g)) ''references missing parent task'' [Name (task_id t), Name p]) @
     validateFiniteNumber (task_priority t) [Name (task_id t), Name (js ''priority'')] @
     dependency_loop g (task_id t) [] (dependsOn t)"

definition validateGraph :: "GraphState \<Rightarrow> graph_issue list" where
  "validateGraph g =
     issue_if (\<not> num_eq (schemaVersion g) GRAPH_SCHEMA_VERSION) ''unsupported graph schema version'' [Number (schemaVersion g)] @
     validatePositiveInteger (maxParallelism g) [Name (js ''maxParallelism'')] @
     validateUniqueIds (map agent_id (agents g)) ''agent'' @
     validateUniqueIds (map task_id (tasks g)) ''task'' @
     concat (map (agent_issues g) (agents g)) @
     concat (map (task_issues g) (tasks g)) @
     validateParentCycles ''agent'' (map (\<lambda>a. (agent_id a, parentAgentId a)) (agents g)) @
     validateParentCycles ''task'' (map (\<lambda>t. (task_id t, parentTaskId t)) (tasks g)) @
     validateDependencyCycles (tasks g) @
     validateAttempts g @
     validateRecords g"

definition assertValidGraph :: "GraphState \<Rightarrow> graph_error + unit" where
  "assertValidGraph g =
     (let issues = validateGraph g in if length issues > 0 then Inl (GraphValidationError issues) else Inr ())"

definition create_task :: "GraphTaskInput \<Rightarrow> GraphTask" where
  "create_task t =
     \<lparr>task_id = input_id t, task_title = input_title t, ownerAgentId = input_ownerAgentId t,
      parentTaskId = input_parentTaskId t, dependsOn = (case input_dependsOn t of Some ds \<Rightarrow> ds | None \<Rightarrow> []),
      task_priority = (case input_priority t of Some p \<Rightarrow> p | None \<Rightarrow> num_int 0),
      reviewRequired = (case input_reviewRequired t of Some b \<Rightarrow> b | None \<Rightarrow> False), task_status = Task_pending\<rparr>"

definition copyAgent :: "GraphAgent \<Rightarrow> GraphAgent" where
  "copyAgent a = \<lparr>agent_id = agent_id a, agent_label = agent_label a, parentAgentId = parentAgentId a\<rparr>"

definition copyAgentWithoutParent :: "GraphAgent \<Rightarrow> GraphAgent" where
  "copyAgentWithoutParent a = \<lparr>agent_id = agent_id a, agent_label = agent_label a, parentAgentId = None\<rparr>"

definition createExplicitDag :: "GraphInput \<Rightarrow> graph_error + GraphState" where
  "createExplicitDag input =
     (let g = \<lparr>schemaVersion = GRAPH_SCHEMA_VERSION, maxParallelism = input_maxParallelism input,
        agents = map copyAgent (input_agents input), tasks = map create_task (input_tasks input),
        attempts = [], records = []\<rparr>
      in ebind (assertValidGraph g) (\<lambda>_. Inr g))"

definition createSingleAgentGraph :: "GraphAgent \<Rightarrow> GraphTaskInput \<Rightarrow> jsnum option \<Rightarrow> graph_error + GraphState" where
  "createSingleAgentGraph agent task limit =
     createExplicitDag \<lparr>input_maxParallelism = (case limit of Some n \<Rightarrow> n | None \<Rightarrow> num_int 1),
       input_agents = [copyAgent agent], input_tasks = [task]\<rparr>"

definition createLeadSpecialistsGraph ::
  "GraphAgent \<Rightarrow> GraphAgent list \<Rightarrow> GraphTaskInput list \<Rightarrow> jsnum option \<Rightarrow> graph_error + GraphState" where
  "createLeadSpecialistsGraph lead_input specialist_inputs ts limit =
     (let lead = copyAgentWithoutParent lead_input;
          specialists = map (\<lambda>s. (copyAgentWithoutParent s)\<lparr>parentAgentId := Some (agent_id lead)\<rparr>) specialist_inputs
      in createExplicitDag
           \<lparr>input_maxParallelism = (case limit of Some n \<Rightarrow> n | None \<Rightarrow> num_int (max 1 (int (length specialists)))),
            input_agents = lead # specialists, input_tasks = ts\<rparr>)"

end
