(* ===== verification/Graph_Cycles.thy ===== *)
theory Graph_Cycles
  imports Graph_Model
begin

text \<open>
  The searches for cycles of \<open>validateGraph\<close>. Both follow the locale \<open>cycle_search\<close>: a visit skips what
  has been visited or is no key, reports a key on its own path, and else visits the successors and marks the key
  as visited. Such a search reports nothing exactly if the successor relation has no cycle. The parents (at
  most one successor) and the dependencies (a list of them) are its interpretations.
\<close>

locale cycle_search =
  fixes keys :: "'k set" and succs :: "'k \<Rightarrow> 'k list" and issue :: "'k \<Rightarrow> 'i"
    and visit :: "'k list \<Rightarrow> 'k \<Rightarrow> 'k list \<times> 'i list \<Rightarrow> 'k list \<times> 'i list"
  assumes finite_keys: "finite keys"
    and visit_unfold: "visit path k (vs, is) =
      (if k \<in> set vs \<or> k \<notin> keys then (vs, is)
       else if k \<in> set path then (vs, is @ [issue k])
       else let (vs', is') = fold (visit (k # path)) (succs k) (vs, is) in (k # vs', is'))"
begin

definition below :: "('k \<times> 'k) set" where
  "below = {(j, k). k \<in> keys \<and> j \<in> keys \<and> j \<in> set (succs k)}"

text \<open>A visit only adds to what was visited and reported; if it reports nothing, what it has visited is well-founded.\<close>

definition extends :: "'k set \<Rightarrow> 'k list \<times> 'i list \<Rightarrow> 'k list \<times> 'i list \<Rightarrow> bool" where
  "extends ks s s' \<longleftrightarrow>
     (\<exists>new. snd s' = snd s @ new \<and> set (fst s) \<subseteq> set (fst s') \<and>
        (new = [] \<and> set (fst s) \<subseteq> Wellfounded.acc below \<longrightarrow>
           set (fst s') \<subseteq> Wellfounded.acc below \<and> ks \<inter> keys \<subseteq> set (fst s')))"

lemma extends_refl: "extends {} s s"
  by (simp add: extends_def)

lemma extends_trans: "extends ks s s1 \<Longrightarrow> extends ls s1 s2 \<Longrightarrow> extends (ks \<union> ls) s s2"
proof -
  assume "extends ks s s1" "extends ls s1 s2"
  then obtain new1 new2 where e: "snd s1 = snd s @ new1" "set (fst s) \<subseteq> set (fst s1)"
      "new1 = [] \<and> set (fst s) \<subseteq> Wellfounded.acc below \<longrightarrow> set (fst s1) \<subseteq> Wellfounded.acc below \<and> ks \<inter> keys \<subseteq> set (fst s1)"
      "snd s2 = snd s1 @ new2" "set (fst s1) \<subseteq> set (fst s2)"
      "new2 = [] \<and> set (fst s1) \<subseteq> Wellfounded.acc below \<longrightarrow> set (fst s2) \<subseteq> Wellfounded.acc below \<and> ls \<inter> keys \<subseteq> set (fst s2)"
    unfolding extends_def by blast
  have "snd s2 = snd s @ (new1 @ new2)" using e(1,4) by simp
  moreover have "set (fst s) \<subseteq> set (fst s2)" using e(2,5) by blast
  moreover have "new1 @ new2 = [] \<and> set (fst s) \<subseteq> Wellfounded.acc below \<longrightarrow>
      set (fst s2) \<subseteq> Wellfounded.acc below \<and> (ks \<union> ls) \<inter> keys \<subseteq> set (fst s2)"
    using e(3,5,6) unfolding append_is_Nil_conv by blast
  ultimately show "extends (ks \<union> ls) s s2" unfolding extends_def by blast
qed

lemma extends_fold: "(\<And>k s. k \<in> set ks \<Longrightarrow> extends {k} s (f k s)) \<Longrightarrow> extends (set ks) s (fold f ks s)"
proof (induction ks arbitrary: s)
  case (Cons k ks)
  have "extends {k} s (f k s)" "extends (set ks) (f k s) (fold f ks (f k s))" using Cons by auto
  from extends_trans [OF this] show ?case by simp
qed (simp add: extends_refl)

lemma visit_extends: "extends {k} s (visit path k s)"
proof (induction "off_path keys path" arbitrary: path k s rule: less_induct)
  case less
  obtain vs "is" where s: "s = (vs, is)" by force
  consider (seen) "k \<in> set vs \<or> k \<notin> keys" | (cyclic) "k \<notin> set vs" "k \<in> keys" "k \<in> set path"
    | (fresh) "k \<notin> set vs" "k \<in> keys" "k \<notin> set path" by blast
  then show ?case
  proof cases
    case fresh
    have "off_path keys (k # path) < off_path keys path" using fresh finite_keys by simp
    then have "extends (set (succs k)) s (fold (visit (k # path)) (succs k) s)" by (intro extends_fold less)
    moreover obtain vs' is' where f: "fold (visit (k # path)) (succs k) s = (vs', is')" by force
    ultimately obtain new where e: "is' = is @ new" "set vs \<subseteq> set vs'"
      "new = [] \<and> set vs \<subseteq> Wellfounded.acc below \<longrightarrow> set vs' \<subseteq> Wellfounded.acc below \<and> set (succs k) \<inter> keys \<subseteq> set vs'"
      unfolding extends_def f unfolding s fst_conv snd_conv by blast
    have "k \<in> Wellfounded.acc below" if "set vs' \<subseteq> Wellfounded.acc below" "set (succs k) \<inter> keys \<subseteq> set vs'"
      by (rule accI) (use that in \<open>auto simp: below_def\<close>)
    then have "new = [] \<and> set vs \<subseteq> Wellfounded.acc below \<longrightarrow>
        set (k # vs') \<subseteq> Wellfounded.acc below \<and> {k} \<inter> keys \<subseteq> set (k # vs')" using e(3) by auto
    moreover have "visit path k s = (k # vs', is @ new)" using fresh f e(1) by (simp add: s visit_unfold [of path k])
    moreover have "set vs \<subseteq> set (k # vs')" using e(2) by auto
    ultimately show ?thesis unfolding extends_def s fst_conv snd_conv by simp
  next
    case cyclic
    then have "visit path k s = (vs, is @ [issue k])" by (simp add: s visit_unfold [of path k])
    then show ?thesis by (simp add: extends_def s)
  next
    case seen
    then have "visit path k s = s" by (simp add: s visit_unfold [of path k])
    then show ?thesis using seen by (auto simp: extends_def s)
  qed
qed

text \<open>In an acyclic relation nothing is reported, since every key on the path is above the key visited.\<close>

lemma acyclic_silent:
  assumes "acyclic below" "\<forall>p \<in> set path. k \<in> keys \<longrightarrow> (k, p) \<in> below\<^sup>+"
  shows "snd (visit path k s) = snd s"
  using assms(2)
proof (induction "off_path keys path" arbitrary: path k s rule: less_induct)
  case less
  obtain vs "is" where s: "s = (vs, is)" by force
  show ?case
  proof (cases "k \<in> set vs \<or> k \<notin> keys")
    case False
    then have fresh: "k \<notin> set path" using less.prems assms(1) by (auto simp: acyclic_def)
    have "snd (visit (k # path) j t) = snd t" if "j \<in> set (succs k)" for j t
    proof (rule less.hyps)
      have "j \<in> keys \<Longrightarrow> (j, k) \<in> below" using that False by (simp add: below_def)
      then show "\<forall>p \<in> set (k # path). j \<in> keys \<longrightarrow> (j, p) \<in> below\<^sup>+"
        using less.prems False by (auto intro: trancl_into_trancl2)
    qed (use False fresh finite_keys in simp)
    then have "snd (fold (visit (k # path)) js t) = snd t" if "set js \<subseteq> set (succs k)" for js t
      using that by (induction js arbitrary: t) auto
    from this [OF order.refl, of s] show ?thesis using False fresh by (auto simp: s visit_unfold [of path k] split: prod.split)
  qed (auto simp: s visit_unfold [of path k])
qed

lemma search_exact:
  assumes "set ks = keys"
  shows "snd (fold (visit []) ks ([], [])) = [] \<longleftrightarrow> acyclic below"
proof
  assume silent: "snd (fold (visit []) ks ([], [])) = []"
  have "extends (set ks) ([], []) (fold (visit []) ks ([], []))" by (rule extends_fold) (rule visit_extends)
  then obtain new where new: "snd (fold (visit []) ks ([], [])) = new" and
    closed: "new = [] \<longrightarrow> set (fst (fold (visit []) ks ([], []))) \<subseteq> Wellfounded.acc below \<and>
      keys \<inter> keys \<subseteq> set (fst (fold (visit []) ks ([], [])))"
    unfolding extends_def assms by (auto simp only: snd_conv fst_conv append_Nil list.set empty_subsetI simp_thms)
  then have "keys \<subseteq> Wellfounded.acc below" using silent by (simp only: new) blast
  moreover have "k \<in> Wellfounded.acc below" if "k \<notin> keys" for k by (rule accI) (use that in \<open>simp add: below_def\<close>)
  ultimately have "wf below" by (intro acc_wfI) blast
  then show "acyclic below" by (rule wf_acyclic)
next
  assume "acyclic below"
  then have "snd (fold (visit []) js s) = snd s" for js s
    by (induction js arbitrary: s) (simp_all add: acyclic_silent)
  then show "snd (fold (visit []) ks ([], [])) = []" by simp
qed

end


section \<open>Parents\<close>

definition parent_succs :: "(jsstr \<times> jsstr option) list \<Rightarrow> jsstr \<Rightarrow> jsstr list" where
  "parent_succs parents k = (case js_lookup parents k of Some (Some p) \<Rightarrow> [p] | _ \<Rightarrow> [])"

interpretation parent_search: cycle_search "fst ` set parents" "parent_succs parents" issue "parent_visit issue parents" for parents issue
  by unfold_locales (auto simp: parent_succs_def parent_visit.simps [of issue parents path k vs "is" for path k vs "is"] split: option.split)


section \<open>Dependencies\<close>

definition dependency_succs :: "(jsstr \<times> jsstr list) list \<Rightarrow> jsstr \<Rightarrow> jsstr list" where
  "dependency_succs deps k = (case js_lookup deps k of Some ds \<Rightarrow> ds | None \<Rightarrow> [])"

lemma dependency_visits_fold: "dependency_visits deps path ds s = fold (dependency_visit deps path) ds s"
  by (induction ds arbitrary: s) simp_all

interpretation dependency_search: cycle_search "fst ` set deps" "dependency_succs deps" "\<lambda>k. Issue ''dependency cycle'' [Name k]"
    "dependency_visit deps" for deps
  by unfold_locales (simp_all add: dependency_succs_def dependency_visits_fold dependency_visit.simps)


section \<open>What the searches decide\<close>

text \<open>The relation of an item to its parent, and of a task to its dependencies, among the items of the graph.\<close>

definition parent_relation :: "(jsstr \<times> jsstr option) list \<Rightarrow> (jsstr \<times> jsstr) set" where
  "parent_relation parents = {(p, k). (k, Some p) \<in> set parents \<and> p \<in> fst ` set parents}"

definition dependency_relation :: "GraphTask list \<Rightarrow> (jsstr \<times> jsstr) set" where
  "dependency_relation ts = {(d, task_id t) | d t. t \<in> set ts \<and> d \<in> set (dependsOn t) \<and> d \<in> task_id ` set ts}"

lemma validateParentCycles_exact:
  assumes "distinct (map fst parents)"
  shows "validateParentCycles kind parents = [] \<longleftrightarrow> acyclic (parent_relation parents)"
proof -
  have "parent_search.below parents = parent_relation parents"
    using js_lookup_distinct [OF assms]
    by (force simp: parent_search.below_def parent_relation_def parent_succs_def split: option.splits)
  then show ?thesis
    unfolding validateParentCycles_def
    using parent_search.search_exact [of "js_keys parents" parents "\<lambda>i. Issue (kind @ '' parent cycle'') [Name i]"] by simp
qed

lemma dependency_below:
  assumes "distinct (map task_id ts)"
  shows "dependency_search.below (map (\<lambda>t. (task_id t, dependsOn t)) ts) = dependency_relation ts"
proof -
  let ?deps = "map (\<lambda>t. (task_id t, dependsOn t)) ts"
  have "js_lookup ?deps (task_id t) = Some (dependsOn t)" if "t \<in> set ts" for t
    using that assms by (subst js_lookup_distinct) (auto simp: comp_def)
  then have "dependency_succs ?deps (task_id t) = dependsOn t" if "t \<in> set ts" for t
    using that by (simp add: dependency_succs_def)
  moreover have "fst ` set ?deps = task_id ` set ts" by force
  ultimately show ?thesis
    unfolding dependency_search.below_def dependency_relation_def by fastforce
qed

lemma validateDependencyCycles_exact:
  assumes "distinct (map task_id ts)"
  shows "validateDependencyCycles ts = [] \<longleftrightarrow> acyclic (dependency_relation ts)"
  using dependency_search.search_exact [of "js_keys (map (\<lambda>t. (task_id t, dependsOn t)) ts)"] dependency_below [OF assms]
  by (simp add: validateDependencyCycles_def Let_def)

end
