(* ===== verification/Graph_Valid.thy ===== *)
theory Graph_Valid
  imports Graph_Cycles
begin

text \<open>
  What it means that \<open>validateGraph\<close> reports nothing: the predicate \<open>valid_graph\<close>, stated without tables, loops and searches,
  and the proof that the two agree. The work attempts at a task form one chain, numbered from 1; the
  current attempt is the last of it.
\<close>


section \<open>Tables\<close>

lemma taskTable_iff:
  "distinct (map task_id (tasks g)) \<Longrightarrow> taskTable g k = Some t \<longleftrightarrow> t \<in> set (tasks g) \<and> task_id t = k"
  by (subst js_lookup_distinct) (auto simp: comp_def)

lemma attemptTable_iff:
  "distinct (map att_id as) \<Longrightarrow> attemptTable as k = Some a \<longleftrightarrow> a \<in> set as \<and> att_id a = k"
  by (subst js_lookup_distinct) (auto simp: comp_def)

lemma table_None: "js_lookup (map (\<lambda>x. (f x, x)) xs) k = None \<longleftrightarrow> k \<notin> f ` set xs"
  by (force simp: js_lookup_eq_None)

lemma bind_table:
  assumes "distinct (map att_id as)"
  shows "Option.bind i (attemptTable as) = Some a \<longleftrightarrow> a \<in> set as \<and> i = Some (att_id a)"
  by (cases i) (auto simp: attemptTable_iff [OF assms])


section \<open>Loops\<close>

lemma issue_if_Nil [simp]: "issue_if bad txt parts = [] \<longleftrightarrow> \<not> bad"
  by (simp add: issue_if_def)

definition positive_integer :: "jsnum \<Rightarrow> bool" where
  "positive_integer v \<longleftrightarrow> (\<exists>n \<ge> 1. v = num_int n)"

lemma validatePositiveInteger_Nil [simp]: "validatePositiveInteger v label = [] \<longleftrightarrow> positive_integer v"
  by (auto simp: validatePositiveInteger_def positive_integer_def as_integer_eq_Some split: option.split)

lemma validateFiniteNumber_Nil [simp]: "validateFiniteNumber v label = [] \<longleftrightarrow> isFinite v"
  by (simp add: validateFiniteNumber_def)

lemma validateNonEmpty_Nil [simp]: "validateNonEmpty v label = [] \<longleftrightarrow> js_trim v \<noteq> []"
  by (simp add: validateNonEmpty_def)

lemma unique_loop_Nil: "unique_loop txt ids is = [] \<longleftrightarrow> distinct is \<and> set is \<inter> set ids = {}"
  by (induction "is" arbitrary: ids) auto

lemma validateUniqueIds_Nil [simp]: "validateUniqueIds is kind = [] \<longleftrightarrow> distinct is"
  by (simp add: validateUniqueIds_def unique_loop_Nil)

lemma dependency_loop_Nil:
  "dependency_loop g k seen ds = [] \<longleftrightarrow>
     distinct ds \<and> set ds \<inter> set seen = {} \<and> k \<notin> set ds \<and> set ds \<subseteq> task_id ` set (tasks g)"
  by (induction ds arbitrary: seen) auto

lemma generation_loop_Nil:
  assumes "\<forall>a \<in> set as. positive_integer (generation a)" "\<forall>a \<in> set as. att_kind a = Work \<longrightarrow> generation a = num_int 1"
  shows "generation_loop k seen as = [] \<longleftrightarrow> distinct (map generation as) \<and> generation ` set as \<inter> set seen = {}"
  using assms
proof (induction "as" arbitrary: seen)
  case (Cons a as)
  then have "(case generation a of NumFin r \<Rightarrow> r > 1 | NumInf pos \<Rightarrow> pos | NumNaN \<Rightarrow> False) \<and> att_kind a = Work \<longleftrightarrow> False"
    by auto
  then show ?case using Cons by auto
qed simp

lemma concat_map_Nil: "concat (map f xs) = [] \<longleftrightarrow> (\<forall>x \<in> set xs. f x = [])"
  by auto


section \<open>The chain of work at a task\<close>

definition work_of :: "GraphState \<Rightarrow> jsstr \<Rightarrow> GraphAttempt list" where
  "work_of g k = filter (\<lambda>a. att_taskId a = k \<and> att_kind a \<noteq> Review) (attempts g)"

lemma set_work_of: "set (work_of g k) = {a \<in> set (attempts g). att_taskId a = k \<and> att_kind a \<noteq> Review}"
  by (auto simp: work_of_def)

definition chain_ok :: "GraphAttempt list \<Rightarrow> bool" where
  "chain_ok ws \<longleftrightarrow> distinct (map generation ws) \<and> generation ` set ws = (\<lambda>n. num_int (int n)) ` {1..length ws}"

text \<open>Retries and fallbacks supersede the attempt before them, and the first attempt supersedes none.\<close>

definition linked :: "GraphAttempt list \<Rightarrow> bool" where
  "linked ws \<longleftrightarrow> (\<forall>a \<in> set ws. case supersedesAttemptId a of
     None \<Rightarrow> generation a = num_int 1
   | Some i \<Rightarrow> (\<exists>p \<in> set ws. i = att_id p \<and> generation a = num_succ (generation p)))"

lemma superseded_iff: "i \<in> set (superseded ws) \<longleftrightarrow> (\<exists>a \<in> set ws. supersedesAttemptId a = Some i)"
  by (force simp: superseded_def List.map_filter_def)

lemma num_succ_int [simp]: "num_succ (num_int n) = num_int (n + 1)"
  by simp

lemma num_int_inject: "num_int (int m) = num_int (int n) \<longleftrightarrow> m = n"
  by simp

lemma chain_generation:
  assumes "chain_ok ws" "a \<in> set ws"
  obtains n where "1 \<le> n" "n \<le> length ws" "generation a = num_int (int n)"
proof -
  have "generation a \<in> (\<lambda>n. num_int (int n)) ` {1..length ws}" using assms by (auto simp: chain_ok_def)
  then show ?thesis using that by auto
qed

lemma chain_unique: "chain_ok ws \<Longrightarrow> a \<in> set ws \<Longrightarrow> b \<in> set ws \<Longrightarrow> generation a = generation b \<Longrightarrow> a = b"
  by (auto simp: chain_ok_def distinct_map inj_on_def)

lemma chain_has:
  assumes "chain_ok ws" "1 \<le> n" "n \<le> length ws"
  obtains a where "a \<in> set ws" "generation a = num_int (int n)"
proof -
  have "num_int (int n) \<in> generation ` set ws" using assms by (auto simp: chain_ok_def)
  then show ?thesis using that by auto
qed

text \<open>An attempt is superseded exactly if it is not the last of the chain.\<close>

lemma chain_current:
  assumes ok: "chain_ok ws" "linked ws" "distinct (map att_id ws)" and a: "a \<in> set ws"
  shows "att_id a \<notin> set (superseded ws) \<longleftrightarrow> generation a = num_int (int (length ws))"
proof -
  obtain n where n: "1 \<le> n" "n \<le> length ws" "generation a = num_int (int n)" using chain_generation [OF ok(1) a] .
  have "att_id a \<in> set (superseded ws) \<longleftrightarrow> (\<exists>b \<in> set ws. generation b = num_int (int n + 1))"
  proof
    assume "att_id a \<in> set (superseded ws)"
    then obtain b where b: "b \<in> set ws" "supersedesAttemptId b = Some (att_id a)" by (auto simp: superseded_iff)
    then obtain p where p: "p \<in> set ws" "att_id p = att_id a" "generation b = num_succ (generation p)"
      using ok(2) by (fastforce simp: linked_def)
    then have "p = a" using ok(3) a by (metis distinct_map inj_on_eq_iff)
    then show "\<exists>b \<in> set ws. generation b = num_int (int n + 1)" using b(1) p(3) n(3) by auto
  next
    assume "\<exists>b \<in> set ws. generation b = num_int (int n + 1)"
    then obtain b where b: "b \<in> set ws" "generation b = num_int (int n + 1)" by blast
    then have "generation b \<noteq> num_int 1" using n(1) by (metis add_cancel_left_left jsnum.inject(2) less_one nat_int not_le of_int_eq_iff of_nat_0_eq_iff)
    then obtain p where p: "p \<in> set ws" "supersedesAttemptId b = Some (att_id p)" "generation b = num_succ (generation p)"
      using ok(2) b(1) by (fastforce simp: linked_def split: option.splits)
    moreover obtain m where "generation p = num_int (int m)" using chain_generation [OF ok(1) p(1)] by metis
    ultimately have "generation p = generation a" using b(2) n(3) by auto
    then have "p = a" by (rule chain_unique [OF ok(1) p(1) a])
    then show "att_id a \<in> set (superseded ws)" using b(1) p(2) by (auto simp: superseded_iff)
  qed
  also have "\<dots> \<longleftrightarrow> Suc n \<le> length ws"
  proof
    assume "\<exists>b \<in> set ws. generation b = num_int (int n + 1)"
    then obtain b where b: "b \<in> set ws" "generation b = num_int (int n + 1)" by blast
    obtain m where "m \<le> length ws" "generation b = num_int (int m)" using chain_generation [OF ok(1) b(1)] .
    then show "Suc n \<le> length ws" using b(2) by auto
  next
    assume "Suc n \<le> length ws"
    from chain_has [OF ok(1) _ this] obtain b where "b \<in> set ws" "generation b = num_int (int (Suc n))" by auto
    then show "\<exists>b \<in> set ws. generation b = num_int (int n + 1)" by (intro bexI [of _ b]) (simp_all add: add.commute)
  qed
  finally show ?thesis using n by auto
qed

lemma chain_last:
  assumes "chain_ok ws" "ws \<noteq> []"
  obtains c where "c \<in> set ws" "generation c = num_int (int (length ws))"
proof -
  have "1 \<le> length ws" using assms(2) by (cases ws) auto
  then show ?thesis using chain_has [OF assms(1) _ order.refl] that by metis
qed

lemma currentWorkAttempt_work: "currentWorkAttempt g k = find (\<lambda>a. att_id a \<notin> set (superseded (work_of g k))) (work_of g k)"
  by (simp add: currentWorkAttempt_def work_of_def Let_def)

lemma currentWorkAttempt_iff:
  assumes ok: "chain_ok (work_of g k)" "linked (work_of g k)" "distinct (map att_id (work_of g k))"
  shows "currentWorkAttempt g k = Some c \<longleftrightarrow> c \<in> set (work_of g k) \<and> generation c = num_int (int (length (work_of g k)))"
proof
  assume "currentWorkAttempt g k = Some c"
  then have "c \<in> set (work_of g k) \<and> att_id c \<notin> set (superseded (work_of g k))"
    unfolding currentWorkAttempt_work by (rule find_Some_mem)
  then show "c \<in> set (work_of g k) \<and> generation c = num_int (int (length (work_of g k)))"
    using chain_current [OF ok] by blast
next
  assume c: "c \<in> set (work_of g k) \<and> generation c = num_int (int (length (work_of g k)))"
  then have "att_id c \<notin> set (superseded (work_of g k))" using chain_current [OF ok] by blast
  then obtain d where d: "currentWorkAttempt g k = Some d"
    using c unfolding currentWorkAttempt_work by (metis find_None_conv not_None_eq)
  then have "d \<in> set (work_of g k) \<and> att_id d \<notin> set (superseded (work_of g k))"
    unfolding currentWorkAttempt_work by (rule find_Some_mem)
  then have "generation d = generation c" "d \<in> set (work_of g k)" using c chain_current [OF ok] by auto
  then show "currentWorkAttempt g k = Some c" using d chain_unique [OF ok(1)] c by metis
qed

lemma chain_one_current:
  assumes ok: "chain_ok ws" "linked ws" "distinct (map att_id ws)" and "ws \<noteq> []"
  shows "length (filter (\<lambda>a. att_id a \<notin> set (superseded ws)) ws) = 1"
proof -
  obtain c where c: "c \<in> set ws" "generation c = num_int (int (length ws))" using chain_last [OF ok(1) assms(4)] .
  have "{a \<in> set ws. att_id a \<notin> set (superseded ws)} = {c}"
    using c chain_current [OF ok] chain_unique [OF ok(1)] by auto
  then have "card (set (filter (\<lambda>a. att_id a \<notin> set (superseded ws)) ws)) = 1" by (simp only: set_filter) simp
  moreover have "distinct (filter (\<lambda>a. att_id a \<notin> set (superseded ws)) ws)" using ok(3) by (simp add: distinct_map)
  ultimately show ?thesis by (simp only: distinct_card)
qed

text \<open>The search for cycles in the chain finds none, since generations fall along it.\<close>

lemma chain_visit_silent:
  assumes ok: "linked ws" "distinct (map att_id ws)" "\<forall>b \<in> set ws. positive_integer (generation b)"
    and a: "a \<in> set ws" "\<forall>i \<in> set path. \<exists>b \<in> set ws. att_id b = i \<and> (\<exists>m n. generation b = num_int m \<and> generation a = num_int n \<and> n < m)"
  shows "snd (chain_visit ws path a s) = snd s"
  using a
proof (induction "off_path (att_id ` set ws) path" arbitrary: path a s rule: less_induct)
  case less
  obtain vs "is" where s: "s = (vs, is)" by force
  have fresh: "att_id a \<notin> set path"
  proof
    assume "att_id a \<in> set path"
    then obtain b m n where "b \<in> set ws" "att_id b = att_id a" "generation b = num_int m" "generation a = num_int n" "n < m"
      using less.prems(2) by blast
    moreover from this have "b = a" using ok(2) less.prems(1) by (metis distinct_map inj_on_eq_iff)
    ultimately show False by simp
  qed
  have "snd (chain_visit ws (att_id a # path) p s) = snd s" if p: "supersedesAttemptId a = Some i" "attemptTable ws i = Some p" for i p
  proof (rule less.hyps)
    show "off_path (att_id ` set ws) (att_id a # path) < off_path (att_id ` set ws) path" using fresh less.prems(1) by simp
    obtain q where "q \<in> set ws" "i = att_id q" "generation a = num_succ (generation q)"
      using ok(1) less.prems(1) p(1) by (fastforce simp: linked_def)
    moreover have in_ws: "p \<in> set ws" "att_id p = i" using p(2) by (auto simp: attemptTable_iff [OF ok(2)])
    ultimately have gen: "generation a = num_succ (generation p)" using ok(2) by (metis distinct_map inj_on_eq_iff)
    obtain n where n: "generation p = num_int n" using ok(3) in_ws(1) by (auto simp: positive_integer_def)
    show "p \<in> set ws" by (rule in_ws)
    have "\<exists>m n. generation a = num_int m \<and> generation p = num_int n \<and> n < m"
      by (intro exI [of _ "n + 1"] exI [of _ n]) (simp add: gen n)
    moreover have "\<exists>b \<in> set ws. att_id b = j \<and> (\<exists>m n. generation b = num_int m \<and> generation p = num_int n \<and> n < m)" if j: "j \<in> set path" for j
    proof -
      obtain b m k where b: "b \<in> set ws" "att_id b = j" "generation b = num_int m" "generation a = num_int k" "k < m"
        using less.prems(2) j by blast
      then have "k = n + 1" using gen n by simp
      then show ?thesis using b n by (intro bexI [of _ b]) auto
    qed
    ultimately show "\<forall>j \<in> set (att_id a # path). \<exists>b \<in> set ws. att_id b = j \<and> (\<exists>m n. generation b = num_int m \<and> generation p = num_int n \<and> n < m)"
      using less.prems(1) by auto
  qed
  then show ?case using fresh by (auto simp: s chain_visit.simps [of ws path a] bind_eq_Some_conv split: prod.split option.split)
      (metis snd_conv)
qed

lemma chain_search_silent:
  assumes "linked ws" "distinct (map att_id ws)" "\<forall>b \<in> set ws. positive_integer (generation b)"
  shows "snd (fold (chain_visit ws []) ws ([], [])) = []"
proof -
  have "snd (fold (chain_visit ws []) as s) = snd s" if "set as \<subseteq> set ws" for "as" s
    using that by (induction "as" arbitrary: s) (simp_all add: chain_visit_silent [OF assms])
  from this [OF order.refl] show ?thesis by simp
qed

lemma chain_issues_Nil:
  assumes ok: "linked ws" "distinct (map att_id ws)" "\<forall>b \<in> set ws. positive_integer (generation b)"
    "\<forall>a \<in> set ws. att_kind a = Work \<longrightarrow> generation a = num_int 1" and "ws \<noteq> []"
  shows "chain_issues k ws = [] \<longleftrightarrow> chain_ok ws"
proof -
  let ?N = "(\<lambda>n. num_int (int n)) ` {1..length ws}"
  have "generation ` set ws = ?N" if "distinct (map generation ws)" "?N \<subseteq> generation ` set ws"
  proof (rule sym, rule card_subset_eq)
    have "card (generation ` set ws) = length ws"
      using that(1) by (metis distinct_card length_map list.set_map)
    moreover have "card ?N = length ws" by (subst card_image) (auto simp: inj_on_def)
    ultimately show "card ?N = card (generation ` set ws)" by simp
  qed (use that(2) in simp_all)
  then have iff: "chain_ok ws \<longleftrightarrow> distinct (map generation ws) \<and> ?N \<subseteq> generation ` set ws" by (auto simp: chain_ok_def)
  have "chain_issues k ws = [] \<longleftrightarrow> distinct (map generation ws) \<and> ?N \<subseteq> generation ` set ws \<and>
      length (filter (\<lambda>a. att_id a \<notin> set (superseded ws)) ws) = 1"
    using generation_loop_Nil [OF ok(3,4)] chain_search_silent [OF ok(1,2,3)]
    by (auto simp: chain_issues_def)
  then show ?thesis unfolding iff [symmetric] using chain_one_current [OF _ ok(1,2) assms(5)] iff by blast
qed


section \<open>Valid graphs\<close>

abbreviation agent_ids :: "GraphState \<Rightarrow> jsstr set" where
  "agent_ids g \<equiv> agent_id ` set (agents g)"

abbreviation task_ids :: "GraphState \<Rightarrow> jsstr set" where
  "task_ids g \<equiv> task_id ` set (tasks g)"

definition agent_ok :: "GraphState \<Rightarrow> GraphAgent \<Rightarrow> bool" where
  "agent_ok g a \<longleftrightarrow> js_trim (agent_id a) \<noteq> [] \<and> js_trim (agent_label a) \<noteq> [] \<and>
     (\<forall>p. parentAgentId a = Some p \<longrightarrow> p \<noteq> agent_id a \<and> p \<in> agent_ids g)"

definition task_ok :: "GraphState \<Rightarrow> GraphTask \<Rightarrow> bool" where
  "task_ok g t \<longleftrightarrow> js_trim (task_id t) \<noteq> [] \<and> js_trim (task_title t) \<noteq> [] \<and> ownerAgentId t \<in> agent_ids g \<and>
     (\<forall>p. parentTaskId t = Some p \<longrightarrow> p \<noteq> task_id t \<and> p \<in> task_ids g) \<and> isFinite (task_priority t) \<and>
     distinct (dependsOn t) \<and> task_id t \<notin> set (dependsOn t) \<and> set (dependsOn t) \<subseteq> task_ids g"

definition structure_ok :: "GraphState \<Rightarrow> bool" where
  "structure_ok g \<longleftrightarrow>
     schemaVersion g = GRAPH_SCHEMA_VERSION \<and> positive_integer (maxParallelism g) \<and>
     distinct (map agent_id (agents g)) \<and> distinct (map task_id (tasks g)) \<and>
     (\<forall>a \<in> set (agents g). agent_ok g a) \<and> (\<forall>t \<in> set (tasks g). task_ok g t) \<and>
     acyclic (parent_relation (map (\<lambda>a. (agent_id a, parentAgentId a)) (agents g))) \<and>
     acyclic (parent_relation (map (\<lambda>t. (task_id t, parentTaskId t)) (tasks g))) \<and>
     acyclic (dependency_relation (tasks g))"

text \<open>What an attempt of each kind refers to.\<close>

definition reviews :: "GraphAttempt \<Rightarrow> GraphAttempt \<Rightarrow> bool" where
  "reviews a r \<longleftrightarrow>
     reviewsAttemptId a = Some (att_id r) \<and> att_taskId r = att_taskId a \<and> att_kind r \<noteq> Review \<and>
     att_status r = Attempt_succeeded \<and> att_agentId r \<noteq> att_agentId a \<and> generation a = generation r"

definition restarts :: "GraphAttempt \<Rightarrow> GraphAttempt \<Rightarrow> GraphAttempt \<Rightarrow> bool" where
  "restarts a p f \<longleftrightarrow>
     supersedesAttemptId a = Some (att_id p) \<and> att_taskId p = att_taskId a \<and> att_kind p \<noteq> Review \<and>
     generation a = num_succ (generation p) \<and> previousAttemptId a = Some (att_id f) \<and> att_taskId f = att_taskId a \<and>
     att_status f = Attempt_failed \<and> (if att_kind f = Review then reviewsAttemptId f = Some (att_id p) else f = p)"

definition lineage_ok :: "GraphState \<Rightarrow> GraphAttempt \<Rightarrow> bool" where
  "lineage_ok g a \<longleftrightarrow>
     (case att_kind a of
        Work \<Rightarrow> generation a = num_int 1 \<and> previousAttemptId a = None \<and> supersedesAttemptId a = None \<and> reviewsAttemptId a = None
      | Review \<Rightarrow> previousAttemptId a = None \<and> supersedesAttemptId a = None \<and> (\<exists>r \<in> set (attempts g). reviews a r)
      | _ \<Rightarrow> reviewsAttemptId a = None \<and> (\<exists>p \<in> set (attempts g). \<exists>f \<in> set (attempts g). restarts a p f))"

definition attempt_data_ok :: "GraphState \<Rightarrow> GraphAttempt \<Rightarrow> bool" where
  "attempt_data_ok g a \<longleftrightarrow>
     js_trim (att_id a) \<noteq> [] \<and> att_taskId a \<in> task_ids g \<and> att_agentId a \<in> agent_ids g \<and> positive_integer (generation a) \<and>
     isFinite (startedAt a) \<and> (\<forall>w. completedAt a = Some w \<longrightarrow> isFinite w) \<and> (att_status a = Attempt_running \<longleftrightarrow> completedAt a = None)"

definition status_ok :: "GraphState \<Rightarrow> GraphAttempt \<Rightarrow> bool" where
  "status_ok g a \<longleftrightarrow>
     (\<forall>t \<in> set (tasks g). task_id t = att_taskId a \<longrightarrow>
        (att_status a = Attempt_running \<longrightarrow> task_status t = expected_status a) \<and> (att_kind a = Review \<longrightarrow> reviewRequired t)) \<and>
     (att_kind a = Review \<and> (att_status a = Attempt_running \<or> att_status a = Attempt_succeeded) \<longrightarrow>
        map_option att_id (currentWorkAttempt g (att_taskId a)) = reviewsAttemptId a)"

definition attempt_sound :: "GraphState \<Rightarrow> GraphAttempt \<Rightarrow> bool" where
  "attempt_sound g a \<longleftrightarrow> attempt_data_ok g a \<and> lineage_ok g a \<and> status_ok g a"

definition outcome_ok :: "GraphState \<Rightarrow> GraphTask \<Rightarrow> bool" where
  "outcome_ok g t \<longleftrightarrow>
     (task_status t = Task_succeeded \<longrightarrow>
        (\<exists>c. currentWorkAttempt g (task_id t) = Some c \<and> att_status c = Attempt_succeeded \<and>
           (reviewRequired t \<longrightarrow> (\<exists>a \<in> set (attempts g). approves t c a))))"

definition attempts_ok :: "GraphState \<Rightarrow> bool" where
  "attempts_ok g \<longleftrightarrow>
     distinct (map att_id (attempts g)) \<and> (\<forall>a \<in> set (attempts g). attempt_sound g a) \<and>
     \<not> count_exceeds (activeAttemptCount g) (maxParallelism g) \<and>
     (\<forall>k. chain_ok (work_of g k)) \<and> (\<forall>t \<in> set (tasks g). outcome_ok g t)"

text \<open>What a recorded event refers to.\<close>

abbreviation has_attempt :: "GraphState \<Rightarrow> jsstr \<Rightarrow> (GraphAttempt \<Rightarrow> bool) \<Rightarrow> bool" where
  "has_attempt g i P \<equiv> \<exists>x \<in> set (attempts g). att_id x = i \<and> P x"

fun event_ok :: "GraphState \<Rightarrow> RecordedGraphEvent \<Rightarrow> bool" where
  "event_ok g (Plain (Work_started t a ag w)) \<longleftrightarrow>
     t \<in> task_ids g \<and> ag \<in> agent_ids g \<and> has_attempt g a (\<lambda>x. att_kind x = Work \<and> att_taskId x = t \<and> att_agentId x = ag)"
| "event_ok g (Plain (Work_completed a out w)) \<longleftrightarrow> has_attempt g a (\<lambda>x. att_kind x \<noteq> Review)"
| "event_ok g (Plain (Handoff_recorded t f ag w m)) \<longleftrightarrow>
     js_trim m \<noteq> [] \<and> t \<in> task_ids g \<and> f \<in> agent_ids g \<and> ag \<in> agent_ids g"
| "event_ok g (Plain (Task_cancelled_event t w r)) \<longleftrightarrow> False"
| "event_ok g (Cancellation t w r ts) \<longleftrightarrow> t \<in> task_ids g \<and> ts = cancellationTaskIds g t"
| "event_ok g (Plain (Review_started t a ag v w)) \<longleftrightarrow>
     t \<in> task_ids g \<and> ag \<in> agent_ids g \<and> has_attempt g v (\<lambda>x. True) \<and>
     has_attempt g a (\<lambda>x. att_kind x = Review \<and> att_taskId x = t \<and> att_agentId x = ag \<and> reviewsAttemptId x = Some v)"
| "event_ok g (Plain (Review_completed a ok w)) \<longleftrightarrow> has_attempt g a (\<lambda>x. att_kind x = Review)"
| "event_ok g (Plain (Retry_started t a ag p w)) \<longleftrightarrow>
     t \<in> task_ids g \<and> ag \<in> agent_ids g \<and> has_attempt g p (\<lambda>x. True) \<and>
     has_attempt g a (\<lambda>x. att_kind x = Retry \<and> att_taskId x = t \<and> att_agentId x = ag \<and> previousAttemptId x = Some p)"
| "event_ok g (Plain (Fallback_started t a ag p r w)) \<longleftrightarrow>
     js_trim r \<noteq> [] \<and> t \<in> task_ids g \<and> ag \<in> agent_ids g \<and> has_attempt g p (\<lambda>x. True) \<and>
     has_attempt g a (\<lambda>x. att_kind x = Fallback \<and> att_taskId x = t \<and> att_agentId x = ag \<and> previousAttemptId x = Some p)"

definition record_ok :: "GraphState \<Rightarrow> nat \<Rightarrow> GraphRecord \<Rightarrow> bool" where
  "record_ok g i r \<longleftrightarrow>
     sequence r = num_int (int i + 1) \<and> isFinite (recorded_at (record_event r)) \<and> event_ok g (record_event r)"

abbreviation started_ids :: "GraphRecord list \<Rightarrow> jsstr list" where
  "started_ids rs \<equiv> List.map_filter started_attempt (map record_event rs)"

definition records_ok :: "GraphState \<Rightarrow> bool" where
  "records_ok g \<longleftrightarrow>
     started_ids (records g) = map att_id (attempts g) \<and> (\<forall>i < length (records g). record_ok g i (records g ! i))"

definition valid_graph :: "GraphState \<Rightarrow> bool" where
  "valid_graph g \<longleftrightarrow> structure_ok g \<and> attempts_ok g \<and> records_ok g"


section \<open>The validation decides validity\<close>

lemma agent_issues_Nil: "agent_issues g a = [] \<longleftrightarrow> agent_ok g a"
  by (auto simp: agent_issues_def agent_ok_def split: option.split)

lemma task_issues_Nil: "task_issues g t = [] \<longleftrightarrow> task_ok g t"
  by (auto simp: task_issues_def task_ok_def dependency_loop_Nil split: option.split)

lemma num_eq_int [simp]: "num_eq a (NumFin r) \<longleftrightarrow> a = NumFin r"
  by (auto simp: num_eq_def)

lemma num_eq_positive: "positive_integer a \<or> positive_integer b \<Longrightarrow> num_eq a b \<longleftrightarrow> a = b"
  by (auto simp: num_eq_def positive_integer_def)

lemma bind_table_None:
  assumes "distinct (map att_id as)"
  shows "Option.bind i (attemptTable as) = None \<longleftrightarrow> (\<forall>a \<in> set as. i \<noteq> Some (att_id a))"
proof -
  have "Option.bind i (attemptTable as) = None \<longleftrightarrow> (\<forall>a. Option.bind i (attemptTable as) \<noteq> Some a)" by (rule not_Some_eq [symmetric])
  then show ?thesis unfolding bind_table [OF assms] by blast
qed

lemma case_bind_table:
  assumes "distinct (map att_id as)" "\<not> P None"
  shows "P (Option.bind i (attemptTable as)) \<longleftrightarrow> (\<exists>a \<in> set as. i = Some (att_id a) \<and> P (Some a))"
proof -
  have "P (Option.bind i (attemptTable as)) \<longleftrightarrow> (\<exists>a. Option.bind i (attemptTable as) = Some a \<and> P (Some a))"
    using assms(2) by (cases "Option.bind i (attemptTable as)") auto
  then show ?thesis unfolding bind_table [OF assms(1)] by blast
qed

lemma restart_issues_Nil:
  assumes d: "distinct (map att_id (attempts g))" and gen: "positive_integer (generation a)"
  shows "validateAttemptLineage a (previousAttemptId a) (attemptTable (attempts g)) @
      validateWorkSupersession a (attemptTable (attempts g)) = [] \<longleftrightarrow>
    (\<exists>p \<in> set (attempts g). \<exists>f \<in> set (attempts g). restarts a p f)"
proof -
  let ?T = "attemptTable (attempts g)"
  have same: "p = q" if "p \<in> set (attempts g)" "q \<in> set (attempts g)" "att_id p = att_id q" for p q
    using d that by (metis distinct_map inj_on_eq_iff)
  have 1: "validateAttemptLineage a (previousAttemptId a) ?T = [] \<longleftrightarrow>
      (\<exists>f \<in> set (attempts g). previousAttemptId a = Some (att_id f) \<and> att_taskId f = att_taskId a \<and> att_status f = Attempt_failed)"
    unfolding validateAttemptLineage_def issue_if_Nil
    by (subst case_bind_table [OF d, where P = "\<lambda>x. \<not> (case x of None \<Rightarrow> True | Some p \<Rightarrow> att_taskId p \<noteq> att_taskId a \<or> att_status p \<noteq> Attempt_failed)"]) auto
  have 2: "validateWorkSupersession a ?T = [] \<longleftrightarrow>
      (\<exists>p \<in> set (attempts g). supersedesAttemptId a = Some (att_id p) \<and> att_taskId p = att_taskId a \<and> att_kind p \<noteq> Review \<and>
         generation a = num_succ (generation p) \<and>
         (\<exists>f \<in> set (attempts g). previousAttemptId a = Some (att_id f) \<and>
            (if att_kind f = Review then reviewsAttemptId f = Some (att_id p) else f = p)))"
  proof -
    have inner: "(case Option.bind (previousAttemptId a) ?T of
          None \<Rightarrow> None | Some f \<Rightarrow> if att_kind f = Review then reviewsAttemptId f else Some (att_id f)) = Some (att_id p) \<longleftrightarrow>
        (\<exists>f \<in> set (attempts g). previousAttemptId a = Some (att_id f) \<and>
            (if att_kind f = Review then reviewsAttemptId f = Some (att_id p) else f = p))" if "p \<in> set (attempts g)" for p
      by (subst case_bind_table [OF d, where P = "\<lambda>x. (case x of
          None \<Rightarrow> None | Some f \<Rightarrow> if att_kind f = Review then reviewsAttemptId f else Some (att_id f)) = Some (att_id p)"])
        (use same that in auto)
    show ?thesis
      unfolding validateWorkSupersession_def Let_def
      by (subst case_bind_table [OF d, where P = "\<lambda>x. (case x of None \<Rightarrow> _ | Some p \<Rightarrow> _ p) = []"])
        (auto simp: inner num_eq_positive gen)
  qed
  have "f = f'" if "previousAttemptId a = Some (att_id f)" "previousAttemptId a = Some (att_id f')"
    "f \<in> set (attempts g)" "f' \<in> set (attempts g)" for f f'
    using that same by simp
  then show ?thesis unfolding append_is_Nil_conv 1 2 restarts_def by blast
qed

lemma review_issues_Nil:
  assumes d: "distinct (map att_id (attempts g))" "distinct (map task_id (tasks g))" and gen: "positive_integer (generation a)"
    and t: "att_taskId a \<in> task_ids g"
  shows "review_issues g a = [] \<longleftrightarrow>
    (\<exists>r \<in> set (attempts g). reviews a r) \<and> supersedesAttemptId a = None \<and>
    (\<forall>t \<in> set (tasks g). task_id t = att_taskId a \<longrightarrow> reviewRequired t) \<and>
    (att_status a = Attempt_running \<or> att_status a = Attempt_succeeded \<longrightarrow>
       map_option att_id (currentWorkAttempt g (att_taskId a)) = reviewsAttemptId a)"
proof -
  let ?r = "Option.bind (reviewsAttemptId a) (attemptTable (attempts g))"
  have 1: "(case ?r of
         None \<Rightarrow> [Issue ''must reference a succeeded work attempt on the same task'' [Name (att_id a)]]
       | Some r \<Rightarrow>
           if att_taskId r \<noteq> att_taskId a \<or> att_kind r = Review \<or> att_status r \<noteq> Attempt_succeeded
           then [Issue ''must reference a succeeded work attempt on the same task'' [Name (att_id a)]]
           else if att_agentId r = att_agentId a
           then [Issue ''must use a different agent than the reviewed work'' [Name (att_id a)]]
           else issue_if (\<not> num_eq (generation a) (generation r))
             ''generation must match reviewed work generation'' [Name (att_id a)]) = [] \<longleftrightarrow>
      (\<exists>r \<in> set (attempts g). reviews a r)"
  proof (cases ?r)
    case None
    then have "\<not> (\<exists>r \<in> set (attempts g). reviews a r)" unfolding bind_table_None [OF d(1)] reviews_def by blast
    then show ?thesis by (simp only: None option.case list.distinct)
  next
    case (Some r)
    then have r: "r \<in> set (attempts g)" "reviewsAttemptId a = Some (att_id r)" unfolding bind_table [OF d(1)] by blast+
    have "q = r" if "q \<in> set (attempts g)" "reviews a q" for q
      using that r d(1) by (auto simp: reviews_def distinct_map inj_on_def)
    then have only: "(\<exists>r \<in> set (attempts g). reviews a r) \<longleftrightarrow> reviews a r" using r(1) by blast
    show ?thesis
    proof (cases "att_taskId r \<noteq> att_taskId a \<or> att_kind r = Review \<or> att_status r \<noteq> Attempt_succeeded")
      case True
      then have "\<not> reviews a r" by (auto simp: reviews_def)
      then show ?thesis using True by (simp only: only Some option.case if_True list.distinct simp_thms)
    next
      case False
      then show ?thesis unfolding only Some option.case using r(2) by (simp add: reviews_def num_eq_positive gen)
    qed
  qed
  obtain t where t: "taskTable g (att_taskId a) = Some t" "t \<in> set (tasks g)" "task_id t = att_taskId a"
    using t by (auto simp: taskTable_iff [OF d(2)])
  have 2: "(case taskTable g (att_taskId a) of None \<Rightarrow> True | Some t \<Rightarrow> \<not> reviewRequired t) \<longleftrightarrow>
      \<not> (\<forall>t \<in> set (tasks g). task_id t = att_taskId a \<longrightarrow> reviewRequired t)"
  proof -
    have "x = t" if "x \<in> set (tasks g)" "task_id x = att_taskId a" for x
      using that t d(2) by (metis distinct_map inj_on_eq_iff)
    then have "(\<forall>x \<in> set (tasks g). task_id x = att_taskId a \<longrightarrow> reviewRequired x) \<longleftrightarrow> reviewRequired t" using t(2,3) by blast
    then show ?thesis by (simp only: t(1) option.case)
  qed
  have 3: "map_option att_id ?r = reviewsAttemptId a" if ex: "\<exists>r \<in> set (attempts g). reviews a r"
  proof -
    obtain r where "r \<in> set (attempts g)" "reviewsAttemptId a = Some (att_id r)" using ex by (auto simp: reviews_def)
    then have "?r = Some r" unfolding bind_table [OF d(1)] by simp
    then show ?thesis using \<open>reviewsAttemptId a = Some (att_id r)\<close> by (simp only: option.map)
  qed
  show ?thesis
  proof (cases "\<exists>r \<in> set (attempts g). reviews a r")
    case True
    show ?thesis
      unfolding review_issues_def Let_def append_is_Nil_conv 1 issue_if_Nil 2 3 [OF True]
      using True by (simp only: simp_thms de_Morgan_conj not_not) blast
  next
    case False
    show ?thesis unfolding review_issues_def Let_def append_is_Nil_conv 1 using False by blast
  qed
qed

lemma attempt_issues_Nil:
  assumes d: "distinct (map att_id (attempts g))" "distinct (map task_id (tasks g))"
  shows "attempt_issues g a = [] \<longleftrightarrow> attempt_sound g a"
proof (cases "positive_integer (generation a) \<and> att_taskId a \<in> task_ids g")
  case True
  then obtain t where t: "taskTable g (att_taskId a) = Some t" "t \<in> set (tasks g)" "task_id t = att_taskId a"
    by (auto simp: taskTable_iff [OF d(2)])
  have only: "x = t" if "x \<in> set (tasks g)" "task_id x = att_taskId a" for x
    using that t d(2) by (metis distinct_map inj_on_eq_iff)
  have state: "(\<forall>t \<in> set (tasks g). task_id t = att_taskId a \<longrightarrow> P t) \<longleftrightarrow> P t" for P
    using only t(2,3) by blast
  have ended: "(case completedAt a of None \<Rightarrow> [] | Some w \<Rightarrow> validateFiniteNumber w label) = [] \<longleftrightarrow> (\<forall>w. completedAt a = Some w \<longrightarrow> isFinite w)" for label
    by (cases "completedAt a") simp_all
  have time: "(if att_status a = Attempt_running then issue_if (completedAt a \<noteq> None) m p else issue_if (completedAt a = None) m' p) = []
      \<longleftrightarrow> (att_status a = Attempt_running \<longleftrightarrow> completedAt a = None)" for m m' p
    by simp
  have restart: "validateAttemptLineage a (previousAttemptId a) (attemptTable (attempts g)) = [] \<and>
      validateWorkSupersession a (attemptTable (attempts g)) = [] \<longleftrightarrow> (\<exists>p \<in> set (attempts g). \<exists>f \<in> set (attempts g). restarts a p f)"
    using restart_issues_Nil [OF d(1)] True unfolding append_is_Nil_conv by blast
  have review: "review_issues g a = [] \<longleftrightarrow>
      (\<exists>r \<in> set (attempts g). reviews a r) \<and> supersedesAttemptId a = None \<and> reviewRequired t \<and>
      (att_status a = Attempt_running \<or> att_status a = Attempt_succeeded \<longrightarrow>
         map_option att_id (currentWorkAttempt g (att_taskId a)) = reviewsAttemptId a)"
    using review_issues_Nil [OF d, of a] True unfolding state by blast
  note rewrite = attempt_issues_def attempt_sound_def attempt_data_ok_def lineage_ok_def status_ok_def append_is_Nil_conv ended state
    t(1) option.case time restart review issue_if_Nil num_eq_int not_not simp_thms AttemptKind.distinct AttemptKind.case if_True if_False
    validateNonEmpty_Nil validatePositiveInteger_Nil validateFiniteNumber_Nil
  show ?thesis
  proof (cases "att_kind a")
    case Work
    show ?thesis using True by (simp only: rewrite Work; blast)
  next
    case Retry
    show ?thesis using True by (simp only: rewrite Retry; blast)
  next
    case Fallback
    show ?thesis using True by (simp only: rewrite Fallback; blast)
  next
    case Review
    show ?thesis using True by (simp only: rewrite Review; blast)
  qed
next
  case False
  then show ?thesis by (auto simp: attempt_issues_def attempt_sound_def attempt_data_ok_def)
qed

lemma outcome_issues_Nil: "outcome_issues g t = [] \<longleftrightarrow> outcome_ok g t"
  by (auto simp: outcome_issues_def outcome_ok_def list_ex_iff split: option.split)

lemma linked_work:
  assumes "\<forall>a \<in> set (attempts g). lineage_ok g a"
  shows "linked (work_of g k)" "\<forall>a \<in> set (work_of g k). att_kind a = Work \<longrightarrow> generation a = num_int 1"
proof -
  have "case supersedesAttemptId a of None \<Rightarrow> generation a = num_int 1
      | Some i \<Rightarrow> (\<exists>p \<in> set (work_of g k). i = att_id p \<and> generation a = num_succ (generation p))"
    if "a \<in> set (work_of g k)" for a
  proof -
    have a: "a \<in> set (attempts g)" "att_taskId a = k" "att_kind a \<noteq> Review" using that by (auto simp: set_work_of)
    have "lineage_ok g a" using assms a(1) by blast
    then show ?thesis using a(2,3) by (cases "att_kind a") (auto simp: lineage_ok_def restarts_def set_work_of)
  qed
  then show "linked (work_of g k)" by (simp add: linked_def)
  show "\<forall>a \<in> set (work_of g k). att_kind a = Work \<longrightarrow> generation a = num_int 1"
    using assms by (auto simp: set_work_of lineage_ok_def)
qed

lemma work_of_distinct: "distinct (map att_id (attempts g)) \<Longrightarrow> distinct (map att_id (work_of g k))"
  unfolding work_of_def by (rule distinct_map_filter_key)

lemma validateWorkAttemptChains_Nil:
  assumes "distinct (map att_id (attempts g))" "\<forall>a \<in> set (attempts g). attempt_sound g a"
  shows "validateWorkAttemptChains g = [] \<longleftrightarrow> (\<forall>k. chain_ok (work_of g k))"
proof -
  have lin: "\<forall>a \<in> set (attempts g). lineage_ok g a" and gen: "\<forall>a \<in> set (work_of g k). positive_integer (generation a)" for k
    using assms(2) by (auto simp: attempt_sound_def attempt_data_ok_def set_work_of)
  have eq: "filter (\<lambda>a. att_taskId a = k) (filter (\<lambda>a. att_kind a \<noteq> Review) (attempts g)) = work_of g k" for k
    by (simp add: work_of_def conj_commute)
  have keys: "k \<in> set (js_keys (map (\<lambda>a. (att_taskId a, a)) (filter (\<lambda>a. att_kind a \<noteq> Review) (attempts g)))) \<longleftrightarrow> work_of g k \<noteq> []" for k
    by (force simp: work_of_def filter_empty_conv)
  have "chain_issues k (work_of g k) = [] \<longleftrightarrow> chain_ok (work_of g k)" if "work_of g k \<noteq> []" for k
    using chain_issues_Nil [OF linked_work(1) [OF lin] work_of_distinct [OF assms(1)] gen linked_work(2) [OF lin] that] .
  moreover have "chain_ok (work_of g k)" if "work_of g k = []" for k using that by (simp add: chain_ok_def)
  ultimately show ?thesis
    unfolding validateWorkAttemptChains_def Let_def concat_map_Nil eq using keys by blast
qed

lemma validateAttempts_Nil:
  assumes "distinct (map task_id (tasks g))"
  shows "validateAttempts g = [] \<longleftrightarrow> attempts_ok g"
proof (cases "distinct (map att_id (attempts g)) \<and> (\<forall>a \<in> set (attempts g). attempt_sound g a)")
  case True
  then show ?thesis
    using attempt_issues_Nil [OF _ assms] validateWorkAttemptChains_Nil [of g]
    unfolding validateAttempts_def attempts_ok_def append_is_Nil_conv concat_map_Nil validateUniqueIds_Nil issue_if_Nil
      validateTaskOutcomeAuthority_def outcome_issues_Nil by blast
next
  case False
  then show ?thesis
    using attempt_issues_Nil [OF _ assms]
    unfolding validateAttempts_def attempts_ok_def append_is_Nil_conv concat_map_Nil validateUniqueIds_Nil by blast
qed


subsection \<open>Records\<close>

lemma validateAttemptChronology_Nil:
  assumes "distinct (map att_id (attempts g))"
  shows "validateAttemptChronology g = [] \<longleftrightarrow> started_ids (records g) = map att_id (attempts g)"
proof -
  have index: "(\<forall>i < max (length xs) (length ys). at_index xs i = at_index ys i) \<longleftrightarrow> xs = ys" if "length xs = length ys"
    for xs ys :: "jsstr list"
    using that by (auto simp: at_index_def list_eq_iff_nth_eq)
  show ?thesis
  proof (cases "length (started_ids (records g)) = length (map att_id (attempts g))")
    case True
    then show ?thesis using index [OF True] assms
      by (auto simp: validateAttemptChronology_def Let_def unique_loop_Nil)
  next
    case False
    then have "started_ids (records g) \<noteq> map att_id (attempts g)" by metis
    then show ?thesis using False by (simp add: validateAttemptChronology_def Let_def)
  qed
qed

lemma closure_loop_subset: "set (closure_loop ts found) \<subseteq> set found \<union> task_id ` set ts"
proof (induction ts found rule: closure_loop.induct)
  case (1 ts found)
  then show ?case using closure_pass_new [of found ts] by (subst closure_loop.simps) (auto simp: Let_def)
qed

lemma mismatch_Nil:
  assumes "distinct (map att_id (attempts g))"
  shows "validateRecordAttemptReference g ty i = [] \<longleftrightarrow> has_attempt g i (\<lambda>x. True)"
    and "mismatch g m i bad = [] \<longleftrightarrow> (\<forall>x \<in> set (attempts g). att_id x = i \<longrightarrow> \<not> bad x)"
proof -
  let ?x = "attemptTable (attempts g) i"
  have "(validateRecordAttemptReference g ty i = [] \<longleftrightarrow> has_attempt g i (\<lambda>x. True)) \<and>
    (mismatch g m i bad = [] \<longleftrightarrow> (\<forall>x \<in> set (attempts g). att_id x = i \<longrightarrow> \<not> bad x))"
  proof (cases ?x)
    case None
    then have none: "\<not> (x \<in> set (attempts g) \<and> att_id x = i)" for x unfolding attemptTable_iff [OF assms, symmetric] by simp
    show ?thesis unfolding validateRecordAttemptReference_def mismatch_def issue_if_Nil None option.case using none by blast
  next
    case (Some y)
    then have some: "x \<in> set (attempts g) \<and> att_id x = i \<longleftrightarrow> x = y" for x
      unfolding attemptTable_iff [OF assms, symmetric] by auto
    show ?thesis unfolding validateRecordAttemptReference_def mismatch_def issue_if_Nil Some option.case
      using some by (metis option.distinct(1))
  qed
  then show "validateRecordAttemptReference g ty i = [] \<longleftrightarrow> has_attempt g i (\<lambda>x. True)"
    "mismatch g m i bad = [] \<longleftrightarrow> (\<forall>x \<in> set (attempts g). att_id x = i \<longrightarrow> \<not> bad x)" by blast+
qed

lemma has_attempt_split:
  assumes "distinct (map att_id (attempts g))"
  shows "has_attempt g i P \<longleftrightarrow> has_attempt g i (\<lambda>x. True) \<and> (\<forall>x \<in> set (attempts g). att_id x = i \<longrightarrow> P x)"
  using assms by (metis distinct_map inj_on_eq_iff)

lemma validateRecordReferences_Nil:
  assumes d: "distinct (map att_id (attempts g))"
  shows "record_text_issues e @ validateRecordReferences g e = [] \<longleftrightarrow> event_ok g e"
proof -
  have tasks: "validateRecordTaskReference g ty k = [] \<longleftrightarrow> k \<in> task_ids g"
    and agents: "validateRecordAgentReference g ty k = [] \<longleftrightarrow> k \<in> agent_ids g" for ty k
    by (simp_all add: validateRecordTaskReference_def validateRecordAgentReference_def)
  have closure: "set (cancellationTaskIds g t) \<subseteq> task_ids g \<and> sort (cancellationTaskIds g t) = cancellationTaskIds g t"
    if "t \<in> task_ids g" for t
    using that closure_loop_subset [of "tasks g" "[t]"] by (auto simp: cancellationTaskIds_def sorted_sort_id)
  show ?thesis
  proof (cases e)
    case (Plain x)
    note start = has_attempt_split [OF d, of _ "\<lambda>x. att_kind x = kd \<and> att_taskId x = t \<and> att_agentId x = ag" for kd t ag]
      has_attempt_split [OF d, of _ "\<lambda>x. att_kind x = kd \<and> att_taskId x = t \<and> att_agentId x = ag \<and> f x = v" for kd t ag v and f :: "GraphAttempt \<Rightarrow> jsstr option"]
      has_attempt_split [OF d, of _ "\<lambda>x. att_kind x = Review"] has_attempt_split [OF d, of _ "\<lambda>x. att_kind x \<noteq> Review"]
    show ?thesis
      unfolding Plain
      by (cases x; simp only: record_text_issues.simps validateRecordReferences.simps event_ok.simps append_is_Nil_conv
        tasks agents mismatch_Nil [OF d] issue_if_Nil list.distinct start; blast)
  next
    case (Cancellation t w r ts)
    then show ?thesis using closure [of t] by (auto simp: tasks concat_map_Nil)
  qed
qed

lemma records_loop_Nil:
  assumes "distinct (map att_id (attempts g))"
  shows "records_loop g n rs = [] \<longleftrightarrow> (\<forall>i < length rs. record_ok g (n + i) (rs ! i))"
proof (induction rs arbitrary: n)
  case (Cons r rs)
  have "records_loop g n (r # rs) = [] \<longleftrightarrow> record_ok g n r \<and> records_loop g (Suc n) rs = []"
    using validateRecordReferences_Nil [OF assms, of "record_event r"] by (auto simp: record_ok_def)
  also have "\<dots> \<longleftrightarrow> (\<forall>i < length (r # rs). record_ok g (n + i) ((r # rs) ! i))"
    unfolding Cons.IH by (auto simp: less_Suc_eq_0_disj)
  finally show ?case .
qed simp

lemma validateGraph_Nil: "validateGraph g = [] \<longleftrightarrow> valid_graph g"
proof (cases "distinct (map agent_id (agents g)) \<and> distinct (map task_id (tasks g)) \<and> distinct (map att_id (attempts g))")
  case True
  have pairs: "map fst (map (\<lambda>a. (agent_id a, parentAgentId a)) (agents g)) = map agent_id (agents g)"
    "map fst (map (\<lambda>t. (task_id t, parentTaskId t)) (tasks g)) = map task_id (tasks g)"
    by simp_all
  have rec: "validateRecords g = [] \<longleftrightarrow> records_ok g"
    using validateAttemptChronology_Nil [of g] records_loop_Nil [of g 0] True by (auto simp: validateRecords_def records_ok_def)
  have cyc: "validateParentCycles kind (map (\<lambda>a. (agent_id a, parentAgentId a)) (agents g)) = [] \<longleftrightarrow>
        acyclic (parent_relation (map (\<lambda>a. (agent_id a, parentAgentId a)) (agents g)))"
      "validateParentCycles kind (map (\<lambda>t. (task_id t, parentTaskId t)) (tasks g)) = [] \<longleftrightarrow>
        acyclic (parent_relation (map (\<lambda>t. (task_id t, parentTaskId t)) (tasks g)))"
      "validateDependencyCycles (tasks g) = [] \<longleftrightarrow> acyclic (dependency_relation (tasks g))" for kind
    using True by (simp_all only: pairs validateParentCycles_exact validateDependencyCycles_exact)
  have att: "validateAttempts g = [] \<longleftrightarrow> attempts_ok g" using validateAttempts_Nil True by blast
  have version: "num_eq (schemaVersion g) GRAPH_SCHEMA_VERSION \<longleftrightarrow> schemaVersion g = GRAPH_SCHEMA_VERSION"
    by (simp only: GRAPH_SCHEMA_VERSION_def num_eq_int)
  show ?thesis
    unfolding validateGraph_def valid_graph_def structure_ok_def append_is_Nil_conv concat_map_Nil issue_if_Nil version
      validatePositiveInteger_Nil validateUniqueIds_Nil agent_issues_Nil task_issues_Nil cyc att rec
    by blast
next
  case False
  then show ?thesis
    unfolding validateGraph_def valid_graph_def structure_ok_def append_is_Nil_conv validateUniqueIds_Nil validateAttempts_def attempts_ok_def
    by blast
qed

end
