(* ===== verification/Graph_Snapshot.thy ===== *)
theory Graph_Snapshot
  imports Json Graph_Valid
begin

text \<open>
  The snapshots of the orchestration graph, \<open>src/app/src/domain/orchestrationGraph.ts\<close>: \<open>serializeGraph\<close> and \<open>restoreGraph\<close>, the
  reader of every part of a snapshot, and the migration of snapshots of the first version, which replays the records to find
  the generations and the supersessions that those snapshots do not have.

  An object that \<open>JSON.parse\<close> returns is the list of its members, read by \<open>map_of\<close>. Numbers in a parsed snapshot are finite, so that
  their strict equality is equality. The maps of the migration are maps; its state is the record \<open>migration\<close>.
\<close>


section \<open>Reading values\<close>

type_synonym JsonObject = "(jsstr \<times> jtree) list"

definition snapshot_error :: "string \<Rightarrow> issue_part list \<Rightarrow> graph_error + 'a" where
  "snapshot_error txt parts = Inl (GraphValidationError [Issue txt parts])"

definition hasOwn :: "JsonObject \<Rightarrow> string \<Rightarrow> bool" where
  "hasOwn source key \<longleftrightarrow> map_of source (js key) \<noteq> None"

definition readRequired :: "JsonObject \<Rightarrow> string \<Rightarrow> string \<Rightarrow> graph_error + jtree" where
  "readRequired source key label =
     (if \<not> hasOwn source key then snapshot_error (label @ '' is missing required property'') [Name (js key)]
      else Inr (field source key))"

fun parseObject :: "jtree \<Rightarrow> string \<Rightarrow> graph_error + JsonObject" where
  "parseObject (TObj ms) label = Inr ms"
| "parseObject _ label = snapshot_error (label @ '' must be an object'') []"

fun parseArray :: "jtree \<Rightarrow> string \<Rightarrow> graph_error + jtree list" where
  "parseArray (TArr ts) label = Inr ts"
| "parseArray _ label = snapshot_error (label @ '' must be an array'') []"

fun parseString :: "jtree \<Rightarrow> string \<Rightarrow> graph_error + jsstr" where
  "parseString (TPrim (PStr s)) label = Inr s"
| "parseString _ label = snapshot_error (label @ '' must be a string'') []"

text \<open>\<open>map\<close> with a function that may throw.\<close>

fun map_throws :: "('a \<Rightarrow> 'e + 'b) \<Rightarrow> 'a list \<Rightarrow> 'e + 'b list" where
  "map_throws f [] = Inr []"
| "map_throws f (x # xs) = ebind (f x) (\<lambda>y. ebind (map_throws f xs) (\<lambda>ys. Inr (y # ys)))"

definition parseStringArray :: "jtree \<Rightarrow> string \<Rightarrow> graph_error + jsstr list" where
  "parseStringArray v label = ebind (parseArray v label) (map_throws (\<lambda>item. parseString item (label @ '' item'')))"

fun parseFiniteNumber :: "jtree \<Rightarrow> string \<Rightarrow> graph_error + jsnum" where
  "parseFiniteNumber (TPrim (PNum n)) label =
     (if isFinite n then Inr n else snapshot_error (label @ '' must be a finite number'') [])"
| "parseFiniteNumber _ label = snapshot_error (label @ '' must be a finite number'') []"

fun parseBoolean :: "jtree \<Rightarrow> string \<Rightarrow> graph_error + bool" where
  "parseBoolean (TPrim (PBool b)) label = Inr b"
| "parseBoolean _ label = snapshot_error (label @ '' must be a boolean'') []"

definition parseOptionalString :: "JsonObject \<Rightarrow> string \<Rightarrow> string \<Rightarrow> graph_error + jsstr option" where
  "parseOptionalString source key label =
     (if hasOwn source key then ebind (parseString (field source key) (label @ '' '' @ key)) (\<lambda>s. Inr (Some s)) else Inr None)"

definition parseOptionalFiniteNumber :: "JsonObject \<Rightarrow> string \<Rightarrow> string \<Rightarrow> graph_error + jsnum option" where
  "parseOptionalFiniteNumber source key label =
     (if hasOwn source key then ebind (parseFiniteNumber (field source key) (label @ '' '' @ key)) (\<lambda>n. Inr (Some n)) else Inr None)"

definition parseTaskStatus :: "jtree \<Rightarrow> graph_error + TaskStatus" where
  "parseTaskStatus v =
     ebind (parseString v ''task status'') (\<lambda>s.
       if s = js ''pending'' then Inr Task_pending
       else if s = js ''running'' then Inr Task_running
       else if s = js ''awaiting-review'' then Inr Task_awaiting_review
       else if s = js ''succeeded'' then Inr Task_succeeded
       else if s = js ''failed'' then Inr Task_failed
       else if s = js ''cancelled'' then Inr Task_cancelled
       else snapshot_error ''unsupported task status'' [Name s])"

definition parseAttemptKind :: "jtree \<Rightarrow> graph_error + AttemptKind" where
  "parseAttemptKind v =
     ebind (parseString v ''attempt kind'') (\<lambda>s.
       if s = js ''work'' then Inr Work
       else if s = js ''retry'' then Inr Retry
       else if s = js ''fallback'' then Inr Fallback
       else if s = js ''review'' then Inr Review
       else snapshot_error ''unsupported attempt kind'' [Name s])"

definition parseAttemptStatus :: "jtree \<Rightarrow> graph_error + AttemptStatus" where
  "parseAttemptStatus v =
     ebind (parseString v ''attempt status'') (\<lambda>s.
       if s = js ''running'' then Inr Attempt_running
       else if s = js ''succeeded'' then Inr Attempt_succeeded
       else if s = js ''failed'' then Inr Attempt_failed
       else if s = js ''cancelled'' then Inr Attempt_cancelled
       else snapshot_error ''unsupported attempt status'' [Name s])"

definition parseOutcome :: "jtree \<Rightarrow> graph_error + work_outcome" where
  "parseOutcome v =
     ebind (parseString v ''work outcome'') (\<lambda>s.
       if s = js ''succeeded'' then Inr Work_ok
       else if s = js ''failed'' then Inr Work_failed
       else snapshot_error ''unsupported work outcome'' [Name s])"

text \<open>A required member, read and parsed.\<close>

definition required_string :: "JsonObject \<Rightarrow> string \<Rightarrow> string \<Rightarrow> string \<Rightarrow> graph_error + jsstr" where
  "required_string source key owner label = ebind (readRequired source key owner) (\<lambda>v. parseString v label)"

definition required_number :: "JsonObject \<Rightarrow> string \<Rightarrow> string \<Rightarrow> string \<Rightarrow> graph_error + jsnum" where
  "required_number source key owner label = ebind (readRequired source key owner) (\<lambda>v. parseFiniteNumber v label)"

definition required_boolean :: "JsonObject \<Rightarrow> string \<Rightarrow> string \<Rightarrow> string \<Rightarrow> graph_error + bool" where
  "required_boolean source key owner label = ebind (readRequired source key owner) (\<lambda>v. parseBoolean v label)"

definition required_array :: "JsonObject \<Rightarrow> string \<Rightarrow> (jtree \<Rightarrow> graph_error + 'a) \<Rightarrow> graph_error + 'a list" where
  "required_array source key parse =
     ebind (readRequired source key ''graph snapshot'') (\<lambda>v. ebind (parseArray v key) (map_throws parse))"


section \<open>Reading a graph\<close>

definition parseGraphAgent :: "jtree \<Rightarrow> graph_error + GraphAgent" where
  "parseGraphAgent v =
     ebind (parseObject v ''agent'') (\<lambda>source.
     ebind (required_string source ''id'' ''agent'' ''agent id'') (\<lambda>i.
     ebind (required_string source ''label'' ''agent'' ''agent label'') (\<lambda>label.
     ebind (parseOptionalString source ''parentAgentId'' ''agent'') (\<lambda>parent.
     Inr \<lparr>agent_id = i, agent_label = label, parentAgentId = parent\<rparr>))))"

definition parseGraphTask :: "jtree \<Rightarrow> graph_error + GraphTask" where
  "parseGraphTask v =
     ebind (parseObject v ''task'') (\<lambda>source.
     ebind (required_string source ''id'' ''task'' ''task id'') (\<lambda>i.
     ebind (required_string source ''title'' ''task'' ''task title'') (\<lambda>title.
     ebind (required_string source ''ownerAgentId'' ''task'' ''task ownerAgentId'') (\<lambda>owner.
     ebind (parseOptionalString source ''parentTaskId'' ''task'') (\<lambda>parent.
     ebind (readRequired source ''dependsOn'' ''task'') (\<lambda>d. ebind (parseStringArray d ''task dependsOn'') (\<lambda>deps.
     ebind (required_number source ''priority'' ''task'' ''task priority'') (\<lambda>priority.
     ebind (required_boolean source ''reviewRequired'' ''task'' ''task reviewRequired'') (\<lambda>reviewed.
     ebind (readRequired source ''status'' ''task'') (\<lambda>s. ebind (parseTaskStatus s) (\<lambda>status.
     Inr \<lparr>task_id = i, task_title = title, ownerAgentId = owner, parentTaskId = parent, dependsOn = deps, task_priority = priority,
          reviewRequired = reviewed, task_status = status\<rparr>)))))))))))"

definition parseGraphAttempt :: "jtree \<Rightarrow> graph_error + GraphAttempt" where
  "parseGraphAttempt v =
     ebind (parseObject v ''attempt'') (\<lambda>source.
     ebind (required_string source ''id'' ''attempt'' ''attempt id'') (\<lambda>i.
     ebind (required_string source ''taskId'' ''attempt'' ''attempt taskId'') (\<lambda>task.
     ebind (required_string source ''agentId'' ''attempt'' ''attempt agentId'') (\<lambda>agent.
     ebind (readRequired source ''kind'' ''attempt'') (\<lambda>k. ebind (parseAttemptKind k) (\<lambda>kind.
     ebind (required_number source ''generation'' ''attempt'' ''attempt generation'') (\<lambda>gen.
     ebind (readRequired source ''status'' ''attempt'') (\<lambda>s. ebind (parseAttemptStatus s) (\<lambda>status.
     ebind (required_number source ''startedAt'' ''attempt'' ''attempt startedAt'') (\<lambda>started.
     ebind (parseOptionalFiniteNumber source ''completedAt'' ''attempt'') (\<lambda>completed.
     ebind (parseOptionalString source ''previousAttemptId'' ''attempt'') (\<lambda>previous.
     ebind (parseOptionalString source ''supersedesAttemptId'' ''attempt'') (\<lambda>superseded.
     ebind (parseOptionalString source ''reviewsAttemptId'' ''attempt'') (\<lambda>reviewed.
     Inr \<lparr>att_id = i, att_taskId = task, att_agentId = agent, att_kind = kind, generation = gen, att_status = status, startedAt = started,
          completedAt = completed, previousAttemptId = previous, supersedesAttemptId = superseded, reviewsAttemptId = reviewed\<rparr>))))))))))))))"

definition parse_work_started :: "JsonObject \<Rightarrow> graph_error + RecordedGraphEvent" where
  "parse_work_started source =
     ebind (required_string source ''taskId'' ''work.started'' ''work.started taskId'') (\<lambda>task.
     ebind (required_string source ''attemptId'' ''work.started'' ''work.started attemptId'') (\<lambda>attempt.
     ebind (required_string source ''agentId'' ''work.started'' ''work.started agentId'') (\<lambda>agent.
     ebind (required_number source ''at'' ''work.started'' ''work.started at'') (\<lambda>w.
     Inr (Plain (Work_started task attempt agent w))))))"

definition parse_work_completed :: "JsonObject \<Rightarrow> graph_error + RecordedGraphEvent" where
  "parse_work_completed source =
     ebind (required_string source ''attemptId'' ''work.completed'' ''work.completed attemptId'') (\<lambda>attempt.
     ebind (readRequired source ''outcome'' ''work.completed'') (\<lambda>v. ebind (parseOutcome v) (\<lambda>out.
     ebind (required_number source ''at'' ''work.completed'' ''work.completed at'') (\<lambda>w.
     Inr (Plain (Work_completed attempt out w))))))"

definition parse_handoff :: "JsonObject \<Rightarrow> graph_error + RecordedGraphEvent" where
  "parse_handoff source =
     ebind (required_string source ''taskId'' ''handoff.recorded'' ''handoff taskId'') (\<lambda>task.
     ebind (required_string source ''fromAgentId'' ''handoff.recorded'' ''handoff fromAgentId'') (\<lambda>old.
     ebind (required_string source ''toAgentId'' ''handoff.recorded'' ''handoff toAgentId'') (\<lambda>new.
     ebind (required_number source ''at'' ''handoff.recorded'' ''handoff at'') (\<lambda>w.
     ebind (required_string source ''message'' ''handoff.recorded'' ''handoff message'') (\<lambda>message.
     Inr (Plain (Handoff_recorded task old new w message)))))))"

definition parse_cancelled :: "JsonObject \<Rightarrow> graph_error + RecordedGraphEvent" where
  "parse_cancelled source =
     ebind (required_string source ''taskId'' ''task.cancelled'' ''cancelled taskId'') (\<lambda>task.
     ebind (required_number source ''at'' ''task.cancelled'' ''cancelled at'') (\<lambda>w.
     ebind (required_string source ''reason'' ''task.cancelled'' ''cancelled reason'') (\<lambda>reason.
     if hasOwn source ''affectedTaskIds'' then
       ebind (parseStringArray (field source ''affectedTaskIds'') ''cancelled affectedTaskIds'') (\<lambda>affected.
       Inr (Cancellation task w reason affected))
     else Inr (Plain (Task_cancelled_event task w reason)))))"

definition parse_review_started :: "JsonObject \<Rightarrow> graph_error + RecordedGraphEvent" where
  "parse_review_started source =
     ebind (required_string source ''taskId'' ''review.started'' ''review taskId'') (\<lambda>task.
     ebind (required_string source ''attemptId'' ''review.started'' ''review attemptId'') (\<lambda>attempt.
     ebind (required_string source ''agentId'' ''review.started'' ''review agentId'') (\<lambda>agent.
     ebind (required_string source ''reviewsAttemptId'' ''review.started'' ''review reviewsAttemptId'') (\<lambda>reviewed.
     ebind (required_number source ''at'' ''review.started'' ''review at'') (\<lambda>w.
     Inr (Plain (Review_started task attempt agent reviewed w)))))))"

definition parse_review_completed :: "JsonObject \<Rightarrow> graph_error + RecordedGraphEvent" where
  "parse_review_completed source =
     ebind (required_string source ''attemptId'' ''review.completed'' ''review completion attemptId'') (\<lambda>attempt.
     ebind (required_boolean source ''approved'' ''review.completed'' ''review approved'') (\<lambda>approved.
     ebind (required_number source ''at'' ''review.completed'' ''review completion at'') (\<lambda>w.
     Inr (Plain (Review_completed attempt approved w)))))"

definition parse_retry_started :: "JsonObject \<Rightarrow> graph_error + RecordedGraphEvent" where
  "parse_retry_started source =
     ebind (required_string source ''taskId'' ''retry.started'' ''retry taskId'') (\<lambda>task.
     ebind (required_string source ''attemptId'' ''retry.started'' ''retry attemptId'') (\<lambda>attempt.
     ebind (required_string source ''agentId'' ''retry.started'' ''retry agentId'') (\<lambda>agent.
     ebind (required_string source ''retryOfAttemptId'' ''retry.started'' ''retry retryOfAttemptId'') (\<lambda>failed.
     ebind (required_number source ''at'' ''retry.started'' ''retry at'') (\<lambda>w.
     Inr (Plain (Retry_started task attempt agent failed w)))))))"

definition parse_fallback_started :: "JsonObject \<Rightarrow> graph_error + RecordedGraphEvent" where
  "parse_fallback_started source =
     ebind (required_string source ''taskId'' ''fallback.started'' ''fallback taskId'') (\<lambda>task.
     ebind (required_string source ''attemptId'' ''fallback.started'' ''fallback attemptId'') (\<lambda>attempt.
     ebind (required_string source ''agentId'' ''fallback.started'' ''fallback agentId'') (\<lambda>agent.
     ebind (required_string source ''fallbackOfAttemptId'' ''fallback.started'' ''fallback fallbackOfAttemptId'') (\<lambda>failed.
     ebind (required_string source ''reason'' ''fallback.started'' ''fallback reason'') (\<lambda>reason.
     ebind (required_number source ''at'' ''fallback.started'' ''fallback at'') (\<lambda>w.
     Inr (Plain (Fallback_started task attempt agent failed reason w))))))))"

definition parseRecordedGraphEvent :: "jtree \<Rightarrow> graph_error + RecordedGraphEvent" where
  "parseRecordedGraphEvent v =
     ebind (parseObject v ''record event'') (\<lambda>source.
     ebind (required_string source ''type'' ''record event'' ''record event type'') (\<lambda>type.
       if type = js ''work.started'' then parse_work_started source
       else if type = js ''work.completed'' then parse_work_completed source
       else if type = js ''handoff.recorded'' then parse_handoff source
       else if type = js ''task.cancelled'' then parse_cancelled source
       else if type = js ''review.started'' then parse_review_started source
       else if type = js ''review.completed'' then parse_review_completed source
       else if type = js ''retry.started'' then parse_retry_started source
       else if type = js ''fallback.started'' then parse_fallback_started source
       else snapshot_error ''unsupported graph event type in snapshot'' [Name type]))"

definition parseGraphRecord :: "jtree \<Rightarrow> graph_error + GraphRecord" where
  "parseGraphRecord v =
     ebind (parseObject v ''record'') (\<lambda>source.
     ebind (required_number source ''sequence'' ''record'' ''record sequence'') (\<lambda>n.
     ebind (readRequired source ''event'' ''record'') (\<lambda>e. ebind (parseRecordedGraphEvent e) (\<lambda>event.
     Inr \<lparr>sequence = n, record_event = event\<rparr>))))"

definition parseGraphState :: "jtree \<Rightarrow> graph_error + GraphState" where
  "parseGraphState v =
     ebind (parseObject v ''graph snapshot'') (\<lambda>source.
     ebind (required_number source ''schemaVersion'' ''graph snapshot'' ''schemaVersion'') (\<lambda>version.
     if version \<noteq> GRAPH_SCHEMA_VERSION then snapshot_error ''unsupported graph schema version'' [Number version]
     else
     ebind (required_number source ''maxParallelism'' ''graph snapshot'' ''maxParallelism'') (\<lambda>limit.
     ebind (required_array source ''agents'' parseGraphAgent) (\<lambda>ags.
     ebind (required_array source ''tasks'' parseGraphTask) (\<lambda>ts.
     ebind (required_array source ''attempts'' parseGraphAttempt) (\<lambda>as.
     ebind (required_array source ''records'' parseGraphRecord) (\<lambda>rs.
     Inr \<lparr>schemaVersion = GRAPH_SCHEMA_VERSION, maxParallelism = limit, agents = ags, tasks = ts, attempts = as, records = rs\<rparr>)))))))"


section \<open>Migration of the first version\<close>

record LegacyV1GraphAttempt =
  legacy_id :: jsstr
  legacy_taskId :: jsstr
  legacy_agentId :: jsstr
  legacy_kind :: AttemptKind
  legacy_status :: AttemptStatus
  legacy_startedAt :: jsnum
  legacy_completedAt :: "jsnum option"
  legacy_previousAttemptId :: "jsstr option"
  legacy_reviewsAttemptId :: "jsstr option"

record LegacyV1GraphState =
  legacy_maxParallelism :: jsnum
  legacy_agents :: "GraphAgent list"
  legacy_tasks :: "GraphTask list"
  legacy_attempts :: "LegacyV1GraphAttempt list"
  legacy_records :: "GraphRecord list"

definition legacyV1MigrationError :: "string \<Rightarrow> issue_part list \<Rightarrow> graph_error + 'a" where
  "legacyV1MigrationError message parts = snapshot_error (''legacy v1 migration: '' @ message) parts"

definition parseLegacyV1Attempt :: "jtree \<Rightarrow> graph_error + LegacyV1GraphAttempt" where
  "parseLegacyV1Attempt v =
     ebind (parseObject v ''legacy v1 attempt'') (\<lambda>source.
     if hasOwn source ''generation'' \<or> hasOwn source ''supersedesAttemptId''
     then legacyV1MigrationError ''v1 attempts cannot contain v2 causal fields'' []
     else
     ebind (required_string source ''id'' ''legacy v1 attempt'' ''attempt id'') (\<lambda>i.
     ebind (required_string source ''taskId'' ''legacy v1 attempt'' ''attempt taskId'') (\<lambda>task.
     ebind (required_string source ''agentId'' ''legacy v1 attempt'' ''attempt agentId'') (\<lambda>agent.
     ebind (readRequired source ''kind'' ''legacy v1 attempt'') (\<lambda>k. ebind (parseAttemptKind k) (\<lambda>kind.
     ebind (readRequired source ''status'' ''legacy v1 attempt'') (\<lambda>s. ebind (parseAttemptStatus s) (\<lambda>status.
     ebind (required_number source ''startedAt'' ''legacy v1 attempt'' ''attempt startedAt'') (\<lambda>started.
     ebind (parseOptionalFiniteNumber source ''completedAt'' ''legacy v1 attempt'') (\<lambda>completed.
     ebind (parseOptionalString source ''previousAttemptId'' ''legacy v1 attempt'') (\<lambda>previous.
     ebind (parseOptionalString source ''reviewsAttemptId'' ''legacy v1 attempt'') (\<lambda>reviewed.
     Inr \<lparr>legacy_id = i, legacy_taskId = task, legacy_agentId = agent, legacy_kind = kind, legacy_status = status, legacy_startedAt = started,
          legacy_completedAt = completed, legacy_previousAttemptId = previous, legacy_reviewsAttemptId = reviewed\<rparr>))))))))))))"

text \<open>The map of the attempts by their names, and the check of the sequence numbers.\<close>

fun legacy_table :: "(jsstr \<Rightarrow> LegacyV1GraphAttempt option) \<Rightarrow> LegacyV1GraphAttempt list \<Rightarrow> graph_error + (jsstr \<Rightarrow> LegacyV1GraphAttempt option)" where
  "legacy_table byId [] = Inr byId"
| "legacy_table byId (a # as) =
     (if byId (legacy_id a) \<noteq> None then legacyV1MigrationError ''duplicate attempt id'' [Name (legacy_id a)]
      else legacy_table (byId(legacy_id a \<mapsto> a)) as)"

fun check_sequences :: "nat \<Rightarrow> GraphRecord list \<Rightarrow> graph_error + unit" where
  "check_sequences index [] = Inr ()"
| "check_sequences index (r # rs) =
     (if as_integer (sequence r) = None \<or> sequence r \<noteq> num_int (int index + 1)
      then legacyV1MigrationError ''record at index must have sequence'' [Number (num_int (int index)), Number (num_int (int index + 1))]
      else check_sequences (Suc index) rs)"

record migration =
  migratedAttempts :: "GraphAttempt list"
  migratedAttemptsById :: "jsstr \<Rightarrow> GraphAttempt option"
  replayStatuses :: "jsstr \<Rightarrow> AttemptStatus option"
  replayCompletedAt :: "jsstr \<Rightarrow> jsnum option"
  currentWorkByTask :: "jsstr \<Rightarrow> GraphAttempt option"

definition migration_start :: migration where
  "migration_start =
     \<lparr>migratedAttempts = [], migratedAttemptsById = \<lambda>_. None, replayStatuses = \<lambda>_. None, replayCompletedAt = \<lambda>_. None,
      currentWorkByTask = \<lambda>_. None\<rparr>"

definition legacyAttemptForStart ::
  "(jsstr \<Rightarrow> LegacyV1GraphAttempt option) \<Rightarrow> migration \<Rightarrow> jsstr \<Rightarrow> jsstr \<Rightarrow> jsstr \<Rightarrow> AttemptKind \<Rightarrow> jsnum \<Rightarrow> graph_error + LegacyV1GraphAttempt" where
  "legacyAttemptForStart byId m attempt task agent kind started =
     (case byId attempt of
        None \<Rightarrow> legacyV1MigrationError ''start record references missing attempt'' [Name attempt]
      | Some a \<Rightarrow>
          if migratedAttemptsById m attempt \<noteq> None then legacyV1MigrationError ''attempt starts more than once'' [Name attempt]
          else if legacy_taskId a \<noteq> task \<or> legacy_agentId a \<noteq> agent \<or> legacy_kind a \<noteq> kind \<or> legacy_startedAt a \<noteq> started
          then legacyV1MigrationError ''start record does not match attempt'' [Name attempt]
          else Inr a)"

definition migrated_attempt :: "LegacyV1GraphAttempt \<Rightarrow> jsnum \<Rightarrow> jsstr option \<Rightarrow> GraphAttempt" where
  "migrated_attempt a gen old =
     \<lparr>att_id = legacy_id a, att_taskId = legacy_taskId a, att_agentId = legacy_agentId a, att_kind = legacy_kind a, generation = gen,
      att_status = legacy_status a, startedAt = legacy_startedAt a, completedAt = legacy_completedAt a,
      previousAttemptId = legacy_previousAttemptId a, supersedesAttemptId = old, reviewsAttemptId = legacy_reviewsAttemptId a\<rparr>"

definition storeStartedAttempt :: "GraphAttempt \<Rightarrow> migration \<Rightarrow> migration" where
  "storeStartedAttempt a m =
     m\<lparr>migratedAttempts := migratedAttempts m @ [a], migratedAttemptsById := (migratedAttemptsById m)(att_id a \<mapsto> a),
       replayStatuses := (replayStatuses m)(att_id a \<mapsto> Attempt_running)\<rparr>"

definition set_current :: "jsstr \<Rightarrow> GraphAttempt \<Rightarrow> migration \<Rightarrow> migration" where
  "set_current task a m = m\<lparr>currentWorkByTask := (currentWorkByTask m)(task \<mapsto> a)\<rparr>"

definition completeAttempt :: "migration \<Rightarrow> jsstr \<Rightarrow> bool \<Rightarrow> AttemptStatus \<Rightarrow> jsnum \<Rightarrow> graph_error + migration" where
  "completeAttempt m attempt is_review status w =
     (let refused = legacyV1MigrationError ((if is_review then ''review'' else ''work'') @ '' completion precedes a matching active start'')
        [Name attempt] in
      case migratedAttemptsById m attempt of
        None \<Rightarrow> refused
      | Some a \<Rightarrow>
          if (att_kind a = Review) \<noteq> is_review \<or> replayStatuses m attempt \<noteq> Some Attempt_running then refused
          else Inr (m\<lparr>replayStatuses := (replayStatuses m)(attempt \<mapsto> status),
                      replayCompletedAt := (replayCompletedAt m)(attempt \<mapsto> w)\<rparr>))"

fun cancel_attempts :: "jsstr list \<Rightarrow> jsnum \<Rightarrow> GraphAttempt list \<Rightarrow> migration \<Rightarrow> migration" where
  "cancel_attempts affected w [] m = m"
| "cancel_attempts affected w (a # as) m =
     cancel_attempts affected w as
       (if att_taskId a \<in> set affected \<and> replayStatuses m (att_id a) = Some Attempt_running
        then m\<lparr>replayStatuses := (replayStatuses m)(att_id a \<mapsto> Attempt_cancelled),
               replayCompletedAt := (replayCompletedAt m)(att_id a \<mapsto> w)\<rparr>
        else m)"

definition replay_review :: "(jsstr \<Rightarrow> LegacyV1GraphAttempt option) \<Rightarrow> migration \<Rightarrow> jsstr \<Rightarrow> jsstr \<Rightarrow> jsstr \<Rightarrow> jsstr \<Rightarrow> jsnum \<Rightarrow> graph_error + migration" where
  "replay_review byId m task attempt agent reviewed w =
     ebind (legacyAttemptForStart byId m attempt task agent Review w) (\<lambda>legacy.
       let refused = legacyV1MigrationError ''review does not bind to current succeeded work'' [Name attempt] in
       case migratedAttemptsById m reviewed of
         None \<Rightarrow> refused
       | Some r \<Rightarrow>
           if att_kind r = Review \<or> att_taskId r \<noteq> task \<or> legacy_reviewsAttemptId legacy \<noteq> Some (att_id r) \<or>
              replayStatuses m (att_id r) \<noteq> Some Attempt_succeeded \<or>
              map_option att_id (currentWorkByTask m task) \<noteq> Some (att_id r)
           then refused
           else Inr (storeStartedAttempt (migrated_attempt legacy (generation r) None) m))"

definition replay_restart ::
  "(jsstr \<Rightarrow> LegacyV1GraphAttempt option) \<Rightarrow> migration \<Rightarrow> AttemptKind \<Rightarrow> jsstr \<Rightarrow> jsstr \<Rightarrow> jsstr \<Rightarrow> jsstr \<Rightarrow> jsnum \<Rightarrow> graph_error + migration" where
  "replay_restart byId m kind task attempt agent failure w =
     ebind (legacyAttemptForStart byId m attempt task agent kind w) (\<lambda>legacy.
       let refused = legacyV1MigrationError ((if kind = Retry then ''retry'' else ''fallback'') @ '' lacks a causal current predecessor'')
         [Name attempt] in
       case migratedAttemptsById m failure of
         None \<Rightarrow> refused
       | Some f \<Rightarrow>
           (case (if att_kind f = Review then Option.bind (reviewsAttemptId f) (migratedAttemptsById m) else Some f) of
              None \<Rightarrow> refused
            | Some p \<Rightarrow>
                if legacy_previousAttemptId legacy \<noteq> Some failure \<or> replayStatuses m (att_id f) \<noteq> Some Attempt_failed \<or>
                   att_kind p = Review \<or> att_taskId p \<noteq> task \<or> map_option att_id (currentWorkByTask m task) \<noteq> Some (att_id p)
                then refused
                else (let a = migrated_attempt legacy (num_succ (generation p)) (Some (att_id p)) in
                      Inr (set_current task a (storeStartedAttempt a m)))))"

fun replay_event :: "(jsstr \<Rightarrow> LegacyV1GraphAttempt option) \<Rightarrow> RecordedGraphEvent \<Rightarrow> migration \<Rightarrow> graph_error + migration" where
  "replay_event byId (Plain (Work_started task attempt agent w)) m =
     ebind (legacyAttemptForStart byId m attempt task agent Work w) (\<lambda>legacy.
       if currentWorkByTask m task \<noteq> None then legacyV1MigrationError ''task starts more than one initial work chain'' [Name task]
       else (let a = migrated_attempt legacy (num_int 1) None in Inr (set_current task a (storeStartedAttempt a m))))"
| "replay_event byId (Plain (Review_started task attempt agent reviewed w)) m = replay_review byId m task attempt agent reviewed w"
| "replay_event byId (Plain (Retry_started task attempt agent failure w)) m = replay_restart byId m Retry task attempt agent failure w"
| "replay_event byId (Plain (Fallback_started task attempt agent failure reason w)) m =
     replay_restart byId m Fallback task attempt agent failure w"
| "replay_event byId (Plain (Work_completed attempt out w)) m =
     completeAttempt m attempt False (case out of Work_ok \<Rightarrow> Attempt_succeeded | Work_failed \<Rightarrow> Attempt_failed) w"
| "replay_event byId (Plain (Review_completed attempt approved w)) m =
     completeAttempt m attempt True (if approved then Attempt_succeeded else Attempt_failed) w"
| "replay_event byId (Cancellation task w reason affected) m = Inr (cancel_attempts affected w (migratedAttempts m) m)"
| "replay_event byId (Plain (Task_cancelled_event task w reason)) m = Inr m"
| "replay_event byId (Plain (Handoff_recorded task old new w message)) m = Inr m"

fun replay_records :: "(jsstr \<Rightarrow> LegacyV1GraphAttempt option) \<Rightarrow> GraphRecord list \<Rightarrow> migration \<Rightarrow> graph_error + migration" where
  "replay_records byId [] m = Inr m"
| "replay_records byId (r # rs) m = ebind (replay_event byId (record_event r) m) (replay_records byId rs)"

fun check_final :: "migration \<Rightarrow> nat \<Rightarrow> LegacyV1GraphAttempt list \<Rightarrow> graph_error + unit" where
  "check_final m index [] = Inr ()"
| "check_final m index (a # as) =
     (if map_option att_id (at_index (migratedAttempts m) index) \<noteq> Some (legacy_id a)
      then legacyV1MigrationError ''attempt order does not match start records at index'' [Number (num_int (int index))]
      else if replayStatuses m (legacy_id a) \<noteq> Some (legacy_status a) \<or> replayCompletedAt m (legacy_id a) \<noteq> legacy_completedAt a
      then legacyV1MigrationError ''final state does not match its records'' [Name (legacy_id a)]
      else check_final m (Suc index) as)"

definition parse_legacy_state :: "JsonObject \<Rightarrow> graph_error + LegacyV1GraphState" where
  "parse_legacy_state source =
     ebind (required_number source ''maxParallelism'' ''graph snapshot'' ''maxParallelism'') (\<lambda>limit.
     ebind (required_array source ''agents'' parseGraphAgent) (\<lambda>ags.
     ebind (required_array source ''tasks'' parseGraphTask) (\<lambda>ts.
     ebind (required_array source ''attempts'' parseLegacyV1Attempt) (\<lambda>as.
     ebind (required_array source ''records'' parseGraphRecord) (\<lambda>rs.
     Inr \<lparr>legacy_maxParallelism = limit, legacy_agents = ags, legacy_tasks = ts, legacy_attempts = as, legacy_records = rs\<rparr>)))))"

definition migrateLegacyV1Graph :: "JsonObject \<Rightarrow> graph_error + GraphState" where
  "migrateLegacyV1Graph source =
     ebind (parse_legacy_state source) (\<lambda>legacy.
     ebind (legacy_table (\<lambda>_. None) (legacy_attempts legacy)) (\<lambda>byId.
     ebind (check_sequences 0 (legacy_records legacy)) (\<lambda>_.
     ebind (replay_records byId (legacy_records legacy) migration_start) (\<lambda>m.
     if length (migratedAttempts m) \<noteq> length (legacy_attempts legacy)
     then legacyV1MigrationError ''every attempt must have exactly one start record'' []
     else
     ebind (check_final m 0 (legacy_attempts legacy)) (\<lambda>_.
     Inr \<lparr>schemaVersion = GRAPH_SCHEMA_VERSION, maxParallelism = legacy_maxParallelism legacy, agents = legacy_agents legacy,
          tasks = legacy_tasks legacy, attempts = migratedAttempts m, records = legacy_records legacy\<rparr>)))))"

definition restoreGraph :: "jsstr \<Rightarrow> graph_error + GraphState" where
  "restoreGraph snapshot =
     (case json_parse snapshot of
        None \<Rightarrow> snapshot_error ''graph snapshot is not valid JSON'' []
      | Some parsed \<Rightarrow>
          ebind (parseObject parsed ''graph snapshot'') (\<lambda>source.
          ebind (required_number source ''schemaVersion'' ''graph snapshot'' ''schemaVersion'') (\<lambda>version.
          ebind (if version = num_int 1 then migrateLegacyV1Graph source else parseGraphState (TObj source)) (\<lambda>g.
          ebind (assertValidGraph g) (\<lambda>_. Inr g)))))"


section \<open>Writing a graph\<close>

text \<open>
  The object that a record of the model stands for: one member per field, none for an optional field that is absent. The keys of
  these objects are no array indices, so that members are printed in the order in which \<open>canonicalizeJsonValue\<close> adds them.
\<close>

definition optional_field :: "string \<Rightarrow> ('a \<Rightarrow> jtree) \<Rightarrow> 'a option \<Rightarrow> (string \<times> jtree) list" where
  "optional_field key f v = (case v of None \<Rightarrow> [] | Some x \<Rightarrow> [(key, f x)])"

abbreviation TNum :: "jsnum \<Rightarrow> jtree" where "TNum n \<equiv> TPrim (PNum n)"

fun task_status_text :: "TaskStatus \<Rightarrow> string" where
  "task_status_text Task_pending = ''pending''"
| "task_status_text Task_running = ''running''"
| "task_status_text Task_awaiting_review = ''awaiting-review''"
| "task_status_text Task_succeeded = ''succeeded''"
| "task_status_text Task_failed = ''failed''"
| "task_status_text Task_cancelled = ''cancelled''"

fun attempt_kind_text :: "AttemptKind \<Rightarrow> string" where
  "attempt_kind_text Work = ''work''"
| "attempt_kind_text Retry = ''retry''"
| "attempt_kind_text Fallback = ''fallback''"
| "attempt_kind_text Review = ''review''"

fun attempt_status_text :: "AttemptStatus \<Rightarrow> string" where
  "attempt_status_text Attempt_running = ''running''"
| "attempt_status_text Attempt_succeeded = ''succeeded''"
| "attempt_status_text Attempt_failed = ''failed''"
| "attempt_status_text Attempt_cancelled = ''cancelled''"

definition agent_value :: "GraphAgent \<Rightarrow> jtree" where
  "agent_value a =
     jobj ([(''id'', TStr (agent_id a)), (''label'', TStr (agent_label a))] @ optional_field ''parentAgentId'' TStr (parentAgentId a))"

definition task_value :: "GraphTask \<Rightarrow> jtree" where
  "task_value t =
     jobj ([(''id'', TStr (task_id t)), (''title'', TStr (task_title t)), (''ownerAgentId'', TStr (ownerAgentId t))] @
       optional_field ''parentTaskId'' TStr (parentTaskId t) @
       [(''dependsOn'', TArr (map TStr (dependsOn t))), (''priority'', TNum (task_priority t)),
        (''reviewRequired'', TBool (reviewRequired t)), (''status'', TStr (js (task_status_text (task_status t))))])"

definition attempt_value :: "GraphAttempt \<Rightarrow> jtree" where
  "attempt_value a =
     jobj ([(''id'', TStr (att_id a)), (''taskId'', TStr (att_taskId a)), (''agentId'', TStr (att_agentId a)),
        (''kind'', TStr (js (attempt_kind_text (att_kind a)))), (''generation'', TNum (generation a)),
        (''status'', TStr (js (attempt_status_text (att_status a)))), (''startedAt'', TNum (startedAt a))] @
       optional_field ''completedAt'' TNum (completedAt a) @ optional_field ''previousAttemptId'' TStr (previousAttemptId a) @
       optional_field ''supersedesAttemptId'' TStr (supersedesAttemptId a) @ optional_field ''reviewsAttemptId'' TStr (reviewsAttemptId a))"

fun event_value :: "RecordedGraphEvent \<Rightarrow> jtree" where
  "event_value (Plain (Work_started t a g w)) =
     jobj [(''type'', TStr (js ''work.started'')), (''taskId'', TStr t), (''attemptId'', TStr a), (''agentId'', TStr g), (''at'', TNum w)]"
| "event_value (Plain (Work_completed a out w)) =
     jobj [(''type'', TStr (js ''work.completed'')), (''attemptId'', TStr a),
       (''outcome'', TStr (js (case out of Work_ok \<Rightarrow> ''succeeded'' | Work_failed \<Rightarrow> ''failed''))), (''at'', TNum w)]"
| "event_value (Plain (Handoff_recorded t f g w m)) =
     jobj [(''type'', TStr (js ''handoff.recorded'')), (''taskId'', TStr t), (''fromAgentId'', TStr f), (''toAgentId'', TStr g),
       (''at'', TNum w), (''message'', TStr m)]"
| "event_value (Plain (Task_cancelled_event t w r)) =
     jobj [(''type'', TStr (js ''task.cancelled'')), (''taskId'', TStr t), (''at'', TNum w), (''reason'', TStr r)]"
| "event_value (Cancellation t w r ts) =
     jobj [(''type'', TStr (js ''task.cancelled'')), (''taskId'', TStr t), (''at'', TNum w), (''reason'', TStr r),
       (''affectedTaskIds'', TArr (map TStr ts))]"
| "event_value (Plain (Review_started t a g v w)) =
     jobj [(''type'', TStr (js ''review.started'')), (''taskId'', TStr t), (''attemptId'', TStr a), (''agentId'', TStr g),
       (''reviewsAttemptId'', TStr v), (''at'', TNum w)]"
| "event_value (Plain (Review_completed a approved w)) =
     jobj [(''type'', TStr (js ''review.completed'')), (''attemptId'', TStr a), (''approved'', TBool approved), (''at'', TNum w)]"
| "event_value (Plain (Retry_started t a g p w)) =
     jobj [(''type'', TStr (js ''retry.started'')), (''taskId'', TStr t), (''attemptId'', TStr a), (''agentId'', TStr g),
       (''retryOfAttemptId'', TStr p), (''at'', TNum w)]"
| "event_value (Plain (Fallback_started t a g p r w)) =
     jobj [(''type'', TStr (js ''fallback.started'')), (''taskId'', TStr t), (''attemptId'', TStr a), (''agentId'', TStr g),
       (''fallbackOfAttemptId'', TStr p), (''reason'', TStr r), (''at'', TNum w)]"

definition record_value :: "GraphRecord \<Rightarrow> jtree" where
  "record_value r = jobj [(''sequence'', TNum (sequence r)), (''event'', event_value (record_event r))]"

definition graph_value :: "GraphState \<Rightarrow> jtree" where
  "graph_value g =
     jobj [(''schemaVersion'', TNum (schemaVersion g)), (''maxParallelism'', TNum (maxParallelism g)),
       (''agents'', TArr (map agent_value (agents g))), (''tasks'', TArr (map task_value (tasks g))),
       (''attempts'', TArr (map attempt_value (attempts g))), (''records'', TArr (map record_value (records g)))]"

fun canonicalizeJsonValue :: "jtree \<Rightarrow> jtree" where
  "canonicalizeJsonValue (TArr ts) = TArr (map canonicalizeJsonValue ts)"
| "canonicalizeJsonValue (TPrim v) = TPrim v"
| "canonicalizeJsonValue (TObj ms) = TObj (sort_key fst (map (\<lambda>(k, t). (k, canonicalizeJsonValue t)) ms))"

definition serializeGraph :: "GraphState \<Rightarrow> graph_error + jsstr" where
  "serializeGraph g =
     ebind (assertValidGraph g) (\<lambda>_.
       case json_stringify (canonicalizeJsonValue (graph_value g)) of
         None \<Rightarrow> snapshot_error ''graph state is not JSON serializable'' []
       | Some serialized \<Rightarrow> Inr serialized)"


section \<open>Reading what was written\<close>

text \<open>The members of a canonical object, read by their names.\<close>

definition reads_as :: "JsonObject \<Rightarrow> (string \<times> jtree) list \<Rightarrow> bool" where
  "reads_as ms fs \<longleftrightarrow> (\<forall>k. map_of ms (js k) = map_option canonicalizeJsonValue (map_of fs k))"

lemma sort_key_distinct: "distinct (map fst ms) \<Longrightarrow> distinct (map fst (sort_key fst ms))"
  by (simp add: distinct_map)

lemma map_of_sort_key: "distinct (map fst ms) \<Longrightarrow> map_of (sort_key fst ms) = map_of ms"
  by (simp add: map_of_inject_set [OF sort_key_distinct])

lemma canonical_keys: "map fst (map (\<lambda>(k, t). (k, canonicalizeJsonValue t)) ms) = map fst ms"
  by (simp add: comp_def case_prod_unfold)

lemma canonical_object:
  assumes "distinct (map fst fs)"
  obtains ms where "canonicalizeJsonValue (jobj fs) = TObj ms" "reads_as ms fs"
proof -
  let ?ms = "map (\<lambda>(k, t). (k, canonicalizeJsonValue t)) (map (\<lambda>(k, t). (js k, t)) fs)"
  have "map fst (map (\<lambda>(k, t). (js k, t)) fs) = map js (map fst fs)" by (simp add: comp_def case_prod_unfold)
  then have "distinct (map fst ?ms)" unfolding canonical_keys using assms by (simp add: distinct_map inj_on_def)
  then have "map_of (sort_key fst ?ms) (js k) = map_option canonicalizeJsonValue (map_of fs k)" for k
    by (simp only: map_of_sort_key map_of_map comp_def map_of_js_fields)
  then show ?thesis using that [of "sort_key fst ?ms"] by (simp only: jobj_def canonicalizeJsonValue.simps reads_as_def) simp
qed

lemma reads_as_fields:
  assumes "reads_as ms fs"
  shows "hasOwn ms k \<longleftrightarrow> map_of fs k \<noteq> None"
    "map_of fs k = Some t \<Longrightarrow> field ms k = canonicalizeJsonValue t"
    "map_of fs k = Some t \<Longrightarrow> readRequired ms k owner = Inr (canonicalizeJsonValue t)"
    "map_of fs k = Some (TStr s) \<Longrightarrow> required_string ms k owner label = Inr s"
    "map_of fs k = Some (TNum n) \<Longrightarrow> isFinite n \<Longrightarrow> required_number ms k owner label = Inr n"
    "map_of fs k = Some (TBool b) \<Longrightarrow> required_boolean ms k owner label = Inr b"
    "map_of fs k = map_option TStr os \<Longrightarrow> parseOptionalString ms k owner = Inr os"
    "map_of fs k = map_option TNum on \<Longrightarrow> pred_option isFinite on \<Longrightarrow> parseOptionalFiniteNumber ms k owner = Inr on"
  using assms
  by (auto simp: reads_as_def hasOwn_def field_def readRequired_def required_string_def required_number_def required_boolean_def
      parseOptionalString_def parseOptionalFiniteNumber_def split: option.splits)

lemma map_throws_Inr: "(\<And>x. x \<in> set xs \<Longrightarrow> f (h x) = Inr (l x)) \<Longrightarrow> map_throws f (map h xs) = Inr (map l xs)"
  by (induction xs) simp_all

lemma parseStringArray_written: "parseStringArray (canonicalizeJsonValue (TArr (map TStr ss))) label = Inr ss"
proof -
  have "map canonicalizeJsonValue (map TStr ss) = map TStr ss" by simp
  then show ?thesis by (simp only: parseStringArray_def canonicalizeJsonValue.simps parseArray.simps ebind_simps) (simp add: map_throws_Inr [where l = "\<lambda>x. x", simplified])
qed

lemma required_array_written:
  assumes "reads_as ms fs" "map_of fs k = Some (TArr (map h xs))" "\<And>x. x \<in> set xs \<Longrightarrow> parse (canonicalizeJsonValue (h x)) = Inr (l x)"
  shows "required_array ms k parse = Inr (map l xs)"
  using map_throws_Inr [of xs parse "\<lambda>x. canonicalizeJsonValue (h x)" l] assms(3)
  by (simp add: required_array_def reads_as_fields(3) [OF assms(1,2)] comp_def)

lemmas required_array_same = required_array_written [where l = "\<lambda>x. x", simplified]

lemma map_of_optional: "map_of (optional_field key f v) k = (if k = key then map_option f v else None)"
  by (cases v) (simp_all add: optional_field_def)

lemma keys_optional: "fst ` set (optional_field key f v) \<subseteq> {key}" "distinct (map fst (optional_field key f v))"
  by (cases v; simp add: optional_field_def)+

lemma enum_texts:
  "parseTaskStatus (TStr (js (task_status_text ts))) = Inr ts" "parseAttemptKind (TStr (js (attempt_kind_text kd))) = Inr kd"
  "parseAttemptStatus (TStr (js (attempt_status_text st))) = Inr st"
  "parseOutcome (TStr (js (case out of Work_ok \<Rightarrow> ''succeeded'' | Work_failed \<Rightarrow> ''failed''))) = Inr out"
proof -
  show "parseTaskStatus (TStr (js (task_status_text ts))) = Inr ts" by (cases ts) (simp_all add: parseTaskStatus_def)
  show "parseAttemptKind (TStr (js (attempt_kind_text kd))) = Inr kd" by (cases kd) (simp_all add: parseAttemptKind_def)
  show "parseAttemptStatus (TStr (js (attempt_status_text st))) = Inr st" by (cases st) (simp_all add: parseAttemptStatus_def)
  show "parseOutcome (TStr (js (case out of Work_ok \<Rightarrow> ''succeeded'' | Work_failed \<Rightarrow> ''failed''))) = Inr out"
    by (cases out) (simp_all add: parseOutcome_def)
qed

lemma parseGraphAgent_written: "parseGraphAgent (canonicalizeJsonValue (agent_value a)) = Inr a"
proof -
  let ?fs = "[(''id'', TStr (agent_id a)), (''label'', TStr (agent_label a))] @ optional_field ''parentAgentId'' TStr (parentAgentId a)"
  have "distinct (map fst ?fs)" by (cases "parentAgentId a") (simp_all add: optional_field_def)
  then obtain ms where ms: "canonicalizeJsonValue (agent_value a) = TObj ms" "reads_as ms ?fs"
    unfolding agent_value_def by (rule canonical_object)
  note rd = reads_as_fields [OF ms(2)]
  show ?thesis
    unfolding ms(1) parseGraphAgent_def by (simp add: rd(4) rd(7) [where os = "parentAgentId a"] map_add_def map_of_optional)
qed

lemma parseGraphTask_written:
  assumes "isFinite (task_priority t)"
  shows "parseGraphTask (canonicalizeJsonValue (task_value t)) = Inr t"
proof -
  let ?fs = "[(''id'', TStr (task_id t)), (''title'', TStr (task_title t)), (''ownerAgentId'', TStr (ownerAgentId t))] @
       optional_field ''parentTaskId'' TStr (parentTaskId t) @
       [(''dependsOn'', TArr (map TStr (dependsOn t))), (''priority'', TNum (task_priority t)),
        (''reviewRequired'', TBool (reviewRequired t)), (''status'', TStr (js (task_status_text (task_status t))))]"
  have "distinct (map fst ?fs)" by (cases "parentTaskId t") (simp_all add: optional_field_def)
  then obtain ms where ms: "canonicalizeJsonValue (task_value t) = TObj ms" "reads_as ms ?fs"
    unfolding task_value_def by (rule canonical_object)
  note rd = reads_as_fields [OF ms(2)]
  have fs: "map_of ?fs ''id'' = Some (TStr (task_id t))" "map_of ?fs ''title'' = Some (TStr (task_title t))"
    "map_of ?fs ''ownerAgentId'' = Some (TStr (ownerAgentId t))" "map_of ?fs ''parentTaskId'' = map_option TStr (parentTaskId t)"
    "map_of ?fs ''dependsOn'' = Some (TArr (map TStr (dependsOn t)))" "map_of ?fs ''priority'' = Some (TNum (task_priority t))"
    "map_of ?fs ''reviewRequired'' = Some (TBool (reviewRequired t))"
    "map_of ?fs ''status'' = Some (TStr (js (task_status_text (task_status t))))"
    by (simp_all add: map_add_def map_of_optional split: option.split)
  show ?thesis
    unfolding ms(1) parseGraphTask_def parseObject.simps ebind_simps rd(4) [OF fs(1)] rd(4) [OF fs(2)] rd(4) [OF fs(3)] rd(7) [OF fs(4)]
      rd(3) [OF fs(5)] parseStringArray_written rd(5) [OF fs(6) assms] rd(6) [OF fs(7)] rd(3) [OF fs(8)] canonicalizeJsonValue.simps(2) enum_texts
    by simp
qed

lemma parseGraphAttempt_written:
  assumes "isFinite (generation a)" "isFinite (startedAt a)" "pred_option isFinite (completedAt a)"
  shows "parseGraphAttempt (canonicalizeJsonValue (attempt_value a)) = Inr a"
proof -
  let ?fs = "[(''id'', TStr (att_id a)), (''taskId'', TStr (att_taskId a)), (''agentId'', TStr (att_agentId a)),
        (''kind'', TStr (js (attempt_kind_text (att_kind a)))), (''generation'', TNum (generation a)),
        (''status'', TStr (js (attempt_status_text (att_status a)))), (''startedAt'', TNum (startedAt a))] @
       optional_field ''completedAt'' TNum (completedAt a) @ optional_field ''previousAttemptId'' TStr (previousAttemptId a) @
       optional_field ''supersedesAttemptId'' TStr (supersedesAttemptId a) @ optional_field ''reviewsAttemptId'' TStr (reviewsAttemptId a)"
  have "distinct (map fst ?fs)"
    by (cases "completedAt a"; cases "previousAttemptId a"; cases "supersedesAttemptId a"; cases "reviewsAttemptId a")
      (simp_all add: optional_field_def)
  then obtain ms where ms: "canonicalizeJsonValue (attempt_value a) = TObj ms" "reads_as ms ?fs"
    unfolding attempt_value_def by (rule canonical_object)
  note rd = reads_as_fields [OF ms(2)]
  have fs: "map_of ?fs ''id'' = Some (TStr (att_id a))" "map_of ?fs ''taskId'' = Some (TStr (att_taskId a))"
    "map_of ?fs ''agentId'' = Some (TStr (att_agentId a))" "map_of ?fs ''kind'' = Some (TStr (js (attempt_kind_text (att_kind a))))"
    "map_of ?fs ''generation'' = Some (TNum (generation a))" "map_of ?fs ''status'' = Some (TStr (js (attempt_status_text (att_status a))))"
    "map_of ?fs ''startedAt'' = Some (TNum (startedAt a))" "map_of ?fs ''completedAt'' = map_option TNum (completedAt a)"
    "map_of ?fs ''previousAttemptId'' = map_option TStr (previousAttemptId a)"
    "map_of ?fs ''supersedesAttemptId'' = map_option TStr (supersedesAttemptId a)"
    "map_of ?fs ''reviewsAttemptId'' = map_option TStr (reviewsAttemptId a)"
    by (simp_all add: map_add_def map_of_optional split: option.split)
  show ?thesis
    unfolding ms(1) parseGraphAttempt_def parseObject.simps ebind_simps rd(4) [OF fs(1)] rd(4) [OF fs(2)] rd(4) [OF fs(3)] rd(3) [OF fs(4)]
      rd(5) [OF fs(5) assms(1)] rd(3) [OF fs(6)] rd(5) [OF fs(7) assms(2)] rd(8) [OF fs(8) assms(3)] rd(7) [OF fs(9)] rd(7) [OF fs(10)]
      rd(7) [OF fs(11)] canonicalizeJsonValue.simps(2) enum_texts
    by simp
qed

lemma event_read:
  assumes "event_value e = jobj fs" "distinct (map fst fs)"
    "\<And>ms. reads_as ms fs \<Longrightarrow> parseRecordedGraphEvent (TObj ms) = Inr e"
  shows "parseRecordedGraphEvent (canonicalizeJsonValue (event_value e)) = Inr e"
  unfolding assms(1) by (rule canonical_object [OF assms(2)]) (simp add: assms(3))

lemma parseRecordedGraphEvent_written:
  assumes "isFinite (recorded_at e)"
  shows "parseRecordedGraphEvent (canonicalizeJsonValue (event_value e)) = Inr e"
proof -
  note defs = parseRecordedGraphEvent_def parse_work_started_def parse_work_completed_def parse_handoff_def parse_cancelled_def
    parse_review_started_def parse_review_completed_def parse_retry_started_def parse_fallback_started_def
  show ?thesis
  proof (cases e rule: event_value.cases)
    case (1 t a g w)
    show ?thesis unfolding 1
      by (rule event_read [OF event_value.simps(1)]) (use assms 1 in \<open>simp_all add: defs reads_as_fields\<close>)
  next
    case (2 a out w)
    show ?thesis unfolding 2
      by (rule event_read [OF event_value.simps(2)]) (use assms 2 in \<open>simp_all add: defs reads_as_fields enum_texts\<close>)
  next
    case (3 t f g w m)
    show ?thesis unfolding 3
      by (rule event_read [OF event_value.simps(3)]) (use assms 3 in \<open>simp_all add: defs reads_as_fields\<close>)
  next
    case (4 t w r)
    show ?thesis unfolding 4
      by (rule event_read [OF event_value.simps(4)]) (use assms 4 in \<open>simp_all add: defs reads_as_fields\<close>)
  next
    case (5 t w r ts)
    show ?thesis unfolding 5
    proof (rule event_read [OF event_value.simps(5)])
      fix ms assume ms: "reads_as ms [(''type'', TStr (js ''task.cancelled'')), (''taskId'', TStr t), (''at'', TNum w), (''reason'', TStr r),
        (''affectedTaskIds'', TArr (map TStr ts))]"
      have "field ms ''affectedTaskIds'' = canonicalizeJsonValue (TArr (map TStr ts))" by (rule reads_as_fields(2) [OF ms]) simp
      then show "parseRecordedGraphEvent (TObj ms) = Inr (Cancellation t w r ts)"
        using assms 5 ms by (simp add: defs reads_as_fields parseStringArray_written del: canonicalizeJsonValue.simps)
    qed simp
  next
    case (6 t a g v w)
    show ?thesis unfolding 6
      by (rule event_read [OF event_value.simps(6)]) (use assms 6 in \<open>simp_all add: defs reads_as_fields\<close>)
  next
    case (7 a approved w)
    show ?thesis unfolding 7
      by (rule event_read [OF event_value.simps(7)]) (use assms 7 in \<open>simp_all add: defs reads_as_fields\<close>)
  next
    case (8 t a g p w)
    show ?thesis unfolding 8
      by (rule event_read [OF event_value.simps(8)]) (use assms 8 in \<open>simp_all add: defs reads_as_fields\<close>)
  next
    case (9 t a g p r w)
    show ?thesis unfolding 9
      by (rule event_read [OF event_value.simps(9)]) (use assms 9 in \<open>simp_all add: defs reads_as_fields\<close>)
  qed
qed

lemma parseGraphRecord_written:
  assumes "isFinite (sequence r)" "isFinite (recorded_at (record_event r))"
  shows "parseGraphRecord (canonicalizeJsonValue (record_value r)) = Inr r"
proof -
  let ?fs = "[(''sequence'', TNum (sequence r)), (''event'', event_value (record_event r))]"
  have "distinct (map fst ?fs)" by simp
  then obtain ms where ms: "canonicalizeJsonValue (record_value r) = TObj ms" "reads_as ms ?fs"
    unfolding record_value_def by (rule canonical_object)
  note rd = reads_as_fields [OF ms(2)]
  show ?thesis
    unfolding ms(1) parseGraphRecord_def
    by (simp add: rd(5) assms(1) rd(3) parseRecordedGraphEvent_written [OF assms(2)])
qed

definition finite_numbers :: "GraphState \<Rightarrow> bool" where
  "finite_numbers g \<longleftrightarrow>
     isFinite (maxParallelism g) \<and> (\<forall>t \<in> set (tasks g). isFinite (task_priority t)) \<and>
     (\<forall>a \<in> set (attempts g). isFinite (generation a) \<and> isFinite (startedAt a) \<and> pred_option isFinite (completedAt a)) \<and>
     (\<forall>r \<in> set (records g). isFinite (sequence r) \<and> isFinite (recorded_at (record_event r)))"

lemma parseGraphState_written:
  assumes "schemaVersion g = GRAPH_SCHEMA_VERSION" "finite_numbers g"
  shows "\<exists>ms. canonicalizeJsonValue (graph_value g) = TObj ms \<and>
    required_number ms ''schemaVersion'' owner label = Inr GRAPH_SCHEMA_VERSION \<and> parseGraphState (TObj ms) = Inr g"
proof -
  let ?fs = "[(''schemaVersion'', TNum (schemaVersion g)), (''maxParallelism'', TNum (maxParallelism g)),
       (''agents'', TArr (map agent_value (agents g))), (''tasks'', TArr (map task_value (tasks g))),
       (''attempts'', TArr (map attempt_value (attempts g))), (''records'', TArr (map record_value (records g)))]"
  have "distinct (map fst ?fs)" by simp
  then obtain ms where ms: "canonicalizeJsonValue (graph_value g) = TObj ms" "reads_as ms ?fs"
    unfolding graph_value_def by (rule canonical_object)
  have fin: "isFinite (schemaVersion g)" "isFinite (maxParallelism g)" using assms by (simp_all add: finite_numbers_def GRAPH_SCHEMA_VERSION_def)
  have nums: "required_number ms ''schemaVersion'' ow lb = Inr GRAPH_SCHEMA_VERSION" "required_number ms ''maxParallelism'' ow lb = Inr (maxParallelism g)" for ow lb
    using reads_as_fields(5) [OF ms(2)] fin assms(1) by simp_all
  have arrays: "required_array ms ''agents'' parseGraphAgent = Inr (agents g)" "required_array ms ''tasks'' parseGraphTask = Inr (tasks g)"
    "required_array ms ''attempts'' parseGraphAttempt = Inr (attempts g)" "required_array ms ''records'' parseGraphRecord = Inr (records g)"
    using required_array_same [OF ms(2), where h = agent_value] required_array_same [OF ms(2), where h = task_value]
      required_array_same [OF ms(2), where h = attempt_value] required_array_same [OF ms(2), where h = record_value] assms(2)
    by (simp_all add: finite_numbers_def parseGraphAgent_written parseGraphTask_written parseGraphAttempt_written parseGraphRecord_written)
  show ?thesis using ms(1) nums by (simp add: parseGraphState_def arrays assms(1) [symmetric])
qed

lemma strict_canonical: "strict_tree t \<Longrightarrow> strict_tree (canonicalizeJsonValue t)"
proof (induction t rule: canonicalizeJsonValue.induct)
  case (1 ts)
  then show ?case by (auto simp: list_all_iff)
next
  case (3 ms)
  let ?ms = "map (\<lambda>(k, t). (k, canonicalizeJsonValue t)) ms"
  have "distinct (map fst ?ms)" using 3(2) unfolding canonical_keys by simp
  then have "distinct (map fst (sort_key fst ?ms))" by (rule sort_key_distinct)
  moreover have "list_all (\<lambda>(k, t). strict_tree t) (sort_key fst ?ms)" using 3 by (auto simp: list_all_iff)
  ultimately show ?case by simp
qed simp

lemma printable_canonical: "printable t \<Longrightarrow> printable (canonicalizeJsonValue t)"
  by (induction t rule: canonicalizeJsonValue.induct) (auto simp: list_all_iff)

lemma strict_graph_value: "strict_tree (graph_value g)"
proof -
  have strs: "list_all strict_tree (map TStr ss)" for ss by (simp add: list_all_iff)
  have "strict_tree (event_value e)" for e
    by (cases e rule: event_value.cases) (simp_all add: strict_jobj strs del: list.pred_map)
  moreover have "strict_tree (agent_value a)" for a
    by (cases "parentAgentId a") (simp_all add: agent_value_def strict_jobj optional_field_def)
  moreover have "strict_tree (task_value t)" for t
    by (cases "parentTaskId t") (simp_all add: task_value_def strict_jobj optional_field_def list_all_iff)
  moreover have "strict_tree (attempt_value a)" for a
    by (cases "completedAt a"; cases "previousAttemptId a"; cases "supersedesAttemptId a"; cases "reviewsAttemptId a")
      (simp_all add: attempt_value_def strict_jobj optional_field_def)
  ultimately show ?thesis by (simp add: graph_value_def record_value_def strict_jobj list_all_iff)
qed

end
