(* ===== verification/Graph_Events.thy ===== *)
theory Graph_Events
  imports Graph_Model Step_System
begin

text \<open>
  The events of the orchestration graph, \<open>applyEvent\<close> of \<open>src/app/src/domain/orchestrationGraph.ts\<close>, and the choice of
  the tasks to dispatch. An event is refused with an error or yields the next graph. \<open>localeCompare\<close>, by which
  tasks of equal priority are ordered, depends on the platform's locale and is the parameter \<open>lc\<close>.
\<close>


section \<open>Dispatch\<close>

definition dependenciesSucceeded :: "GraphTask \<Rightarrow> (jsstr \<Rightarrow> GraphTask option) \<Rightarrow> bool" where
  "dependenciesSucceeded t byId \<longleftrightarrow> list_all (\<lambda>d. map_option task_status (byId d) = Some Task_succeeded) (dependsOn t)"

definition parentAllowsWork :: "GraphTask \<Rightarrow> (jsstr \<Rightarrow> GraphTask option) \<Rightarrow> bool" where
  "parentAllowsWork t byId \<longleftrightarrow>
     (case parentTaskId t of
        None \<Rightarrow> True
      | Some p \<Rightarrow> map_option task_status (byId p) \<noteq> Some Task_cancelled \<and> map_option task_status (byId p) \<noteq> Some Task_failed)"

text \<open>The sign of a difference of two numbers; a difference that is \<open>NaN\<close> counts as none.\<close>

fun diff_sign :: "jsnum \<Rightarrow> jsnum \<Rightarrow> int" where
  "diff_sign (NumFin a) (NumFin b) = (if a < b then - 1 else if a > b then 1 else 0)"
| "diff_sign (NumInf pos) (NumFin b) = (if pos then 1 else - 1)"
| "diff_sign (NumFin a) (NumInf pos) = (if pos then - 1 else 1)"
| "diff_sign (NumInf pos) (NumInf pos') = (if pos = pos' then 0 else if pos then 1 else - 1)"
| "diff_sign _ _ = 0"

definition compareTaskIds :: "(jsstr \<Rightarrow> jsstr \<Rightarrow> int) \<Rightarrow> GraphTask \<Rightarrow> GraphTask \<Rightarrow> int" where
  "compareTaskIds lc l r = lc (task_id l) (task_id r)"

definition compareTasksForDispatch :: "(jsstr \<Rightarrow> jsstr \<Rightarrow> int) \<Rightarrow> GraphTask \<Rightarrow> GraphTask \<Rightarrow> int" where
  "compareTasksForDispatch lc l r =
     (let d = diff_sign (task_priority r) (task_priority l) in if d \<noteq> 0 then d else compareTaskIds lc l r)"

definition childTasks :: "(jsstr \<Rightarrow> jsstr \<Rightarrow> int) \<Rightarrow> GraphState \<Rightarrow> jsstr \<Rightarrow> GraphTask list" where
  "childTasks lc g p = js_sort (compareTaskIds lc) (filter (\<lambda>t. parentTaskId t = Some p) (tasks g))"

definition readyTasks :: "(jsstr \<Rightarrow> jsstr \<Rightarrow> int) \<Rightarrow> GraphState \<Rightarrow> GraphTask list" where
  "readyTasks lc g =
     js_sort (compareTasksForDispatch lc)
       (filter (\<lambda>t. parentAllowsWork t (taskTable g))
         (filter (\<lambda>t. dependenciesSucceeded t (taskTable g))
           (filter (\<lambda>t. task_status t = Task_pending) (tasks g))))"

text \<open>\<open>slice(0, Math.max(0, limit - active))\<close>.\<close>

fun take_capacity :: "jsnum \<Rightarrow> nat \<Rightarrow> 'a list \<Rightarrow> 'a list" where
  "take_capacity (NumFin r) active xs = take (nat \<lfloor>r - of_nat active\<rfloor>) xs"
| "take_capacity (NumInf pos) active xs = (if pos then xs else [])"
| "take_capacity NumNaN active xs = []"

definition dispatchableTasks :: "(jsstr \<Rightarrow> jsstr \<Rightarrow> int) \<Rightarrow> GraphState \<Rightarrow> GraphTask list" where
  "dispatchableTasks lc g = take_capacity (maxParallelism g) (activeAttemptCount g) (readyTasks lc g)"


section \<open>Assertions\<close>

definition taskById :: "GraphState \<Rightarrow> jsstr \<Rightarrow> graph_error + GraphTask" where
  "taskById g k =
     (case find (\<lambda>t. task_id t = k) (tasks g) of
        None \<Rightarrow> Inl (GraphTransitionError ''unknown task'' [k]) | Some t \<Rightarrow> Inr t)"

definition attemptById :: "GraphState \<Rightarrow> jsstr \<Rightarrow> graph_error + GraphAttempt" where
  "attemptById g k =
     (case find (\<lambda>a. att_id a = k) (attempts g) of
        None \<Rightarrow> Inl (GraphTransitionError ''unknown attempt'' [k]) | Some a \<Rightarrow> Inr a)"

definition require :: "bool \<Rightarrow> string \<Rightarrow> jsstr list \<Rightarrow> graph_error + unit" where
  "require ok txt ids = (if ok then Inr () else Inl (GraphTransitionError txt ids))"

definition assertAgentExists :: "GraphState \<Rightarrow> jsstr \<Rightarrow> graph_error + unit" where
  "assertAgentExists g k = require (list_ex (\<lambda>a. agent_id a = k) (agents g)) ''unknown agent'' [k]"

definition assertFiniteTimestamp :: "jsnum \<Rightarrow> graph_error + unit" where
  "assertFiniteTimestamp w = require (isFinite w) ''event timestamp must be finite'' []"

definition assertUnusedAttemptId :: "GraphState \<Rightarrow> jsstr \<Rightarrow> graph_error + unit" where
  "assertUnusedAttemptId g k = require (\<not> list_ex (\<lambda>a. att_id a = k) (attempts g)) ''attempt already exists'' [k]"

definition assertParallelismAvailable :: "GraphState \<Rightarrow> graph_error + unit" where
  "assertParallelismAvailable g =
     require (\<not> count_reaches (activeAttemptCount g) (maxParallelism g)) ''parallelism limit reached'' []"

definition assertFailedAttemptForTask :: "GraphState \<Rightarrow> jsstr \<Rightarrow> jsstr \<Rightarrow> graph_error + GraphAttempt" where
  "assertFailedAttemptForTask g k i =
     (let refused = Inl (GraphTransitionError ''must be a failed attempt on task'' [i, k]) in
      case find (\<lambda>a. att_id a = i) (attempts g) of
        None \<Rightarrow> refused
      | Some a \<Rightarrow> if att_taskId a \<noteq> k \<or> att_status a \<noteq> Attempt_failed then refused else Inr a)"

definition assertFailureIsOnCurrentWork :: "GraphState \<Rightarrow> jsstr \<Rightarrow> GraphAttempt \<Rightarrow> graph_error + GraphAttempt" where
  "assertFailureIsOnCurrentWork g k f =
     (let failedWork =
        (if att_kind f = Review
         then Option.bind (reviewsAttemptId f) (\<lambda>i. find (\<lambda>a. att_id a = i) (attempts g))
         else Some f);
        refused = Inl (GraphTransitionError ''failed attempt must belong to the current work attempt on task'' [k])
      in case failedWork of
           None \<Rightarrow> refused
         | Some w \<Rightarrow> if map_option att_id (currentWorkAttempt g k) \<noteq> Some (att_id w) then refused else Inr w)"

definition assertFailedTaskCanRestart :: "GraphState \<Rightarrow> GraphTask \<Rightarrow> jsstr option \<Rightarrow> graph_error + unit" where
  "assertFailedTaskCanRestart g t agent =
     ebind (require (task_status t = Task_failed) ''task does not have a failed attempt to restart'' [task_id t]) (\<lambda>_.
     ebind (require (agent = None \<or> agent = Some (ownerAgentId t)) ''agent does not own task'' [task_id t]) (\<lambda>_.
     require (dependenciesSucceeded t (taskTable g) \<and> parentAllowsWork t (taskTable g))
       ''task is not ready to restart'' [task_id t]))"


section \<open>Transitions\<close>

fun canonicalEvent :: "RecordedGraphEvent \<Rightarrow> RecordedGraphEvent" where
  "canonicalEvent (Plain (Work_started t a g w)) = Plain (Work_started t a g w)"
| "canonicalEvent (Plain (Work_completed a out w)) = Plain (Work_completed a out w)"
| "canonicalEvent (Plain (Handoff_recorded t f g w m)) = Plain (Handoff_recorded t f g w m)"
| "canonicalEvent (Plain (Task_cancelled_event t w r)) = Plain (Task_cancelled_event t w r)"
| "canonicalEvent (Cancellation t w r ts) = Cancellation t w r ts"
| "canonicalEvent (Plain (Review_started t a g v w)) = Plain (Review_started t a g v w)"
| "canonicalEvent (Plain (Review_completed a ok w)) = Plain (Review_completed a ok w)"
| "canonicalEvent (Plain (Retry_started t a g p w)) = Plain (Retry_started t a g p w)"
| "canonicalEvent (Plain (Fallback_started t a g p r w)) = Plain (Fallback_started t a g p r w)"

definition appendRecord :: "GraphState \<Rightarrow> RecordedGraphEvent \<Rightarrow> GraphState" where
  "appendRecord g e =
     g\<lparr>records := records g @ [\<lparr>sequence = num_int (int (length (records g)) + 1), record_event = canonicalEvent e\<rparr>]\<rparr>"

definition set_status :: "jsstr \<Rightarrow> TaskStatus \<Rightarrow> GraphTask list \<Rightarrow> GraphTask list" where
  "set_status k s = map (\<lambda>t. if task_id t = k then t\<lparr>task_status := s\<rparr> else t)"

definition end_attempt :: "jsstr \<Rightarrow> AttemptStatus \<Rightarrow> jsnum \<Rightarrow> GraphAttempt list \<Rightarrow> GraphAttempt list" where
  "end_attempt k s w = map (\<lambda>a. if att_id a = k then a\<lparr>att_status := s, completedAt := Some w\<rparr> else a)"

definition work_attempt ::
  "jsstr \<Rightarrow> jsstr \<Rightarrow> jsstr \<Rightarrow> jsnum \<Rightarrow> AttemptKind \<Rightarrow> jsstr option \<Rightarrow> GraphAttempt option \<Rightarrow> GraphAttempt" where
  "work_attempt k i agent w kind previous older =
     \<lparr>att_id = i, att_taskId = k, att_agentId = agent, att_kind = kind,
      generation = (case older of None \<Rightarrow> num_int 1 | Some s \<Rightarrow> num_succ (generation s)),
      att_status = Attempt_running, startedAt = w, completedAt = None, previousAttemptId = previous,
      supersedesAttemptId = map_option att_id older, reviewsAttemptId = None\<rparr>"

definition startWorkAttempt ::
  "GraphState \<Rightarrow> GraphEvent \<Rightarrow> jsstr \<Rightarrow> jsstr \<Rightarrow> jsstr \<Rightarrow> jsnum \<Rightarrow> AttemptKind \<Rightarrow> jsstr option \<Rightarrow> GraphAttempt option \<Rightarrow>
     graph_error + GraphState" where
  "startWorkAttempt g e k i agent w kind previous older =
     ebind (assertParallelismAvailable g) (\<lambda>_.
       Inr (appendRecord (g\<lparr>tasks := set_status k Task_running (tasks g),
         attempts := attempts g @ [work_attempt k i agent w kind previous older]\<rparr>) (Plain e)))"

definition startWork :: "(jsstr \<Rightarrow> jsstr \<Rightarrow> int) \<Rightarrow> GraphState \<Rightarrow> jsstr \<Rightarrow> jsstr \<Rightarrow> jsstr \<Rightarrow> jsnum \<Rightarrow> graph_error + GraphState" where
  "startWork lc g k i agent w =
     ebind (taskById g k) (\<lambda>t.
     ebind (assertAgentExists g agent) (\<lambda>_.
     ebind (require (ownerAgentId t = agent) ''agent does not own task'' [agent, task_id t]) (\<lambda>_.
     ebind (require (task_status t = Task_pending) ''task is not pending'' [task_id t]) (\<lambda>_.
     ebind (require (list_ex (\<lambda>c. task_id c = task_id t) (readyTasks lc g)) ''task is not ready'' [task_id t]) (\<lambda>_.
     ebind (assertParallelismAvailable g) (\<lambda>_.
     ebind (assertUnusedAttemptId g i) (\<lambda>_.
     startWorkAttempt g (Work_started k i agent w) k i agent w Work None None)))))))"

definition completeWork :: "GraphState \<Rightarrow> jsstr \<Rightarrow> work_outcome \<Rightarrow> jsnum \<Rightarrow> graph_error + GraphState" where
  "completeWork g i out w =
     ebind (attemptById g i) (\<lambda>a.
     ebind (require (\<not> (att_status a \<noteq> Attempt_running \<or> att_kind a = Review)) ''attempt cannot complete as work'' [att_id a]) (\<lambda>_.
     ebind (taskById g (att_taskId a)) (\<lambda>t.
       let next_status = (if out = Work_failed then Task_failed else if reviewRequired t then Task_awaiting_review else Task_succeeded)
       in Inr (appendRecord (g\<lparr>tasks := set_status (task_id t) next_status (tasks g),
            attempts := end_attempt (att_id a) (if out = Work_failed then Attempt_failed else Attempt_succeeded) w (attempts g)\<rparr>)
            (Plain (Work_completed i out w))))))"

definition recordHandoff :: "GraphState \<Rightarrow> jsstr \<Rightarrow> jsstr \<Rightarrow> jsstr \<Rightarrow> jsnum \<Rightarrow> jsstr \<Rightarrow> graph_error + GraphState" where
  "recordHandoff g k old new w message =
     ebind (taskById g k) (\<lambda>t.
     ebind (assertAgentExists g old) (\<lambda>_.
     ebind (assertAgentExists g new) (\<lambda>_.
     ebind (require (task_status t = Task_pending) ''task cannot be handed off after it starts'' [task_id t]) (\<lambda>_.
     ebind (require (ownerAgentId t = old) ''agent does not own task'' [old, task_id t]) (\<lambda>_.
     ebind (require (js_trim message \<noteq> []) ''handoff message must not be empty'' []) (\<lambda>_.
       Inr (appendRecord (g\<lparr>tasks := map (\<lambda>c. if task_id c = task_id t then c\<lparr>ownerAgentId := new\<rparr> else c) (tasks g)\<rparr>)
         (Plain (Handoff_recorded k old new w message)))))))))"

definition startReview :: "GraphState \<Rightarrow> jsstr \<Rightarrow> jsstr \<Rightarrow> jsstr \<Rightarrow> jsstr \<Rightarrow> jsnum \<Rightarrow> graph_error + GraphState" where
  "startReview g k i agent v w =
     ebind (taskById g k) (\<lambda>t.
     ebind (attemptById g v) (\<lambda>r.
     ebind (assertAgentExists g agent) (\<lambda>_.
     ebind (assertUnusedAttemptId g i) (\<lambda>_.
     ebind (assertParallelismAvailable g) (\<lambda>_.
     ebind (require (\<not> (\<not> reviewRequired t \<or> task_status t \<noteq> Task_awaiting_review)) ''task is not awaiting review'' [task_id t]) (\<lambda>_.
     ebind (require (\<not> (att_taskId r \<noteq> task_id t \<or> att_kind r = Review \<or> att_status r \<noteq> Attempt_succeeded))
       ''review must reference a succeeded work attempt on task'' [task_id t]) (\<lambda>_.
     ebind (require (map_option att_id (currentWorkAttempt g (task_id t)) = Some (att_id r))
       ''review must reference the current work attempt on task'' [task_id t]) (\<lambda>_.
     ebind (require (att_agentId r \<noteq> agent) ''review must be performed by a different agent'' []) (\<lambda>_.
     ebind (require (\<not> list_ex (\<lambda>a. att_taskId a = task_id t \<and> att_kind a = Review \<and> att_status a = Attempt_running) (attempts g))
       ''task already has a running review'' [task_id t]) (\<lambda>_.
       Inr (appendRecord (g\<lparr>attempts := attempts g @
         [\<lparr>att_id = i, att_taskId = task_id t, att_agentId = agent, att_kind = Review, generation = generation r,
           att_status = Attempt_running, startedAt = w, completedAt = None, previousAttemptId = None,
           supersedesAttemptId = None, reviewsAttemptId = Some (att_id r)\<rparr>]\<rparr>)
         (Plain (Review_started k i agent v w)))))))))))))"

definition completeReview :: "GraphState \<Rightarrow> jsstr \<Rightarrow> bool \<Rightarrow> jsnum \<Rightarrow> graph_error + GraphState" where
  "completeReview g i approved w =
     ebind (attemptById g i) (\<lambda>a.
     ebind (require (\<not> (att_kind a \<noteq> Review \<or> att_status a \<noteq> Attempt_running)) ''attempt cannot complete as a review'' [att_id a]) (\<lambda>_.
     ebind (taskById g (att_taskId a)) (\<lambda>t.
     ebind (require (task_status t = Task_awaiting_review) ''task is not awaiting review'' [task_id t]) (\<lambda>_.
       Inr (appendRecord (g\<lparr>tasks := set_status (task_id t) (if approved then Task_succeeded else Task_failed) (tasks g),
         attempts := end_attempt (att_id a) (if approved then Attempt_succeeded else Attempt_failed) w (attempts g)\<rparr>)
         (Plain (Review_completed i approved w)))))))"

definition startRetry :: "GraphState \<Rightarrow> jsstr \<Rightarrow> jsstr \<Rightarrow> jsstr \<Rightarrow> jsstr \<Rightarrow> jsnum \<Rightarrow> graph_error + GraphState" where
  "startRetry g k i agent p w =
     ebind (taskById g k) (\<lambda>t.
     ebind (assertAgentExists g agent) (\<lambda>_.
     ebind (assertUnusedAttemptId g i) (\<lambda>_.
     ebind (assertFailedAttemptForTask g (task_id t) p) (\<lambda>f.
     ebind (assertFailureIsOnCurrentWork g (task_id t) f) (\<lambda>s.
     ebind (assertFailedTaskCanRestart g t (Some agent)) (\<lambda>_.
     startWorkAttempt g (Retry_started k i agent p w) k i agent w Retry (Some p) (Some s)))))))"

definition startFallback :: "GraphState \<Rightarrow> jsstr \<Rightarrow> jsstr \<Rightarrow> jsstr \<Rightarrow> jsstr \<Rightarrow> jsstr \<Rightarrow> jsnum \<Rightarrow> graph_error + GraphState" where
  "startFallback g k i agent p reason w =
     ebind (taskById g k) (\<lambda>t.
     ebind (assertAgentExists g agent) (\<lambda>_.
     ebind (assertUnusedAttemptId g i) (\<lambda>_.
     ebind (assertFailedAttemptForTask g (task_id t) p) (\<lambda>f.
     ebind (assertFailureIsOnCurrentWork g (task_id t) f) (\<lambda>s.
     ebind (require (js_trim reason \<noteq> []) ''fallback reason must not be empty'' []) (\<lambda>_.
     ebind (assertFailedTaskCanRestart g t None) (\<lambda>_.
     startWorkAttempt g (Fallback_started k i agent p reason w) k i agent w Fallback (Some p) (Some s))))))))"

definition cancelTaskTree :: "GraphState \<Rightarrow> jsstr \<Rightarrow> jsnum \<Rightarrow> jsstr \<Rightarrow> graph_error + GraphState" where
  "cancelTaskTree g k w reason =
     ebind (taskById g k) (\<lambda>_.
       let affected = cancellationTaskIds g k in
       Inr (appendRecord
         (g\<lparr>tasks := map (\<lambda>t. if task_id t \<in> set affected \<and> task_status t \<noteq> Task_succeeded then t\<lparr>task_status := Task_cancelled\<rparr> else t) (tasks g),
            attempts := map (\<lambda>a. if att_taskId a \<in> set affected \<and> att_status a = Attempt_running
              then a\<lparr>att_status := Attempt_cancelled, completedAt := Some w\<rparr> else a) (attempts g)\<rparr>)
         (Cancellation k w reason affected)))"

fun transition_event :: "(jsstr \<Rightarrow> jsstr \<Rightarrow> int) \<Rightarrow> GraphState \<Rightarrow> GraphEvent \<Rightarrow> graph_error + GraphState" where
  "transition_event lc g (Work_started k i agent w) = startWork lc g k i agent w"
| "transition_event lc g (Work_completed i out w) = completeWork g i out w"
| "transition_event lc g (Handoff_recorded k old new w m) = recordHandoff g k old new w m"
| "transition_event lc g (Task_cancelled_event k w r) = cancelTaskTree g k w r"
| "transition_event lc g (Review_started k i agent v w) = startReview g k i agent v w"
| "transition_event lc g (Review_completed i ok w) = completeReview g i ok w"
| "transition_event lc g (Retry_started k i agent p w) = startRetry g k i agent p w"
| "transition_event lc g (Fallback_started k i agent p r w) = startFallback g k i agent p r w"

definition applyEvent :: "(jsstr \<Rightarrow> jsstr \<Rightarrow> int) \<Rightarrow> GraphState \<Rightarrow> GraphEvent \<Rightarrow> graph_error + GraphState" where
  "applyEvent lc g e =
     ebind (assertValidGraph g) (\<lambda>_.
     ebind (assertFiniteTimestamp (event_at e)) (\<lambda>_. transition_event lc g e))"

end
