(* ===== verification/Graph_Invariant.thy ===== *)
theory Graph_Invariant
  imports Graph_Events Graph_Valid
begin

text \<open>
  Every event keeps the invariant of the graph, which adds to validity what \<open>validateGraph\<close> does not see: a pending
  task has no attempts, an approved review belongs to a task that has succeeded, and a task has at most one
  running attempt.

  Every event changes the graph in one way: some tasks get a new owner or status, some running attempts end, at
  most one attempt is added, and the event is recorded (\<open>change\<close>). The lemmas below say when such a change keeps
  each part of the invariant.
\<close>

definition pending_fresh :: "GraphState \<Rightarrow> bool" where
  "pending_fresh g \<longleftrightarrow>
     (\<forall>t \<in> set (tasks g). task_status t = Task_pending \<longrightarrow> (\<forall>a \<in> set (attempts g). att_taskId a \<noteq> task_id t))"

definition approvals_final :: "GraphState \<Rightarrow> bool" where
  "approvals_final g \<longleftrightarrow>
     (\<forall>a \<in> set (attempts g). \<forall>t \<in> set (tasks g). att_kind a = Review \<and> att_status a = Attempt_succeeded \<and> task_id t = att_taskId a \<longrightarrow>
        task_status t = Task_succeeded)"

definition running_single :: "GraphState \<Rightarrow> bool" where
  "running_single g \<longleftrightarrow>
     (\<forall>a \<in> set (attempts g). \<forall>b \<in> set (attempts g).
        att_status a = Attempt_running \<and> att_status b = Attempt_running \<and> att_taskId a = att_taskId b \<longrightarrow> a = b)"

definition graph_inv :: "GraphState \<Rightarrow> bool" where
  "graph_inv g \<longleftrightarrow> valid_graph g \<and> pending_fresh g \<and> approvals_final g \<and> running_single g"


section \<open>What validity gives\<close>

lemma valid_graphD:
  assumes "valid_graph g"
  shows "distinct (map task_id (tasks g))" "distinct (map att_id (attempts g))"
    "a \<in> set (attempts g) \<Longrightarrow> attempt_sound g a" "\<forall>a \<in> set (attempts g). lineage_ok g a" "chain_ok (work_of g k)"
    "t \<in> set (tasks g) \<Longrightarrow> task_ok g t" "t \<in> set (tasks g) \<Longrightarrow> outcome_ok g t" "structure_ok g" "records_ok g" "attempts_ok g"
  using assms by (auto simp: valid_graph_def structure_ok_def attempts_ok_def attempt_sound_def)

lemma same_task: "valid_graph g \<Longrightarrow> t \<in> set (tasks g) \<Longrightarrow> u \<in> set (tasks g) \<Longrightarrow> task_id t = task_id u \<Longrightarrow> t = u"
  using valid_graphD(1) by (metis distinct_map inj_on_eq_iff)

lemma same_attempt: "valid_graph g \<Longrightarrow> a \<in> set (attempts g) \<Longrightarrow> b \<in> set (attempts g) \<Longrightarrow> att_id a = att_id b \<Longrightarrow> a = b"
  using valid_graphD(2) by (metis distinct_map inj_on_eq_iff)

lemma current_iff:
  assumes "valid_graph g"
  shows "currentWorkAttempt g k = Some c \<longleftrightarrow> c \<in> set (work_of g k) \<and> generation c = num_int (int (length (work_of g k)))"
  by (rule currentWorkAttempt_iff [OF valid_graphD(5) [OF assms] linked_work(1) [OF valid_graphD(4) [OF assms]]
        work_of_distinct [OF valid_graphD(2) [OF assms]]])

lemma current_mem: "currentWorkAttempt g k = Some c \<Longrightarrow> c \<in> set (attempts g) \<and> att_taskId c = k \<and> att_kind c \<noteq> Review"
  unfolding currentWorkAttempt_work by (drule find_Some_mem) (auto simp: set_work_of)

lemma attempt_task:
  assumes "valid_graph g" "a \<in> set (attempts g)"
  obtains t where "t \<in> set (tasks g)" "task_id t = att_taskId a"
  using valid_graphD(3) [OF assms] by (auto simp: attempt_sound_def attempt_data_ok_def)

lemma running_expected:
  assumes "valid_graph g" "a \<in> set (attempts g)" "att_status a = Attempt_running" "t \<in> set (tasks g)" "task_id t = att_taskId a"
  shows "task_status t = expected_status a"
  using valid_graphD(3) [OF assms(1,2)] assms(3-5) by (auto simp: attempt_sound_def status_ok_def)

text \<open>A superseded attempt has ended, so running work is current.\<close>

lemma superseded_ended:
  assumes v: "valid_graph g" and a: "a \<in> set (attempts g)" "restarts a p f" and p: "p \<in> set (attempts g)" "f \<in> set (attempts g)"
  shows "att_status p \<noteq> Attempt_running"
proof (cases "att_kind f = Review")
  case True
  have "lineage_ok g f" using valid_graphD(4) [OF v] p(2) by blast
  then obtain r where r: "r \<in> set (attempts g)" "reviews f r" using True by (auto simp: lineage_ok_def)
  then have "r = p" using same_attempt [OF v r(1) p(1)] a(2) True by (auto simp: reviews_def restarts_def)
  then show ?thesis using r(2) by (simp add: reviews_def)
next
  case False
  then show ?thesis using a(2) by (auto simp: restarts_def)
qed

lemma running_current:
  assumes v: "valid_graph g" and x: "x \<in> set (attempts g)" "att_status x = Attempt_running" "att_kind x \<noteq> Review"
  shows "currentWorkAttempt g (att_taskId x) = Some x"
proof -
  let ?ws = "work_of g (att_taskId x)"
  have mem: "x \<in> set ?ws" using x by (simp add: set_work_of)
  have "att_id x \<notin> set (superseded ?ws)"
  proof
    assume "att_id x \<in> set (superseded ?ws)"
    then obtain a where a: "a \<in> set (attempts g)" "att_kind a \<noteq> Review" "supersedesAttemptId a = Some (att_id x)"
      by (auto simp: superseded_iff set_work_of)
    have "lineage_ok g a" using valid_graphD(4) [OF v] a(1) by blast
    then obtain p f where p: "p \<in> set (attempts g)" "f \<in> set (attempts g)" "restarts a p f"
      using a(2,3) by (auto simp: lineage_ok_def split: AttemptKind.splits)
    then have "p = x" using a(3) same_attempt [OF v p(1) x(1)] by (auto simp: restarts_def)
    then show False using superseded_ended [OF v a(1) p(3,1,2)] x(2) by simp
  qed
  then have "generation x = num_int (int (length ?ws))"
    using chain_current [OF valid_graphD(5) [OF v] linked_work(1) [OF valid_graphD(4) [OF v]] work_of_distinct [OF valid_graphD(2) [OF v]] mem]
    by blast
  with mem show ?thesis unfolding current_iff [OF v] by blast
qed


section \<open>Changes\<close>

definition change :: "GraphState \<Rightarrow> (GraphTask \<Rightarrow> GraphTask) \<Rightarrow> (GraphAttempt \<Rightarrow> GraphAttempt) \<Rightarrow> GraphAttempt list \<Rightarrow> RecordedGraphEvent \<Rightarrow> GraphState" where
  "change g ft fa new e = appendRecord (g\<lparr>tasks := map ft (tasks g), attempts := map fa (attempts g) @ new\<rparr>) e"

lemma canonicalEvent_id [simp]: "canonicalEvent e = e"
  by (cases e rule: canonicalEvent.cases) simp_all

lemma change_fields [simp]:
  "tasks (change g ft fa new e) = map ft (tasks g)" "attempts (change g ft fa new e) = map fa (attempts g) @ new"
  "agents (change g ft fa new e) = agents g" "maxParallelism (change g ft fa new e) = maxParallelism g"
  "schemaVersion (change g ft fa new e) = schemaVersion g"
  "records (change g ft fa new e) = records g @ [\<lparr>sequence = num_int (int (length (records g)) + 1), record_event = e\<rparr>]"
  by (simp_all add: change_def appendRecord_def)

text \<open>A task keeps all but its owner and its status; an attempt keeps everything, or ends.\<close>

definition kept_task :: "GraphTask \<Rightarrow> GraphTask \<Rightarrow> bool" where
  "kept_task t t' \<longleftrightarrow> (\<exists>owner s. t' = t\<lparr>ownerAgentId := owner, task_status := s\<rparr>)"

lemma kept_task_fields:
  "kept_task t t' \<Longrightarrow> task_id t' = task_id t \<and> task_title t' = task_title t \<and> parentTaskId t' = parentTaskId t \<and>
     dependsOn t' = dependsOn t \<and> task_priority t' = task_priority t \<and> reviewRequired t' = reviewRequired t"
  by (auto simp: kept_task_def)

definition evolves :: "GraphAttempt \<Rightarrow> GraphAttempt \<Rightarrow> bool" where
  "evolves a a' \<longleftrightarrow>
     a' = a \<or> att_status a = Attempt_running \<and>
       (\<exists>s w. s \<noteq> Attempt_running \<and> isFinite w \<and> a' = a\<lparr>att_status := s, completedAt := Some w\<rparr>)"

lemma evolves_fields:
  "evolves a a' \<Longrightarrow> att_id a' = att_id a \<and> att_taskId a' = att_taskId a \<and> att_agentId a' = att_agentId a \<and> att_kind a' = att_kind a \<and>
     generation a' = generation a \<and> startedAt a' = startedAt a \<and> previousAttemptId a' = previousAttemptId a \<and>
     supersedesAttemptId a' = supersedesAttemptId a \<and> reviewsAttemptId a' = reviewsAttemptId a"
  by (auto simp: evolves_def)

lemma evolves_ended: "evolves a a' \<Longrightarrow> att_status a \<noteq> Attempt_running \<Longrightarrow> a' = a"
  by (auto simp: evolves_def)

lemma evolves_running: "evolves a a' \<Longrightarrow> att_status a' = Attempt_running \<Longrightarrow> a' = a"
  by (auto simp: evolves_def)

definition gentle :: "GraphState \<Rightarrow> (GraphTask \<Rightarrow> GraphTask) \<Rightarrow> (GraphAttempt \<Rightarrow> GraphAttempt) \<Rightarrow> bool" where
  "gentle g ft fa \<longleftrightarrow>
     (\<forall>t \<in> set (tasks g). kept_task t (ft t) \<and> ownerAgentId (ft t) \<in> agent_ids g) \<and> (\<forall>a \<in> set (attempts g). evolves a (fa a))"

lemma gentleD:
  assumes "gentle g ft fa"
  shows "t \<in> set (tasks g) \<Longrightarrow> task_id (ft t) = task_id t" "t \<in> set (tasks g) \<Longrightarrow> parentTaskId (ft t) = parentTaskId t"
    "t \<in> set (tasks g) \<Longrightarrow> dependsOn (ft t) = dependsOn t" "t \<in> set (tasks g) \<Longrightarrow> reviewRequired (ft t) = reviewRequired t"
    "a \<in> set (attempts g) \<Longrightarrow> evolves a (fa a)" "a \<in> set (attempts g) \<Longrightarrow> att_id (fa a) = att_id a"
    "a \<in> set (attempts g) \<Longrightarrow> att_taskId (fa a) = att_taskId a" "a \<in> set (attempts g) \<Longrightarrow> att_kind (fa a) = att_kind a"
    "a \<in> set (attempts g) \<Longrightarrow> generation (fa a) = generation a"
  using assms kept_task_fields evolves_fields by (auto simp: gentle_def)

lemma change_task_ids: "gentle g ft fa \<Longrightarrow> map task_id (map ft (tasks g)) = map task_id (tasks g)"
  by (simp add: gentleD)

lemma change_attempt_ids: "gentle g ft fa \<Longrightarrow> map att_id (map fa (attempts g)) = map att_id (attempts g)"
  by (simp add: gentleD)

lemma change_structure:
  assumes g: "gentle g ft fa" and s: "structure_ok g"
  shows "structure_ok (change g ft fa new e)"
proof -
  have ids: "task_id ` ft ` set (tasks g) = task_ids g" using change_task_ids [OF g] by (metis list.set_map)
  have par: "map (\<lambda>t. (task_id t, parentTaskId t)) (map ft (tasks g)) = map (\<lambda>t. (task_id t, parentTaskId t)) (tasks g)"
    by (simp add: gentleD [OF g])
  have dep: "dependency_relation (map ft (tasks g)) = dependency_relation (tasks g)"
    unfolding dependency_relation_def using gentleD [OF g] by (auto simp: ids image_iff) (metis imageI)+
  have "task_ok (change g ft fa new e) (ft t)" if "t \<in> set (tasks g)" for t
  proof -
    have k: "kept_task t (ft t)" "ownerAgentId (ft t) \<in> agent_ids g" and ok: "task_ok g t"
      using g s that by (auto simp: gentle_def structure_ok_def)
    then show ?thesis using kept_task_fields [OF k(1)] by (simp add: task_ok_def ids)
  qed
  moreover have "agent_ok (change g ft fa new e) a \<longleftrightarrow> agent_ok g a" for a by (simp add: agent_ok_def)
  ultimately show ?thesis
    using s unfolding structure_ok_def change_fields par dep change_task_ids [OF g] by auto
qed


subsection \<open>Records\<close>

lemma closure_pass_map:
  assumes "\<And>t. t \<in> set ts \<Longrightarrow> task_id (ft t) = task_id t \<and> parentTaskId (ft t) = parentTaskId t \<and> dependsOn (ft t) = dependsOn t"
  shows "closure_pass (map ft ts) found = closure_pass ts found"
  using assms by (induction ts arbitrary: found) (simp_all add: joins_def)

lemma closure_loop_map:
  assumes "\<And>t. t \<in> set ts \<Longrightarrow> task_id (ft t) = task_id t \<and> parentTaskId (ft t) = parentTaskId t \<and> dependsOn (ft t) = dependsOn t"
  shows "closure_loop (map ft ts) found = closure_loop ts found"
  using assms
proof (induction ts found rule: closure_loop.induct)
  case (1 ts found)
  then show ?case
    using closure_pass_map [of ts ft found]
    by (subst (1 2) closure_loop.simps) (simp add: Let_def)
qed

lemma change_closure: "gentle g ft fa \<Longrightarrow> cancellationTaskIds (change g ft fa new e) k = cancellationTaskIds g k"
  by (simp add: cancellationTaskIds_def closure_loop_map gentleD)

lemma change_task_id_set: "gentle g ft fa \<Longrightarrow> task_ids (change g ft fa new e) = task_ids g"
  using change_task_ids by (metis change_fields(1) list.set_map)

lemma event_ok_change:
  assumes g: "gentle g ft fa" and e: "event_ok g ev"
  shows "event_ok (change g ft fa new e) ev"
proof -
  let ?g' = "change g ft fa new e"
  note ids = change_task_id_set [OF g]
  have keep: "has_attempt ?g' i P" if a: "has_attempt g i P" and stable: "\<And>a. evolves a (fa a) \<Longrightarrow> P (fa a) = P a" for i P
  proof -
    obtain a where a: "a \<in> set (attempts g)" "att_id a = i" "P a" using a by blast
    then have "P (fa a)" "att_id (fa a) = i" using stable gentleD(5,6) [OF g a(1)] by simp_all
    then show ?thesis using a(1) by auto
  qed
  show ?thesis
  proof (cases ev)
    case (Plain x)
    show ?thesis using e unfolding Plain
      by (cases x) (auto simp only: event_ok.simps ids change_fields(3) evolves_fields intro!: keep)
  next
    case (Cancellation t w r ts)
    then show ?thesis using e by (simp only: event_ok.simps ids change_closure [OF g] simp_thms)
  qed
qed

lemma change_records:
  assumes g: "gentle g ft fa" and r: "records_ok g" and e: "isFinite (recorded_at e)" "event_ok (change g ft fa new e) e"
    and n: "map att_id new = (case started_attempt e of Some i \<Rightarrow> [i] | None \<Rightarrow> [])"
  shows "records_ok (change g ft fa new e)"
proof -
  have "started_ids (records (change g ft fa new e)) = started_ids (records g) @ (case started_attempt e of Some i \<Rightarrow> [i] | None \<Rightarrow> [])"
    by (simp add: List.map_filter_def split: option.split)
  also have "\<dots> = map att_id (attempts (change g ft fa new e))"
    using r n change_attempt_ids [OF g] by (simp add: records_ok_def)
  finally have 1: "started_ids (records (change g ft fa new e)) = map att_id (attempts (change g ft fa new e))" .
  have "record_ok (change g ft fa new e) i (records (change g ft fa new e) ! i)" if "i < length (records (change g ft fa new e))" for i
  proof (cases "i < length (records g)")
    case True
    then have "record_ok g i (records g ! i)" using r by (simp add: records_ok_def)
    then show ?thesis using True event_ok_change [OF g] by (simp add: record_ok_def nth_append)
  next
    case False
    then have "i = length (records g)" using that by simp
    then show ?thesis using e by (simp add: record_ok_def nth_append)
  qed
  with 1 show ?thesis unfolding records_ok_def by blast
qed


subsection \<open>Attempts\<close>

lemma change_data:
  assumes g: "gentle g ft fa" and a: "a \<in> set (attempts g)" "attempt_data_ok g a"
  shows "attempt_data_ok (change g ft fa new e) (fa a)"
proof -
  have ev: "evolves a (fa a)" using gentleD(5) [OF g a(1)] .
  then show ?thesis using a(2) evolves_fields [OF ev] change_task_id_set [OF g]
    by (auto simp: attempt_data_ok_def evolves_def)
qed

lemma change_lineage:
  assumes g: "gentle g ft fa" and a: "a \<in> set (attempts g)" "lineage_ok g a"
  shows "lineage_ok (change g ft fa new e) (fa a)"
proof -
  have ev: "evolves a (fa a)" using gentleD(5) [OF g a(1)] .
  have rev: "reviews (fa a) (fa r)" if "r \<in> set (attempts g)" "reviews a r" for r
  proof -
    have "evolves r (fa r)" using gentleD(5) [OF g that(1)] .
    then have "fa r = r" using that(2) by (intro evolves_ended) (auto simp: reviews_def)
    then show ?thesis using that(2) evolves_fields [OF ev] by (simp add: reviews_def)
  qed
  have res: "restarts (fa a) (fa p) (fa f)" if "p \<in> set (attempts g)" "f \<in> set (attempts g)" "restarts a p f" for p f
  proof -
    have p: "evolves p (fa p)" "evolves f (fa f)" using gentleD(5) [OF g] that by blast+
    then have "fa f = f" using that(3) by (intro evolves_ended) (auto simp: restarts_def)
    then show ?thesis using that(3) evolves_fields [OF ev] evolves_fields [OF p(1)] by (auto simp: restarts_def)
  qed
  have "\<exists>r \<in> set (attempts (change g ft fa new e)). reviews (fa a) r" if "\<exists>r \<in> set (attempts g). reviews a r"
    using that rev by auto
  moreover have "\<exists>p \<in> set (attempts (change g ft fa new e)). \<exists>f \<in> set (attempts (change g ft fa new e)). restarts (fa a) p f"
    if "\<exists>p \<in> set (attempts g). \<exists>f \<in> set (attempts g). restarts a p f"
    using that res by (fastforce simp: change_fields)
  ultimately show ?thesis
    using a(2) evolves_fields [OF ev] unfolding lineage_ok_def by (cases "att_kind a") (simp_all del: change_fields)
qed

text \<open>The chains, without or with a new work attempt at a task.\<close>

lemma change_work:
  assumes "gentle g ft fa"
  shows "work_of (change g ft fa new e) k = map fa (work_of g k) @ filter (\<lambda>a. att_taskId a = k \<and> att_kind a \<noteq> Review) new"
proof -
  have "filter P (map fa xs) = map fa (filter P xs)" if "\<And>a. a \<in> set xs \<Longrightarrow> P (fa a) = P a" for P xs
    using that by (induction xs) auto
  then show ?thesis unfolding work_of_def by (simp add: gentleD [OF assms])
qed

lemma chain_ok_map:
  assumes "\<And>a. a \<in> set ws \<Longrightarrow> generation (fa a) = generation a"
  shows "chain_ok (map fa ws) = chain_ok ws"
proof -
  have "map generation (map fa ws) = map generation ws" using assms by simp
  then show ?thesis unfolding chain_ok_def by (metis length_map list.set_map)
qed

lemma chain_ok_snoc:
  assumes "chain_ok ws" "generation n = num_int (int (length ws) + 1)"
  shows "chain_ok (ws @ [n])"
proof -
  have "generation n \<notin> generation ` set ws"
  proof
    assume "generation n \<in> generation ` set ws"
    then obtain b where b: "b \<in> set ws" "generation b = generation n" by auto
    obtain m where "m \<le> length ws" "generation b = num_int (int m)" using chain_generation [OF assms(1) b(1)] .
    then show False using b(2) assms(2) by auto
  qed
  moreover have "{1..Suc (length ws)} = insert (Suc (length ws)) {1..length ws}" by auto
  ultimately show ?thesis using assms by (auto simp: chain_ok_def)
qed

text \<open>Which attempt is current after a change.\<close>

lemma change_current:
  assumes v: "valid_graph g" and g: "gentle g ft fa" and n: "\<And>x. x \<in> set new \<Longrightarrow> att_taskId x = k \<Longrightarrow> att_kind x = Review"
  shows "currentWorkAttempt (change g ft fa new e) k = map_option fa (currentWorkAttempt g k)"
proof -
  let ?P = "\<lambda>ws a. att_id a \<notin> set (superseded ws)"
  have none: "filter (\<lambda>a. att_taskId a = k \<and> att_kind a \<noteq> Review) new = []" using n by (auto simp: filter_empty_conv)
  have sub: "set (work_of g k) \<subseteq> set (attempts g)" by (auto simp: set_work_of)
  have "set (superseded (map fa (work_of g k))) = set (superseded (work_of g k))"
    using evolves_fields gentleD(5) [OF g] sub by (auto simp: superseded_iff set_eq_iff) (metis subsetD)+
  then have "find (?P (map fa (work_of g k))) (map fa ws) = map_option fa (find (?P (work_of g k)) ws)"
    if "set ws \<subseteq> set (work_of g k)" for ws
    using that sub by (induction ws) (auto simp: gentleD [OF g] subset_iff)
  from this [OF order.refl] show ?thesis
    unfolding currentWorkAttempt_work change_work [OF g] none append_Nil2 .
qed

lemma change_chains:
  assumes v: "valid_graph g" and g: "gentle g ft fa" and short: "length new \<le> 1"
    and n: "\<And>x. x \<in> set new \<Longrightarrow> att_kind x \<noteq> Review \<Longrightarrow> generation x = num_int (int (length (work_of g (att_taskId x))) + 1)"
  shows "chain_ok (work_of (change g ft fa new e) k)"
proof -
  have old: "chain_ok (map fa (work_of g k))"
    using valid_graphD(5) [OF v] by (subst chain_ok_map) (auto simp: set_work_of gentleD [OF g])
  consider "filter (\<lambda>a. att_taskId a = k \<and> att_kind a \<noteq> Review) new = []"
    | x where "filter (\<lambda>a. att_taskId a = k \<and> att_kind a \<noteq> Review) new = [x]" "x \<in> set new" "att_taskId x = k" "att_kind x \<noteq> Review"
    using short by (cases new; cases "att_taskId (hd new) = k \<and> att_kind (hd new) \<noteq> Review") auto
  then show ?thesis
  proof cases
    case 1
    then show ?thesis using old by (simp only: change_work [OF g] append_Nil2)
  next
    case (2 x)
    then show ?thesis using old n [OF 2(2,4)] unfolding change_work [OF g] by (auto intro!: chain_ok_snoc)
  qed
qed

lemma change_status:
  assumes v: "valid_graph g" and g: "gentle g ft fa" and a: "a \<in> set (attempts g)"
    and run: "\<And>t. t \<in> set (tasks g) \<Longrightarrow> task_id t = att_taskId a \<Longrightarrow> att_status (fa a) = Attempt_running \<Longrightarrow> task_status (ft t) = expected_status a"
    and n: "\<And>x. x \<in> set new \<Longrightarrow> att_kind x \<noteq> Review \<Longrightarrow> att_taskId a = att_taskId x \<Longrightarrow> att_kind a = Review \<Longrightarrow>
      att_status (fa a) = Attempt_failed \<or> att_status (fa a) = Attempt_cancelled"
  shows "status_ok (change g ft fa new e) (fa a)"
proof -
  have ev: "evolves a (fa a)" using gentleD(5) [OF g a] .
  note same = evolves_fields [OF ev]
  have ok: "status_ok g a" using valid_graphD(3) [OF v a] by (simp add: attempt_sound_def)
  have "map_option att_id (currentWorkAttempt (change g ft fa new e) (att_taskId a)) = reviewsAttemptId a"
    if auth: "att_kind a = Review" "att_status (fa a) = Attempt_running \<or> att_status (fa a) = Attempt_succeeded"
  proof -
    have "currentWorkAttempt (change g ft fa new e) (att_taskId a) = map_option fa (currentWorkAttempt g (att_taskId a))"
      using n auth by (intro change_current [OF v g]) fastforce
    moreover have "map_option att_id (map_option fa (currentWorkAttempt g (att_taskId a))) = map_option att_id (currentWorkAttempt g (att_taskId a))"
      using current_mem [of g] gentleD(6) [OF g] by (cases "currentWorkAttempt g (att_taskId a)") auto
    moreover have "att_status a = Attempt_running \<or> att_status a = Attempt_succeeded"
      using auth(2) ev by (auto simp: evolves_def)
    ultimately show ?thesis using ok auth(1) by (simp add: status_ok_def)
  qed
  moreover have "task_status (ft t) = expected_status (fa a)"
    if "t \<in> set (tasks g)" "task_id t = att_taskId a" "att_status (fa a) = Attempt_running" for t
    using run [OF that] same by (simp add: expected_status_def)
  moreover have "reviewRequired (ft t)" if "t \<in> set (tasks g)" "task_id t = att_taskId a" "att_kind a = Review" for t
    using ok that gentleD(4) [OF g that(1)] by (simp add: status_ok_def)
  ultimately show ?thesis
    unfolding status_ok_def using same gentleD(1) [OF g] by auto
qed

lemma change_outcome:
  assumes v: "valid_graph g" and g: "gentle g ft fa" and t: "t \<in> set (tasks g)"
    and n: "\<And>x. task_status (ft t) = Task_succeeded \<Longrightarrow> x \<in> set new \<Longrightarrow> att_taskId x = task_id t \<Longrightarrow> att_kind x = Review"
    and won: "task_status (ft t) = Task_succeeded \<Longrightarrow> task_status t = Task_succeeded \<or>
      (\<exists>c. currentWorkAttempt g (task_id t) = Some c \<and> att_status (fa c) = Attempt_succeeded \<and>
         (reviewRequired t \<longrightarrow> (\<exists>a \<in> set (attempts g). approves t c (fa a))))"
  shows "outcome_ok (change g ft fa new e) (ft t)"
  unfolding outcome_ok_def
proof
  let ?g' = "change g ft fa new e"
  assume s: "task_status (ft t) = Task_succeeded"
  have "\<exists>c. currentWorkAttempt g (task_id t) = Some c \<and> att_status (fa c) = Attempt_succeeded \<and>
      (reviewRequired t \<longrightarrow> (\<exists>a \<in> set (attempts g). approves t c (fa a)))"
  proof (cases "task_status t = Task_succeeded")
    case True
    then obtain c where c: "currentWorkAttempt g (task_id t) = Some c" "att_status c = Attempt_succeeded"
      "reviewRequired t \<longrightarrow> (\<exists>a \<in> set (attempts g). approves t c a)"
      using valid_graphD(7) [OF v t] by (auto simp: outcome_ok_def)
    have keep: "fa a = a" if "a \<in> set (attempts g)" "att_status a = Attempt_succeeded" for a
      using evolves_ended [OF gentleD(5) [OF g that(1)]] that(2) by simp
    have "\<exists>a \<in> set (attempts g). approves t c (fa a)" if r: "reviewRequired t"
    proof -
      obtain a where a: "a \<in> set (attempts g)" "approves t c a" using c(3) r by blast
      then have "fa a = a" using keep by (simp add: approves_def)
      then show ?thesis using a by (intro bexI [of _ a]) simp_all
    qed
    then show ?thesis using c(1,2) keep current_mem [OF c(1)] by auto
  qed (use won [OF s] in blast)
  then obtain c where c: "currentWorkAttempt g (task_id t) = Some c" "att_status (fa c) = Attempt_succeeded"
    "reviewRequired t \<longrightarrow> (\<exists>a \<in> set (attempts g). approves t c (fa a))" by blast
  have cur: "currentWorkAttempt ?g' (task_id t) = Some (fa c)"
    using c(1) n [OF s] by (subst change_current [OF v g]) auto
  have mem: "c \<in> set (attempts g)" using current_mem [OF c(1)] by blast
  have "approves (ft t) (fa c) a \<longleftrightarrow> approves t c a" for a
    using gentleD(1) [OF g t] gentleD(6,9) [OF g mem] by (simp add: approves_def)
  then have "reviewRequired (ft t) \<longrightarrow> (\<exists>a \<in> set (attempts ?g'). approves (ft t) (fa c) a)"
    using c(3) gentleD(4) [OF g t] by auto
  then show "\<exists>c. currentWorkAttempt ?g' (task_id (ft t)) = Some c \<and> att_status c = Attempt_succeeded \<and>
      (reviewRequired (ft t) \<longrightarrow> (\<exists>a \<in> set (attempts ?g'). approves (ft t) c a))"
    using cur c(2) gentleD(1) [OF g t] by auto
qed

lemma change_keeps_inv:
  assumes inv: "graph_inv g" and g: "gentle g ft fa"
    and e: "isFinite (recorded_at e)" "event_ok (change g ft fa new e) e"
      "map att_id new = (case started_attempt e of Some i \<Rightarrow> [i] | None \<Rightarrow> [])"
    and fresh: "\<And>x. x \<in> set new \<Longrightarrow> att_id x \<notin> att_id ` set (attempts g)"
    and new: "\<And>x. x \<in> set new \<Longrightarrow> attempt_sound (change g ft fa new e) x \<and> att_status x = Attempt_running"
    and work: "\<And>x. x \<in> set new \<Longrightarrow> att_kind x \<noteq> Review \<Longrightarrow>
      generation x = num_int (int (length (work_of g (att_taskId x))) + 1) \<and>
      (\<forall>a \<in> set (attempts g). att_kind a = Review \<and> att_taskId a = att_taskId x \<longrightarrow>
         att_status (fa a) = Attempt_failed \<or> att_status (fa a) = Attempt_cancelled)"
    and run: "\<And>a t. a \<in> set (attempts g) \<Longrightarrow> t \<in> set (tasks g) \<Longrightarrow> task_id t = att_taskId a \<Longrightarrow>
      att_status (fa a) = Attempt_running \<Longrightarrow> task_status (ft t) = expected_status a"
    and single: "\<And>a x. a \<in> set (attempts g) \<Longrightarrow> x \<in> set new \<Longrightarrow> att_taskId a = att_taskId x \<Longrightarrow> att_status (fa a) \<noteq> Attempt_running"
    and won: "\<And>t. t \<in> set (tasks g) \<Longrightarrow> task_status (ft t) = Task_succeeded \<Longrightarrow>
      (\<forall>x \<in> set new. att_taskId x \<noteq> task_id t) \<and>
      (task_status t = Task_succeeded \<or>
       (\<exists>c. currentWorkAttempt g (task_id t) = Some c \<and> att_status (fa c) = Attempt_succeeded \<and>
          (reviewRequired t \<longrightarrow> (\<exists>a \<in> set (attempts g). approves t c (fa a)))))"
    and pend: "\<And>t. t \<in> set (tasks g) \<Longrightarrow> task_status (ft t) = Task_pending \<Longrightarrow>
      task_status t = Task_pending \<and> (\<forall>x \<in> set new. att_taskId x \<noteq> task_id t)"
    and final: "\<And>a t. a \<in> set (attempts g) \<Longrightarrow> t \<in> set (tasks g) \<Longrightarrow> task_id t = att_taskId a \<Longrightarrow> att_kind a = Review \<Longrightarrow>
      att_status (fa a) = Attempt_succeeded \<Longrightarrow> task_status (ft t) = Task_succeeded"
    and count: "\<not> count_exceeds (activeAttemptCount (change g ft fa new e)) (maxParallelism g)"
  shows "graph_inv (change g ft fa new e)"
proof -
  let ?g' = "change g ft fa new e"
  have v: "valid_graph g" and old: "pending_fresh g" "approvals_final g" "running_single g"
    using inv by (auto simp: graph_inv_def)
  have short: "length new \<le> 1" using arg_cong [OF e(3), of length] by (auto split: option.splits)
  have ids: "map att_id (attempts ?g') = map att_id (attempts g) @ map att_id new"
    using change_attempt_ids [OF g] by (simp only: change_fields map_append)
  have "distinct (map att_id (attempts ?g'))"
    unfolding ids using valid_graphD(2) [OF v] fresh short by (cases new) auto
  moreover have "attempt_sound ?g' a" if mem: "a \<in> set (attempts ?g')" for a
  proof (cases "a \<in> set new")
    case False
    then obtain b where b: "b \<in> set (attempts g)" "a = fa b" using mem by auto
    have "attempt_sound g b" using valid_graphD(3) [OF v b(1)] .
    then show ?thesis
      using change_data [OF g b(1)] change_lineage [OF g b(1)] change_status [OF v g b(1)] run [OF b(1)] work b(1)
      unfolding attempt_sound_def b(2) by blast
  qed (use new in blast)
  moreover have "chain_ok (work_of ?g' k)" for k using change_chains [OF v g short] work by blast
  moreover have "outcome_ok ?g' t" if mem: "t \<in> set (tasks ?g')" for t
  proof -
    obtain u where u: "u \<in> set (tasks g)" "t = ft u" using mem by auto
    show ?thesis unfolding u(2) by (rule change_outcome [OF v g u(1)]) (use won [OF u(1)] in blast)+
  qed
  ultimately have att: "attempts_ok ?g'" unfolding attempts_ok_def using count by simp
  have valid: "valid_graph ?g'"
    using change_structure [OF g valid_graphD(8) [OF v]] change_records [OF g valid_graphD(9) [OF v] e] att by (simp add: valid_graph_def)
  have "pending_fresh ?g'"
    using old(1) pend gentleD(1,7) [OF g] by (fastforce simp: pending_fresh_def)
  moreover have "approvals_final ?g'"
    using final new gentleD(1,7,8) [OF g] by (fastforce simp: approvals_final_def)
  moreover have "running_single ?g'"
  proof -
    have "a = b" if mem: "a \<in> set (attempts ?g')" "b \<in> set (attempts ?g')" and running: "att_status a = Attempt_running"
        "att_status b = Attempt_running" "att_taskId a = att_taskId b" for a b
    proof -
      have "a = b" if old_mem: "a \<in> fa ` set (attempts g)" "b \<in> fa ` set (attempts g)"
      proof -
        obtain x y where x: "x \<in> set (attempts g)" "y \<in> set (attempts g)" "a = fa x" "b = fa y" using old_mem by blast
        then have "a = x" "b = y" using running gentleD(5) [OF g] evolves_running by metis+
        then show ?thesis using x(1,2) running old(3) unfolding running_single_def by blast
      qed
      moreover have "a = b" if "a \<in> set new" "b \<in> set new" using that short by (cases new) auto
      moreover have "\<not> (x \<in> fa ` set (attempts g) \<and> y \<in> set new \<and> att_status x = Attempt_running \<and> att_taskId x = att_taskId y)" for x y
        using single gentleD(7) [OF g] by fastforce
      ultimately show ?thesis using mem running by (metis UnE change_fields(2) set_append set_map)
    qed
    then show ?thesis unfolding running_single_def by blast
  qed
  ultimately show ?thesis using valid by (simp add: graph_inv_def)
qed

end
