(* ===== verification/Graph_Safety.thy ===== *)
theory Graph_Safety
  imports Graph_Invariant
begin

text \<open>
  Every event that \<open>applyEvent\<close> accepts keeps the invariant, provided that the attempt it starts has a name that is
  not blank.
\<close>


section \<open>Assertions\<close>

lemma require_Inr [simp]: "require ok m ids = Inr u \<longleftrightarrow> ok"
  by (simp add: require_def)

lemma taskById_Inr: "taskById g k = Inr t \<Longrightarrow> t \<in> set (tasks g) \<and> task_id t = k"
  by (auto simp: taskById_def split: option.splits dest: find_Some_mem)

lemma attemptById_Inr: "attemptById g k = Inr a \<Longrightarrow> a \<in> set (attempts g) \<and> att_id a = k"
  by (auto simp: attemptById_def split: option.splits dest: find_Some_mem)

lemma assertions_Inr [simp]:
  "assertAgentExists g k = Inr u \<longleftrightarrow> k \<in> agent_ids g" "assertFiniteTimestamp w = Inr u \<longleftrightarrow> isFinite w"
  "assertUnusedAttemptId g k = Inr u \<longleftrightarrow> k \<notin> att_id ` set (attempts g)"
  "assertParallelismAvailable g = Inr u \<longleftrightarrow> \<not> count_reaches (activeAttemptCount g) (maxParallelism g)"
  by (auto simp: assertAgentExists_def assertFiniteTimestamp_def assertUnusedAttemptId_def assertParallelismAvailable_def list_ex_iff)

lemma assertValidGraph_Inr [simp]: "assertValidGraph g = Inr u \<longleftrightarrow> valid_graph g"
  by (simp add: assertValidGraph_def Let_def validateGraph_Nil)

lemma assertFailedAttemptForTask_Inr:
  "assertFailedAttemptForTask g k i = Inr f \<Longrightarrow> f \<in> set (attempts g) \<and> att_id f = i \<and> att_taskId f = k \<and> att_status f = Attempt_failed"
  by (auto simp: assertFailedAttemptForTask_def Let_def split: option.splits if_splits dest: find_Some_mem)

lemma assertFailureIsOnCurrentWork_Inr:
  assumes v: "valid_graph g" and f: "f \<in> set (attempts g)" "att_taskId f = k" and ok: "assertFailureIsOnCurrentWork g k f = Inr p"
  shows "currentWorkAttempt g k = Some p \<and> (if att_kind f = Review then reviewsAttemptId f = Some (att_id p) else f = p)"
proof -
  have p: "p \<in> set (attempts g) \<and> map_option att_id (currentWorkAttempt g k) = Some (att_id p) \<and>
      (if att_kind f = Review then reviewsAttemptId f = Some (att_id p) else f = p)"
    using ok f(1) by (auto simp: assertFailureIsOnCurrentWork_def Let_def bind_eq_Some_conv split: option.splits if_splits dest: find_Some_mem)
  then obtain c where c: "currentWorkAttempt g k = Some c" "att_id c = att_id p" by auto
  then have "c = p" using same_attempt [OF v] current_mem [OF c(1)] p by blast
  then show ?thesis using p c(1) by blast
qed

lemma set_status_map: "set_status k s = map (\<lambda>t. if task_id t = k then t\<lparr>task_status := s\<rparr> else t)"
  by (simp add: set_status_def [abs_def])

lemma end_attempt_map: "end_attempt k s w = map (\<lambda>a. if att_id a = k then a\<lparr>att_status := s, completedAt := Some w\<rparr> else a)"
  by (simp add: end_attempt_def [abs_def])


section \<open>Counting\<close>

lemma count_mono: "\<not> count_exceeds n limit \<Longrightarrow> m \<le> n \<Longrightarrow> \<not> count_exceeds m limit"
  by (cases limit) auto

lemma count_next: "positive_integer limit \<Longrightarrow> \<not> count_reaches n limit \<Longrightarrow> \<not> count_exceeds (Suc n) limit"
  by (auto simp: positive_integer_def) (metis le_less_linear less_le_not_le of_int_add of_int_less_iff of_int_of_nat_eq of_int_1 zless_imp_add1_zle add.commute not_less)

lemma change_count:
  assumes "gentle g ft fa"
  shows "activeAttemptCount (change g ft fa [] e) \<le> activeAttemptCount g"
proof -
  have "length (filter (\<lambda>a. att_status a = Attempt_running) (map fa as)) \<le> length (filter (\<lambda>a. att_status a = Attempt_running) as)"
    if "set as \<subseteq> set (attempts g)" for "as"
    using that
  proof (induction "as")
    case (Cons a as)
    then have "evolves a (fa a)" using gentleD(5) [OF assms] by simp
    then have "att_status (fa a) = Attempt_running \<Longrightarrow> att_status a = Attempt_running" by (auto simp: evolves_def)
    with Cons show ?case by auto
  qed simp
  then show ?thesis by (simp add: activeAttemptCount_def)
qed

lemma change_count_new: "activeAttemptCount (change g ft (\<lambda>a. a) [x] e) \<le> Suc (activeAttemptCount g)"
  by (simp add: activeAttemptCount_def)


section \<open>Ending an attempt\<close>

abbreviation status_at :: "jsstr \<Rightarrow> TaskStatus \<Rightarrow> GraphTask \<Rightarrow> GraphTask" where
  "status_at k s \<equiv> \<lambda>t. if task_id t = k then t\<lparr>task_status := s\<rparr> else t"

abbreviation ended_at :: "jsstr \<Rightarrow> AttemptStatus \<Rightarrow> jsnum \<Rightarrow> GraphAttempt \<Rightarrow> GraphAttempt" where
  "ended_at k s w \<equiv> \<lambda>a. if att_id a = k then a\<lparr>att_status := s, completedAt := Some w\<rparr> else a"

lemma owner_known: "valid_graph g \<Longrightarrow> t \<in> set (tasks g) \<Longrightarrow> ownerAgentId t \<in> agent_ids g"
  using valid_graphD(6) by (auto simp: task_ok_def)

lemma kept_status: "kept_task t (t\<lparr>task_status := s\<rparr>)" "kept_task t t"
  unfolding kept_task_def
  by (rule exI [of _ "ownerAgentId t"], rule exI [of _ s], simp) (rule exI [of _ "ownerAgentId t"], rule exI [of _ "task_status t"], simp)

lemma gentle_status:
  assumes "valid_graph g" "\<And>a. a \<in> set (attempts g) \<Longrightarrow> evolves a (fa a)"
  shows "gentle g (status_at k s) fa"
  using assms(2) owner_known [OF assms(1)] kept_status by (auto simp: gentle_def)

lemma finish_inv:
  assumes inv: "graph_inv g" and x: "x \<in> set (attempts g)" "att_status x = Attempt_running" and t: "t \<in> set (tasks g)" "task_id t = att_taskId x"
    and s: "s \<noteq> Task_pending" "s' \<noteq> Attempt_running" "isFinite w" and e: "isFinite (recorded_at e)" "event_ok g e" "started_attempt e = None"
    and won: "s = Task_succeeded \<Longrightarrow> \<exists>c. currentWorkAttempt g (task_id t) = Some c \<and> att_status (ended_at (att_id x) s' w c) = Attempt_succeeded \<and>
      (reviewRequired t \<longrightarrow> (\<exists>a \<in> set (attempts g). approves t c (ended_at (att_id x) s' w a)))"
    and fin: "att_kind x = Review \<Longrightarrow> s' = Attempt_succeeded \<Longrightarrow> s = Task_succeeded"
  shows "graph_inv (change g (status_at (task_id t) s) (ended_at (att_id x) s' w) [] e)"
proof -
  have v: "valid_graph g" and single: "running_single g" and final: "approvals_final g" using inv by (auto simp: graph_inv_def)
  have only: "a = x" if "a \<in> set (attempts g)" "att_id a = att_id x" for a using same_attempt [OF v that(1) x(1) that(2)] .
  have only_t: "u = t" if "u \<in> set (tasks g)" "task_id u = task_id t" for u using same_task [OF v that(1) t(1) that(2)] .
  have busy: "task_status t = expected_status x" by (rule running_expected [OF v x t])
  then have not_done: "task_status t \<noteq> Task_succeeded" "task_status t \<noteq> Task_pending" by (auto simp: expected_status_def)
  have g: "gentle g (status_at (task_id t) s) (ended_at (att_id x) s' w)"
    using only x(2) s(2,3) by (intro gentle_status [OF v]) (auto simp: evolves_def)
  show ?thesis
  proof (rule change_keeps_inv [OF inv g e(1) event_ok_change [OF g e(2)]], goal_cases)
    case (5 a u)
    then have a: "att_status a = Attempt_running" "a \<noteq> x" using s(2) by (auto split: if_splits)
    then have "att_taskId a \<noteq> att_taskId x" using single x 5(1) unfolding running_single_def by blast
    then show ?case using running_expected [OF v 5(1) a(1) 5(2,3)] 5(3) t(2) by simp
  next
    case (7 u)
    then have "task_status u = Task_succeeded \<or> u = t \<and> s = Task_succeeded" using only_t by (auto split: if_splits)
    then show ?case using won by (intro conjI) (simp, blast)
  next
    case (8 u)
    then show ?case using s(1) by (auto split: if_splits)
  next
    case (9 a u)
    show ?case
    proof (cases "att_id a = att_id x")
      case True
      then have "a = x" using only 9(1) by blast
      then show ?thesis using 9 fin t(2) by simp
    next
      case False
      then have "task_status u = Task_succeeded" using 9 final unfolding approvals_final_def by auto
      then show ?thesis using only_t 9(2) not_done by auto
    qed
  next
    case 10
    show ?case using count_mono [OF _ change_count [OF g]] valid_graphD(10) [OF v] by (auto simp: attempts_ok_def)
  qed (simp_all add: e(3))
qed

lemma completeWork_inv:
  assumes inv: "graph_inv g" and ok: "completeWork g i out w = Inr g'" and w: "isFinite w"
  shows "graph_inv g'"
proof -
  have v: "valid_graph g" using inv by (simp add: graph_inv_def)
  obtain x t where x: "x \<in> set (attempts g)" "att_id x = i" "att_status x = Attempt_running" "att_kind x \<noteq> Review"
    and t: "t \<in> set (tasks g)" "task_id t = att_taskId x"
    and g': "g' = change g (status_at (task_id t) (if out = Work_failed then Task_failed else if reviewRequired t then Task_awaiting_review else Task_succeeded))
      (ended_at (att_id x) (if out = Work_failed then Attempt_failed else Attempt_succeeded) w) [] (Plain (Work_completed i out w))"
    using ok by (auto simp: completeWork_def ebind_Inr_iff Let_def change_def set_status_map end_attempt_map dest!: taskById_Inr attemptById_Inr)
  have cur: "currentWorkAttempt g (task_id t) = Some x" using running_current [OF v x(1,3,4)] t(2) by simp
  show ?thesis unfolding g'
    by (rule finish_inv [OF inv x(1,3) t]) (use x w cur in \<open>auto split: if_splits\<close>)
qed

lemma completeReview_inv:
  assumes inv: "graph_inv g" and ok: "completeReview g i approved w = Inr g'" and w: "isFinite w"
  shows "graph_inv g'"
proof -
  have v: "valid_graph g" using inv by (simp add: graph_inv_def)
  obtain x t where x: "x \<in> set (attempts g)" "att_id x = i" "att_status x = Attempt_running" "att_kind x = Review"
    and t: "t \<in> set (tasks g)" "task_id t = att_taskId x"
    and g': "g' = change g (status_at (task_id t) (if approved then Task_succeeded else Task_failed))
      (ended_at (att_id x) (if approved then Attempt_succeeded else Attempt_failed) w) [] (Plain (Review_completed i approved w))"
    using ok by (auto simp: completeReview_def ebind_Inr_iff Let_def change_def set_status_map end_attempt_map dest!: taskById_Inr attemptById_Inr)
  have a: "attempt_sound g x" by (rule valid_graphD(3) [OF v x(1)])
  obtain r where r: "r \<in> set (attempts g)" "reviews x r" using a x(4) by (auto simp: attempt_sound_def lineage_ok_def)
  have "map_option att_id (currentWorkAttempt g (task_id t)) = Some (att_id r)"
    using a x(3,4) r(2) t(2) by (auto simp: attempt_sound_def status_ok_def reviews_def)
  then obtain c where c: "currentWorkAttempt g (task_id t) = Some c" "att_id c = att_id r" by auto
  then have cr: "c = r" using same_attempt [OF v _ r(1)] current_mem [OF c(1)] by blast
  have ne: "att_id r \<noteq> att_id x" using same_attempt [OF v r(1) x(1)] x(4) r(2) by (auto simp: reviews_def)
  have "positive_integer (generation x)" using a by (simp add: attempt_sound_def attempt_data_ok_def)
  then have "approves t r (ended_at (att_id x) Attempt_succeeded w x)"
    using r(2) t(2) x(4) by (simp add: approves_def reviews_def num_eq_positive)
  then have win: "\<exists>c. currentWorkAttempt g (task_id t) = Some c \<and> att_status (ended_at (att_id x) Attempt_succeeded w c) = Attempt_succeeded \<and>
      (reviewRequired t \<longrightarrow> (\<exists>a \<in> set (attempts g). approves t c (ended_at (att_id x) Attempt_succeeded w a)))"
    using c(1) r x(1) ne unfolding cr by (auto simp: reviews_def)
  show ?thesis
  proof (cases approved)
    case True
    show ?thesis unfolding g' using True by (simp only: if_True) (rule finish_inv [OF inv x(1,3) t], use win x w in auto)
  next
    case False
    show ?thesis unfolding g' using False by (simp only: if_False) (rule finish_inv [OF inv x(1,3) t], use x w in auto)
  qed
qed


section \<open>Starting an attempt\<close>

lemma gentle_keep: "valid_graph g \<Longrightarrow> gentle g (status_at k s) (\<lambda>a. a)"
  by (rule gentle_status) (auto simp: evolves_def)

text \<open>What a new work attempt at a pending or failed task needs.\<close>

definition may_begin :: "GraphState \<Rightarrow> GraphTask \<Rightarrow> GraphAttempt \<Rightarrow> bool" where
  "may_begin g t x \<longleftrightarrow>
     t \<in> set (tasks g) \<and> att_taskId x = task_id t \<and> att_status x = Attempt_running \<and> att_kind x \<noteq> Review \<and>
     js_trim (att_id x) \<noteq> [] \<and> att_id x \<notin> att_id ` set (attempts g) \<and> att_agentId x \<in> agent_ids g \<and>
     isFinite (startedAt x) \<and> completedAt x = None \<and> reviewsAttemptId x = None \<and>
     (if att_kind x = Work
      then task_status t = Task_pending \<and> generation x = num_int 1 \<and> previousAttemptId x = None \<and> supersedesAttemptId x = None
      else task_status t = Task_failed \<and>
        (\<exists>p f. currentWorkAttempt g (task_id t) = Some p \<and> f \<in> set (attempts g) \<and> restarts x p f))"

lemma may_begin_generation:
  assumes inv: "graph_inv g" and m: "may_begin g t x"
  shows "generation x = num_int (int (length (work_of g (task_id t))) + 1)"
proof (cases "att_kind x = Work")
  case True
  then have "task_status t = Task_pending" "t \<in> set (tasks g)" using m by (auto simp: may_begin_def)
  then have "work_of g (task_id t) = []"
    using inv by (auto simp: graph_inv_def pending_fresh_def work_of_def filter_empty_conv)
  then show ?thesis using True m by (simp add: may_begin_def)
next
  case False
  have v: "valid_graph g" using inv by (simp add: graph_inv_def)
  obtain p f where p: "currentWorkAttempt g (task_id t) = Some p" "restarts x p f" using False m by (auto simp: may_begin_def)
  have "generation p = num_int (int (length (work_of g (task_id t))))" using p(1) unfolding current_iff [OF v] by blast
  then show ?thesis using p(2) by (simp add: restarts_def)
qed

lemma begin_inv:
  assumes inv: "graph_inv g" and m: "may_begin g t x" and free: "\<not> count_reaches (activeAttemptCount g) (maxParallelism g)"
    and e: "isFinite (recorded_at e)" "started_attempt e = Some (att_id x)"
      "event_ok (change g (status_at (task_id t) Task_running) (\<lambda>a. a) [x] e) e"
  shows "graph_inv (change g (status_at (task_id t) Task_running) (\<lambda>a. a) [x] e)"
proof -
  let ?g' = "change g (status_at (task_id t) Task_running) (\<lambda>a. a) [x] e"
  have v: "valid_graph g" and final: "approvals_final g" and pend: "pending_fresh g" using inv by (auto simp: graph_inv_def)
  have t: "t \<in> set (tasks g)" "att_taskId x = task_id t" and idle: "task_status t = Task_pending \<or> task_status t = Task_failed"
    using m by (auto simp: may_begin_def split: if_splits)
  have only_t: "u = t" if "u \<in> set (tasks g)" "task_id u = task_id t" for u using same_task [OF v that(1) t(1) that(2)] .
  have g: "gentle g (status_at (task_id t) Task_running) (\<lambda>a. a)" by (rule gentle_keep [OF v])
  have quiet: "att_status a \<noteq> Attempt_running" if "a \<in> set (attempts g)" "att_taskId a = task_id t" for a
    using running_expected [OF v that(1) _ t(1)] that(2) idle by (auto simp: expected_status_def split: if_splits)
  have gen: "generation x = num_int (int (length (work_of g (task_id t))) + 1)" by (rule may_begin_generation [OF inv m])
  have "lineage_ok ?g' x"
  proof (cases "att_kind x = Work")
    case True
    then show ?thesis using m by (simp add: may_begin_def lineage_ok_def)
  next
    case False
    then obtain p f where "currentWorkAttempt g (task_id t) = Some p" "f \<in> set (attempts g)" "restarts x p f"
      using m by (auto simp: may_begin_def)
    moreover from this have "p \<in> set (attempts g)" using current_mem by blast
    ultimately have "\<exists>p \<in> set (attempts ?g'). \<exists>f \<in> set (attempts ?g'). restarts x p f" by auto
    then show ?thesis using False m by (cases "att_kind x") (auto simp: may_begin_def lineage_ok_def)
  qed
  moreover have "attempt_data_ok ?g' x"
    unfolding attempt_data_ok_def change_task_id_set [OF g] change_fields(3)
    using m t gen by (auto simp: may_begin_def positive_integer_def intro!: exI [of _ "int (length (work_of g (task_id t))) + 1"])
  moreover have "status_ok ?g' x" using m t only_t by (auto simp: status_ok_def may_begin_def expected_status_def)
  ultimately have ok: "attempt_sound ?g' x" by (simp add: attempt_sound_def)
  have "positive_integer (maxParallelism g)" using valid_graphD(8) [OF v] by (simp add: structure_ok_def)
  then have count: "\<not> count_exceeds (activeAttemptCount ?g') (maxParallelism g)"
    using count_mono [OF count_next [OF _ free] change_count_new] by blast
  show ?thesis
  proof (rule change_keeps_inv [OF inv g e(1) e(3)], goal_cases)
    case (4 y)
    have "att_status a = Attempt_failed \<or> att_status a = Attempt_cancelled" if "a \<in> set (attempts g)" "att_kind a = Review" "att_taskId a = task_id t" for a
      using quiet [OF that(1,3)] final that t(1) idle unfolding approvals_final_def by (cases "att_status a") auto
    then show ?case using 4 gen t(2) by simp
  next
    case (5 a u)
    then show ?case using quiet running_expected [OF v 5(1) 5(4) 5(2,3)] by auto
  next
    case (6 a y)
    then show ?case using quiet t(2) by simp
  next
    case (9 a u)
    then have "task_status u = Task_succeeded" using final unfolding approvals_final_def by auto
    then show ?case using only_t [OF 9(2)] idle by auto
  qed (use ok count m t e(2) idle only_t in \<open>auto simp: may_begin_def split: if_splits\<close>)
qed

lemma startWorkAttempt_Inr:
  "startWorkAttempt g e k i agent w kind previous older = Inr g' \<longleftrightarrow>
     \<not> count_reaches (activeAttemptCount g) (maxParallelism g) \<and>
     g' = change g (status_at k Task_running) (\<lambda>a. a) [work_attempt k i agent w kind previous older] (Plain e)"
  by (auto simp: startWorkAttempt_def ebind_Inr_iff change_def set_status_map)

lemma startWork_inv:
  assumes inv: "graph_inv g" and ok: "startWork lc g k i agent w = Inr g'" and w: "isFinite w" and i: "js_trim i \<noteq> []"
  shows "graph_inv g'"
proof -
  let ?x = "work_attempt k i agent w Work None None"
  obtain t where t: "t \<in> set (tasks g)" "task_id t = k" "task_status t = Task_pending" "agent \<in> agent_ids g"
    "i \<notin> att_id ` set (attempts g)" "\<not> count_reaches (activeAttemptCount g) (maxParallelism g)"
    and g': "g' = change g (status_at (task_id t) Task_running) (\<lambda>a. a) [?x] (Plain (Work_started k i agent w))"
    using ok by (auto simp: startWork_def ebind_Inr_iff startWorkAttempt_Inr dest!: taskById_Inr)
  have v: "valid_graph g" using inv by (simp add: graph_inv_def)
  have m: "may_begin g t ?x" using t w i by (simp add: may_begin_def work_attempt_def)
  show ?thesis
    unfolding g'
    by (rule begin_inv [OF inv m t(6)])
      (use t w in \<open>auto simp: work_attempt_def simp del: change_fields(1) simp add: change_task_id_set [OF gentle_keep [OF v]]\<close>)
qed

lemma may_restart:
  assumes inv: "graph_inv g" and t: "t \<in> set (tasks g)" "task_status t = Task_failed"
    and f: "assertFailedAttemptForTask g (task_id t) p = Inr f" "assertFailureIsOnCurrentWork g (task_id t) f = Inr c"
    and i: "i \<notin> att_id ` set (attempts g)" "js_trim i \<noteq> []" "agent \<in> agent_ids g" "isFinite w" "kind = Retry \<or> kind = Fallback"
  shows "may_begin g t (work_attempt (task_id t) i agent w kind (Some p) (Some c)) \<and> p \<in> att_id ` set (attempts g)"
proof -
  have v: "valid_graph g" using inv by (simp add: graph_inv_def)
  note F = assertFailedAttemptForTask_Inr [OF f(1)]
  have c: "currentWorkAttempt g (task_id t) = Some c \<and> (if att_kind f = Review then reviewsAttemptId f = Some (att_id c) else f = c)"
    using assertFailureIsOnCurrentWork_Inr [OF v _ _ f(2)] F by blast
  have "restarts (work_attempt (task_id t) i agent w kind (Some p) (Some c)) c f"
    using F c current_mem [of g "task_id t" c] by (auto simp: restarts_def work_attempt_def)
  then show ?thesis using F c t i by (auto simp: may_begin_def work_attempt_def)
qed

lemma startRetry_inv:
  assumes inv: "graph_inv g" and ok: "startRetry g k i agent p w = Inr g'" and w: "isFinite w" and i: "js_trim i \<noteq> []"
  shows "graph_inv g'"
proof -
  obtain t f c where t: "t \<in> set (tasks g)" "task_id t = k" "task_status t = Task_failed" "agent \<in> agent_ids g"
    "i \<notin> att_id ` set (attempts g)" "\<not> count_reaches (activeAttemptCount g) (maxParallelism g)"
    and f: "assertFailedAttemptForTask g (task_id t) p = Inr f" "assertFailureIsOnCurrentWork g (task_id t) f = Inr c"
    and g': "g' = change g (status_at (task_id t) Task_running) (\<lambda>a. a)
      [work_attempt (task_id t) i agent w Retry (Some p) (Some c)] (Plain (Retry_started k i agent p w))"
    using ok by (auto simp: startRetry_def ebind_Inr_iff startWorkAttempt_Inr assertFailedTaskCanRestart_def dest!: taskById_Inr)
  have v: "valid_graph g" using inv by (simp add: graph_inv_def)
  have m: "may_begin g t (work_attempt (task_id t) i agent w Retry (Some p) (Some c))" "p \<in> att_id ` set (attempts g)"
    using may_restart [OF inv t(1,3) f t(5) i t(4) w] by blast+
  show ?thesis
    unfolding g'
    by (rule begin_inv [OF inv m(1) t(6)])
      (use t w m(2) in \<open>auto simp: work_attempt_def simp del: change_fields(1) simp add: change_task_id_set [OF gentle_keep [OF v]]\<close>)
qed

lemma startFallback_inv:
  assumes inv: "graph_inv g" and ok: "startFallback g k i agent p reason w = Inr g'" and w: "isFinite w" and i: "js_trim i \<noteq> []"
  shows "graph_inv g'"
proof -
  obtain t f c where t: "t \<in> set (tasks g)" "task_id t = k" "task_status t = Task_failed" "agent \<in> agent_ids g"
    "i \<notin> att_id ` set (attempts g)" "\<not> count_reaches (activeAttemptCount g) (maxParallelism g)" "js_trim reason \<noteq> []"
    and f: "assertFailedAttemptForTask g (task_id t) p = Inr f" "assertFailureIsOnCurrentWork g (task_id t) f = Inr c"
    and g': "g' = change g (status_at (task_id t) Task_running) (\<lambda>a. a)
      [work_attempt (task_id t) i agent w Fallback (Some p) (Some c)] (Plain (Fallback_started k i agent p reason w))"
    using ok by (auto simp: startFallback_def ebind_Inr_iff startWorkAttempt_Inr assertFailedTaskCanRestart_def dest!: taskById_Inr)
  have v: "valid_graph g" using inv by (simp add: graph_inv_def)
  have m: "may_begin g t (work_attempt (task_id t) i agent w Fallback (Some p) (Some c))" "p \<in> att_id ` set (attempts g)"
    using may_restart [OF inv t(1,3) f t(5) i t(4) w] by blast+
  show ?thesis
    unfolding g'
    by (rule begin_inv [OF inv m(1) t(6)])
      (use t w m(2) in \<open>auto simp: work_attempt_def simp del: change_fields(1) simp add: change_task_id_set [OF gentle_keep [OF v]]\<close>)
qed

lemma startReview_inv:
  assumes inv: "graph_inv g" and ok: "startReview g k i agent v w = Inr g'" and w: "isFinite w" and i: "js_trim i \<noteq> []"
  shows "graph_inv g'"
proof -
  have v: "valid_graph g" using inv by (simp add: graph_inv_def)
  obtain t r where found: "taskById g k = Inr t" "attemptById g v = Inr r"
    and awaiting: "reviewRequired t" "task_status t = Task_awaiting_review"
    and rest: "att_taskId r = task_id t" "att_kind r \<noteq> Review" "att_status r = Attempt_succeeded"
      "map_option att_id (currentWorkAttempt g (task_id t)) = Some (att_id r)" "att_agentId r \<noteq> agent"
    and i': "i \<notin> att_id ` set (attempts g)" "agent \<in> agent_ids g" "\<not> count_reaches (activeAttemptCount g) (maxParallelism g)"
    and none: "\<not> list_ex (\<lambda>a. att_taskId a = task_id t \<and> att_kind a = Review \<and> att_status a = Attempt_running) (attempts g)"
    and g': "g' = appendRecord (g\<lparr>attempts := attempts g @
         [\<lparr>att_id = i, att_taskId = task_id t, att_agentId = agent, att_kind = Review, generation = generation r,
           att_status = Attempt_running, startedAt = w, completedAt = None, previousAttemptId = None,
           supersedesAttemptId = None, reviewsAttemptId = Some (att_id r)\<rparr>]\<rparr>) (Plain (Review_started k i agent v w))"
    using ok unfolding startReview_def ebind_Inr_iff require_Inr assertions_Inr Inr_inject by blast
  note t = taskById_Inr [OF found(1), THEN conjunct1] taskById_Inr [OF found(1), THEN conjunct2] awaiting
  note r = attemptById_Inr [OF found(2), THEN conjunct1] attemptById_Inr [OF found(2), THEN conjunct2] rest
  define x where "x = \<lparr>att_id = i, att_taskId = task_id t, att_agentId = agent, att_kind = Review, generation = generation r,
           att_status = Attempt_running, startedAt = w, completedAt = None, previousAttemptId = None,
           supersedesAttemptId = None, reviewsAttemptId = Some (att_id r)\<rparr>"
  define e where "e = Plain (Review_started k i agent v w)"
  have g'_eq: "g' = change g (\<lambda>t. t) (\<lambda>a. a) [x] e" unfolding g' change_def x_def e_def by simp
  have g: "gentle g (\<lambda>t. t) (\<lambda>a. a)" using owner_known [OF v] kept_status(2) by (auto simp: gentle_def evolves_def)
  let ?g' = "change g (\<lambda>t. t) (\<lambda>a. a) [x] e"
  have only_t: "u = t" if "u \<in> set (tasks g)" "task_id u = task_id t" for u using same_task [OF v that(1) t(1) that(2)] .
  have cur: "currentWorkAttempt ?g' (task_id t) = currentWorkAttempt g (task_id t)"
    by (subst change_current [OF v g]) (auto simp: x_def option.map_ident)
  have quiet: "att_status a \<noteq> Attempt_running" if "a \<in> set (attempts g)" "att_taskId a = task_id t" for a
    using running_expected [OF v that(1) _ t(1)] that none t(4) by (auto simp: expected_status_def list_ex_iff split: if_splits)
  have "positive_integer (generation r)" using valid_graphD(3) [OF v r(1)] by (simp add: attempt_sound_def attempt_data_ok_def)
  then have "attempt_data_ok ?g' x"
    unfolding attempt_data_ok_def change_task_id_set [OF g] change_fields(3) using t i i' w by (auto simp: x_def)
  moreover have "lineage_ok ?g' x" using r by (auto simp: x_def lineage_ok_def reviews_def)
  moreover have "status_ok ?g' x"
  proof -
    have x: "att_taskId x = task_id t" "reviewsAttemptId x = Some (att_id r)" "expected_status x = Task_awaiting_review"
      by (simp_all add: x_def expected_status_def)
    have same: "tasks ?g' = tasks g" by simp
    show ?thesis unfolding status_ok_def x cur same using only_t t(3,4) r(6) by blast
  qed
  ultimately have ok_x: "attempt_sound ?g' x" by (simp add: attempt_sound_def)
  have ev: "event_ok ?g' e"
  proof -
    have "k \<in> task_ids g" using t(1,2) by blast
    moreover have "has_attempt ?g' v (\<lambda>x. True)" using r(1,2) by auto
    moreover have "has_attempt ?g' i (\<lambda>y. att_kind y = Review \<and> att_taskId y = k \<and> att_agentId y = agent \<and> reviewsAttemptId y = Some v)"
      using t(2) r(2) by (intro bexI [of _ x]) (simp_all add: x_def)
    ultimately show ?thesis
      using i'(2) change_task_id_set [OF g, of "[x]" e] unfolding e_def event_ok.simps change_fields(3) by blast
  qed
  have "positive_integer (maxParallelism g)" using valid_graphD(8) [OF v] by (simp add: structure_ok_def)
  then have count: "\<not> count_exceeds (activeAttemptCount ?g') (maxParallelism g)"
    using count_mono [OF count_next [OF _ i'(3)] change_count_new] by blast
  have final: "approvals_final g" using inv by (simp add: graph_inv_def)
  show ?thesis unfolding g'_eq
  proof (rule change_keeps_inv [OF inv g _ ev], goal_cases)
    case (6 a u)
    then show ?case using running_expected [OF v 6(1) 6(4) 6(2,3)] by simp
  next
    case (7 a y)
    then show ?case using quiet by (simp add: x_def)
  next
    case (10 a u)
    then show ?case using final unfolding approvals_final_def by auto
  next
    case (8 u)
    then have "task_id u \<noteq> task_id t" using only_t [OF 8(1)] t(4) by auto
    then show ?case using 8(2) by (simp add: x_def)
  next
    case (9 u)
    then have "task_id u \<noteq> task_id t" using only_t [OF 9(1)] t(4) by auto
    then show ?case using 9(2) by (simp add: x_def)
  next
    case (4 y)
    then show ?case using ok_x by (simp add: x_def)
  qed (use count in \<open>simp_all add: x_def e_def w i'\<close>)
qed


section \<open>Handing off and cancelling\<close>

lemma recordHandoff_inv:
  assumes inv: "graph_inv g" and ok: "recordHandoff g k old new w m = Inr g'" and w: "isFinite w"
  shows "graph_inv g'"
proof -
  have v: "valid_graph g" and final: "approvals_final g" using inv by (simp_all add: graph_inv_def)
  let ?ft = "\<lambda>c. if task_id c = k then c\<lparr>ownerAgentId := new\<rparr> else c"
  let ?e = "Plain (Handoff_recorded k old new w m)"
  obtain t where t: "taskById g k = Inr t" "old \<in> agent_ids g" "new \<in> agent_ids g" "js_trim m \<noteq> []"
    and g': "g' = appendRecord (g\<lparr>tasks := map (\<lambda>c. if task_id c = task_id t then c\<lparr>ownerAgentId := new\<rparr> else c) (tasks g)\<rparr>) ?e"
    using ok unfolding recordHandoff_def ebind_Inr_iff require_Inr assertions_Inr Inr_inject by blast
  have mem: "t \<in> set (tasks g)" "task_id t = k" using taskById_Inr [OF t(1)] by blast+
  have g'_eq: "g' = change g ?ft (\<lambda>a. a) [] ?e" unfolding g' change_def by (simp add: mem(2))
  have "kept_task c (?ft c) \<and> ownerAgentId (?ft c) \<in> agent_ids g" if "c \<in> set (tasks g)" for c
  proof (cases "task_id c = k")
    case True
    have "c\<lparr>ownerAgentId := new\<rparr> = c\<lparr>ownerAgentId := new, task_status := task_status c\<rparr>" by simp
    then have "kept_task c (c\<lparr>ownerAgentId := new\<rparr>)" unfolding kept_task_def by blast
    then show ?thesis using True t(3) by simp
  qed (use that owner_known [OF v] kept_status(2) in simp)
  then have g: "gentle g ?ft (\<lambda>a. a)" by (simp add: gentle_def evolves_def)
  have "event_ok g ?e" using mem t by auto
  then have ev: "event_ok (change g ?ft (\<lambda>a. a) [] ?e) ?e" by (rule event_ok_change [OF g])
  show ?thesis unfolding g'_eq
  proof (rule change_keeps_inv [OF inv g _ ev], goal_cases)
    case (6 a u)
    then show ?case using running_expected [OF v 6(1) 6(4) 6(2,3)] by simp
  next
    case (8 u)
    then show ?case by (simp split: if_splits)
  next
    case (9 u)
    then show ?case by (simp split: if_splits)
  next
    case (10 a u)
    then show ?case using final unfolding approvals_final_def by auto
  next
    case 11
    show ?case using count_mono [OF _ change_count [OF g]] valid_graphD(10) [OF v] by (auto simp: attempts_ok_def)
  qed (use w in simp_all)
qed

lemma cancelTaskTree_inv:
  assumes inv: "graph_inv g" and ok: "cancelTaskTree g k w reason = Inr g'" and w: "isFinite w"
  shows "graph_inv g'"
proof -
  have v: "valid_graph g" and final: "approvals_final g" using inv by (simp_all add: graph_inv_def)
  let ?A = "set (cancellationTaskIds g k)"
  define ft where "ft = (\<lambda>t :: GraphTask. if task_id t \<in> ?A \<and> task_status t \<noteq> Task_succeeded then t\<lparr>task_status := Task_cancelled\<rparr> else t)"
  define fa where "fa = (\<lambda>a :: GraphAttempt. if att_taskId a \<in> ?A \<and> att_status a = Attempt_running
    then a\<lparr>att_status := Attempt_cancelled, completedAt := Some w\<rparr> else a)"
  let ?e = "Cancellation k w reason (cancellationTaskIds g k)"
  obtain t where t: "taskById g k = Inr t" and g'_eq: "g' = change g ft fa [] ?e"
    using ok by (auto simp: cancelTaskTree_def ebind_Inr_iff Let_def change_def ft_def fa_def)
  have mem: "t \<in> set (tasks g)" "task_id t = k" using taskById_Inr [OF t] by blast+
  have g: "gentle g ft fa"
    using owner_known [OF v] kept_status w by (auto simp: gentle_def evolves_def ft_def fa_def)
  have "event_ok g ?e" using mem by auto
  then have ev: "event_ok (change g ft fa [] ?e) ?e" by (rule event_ok_change [OF g])
  show ?thesis unfolding g'_eq
  proof (rule change_keeps_inv [OF inv g _ ev], goal_cases)
    case (6 a u)
    then have a: "att_status a = Attempt_running" "att_taskId a \<notin> ?A" by (auto simp: fa_def split: if_splits)
    then show ?case using running_expected [OF v 6(1) a(1) 6(2,3)] 6(3) by (simp add: ft_def)
  next
    case (8 u)
    then show ?case by (simp add: ft_def split: if_splits)
  next
    case (9 u)
    then show ?case by (simp add: ft_def split: if_splits)
  next
    case (10 a u)
    then have "task_status u = Task_succeeded" using final unfolding approvals_final_def by (auto simp: fa_def split: if_splits)
    then show ?case by (simp add: ft_def)
  next
    case 11
    show ?case using count_mono [OF _ change_count [OF g]] valid_graphD(10) [OF v] by (auto simp: attempts_ok_def)
  qed (use w in simp_all)
qed


section \<open>Runs\<close>

text \<open>The name of the attempt that an event starts must not be blank; \<open>applyEvent\<close> itself does not look at it.\<close>

definition named :: "GraphEvent \<Rightarrow> bool" where
  "named e \<longleftrightarrow> (\<forall>i. started_attempt (Plain e) = Some i \<longrightarrow> js_trim i \<noteq> [])"

lemma applyEvent_inv:
  assumes "graph_inv g" "named e" "applyEvent lc g e = Inr g'"
  shows "graph_inv g'"
proof -
  have ok: "transition_event lc g e = Inr g'" and w: "isFinite (event_at e)"
    using assms(3) by (auto simp: applyEvent_def ebind_Inr_iff)
  show ?thesis
    using assms(1,2) ok w
    by (cases e) (auto simp: named_def intro: startWork_inv completeWork_inv recordHandoff_inv cancelTaskTree_inv
        startReview_inv completeReview_inv startRetry_inv startFallback_inv)
qed

end
