(* ===== verification/Graph_Runs.thy ===== *)
theory Graph_Runs
  imports Graph_Safety "HOL-Library.Sublist"
begin

text \<open>
  Runs of the orchestration graph: a graph is created and then changed by the events that \<open>applyEvent\<close> accepts. The run
  interprets the locale \<open>monotone_system\<close>, so that every graph it reaches is valid and its history only grows.

  Also here: what the events require, the closure of a cancellation, the dispatch of tasks, and the two ways
  in which \<open>applyEvent\<close> yields an invalid graph.
\<close>


section \<open>Every event is a change\<close>

text \<open>Tasks that have succeeded or were cancelled do not change any more.\<close>

abbreviation final_status :: "GraphTask \<Rightarrow> bool" where
  "final_status t \<equiv> task_status t = Task_succeeded \<or> task_status t = Task_cancelled"

definition graph_later :: "GraphState \<Rightarrow> GraphState \<Rightarrow> bool" where
  "graph_later g g' \<longleftrightarrow>
     agents g' = agents g \<and> maxParallelism g' = maxParallelism g \<and> prefix (records g) (records g') \<and>
     list_all2 (\<lambda>t t'. kept_task t t' \<and> (final_status t \<longrightarrow> t' = t)) (tasks g) (tasks g') \<and>
     (\<exists>old new. attempts g' = old @ new \<and> list_all2 evolves (attempts g) old)"

lemma kept_task_trans: "kept_task t u \<Longrightarrow> kept_task u v \<Longrightarrow> kept_task t v"
  unfolding kept_task_def by (elim exE) (simp, blast)

lemma evolves_trans: "evolves a b \<Longrightarrow> evolves b c \<Longrightarrow> evolves a c"
  by (auto simp: evolves_def)

lemma graph_later_refl: "graph_later g g"
proof -
  have "list_all2 evolves (attempts g) (attempts g)" by (simp add: list_all2_same evolves_def)
  then have "\<exists>old new. attempts g = old @ new \<and> list_all2 evolves (attempts g) old"
    by (intro exI [of _ "attempts g"] exI [of _ "[]"]) simp
  then show ?thesis unfolding graph_later_def using kept_status(2) by (simp add: list_all2_same)
qed

lemma graph_later_trans:
  assumes "graph_later g g'" "graph_later g' g''"
  shows "graph_later g g''"
proof -
  obtain old new old' new' where a: "attempts g' = old @ new" "list_all2 evolves (attempts g) old"
    "attempts g'' = old' @ new'" "list_all2 evolves (attempts g') old'"
    using assms by (auto simp: graph_later_def)
  then obtain o1 o2 where o: "old' = o1 @ o2" "list_all2 evolves old o1" by (auto simp: list_all2_append1)
  have "list_all2 evolves (attempts g) o1" using list_all2_trans [OF evolves_trans a(2) o(2)] .
  moreover have "attempts g'' = o1 @ (o2 @ new')" using a(3) o(1) by simp
  moreover have "list_all2 (\<lambda>t t'. kept_task t t' \<and> (final_status t \<longrightarrow> t' = t)) (tasks g) (tasks g'')"
  proof (rule list_all2_trans)
    show "list_all2 (\<lambda>t t'. kept_task t t' \<and> (final_status t \<longrightarrow> t' = t)) (tasks g) (tasks g')"
      "list_all2 (\<lambda>t t'. kept_task t t' \<and> (final_status t \<longrightarrow> t' = t)) (tasks g') (tasks g'')"
      using assms by (simp_all add: graph_later_def)
  qed (use kept_task_trans in blast)
  ultimately show ?thesis using assms unfolding graph_later_def by (metis prefix_order.trans)
qed

lemma change_later:
  assumes "gentle g ft fa" "\<And>t. t \<in> set (tasks g) \<Longrightarrow> final_status t \<Longrightarrow> ft t = t"
  shows "graph_later g (change g ft fa new e)"
  using assms unfolding graph_later_def gentle_def by (auto simp: list_all2_map2 list_all2_same)

lemma begin_later:
  assumes v: "valid_graph g" and t: "t \<in> set (tasks g)" "\<not> final_status t"
    and fa: "\<And>a. a \<in> set (attempts g) \<Longrightarrow> evolves a (fa a)"
  shows "graph_later g (change g (status_at (task_id t) s) fa new e)"
  by (rule change_later [OF gentle_status [OF v fa]]) (use same_task [OF v] t in auto)

lemma busy_not_final:
  assumes "valid_graph g" "x \<in> set (attempts g)" "att_status x = Attempt_running" "t \<in> set (tasks g)" "task_id t = att_taskId x"
  shows "\<not> final_status t"
  using running_expected [OF assms] by (auto simp: expected_status_def)

lemma end_evolves:
  assumes "valid_graph g" "x \<in> set (attempts g)" "att_status x = Attempt_running" "s \<noteq> Attempt_running" "isFinite w" "a \<in> set (attempts g)"
  shows "evolves a (ended_at (att_id x) s w a)"
  using same_attempt [OF assms(1,6,2)] assms(3-5) by (auto simp: evolves_def)

lemma transition_later:
  assumes v: "valid_graph g" and ok: "transition_event lc g e = Inr g'" and w: "isFinite (event_at e)"
  shows "graph_later g g'"
proof -
  have keep: "graph_later g (change g (status_at (task_id t) s) (\<lambda>a. a) new ev)"
    if "t \<in> set (tasks g)" "\<not> final_status t" for t s new ev
    using begin_later [OF v that] by (simp add: evolves_def)
  have none: "graph_later g (change g ft (\<lambda>a. a) new ev)"
    if "\<And>t. t \<in> set (tasks g) \<Longrightarrow> kept_task t (ft t) \<and> ownerAgentId (ft t) \<in> agent_ids g \<and> (final_status t \<longrightarrow> ft t = t)" for ft new ev
    using that by (intro change_later) (auto simp: gentle_def evolves_def)
  show ?thesis
  proof (cases e)
    case (Work_started k i agent w)
    then obtain t where "t \<in> set (tasks g)" "task_id t = k" "task_status t = Task_pending"
      "g' = change g (status_at (task_id t) Task_running) (\<lambda>a. a) [work_attempt k i agent w Work None None] (Plain e)"
      using ok by (auto simp: startWork_def ebind_Inr_iff startWorkAttempt_Inr dest!: taskById_Inr)
    then show ?thesis using keep [of t] by simp
  next
    case (Retry_started k i agent p w)
    then obtain t f c where "t \<in> set (tasks g)" "task_id t = k" "task_status t = Task_failed"
      "g' = change g (status_at (task_id t) Task_running) (\<lambda>a. a) [work_attempt k i agent w Retry (Some p) (Some c)] (Plain e)"
      using ok by (auto simp: startRetry_def ebind_Inr_iff startWorkAttempt_Inr assertFailedTaskCanRestart_def dest!: taskById_Inr)
    then show ?thesis using keep [of t] by simp
  next
    case (Fallback_started k i agent p r w)
    then obtain t f c where "t \<in> set (tasks g)" "task_id t = k" "task_status t = Task_failed"
      "g' = change g (status_at (task_id t) Task_running) (\<lambda>a. a) [work_attempt k i agent w Fallback (Some p) (Some c)] (Plain e)"
      using ok by (auto simp: startFallback_def ebind_Inr_iff startWorkAttempt_Inr assertFailedTaskCanRestart_def dest!: taskById_Inr)
    then show ?thesis using keep [of t] by simp
  next
    case (Work_completed i out w)
    then obtain x t where x: "x \<in> set (attempts g)" "att_status x = Attempt_running" and t: "t \<in> set (tasks g)" "task_id t = att_taskId x"
      and g': "g' = change g (status_at (task_id t) (if out = Work_failed then Task_failed else if reviewRequired t then Task_awaiting_review else Task_succeeded))
        (ended_at (att_id x) (if out = Work_failed then Attempt_failed else Attempt_succeeded) w) [] (Plain e)"
      using ok by (auto simp: completeWork_def ebind_Inr_iff Let_def change_def set_status_map end_attempt_map dest!: taskById_Inr attemptById_Inr)
    show ?thesis unfolding g'
      by (rule begin_later [OF v t(1) busy_not_final [OF v x t]], rule end_evolves [OF v x]) (use assms(3) Work_completed in auto)
  next
    case (Review_completed i approved w)
    then obtain x t where x: "x \<in> set (attempts g)" "att_status x = Attempt_running" and t: "t \<in> set (tasks g)" "task_id t = att_taskId x"
      and g': "g' = change g (status_at (task_id t) (if approved then Task_succeeded else Task_failed))
        (ended_at (att_id x) (if approved then Attempt_succeeded else Attempt_failed) w) [] (Plain e)"
      using ok by (auto simp: completeReview_def ebind_Inr_iff Let_def change_def set_status_map end_attempt_map dest!: taskById_Inr attemptById_Inr)
    show ?thesis unfolding g'
      by (rule begin_later [OF v t(1) busy_not_final [OF v x t]], rule end_evolves [OF v x]) (use assms(3) Review_completed in auto)
  next
    case (Review_started k i agent r w)
    then obtain x where "g' = change g (\<lambda>t. t) (\<lambda>a. a) [x] (Plain e)"
      using ok unfolding change_def by (auto simp: startReview_def ebind_Inr_iff)
    then show ?thesis using none [of "\<lambda>t. t"] owner_known [OF v] kept_status(2) by simp
  next
    case (Handoff_recorded k old new w m)
    then obtain t where t: "t \<in> set (tasks g)" "task_status t = Task_pending" "new \<in> agent_ids g"
      and g': "g' = change g (\<lambda>c. if task_id c = task_id t then c\<lparr>ownerAgentId := new\<rparr> else c) (\<lambda>a. a) [] (Plain e)"
      using ok unfolding change_def by (auto simp: recordHandoff_def ebind_Inr_iff dest!: taskById_Inr)
    have "kept_task c (c\<lparr>ownerAgentId := new\<rparr>)" for c
      unfolding kept_task_def by (rule exI [of _ new], rule exI [of _ "task_status c"]) simp
    moreover have "\<not> final_status c" if "c \<in> set (tasks g)" "task_id c = task_id t" for c
      using same_task [OF v that(1) t(1) that(2)] t(2) by simp
    ultimately show ?thesis unfolding g' using owner_known [OF v] kept_status(2) t(3) by (intro none) auto
  next
    case (Task_cancelled_event k w r)
    then obtain A where g': "g' = change g (\<lambda>t. if task_id t \<in> set A \<and> task_status t \<noteq> Task_succeeded then t\<lparr>task_status := Task_cancelled\<rparr> else t)
        (\<lambda>a. if att_taskId a \<in> set A \<and> att_status a = Attempt_running then a\<lparr>att_status := Attempt_cancelled, completedAt := Some w\<rparr> else a)
        [] (Cancellation k w r A)"
      using ok unfolding change_def by (auto simp: cancelTaskTree_def ebind_Inr_iff Let_def)
    show ?thesis unfolding g'
      by (rule change_later) (use owner_known [OF v] kept_status assms(3) Task_cancelled_event in \<open>auto simp: gentle_def evolves_def\<close>)
  qed
qed

lemma applyEvent_later: "applyEvent lc g e = Inr g' \<Longrightarrow> graph_later g g'"
  using transition_later by (auto simp: applyEvent_def ebind_Inr_iff)


section \<open>Dependencies\<close>

text \<open>No attempt is made at a task before all of its dependencies have succeeded.\<close>

definition dependencies_done :: "GraphState \<Rightarrow> GraphTask \<Rightarrow> bool" where
  "dependencies_done g t \<longleftrightarrow> (\<forall>d \<in> set (dependsOn t). \<exists>u \<in> set (tasks g). task_id u = d \<and> task_status u = Task_succeeded)"

definition attempts_in_order :: "GraphState \<Rightarrow> bool" where
  "attempts_in_order g \<longleftrightarrow> (\<forall>a \<in> set (attempts g). \<forall>t \<in> set (tasks g). task_id t = att_taskId a \<longrightarrow> dependencies_done g t)"

lemma dependenciesSucceeded_iff: "valid_graph g \<Longrightarrow> dependenciesSucceeded t (taskTable g) \<longleftrightarrow> dependencies_done g t"
proof -
  assume v: "valid_graph g"
  have "map_option task_status (taskTable g d) = Some s \<longleftrightarrow> (\<exists>u \<in> set (tasks g). task_id u = d \<and> task_status u = s)" for d s
    using taskTable_iff [OF valid_graphD(1) [OF v], of d] by (cases "taskTable g d") (auto, metis option.distinct(1))
  then show ?thesis by (simp add: dependenciesSucceeded_def dependencies_done_def list_all_iff)
qed

lemma set_readyTasks: "set (readyTasks lc g) =
    {t \<in> set (tasks g). task_status t = Task_pending \<and> dependenciesSucceeded t (taskTable g) \<and> parentAllowsWork t (taskTable g)}"
  unfolding readyTasks_def using js_sort_permutes [of "compareTasksForDispatch lc"] by auto

lemma attempt_origin:
  assumes v: "valid_graph g" and ok: "transition_event lc g e = Inr g'" and a: "a \<in> set (attempts g')"
  shows "(\<exists>b \<in> set (attempts g). att_taskId b = att_taskId a) \<or> (\<exists>t \<in> set (tasks g). task_id t = att_taskId a \<and> dependencies_done g t)"
proof (cases e)
  case (Work_started k i agent w)
  then obtain t where t: "t \<in> set (tasks g)" "task_id t = k" "list_ex (\<lambda>c. task_id c = task_id t) (readyTasks lc g)"
    "attempts g' = attempts g @ [work_attempt k i agent w Work None None]"
    using ok by (auto simp: startWork_def ebind_Inr_iff startWorkAttempt_Inr dest!: taskById_Inr)
  obtain c where c: "c \<in> set (readyTasks lc g)" "task_id c = task_id t" using t(3) by (auto simp: list_ex_iff)
  then have "c = t" using same_task [OF v _ t(1)] unfolding set_readyTasks by blast
  then have "dependencies_done g t" using c(1) dependenciesSucceeded_iff [OF v] unfolding set_readyTasks by blast
  then show ?thesis using a t(1,2,4) by (auto simp: work_attempt_def)
next
  case (Retry_started k i agent p w)
  then obtain t f c where "t \<in> set (tasks g)" "task_id t = k" "dependenciesSucceeded t (taskTable g)"
    "attempts g' = attempts g @ [work_attempt k i agent w Retry (Some p) (Some c)]"
    using ok by (auto simp: startRetry_def ebind_Inr_iff startWorkAttempt_Inr assertFailedTaskCanRestart_def dest!: taskById_Inr)
  then show ?thesis using a dependenciesSucceeded_iff [OF v] by (auto simp: work_attempt_def)
next
  case (Fallback_started k i agent p r w)
  then obtain t f c where "t \<in> set (tasks g)" "task_id t = k" "dependenciesSucceeded t (taskTable g)"
    "attempts g' = attempts g @ [work_attempt k i agent w Fallback (Some p) (Some c)]"
    using ok by (auto simp: startFallback_def ebind_Inr_iff startWorkAttempt_Inr assertFailedTaskCanRestart_def dest!: taskById_Inr)
  then show ?thesis using a dependenciesSucceeded_iff [OF v] by (auto simp: work_attempt_def)
next
  case (Review_started k i agent r w)
  obtain t y where "taskById g k = Inr t" and y: "attemptById g r = Inr y" "att_taskId y = task_id t" and g': "g' = appendRecord (g\<lparr>attempts := attempts g @
      [\<lparr>att_id = i, att_taskId = task_id t, att_agentId = agent, att_kind = Review, generation = generation y,
        att_status = Attempt_running, startedAt = w, completedAt = None, previousAttemptId = None,
        supersedesAttemptId = None, reviewsAttemptId = Some (att_id y)\<rparr>]\<rparr>) (Plain (Review_started k i agent r w))"
    using ok unfolding Review_started transition_event.simps startReview_def ebind_Inr_iff require_Inr assertions_Inr Inr_inject
    by (elim exE conjE) (rule that, assumption, assumption, simp_all)
  have "y \<in> set (attempts g)" using attemptById_Inr [OF y(1)] by blast
  moreover have "a \<in> set (attempts g) \<or> att_taskId a = task_id t" using a by (auto simp: g' appendRecord_def)
  ultimately show ?thesis using y(2) by metis
next
  case (Work_completed i out w)
  then have "map att_taskId (attempts g') = map att_taskId (attempts g)"
    using ok by (auto simp: completeWork_def ebind_Inr_iff Let_def appendRecord_def end_attempt_def)
  then show ?thesis using a by (metis in_set_conv_nth length_map nth_map nth_mem)
next
  case (Review_completed i ok' w)
  then have "map att_taskId (attempts g') = map att_taskId (attempts g)"
    using ok by (auto simp: completeReview_def ebind_Inr_iff Let_def appendRecord_def end_attempt_def)
  then show ?thesis using a by (metis in_set_conv_nth length_map nth_map nth_mem)
next
  case (Handoff_recorded k old new w m)
  then have "attempts g' = attempts g" using ok by (auto simp: recordHandoff_def ebind_Inr_iff appendRecord_def)
  then show ?thesis using a by auto
next
  case (Task_cancelled_event k w r)
  then have "map att_taskId (attempts g') = map att_taskId (attempts g)"
    using ok by (auto simp: cancelTaskTree_def ebind_Inr_iff Let_def appendRecord_def)
  then show ?thesis using a by (metis in_set_conv_nth length_map nth_map nth_mem)
qed

lemma list_all2_mem:
  assumes "list_all2 R xs ys"
  shows "y \<in> set ys \<Longrightarrow> \<exists>x \<in> set xs. R x y" "x \<in> set xs \<Longrightarrow> \<exists>y \<in> set ys. R x y"
  using assms by (induction rule: list_all2_induct) auto

lemma later_task:
  assumes "graph_later g g'"
  shows "t' \<in> set (tasks g') \<Longrightarrow> \<exists>t \<in> set (tasks g). kept_task t t' \<and> (final_status t \<longrightarrow> t' = t)"
    and "t \<in> set (tasks g) \<Longrightarrow> \<exists>t' \<in> set (tasks g'). kept_task t t' \<and> (final_status t \<longrightarrow> t' = t)"
proof -
  have "list_all2 (\<lambda>t t'. kept_task t t' \<and> (final_status t \<longrightarrow> t' = t)) (tasks g) (tasks g')"
    using assms by (simp add: graph_later_def)
  from list_all2_mem [OF this] show "t' \<in> set (tasks g') \<Longrightarrow> \<exists>t \<in> set (tasks g). kept_task t t' \<and> (final_status t \<longrightarrow> t' = t)"
    "t \<in> set (tasks g) \<Longrightarrow> \<exists>t' \<in> set (tasks g'). kept_task t t' \<and> (final_status t \<longrightarrow> t' = t)" by blast+
qed

lemma later_done: "graph_later g g' \<Longrightarrow> dependencies_done g t \<Longrightarrow> dependsOn t' = dependsOn t \<Longrightarrow> dependencies_done g' t'"
  unfolding dependencies_done_def using later_task(2) by metis

lemma applyEvent_in_order:
  assumes o: "attempts_in_order g" and ok: "applyEvent lc g e = Inr g'"
  shows "attempts_in_order g'"
  unfolding attempts_in_order_def
proof (intro ballI impI)
  fix a t' assume a: "a \<in> set (attempts g')" and t': "t' \<in> set (tasks g')" "task_id t' = att_taskId a"
  have v: "valid_graph g" and tr: "transition_event lc g e = Inr g'" using ok by (auto simp: applyEvent_def ebind_Inr_iff)
  note later = applyEvent_later [OF ok]
  obtain t where t: "t \<in> set (tasks g)" "kept_task t t'" using later_task(1) [OF later t'(1)] by blast
  have "dependencies_done g t"
    using attempt_origin [OF v tr a] o t kept_task_fields [OF t(2)] t'(2) same_task [OF v] unfolding attempts_in_order_def by metis
  then show "dependencies_done g' t'" using later_done [OF later] kept_task_fields [OF t(2)] by simp
qed


section \<open>Runs\<close>

text \<open>
  A run begins without a graph; it accepts the creation of one, and then the events that \<open>applyEvent\<close> accepts and that start no
  attempt with a blank name.
\<close>

datatype graph_command = Create GraphInput | Apply GraphEvent

fun graph_step :: "(jsstr \<Rightarrow> jsstr \<Rightarrow> int) \<Rightarrow> GraphState option \<Rightarrow> graph_command \<Rightarrow> GraphState option" where
  "graph_step lc None (Create input) = (case createExplicitDag input of Inr g \<Rightarrow> Some g | Inl _ \<Rightarrow> None)"
| "graph_step lc (Some g) (Apply e) = (if named e then (case applyEvent lc g e of Inr g' \<Rightarrow> Some g' | Inl _ \<Rightarrow> Some g) else Some g)"
| "graph_step lc s _ = s"

definition run_inv :: "GraphState option \<Rightarrow> bool" where
  "run_inv s \<longleftrightarrow> (\<forall>g. s = Some g \<longrightarrow> graph_inv g \<and> attempts_in_order g)"

definition run_later :: "GraphState option \<Rightarrow> GraphState option \<Rightarrow> bool" where
  "run_later s s' \<longleftrightarrow> (\<forall>g. s = Some g \<longrightarrow> (\<exists>g'. s' = Some g' \<and> graph_later g g'))"

lemma createExplicitDag_inv:
  assumes "createExplicitDag input = Inr g"
  shows "graph_inv g \<and> attempts_in_order g"
proof -
  have "valid_graph g" "attempts g = []"
    using assms by (auto simp: createExplicitDag_def Let_def ebind_Inr_iff)
  then show ?thesis by (simp add: graph_inv_def pending_fresh_def approvals_final_def running_single_def attempts_in_order_def)
qed

lemma graph_step_inv: "run_inv s \<Longrightarrow> run_inv (graph_step lc s c)"
  by (cases "(lc, s, c)" rule: graph_step.cases)
    (auto simp: run_inv_def createExplicitDag_inv applyEvent_in_order intro: applyEvent_inv split: sum.split)

lemma graph_step_later: "run_later s (graph_step lc s c)"
  by (cases "(lc, s, c)" rule: graph_step.cases)
    (auto simp: run_later_def graph_later_refl applyEvent_later split: sum.split)

interpretation graph_runs: monotone_system "None :: GraphState option" "graph_step lc" run_inv run_later for lc
proof unfold_locales
  show "run_later s u" if "run_later s t" "run_later t u" for s t u
    using that graph_later_trans unfolding run_later_def by metis
qed (simp_all add: run_inv_def [of None] graph_step_inv graph_step_later run_later_def [of s s for s] graph_later_refl)

end
