(* ===== verification/Graph_Properties.thy ===== *)
theory Graph_Properties
  imports Graph_Runs
begin

text \<open>
  The properties of the orchestration graph: the closure of a cancellation, the dispatch of tasks, the errors of
  \<open>applyEvent\<close>, a run that shows the hypotheses can hold, and the theorems.
\<close>


section \<open>The closure of a cancellation\<close>

text \<open>A task hangs on its parent and on its dependencies.\<close>

definition hangs_on :: "GraphTask list \<Rightarrow> (jsstr \<times> jsstr) set" where
  "hangs_on ts = {(task_id t, k) | t k. t \<in> set ts \<and> (parentTaskId t = Some k \<or> k \<in> set (dependsOn t))}"

lemma joins_iff: "joins found t \<longleftrightarrow>
    task_id t \<notin> set found \<and> (\<exists>k \<in> set found. parentTaskId t = Some k \<or> k \<in> set (dependsOn t))"
  by (auto simp: joins_def list_ex_iff split: option.split)

lemma closure_pass_sound:
  assumes "set ts \<subseteq> set us" "set found \<subseteq> {k. \<exists>r \<in> R. (k, r) \<in> (hangs_on us)\<^sup>*}"
  shows "set (closure_pass ts found) \<subseteq> {k. \<exists>r \<in> R. (k, r) \<in> (hangs_on us)\<^sup>*}"
  using assms
proof (induction ts arbitrary: found)
  case (Cons t ts)
  have "\<exists>r \<in> R. (task_id t, r) \<in> (hangs_on us)\<^sup>*" if j: "joins found t"
  proof -
    obtain k where k: "k \<in> set found" "parentTaskId t = Some k \<or> k \<in> set (dependsOn t)" using j by (auto simp: joins_iff)
    have "(task_id t, k) \<in> hangs_on us" using k(2) Cons.prems(1) unfolding hangs_on_def by auto
    moreover obtain r where "r \<in> R" "(k, r) \<in> (hangs_on us)\<^sup>*" using k(1) Cons.prems(2) by auto
    ultimately show ?thesis by (meson converse_rtrancl_into_rtrancl)
  qed
  then show ?case using Cons.prems Cons.IH by auto
qed simp

lemma closure_pass_fixed:
  assumes "closure_pass ts found = found" "t \<in> set ts"
  shows "\<not> joins found t"
  using assms
proof (induction ts arbitrary: found)
  case (Cons u us)
  have none: "\<not> joins found u"
  proof
    assume j: "joins found u"
    then have "length (found @ [task_id u]) \<le> length (closure_pass us (found @ [task_id u]))"
      using closure_pass_new [of "found @ [task_id u]" us] by (cases "closure_pass us (found @ [task_id u]) = found @ [task_id u]") auto
    then show False using Cons.prems(1) j by simp
  qed
  then show ?case using Cons by auto
qed simp

lemma closure_loop_exact:
  assumes "distinct found" "R = set found"
  shows "distinct (closure_loop ts found) \<and> set (closure_loop ts found) = {k. \<exists>r \<in> R. (k, r) \<in> (hangs_on ts)\<^sup>*}"
proof -
  have "distinct (closure_loop ts f) \<and> R \<subseteq> set (closure_loop ts f) \<and>
      set (closure_loop ts f) \<subseteq> {k. \<exists>r \<in> R. (k, r) \<in> (hangs_on ts)\<^sup>*} \<and> closure_pass ts (closure_loop ts f) = closure_loop ts f"
    if "distinct f" "R \<subseteq> set f" "set f \<subseteq> {k. \<exists>r \<in> R. (k, r) \<in> (hangs_on ts)\<^sup>*}" for f
    using that
  proof (induction ts f rule: closure_loop.induct)
    case (1 ts f)
    show ?case
    proof (cases "closure_pass ts f = f")
      case True
      then have "closure_loop ts f = f" by (subst closure_loop.simps) simp
      with True 1(2-4) show ?thesis by simp
    next
      case False
      then have "closure_loop ts f = closure_loop ts (closure_pass ts f)" by (subst closure_loop.simps) simp
      moreover have "distinct (closure_pass ts f)" "R \<subseteq> set (closure_pass ts f)"
        using closure_pass_new [of f ts] 1(2,3) by blast+
      ultimately show ?thesis using 1(1) [OF refl False] closure_pass_sound [OF order.refl 1(4)] by simp
    qed
  qed
  from this [of found] have loop: "distinct (closure_loop ts found)" "R \<subseteq> set (closure_loop ts found)"
      "set (closure_loop ts found) \<subseteq> {k. \<exists>r \<in> R. (k, r) \<in> (hangs_on ts)\<^sup>*}"
      "closure_pass ts (closure_loop ts found) = closure_loop ts found"
    using assms by auto
  have "k \<in> set (closure_loop ts found)" if "(k, r) \<in> (hangs_on ts)\<^sup>*" "r \<in> R" for k r
    using that(1)
  proof (induction rule: converse_rtrancl_induct)
    case (step j k)
    then obtain t where "t \<in> set ts" "task_id t = j" "parentTaskId t = Some k \<or> k \<in> set (dependsOn t)"
      unfolding hangs_on_def by blast
    then show ?case using closure_pass_fixed [OF loop(4), of t] step.IH unfolding joins_iff by blast
  qed (use loop(2) that(2) in blast)
  then show ?thesis using loop(1,3) by blast
qed

lemma cancellationTaskIds_exact:
  "set (cancellationTaskIds g k) = {j. (j, k) \<in> (hangs_on (tasks g))\<^sup>*} \<and> sorted (cancellationTaskIds g k) \<and> distinct (cancellationTaskIds g k)"
  using closure_loop_exact [of "[k]" "{k}" "tasks g"] by (simp add: cancellationTaskIds_def)


section \<open>Dispatch\<close>

lemma insert_priority:
  assumes "sorted_wrt (\<lambda>t u. diff_sign (task_priority t) (task_priority u) \<ge> 0) ts"
    "\<forall>t \<in> set (x # ts). isFinite (task_priority t)"
  shows "sorted_wrt (\<lambda>t u. diff_sign (task_priority t) (task_priority u) \<ge> 0) (js_insert (compareTasksForDispatch lc) x ts)"
proof -
  have fin: "\<exists>r. task_priority t = NumFin r" if "t \<in> set (x # ts)" for t
    using assms(2) that by (cases "task_priority t") auto
  define val where "val t = (case task_priority t of NumFin r \<Rightarrow> r | _ \<Rightarrow> 0)" for t :: GraphTask
  have sign: "diff_sign (task_priority t) (task_priority u) = (if val t < val u then - 1 else if val t > val u then 1 else 0)"
    if "t \<in> set (x # ts)" "u \<in> set (x # ts)" for t u
    using fin [OF that(1)] fin [OF that(2)] by (auto simp: val_def)
  have le: "diff_sign (task_priority t) (task_priority u) \<ge> 0 \<longleftrightarrow> val u \<le> val t" if "t \<in> set (x # ts)" "u \<in> set (x # ts)" for t u
    using sign [OF that] by auto
  have mem: "set (js_insert cmp x us) = insert x (set us)" for cmp us by (induction us) auto
  have "sorted_wrt (\<lambda>t u. val u \<le> val t) (js_insert (compareTasksForDispatch lc) x us)"
    if "sorted_wrt (\<lambda>t u. val u \<le> val t) us" "set us \<subseteq> set ts" for us
    using that
  proof (induction us)
    case (Cons y us)
    have y: "diff_sign (task_priority y) (task_priority x) = (if val y < val x then - 1 else if val y > val x then 1 else 0)"
      using sign Cons.prems(2) by simp
    show ?case
    proof (cases "compareTasksForDispatch lc x y \<le> 0")
      case True
      then have "val y \<le> val x" using y by (auto simp: compareTasksForDispatch_def Let_def split: if_splits)
      then show ?thesis using True Cons.prems by auto
    next
      case False
      then have "val x \<le> val y" using y by (auto simp: compareTasksForDispatch_def Let_def split: if_splits)
      then show ?thesis using False Cons by (auto simp: mem)
    qed
  qed simp
  moreover have "sorted_wrt (\<lambda>t u. val u \<le> val t) ts"
    using assms(1) by (rule sorted_wrt_mono_rel [rotated]) (use le in auto)
  ultimately have "sorted_wrt (\<lambda>t u. val u \<le> val t) (js_insert (compareTasksForDispatch lc) x ts)" by blast
  then show ?thesis by (rule sorted_wrt_mono_rel [rotated]) (use le mem in auto)
qed

lemma sort_priority:
  assumes "\<forall>t \<in> set ts. isFinite (task_priority t)"
  shows "sorted_wrt (\<lambda>t u. diff_sign (task_priority t) (task_priority u) \<ge> 0) (js_sort (compareTasksForDispatch lc) ts)"
  using assms
proof (induction ts)
  case (Cons t ts)
  have "\<forall>u \<in> set (t # js_sort (compareTasksForDispatch lc) ts). isFinite (task_priority u)"
    using Cons.prems js_sort_permutes [of "compareTasksForDispatch lc" ts] by auto
  then show ?case using insert_priority [of "js_sort (compareTasksForDispatch lc) ts" t lc] Cons by (simp add: js_sort_def)
qed (simp add: js_sort_def)

lemma take_capacity_bound:
  assumes "positive_integer limit" "\<not> count_exceeds active limit"
  shows "\<exists>n. take_capacity limit active xs = take n xs \<and> limit = num_int (int (active + n))"
proof -
  obtain m where m: "limit = num_int m" "m \<ge> 1" using assms(1) by (auto simp: positive_integer_def)
  then have "int active \<le> m" using assms(2) by (simp add: not_less)
  moreover have "\<lfloor>(of_int m :: rat) - of_nat active\<rfloor> = m - int active"
    by (metis floor_of_int of_int_diff of_int_of_nat_eq)
  ultimately show ?thesis using m(1) by (intro exI [of _ "nat (m - int active)"]) simp
qed

lemma startWork_Inr:
  assumes v: "valid_graph g" and t: "t \<in> set (readyTasks lc g)" and i: "i \<notin> att_id ` set (attempts g)"
    and free: "\<not> count_reaches (activeAttemptCount g) (maxParallelism g)"
  shows "\<exists>g'. startWork lc g (task_id t) i (ownerAgentId t) w = Inr g'"
proof -
  have mem: "t \<in> set (tasks g)" "task_status t = Task_pending" using t by (auto simp: set_readyTasks)
  have "find (\<lambda>u. task_id u = task_id t) (tasks g) = Some t"
    using mem(1) valid_graphD(1) [OF v] same_task [OF v _ mem(1)]
    by (metis (mono_tags, lifting) find_None_conv find_Some_mem option.exhaust)
  then have found: "taskById g (task_id t) = Inr t" by (simp add: taskById_def)
  have "list_ex (\<lambda>c. task_id c = task_id t) (readyTasks lc g)" using t by (auto simp: list_ex_iff)
  then have ready: "require (list_ex (\<lambda>c. task_id c = task_id t) (readyTasks lc g)) m ids = Inr ()" for m ids by simp
  have agent: "assertAgentExists g (ownerAgentId t) = Inr ()" using owner_known [OF v mem(1)] by simp
  have room: "assertParallelismAvailable g = Inr ()" using free by simp
  have fresh: "assertUnusedAttemptId g i = Inr ()" using i by simp
  show ?thesis
    unfolding startWork_def found ebind_simps agent ready room fresh startWorkAttempt_def using mem(2) by (simp add: require_def)
qed


section \<open>Errors\<close>

text \<open>A graph that is valid is refused only for the event.\<close>

abbreviation transition_error :: "graph_error + 'a \<Rightarrow> bool" where
  "transition_error r \<equiv> \<forall>issues. r \<noteq> Inl (GraphValidationError issues)"

lemma ebind_transition_error: "transition_error m \<Longrightarrow> (\<And>x. transition_error (f x)) \<Longrightarrow> transition_error (ebind m f)"
  by (cases m) auto

lemma simple_transition_errors:
  "transition_error (require ok m ids)" "transition_error (taskById g k)" "transition_error (attemptById g k)"
  "transition_error (assertAgentExists g k)" "transition_error (assertFiniteTimestamp w)" "transition_error (assertUnusedAttemptId g k)"
  "transition_error (assertParallelismAvailable g)" "transition_error (assertFailedAttemptForTask g k i)"
  "transition_error (assertFailureIsOnCurrentWork g k f)"
  by (auto simp: require_def taskById_def attemptById_def assertAgentExists_def assertFiniteTimestamp_def assertUnusedAttemptId_def
      assertParallelismAvailable_def assertFailedAttemptForTask_def assertFailureIsOnCurrentWork_def Let_def split: option.split)

lemma restart_transition_error: "transition_error (assertFailedTaskCanRestart g t ag)"
  unfolding assertFailedTaskCanRestart_def by (intro ebind_transition_error simple_transition_errors)

lemma transition_event_error: "transition_error (transition_event lc g e)"
proof -
  note steps = ebind_transition_error simple_transition_errors restart_transition_error
  have start: "transition_error (startWorkAttempt g ev k i ag w kd p old)" for ev k i ag w kd p old
    unfolding startWorkAttempt_def by (intro steps) simp
  show ?thesis
    by (cases e; simp only: transition_event.simps startWork_def completeWork_def recordHandoff_def startReview_def completeReview_def
        startRetry_def startFallback_def cancelTaskTree_def Let_def; intro steps start allI; simp)
qed



section \<open>Demonstration\<close>

text \<open>
  Two agents; the work at task \<open>t\<close> is done by one and reviewed by the other; task \<open>u\<close> depends on \<open>t\<close>.
\<close>

definition demo_order :: "jsstr \<Rightarrow> jsstr \<Rightarrow> int" where
  "demo_order a b = (if a < b then - 1 else if a = b then 0 else 1)"

definition demo_agent :: "string \<Rightarrow> GraphAgent" where
  "demo_agent i = \<lparr>agent_id = js i, agent_label = js i, parentAgentId = None\<rparr>"

definition demo_task :: "string \<Rightarrow> string list \<Rightarrow> bool \<Rightarrow> TaskStatus \<Rightarrow> GraphTask" where
  "demo_task i deps reviewed s =
     \<lparr>task_id = js i, task_title = js i, ownerAgentId = js ''a'', parentTaskId = None, dependsOn = map js deps,
      task_priority = num_int 0, reviewRequired = reviewed, task_status = s\<rparr>"

definition graph_demo_input :: GraphInput where
  "graph_demo_input =
     \<lparr>input_maxParallelism = num_int 1, input_agents = [demo_agent ''a'', demo_agent ''b''],
      input_tasks =
        [\<lparr>input_id = js ''t'', input_title = js ''t'', input_ownerAgentId = js ''a'', input_parentTaskId = None,
          input_dependsOn = None, input_priority = None, input_reviewRequired = Some True\<rparr>,
         \<lparr>input_id = js ''u'', input_title = js ''u'', input_ownerAgentId = js ''a'', input_parentTaskId = None,
          input_dependsOn = Some [js ''t''], input_priority = None, input_reviewRequired = None\<rparr>]\<rparr>"

definition demo_graph :: "TaskStatus \<Rightarrow> GraphAttempt list \<Rightarrow> GraphRecord list \<Rightarrow> GraphState" where
  "demo_graph s as rs =
     \<lparr>schemaVersion = GRAPH_SCHEMA_VERSION, maxParallelism = num_int 1, agents = [demo_agent ''a'', demo_agent ''b''],
      tasks = [demo_task ''t'' [] True s, demo_task ''u'' [''t''] False Task_pending], attempts = as, records = rs\<rparr>"

definition demo_work :: "string \<Rightarrow> AttemptStatus \<Rightarrow> jsnum option \<Rightarrow> GraphAttempt" where
  "demo_work i s w = (work_attempt (js ''t'') (js i) (js ''a'') (num_int 1) Work None None)\<lparr>att_status := s, completedAt := w\<rparr>"

definition demo_review :: "AttemptStatus \<Rightarrow> jsnum option \<Rightarrow> GraphAttempt" where
  "demo_review s w =
     \<lparr>att_id = js ''y'', att_taskId = js ''t'', att_agentId = js ''b'', att_kind = Review, generation = num_int 1, att_status = s,
      startedAt = num_int 3, completedAt = w, previousAttemptId = None, supersedesAttemptId = None, reviewsAttemptId = Some (js ''x'')\<rparr>"

definition graph_demo_record :: "int \<Rightarrow> GraphEvent \<Rightarrow> GraphRecord" where
  "graph_demo_record n e = \<lparr>sequence = num_int n, record_event = Plain e\<rparr>"

definition demo_events :: "GraphEvent list" where
  "demo_events =
     [Work_started (js ''t'') (js ''x'') (js ''a'') (num_int 1), Work_completed (js ''x'') Work_ok (num_int 2),
      Review_started (js ''t'') (js ''y'') (js ''b'') (js ''x'') (num_int 3), Review_completed (js ''y'') True (num_int 4)]"

definition demo_state :: "nat \<Rightarrow> GraphState option" where
  "demo_state n = foldl (graph_step demo_order) None (Create graph_demo_input # map Apply (take n demo_events))"

lemmas demo_defs = demo_agent_def demo_task_def demo_graph_def demo_work_def demo_review_def graph_demo_record_def work_attempt_def

lemma demo_nonblank: "js_trim (js ''a'') \<noteq> []" "js_trim (js ''b'') \<noteq> []" "js_trim (js ''t'') \<noteq> []" "js_trim (js ''u'') \<noteq> []"
  "js_trim (js ''x'') \<noteq> []" "js_trim (js ''y'') \<noteq> []" "js_trim (js ''z'') \<noteq> []"
  by (simp_all add: js_def js_trim_def js_char)

lemma demo_structure: "structure_ok (demo_graph s as rs)"
proof -
  have "parent_relation (map (\<lambda>a. (agent_id a, parentAgentId a)) [demo_agent ''a'', demo_agent ''b'']) = {}"
    by (simp add: parent_relation_def demo_agent_def)
  moreover have "parent_relation (map (\<lambda>t. (task_id t, parentTaskId t)) [demo_task ''t'' [] True s, demo_task ''u'' [''t''] False Task_pending]) = {}"
    by (simp add: parent_relation_def demo_task_def)
  moreover have "dependency_relation [demo_task ''t'' [] True s, demo_task ''u'' [''t''] False Task_pending] \<subseteq> {(js ''t'', js ''u'')}"
    by (auto simp: dependency_relation_def demo_task_def)
  then have "acyclic (dependency_relation [demo_task ''t'' [] True s, demo_task ''u'' [''t''] False Task_pending])"
    by (rule acyclic_subset [rotated]) (simp add: acyclic_insert wf_acyclic)
  ultimately show ?thesis
    by (simp add: structure_ok_def demo_graph_def agent_ok_def task_ok_def demo_nonblank demo_agent_def demo_task_def
        positive_integer_def acyclic_def)
qed

lemma demo_created: "createExplicitDag graph_demo_input = Inr (demo_graph Task_pending [] [])"
proof -
  have eq: "\<lparr>schemaVersion = GRAPH_SCHEMA_VERSION, maxParallelism = input_maxParallelism graph_demo_input,
      agents = map copyAgent (input_agents graph_demo_input), tasks = map create_task (input_tasks graph_demo_input), attempts = [], records = []\<rparr> =
      demo_graph Task_pending [] []"
    by (simp add: graph_demo_input_def demo_defs copyAgent_def create_task_def)
  have "attempts_ok (demo_graph Task_pending [] [])"
    by (simp add: attempts_ok_def demo_defs activeAttemptCount_def chain_ok_def work_of_def outcome_ok_def)
  moreover have "records_ok (demo_graph Task_pending [] [])"
    by (simp add: records_ok_def demo_defs List.map_filter_def)
  ultimately have "valid_graph (demo_graph Task_pending [] [])" using demo_structure by (simp add: valid_graph_def)
  then have ok: "assertValidGraph (demo_graph Task_pending [] []) = Inr ()" by simp
  show ?thesis by (simp only: createExplicitDag_def Let_def eq ok ebind_simps)
qed

lemma demo_states:
  "demo_state 0 = Some (demo_graph Task_pending [] [])"
  "demo_state 1 = Some (demo_graph Task_running [demo_work ''x'' Attempt_running None] [graph_demo_record 1 (demo_events ! 0)])"
  "demo_state 2 = Some (demo_graph Task_awaiting_review [demo_work ''x'' Attempt_succeeded (Some (num_int 2))]
     [graph_demo_record 1 (demo_events ! 0), graph_demo_record 2 (demo_events ! 1)])"
  "demo_state 3 = Some (demo_graph Task_awaiting_review [demo_work ''x'' Attempt_succeeded (Some (num_int 2)), demo_review Attempt_running None]
     [graph_demo_record 1 (demo_events ! 0), graph_demo_record 2 (demo_events ! 1), graph_demo_record 3 (demo_events ! 2)])"
  "demo_state 4 = Some (demo_graph Task_succeeded
     [demo_work ''x'' Attempt_succeeded (Some (num_int 2)), demo_review Attempt_succeeded (Some (num_int 4))]
     [graph_demo_record 1 (demo_events ! 0), graph_demo_record 2 (demo_events ! 1), graph_demo_record 3 (demo_events ! 2), graph_demo_record 4 (demo_events ! 3)])"
proof -
  have reach: "reachable None (graph_step demo_order) (demo_state n)" for n unfolding demo_state_def by (rule reachable_foldl)
  have valid: "valid_graph g" if "demo_state n = Some g" for n g
    using graph_runs.reachable_inv [OF reach [of n]] that by (simp add: run_inv_def graph_inv_def)
  have next_state: "demo_state (Suc n) = Some g'"
    if "demo_state n = Some g" "n < length demo_events" "named (demo_events ! n)" "isFinite (event_at (demo_events ! n))"
      "transition_event demo_order g (demo_events ! n) = Inr g'" for n g g'
  proof -
    have "demo_state (Suc n) = graph_step demo_order (demo_state n) (Apply (demo_events ! n))"
      using that(2) by (simp add: demo_state_def take_Suc_conv_app_nth)
    moreover have "assertValidGraph g = Inr ()" using valid [OF that(1)] by simp
    moreover have "assertFiniteTimestamp (event_at (demo_events ! n)) = Inr ()" using that(4) by simp
    ultimately show ?thesis using that(1,3,5) by (simp only: graph_step.simps applyEvent_def ebind_simps if_True sum.case)
  qed
  show 0: "demo_state 0 = Some (demo_graph Task_pending [] [])" by (simp add: demo_state_def demo_created)
  note eval = demo_events_def named_def demo_nonblank demo_defs ebind_def require_def taskById_def attemptById_def assertAgentExists_def
    assertUnusedAttemptId_def assertParallelismAvailable_def activeAttemptCount_def startWork_def startWorkAttempt_def completeWork_def
    startReview_def completeReview_def readyTasks_def js_sort_def dependenciesSucceeded_def parentAllowsWork_def js_lookup_def
    set_status_def end_attempt_def appendRecord_def currentWorkAttempt_def superseded_def List.map_filter_simps Let_def
  show 1: "demo_state 1 = Some (demo_graph Task_running [demo_work ''x'' Attempt_running None] [graph_demo_record 1 (demo_events ! 0)])"
    unfolding One_nat_def by (rule next_state [OF 0]) (simp_all add: eval)
  show 2: "demo_state 2 = Some (demo_graph Task_awaiting_review [demo_work ''x'' Attempt_succeeded (Some (num_int 2))]
     [graph_demo_record 1 (demo_events ! 0), graph_demo_record 2 (demo_events ! 1)])"
    unfolding numeral_2_eq_2 by (rule next_state [OF 1 [unfolded One_nat_def]]) (simp_all add: eval)
  show 3: "demo_state 3 = Some (demo_graph Task_awaiting_review [demo_work ''x'' Attempt_succeeded (Some (num_int 2)), demo_review Attempt_running None]
     [graph_demo_record 1 (demo_events ! 0), graph_demo_record 2 (demo_events ! 1), graph_demo_record 3 (demo_events ! 2)])"
    unfolding numeral_3_eq_3 by (rule next_state [OF 2 [unfolded numeral_2_eq_2]]) (simp_all add: eval)
  show "demo_state 4 = Some (demo_graph Task_succeeded
     [demo_work ''x'' Attempt_succeeded (Some (num_int 2)), demo_review Attempt_succeeded (Some (num_int 4))]
     [graph_demo_record 1 (demo_events ! 0), graph_demo_record 2 (demo_events ! 1), graph_demo_record 3 (demo_events ! 2), graph_demo_record 4 (demo_events ! 3)])"
    using next_state [OF 3] by (simp add: eval)
qed

lemma graph_demo_reachable: "reachable None (graph_step demo_order) (demo_state n)"
  unfolding demo_state_def by (rule reachable_foldl)

lemma reachable_graph:
  assumes "reachable None (graph_step lc) (Some g)"
  shows "valid_graph g" "graph_inv g" "attempts_in_order g"
  using graph_runs.reachable_inv [OF assms] by (auto simp: run_inv_def graph_inv_def)

lemma applyEvent_valid: "valid_graph g \<Longrightarrow> applyEvent lc g e = ebind (assertFiniteTimestamp (event_at e)) (\<lambda>_. transition_event lc g e)"
  by (simp add: applyEvent_def assertValidGraph_def Let_def validateGraph_Nil)


section \<open>Properties\<close>

text \<open>
  C9: the validation of a graph is exact. It reports nothing exactly if identifiers are unique and present, parents and
  dependencies exist and form no cycle, attempts refer to what they say and agree with the status of their
  task, the work at each task forms one chain of generations, successes are borne out by current work and an
  approved review where one is required, and the records tell the attempts in order.
\<close>

theorem validation_decides_validity: "validateGraph g = [] \<longleftrightarrow> valid_graph g"
  by (rule validateGraph_Nil)

text \<open>
  C3: every graph of a run passes the validation, after every event that starts no attempt with a blank name; no
  event is refused because the graph itself is invalid.
\<close>

theorem run_graphs_valid:
  assumes "reachable None (graph_step lc) (Some g)"
  shows "validateGraph g = [] \<and> (\<forall>issues. applyEvent lc g e \<noteq> Inl (GraphValidationError issues)) \<and>
    (named e \<and> applyEvent lc g e = Inr g' \<longrightarrow> validateGraph g' = [])"
proof (intro conjI impI)
  note v = reachable_graph [OF assms]
  show "validateGraph g = []" using v(1) by (simp add: validateGraph_Nil)
  show "transition_error (applyEvent lc g e)"
    unfolding applyEvent_valid [OF v(1)] by (intro ebind_transition_error simple_transition_errors transition_event_error)
  assume "named e \<and> applyEvent lc g e = Inr g'"
  then have "graph_inv g'" using applyEvent_inv v(2) by blast
  then show "validateGraph g' = []" by (simp add: graph_inv_def validateGraph_Nil)
qed

theorem run_graphs_valid_witness:
  "validateGraph (demo_graph Task_running [demo_work ''x'' Attempt_running None] [graph_demo_record 1 (demo_events ! 0)]) = []"
  using run_graphs_valid [of demo_order] graph_demo_reachable [of 1] demo_states(2) by simp

text \<open>
  C4: in every graph of a run, no attempt was made at a task before all its dependencies had succeeded, and a task has
  succeeded only with succeeded work and, where a review is required, an approval of that work by another agent.
\<close>

theorem work_in_order:
  assumes "reachable None (graph_step lc) (Some g)" and "t \<in> set (tasks g)"
  shows "((\<exists>a \<in> set (attempts g). att_taskId a = task_id t) \<longrightarrow>
      (\<forall>d \<in> set (dependsOn t). \<exists>u \<in> set (tasks g). task_id u = d \<and> task_status u = Task_succeeded)) \<and>
    (task_status t = Task_succeeded \<longrightarrow>
      (\<exists>c \<in> set (attempts g). att_taskId c = task_id t \<and> att_kind c \<noteq> Review \<and> att_status c = Attempt_succeeded \<and>
        (reviewRequired t \<longrightarrow> (\<exists>a \<in> set (attempts g). att_kind a = Review \<and> att_status a = Attempt_succeeded \<and>
           reviewsAttemptId a = Some (att_id c) \<and> att_agentId a \<noteq> att_agentId c))))"
proof (intro conjI impI)
  note v = reachable_graph [OF assms(1)]
  show "\<forall>d \<in> set (dependsOn t). \<exists>u \<in> set (tasks g). task_id u = d \<and> task_status u = Task_succeeded"
    if ex: "\<exists>a \<in> set (attempts g). att_taskId a = task_id t"
  proof -
    obtain a where "a \<in> set (attempts g)" "task_id t = att_taskId a" using ex by metis
    then have "dependencies_done g t" using v(3) assms(2) unfolding attempts_in_order_def by blast
    then show ?thesis by (simp only: dependencies_done_def)
  qed
  assume "task_status t = Task_succeeded"
  then obtain c where c: "currentWorkAttempt g (task_id t) = Some c" "att_status c = Attempt_succeeded"
    "reviewRequired t \<longrightarrow> (\<exists>a \<in> set (attempts g). approves t c a)"
    using valid_graphD(7) [OF v(1) assms(2)] by (auto simp: outcome_ok_def)
  note mem = current_mem [OF c(1)]
  have other: "att_agentId a \<noteq> att_agentId c" if a: "a \<in> set (attempts g)" "approves t c a" for a
  proof -
    have "lineage_ok g a" using valid_graphD(4) [OF v(1)] a(1) by blast
    moreover have "att_kind a = Review" "reviewsAttemptId a = Some (att_id c)" using a(2) by (simp_all add: approves_def)
    ultimately obtain r where r: "r \<in> set (attempts g)" "reviews a r" "att_id r = att_id c"
      by (auto simp: lineage_ok_def reviews_def)
    then have "r = c" using same_attempt [OF v(1) r(1)] mem by blast
    then show ?thesis using r(2) by (auto simp: reviews_def)
  qed
  show "\<exists>c \<in> set (attempts g). att_taskId c = task_id t \<and> att_kind c \<noteq> Review \<and> att_status c = Attempt_succeeded \<and>
      (reviewRequired t \<longrightarrow> (\<exists>a \<in> set (attempts g). att_kind a = Review \<and> att_status a = Attempt_succeeded \<and>
         reviewsAttemptId a = Some (att_id c) \<and> att_agentId a \<noteq> att_agentId c))"
  proof (rule bexI [of _ c], intro conjI impI)
    assume "reviewRequired t"
    then obtain a where "a \<in> set (attempts g)" "approves t c a" using c(3) by blast
    with other [OF this] show "\<exists>a \<in> set (attempts g). att_kind a = Review \<and> att_status a = Attempt_succeeded \<and>
        reviewsAttemptId a = Some (att_id c) \<and> att_agentId a \<noteq> att_agentId c"
      by (intro bexI [of _ a]) (simp_all add: approves_def)
  qed (use mem c(2) in simp_all)
qed

theorem work_in_order_witness:
  "\<exists>g t. reachable None (graph_step demo_order) (Some g) \<and> t \<in> set (tasks g) \<and> reviewRequired t \<and>
     (\<exists>a \<in> set (attempts g). att_kind a = Review \<and> att_status a = Attempt_succeeded)"
proof -
  obtain g where g: "demo_state 4 = Some g" using demo_states(5) by blast
  have r: "reachable None (graph_step demo_order) (Some g)" using graph_demo_reachable [of 4] g by simp
  have "demo_task ''t'' [] True Task_succeeded \<in> set (tasks g)" using g demo_states(5) by (auto simp: demo_graph_def)
  from work_in_order [OF r this] r this show ?thesis
    by (intro exI [of _ g] exI [of _ "demo_task ''t'' [] True Task_succeeded"]) (auto simp: demo_task_def)
qed

text \<open>
  C36: history only grows. In every continuation of a run the records and attempts of before are still there, an attempt that has
  ended and a task that has succeeded or was cancelled never change again, and no task, agent or limit is lost.
\<close>

theorem graph_history_grows:
  assumes "reachable None (graph_step lc) (Some g)"
  shows "\<exists>g'. foldl (graph_step lc) (Some g) cs = Some g' \<and> graph_later g g'"
proof -
  have "run_later (Some g) (foldl (graph_step lc) (Some g) cs)"
    by (rule graph_runs.foldl_later [OF graph_runs.reachable_inv [OF assms]])
  then show ?thesis by (simp add: run_later_def)
qed

theorem graph_history_grows_witness:
  "\<exists>g g'. demo_state 1 = Some g \<and> demo_state 4 = Some g' \<and> graph_later g g'"
proof -
  obtain g where g: "demo_state 1 = Some g" using demo_states(2) by blast
  have "demo_state 4 = foldl (graph_step demo_order) (Some g) (map Apply (drop 1 demo_events))"
    using g by (simp add: demo_state_def demo_events_def)
  then show ?thesis using graph_history_grows [of demo_order g "map Apply (drop 1 demo_events)"] graph_demo_reachable [of 1] g by auto
qed

text \<open>
  C37: a cancellation affects exactly the task named and every task that hangs on an affected one as a child or
  as a dependent. Affected tasks that have not succeeded are cancelled with their running attempts, nothing else
  changes, and the record names the affected tasks in order.
\<close>

theorem cancellation_exact:
  assumes "applyEvent lc g (Task_cancelled_event k w reason) = Inr g'"
  shows "(\<exists>ids. records g' = records g @ [\<lparr>sequence = num_int (int (length (records g)) + 1), record_event = Cancellation k w reason ids\<rparr>] \<and>
      set ids = {j. (j, k) \<in> (hangs_on (tasks g))\<^sup>*} \<and> sorted ids \<and> distinct ids) \<and>
    tasks g' = map (\<lambda>t. if (task_id t, k) \<in> (hangs_on (tasks g))\<^sup>* \<and> task_status t \<noteq> Task_succeeded
      then t\<lparr>task_status := Task_cancelled\<rparr> else t) (tasks g) \<and>
    attempts g' = map (\<lambda>a. if (att_taskId a, k) \<in> (hangs_on (tasks g))\<^sup>* \<and> att_status a = Attempt_running
      then a\<lparr>att_status := Attempt_cancelled, completedAt := Some w\<rparr> else a) (attempts g)"
proof -
  have ids: "j \<in> set (cancellationTaskIds g k) \<longleftrightarrow> (j, k) \<in> (hangs_on (tasks g))\<^sup>*" for j
    using cancellationTaskIds_exact [of g k] by blast
  show ?thesis
    using assms cancellationTaskIds_exact [of g k]
    by (auto simp: applyEvent_def ebind_Inr_iff cancelTaskTree_def Let_def appendRecord_def ids)
qed

theorem cancellation_exact_witness:
  "\<exists>g'. applyEvent demo_order (demo_graph Task_pending [] []) (Task_cancelled_event (js ''t'') (num_int 1) []) = Inr g' \<and>
     map task_status (tasks g') = [Task_cancelled, Task_cancelled]"
proof -
  let ?g = "demo_graph Task_pending [] []"
  have v: "valid_graph ?g" using reachable_graph(1) [of demo_order] graph_demo_reachable [of 0] demo_states(1) by simp
  obtain g' where g': "applyEvent demo_order ?g (Task_cancelled_event (js ''t'') (num_int 1) []) = Inr g'"
    unfolding applyEvent_valid [OF v]
    by (simp add: assertFiniteTimestamp_def require_def cancelTaskTree_def taskById_def demo_graph_def demo_task_def Let_def)
  have "(js ''u'', js ''t'') \<in> (hangs_on (tasks ?g))\<^sup>*"
    unfolding hangs_on_def
    by (rule r_into_rtrancl, rule CollectI, rule exI [of _ "demo_task ''u'' [''t''] False Task_pending"], rule exI [of _ "js ''t''"])
      (simp add: demo_graph_def demo_task_def)
  then show ?thesis using cancellation_exact [OF g'] g' by (auto simp: demo_graph_def demo_task_def)
qed

text \<open>
  C38: on every graph that passes validation, reached by events or restored from a snapshot: the tasks offered for dispatch can all be started by
  their owners, one at a time, under any new name and at any finite time; there are never more of them than free places, and they are ordered
  by priority, whatever the order of names.
\<close>

theorem dispatch_can_start:
  assumes "validateGraph g = []"
  shows "(t \<in> set (dispatchableTasks lc g) \<and> i \<notin> att_id ` set (attempts g) \<and> isFinite w \<longrightarrow>
      (\<exists>g'. applyEvent lc g (Work_started (task_id t) i (ownerAgentId t) w) = Inr g')) \<and>
    (\<exists>n. maxParallelism g = num_int (int (activeAttemptCount g + n)) \<and> length (dispatchableTasks lc g) \<le> n) \<and>
    sorted_wrt (\<lambda>t u. diff_sign (task_priority t) (task_priority u) \<ge> 0) (dispatchableTasks lc g)"
proof -
  have v: "valid_graph g" using assms by (simp add: validateGraph_Nil)
  have "positive_integer (maxParallelism g)" "\<not> count_exceeds (activeAttemptCount g) (maxParallelism g)"
    using valid_graphD(8,10) [OF v] by (auto simp: structure_ok_def attempts_ok_def)
  from take_capacity_bound [OF this] obtain n where
    n: "dispatchableTasks lc g = take n (readyTasks lc g)" "maxParallelism g = num_int (int (activeAttemptCount g + n))"
    unfolding dispatchableTasks_def by blast
  have "\<exists>g'. applyEvent lc g (Work_started (task_id t) i (ownerAgentId t) w) = Inr g'"
    if d: "t \<in> set (dispatchableTasks lc g)" "i \<notin> att_id ` set (attempts g)" "isFinite w"
  proof -
    have "t \<in> set (readyTasks lc g)" "n \<noteq> 0" using d(1) unfolding n(1) by (auto dest: in_set_takeD intro: gr0I)
    moreover from this have "\<not> count_reaches (activeAttemptCount g) (maxParallelism g)" by (simp add: n(2))
    ultimately obtain g' where "startWork lc g (task_id t) i (ownerAgentId t) w = Inr g'" using startWork_Inr [OF v] d(2) by blast
    moreover have time: "assertFiniteTimestamp w = Inr ()" using d(3) by simp
    ultimately show ?thesis unfolding applyEvent_valid [OF v] event_at.simps transition_event.simps time ebind_simps by blast
  qed
  moreover have "length (dispatchableTasks lc g) \<le> n" by (simp add: n(1))
  moreover have "\<forall>t \<in> set (tasks g). isFinite (task_priority t)" using valid_graphD(6) [OF v] by (simp add: task_ok_def)
  then have "sorted_wrt (\<lambda>t u. diff_sign (task_priority t) (task_priority u) \<ge> 0) (readyTasks lc g)"
    unfolding readyTasks_def by (intro sort_priority) auto
  then have "sorted_wrt (\<lambda>t u. diff_sign (task_priority t) (task_priority u) \<ge> 0) (dispatchableTasks lc g)"
    unfolding n(1) by (rule sorted_wrt_take)
  ultimately show ?thesis using n(2) by blast
qed

theorem dispatch_can_start_witness:
  "\<exists>g'. applyEvent demo_order (demo_graph Task_pending [] []) (Work_started (js ''t'') (js ''x'') (js ''a'') (num_int 1)) = Inr g'"
proof -
  have "demo_task ''t'' [] True Task_pending \<in> set (dispatchableTasks demo_order (demo_graph Task_pending [] []))"
    by (simp add: dispatchableTasks_def readyTasks_def demo_graph_def demo_task_def activeAttemptCount_def js_sort_def
        dependenciesSucceeded_def parentAllowsWork_def js_lookup_def)
  moreover have "validateGraph (demo_graph Task_pending [] []) = []"
    using reachable_graph(1) [of demo_order] graph_demo_reachable [of 0] demo_states(1) by (simp add: validateGraph_Nil)
  ultimately show ?thesis
    using dispatch_can_start [of "demo_graph Task_pending [] []" "demo_task ''t'' [] True Task_pending" demo_order "js ''x''" "num_int 1"]
    by (simp add: demo_task_def demo_graph_def)
qed

lemma started_attempt_mem:
  assumes "transition_event lc g e = Inr g'" "started_attempt (Plain e) = Some i"
  shows "i \<in> att_id ` set (attempts g')"
  using assms
  by (cases e) (auto simp: startWork_def startRetry_def startFallback_def startReview_def ebind_Inr_iff startWorkAttempt_Inr
      work_attempt_def appendRecord_def)

text \<open>
  \<open>applyEvent\<close> does not look at the name of the attempt that it starts. A start with a blank name is accepted and yields a
  graph that fails its own validation, so that every later event is refused.
\<close>

theorem blank_attempt_blocks_graph:
  assumes "applyEvent lc g e = Inr g'" and "started_attempt (Plain e) = Some i" and "js_trim i = []"
  shows "validateGraph g' \<noteq> [] \<and> (\<exists>issues. applyEvent lc g' e' = Inl (GraphValidationError issues))"
proof -
  have "i \<in> att_id ` set (attempts g')"
    using started_attempt_mem assms(1,2) by (auto simp: applyEvent_def ebind_Inr_iff)
  then have "\<not> valid_graph g'"
    using valid_graphD(3) [of g'] assms(3) by (auto simp: attempt_sound_def attempt_data_ok_def)
  then have "validateGraph g' \<noteq> []" by (simp add: validateGraph_Nil)
  then show ?thesis by (simp add: applyEvent_def assertValidGraph_def)
qed

theorem blank_attempt_blocks_graph_witness:
  "\<exists>g'. applyEvent demo_order (demo_graph Task_pending [] []) (Work_started (js ''t'') [] (js ''a'') (num_int 1)) = Inr g' \<and>
     validateGraph g' \<noteq> []"
proof -
  let ?g = "demo_graph Task_pending [] []"
  have v: "valid_graph ?g" using reachable_graph(1) [of demo_order] graph_demo_reachable [of 0] demo_states(1) by simp
  have "demo_task ''t'' [] True Task_pending \<in> set (readyTasks demo_order ?g)"
    by (simp add: set_readyTasks demo_graph_def demo_task_def dependenciesSucceeded_def parentAllowsWork_def)
  from startWork_Inr [OF v this, of "[]" "num_int 1"] obtain g' where
    "startWork demo_order ?g (js ''t'') [] (js ''a'') (num_int 1) = Inr g'"
    by (auto simp: demo_graph_def demo_task_def activeAttemptCount_def)
  moreover have "assertFiniteTimestamp (num_int 1) = Inr ()" by simp
  ultimately have "applyEvent demo_order ?g (Work_started (js ''t'') [] (js ''a'') (num_int 1)) = Inr g'"
    by (simp only: applyEvent_valid [OF v] event_at.simps transition_event.simps ebind_simps)
  moreover from this have "validateGraph g' \<noteq> []"
    using blank_attempt_blocks_graph [of demo_order ?g "Work_started (js ''t'') [] (js ''a'') (num_int 1)" g' "[]"] by (simp add: js_trim_def)
  ultimately show ?thesis by blast
qed

text \<open>
  A graph that no run reaches but that \<open>validateGraph\<close> accepts, for instance from a snapshot: a task is pending although
  an attempt at it has failed.
\<close>

definition stale_graph :: GraphState where
  "stale_graph = demo_graph Task_pending [demo_work ''x'' Attempt_failed (Some (num_int 2))] [graph_demo_record 1 (demo_events ! 0)]"

lemma stale_valid: "valid_graph stale_graph"
proof -
  let ?x = "demo_work ''x'' Attempt_failed (Some (num_int 2))"
  have work: "work_of stale_graph k = (if k = js ''t'' then [?x] else [])" for k
    by (simp add: work_of_def stale_graph_def demo_defs)
  have "attempt_sound stale_graph ?x"
    by (simp add: attempt_sound_def attempt_data_ok_def lineage_ok_def status_ok_def stale_graph_def demo_defs demo_nonblank positive_integer_def)
  then have "attempts_ok stale_graph"
    by (auto simp: attempts_ok_def work chain_ok_def) (auto simp: stale_graph_def demo_defs activeAttemptCount_def outcome_ok_def)
  moreover have "records_ok stale_graph"
    by (simp add: records_ok_def record_ok_def stale_graph_def demo_defs demo_events_def List.map_filter_simps)
  ultimately show ?thesis using demo_structure by (simp add: valid_graph_def stale_graph_def)
qed

text \<open>
  Validation does not see everything that \<open>applyEvent\<close> relies on. A graph with a pending task at which an attempt has failed
  passes the validation; starting the task, with a proper name, is accepted and yields a graph that does not.
\<close>

theorem validity_not_inductive:
  "validateGraph stale_graph = [] \<and>
   (\<exists>g'. applyEvent lc stale_graph (Work_started (js ''t'') (js ''y'') (js ''a'') (num_int 3)) = Inr g' \<and> validateGraph g' \<noteq> [])"
proof -
  let ?e = "Work_started (js ''t'') (js ''y'') (js ''a'') (num_int 3)"
  have "demo_task ''t'' [] True Task_pending \<in> set (readyTasks lc stale_graph)"
    by (simp add: set_readyTasks stale_graph_def demo_graph_def demo_task_def dependenciesSucceeded_def parentAllowsWork_def)
  from startWork_Inr [OF stale_valid this, of "js ''y''" "num_int 3"] obtain g' where
    g': "startWork lc stale_graph (js ''t'') (js ''y'') (js ''a'') (num_int 3) = Inr g'"
    by (auto simp: stale_graph_def demo_defs activeAttemptCount_def)
  have "assertFiniteTimestamp (num_int 3) = Inr ()" by simp
  then have ok: "applyEvent lc stale_graph ?e = Inr g'"
    using g' by (simp only: applyEvent_valid [OF stale_valid] event_at.simps transition_event.simps ebind_simps)
  have "attempts g' = attempts stale_graph @ [work_attempt (js ''t'') (js ''y'') (js ''a'') (num_int 3) Work None None]"
    using g' by (auto simp: startWork_def ebind_Inr_iff startWorkAttempt_Inr)
  then have "\<not> distinct (map generation (work_of g' (js ''t'')))"
    by (simp add: work_of_def stale_graph_def demo_defs)
  then have "\<not> valid_graph g'" using valid_graphD(5) [of g' "js ''t''"] by (auto simp: chain_ok_def)
  then show ?thesis using ok stale_valid by (simp add: validateGraph_Nil)
qed

end
