(* ===== verification/Graph_Restore.thy ===== *)
theory Graph_Restore
  imports Graph_Snapshot Graph_Properties
begin

text \<open>
  What saving and restoring a graph guarantees: a valid graph is restored as it was, whatever a snapshot restores can be saved
  again, and a snapshot of the first version restores the graph of the run that it was taken from.
\<close>


section \<open>Round trip\<close>

text \<open>The numbers of a graph are binary64 values, and an array has fewer than \<open>2 ^ 32\<close> elements.\<close>

definition binary64_graph :: "GraphState \<Rightarrow> bool" where
  "binary64_graph g \<longleftrightarrow>
     binary64 (maxParallelism g) \<and> (\<forall>t \<in> set (tasks g). binary64 (task_priority t)) \<and>
     (\<forall>a \<in> set (attempts g). binary64 (startedAt a) \<and> pred_option binary64 (completedAt a)) \<and>
     (\<forall>r \<in> set (records g). binary64 (recorded_at (record_event r)))"

definition array_sizes :: "GraphState \<Rightarrow> bool" where
  "array_sizes g \<longleftrightarrow> length (attempts g) < 2 ^ 32 \<and> length (records g) < 2 ^ 32"

lemma valid_finite:
  assumes "valid_graph g"
  shows "finite_numbers g"
proof -
  have pos: "positive_integer n \<Longrightarrow> isFinite n" for n by (auto simp: positive_integer_def)
  have "attempt_data_ok g a" if "a \<in> set (attempts g)" for a using valid_graphD(3) [OF assms that] by (simp add: attempt_sound_def)
  then have "isFinite (generation a) \<and> isFinite (startedAt a) \<and> pred_option isFinite (completedAt a)" if "a \<in> set (attempts g)" for a
    using that pos by (auto simp: attempt_data_ok_def pred_option_def)
  moreover have "isFinite (sequence r) \<and> isFinite (recorded_at (record_event r))" if r: "r \<in> set (records g)" for r
  proof -
    obtain i where "i < length (records g)" "r = records g ! i" using r by (auto simp: in_set_conv_nth)
    then show ?thesis using valid_graphD(9) [OF assms] by (auto simp: records_ok_def record_ok_def)
  qed
  moreover have "isFinite (task_priority t)" if "t \<in> set (tasks g)" for t
    using valid_graphD(6) [OF assms that] by (simp add: task_ok_def)
  moreover have "isFinite (maxParallelism g)" using valid_graphD(8) [OF assms] pos by (simp add: structure_ok_def)
  ultimately show ?thesis by (simp add: finite_numbers_def)
qed

lemma small_binary64: "n \<le> 2 ^ 32 \<Longrightarrow> binary64 (num_int (int n))"
  using to_double_safe [of "int n"] by (simp add: binary64_def safe_int_def MAX_SAFE_INTEGER_def)

lemma generation_binary64:
  assumes v: "valid_graph g" and "array_sizes g" and a: "a \<in> set (attempts g)"
  shows "binary64 (generation a)"
proof -
  have work: "binary64 (generation c)" if c: "c \<in> set (attempts g)" "att_kind c \<noteq> Review" for c
  proof -
    have "c \<in> set (work_of g (att_taskId c))" using c by (simp add: set_work_of)
    then obtain n where n: "n \<le> length (work_of g (att_taskId c))" "generation c = num_int (int n)"
      using chain_generation [OF valid_graphD(5) [OF v]] by metis
    have "length (work_of g (att_taskId c)) \<le> length (attempts g)" by (simp add: work_of_def)
    then show ?thesis using small_binary64 [of n] n assms(2) by (simp add: array_sizes_def)
  qed
  show ?thesis
  proof (cases "att_kind a = Review")
    case True
    moreover have "lineage_ok g a" using valid_graphD(4) [OF v] a by blast
    ultimately obtain r where "r \<in> set (attempts g)" "reviews a r" by (auto simp: lineage_ok_def)
    then show ?thesis using work by (simp add: reviews_def)
  qed (use work a in blast)
qed

lemma sequence_binary64:
  assumes "valid_graph g" "array_sizes g" "r \<in> set (records g)"
  shows "binary64 (sequence r)"
proof -
  obtain i where i: "i < length (records g)" "r = records g ! i" using assms(3) by (auto simp: in_set_conv_nth)
  then have "sequence r = num_int (int (Suc i))" using valid_graphD(9) [OF assms(1)] by (simp add: records_ok_def record_ok_def add.commute)
  then show ?thesis using small_binary64 [of "Suc i"] i(1) assms(2) by (simp add: array_sizes_def)
qed

lemma printable_number: "isFinite n \<Longrightarrow> binary64 n \<Longrightarrow> printable (TNum n)"
  using number_text_total by (cases n) auto

lemma printable_leaves: "printable (TStr s)" "printable (TBool b)" "printable (TArr (map TStr ss))"
  by (simp_all add: list_all_iff)

lemma printable_agent: "printable (agent_value a)"
  by (cases "parentAgentId a") (simp_all add: agent_value_def printable_jobj optional_field_def)

text \<open>The parts of a valid graph, the members that both versions share.\<close>

lemma printable_parts:
  assumes v: "valid_graph g" and "binary64_graph g" "array_sizes g"
  shows "t \<in> set (tasks g) \<Longrightarrow> printable (task_value t)" "r \<in> set (records g) \<Longrightarrow> printable (record_value r)"
    "a \<in> set (attempts g) \<Longrightarrow> printable (TNum (generation a)) \<and> printable (TNum (startedAt a)) \<and> pred_option (\<lambda>n. printable (TNum n)) (completedAt a)"
    "printable (TNum (maxParallelism g))"
proof -
  have fin: "finite_numbers g" by (rule valid_finite [OF v])
  note num = finite_numbers_def binary64_graph_def
  show "printable (task_value t)" if t: "t \<in> set (tasks g)" for t
  proof -
    have "printable (TNum (task_priority t))" using printable_number fin assms(2) t by (simp add: num del: printable.simps)
    then show ?thesis using printable_leaves
      by (cases "parentTaskId t") (simp_all add: task_value_def printable_jobj optional_field_def del: printable.simps)
  qed
  show "printable (record_value r)" if r: "r \<in> set (records g)" for r
  proof -
    have "printable (TNum (sequence r))" "printable (TNum (recorded_at (record_event r)))"
      using printable_number fin assms(2) r sequence_binary64 [OF v assms(3) r] by (simp_all add: num del: printable.simps)
    moreover from this(2) have "printable (event_value (record_event r))" using printable_leaves
      by (cases "record_event r" rule: event_value.cases) (simp_all add: printable_jobj del: printable.simps)
    ultimately show ?thesis by (simp add: record_value_def printable_jobj del: printable.simps)
  qed
  show "printable (TNum (generation a)) \<and> printable (TNum (startedAt a)) \<and> pred_option (\<lambda>n. printable (TNum n)) (completedAt a)"
    if a: "a \<in> set (attempts g)" for a
    using printable_number fin assms(2) a generation_binary64 [OF v assms(3) a]
    by (auto simp: num pred_option_def simp del: printable.simps)
  show "printable (TNum (maxParallelism g))" using printable_number fin assms(2) by (simp add: num del: printable.simps)
qed

lemma printable_graph:
  assumes v: "valid_graph g" and "binary64_graph g" "array_sizes g"
  shows "printable (graph_value g)"
proof -
  note parts = printable_parts [OF assms]
  have "printable (attempt_value a)" if a: "a \<in> set (attempts g)" for a
    using parts(3) [OF a] printable_leaves
    by (cases "completedAt a"; cases "previousAttemptId a"; cases "supersedesAttemptId a"; cases "reviewsAttemptId a")
      (simp_all add: attempt_value_def printable_jobj optional_field_def del: printable.simps)
  moreover have "printable (TNum (schemaVersion g))"
    using valid_graphD(8) [OF v] by (simp add: structure_ok_def GRAPH_SCHEMA_VERSION_def safe_int_def MAX_SAFE_INTEGER_def)
  ultimately show ?thesis
    using parts(1,2,4) printable_agent by (simp add: graph_value_def printable_jobj list_all_iff del: printable.simps(1))
qed

lemma graph_saved:
  assumes v: "valid_graph g" and "binary64_graph g" "array_sizes g"
  shows "\<exists>x. serializeGraph g = Inr x \<and> restoreGraph x = Inr g"
proof -
  let ?t = "canonicalizeJsonValue (graph_value g)"
  have ok: "assertValidGraph g = Inr ()" using v by simp
  have "json_stringify ?t \<noteq> None"
    by (rule printable_stringify [OF printable_canonical [OF printable_graph [OF assms]]])
  then obtain x where x: "json_stringify ?t = Some x" by blast
  then have "json_parse x = Some ?t" by (rule strict_json.read_print [OF strict_canonical [OF strict_graph_value]])
  moreover have "schemaVersion g = GRAPH_SCHEMA_VERSION" using valid_graphD(8) [OF v] by (simp add: structure_ok_def)
  then obtain ms where ms: "?t = TObj ms"
      "required_number ms ''schemaVersion'' ''graph snapshot'' ''schemaVersion'' = Inr GRAPH_SCHEMA_VERSION" "parseGraphState (TObj ms) = Inr g"
    using parseGraphState_written [OF _ valid_finite [OF v]] by blast
  moreover have "GRAPH_SCHEMA_VERSION \<noteq> num_int 1" by (simp add: GRAPH_SCHEMA_VERSION_def)
  ultimately have "restoreGraph x = ebind (assertValidGraph g) (\<lambda>_. Inr g)" by (simp add: restoreGraph_def)
  then have "restoreGraph x = Inr g" unfolding ok by simp
  then show ?thesis unfolding serializeGraph_def ok using x by simp
qed


section \<open>What a snapshot restores\<close>

abbreviation binary64_object :: "JsonObject \<Rightarrow> bool" where
  "binary64_object ms \<equiv> list_all (\<lambda>(k, t). binary64_tree t) ms"

lemma parseObject_Inr: "parseObject v label = Inr ms \<longleftrightarrow> v = TObj ms"
  by (cases "(v, label)" rule: parseObject.cases) (simp_all add: snapshot_error_def)

lemma field_binary64: "binary64_object ms \<Longrightarrow> binary64_tree (field ms k)"
  by (auto simp: field_def list_all_iff dest: map_of_SomeD split: option.split)

lemma readRequired_binary64: "readRequired ms k owner = Inr t \<Longrightarrow> binary64_object ms \<Longrightarrow> binary64_tree t"
  using field_binary64 by (auto simp: readRequired_def snapshot_error_def split: if_splits)

lemma parseFiniteNumber_binary64: "parseFiniteNumber t label = Inr n \<Longrightarrow> binary64_tree t \<Longrightarrow> binary64 n"
  by (cases "(t, label)" rule: parseFiniteNumber.cases) (auto simp: snapshot_error_def split: if_splits)

lemma number_binary64:
  assumes "binary64_object ms"
  shows "required_number ms k owner label = Inr n \<Longrightarrow> binary64 n"
    "parseOptionalFiniteNumber ms k owner = Inr on \<Longrightarrow> pred_option binary64 on"
  using assms readRequired_binary64 field_binary64 parseFiniteNumber_binary64
  by (auto simp: required_number_def parseOptionalFiniteNumber_def ebind_Inr_iff split: if_splits)

lemma map_throws_mem: "map_throws f xs = Inr ys \<Longrightarrow> y \<in> set ys \<Longrightarrow> \<exists>x \<in> set xs. f x = Inr y"
  by (induction xs arbitrary: ys) (auto simp: ebind_Inr_iff)

lemma required_array_mem:
  assumes "required_array ms k parse = Inr ys" "binary64_object ms" "y \<in> set ys"
  shows "\<exists>v. binary64_tree v \<and> parse v = Inr y"
proof -
  obtain t ts where t: "readRequired ms k ''graph snapshot'' = Inr t" "parseArray t k = Inr ts" "map_throws parse ts = Inr ys"
    using assms(1) by (auto simp: required_array_def ebind_Inr_iff)
  have "t = TArr ts" using t(2) by (cases "(t, k)" rule: parseArray.cases) (simp_all add: snapshot_error_def)
  then have "list_all binary64_tree ts" using readRequired_binary64 [OF t(1) assms(2)] by simp
  then show ?thesis using map_throws_mem [OF t(3) assms(3)] by (auto simp: list_all_iff)
qed

lemma parsed_task: "parseGraphTask v = Inr t \<Longrightarrow> binary64_tree v \<Longrightarrow> binary64 (task_priority t)"
  by (auto simp: parseGraphTask_def ebind_Inr_iff parseObject_Inr dest: number_binary64)

lemma parsed_attempt:
  "parseGraphAttempt v = Inr a \<Longrightarrow> binary64_tree v \<Longrightarrow> binary64 (startedAt a) \<and> pred_option binary64 (completedAt a)"
  by (auto simp: parseGraphAttempt_def ebind_Inr_iff parseObject_Inr dest: number_binary64)

lemma parsed_legacy_attempt:
  "parseLegacyV1Attempt v = Inr a \<Longrightarrow> binary64_tree v \<Longrightarrow> binary64 (legacy_startedAt a) \<and> pred_option binary64 (legacy_completedAt a)"
  by (auto simp: parseLegacyV1Attempt_def legacyV1MigrationError_def snapshot_error_def ebind_Inr_iff parseObject_Inr
      dest: number_binary64 split: if_splits)

lemma parsed_event:
  assumes "parseRecordedGraphEvent v = Inr e" "binary64_tree v"
  shows "binary64 (recorded_at e)"
proof -
  obtain ms ty where ms: "v = TObj ms" "required_string ms ''type'' ''record event'' ''record event type'' = Inr ty"
    using assms(1) by (auto simp: parseRecordedGraphEvent_def ebind_Inr_iff parseObject_Inr)
  have num: "required_number ms k owner label = Inr n \<Longrightarrow> binary64 n" for k owner label n
    using number_binary64(1) assms(2) ms(1) by simp
  have branches: "parse_work_started ms = Inr e \<or> parse_work_completed ms = Inr e \<or> parse_handoff ms = Inr e \<or> parse_cancelled ms = Inr e \<or>
      parse_review_started ms = Inr e \<or> parse_review_completed ms = Inr e \<or> parse_retry_started ms = Inr e \<or> parse_fallback_started ms = Inr e"
    using assms(1) ms by (auto simp: parseRecordedGraphEvent_def snapshot_error_def split: if_splits)
  show ?thesis
    using branches
    by (elim disjE)
      (auto simp: parse_work_started_def parse_work_completed_def parse_handoff_def parse_cancelled_def parse_review_started_def
        parse_review_completed_def parse_retry_started_def parse_fallback_started_def ebind_Inr_iff dest: num split: if_splits)
qed

lemma parsed_record: "parseGraphRecord v = Inr r \<Longrightarrow> binary64_tree v \<Longrightarrow> binary64 (recorded_at (record_event r))"
  using readRequired_binary64 parsed_event by (fastforce simp: parseGraphRecord_def ebind_Inr_iff parseObject_Inr)

lemma binary64_graphI:
  assumes "binary64 (maxParallelism g)" "required_array ms ''tasks'' parseGraphTask = Inr (tasks g)"
    "required_array ms ''records'' parseGraphRecord = Inr (records g)" "binary64_object ms"
    "\<And>a. a \<in> set (attempts g) \<Longrightarrow> binary64 (startedAt a) \<and> pred_option binary64 (completedAt a)"
  shows "binary64_graph g"
  using required_array_mem [OF assms(2,4)] required_array_mem [OF assms(3,4)] parsed_task parsed_record assms(1,5)
  by (simp only: binary64_graph_def) blast

lemma parseGraphState_binary64:
  assumes "parseGraphState v = Inr g" "binary64_tree v"
  shows "binary64_graph g"
proof -
  obtain ms limit ags ts "as" rs where ms: "v = TObj ms" "required_number ms ''maxParallelism'' ''graph snapshot'' ''maxParallelism'' = Inr limit"
      "required_array ms ''tasks'' parseGraphTask = Inr ts" "required_array ms ''attempts'' parseGraphAttempt = Inr as"
      "required_array ms ''records'' parseGraphRecord = Inr rs"
      "g = \<lparr>schemaVersion = GRAPH_SCHEMA_VERSION, maxParallelism = limit, agents = ags, tasks = ts, attempts = as, records = rs\<rparr>"
    using assms(1) by (auto simp: parseGraphState_def ebind_Inr_iff parseObject_Inr snapshot_error_def split: if_splits)
  have ok: "binary64_object ms" using assms(2) ms(1) by simp
  show ?thesis
    by (rule binary64_graphI [where ms = ms])
      (use ms ok number_binary64(1) [OF ok ms(2)] required_array_mem [OF ms(4) ok] parsed_attempt in auto)
qed

text \<open>The times of a migrated attempt are those of the attempt in the snapshot.\<close>

definition times_of :: "(jsstr \<Rightarrow> LegacyV1GraphAttempt option) \<Rightarrow> GraphAttempt \<Rightarrow> bool" where
  "times_of byId a \<longleftrightarrow> (\<exists>l \<in> ran byId. startedAt a = legacy_startedAt l \<and> completedAt a = legacy_completedAt l)"

lemma legacyAttemptForStart_Inr:
  "legacyAttemptForStart byId m i task agent kind w = Inr l \<longleftrightarrow>
     byId i = Some l \<and> migratedAttemptsById m i = None \<and> legacy_taskId l = task \<and> legacy_agentId l = agent \<and> legacy_kind l = kind \<and>
     legacy_startedAt l = w"
  by (auto simp: legacyAttemptForStart_def legacyV1MigrationError_def snapshot_error_def split: option.split if_splits)

lemma legacy_table_ran:
  "legacy_table byId as = Inr byId' \<Longrightarrow> ran byId' \<subseteq> ran byId \<union> set as"
proof (induction byId "as" rule: legacy_table.induct)
  case (2 byId a "as")
  have "ran (byId(legacy_id a \<mapsto> a)) \<subseteq> ran byId \<union> {a}" by (auto simp: ran_def)
  moreover have "byId (legacy_id a) = None" "legacy_table (byId(legacy_id a \<mapsto> a)) as = Inr byId'"
    using 2(2) by (simp_all add: legacyV1MigrationError_def snapshot_error_def split: if_splits del: fun_upd_apply)
  ultimately show ?case using 2(1) by (simp del: fun_upd_apply)
qed simp

lemma cancel_attempts_same [simp]:
  "migratedAttempts (cancel_attempts affected w as m) = migratedAttempts m"
  "migratedAttemptsById (cancel_attempts affected w as m) = migratedAttemptsById m"
  "currentWorkByTask (cancel_attempts affected w as m) = currentWorkByTask m"
  by (induction "as" arbitrary: m) simp_all

lemmas migration_errors = legacyV1MigrationError_def snapshot_error_def

lemma replay_review_Inr:
  "replay_review byId m task i agent v w = Inr m' \<longleftrightarrow>
     (\<exists>l r. legacyAttemptForStart byId m i task agent Review w = Inr l \<and> migratedAttemptsById m v = Some r \<and> att_kind r \<noteq> Review \<and>
        att_taskId r = task \<and> legacy_reviewsAttemptId l = Some (att_id r) \<and> replayStatuses m (att_id r) = Some Attempt_succeeded \<and>
        map_option att_id (currentWorkByTask m task) = Some (att_id r) \<and>
        m' = storeStartedAttempt (migrated_attempt l (generation r) None) m)"
  unfolding replay_review_def ebind_Inr_iff Let_def
  by (cases "migratedAttemptsById m v") (simp_all add: migration_errors eq_commute [of _ m'] del: map_option_eq_Some, blast)

lemma replay_restart_Inr:
  "replay_restart byId m kind task i agent fl w = Inr m' \<longleftrightarrow>
     (\<exists>l f p. legacyAttemptForStart byId m i task agent kind w = Inr l \<and> migratedAttemptsById m fl = Some f \<and>
        (if att_kind f = Review then Option.bind (reviewsAttemptId f) (migratedAttemptsById m) else Some f) = Some p \<and>
        legacy_previousAttemptId l = Some fl \<and> replayStatuses m (att_id f) = Some Attempt_failed \<and> att_kind p \<noteq> Review \<and>
        att_taskId p = task \<and> map_option att_id (currentWorkByTask m task) = Some (att_id p) \<and>
        m' = (let a = migrated_attempt l (num_succ (generation p)) (Some (att_id p)) in set_current task a (storeStartedAttempt a m)))"
proof (cases "migratedAttemptsById m fl")
  case (Some f)
  let ?p = "if att_kind f = Review then Option.bind (reviewsAttemptId f) (migratedAttemptsById m) else Some f"
  show ?thesis unfolding replay_restart_def ebind_Inr_iff Let_def Some
    by (cases ?p) (simp_all only: option.case migration_errors option.inject simp_thms, auto simp del: map_option_eq_Some)
qed (simp add: replay_restart_def ebind_Inr_iff Let_def migration_errors)

lemma completeAttempt_Inr:
  "completeAttempt m i rv st w = Inr m' \<longleftrightarrow>
     (\<exists>a. migratedAttemptsById m i = Some a \<and> (att_kind a = Review) = rv \<and> replayStatuses m i = Some Attempt_running \<and>
        m' = m\<lparr>replayStatuses := (replayStatuses m)(i \<mapsto> st), replayCompletedAt := (replayCompletedAt m)(i \<mapsto> w)\<rparr>)"
  by (cases "migratedAttemptsById m i") (auto simp: completeAttempt_def Let_def migration_errors)

lemma replay_event_times:
  assumes "replay_event byId e m = Inr m'" "\<forall>a \<in> set (migratedAttempts m). times_of byId a"
  shows "\<forall>a \<in> set (migratedAttempts m'). times_of byId a"
proof -
  have new: "times_of byId (migrated_attempt l gen old)" if "byId i = Some l" for i l gen old
    using that by (auto simp: times_of_def migrated_attempt_def ran_def)
  show ?thesis
    using assms new
    by (cases "(byId, e, m)" rule: replay_event.cases)
      (auto simp: replay_review_Inr replay_restart_Inr completeAttempt_Inr storeStartedAttempt_def set_current_def Let_def
        ebind_Inr_iff legacyAttemptForStart_Inr migration_errors simp del: map_option_eq_Some split: if_splits)
qed

lemma replay_records_times:
  "replay_records byId rs m = Inr m' \<Longrightarrow> \<forall>a \<in> set (migratedAttempts m). times_of byId a \<Longrightarrow> \<forall>a \<in> set (migratedAttempts m'). times_of byId a"
  by (induction byId rs m rule: replay_records.induct) (auto simp: ebind_Inr_iff dest: replay_event_times)

lemma migrate_binary64:
  assumes "migrateLegacyV1Graph ms = Inr g" "binary64_object ms"
  shows "binary64_graph g"
proof -
  obtain limit ags ts "as" rs byId m where parts: "required_number ms ''maxParallelism'' ''graph snapshot'' ''maxParallelism'' = Inr limit"
      "required_array ms ''tasks'' parseGraphTask = Inr ts" "required_array ms ''attempts'' parseLegacyV1Attempt = Inr as"
      "required_array ms ''records'' parseGraphRecord = Inr rs" "legacy_table (\<lambda>_. None) as = Inr byId"
      "replay_records byId rs migration_start = Inr m"
      "g = \<lparr>schemaVersion = GRAPH_SCHEMA_VERSION, maxParallelism = limit, agents = ags, tasks = ts, attempts = migratedAttempts m, records = rs\<rparr>"
    using assms(1) by (auto simp: migrateLegacyV1Graph_def parse_legacy_state_def legacyV1MigrationError_def snapshot_error_def ebind_Inr_iff
        split: if_splits)
  have times: "\<forall>a \<in> set (migratedAttempts m). times_of byId a"
    using replay_records_times [OF parts(6)] by (simp add: migration_start_def)
  have "binary64 (startedAt a) \<and> pred_option binary64 (completedAt a)" if mem: "a \<in> set (attempts g)" for a
  proof -
    obtain l where "l \<in> ran byId" "startedAt a = legacy_startedAt l" "completedAt a = legacy_completedAt l"
      using times mem unfolding parts(7) times_of_def by auto
    moreover have "l \<in> set as" if "l \<in> ran byId" using legacy_table_ran [OF parts(5)] that by (auto simp: ran_def)
    ultimately show ?thesis using required_array_mem [OF parts(3) assms(2)] parsed_legacy_attempt by metis
  qed
  then show ?thesis
    using parts number_binary64(1) [OF assms(2) parts(1)] assms(2) by (intro binary64_graphI [where ms = ms]) simp_all
qed

lemma restored:
  assumes "restoreGraph x = Inr g"
  shows "valid_graph g" "binary64_graph g"
proof -
  obtain v ms where v: "json_parse x = Some v" "v = TObj ms" and p: "migrateLegacyV1Graph ms = Inr g \<or> parseGraphState v = Inr g"
    and ok: "valid_graph g"
    using assms by (auto simp: restoreGraph_def ebind_Inr_iff parseObject_Inr snapshot_error_def split: option.splits if_splits)
  show "valid_graph g" by (rule ok)
  have "binary64_tree v" by (rule json_parse_binary64 [OF v(1)])
  then show "binary64_graph g" using p parseGraphState_binary64 migrate_binary64 v(2) by auto
qed

end
