(* ===== verification/Graph_Migration.thy ===== *)
theory Graph_Migration
  imports Graph_Restore
begin

text \<open>
  The migration of snapshots of the first version rebuilds the graph that they were taken from: for a graph of a run, the
  replay of its records finds again the generation and the supersession of every attempt, which the first version did not write.

  The replay runs over the records of the graph with the attempts as they are at the end; \<open>replayed\<close> relates its state to the graph
  as it was after the records replayed so far.
\<close>


section \<open>Snapshots of the first version\<close>

definition legacy_of :: "GraphAttempt \<Rightarrow> LegacyV1GraphAttempt" where
  "legacy_of a =
     \<lparr>legacy_id = att_id a, legacy_taskId = att_taskId a, legacy_agentId = att_agentId a, legacy_kind = att_kind a,
      legacy_status = att_status a, legacy_startedAt = startedAt a, legacy_completedAt = completedAt a,
      legacy_previousAttemptId = previousAttemptId a, legacy_reviewsAttemptId = reviewsAttemptId a\<rparr>"

lemma legacy_of_fields [simp]:
  "legacy_id (legacy_of a) = att_id a" "legacy_taskId (legacy_of a) = att_taskId a" "legacy_agentId (legacy_of a) = att_agentId a"
  "legacy_kind (legacy_of a) = att_kind a" "legacy_status (legacy_of a) = att_status a" "legacy_startedAt (legacy_of a) = startedAt a"
  "legacy_completedAt (legacy_of a) = completedAt a" "legacy_previousAttemptId (legacy_of a) = previousAttemptId a"
  "legacy_reviewsAttemptId (legacy_of a) = reviewsAttemptId a"
  by (simp_all add: legacy_of_def)

lemma migrated_legacy [simp]: "migrated_attempt (legacy_of a) (generation a) (supersedesAttemptId a) = a"
  by (simp add: migrated_attempt_def)

definition tabulates :: "(jsstr \<Rightarrow> LegacyV1GraphAttempt option) \<Rightarrow> GraphAttempt list \<Rightarrow> bool" where
  "tabulates byId F \<longleftrightarrow> (\<forall>i l. byId i = Some l \<longleftrightarrow> (\<exists>b \<in> set F. att_id b = i \<and> l = legacy_of b))"

lemma legacy_table_tabulates:
  assumes "distinct (map att_id F)"
  shows "\<exists>byId. legacy_table (\<lambda>_. None) (map legacy_of F) = Inr byId \<and> tabulates byId F"
proof -
  have "\<exists>byId. legacy_table f (map legacy_of G) = Inr byId \<and> tabulates byId (G0 @ G)"
    if "tabulates f G0" "distinct (map att_id (G0 @ G))" for f G0 G
    using that
  proof (induction G arbitrary: f G0)
    case (Cons a G)
    have new: "att_id b \<noteq> att_id a" if "b \<in> set G0" for b using Cons.prems(2) that by (auto simp: image_iff)
    then have free: "f (att_id a) = None" using Cons.prems(1) by (cases "f (att_id a)") (auto simp: tabulates_def)
    have "tabulates (f(att_id a \<mapsto> legacy_of a)) (G0 @ [a])"
      using Cons.prems(1) new by (auto simp: tabulates_def)
    from Cons.IH [OF this] Cons.prems(2) free show ?case by (simp del: fun_upd_apply)
  qed simp
  from this [of "\<lambda>_. None" "[]" F] assms show ?thesis by (simp add: tabulates_def)
qed

lemma check_sequences_Inr:
  "(\<And>i. i < length rs \<Longrightarrow> sequence (rs ! i) = num_int (int (n + i) + 1)) \<Longrightarrow> check_sequences n rs = Inr ()"
proof (induction rs arbitrary: n)
  case (Cons r rs)
  have r: "sequence r = num_int (int n + 1)" using Cons.prems [of 0] by simp
  have rest: "sequence (rs ! i) = num_int (int (Suc n + i) + 1)" if "i < length rs" for i
    using Cons.prems [of "Suc i"] that by (simp add: add.commute)
  have "as_integer (sequence r) \<noteq> None" unfolding r by (simp only: as_integer_num_int) simp
  then have "\<not> (as_integer (sequence r) = None \<or> sequence r \<noteq> num_int (int n + 1))" using r by blast
  then show ?case using Cons.IH [of "Suc n", OF rest] by (simp only: check_sequences.simps if_False)
qed simp


section \<open>The state of the replay\<close>

definition replayed :: "GraphAttempt list \<Rightarrow> GraphAttempt list \<Rightarrow> (jsstr \<Rightarrow> jsstr option) \<Rightarrow> migration \<Rightarrow> bool" where
  "replayed F as cur m \<longleftrightarrow>
     length as \<le> length F \<and> list_all2 evolves as (take (length as) F) \<and> distinct (map att_id F) \<and>
     migratedAttempts m = take (length as) F \<and>
     (\<forall>i a. migratedAttemptsById m i = Some a \<longleftrightarrow> a \<in> set (take (length as) F) \<and> att_id a = i) \<and>
     (\<forall>a \<in> set as. replayStatuses m (att_id a) = Some (att_status a) \<and> replayCompletedAt m (att_id a) = completedAt a) \<and>
     (\<forall>i. i \<notin> att_id ` set as \<longrightarrow> replayCompletedAt m i = None) \<and>
     (\<forall>k. map_option att_id (currentWorkByTask m k) = cur k)"

lemma replayed_lookup:
  assumes "replayed F as cur m" "a \<in> set as"
  obtains b where "evolves a b" "b \<in> set F" "migratedAttemptsById m (att_id a) = Some b"
proof -
  have "list_all2 evolves as (take (length as) F)" using assms(1) by (simp add: replayed_def)
  from list_all2_mem(2) [OF this assms(2)] obtain b where b: "b \<in> set (take (length as) F)" "evolves a b" by blast
  then have "migratedAttemptsById m (att_id a) = Some b" using assms(1) evolves_fields [OF b(2)] by (simp add: replayed_def)
  then show ?thesis using that b in_set_takeD by metis
qed

lemma replayed_ids:
  assumes "replayed F as cur m"
  shows "att_id ` set (take (length as) F) = att_id ` set as" "distinct (map att_id as)"
proof -
  have ev: "list_all2 evolves as (take (length as) F)" using assms by (simp add: replayed_def)
  have eq: "map att_id as = map att_id (take (length as) F)"
    using ev evolves_fields by (induction rule: list_all2_induct) auto
  then show "att_id ` set (take (length as) F) = att_id ` set as" by (metis list.set_map)
  have "distinct (take (length as) (map att_id F))" using assms by (simp add: replayed_def distinct_take)
  then show "distinct (map att_id as)" unfolding eq by (simp add: take_map)
qed

text \<open>A start: the next attempt of the snapshot is found, matches the event and is stored.\<close>

lemma replay_start:
  assumes r: "replayed F as cur m" and t: "tabulates byId F" and new: "att_id x \<notin> att_id ` set as"
    and later: "length (as @ [x]) \<le> length F" "list_all2 evolves (as @ [x]) (take (length (as @ [x])) F)"
  obtains b where "evolves x b" "legacyAttemptForStart byId m (att_id x) (att_taskId x) (att_agentId x) (att_kind x) (startedAt x) = Inr (legacy_of b)"
    "\<And>cur'. att_status x = Attempt_running \<Longrightarrow> completedAt x = None \<Longrightarrow> \<forall>k. cur' k = cur k \<Longrightarrow> replayed F (as @ [x]) cur' (storeStartedAttempt b m)"
proof -
  define b where "b = F ! length as"
  have len: "length as < length F" using later(1) by simp
  then have take: "take (length (as @ [x])) F = take (length as) F @ [b]" by (simp add: b_def take_Suc_conv_app_nth)
  have ev: "evolves x b" using later(2) len unfolding take by (simp add: list_all2_append)
  note fields = evolves_fields [OF ev]
  have mem: "b \<in> set F" using len by (simp add: b_def)
  have "byId (att_id x) = Some (legacy_of b)" using t mem fields by (auto simp: tabulates_def)
  moreover have "migratedAttemptsById m (att_id x) = None"
  proof (rule ccontr)
    assume "migratedAttemptsById m (att_id x) \<noteq> None"
    then obtain a where "a \<in> set (take (length as) F)" "att_id a = att_id x" using r by (auto simp: replayed_def)
    then have "att_id x \<in> att_id ` set as" unfolding replayed_ids(1) [OF r, symmetric] by (metis imageI)
    then show False using new by blast
  qed
  ultimately have found: "legacyAttemptForStart byId m (att_id x) (att_taskId x) (att_agentId x) (att_kind x) (startedAt x) = Inr (legacy_of b)"
    using fields by (simp add: legacyAttemptForStart_Inr)
  have "replayed F (as @ [x]) cur' (storeStartedAttempt b m)"
    if "att_status x = Attempt_running" "completedAt x = None" "\<forall>k. cur' k = cur k" for cur'
  proof -
    have other: "att_id a \<noteq> att_id b" if "a \<in> set as" for a using that new fields by (metis imageI)
    have other': "att_id a \<noteq> att_id b" if "a \<in> set (take (length as) F)" for a
      using that new fields replayed_ids(1) [OF r] by (metis imageI)
    have none: "replayCompletedAt m (att_id x) = None" using r new by (simp add: replayed_def)
    have byId: "((migratedAttemptsById m)(att_id b \<mapsto> b)) i = Some a \<longleftrightarrow> a \<in> set (take (length as) F @ [b]) \<and> att_id a = i" for i a
      using r other' by (auto simp: replayed_def)
    have ev': "list_all2 evolves (as @ [x]) (take (length as) F @ [b])" using later(2) unfolding take .
    show ?thesis
      unfolding replayed_def take
      using r later(1) ev' fields that other none byId
      by (simp add: replayed_def storeStartedAttempt_def take del: fun_upd_apply) (auto simp: fun_upd_def)
  qed
  then show ?thesis using that ev found by blast
qed

lemma replay_current:
  assumes "replayed F as cur m"
  shows "replayed F as (cur(k := Some (att_id b))) (set_current k b m)"
  using assms by (auto simp: replayed_def set_current_def)

text \<open>The end of one attempt, and of all attempts at the affected tasks.\<close>

lemma replayed_map:
  assumes r: "replayed F as cur m" and "\<And>a. a \<in> set as \<Longrightarrow> att_id (fa a) = att_id a"
    and "list_all2 evolves (map fa as) (take (length as) F)"
    and "migratedAttempts m' = migratedAttempts m" "migratedAttemptsById m' = migratedAttemptsById m" "currentWorkByTask m' = currentWorkByTask m"
    and "\<And>a. a \<in> set as \<Longrightarrow> replayStatuses m' (att_id a) = Some (att_status (fa a)) \<and> replayCompletedAt m' (att_id a) = completedAt (fa a)"
    and "\<And>i. i \<notin> att_id ` set as \<Longrightarrow> replayCompletedAt m' i = replayCompletedAt m i"
  shows "replayed F (map fa as) cur m'"
proof -
  have "map att_id (map fa as) = map att_id as" using assms(2) by simp
  then have ids: "att_id ` set (map fa as) = att_id ` set as" by (metis list.set_map)
  show ?thesis unfolding replayed_def ids using assms by (simp add: replayed_def)
qed

lemma replay_end:
  assumes r: "replayed F as cur m" and x: "x \<in> set as" "att_status x = Attempt_running"
    and later: "list_all2 evolves (map (ended_at (att_id x) s w) as) (take (length as) F)"
  shows "\<exists>m'. completeAttempt m (att_id x) (att_kind x = Review) s w = Inr m' \<and> replayed F (map (ended_at (att_id x) s w) as) cur m'"
proof -
  obtain b where b: "evolves x b" "migratedAttemptsById m (att_id x) = Some b" using replayed_lookup [OF r x(1)] by metis
  let ?m = "m\<lparr>replayStatuses := (replayStatuses m)(att_id x \<mapsto> s), replayCompletedAt := (replayCompletedAt m)(att_id x \<mapsto> w)\<rparr>"
  have st: "replayStatuses m (att_id a) = Some (att_status a) \<and> replayCompletedAt m (att_id a) = completedAt a" if "a \<in> set as" for a
    using r that by (simp add: replayed_def)
  have "completeAttempt m (att_id x) (att_kind x = Review) s w = Inr ?m"
    using b st [OF x(1)] x(2) evolves_fields [OF b(1)] by (simp add: completeAttempt_Inr)
  moreover have "replayed F (map (ended_at (att_id x) s w) as) cur ?m"
  proof (rule replayed_map [OF r _ later])
    fix a assume "a \<in> set as"
    from st [OF this] show "replayStatuses ?m (att_id a) = Some (att_status (ended_at (att_id x) s w a)) \<and>
        replayCompletedAt ?m (att_id a) = completedAt (ended_at (att_id x) s w a)" by simp
  next
    fix i assume "i \<notin> att_id ` set as"
    then have "i \<noteq> att_id x" using x(1) by blast
    then show "replayCompletedAt ?m i = replayCompletedAt m i" by simp
  qed simp_all
  ultimately show ?thesis by blast
qed

lemma cancel_attempts_get:
  fixes A w i
  defines "hit as m \<equiv> replayStatuses m i = Some Attempt_running \<and> (\<exists>a \<in> set as. att_id a = i \<and> att_taskId a \<in> set A)"
  shows "replayStatuses (cancel_attempts A w as m) i = (if hit as m then Some Attempt_cancelled else replayStatuses m i) \<and>
    replayCompletedAt (cancel_attempts A w as m) i = (if hit as m then Some w else replayCompletedAt m i)"
proof (induction "as" arbitrary: m)
  case (Cons a "as")
  let ?m = "m\<lparr>replayStatuses := (replayStatuses m)(att_id a \<mapsto> Attempt_cancelled), replayCompletedAt := (replayCompletedAt m)(att_id a \<mapsto> w)\<rparr>"
  show ?case
  proof (cases "att_taskId a \<in> set A \<and> replayStatuses m (att_id a) = Some Attempt_running")
    case True
    have step: "cancel_attempts A w (a # as) m = cancel_attempts A w as ?m" using True by simp
    show ?thesis
    proof (cases "i = att_id a")
      case here: True
      then have "\<not> hit as ?m" "hit (a # as) m" using True by (simp_all add: hit_def)
      then show ?thesis unfolding step using Cons.IH [of ?m] here by simp
    next
      case other: False
      then have "hit as ?m = hit as m" "hit (a # as) m = hit as m" by (simp_all add: hit_def)
      then show ?thesis unfolding step using Cons.IH [of ?m] other by simp
    qed
  next
    case False
    then have "cancel_attempts A w (a # as) m = cancel_attempts A w as m" by (simp only: cancel_attempts.simps if_False)
    moreover have "hit (a # as) m = hit as m" using False by (auto simp: hit_def)
    ultimately show ?thesis using Cons.IH [of m] by simp
  qed
qed (simp add: hit_def)

abbreviation cancelled_at :: "jsstr list \<Rightarrow> jsnum \<Rightarrow> GraphAttempt \<Rightarrow> GraphAttempt" where
  "cancelled_at A w \<equiv> \<lambda>a. if att_taskId a \<in> set A \<and> att_status a = Attempt_running
     then a\<lparr>att_status := Attempt_cancelled, completedAt := Some w\<rparr> else a"

lemma replay_cancel:
  assumes r: "replayed F as cur m" and later: "list_all2 evolves (map (cancelled_at A w) as) (take (length as) F)"
  shows "replayed F (map (cancelled_at A w) as) cur (cancel_attempts A w (migratedAttempts m) m)"
proof -
  let ?P = "take (length as) F"
  have hit: "(\<exists>b \<in> set ?P. att_id b = att_id a \<and> att_taskId b \<in> set A) \<longleftrightarrow> att_taskId a \<in> set A" if a: "a \<in> set as" for a
  proof -
    obtain b where b: "evolves a b" "migratedAttemptsById m (att_id a) = Some b" using replayed_lookup [OF r a] by metis
    have only: "migratedAttemptsById m (att_id a) = Some c \<longleftrightarrow> c \<in> set ?P \<and> att_id c = att_id a" for c using r by (simp add: replayed_def)
    have "c \<in> set ?P \<and> att_id c = att_id a \<longleftrightarrow> c = b" for c using only [of c] b(2) by auto
    then show ?thesis using evolves_fields [OF b(1)] by metis
  qed
  have miss: "\<not> (\<exists>b \<in> set ?P. att_id b = i \<and> att_taskId b \<in> set A)" if "i \<notin> att_id ` set as" for i
    using that replayed_ids(1) [OF r] by (metis imageI)
  have m: "migratedAttempts m = ?P" using r by (simp add: replayed_def)
  show ?thesis
    unfolding m
  proof (rule replayed_map [OF r _ later])
    fix a assume a: "a \<in> set as"
    have "replayStatuses m (att_id a) = Some (att_status a)" "replayCompletedAt m (att_id a) = completedAt a" using r a by (auto simp: replayed_def)
    then show "replayStatuses (cancel_attempts A w ?P m) (att_id a) = Some (att_status (cancelled_at A w a)) \<and>
        replayCompletedAt (cancel_attempts A w ?P m) (att_id a) = completedAt (cancelled_at A w a)"
      using hit [OF a] by (simp add: cancel_attempts_get)
  next
    fix i assume "i \<notin> att_id ` set as"
    then show "replayCompletedAt (cancel_attempts A w ?P m) i = replayCompletedAt m i" using miss [of i] cancel_attempts_get [of A w ?P m i] by presburger
  qed simp_all
qed


section \<open>Replaying a run\<close>

abbreviation current_id :: "GraphState \<Rightarrow> jsstr \<Rightarrow> jsstr option" where
  "current_id g k \<equiv> map_option att_id (currentWorkAttempt g k)"

abbreviation replays :: "GraphAttempt list \<Rightarrow> GraphState \<Rightarrow> migration \<Rightarrow> bool" where
  "replays F g m \<equiv> replayed F (attempts g) (current_id g) m"

text \<open>The attempts of a graph as they are later.\<close>

definition attempts_later :: "GraphAttempt list \<Rightarrow> GraphAttempt list \<Rightarrow> bool" where
  "attempts_later as F \<longleftrightarrow> length as \<le> length F \<and> list_all2 evolves as (take (length as) F)"

lemma current_begun:
  assumes v: "valid_graph g'" and "work_of g' k = work_of g k @ [x]" "generation x = num_int (int (length (work_of g k)) + 1)"
  shows "currentWorkAttempt g' k = Some x"
  unfolding current_iff [OF v] assms(2) using assms(3) by (simp add: add.commute)

lemma begin_replayed:
  assumes v: "valid_graph g" "valid_graph g'" and r: "replays F g m" and t: "tabulates byId F" and later: "attempts_later (attempts g') F"
    and g': "g' = change g ft (\<lambda>a. a) [x] e" and soft: "gentle g ft (\<lambda>a. a)" and new: "att_id x \<notin> att_id ` set (attempts g)"
    and x: "att_status x = Attempt_running" "completedAt x = None"
  obtains b where "evolves x b"
    "legacyAttemptForStart byId m (att_id x) (att_taskId x) (att_agentId x) (att_kind x) (startedAt x) = Inr (legacy_of b)"
    "att_kind x = Review \<Longrightarrow> replays F g' (storeStartedAttempt b m)"
    "att_kind x \<noteq> Review \<Longrightarrow> generation x = num_int (int (length (work_of g (att_taskId x))) + 1) \<Longrightarrow>
       replays F g' (set_current (att_taskId x) b (storeStartedAttempt b m))"
proof -
  have as': "attempts g' = attempts g @ [x]" by (simp add: g')
  then have l: "length (attempts g @ [x]) \<le> length F" "list_all2 evolves (attempts g @ [x]) (take (length (attempts g @ [x])) F)"
    using later by (simp_all add: attempts_later_def)
  obtain b where b: "evolves x b"
      "legacyAttemptForStart byId m (att_id x) (att_taskId x) (att_agentId x) (att_kind x) (startedAt x) = Inr (legacy_of b)"
      "\<And>cur'. \<forall>k. cur' k = current_id g k \<Longrightarrow> replayed F (attempts g @ [x]) cur' (storeStartedAttempt b m)"
    using replay_start [OF r t new l] x by metis
  have other: "current_id g' k = current_id g k" if "att_taskId x = k \<Longrightarrow> att_kind x = Review" for k
    using change_current [OF v(1) soft, of "[x]" k e] that unfolding g' by (simp add: map_option.identity)
  have stored: "replayed F (attempts g') (current_id g) (storeStartedAttempt b m)" using b(3) [of "current_id g"] as' by simp
  show ?thesis
  proof (rule that [OF b(1,2)])
    assume "att_kind x = Review"
    then have "\<forall>k. current_id g' k = current_id g k" using other by blast
    then show "replays F g' (storeStartedAttempt b m)" using b(3) as' by simp
  next
    assume work: "att_kind x \<noteq> Review" "generation x = num_int (int (length (work_of g (att_taskId x))) + 1)"
    have "work_of g' (att_taskId x) = work_of g (att_taskId x) @ [x]" using work(1) unfolding g' change_work [OF soft] by simp
    then have "currentWorkAttempt g' (att_taskId x) = Some x" by (rule current_begun [OF v(2) _ work(2)])
    then have "(current_id g)(att_taskId x := Some (att_id b)) = current_id g'"
      using other evolves_fields [OF b(1)] by (auto simp: fun_eq_iff)
    then show "replays F g' (set_current (att_taskId x) b (storeStartedAttempt b m))" using replay_current [OF stored, of "att_taskId x" b] by simp
  qed
qed

lemma ended_replayed:
  assumes v: "valid_graph g" and r: "replays F g m" and x: "x \<in> set (attempts g)" "att_status x = Attempt_running"
    and s: "s \<noteq> Attempt_running" "isFinite w" and g': "g' = change g (status_at k ts) (ended_at (att_id x) s w) [] e"
    and later: "attempts_later (attempts g') F"
  shows "\<exists>m'. completeAttempt m (att_id x) (att_kind x = Review) s w = Inr m' \<and> replays F g' m'"
proof -
  have soft: "gentle g (status_at k ts) (ended_at (att_id x) s w)" by (rule gentle_status [OF v end_evolves [OF v x s]])
  have cur: "current_id g' = current_id g"
    unfolding g' using change_current [OF v soft, of "[]" _ e] by (auto simp: fun_eq_iff option.map_comp comp_def intro!: option.map_cong)
  have as': "attempts g' = map (ended_at (att_id x) s w) (attempts g)" by (simp add: g')
  have "list_all2 evolves (map (ended_at (att_id x) s w) (attempts g)) (take (length (attempts g)) F)"
    using later unfolding as' by (simp add: attempts_later_def)
  from replay_end [OF r x this] show ?thesis unfolding as' cur .
qed

lemma restart_replayed:
  assumes inv: "graph_inv g" and v': "valid_graph g'" and r: "replays F g m" and t: "tabulates byId F" and later: "attempts_later (attempts g') F"
    and f: "assertFailedAttemptForTask g k p = Inr f" "assertFailureIsOnCurrentWork g k f = Inr c"
    and i: "i \<notin> att_id ` set (attempts g)" and kind: "kind \<noteq> Review"
    and g': "g' = change g (status_at k Task_running) (\<lambda>a. a) [work_attempt k i agent w kind (Some p) (Some c)] ev"
  shows "\<exists>m'. replay_restart byId m kind k i agent p w = Inr m' \<and> replays F g' m'"
proof -
  let ?x = "work_attempt k i agent w kind (Some p) (Some c)"
  have v: "valid_graph g" using inv by (simp add: graph_inv_def)
  note soft = gentle_keep [OF v, of k Task_running]
  note F = assertFailedAttemptForTask_Inr [OF f(1)]
  have c: "currentWorkAttempt g k = Some c" "if att_kind f = Review then reviewsAttemptId f = Some (att_id c) else f = c"
    using assertFailureIsOnCurrentWork_Inr [OF v _ _ f(2)] F by blast+
  note mem = current_mem [OF c(1)]
  have gen: "generation ?x = num_int (int (length (work_of g (att_taskId ?x))) + 1)"
    using c(1) unfolding current_iff [OF v] by (simp add: work_attempt_def)
  have x: "att_id ?x = i" "att_taskId ?x = k" "att_agentId ?x = agent" "att_kind ?x = kind" "startedAt ?x = w" "att_status ?x = Attempt_running"
      "completedAt ?x = None" "generation ?x = num_succ (generation c)" "supersedesAttemptId ?x = Some (att_id c)" "previousAttemptId ?x = Some p"
    by (simp_all add: work_attempt_def)
  obtain b where b: "evolves ?x b" "legacyAttemptForStart byId m i k agent kind w = Inr (legacy_of b)"
      "replays F g' (set_current k b (storeStartedAttempt b m))"
    using begin_replayed [OF v v' r t later g' soft] i gen kind x by metis
  obtain f' where f': "evolves f f'" "migratedAttemptsById m p = Some f'" using replayed_lookup [OF r, of f] F by metis
  obtain c' where c': "evolves c c'" "migratedAttemptsById m (att_id c) = Some c'" using replayed_lookup [OF r, of c] mem by metis
  have pre: "(if att_kind f' = Review then Option.bind (reviewsAttemptId f') (migratedAttemptsById m) else Some f') = Some c'"
  proof (cases "att_kind f = Review")
    case True
    then show ?thesis using c(2) c'(2) evolves_fields [OF f'(1)] by simp
  next
    case False
    then show ?thesis using c(2) c'(2) f'(2) F evolves_fields [OF f'(1)] by auto
  qed
  have st: "replayStatuses m (att_id f') = Some Attempt_failed" using r F evolves_fields [OF f'(1)] by (auto simp: replayed_def)
  have cur: "map_option att_id (currentWorkByTask m k) = Some (att_id c')"
    using r c(1) evolves_fields [OF c'(1)] by (simp add: replayed_def)
  have "migrated_attempt (legacy_of b) (num_succ (generation c')) (Some (att_id c')) = b"
    using migrated_legacy [of b] evolves_fields [OF b(1)] evolves_fields [OF c'(1)] x by metis
  then have "replay_restart byId m kind k i agent p w = Inr (set_current k b (storeStartedAttempt b m))"
    unfolding replay_restart_Inr Let_def using b(2) f'(2) pre st cur mem evolves_fields [OF b(1)] evolves_fields [OF c'(1)] x
    by (intro exI [of _ "legacy_of b"] exI [of _ f'] exI [of _ c']) simp
  then show ?thesis using b(3) by blast
qed

lemma work_replayed:
  assumes inv: "graph_inv g" and v': "valid_graph g'" and r: "replays F g m" and t: "tabulates byId F" and later: "attempts_later (attempts g') F"
    and u: "u \<in> set (tasks g)" "task_id u = k" "task_status u = Task_pending" and i: "i \<notin> att_id ` set (attempts g)"
    and g': "g' = change g (status_at k Task_running) (\<lambda>a. a) [work_attempt k i agent w Work None None] ev"
  shows "\<exists>m'. replay_event byId (Plain (Work_started k i agent w)) m = Inr m' \<and> replays F g' m'"
proof -
  let ?x = "work_attempt k i agent w Work None None"
  have v: "valid_graph g" and fresh: "\<forall>a \<in> set (attempts g). att_taskId a \<noteq> k"
    using inv u by (auto simp: graph_inv_def pending_fresh_def)
  note soft = gentle_keep [OF v, of k Task_running]
  have none: "work_of g k = []" using fresh by (auto simp: work_of_def filter_empty_conv)
  have x: "att_id ?x = i" "att_taskId ?x = k" "att_agentId ?x = agent" "att_kind ?x = Work" "startedAt ?x = w" "att_status ?x = Attempt_running"
      "completedAt ?x = None" "generation ?x = num_int (int (length (work_of g k)) + 1)" "generation ?x = num_int 1" "supersedesAttemptId ?x = None"
    by (simp_all add: work_attempt_def none)
  obtain b where b: "evolves ?x b" "legacyAttemptForStart byId m i k agent Work w = Inr (legacy_of b)"
      "replays F g' (set_current k b (storeStartedAttempt b m))"
    using begin_replayed [OF v v' r t later g' soft] i x by (metis AttemptKind.distinct(5))
  have "currentWorkAttempt g k = None" by (simp add: currentWorkAttempt_work none)
  moreover have "map_option att_id (currentWorkByTask m k) = current_id g k" using r unfolding replayed_def by blast
  ultimately have "currentWorkByTask m k = None" by simp
  moreover have "migrated_attempt (legacy_of b) (num_int 1) None = b"
    using migrated_legacy [of b] evolves_fields [OF b(1)] x by metis
  ultimately have "replay_event byId (Plain (Work_started k i agent w)) m = Inr (set_current k b (storeStartedAttempt b m))"
    using b(2) by (simp add: Let_def)
  then show ?thesis using b(3) by blast
qed

lemma review_replayed:
  assumes v: "valid_graph g" and v': "valid_graph g'" and r: "replays F g m" and t: "tabulates byId F" and later: "attempts_later (attempts g') F"
    and y: "y \<in> set (attempts g)" "att_kind y \<noteq> Review" "att_taskId y = k" "att_status y = Attempt_succeeded" "current_id g k = Some (att_id y)"
    and i: "att_id x \<notin> att_id ` set (attempts g)" and g': "g' = change g (\<lambda>t. t) (\<lambda>a. a) [x] ev"
    and x: "att_taskId x = k" "att_kind x = Review" "att_status x = Attempt_running" "completedAt x = None"
      "generation x = generation y" "supersedesAttemptId x = None" "reviewsAttemptId x = Some (att_id y)"
  shows "\<exists>m'. replay_review byId m k (att_id x) (att_agentId x) (att_id y) (startedAt x) = Inr m' \<and> replays F g' m'"
proof -
  have soft: "gentle g (\<lambda>t. t) (\<lambda>a. a)" using owner_known [OF v] kept_status(2) by (simp add: gentle_def evolves_def)
  obtain b where b: "evolves x b" "legacyAttemptForStart byId m (att_id x) k (att_agentId x) Review (startedAt x) = Inr (legacy_of b)"
      "replays F g' (storeStartedAttempt b m)"
    using begin_replayed [OF v v' r t later g' soft i x(3,4)] x by metis
  obtain y' where y': "evolves y y'" "migratedAttemptsById m (att_id y) = Some y'" using replayed_lookup [OF r y(1)] by metis
  have st: "replayStatuses m (att_id y') = Some Attempt_succeeded" using r y evolves_fields [OF y'(1)] by (auto simp: replayed_def)
  have cur: "map_option att_id (currentWorkByTask m k) = Some (att_id y')" using r y(5) evolves_fields [OF y'(1)] by (simp add: replayed_def)
  have "migrated_attempt (legacy_of b) (generation y') None = b"
    using migrated_legacy [of b] evolves_fields [OF b(1)] evolves_fields [OF y'(1)] x by metis
  then have "replay_review byId m k (att_id x) (att_agentId x) (att_id y) (startedAt x) = Inr (storeStartedAttempt b m)"
    unfolding replay_review_Inr using b(2) y'(2) st cur y evolves_fields [OF b(1)] evolves_fields [OF y'(1)] x
    by (intro exI [of _ "legacy_of b"] exI [of _ y']) simp
  then show ?thesis using b(3) by blast
qed

definition replays_record :: "(jsstr \<Rightarrow> LegacyV1GraphAttempt option) \<Rightarrow> GraphAttempt list \<Rightarrow> GraphState \<Rightarrow> migration \<Rightarrow> GraphState \<Rightarrow> bool" where
  "replays_record byId F g m g' \<longleftrightarrow>
     (\<exists>r m'. records g' = records g @ [r] \<and> replay_event byId (record_event r) m = Inr m' \<and> replays F g' m')"

lemma replays_recordI:
  assumes "g' = change g ft fa new ev" "\<exists>m'. replay_event byId ev m = Inr m' \<and> replays F g' m'"
  shows "replays_record byId F g m g'"
  using assms unfolding replays_record_def by auto

lemma transition_replayed:
  assumes inv: "graph_inv g" and ok: "transition_event lc g e = Inr g'" and w: "isFinite (event_at e)" and v': "valid_graph g'"
    and r: "replays F g m" and t: "tabulates byId F" and later: "attempts_later (attempts g') F"
  shows "replays_record byId F g m g'"
proof -
  have v: "valid_graph g" using inv by (simp add: graph_inv_def)
  show ?thesis
  proof (cases e)
    case (Work_started k i agent w)
    then obtain u where "u \<in> set (tasks g)" "task_id u = k" "task_status u = Task_pending" "i \<notin> att_id ` set (attempts g)"
      and g': "g' = change g (status_at k Task_running) (\<lambda>a. a) [work_attempt k i agent w Work None None] (Plain e)"
      using ok by (auto simp: startWork_def ebind_Inr_iff startWorkAttempt_Inr dest!: taskById_Inr)
    from work_replayed [OF inv v' r t later this] show ?thesis using g' Work_started by (intro replays_recordI) auto
  next
    case (Retry_started k i agent p w)
    then obtain u f c where "assertFailedAttemptForTask g k p = Inr f" "assertFailureIsOnCurrentWork g k f = Inr c" "i \<notin> att_id ` set (attempts g)"
      and g': "g' = change g (status_at k Task_running) (\<lambda>a. a) [work_attempt k i agent w Retry (Some p) (Some c)] (Plain e)"
      using ok by (auto simp: startRetry_def ebind_Inr_iff startWorkAttempt_Inr assertFailedTaskCanRestart_def dest!: taskById_Inr)
    from restart_replayed [OF inv v' r t later this(1-3) _ g'] show ?thesis using g' Retry_started by (intro replays_recordI) auto
  next
    case (Fallback_started k i agent p reason w)
    then obtain u f c where "assertFailedAttemptForTask g k p = Inr f" "assertFailureIsOnCurrentWork g k f = Inr c" "i \<notin> att_id ` set (attempts g)"
      and g': "g' = change g (status_at k Task_running) (\<lambda>a. a) [work_attempt k i agent w Fallback (Some p) (Some c)] (Plain e)"
      using ok by (auto simp: startFallback_def ebind_Inr_iff startWorkAttempt_Inr assertFailedTaskCanRestart_def dest!: taskById_Inr)
    from restart_replayed [OF inv v' r t later this(1-3) _ g'] show ?thesis using g' Fallback_started by (intro replays_recordI) auto
  next
    case (Work_completed i out w)
    then obtain x u where x: "x \<in> set (attempts g)" "att_status x = Attempt_running" "att_id x = i" "att_kind x \<noteq> Review" "u \<in> set (tasks g)" "task_id u = att_taskId x"
      and g': "g' = change g (status_at (task_id u) (if out = Work_failed then Task_failed else if reviewRequired u then Task_awaiting_review else Task_succeeded))
        (ended_at (att_id x) (if out = Work_failed then Attempt_failed else Attempt_succeeded) w) [] (Plain e)"
      using ok by (auto simp: completeWork_def ebind_Inr_iff Let_def change_def set_status_map end_attempt_map dest!: taskById_Inr attemptById_Inr)
    have "(case out of Work_ok \<Rightarrow> Attempt_succeeded | Work_failed \<Rightarrow> Attempt_failed) = (if out = Work_failed then Attempt_failed else Attempt_succeeded)"
      by (cases out) simp_all
    with ended_replayed [OF v r x(1,2) _ _ g' later] show ?thesis
      using x(3,4) w Work_completed by (intro replays_recordI [OF g']) auto
  next
    case (Review_completed i approved w)
    then obtain x u where x: "x \<in> set (attempts g)" "att_status x = Attempt_running" "att_id x = i" "att_kind x = Review" "u \<in> set (tasks g)" "task_id u = att_taskId x"
      and g': "g' = change g (status_at (task_id u) (if approved then Task_succeeded else Task_failed))
        (ended_at (att_id x) (if approved then Attempt_succeeded else Attempt_failed) w) [] (Plain e)"
      using ok by (auto simp: completeReview_def ebind_Inr_iff Let_def change_def set_status_map end_attempt_map dest!: taskById_Inr attemptById_Inr)
    with ended_replayed [OF v r x(1,2) _ _ g' later] show ?thesis
      using x(3,4) w Review_completed by (intro replays_recordI [OF g']) auto
  next
    case (Review_started k i agent q w)
    obtain u y where u: "taskById g k = Inr u" "attemptById g q = Inr y" "i \<notin> att_id ` set (attempts g)" "att_taskId y = task_id u"
        "att_kind y \<noteq> Review" "att_status y = Attempt_succeeded" "current_id g (task_id u) = Some (att_id y)"
      and g': "g' = appendRecord (g\<lparr>attempts := attempts g @
        [\<lparr>att_id = i, att_taskId = task_id u, att_agentId = agent, att_kind = Review, generation = generation y,
          att_status = Attempt_running, startedAt = w, completedAt = None, previousAttemptId = None,
          supersedesAttemptId = None, reviewsAttemptId = Some (att_id y)\<rparr>]\<rparr>) (Plain (Review_started k i agent q w))"
      using ok unfolding Review_started transition_event.simps startReview_def ebind_Inr_iff require_Inr assertions_Inr Inr_inject
      by (elim exE conjE) (rule that, assumption, assumption, simp_all)
    let ?x = "\<lparr>att_id = i, att_taskId = task_id u, att_agentId = agent, att_kind = Review, generation = generation y,
          att_status = Attempt_running, startedAt = w, completedAt = None, previousAttemptId = None,
          supersedesAttemptId = None, reviewsAttemptId = Some (att_id y)\<rparr>"
    have g'': "g' = change g (\<lambda>t. t) (\<lambda>a. a) [?x] (Plain e)" by (simp add: g' change_def Review_started)
    note y = attemptById_Inr [OF u(2)] and k = taskById_Inr [OF u(1)]
    have "\<exists>m'. replay_review byId m (task_id u) (att_id ?x) (att_agentId ?x) (att_id y) (startedAt ?x) = Inr m' \<and> replays F g' m'"
      by (rule review_replayed [OF v v' r t later _ u(5,4,6,7) _ g'']) (use y u(3) in simp_all)
    then show ?thesis using y k Review_started by (intro replays_recordI [OF g'']) simp
  next
    case (Handoff_recorded k old new w msg)
    then obtain u where u: "new \<in> agent_ids g" "u \<in> set (tasks g)"
      and g': "g' = change g (\<lambda>c. if task_id c = task_id u then c\<lparr>ownerAgentId := new\<rparr> else c) (\<lambda>a. a) [] (Plain e)"
      using ok unfolding change_def by (auto simp: recordHandoff_def ebind_Inr_iff dest!: taskById_Inr)
    have "kept_task c (c\<lparr>ownerAgentId := new\<rparr>)" for c
      unfolding kept_task_def by (rule exI [of _ new], rule exI [of _ "task_status c"]) simp
    then have soft: "gentle g (\<lambda>c. if task_id c = task_id u then c\<lparr>ownerAgentId := new\<rparr> else c) (\<lambda>a. a)"
      using owner_known [OF v] kept_status(2) u by (simp add: gentle_def evolves_def)
    have "current_id g' = current_id g"
      unfolding g' using change_current [OF v soft, of "[]" _ "Plain e"] by (simp add: fun_eq_iff map_option.identity)
    then have "replays F g' m" using r by (simp add: g')
    then show ?thesis using Handoff_recorded by (intro replays_recordI [OF g']) simp
  next
    case (Task_cancelled_event k w reason)
    then obtain A where g': "g' = change g (\<lambda>t. if task_id t \<in> set A \<and> task_status t \<noteq> Task_succeeded then t\<lparr>task_status := Task_cancelled\<rparr> else t)
        (cancelled_at A w) [] (Cancellation k w reason A)"
      using ok unfolding change_def by (auto simp: cancelTaskTree_def ebind_Inr_iff Let_def)
    have soft: "gentle g (\<lambda>t. if task_id t \<in> set A \<and> task_status t \<noteq> Task_succeeded then t\<lparr>task_status := Task_cancelled\<rparr> else t) (cancelled_at A w)"
      using owner_known [OF v] kept_status w Task_cancelled_event by (auto simp: gentle_def evolves_def)
    have cur: "current_id g' = current_id g"
      unfolding g' using change_current [OF v soft, of "[]" _ "Cancellation k w reason A"]
      by (auto simp: fun_eq_iff option.map_comp comp_def intro!: option.map_cong)
    have as': "attempts g' = map (cancelled_at A w) (attempts g)" by (simp add: g')
    have "list_all2 evolves (map (cancelled_at A w) (attempts g)) (take (length (attempts g)) F)"
      using later unfolding as' by (simp add: attempts_later_def)
    from replay_cancel [OF r this] show ?thesis by (intro replays_recordI [OF g']) (simp add: as' cur)
  qed
qed

lemma replay_records_snoc: "replay_records byId (rs @ [r]) m = ebind (replay_records byId rs m) (replay_event byId (record_event r))"
proof (induction rs arbitrary: m)
  case (Cons q rs)
  then show ?case by (cases "replay_event byId (record_event q) m") simp_all
next
  case Nil
  then show ?case by (cases "replay_event byId (record_event r) m") simp_all
qed

lemma attempts_later_trans:
  assumes "graph_later g g'" "attempts_later (attempts g') F"
  shows "attempts_later (attempts g) F"
proof -
  obtain old new where o: "attempts g' = old @ new" "list_all2 evolves (attempts g) old" using assms(1) by (auto simp: graph_later_def)
  have len: "length old = length (attempts g)" using o(2) by (simp add: list_all2_lengthD)
  have f: "length old + length new \<le> length F" "list_all2 evolves (old @ new) (take (length old + length new) F)"
    using assms(2) o(1) by (simp_all add: attempts_later_def)
  have "list_all2 evolves old (take (length old) F)"
    using list_all2_takeI [OF f(2), of "length old"] f(1) by (simp add: min_def)
  then have "list_all2 evolves (attempts g) (take (length (attempts g)) F)" using list_all2_trans [OF evolves_trans o(2)] len by simp
  then show ?thesis using f(1) len by (simp add: attempts_later_def)
qed

lemma run_replayed:
  assumes "reachable None (graph_step lc) s" and "s = Some g" and t: "tabulates byId F" "distinct (map att_id F)" and "attempts_later (attempts g) F"
  shows "\<exists>m. replay_records byId (records g) migration_start = Inr m \<and> replays F g m"
  using assms(1,2,5)
proof (induction arbitrary: g rule: reachable.induct)
  case (reachable_step s c)
  have created: ?case if "createExplicitDag input = Inr g" for input
  proof -
    have "attempts g = []" "records g = []" using that by (auto simp: createExplicitDag_def Let_def ebind_Inr_iff)
    then show ?thesis using t by (simp add: replayed_def migration_start_def currentWorkAttempt_def)
  qed
  show ?case
  proof (cases s)
    case None
    then show ?thesis using reachable_step.prems(1) created by (cases c) (auto split: sum.splits)
  next
    case (Some g0)
    show ?thesis
    proof (cases "g = g0")
      case True
      then show ?thesis using reachable_step.IH [OF _ reachable_step.prems(2)] Some by simp
    next
      case False
      then obtain e where e: "named e" "applyEvent lc g0 e = Inr g"
        using reachable_step.prems(1) Some by (cases c) (auto split: if_splits sum.splits)
      have inv: "graph_inv g0" using reachable_graph(2) reachable_step.hyps Some by blast
      have v': "valid_graph g" using applyEvent_inv [OF inv e] by (simp add: graph_inv_def)
      have tr: "transition_event lc g0 e = Inr g" "isFinite (event_at e)" using e(2) by (auto simp: applyEvent_def ebind_Inr_iff)
      obtain m where m: "replay_records byId (records g0) migration_start = Inr m" "replays F g0 m"
        using reachable_step.IH [OF Some attempts_later_trans [OF applyEvent_later [OF e(2)] reachable_step.prems(2)]] by blast
      have "replays_record byId F g0 m g" by (rule transition_replayed [OF inv tr v' m(2) t(1) reachable_step.prems(2)])
      then show ?thesis using m(1) by (auto simp: replays_record_def replay_records_snoc)
    qed
  qed
qed simp

lemma check_final_Inr:
  assumes "\<And>j. j < length as \<Longrightarrow> n + j < length (migratedAttempts m) \<and> att_id (migratedAttempts m ! (n + j)) = legacy_id (as ! j) \<and>
      replayStatuses m (legacy_id (as ! j)) = Some (legacy_status (as ! j)) \<and> replayCompletedAt m (legacy_id (as ! j)) = legacy_completedAt (as ! j)"
  shows "check_final m n as = Inr ()"
  using assms
proof (induction "as" arbitrary: n)
  case (Cons a "as")
  have "check_final m (Suc n) as = Inr ()"
    by (rule Cons.IH) (use Cons.prems [of "Suc j" for j] in auto)
  then show ?case using Cons.prems [of 0] by (simp add: at_index_def)
qed simp

text \<open>The replay of a graph of a run ends with its attempts, as they are.\<close>

lemma migration_rebuilds:
  assumes "reachable None (graph_step lc) (Some g)"
  shows "\<exists>byId m. legacy_table (\<lambda>_. None) (map legacy_of (attempts g)) = Inr byId \<and> check_sequences 0 (records g) = Inr () \<and>
    replay_records byId (records g) migration_start = Inr m \<and> migratedAttempts m = attempts g \<and>
    check_final m 0 (map legacy_of (attempts g)) = Inr ()"
proof -
  have v: "valid_graph g" by (rule reachable_graph(1) [OF assms])
  have d: "distinct (map att_id (attempts g))" by (rule valid_graphD(2) [OF v])
  obtain byId where byId: "legacy_table (\<lambda>_. None) (map legacy_of (attempts g)) = Inr byId" "tabulates byId (attempts g)"
    using legacy_table_tabulates [OF d] by blast
  have "attempts_later (attempts g) (attempts g)" by (simp add: attempts_later_def list_all2_same evolves_def)
  from run_replayed [OF assms refl byId(2) d this] obtain m where
    m: "replay_records byId (records g) migration_start = Inr m" "replays (attempts g) g m" by blast
  have mig: "migratedAttempts m = attempts g" using m(2) by (simp add: replayed_def)
  have "check_final m 0 (map legacy_of (attempts g)) = Inr ()"
    by (rule check_final_Inr) (use m(2) mig in \<open>auto simp: replayed_def\<close>)
  moreover have "check_sequences 0 (records g) = Inr ()"
    by (rule check_sequences_Inr) (use valid_graphD(9) [OF v] in \<open>auto simp: records_ok_def record_ok_def\<close>)
  ultimately show ?thesis using byId(1) m(1) mig by blast
qed


section \<open>Texts of the first version\<close>

text \<open>The snapshot that the first version wrote of a graph: no generation and no supersession.\<close>

definition legacy_attempt_value :: "GraphAttempt \<Rightarrow> jtree" where
  "legacy_attempt_value a =
     jobj ([(''id'', TStr (att_id a)), (''taskId'', TStr (att_taskId a)), (''agentId'', TStr (att_agentId a)),
        (''kind'', TStr (js (attempt_kind_text (att_kind a)))), (''status'', TStr (js (attempt_status_text (att_status a)))),
        (''startedAt'', TNum (startedAt a))] @
       optional_field ''completedAt'' TNum (completedAt a) @ optional_field ''previousAttemptId'' TStr (previousAttemptId a) @
       optional_field ''reviewsAttemptId'' TStr (reviewsAttemptId a))"

definition legacy_value :: "GraphState \<Rightarrow> jtree" where
  "legacy_value g =
     jobj [(''schemaVersion'', TInt 1), (''maxParallelism'', TNum (maxParallelism g)),
       (''agents'', TArr (map agent_value (agents g))), (''tasks'', TArr (map task_value (tasks g))),
       (''attempts'', TArr (map legacy_attempt_value (attempts g))), (''records'', TArr (map record_value (records g)))]"

lemma parseLegacyV1Attempt_written:
  assumes "isFinite (startedAt a)" "pred_option isFinite (completedAt a)"
  shows "parseLegacyV1Attempt (canonicalizeJsonValue (legacy_attempt_value a)) = Inr (legacy_of a)"
proof -
  let ?fs = "[(''id'', TStr (att_id a)), (''taskId'', TStr (att_taskId a)), (''agentId'', TStr (att_agentId a)),
        (''kind'', TStr (js (attempt_kind_text (att_kind a)))), (''status'', TStr (js (attempt_status_text (att_status a)))),
        (''startedAt'', TNum (startedAt a))] @
       optional_field ''completedAt'' TNum (completedAt a) @ optional_field ''previousAttemptId'' TStr (previousAttemptId a) @
       optional_field ''reviewsAttemptId'' TStr (reviewsAttemptId a)"
  have "distinct (map fst ?fs)"
    by (cases "completedAt a"; cases "previousAttemptId a"; cases "reviewsAttemptId a") (simp_all add: optional_field_def)
  then obtain ms where ms: "canonicalizeJsonValue (legacy_attempt_value a) = TObj ms" "reads_as ms ?fs"
    unfolding legacy_attempt_value_def by (rule canonical_object)
  note rd = reads_as_fields [OF ms(2)]
  have fs: "map_of ?fs ''id'' = Some (TStr (att_id a))" "map_of ?fs ''taskId'' = Some (TStr (att_taskId a))"
    "map_of ?fs ''agentId'' = Some (TStr (att_agentId a))" "map_of ?fs ''kind'' = Some (TStr (js (attempt_kind_text (att_kind a))))"
    "map_of ?fs ''status'' = Some (TStr (js (attempt_status_text (att_status a))))"
    "map_of ?fs ''startedAt'' = Some (TNum (startedAt a))" "map_of ?fs ''completedAt'' = map_option TNum (completedAt a)"
    "map_of ?fs ''previousAttemptId'' = map_option TStr (previousAttemptId a)"
    "map_of ?fs ''reviewsAttemptId'' = map_option TStr (reviewsAttemptId a)"
    "map_of ?fs ''generation'' = None" "map_of ?fs ''supersedesAttemptId'' = None"
    by (simp_all add: map_add_def map_of_optional split: option.split)
  have no: "\<not> (hasOwn ms ''generation'' \<or> hasOwn ms ''supersedesAttemptId'')" unfolding rd(1) fs by simp
  show ?thesis
    unfolding ms(1) parseLegacyV1Attempt_def parseObject.simps ebind_simps if_not_P [OF no] rd(4) [OF fs(1)] rd(4) [OF fs(2)] rd(4) [OF fs(3)]
      rd(3) [OF fs(4)] rd(3) [OF fs(5)] rd(5) [OF fs(6) assms(1)] rd(8) [OF fs(7) assms(2)] rd(7) [OF fs(8)] rd(7) [OF fs(9)]
      canonicalizeJsonValue.simps(2) enum_texts
    by (simp add: legacy_of_def)
qed

lemma legacy_printable:
  assumes "valid_graph g" "binary64_graph g" "array_sizes g"
  shows "printable (legacy_value g)" "strict_tree (legacy_value g)"
proof -
  note parts = printable_parts [OF assms]
  have "printable (legacy_attempt_value a)" if a: "a \<in> set (attempts g)" for a
    using parts(3) [OF a] printable_leaves
    by (cases "completedAt a"; cases "previousAttemptId a"; cases "reviewsAttemptId a")
      (simp_all add: legacy_attempt_value_def printable_jobj optional_field_def del: printable.simps)
  moreover have "printable (TInt 1)" by (simp add: safe_int_def MAX_SAFE_INTEGER_def)
  ultimately show "printable (legacy_value g)"
    using parts(1,2,4) printable_agent by (simp add: legacy_value_def printable_jobj list_all_iff del: printable.simps(1))
  have "strict_tree (legacy_attempt_value a)" for a
    by (cases "completedAt a"; cases "previousAttemptId a"; cases "reviewsAttemptId a")
      (simp_all add: legacy_attempt_value_def strict_jobj optional_field_def)
  then show "strict_tree (legacy_value g)" using strict_graph_value [of g] by (simp add: legacy_value_def graph_value_def strict_jobj list_all_iff)
qed

lemma legacy_state_written:
  assumes "finite_numbers g"
  shows "\<exists>ms. canonicalizeJsonValue (legacy_value g) = TObj ms \<and> required_number ms ''schemaVersion'' owner label = Inr (num_int 1) \<and>
    parse_legacy_state ms = Inr \<lparr>legacy_maxParallelism = maxParallelism g, legacy_agents = agents g, legacy_tasks = tasks g,
      legacy_attempts = map legacy_of (attempts g), legacy_records = records g\<rparr>"
proof -
  let ?fs = "[(''schemaVersion'', TInt 1), (''maxParallelism'', TNum (maxParallelism g)),
       (''agents'', TArr (map agent_value (agents g))), (''tasks'', TArr (map task_value (tasks g))),
       (''attempts'', TArr (map legacy_attempt_value (attempts g))), (''records'', TArr (map record_value (records g)))]"
  have "distinct (map fst ?fs)" by simp
  then obtain ms where ms: "canonicalizeJsonValue (legacy_value g) = TObj ms" "reads_as ms ?fs"
    unfolding legacy_value_def by (rule canonical_object)
  have "isFinite (maxParallelism g)" using assms by (simp add: finite_numbers_def)
  then have nums: "required_number ms ''schemaVersion'' ow lb = Inr (num_int 1)" "required_number ms ''maxParallelism'' ow lb = Inr (maxParallelism g)" for ow lb
    using reads_as_fields(5) [OF ms(2)] by simp_all
  have arrays: "required_array ms ''agents'' parseGraphAgent = Inr (agents g)" "required_array ms ''tasks'' parseGraphTask = Inr (tasks g)"
    "required_array ms ''records'' parseGraphRecord = Inr (records g)"
    using required_array_same [OF ms(2), where h = agent_value] required_array_same [OF ms(2), where h = task_value]
      required_array_same [OF ms(2), where h = record_value] assms
    by (simp_all add: finite_numbers_def parseGraphAgent_written parseGraphTask_written parseGraphRecord_written)
  have "required_array ms ''attempts'' parseLegacyV1Attempt = Inr (map legacy_of (attempts g))"
    by (rule required_array_written [OF ms(2), where h = legacy_attempt_value])
      (use assms in \<open>simp_all add: finite_numbers_def parseLegacyV1Attempt_written\<close>)
  then show ?thesis using ms(1) nums by (simp add: parse_legacy_state_def arrays)
qed

lemma migration_restores:
  assumes "reachable None (graph_step lc) (Some g)" and num: "binary64_graph g" "array_sizes g"
  shows "\<exists>x. json_stringify (canonicalizeJsonValue (legacy_value g)) = Some x \<and> restoreGraph x = Inr g"
proof -
  let ?t = "canonicalizeJsonValue (legacy_value g)"
  have v: "valid_graph g" by (rule reachable_graph(1) [OF assms(1)])
  then have ok: "assertValidGraph g = Inr ()" by simp
  obtain x where x: "json_stringify ?t = Some x"
    using printable_stringify [OF printable_canonical [OF legacy_printable(1) [OF v num]]] by blast
  then have parsed: "json_parse x = Some ?t" by (rule strict_json.read_print [OF strict_canonical [OF legacy_printable(2) [OF v num]]])
  obtain ms where ms: "?t = TObj ms" "required_number ms ''schemaVersion'' ''graph snapshot'' ''schemaVersion'' = Inr (num_int 1)"
      "parse_legacy_state ms = Inr \<lparr>legacy_maxParallelism = maxParallelism g, legacy_agents = agents g, legacy_tasks = tasks g,
        legacy_attempts = map legacy_of (attempts g), legacy_records = records g\<rparr>"
    using legacy_state_written [OF valid_finite [OF v]] by blast
  have "schemaVersion g = GRAPH_SCHEMA_VERSION" using valid_graphD(8) [OF v] by (simp add: structure_ok_def)
  then have "migrateLegacyV1Graph ms = Inr g"
    using migration_rebuilds [OF assms(1)] by (auto simp: migrateLegacyV1Graph_def ms(3))
  then have "restoreGraph x = ebind (assertValidGraph g) (\<lambda>_. Inr g)" using parsed ms(1,2) by (simp add: restoreGraph_def)
  then show ?thesis using x ok by simp
qed


section \<open>Properties\<close>

text \<open>The graph at the end of the demonstration run.\<close>

definition demo_final :: GraphState where
  "demo_final = demo_graph Task_succeeded
     [demo_work ''x'' Attempt_succeeded (Some (num_int 2)), demo_review Attempt_succeeded (Some (num_int 4))]
     [graph_demo_record 1 (demo_events ! 0), graph_demo_record 2 (demo_events ! 1), graph_demo_record 3 (demo_events ! 2),
      graph_demo_record 4 (demo_events ! 3)]"

lemma demo_final_facts:
  "reachable None (graph_step demo_order) (Some demo_final)" "validateGraph demo_final = []" "binary64_graph demo_final" "array_sizes demo_final"
proof -
  show r: "reachable None (graph_step demo_order) (Some demo_final)"
    using graph_demo_reachable [of 4] demo_states(5) by (simp add: demo_final_def)
  show "validateGraph demo_final = []" using reachable_graph(1) [OF r] by (simp add: validateGraph_Nil)
  have "binary64 (NumFin 0)" "binary64 (NumFin 1)" "binary64 (NumFin 2)" "binary64 (NumFin 3)" "binary64 (NumFin 4)"
    using small_binary64 [of 0] small_binary64 [of 1] small_binary64 [of 2] small_binary64 [of 3] small_binary64 [of 4] by simp_all
  then show "binary64_graph demo_final" by (simp add: binary64_graph_def demo_final_def demo_defs demo_events_def)
  show "array_sizes demo_final" by (simp add: array_sizes_def demo_final_def demo_defs)
qed

text \<open>
  C12: a graph that passes the validation is saved, and the snapshot restores exactly that graph: every agent, task, attempt and record,
  every optional field, and every number, whole or not (negative zero being the same as zero in the model).
\<close>

theorem snapshot_round_trip:
  assumes "validateGraph g = []" and "binary64_graph g" and "array_sizes g"
  shows "\<exists>x. serializeGraph g = Inr x \<and> restoreGraph x = Inr g"
  using graph_saved assms by (simp add: validateGraph_Nil)

theorem snapshot_round_trip_witness:
  "\<exists>x. serializeGraph demo_final = Inr x \<and> restoreGraph x = Inr demo_final"
  using snapshot_round_trip [OF demo_final_facts(2-4)] .

text \<open>
  C39: whatever text a graph is restored from, of the current version or of the first, the graph passes the validation, can be saved, and
  the new snapshot restores the same graph.
\<close>

theorem restored_graph_saves:
  assumes "restoreGraph x = Inr g" and "array_sizes g"
  shows "validateGraph g = [] \<and> (\<exists>y. serializeGraph g = Inr y \<and> restoreGraph y = Inr g)"
  using graph_saved [OF restored [OF assms(1)] assms(2)] restored(1) [OF assms(1)] by (simp add: validateGraph_Nil)

theorem restored_graph_saves_witness:
  "\<exists>x. restoreGraph x = Inr demo_final \<and> (\<exists>y. serializeGraph demo_final = Inr y \<and> restoreGraph y = Inr demo_final)"
proof -
  obtain x where x: "restoreGraph x = Inr demo_final"
    using migration_restores [OF demo_final_facts(1,3,4)] by blast
  then show ?thesis using restored_graph_saves [OF x demo_final_facts(4)] by blast
qed

text \<open>
  C10: migration is faithful. The first version of the snapshots wrote neither the generation of an attempt nor the attempt that it
  supersedes; from such a snapshot of a graph of a run, the replay of the records rebuilds both, and the graph restored is the one saved.
\<close>

theorem migration_rebuilds_run:
  assumes "reachable None (graph_step lc) (Some g)" and "binary64_graph g" and "array_sizes g"
  shows "\<exists>x. json_stringify (canonicalizeJsonValue (legacy_value g)) = Some x \<and> restoreGraph x = Inr g"
  using migration_restores [OF assms] .

theorem migration_rebuilds_run_witness:
  "\<exists>x. json_stringify (canonicalizeJsonValue (legacy_value demo_final)) = Some x \<and> restoreGraph x = Inr demo_final"
  using migration_rebuilds_run [OF demo_final_facts(1,3,4)] .

end
