(* ===== verification/Validation.thy ===== *)
theory Validation
  imports JS_Base
begin

text \<open>
  The text validators of \<open>src/app/src/domain/projectChats/validation.ts\<close>: identifiers, labels,
  session file names and the bounded UTF-8 length. Each loop over \<open>charCodeAt\<close> is a recursion
  over the remaining code units, in the order the code tests them.
\<close>

section \<open>Definitions\<close>

definition MAX_PROJECT_CHAT_ID_BYTES :: nat where "MAX_PROJECT_CHAT_ID_BYTES = 128"
definition MAX_PROJECT_CHAT_LABEL_SCALARS :: nat where "MAX_PROJECT_CHAT_LABEL_SCALARS = 200"
definition MAX_PRIME_SESSION_FILE_BYTES :: nat where "MAX_PRIME_SESSION_FILE_BYTES = 255"
definition MAX_PROJECT_CHAT_JSON_BYTES :: int where "MAX_PROJECT_CHAT_JSON_BYTES = 8 * 1024 * 1024"

lemmas validation_limits =
  MAX_PROJECT_CHAT_ID_BYTES_def MAX_PROJECT_CHAT_LABEL_SCALARS_def
  MAX_PRIME_SESSION_FILE_BYTES_def MAX_PROJECT_CHAT_JSON_BYTES_def

definition isProjectChatId :: "jsstr \<Rightarrow> bool" where
  "isProjectChatId s \<longleftrightarrow>
     \<not> (length s = 0 \<or> length s > MAX_PROJECT_CHAT_ID_BYTES \<or> hd s = 0x20 \<or> last s = 0x20) \<and>
     list_all (\<lambda>c. \<not> (c < 0x20 \<or> c > 0x7e)) s"

text \<open>
  \<open>UNSAFE_LABEL_CATEGORY\<close>, the code points of the Unicode general categories Cf, Zl and Zp
  (the \<open>u\<close> flag makes the expression match code points).
\<close>

definition unsafe_label_cp :: "nat \<Rightarrow> bool" where
  "unsafe_label_cp n \<longleftrightarrow>
     n = 0xAD \<or> 0x600 \<le> n \<and> n \<le> 0x605 \<or> n = 0x61C \<or> n = 0x6DD \<or> n = 0x70F \<or>
     0x890 \<le> n \<and> n \<le> 0x891 \<or> n = 0x8E2 \<or> n = 0x180E \<or> 0x200B \<le> n \<and> n \<le> 0x200F \<or>
     n = 0x2028 \<or> n = 0x2029 \<or> 0x202A \<le> n \<and> n \<le> 0x202E \<or>
     0x2060 \<le> n \<and> n \<le> 0x2064 \<or> 0x2066 \<le> n \<and> n \<le> 0x206F \<or> n = 0xFEFF \<or>
     0xFFF9 \<le> n \<and> n \<le> 0xFFFB \<or> n = 0x110BD \<or> n = 0x110CD \<or>
     0x13430 \<le> n \<and> n \<le> 0x1343F \<or> 0x1BCA0 \<le> n \<and> n \<le> 0x1BCA3 \<or>
     0x1D173 \<le> n \<and> n \<le> 0x1D17A \<or> n = 0xE0001 \<or> 0xE0020 \<le> n \<and> n \<le> 0xE007F"

definition UNSAFE_LABEL_CATEGORY :: "jsstr \<Rightarrow> bool" where
  "UNSAFE_LABEL_CATEGORY s \<longleftrightarrow> list_ex unsafe_label_cp (code_points s)"

text \<open>
  The scan of \<open>isProjectChatLabel\<close>: the rest of the string and \<open>scalarCount\<close>. Past the end
  \<open>charCodeAt\<close> is \<open>NaN\<close>, for which both comparisons of the surrogate test are false.
\<close>

fun label_scan :: "jsstr \<Rightarrow> nat \<Rightarrow> bool" where
  "label_scan [] n \<longleftrightarrow> n > 0"
| "label_scan (c # s) n \<longleftrightarrow>
     (if c \<le> 0x1f \<or> 0x7f \<le> c \<and> c \<le> 0x9f then False
      else if is_high c then
        (if (case s of [] \<Rightarrow> False | d # _ \<Rightarrow> \<not> is_low d) then False
         else if Suc n > MAX_PROJECT_CHAT_LABEL_SCALARS then False
         else label_scan (tl s) (Suc n))
      else if is_low c then False
      else if Suc n > MAX_PROJECT_CHAT_LABEL_SCALARS then False
      else label_scan s (Suc n))"

definition isProjectChatLabel :: "jsstr \<Rightarrow> bool" where
  "isProjectChatLabel s \<longleftrightarrow>
     \<not> (length s = 0 \<or> length s > MAX_PROJECT_CHAT_LABEL_SCALARS * 2 \<or> js_trim s \<noteq> s \<or>
        UNSAFE_LABEL_CATEGORY s) \<and>
     label_scan s 0"

definition prime_session_file_char :: "code_unit \<Rightarrow> bool" where
  [js_char]: "prime_session_file_char c \<longleftrightarrow>
     0x41 \<le> c \<and> c \<le> 0x5A \<or> 0x61 \<le> c \<and> c \<le> 0x7A \<or> 0x30 \<le> c \<and> c \<le> 0x39 \<or>
     c = 0x2E \<or> c = 0x5F \<or> c = 0x2D"

definition isPrimeSessionFile :: "jsstr \<Rightarrow> bool" where
  "isPrimeSessionFile s \<longleftrightarrow>
     length s > 0 \<and> length s \<le> MAX_PRIME_SESSION_FILE_BYTES \<and> s \<noteq> js ''.'' \<and> s \<noteq> js ''..'' \<and>
     s \<noteq> [] \<and> list_all prime_session_file_char s"

fun utf8_within_loop :: "jsstr \<Rightarrow> int \<Rightarrow> int \<Rightarrow> int option" where
  "utf8_within_loop [] maximum bytes = Some bytes"
| "utf8_within_loop (c # s) maximum bytes =
     (let pair = is_high c \<and> (case s of [] \<Rightarrow> False | d # _ \<Rightarrow> is_low d);
          bytes' = bytes + (if c \<le> 0x7f then 1 else if c \<le> 0x7ff then 2 else if pair then 4 else 3)
      in if bytes' > maximum then None
         else if pair then utf8_within_loop (tl s) maximum bytes'
         else utf8_within_loop s maximum bytes')"

definition utf8ByteLengthWithin :: "jsstr \<Rightarrow> int \<Rightarrow> int option" where
  "utf8ByteLengthWithin s maximum =
     (if \<not> safe_int maximum \<or> maximum < 0 \<or> int (length s) > maximum then None
      else utf8_within_loop s maximum 0)"


section \<open>UTF-8 length\<close>

definition utf8_length :: "jsstr \<Rightarrow> nat" where
  "utf8_length s = length (utf8_encode s)"

lemma utf8_length_Nil [simp]: "utf8_length [] = 0"
  by (simp add: utf8_length_def)

lemma length_utf8_cp_unit:
  "length (utf8_cp (unat c)) = (if c \<le> 0x7f then 1 else if c \<le> 0x7ff then 2 else 3)"
  for c :: code_unit
  using unsigned_less [of c, where 'a = nat] by (auto simp: utf8_cp_def word_le_nat_alt)

lemma length_utf8_cp_pair:
  "length (utf8_cp (0x10000 + (unat c - 0xD800) * 0x400 + (unat d - 0xDC00))) = 4"
  by (simp add: utf8_cp_def)

lemma utf8_length_pair:
  "is_high c \<Longrightarrow> is_low d \<Longrightarrow> utf8_length (c # d # s) = 4 + utf8_length s"
  by (simp add: utf8_length_def utf8_encode_def length_utf8_cp_pair)

lemma utf8_length_unit:
  "\<not> (is_high c \<and> (case s of [] \<Rightarrow> False | d # _ \<Rightarrow> is_low d)) \<Longrightarrow>
   utf8_length (c # s) = (if c \<le> 0x7f then 1 else if c \<le> 0x7ff then 2 else 3) + utf8_length s"
  by (cases s) (auto simp: utf8_length_def utf8_encode_def length_utf8_cp_unit)

lemma high_not_small: "is_high c \<Longrightarrow> \<not> c \<le> 0x7f \<and> \<not> c \<le> 0x7ff"
  by (auto simp: js_char word_le_nat_alt)

lemma length_le_utf8_length [js_len]: "length s \<le> utf8_length s"
proof (induction s rule: length_induct)
  case (1 s)
  show ?case
  proof (cases s)
    case Nil
    then show ?thesis by simp
  next
    case (Cons c t)
    show ?thesis
    proof (cases "is_high c \<and> (case t of [] \<Rightarrow> False | d # _ \<Rightarrow> is_low d)")
      case True
      then obtain d u where t: "t = d # u" by (cases t) auto
      with 1 Cons have "length u \<le> utf8_length u" by simp
      with True Cons t show ?thesis by (simp add: utf8_length_pair)
    next
      case False
      from 1 Cons have "length t \<le> utf8_length t" by simp
      with utf8_length_unit [OF False] Cons show ?thesis by auto
    qed
  qed
qed

lemma utf8_within_loop_eq:
  "utf8_within_loop s m b =
     (if s = [] \<or> b + int (utf8_length s) \<le> m then Some (b + int (utf8_length s)) else None)"
proof (induction s m b rule: utf8_within_loop.induct)
  case (1 m b)
  then show ?case by simp
next
  case (2 c s m b)
  show ?case
  proof (cases "is_high c \<and> (case s of [] \<Rightarrow> False | d # _ \<Rightarrow> is_low d)")
    case True
    then obtain d u where s: "s = d # u" and d: "is_low d" by (cases s) auto
    from True have "\<not> c \<le> 0x7f" "\<not> c \<le> 0x7ff" by (auto dest: high_not_small)
    with 2(1) [OF refl refl] True s d show ?thesis
      by (auto simp: utf8_length_pair Let_def)
  next
    case False
    have "utf8_length (c # s) = (if c \<le> 0x7f then 1 else if c \<le> 0x7ff then 2 else 3) + utf8_length s"
      by (rule utf8_length_unit [OF False])
    with 2(2) [OF refl refl] False high_not_small [of c] show ?thesis
      by (auto simp: Let_def)
  qed
qed

lemma utf8ByteLengthWithin_eq:
  "utf8ByteLengthWithin s m =
     (if safe_int m \<and> 0 \<le> m \<and> int (utf8_length s) \<le> m then Some (int (utf8_length s)) else None)"
  using length_le_utf8_length [of s]
  by (auto simp: utf8ByteLengthWithin_def utf8_within_loop_eq)

text \<open>
  C27: \<open>utf8ByteLengthWithin\<close> returns the length of the string's UTF-8 encoding exactly when
  the limit is a non-negative safe integer that this length does not exceed, and nothing
  otherwise: its early exits never change the answer.
\<close>

theorem utf8ByteLengthWithin_correct:
  "utf8ByteLengthWithin s m =
     (if safe_int m \<and> 0 \<le> m \<and> int (length (utf8_encode s)) \<le> m
      then Some (int (length (utf8_encode s))) else None)"
  by (simp add: utf8ByteLengthWithin_eq utf8_length_def)



section \<open>Labels, identifiers and file names\<close>

text \<open>What the comment on \<open>isProjectChatLabel\<close> promises of a label.\<close>

definition is_surrogate_cp :: "nat \<Rightarrow> bool" where
  "is_surrogate_cp n \<longleftrightarrow> 0xD800 \<le> n \<and> n \<le> 0xDFFF"

definition control_cp :: "nat \<Rightarrow> bool" where
  "control_cp n \<longleftrightarrow> n \<le> 0x1f \<or> 0x7f \<le> n \<and> n \<le> 0x9f"

definition label_spec :: "jsstr \<Rightarrow> bool" where
  "label_spec s \<longleftrightarrow>
     js_trim s = s \<and> 1 \<le> length (code_points s) \<and>
     length (code_points s) \<le> MAX_PROJECT_CHAT_LABEL_SCALARS \<and>
     list_all (\<lambda>n. \<not> is_surrogate_cp n \<and> \<not> control_cp n \<and> \<not> unsafe_label_cp n) (code_points s)"

lemma length_code_points_le: "length (code_points s) \<le> length s"
  by (induction s rule: code_points.induct) auto

lemma length_le_twice_code_points [js_len]: "length s \<le> 2 * length (code_points s)"
  by (induction s rule: code_points.induct) auto

lemma code_points_Nil_iff [simp]: "code_points s = [] \<longleftrightarrow> s = []"
  by (cases s rule: code_points.cases) auto

lemma pair_cp_ok:
  "is_high c \<Longrightarrow> is_low d \<Longrightarrow>
   \<not> is_surrogate_cp (0x10000 + (unat c - 0xD800) * 0x400 + (unat d - 0xDC00)) \<and>
   \<not> control_cp (0x10000 + (unat c - 0xD800) * 0x400 + (unat d - 0xDC00))"
  by (simp add: is_surrogate_cp_def control_cp_def)

lemma unit_cp_surrogate: "is_surrogate_cp (unat c) \<longleftrightarrow> is_high c \<or> is_low c"
  for c :: code_unit
  by (auto simp: is_surrogate_cp_def js_char word_le_nat_alt)

lemma unit_cp_control: "control_cp (unat c) \<longleftrightarrow> c \<le> 0x1f \<or> 0x7f \<le> c \<and> c \<le> 0x9f"
  for c :: code_unit
  by (auto simp: control_cp_def word_le_nat_alt)

lemma surrogate_not_control:
  "is_high c \<or> is_low c \<Longrightarrow> \<not> (c \<le> 0x1f \<or> 0x7f \<le> c \<and> c \<le> 0x9f)"
  by (auto simp: js_char word_le_nat_alt)

definition scalar_run :: "jsstr \<Rightarrow> nat \<Rightarrow> bool" where
  "scalar_run s n \<longleftrightarrow>
     0 < n + length (code_points s) \<and>
     (s \<noteq> [] \<longrightarrow> n + length (code_points s) \<le> MAX_PROJECT_CHAT_LABEL_SCALARS) \<and>
     list_all (\<lambda>m. \<not> is_surrogate_cp m \<and> \<not> control_cp m) (code_points s)"

lemma label_scan_iff:
  "s = [] \<or> \<not> is_high (last s) \<Longrightarrow> label_scan s n \<longleftrightarrow> scalar_run s n"
proof (induction s arbitrary: n rule: code_points.induct)
  case 1
  then show ?case by (simp add: scalar_run_def)
next
  case (2 c)
  then show ?case
    using surrogate_not_control [of c]
    by (auto simp: scalar_run_def unit_cp_surrogate unit_cp_control)
next
  case (3 c d s)
  show ?case
  proof (cases "is_high c \<and> is_low d")
    case True
    have "s = [] \<or> \<not> is_high (last s)"
      using "3.prems" by auto
    with 3(1) [OF True] have "label_scan s (Suc n) \<longleftrightarrow> scalar_run s (Suc n)" by blast
    with True surrogate_not_control [of c] pair_cp_ok [of c d] show ?thesis
      by (auto simp: scalar_run_def)
  next
    case False
    have "d # s = [] \<or> \<not> is_high (last (d # s))"
      using "3.prems" by simp
    with 3(2) [OF False] have "label_scan (d # s) (Suc n) \<longleftrightarrow> scalar_run (d # s) (Suc n)" by blast
    with False surrogate_not_control [of c] show ?thesis
      by (auto simp: scalar_run_def unit_cp_surrogate unit_cp_control
          simp del: label_scan.simps(2) code_points.simps(3)
          simp add: label_scan.simps(2) [of c "d # s"] code_points.simps(3) [of c d s])
  qed
qed

lemma list_all_unsafe: "\<not> UNSAFE_LABEL_CATEGORY s \<longleftrightarrow> list_all (\<lambda>n. \<not> unsafe_label_cp n) (code_points s)"
  by (simp add: UNSAFE_LABEL_CATEGORY_def list_ex_iff list_all_iff)

text \<open>
  C28: on every string that does not end in a high surrogate, \<open>isProjectChatLabel\<close> decides
  exactly what its comment says: trimmed text of 1 to 200 Unicode scalar values, without
  controls, format characters or separators.
\<close>

theorem isProjectChatLabel_spec:
  assumes "s = [] \<or> \<not> is_high (last s)"
  shows "isProjectChatLabel s \<longleftrightarrow> label_spec s"
proof -
  have "length s \<le> 2 * length (code_points s)" by (rule length_le_twice_code_points)
  with assms show ?thesis
    by (auto simp: isProjectChatLabel_def label_spec_def label_scan_iff scalar_run_def
        list_all_unsafe list_all_iff validation_limits Suc_le_eq)
qed

theorem isProjectChatLabel_spec_witness:
  "isProjectChatLabel (js ''Personal'') \<longleftrightarrow> label_spec (js ''Personal'')"
  by (rule isProjectChatLabel_spec) (simp add: js_def js_char)

lemma code_points_snoc: "\<not> is_low h \<Longrightarrow> code_points (s @ [h]) = code_points s @ [unat h]"
  by (induction s rule: code_points.induct) auto

lemma label_scan_snoc_high:
  "is_high h \<Longrightarrow> s = [] \<or> \<not> is_high (last s) \<Longrightarrow> scalar_run s n \<Longrightarrow>
   n + length (code_points s) < MAX_PROJECT_CHAT_LABEL_SCALARS \<Longrightarrow> label_scan (s @ [h]) n"
proof (induction s arbitrary: n rule: code_points.induct)
  case 1
  then show ?case using surrogate_not_control [of h] by auto
next
  case (2 c)
  then show ?case
    using surrogate_not_control [of h] surrogate_not_control [of c]
    by (auto simp: scalar_run_def unit_cp_surrogate unit_cp_control)
next
  case (3 c d s)
  show ?case
  proof (cases "is_high c \<and> is_low d")
    case True
    have "label_scan (s @ [h]) (Suc n)"
      by (rule 3(1) [OF True]) (use 3(3-6) True in \<open>auto simp: scalar_run_def\<close>)
    with True 3(6) surrogate_not_control [of c] show ?thesis by auto
  next
    case False
    have "label_scan ((d # s) @ [h]) (Suc n)"
      by (rule 3(2) [OF False]) (use 3(3-6) False in \<open>auto simp: scalar_run_def\<close>)
    moreover have "\<not> is_high c \<and> \<not> is_low c \<and> \<not> (c \<le> 0x1f \<or> 0x7f \<le> c \<and> c \<le> 0x9f)"
      using 3(5) False by (auto simp: scalar_run_def unit_cp_surrogate unit_cp_control)
    ultimately show ?thesis
      using 3(6) False by (simp add: label_scan.simps(2) [of c "d # s @ [h]"] del: label_scan.simps(2))
  qed
qed

lemma last_code_points: "s \<noteq> [] \<Longrightarrow> is_high (last s) \<Longrightarrow> is_surrogate_cp (last (code_points s))"
  by (induction s rule: code_points.induct)
    (auto simp: unit_cp_surrogate js_char word_le_nat_alt split: if_splits)

lemma label_spec_not_high: "label_spec s \<Longrightarrow> s \<noteq> [] \<and> \<not> is_high (last s)"
  using last_code_points [of s] by (cases "s = []") (auto simp: label_spec_def list_all_iff)

text \<open>
  The exception to the previous property. Every valid label of fewer than 200 scalar
  values, followed by one unpaired high surrogate, is still accepted, although it is not a
  sequence of Unicode scalar values: past the end of the string the surrogate test compares
  with \<open>NaN\<close>.
\<close>

theorem isProjectChatLabel_accepts_trailing_high_surrogate:
  assumes "label_spec s" and "length (code_points s) < MAX_PROJECT_CHAT_LABEL_SCALARS"
  shows "isProjectChatLabel (s @ [0xD800]) \<and> \<not> label_spec (s @ [0xD800])"
proof -
  let ?h = "0xD800 :: code_unit"
  have h: "is_high ?h" "\<not> is_low ?h" "unat ?h = 0xD800" "\<not> is_js_space ?h"
    by (simp_all add: js_char)
  from label_spec_not_high [OF assms(1)] have s: "s \<noteq> []" "\<not> is_high (last s)" by auto
  have cps: "code_points (s @ [?h]) = code_points s @ [0xD800]"
    using code_points_snoc [OF h(2), of s] h(3) by simp
  have trim: "js_trim (s @ [?h]) = s @ [?h]"
    using assms(1) s h(4) by (auto simp: js_trim_fixed_iff label_spec_def)
  have "label_scan (s @ [?h]) 0"
    by (rule label_scan_snoc_high [OF h(1)])
      (use assms s in \<open>auto simp: scalar_run_def label_spec_def list_all_iff\<close>)
  moreover have "\<not> UNSAFE_LABEL_CATEGORY (s @ [?h])"
    using assms(1) by (auto simp: list_all_unsafe cps label_spec_def list_all_iff unsafe_label_cp_def)
  moreover have "length (s @ [?h]) \<le> MAX_PROJECT_CHAT_LABEL_SCALARS * 2"
    using length_le_twice_code_points [of "s @ [?h]"] assms(2) by (simp add: cps)
  moreover have "\<not> label_spec (s @ [?h])"
    by (simp add: label_spec_def cps is_surrogate_cp_def)
  ultimately show ?thesis
    using trim by (simp add: isProjectChatLabel_def)
qed

theorem trailing_high_surrogate_witness:
  "isProjectChatLabel (js ''a'' @ [0xD800]) \<and> \<not> label_spec (js ''a'' @ [0xD800])"
  by (rule isProjectChatLabel_accepts_trailing_high_surrogate)
    (simp_all add: label_spec_def js_def js_trim_def js_char is_surrogate_cp_def control_cp_def
      unsafe_label_cp_def validation_limits)

lemma ascii_utf8_length: "list_all (\<lambda>c. c \<le> 0x7f) s \<Longrightarrow> utf8_length s = length s"
proof (induction s)
  case (Cons c s)
  then have "\<not> is_high c" using high_not_small [of c] by auto
  with Cons utf8_length_unit [of c s] show ?case by simp
qed simp

lemma printable_not_space: "\<not> (c < 0x20 \<or> c > 0x7e) \<Longrightarrow> is_js_space c \<longleftrightarrow> c = 0x20"
  for c :: code_unit
  by (auto simp: js_char word_le_nat_alt word_less_nat_alt word_unat_eq_iff)

text \<open>
  An accepted identifier is exactly a trimmed, printable ASCII string whose UTF-8 encoding
  has 1 to 128 bytes.
\<close>

theorem isProjectChatId_spec:
  "isProjectChatId s \<longleftrightarrow>
     list_all (\<lambda>c. 0x20 \<le> c \<and> c \<le> 0x7e) s \<and> js_trim s = s \<and>
     1 \<le> length (utf8_encode s) \<and> length (utf8_encode s) \<le> 128"
proof (cases "list_all (\<lambda>c. 0x20 \<le> c \<and> c \<le> 0x7e) s")
  case True
  then have all: "\<forall>c \<in> set s. \<not> (c < 0x20 \<or> c > 0x7e)" by (auto simp: list_all_iff)
  have "list_all (\<lambda>c. c \<le> 0x7f) s"
    using True by (auto simp: list_all_iff word_le_nat_alt)
  then have len: "length (utf8_encode s) = length s"
    using ascii_utf8_length by (simp add: utf8_length_def)
  show ?thesis
  proof (cases "s = []")
    case False
    then have "is_js_space (hd s) \<longleftrightarrow> hd s = 0x20" "is_js_space (last s) \<longleftrightarrow> last s = 0x20"
      using all by (auto intro!: printable_not_space)
    with True len False all show ?thesis
      by (auto simp: isProjectChatId_def js_trim_fixed_iff validation_limits list_all_iff Suc_le_eq)
  qed (simp add: isProjectChatId_def)
next
  case False
  then show ?thesis by (auto simp: isProjectChatId_def list_all_iff not_le)
qed

text \<open>
  An accepted session file name is a single path component: 1 to 255 bytes, none of them
  a path separator, a drive colon or a NUL, and neither of the two dot names.
\<close>

theorem isPrimeSessionFile_component:
  assumes "isPrimeSessionFile s"
  shows "1 \<le> length (utf8_encode s) \<and> length (utf8_encode s) \<le> 255 \<and>
         cu CHR ''/'' \<notin> set s \<and> cu CHR 0x5C \<notin> set s \<and> cu CHR '':'' \<notin> set s \<and> 0 \<notin> set s \<and>
         s \<noteq> js ''.'' \<and> s \<noteq> js ''..''"
proof -
  from assms have all: "\<forall>c \<in> set s. prime_session_file_char c"
    by (simp add: isPrimeSessionFile_def list_all_iff)
  then have "list_all (\<lambda>c. c \<le> 0x7f) s"
    by (auto simp: list_all_iff js_char word_le_nat_alt)
  then have "length (utf8_encode s) = length s"
    using ascii_utf8_length by (simp add: utf8_length_def)
  moreover have "\<not> prime_session_file_char (cu CHR ''/'')" "\<not> prime_session_file_char (cu CHR 0x5C)"
    "\<not> prime_session_file_char (cu CHR '':'')" "\<not> prime_session_file_char 0"
    by (simp_all add: js_char)
  ultimately show ?thesis
    using assms all by (auto simp: isPrimeSessionFile_def validation_limits Suc_le_eq)
qed

theorem isPrimeSessionFile_component_witness:
  "isPrimeSessionFile (js ''s.jsonl'') \<and> cu CHR ''/'' \<notin> set (js ''s.jsonl'')"
proof -
  have "isPrimeSessionFile (js ''s.jsonl'')"
    by (simp add: isPrimeSessionFile_def validation_limits) (simp add: js_def js_char)
  with isPrimeSessionFile_component [of "js ''s.jsonl''"] show ?thesis by blast
qed

end
