(* ===== verification/Strict_Json.thy ===== *)
theory Strict_Json
  imports Json Validation
begin

text \<open>
  The duplicate-key scanner of \<open>src/app/src/domain/projectChats/strictJson.ts\<close>. A method of the
  class \<open>JsonKeyScanner\<close> is a function from the unread source (\<open>source.slice(index)\<close>) to the
  source left unread after it, \<open>None\<close> or \<open>Fail\<close> where the method returns \<open>false\<close> or \<open>null\<close>.
  The recursion of \<open>scanValue\<close> carries the same fuel as \<open>JSON.parse\<close>, which
  \<open>scanValue_enough\<close> proves sufficient. The main result is that the scanner accepts exactly the
  texts that \<open>JSON.parse\<close> accepts with no repeated key and no more than 512 nested containers.
\<close>

section \<open>The scanner\<close>

definition MAX_JSON_DEPTH :: nat where "MAX_JSON_DEPTH = 512"

definition skipWhitespace :: "jsstr \<Rightarrow> jsstr" where
  "skipWhitespace s = dropWhile (\<lambda>c. c = 0x20 \<or> c = 0x09 \<or> c = 0x0A \<or> c = 0x0D) s"

definition is_hex :: "code_unit \<Rightarrow> bool" where
  [js_char]: "is_hex c \<longleftrightarrow>
     0x30 \<le> c \<and> c \<le> 0x39 \<or> 0x61 \<le> c \<and> c \<le> 0x66 \<or> 0x41 \<le> c \<and> c \<le> 0x46"

text \<open>The loop of \<open>scanString\<close>, after the opening quote: what follows the closing one.\<close>

fun scanString_loop :: "jsstr \<Rightarrow> jsstr option" where
  "scanString_loop [] = None"
| "scanString_loop (c # s) =
     (if c = 0x22 then Some s
      else if c < 0x20 then None
      else if c = 0x5C then
        (case s of
           [] \<Rightarrow> None
         | e # s' \<Rightarrow>
             if e \<in> set [0x22, 0x5C, 0x2F, 0x62, 0x66, 0x6E, 0x72, 0x74] then scanString_loop s'
             else if e \<noteq> 0x75 then None
             else (case s' of
                     h1 # h2 # h3 # h4 # s'' \<Rightarrow>
                       if is_hex h1 \<and> is_hex h2 \<and> is_hex h3 \<and> is_hex h4
                       then scanString_loop s'' else None
                   | _ \<Rightarrow> None))
      else scanString_loop s)"

definition scanString :: "jsstr \<Rightarrow> (jsstr \<times> jsstr) option" where
  "scanString s =
     (case s of
        [] \<Rightarrow> None
      | c # u \<Rightarrow>
          if c \<noteq> 0x22 then None
          else (case scanString_loop u of
                  None \<Rightarrow> None
                | Some r \<Rightarrow>
                    (case json_parse (take (length s - length r) s) of
                       Some (TPrim (PStr k)) \<Rightarrow> Some (k, r)
                     | _ \<Rightarrow> None)))"

definition scanLiteral :: "jsstr \<Rightarrow> jsstr \<Rightarrow> jsstr option" where
  "scanLiteral l s = (if take (length l) s \<noteq> l then None else Some (drop (length l) s))"

definition starts :: "(code_unit \<Rightarrow> bool) \<Rightarrow> jsstr \<Rightarrow> bool" where
  "starts P s \<longleftrightarrow> (case s of [] \<Rightarrow> False | c # _ \<Rightarrow> P c)"

text \<open>The three parts of \<open>scanNumber\<close>: integer digits, fraction, exponent.\<close>

definition scanNumber_int :: "jsstr \<Rightarrow> jsstr option" where
  "scanNumber_int u =
     (if starts (\<lambda>c. c = 0x30) u then Some (tl u)
      else if \<not> starts (\<lambda>c. 0x31 \<le> c \<and> c \<le> 0x39) u then None
      else Some (dropWhile is_digit u))"

definition scanNumber_frac :: "jsstr \<Rightarrow> jsstr option" where
  "scanNumber_frac u =
     (if starts (\<lambda>c. c = 0x2E) u then
        (if \<not> starts is_digit (tl u) then None else Some (dropWhile is_digit (tl u)))
      else Some u)"

definition scanNumber_exp :: "jsstr \<Rightarrow> jsstr option" where
  "scanNumber_exp u =
     (if starts (\<lambda>c. c = 0x65 \<or> c = 0x45) u then
        (let v = (if starts (\<lambda>c. c = 0x2B \<or> c = 0x2D) (tl u) then tl (tl u) else tl u) in
         if \<not> starts is_digit v then None else Some (dropWhile is_digit v))
      else Some u)"

definition scanNumber :: "jsstr \<Rightarrow> jsstr option" where
  "scanNumber s =
     Option.bind (scanNumber_int (if starts (\<lambda>c. c = 0x2D) s then tl s else s)) (\<lambda>s2.
     Option.bind (scanNumber_frac s2) (\<lambda>s3.
     Option.bind (scanNumber_exp s3) (\<lambda>s4.
     if length s4 < length s then Some s4 else None)))"

fun scanValue :: "nat \<Rightarrow> nat \<Rightarrow> jsstr \<Rightarrow> jsstr outcome"
  and scanObject_loop :: "nat \<Rightarrow> nat \<Rightarrow> jsstr list \<Rightarrow> jsstr \<Rightarrow> jsstr outcome"
  and scanArray_loop :: "nat \<Rightarrow> nat \<Rightarrow> jsstr \<Rightarrow> jsstr outcome" where
  "scanValue 0 depth s = OutOfFuel"
| "scanValue (Suc n) depth s =
     (if depth > MAX_JSON_DEPTH then Fail
      else case skipWhitespace s of
        [] \<Rightarrow> (case scanNumber [] of None \<Rightarrow> Fail | Some q \<Rightarrow> Done q)
      | c # r \<Rightarrow>
          if c = 0x7B then
            (if starts (\<lambda>d. d = 0x7D) (skipWhitespace r) then Done (tl (skipWhitespace r))
             else scanObject_loop n (depth + 1) [] (skipWhitespace r))
          else if c = 0x5B then
            (if starts (\<lambda>d. d = 0x5D) (skipWhitespace r) then Done (tl (skipWhitespace r))
             else scanArray_loop n (depth + 1) (skipWhitespace r))
          else if c = 0x22 then
            (case scanString (c # r) of None \<Rightarrow> Fail | Some (k, q) \<Rightarrow> Done q)
          else if c = 0x74 then
            (case scanLiteral (js ''true'') (c # r) of None \<Rightarrow> Fail | Some q \<Rightarrow> Done q)
          else if c = 0x66 then
            (case scanLiteral (js ''false'') (c # r) of None \<Rightarrow> Fail | Some q \<Rightarrow> Done q)
          else if c = 0x6E then
            (case scanLiteral (js ''null'') (c # r) of None \<Rightarrow> Fail | Some q \<Rightarrow> Done q)
          else (case scanNumber (c # r) of None \<Rightarrow> Fail | Some q \<Rightarrow> Done q))"
| "scanObject_loop 0 depth keys s = OutOfFuel"
| "scanObject_loop (Suc n) depth keys s =
     (if s = [] then Fail
      else case scanString s of
        None \<Rightarrow> Fail
      | Some (k, q) \<Rightarrow>
          if k \<in> set keys then Fail
          else if \<not> starts (\<lambda>c. c = 0x3A) (skipWhitespace q) then Fail
          else (case scanValue n depth (tl (skipWhitespace q)) of
            OutOfFuel \<Rightarrow> OutOfFuel
          | Fail \<Rightarrow> Fail
          | Done q2 \<Rightarrow>
              if starts (\<lambda>c. c = 0x7D) (skipWhitespace q2) then Done (tl (skipWhitespace q2))
              else if \<not> starts (\<lambda>c. c = 0x2C) (skipWhitespace q2) then Fail
              else scanObject_loop n depth (k # keys) (skipWhitespace (tl (skipWhitespace q2)))))"
| "scanArray_loop 0 depth s = OutOfFuel"
| "scanArray_loop (Suc n) depth s =
     (if s = [] then Fail
      else case scanValue n depth s of
        OutOfFuel \<Rightarrow> OutOfFuel
      | Fail \<Rightarrow> Fail
      | Done q2 \<Rightarrow>
          if starts (\<lambda>c. c = 0x5D) (skipWhitespace q2) then Done (tl (skipWhitespace q2))
          else if \<not> starts (\<lambda>c. c = 0x2C) (skipWhitespace q2) then Fail
          else scanArray_loop n depth (skipWhitespace (tl (skipWhitespace q2))))"

definition scan :: "jsstr \<Rightarrow> bool" where
  "scan source =
     (case scanValue (json_fuel source) 0 (skipWhitespace source) of
        Done r \<Rightarrow> skipWhitespace r = []
      | _ \<Rightarrow> False)"

definition hasStrictJsonObjectKeys :: "jsstr \<Rightarrow> bool" where
  "hasStrictJsonObjectKeys s \<longleftrightarrow>
     utf8ByteLengthWithin s MAX_PROJECT_CHAT_JSON_BYTES \<noteq> None \<and> scan s"


section \<open>The lexical methods agree with JSON.parse\<close>

lemma skipWhitespace_eq [simp]: "skipWhitespace = skip_ws"
  by (rule ext) (simp add: skipWhitespace_def skip_ws_def is_json_space_def [abs_def])

lemma is_hex_value: "is_hex c \<longleftrightarrow> hex_value c \<noteq> None"
  by (auto simp: js_char hex_value_def)

lemma hex4_Some_iff:
  "hex4 a b c d \<noteq> None \<longleftrightarrow> is_hex a \<and> is_hex b \<and> is_hex c \<and> is_hex d"
  by (auto simp: hex4_def is_hex_value split: option.splits)

lemma simple_escape_Some_iff:
  "simple_escape e \<noteq> None \<longleftrightarrow> e \<in> set [0x22, 0x5C, 0x2F, 0x62, 0x66, 0x6E, 0x72, 0x74]"
  by (auto simp: simple_escape_def)

lemma scanString_loop_eq: "scanString_loop s = map_option snd (parse_chars s)"
proof (induction s rule: parse_chars.induct)
  case (2 c s)
  consider "c = 0x22 \<or> c < 0x20" | "c \<noteq> 0x22" "\<not> c < 0x20" "c \<noteq> 0x5C" | "c = 0x5C" by blast
  then show ?case
  proof cases
    case 1
    then show ?thesis by auto
  next
    case 2
    with "2.IH"(3) show ?thesis by (simp add: option.map_comp comp_def case_prod_beta)
  next
    case 3
    show ?thesis
    proof (cases s)
      case Nil
      with 3 show ?thesis by simp
    next
      case (Cons e s')
      show ?thesis
      proof (cases "e = 0x75")
        case True
        then have "simple_escape e = None" by (simp add: simple_escape_def)
        with True 3 Cons "2.IH"(1) show ?thesis
          using hex4_Some_iff
          by (auto simp: option.map_comp comp_def case_prod_beta split: list.splits option.splits)
            (metis option.distinct(1))+
      next
        case False
        with 3 Cons "2.IH"(2) simple_escape_Some_iff [of e] show ?thesis
          by (cases "simple_escape e") (auto simp: option.map_comp comp_def case_prod_beta)
      qed
    qed
  qed
qed simp

lemma parse_chars_local:
  "parse_chars s = Some (t, r) \<Longrightarrow> \<exists>p. s = p @ r \<and> parse_chars p = Some (t, [])"
proof (induction s arbitrary: t rule: parse_chars.induct)
  case (2 c s)
  consider "c = 0x22 \<or> c < 0x20" | "c \<noteq> 0x22" "\<not> c < 0x20" "c \<noteq> 0x5C" | "c = 0x5C" by blast
  then show ?case
  proof cases
    case 1
    with "2.prems" show ?thesis by (intro exI [of _ "[c]"]) (auto split: if_splits)
  next
    case 2
    with "2.prems" obtain t' where t: "t = c # t'" and "parse_chars s = Some (t', r)" by auto
    with "2.IH"(3) 2 obtain p where "s = p @ r" "parse_chars p = Some (t', [])" by blast
    with 2 t show ?thesis by (intro exI [of _ "c # p"]) simp
  next
    case 3
    with "2.prems" obtain e s' where s: "s = e # s'" by (cases s) auto
    show ?thesis
    proof (cases "e = 0x75")
      case True
      with "2.prems" 3 s obtain h1 h2 h3 h4 s'' u t' where
        h: "s' = h1 # h2 # h3 # h4 # s''" "hex4 h1 h2 h3 h4 = Some u" "t = u # t'"
        "parse_chars s'' = Some (t', r)"
        by (auto split: list.splits option.splits)
      with "2.IH"(1) 3 s True obtain p where "s'' = p @ r" "parse_chars p = Some (t', [])" by fastforce
      with h 3 s True show ?thesis
        by (intro exI [of _ "c # e # h1 # h2 # h3 # h4 # p"]) simp
    next
      case False
      with "2.prems" 3 s obtain u t' where
        h: "simple_escape e = Some u" "t = u # t'" "parse_chars s' = Some (t', r)"
        by (auto split: option.splits)
      with "2.IH"(2) 3 s False obtain p where "s' = p @ r" "parse_chars p = Some (t', [])" by fastforce
      with h 3 s False show ?thesis
        by (intro exI [of _ "c # e # p"]) simp
    qed
  qed
qed simp

lemma json_parse_string_slice:
  assumes "parse_chars p = Some (k, [])"
  shows "json_parse (0x22 # p) = Some (TStr k)"
proof -
  have "parse_value (json_fuel (0x22 # p)) (0x22 # p) = Done (TStr k, [])"
    using assms by (simp add: json_fuel_def parse_value_Done_iff parse_scalar_def)
  then show ?thesis by (simp add: json_parse_def json_parse_raw_def)
qed

lemma scanString_eq:
  "scanString s = (case s of [] \<Rightarrow> None | c # u \<Rightarrow> if c = 0x22 then parse_chars u else None)"
proof (cases s)
  case (Cons c u)
  show ?thesis
  proof (cases "parse_chars u")
    case None
    with Cons show ?thesis by (simp add: scanString_def scanString_loop_eq)
  next
    case (Some kr)
    then obtain k r where kr: "parse_chars u = Some (k, r)" by (cases kr) auto
    from parse_chars_local [OF kr] obtain p where p: "u = p @ r" "parse_chars p = Some (k, [])" by blast
    have slice: "take (Suc (length u) - length r) (0x22 # u) = 0x22 # p" using p(1) by simp
    show ?thesis
    proof (cases "c = 0x22")
      case True
      with kr json_parse_string_slice [OF p(2)] show ?thesis
        by (simp add: scanString_def Cons scanString_loop_eq slice)
    qed (use Cons in \<open>simp add: scanString_def\<close>)
  qed
qed (simp add: scanString_def)

lemma scanLiteral_eq: "scanLiteral l s = parse_literal l s"
proof (induction l s rule: parse_literal.induct)
  case (2 c l d s)
  then show ?case by (auto simp: scanLiteral_def split: if_splits)
qed (simp_all add: scanLiteral_def)

lemma starts_digit_iff: "starts is_digit s \<longleftrightarrow> takeWhile is_digit s \<noteq> []"
  by (auto simp: starts_def split: list.splits)

lemma digit_cases: "is_digit c \<longleftrightarrow> c = 0x30 \<or> 0x31 \<le> c \<and> c \<le> 0x39"
  by (auto simp: js_char word_le_nat_alt word_unat_eq_iff)

lemma scanNumber_int_eq: "scanNumber_int u = map_option snd (number_int u)"
  by (cases u) (auto simp: scanNumber_int_def number_int_def starts_def digit_cases)

lemma scanNumber_frac_eq: "scanNumber_frac u = map_option snd (number_frac u)"
  by (cases u) (auto simp: scanNumber_frac_def number_frac_def starts_digit_iff, auto simp: starts_def)

lemma scanNumber_exp_eq: "scanNumber_exp u = map_option snd (number_exp u)"
proof (cases u)
  case (Cons c v)
  have "starts (\<lambda>c. c = 0x2B \<or> c = 0x2D) v = (v \<noteq> [] \<and> (hd v = 0x2B \<or> hd v = 0x2D))"
    by (cases v) (auto simp: starts_def)
  moreover have "starts (\<lambda>c. c = 0x65 \<or> c = 0x45) u = (c = 0x65 \<or> c = 0x45)"
    using Cons by (simp add: starts_def)
  ultimately show ?thesis
    using Cons by (auto simp: scanNumber_exp_def number_exp_def Let_def starts_digit_iff)
qed (simp add: scanNumber_exp_def number_exp_def starts_def)

lemma scanNumber_eq: "scanNumber s = map_option snd (parse_number s)"
proof -
  have neg: "(s \<noteq> [] \<and> hd s = 0x2D) = starts (\<lambda>c. c = 0x2D) s"
    by (cases s) (auto simp: starts_def)
  have len: "parse_number s = Some (x, r) \<Longrightarrow> length r < length s" for x r
    by (rule parse_number_length)
  then show ?thesis
    unfolding scanNumber_def scanNumber_int_eq scanNumber_frac_eq scanNumber_exp_eq
    by (auto simp: parse_number_def neg Let_def split: option.splits)
qed


section \<open>The scanner accepts the strict texts\<close>

text \<open>
  The height of a tree, counted as \<open>depth\<close> counts it: a container adds one level to its
  members, an empty container none.
\<close>

fun tree_height :: "jtree \<Rightarrow> nat" where
  "tree_height (TPrim v) = 0"
| "tree_height (TArr ts) = fold max (map (\<lambda>t. Suc (tree_height t)) ts) 0"
| "tree_height (TObj ms) = fold max (map (\<lambda>(k, t). Suc (tree_height t)) ms) 0"

lemma fold_max_le_iff: "fold max xs a \<le> b \<longleftrightarrow> a \<le> b \<and> (\<forall>x \<in> set xs. x \<le> b)" for b :: nat
  by (induction xs arbitrary: a) auto

lemma tree_height_le_iff [simp]:
  "tree_height (TArr ts) \<le> b \<longleftrightarrow> (\<forall>t \<in> set ts. Suc (tree_height t) \<le> b)"
  "tree_height (TObj ms) \<le> b \<longleftrightarrow> (\<forall>(k, t) \<in> set ms. Suc (tree_height t) \<le> b)"
  by (auto simp: fold_max_le_iff)

declare tree_height.simps(2,3) [simp del]

text \<open>A value is admissible at a depth when it is strict and stays within the limit.\<close>

definition admissible :: "nat \<Rightarrow> jtree \<Rightarrow> bool" where
  "admissible d t \<longleftrightarrow> strict_tree t \<and> d \<le> MAX_JSON_DEPTH \<and> tree_height t \<le> MAX_JSON_DEPTH - d"

lemma admissible_TPrim [simp]: "admissible d (TPrim v) \<longleftrightarrow> d \<le> MAX_JSON_DEPTH"
  by (simp add: admissible_def)

lemma admissible_TArr:
  "d \<le> MAX_JSON_DEPTH \<Longrightarrow> admissible d (TArr ts) \<longleftrightarrow> list_all (admissible (Suc d)) ts"
  by (fastforce simp: admissible_def list_all_iff)

lemma admissible_TObj:
  "d \<le> MAX_JSON_DEPTH \<Longrightarrow>
   admissible d (TObj ms) \<longleftrightarrow> distinct (map fst ms) \<and> list_all (\<lambda>(k, t). admissible (Suc d) t) ms"
  by (fastforce simp: admissible_def list_all_iff)

lemma starts_iff: "starts (\<lambda>c. c = a) s \<longleftrightarrow> (\<exists>r. s = a # r)"
  by (auto simp: starts_def split: list.splits)

text \<open>The successful runs of the scanner, in the shape of those of the parser.\<close>

lemma scanObject_loop_Done_iff:
  "scanObject_loop (Suc n) d keys s = Done r \<longleftrightarrow>
     (\<exists>u k q q1 q2 q3.
        s = 0x22 # u \<and> parse_chars u = Some (k, q) \<and> k \<notin> set keys \<and> skip_ws q = 0x3A # q1 \<and>
        scanValue n d q1 = Done q2 \<and>
        (skip_ws q2 = 0x7D # q3 \<and> r = q3 \<or>
         skip_ws q2 = 0x2C # q3 \<and> scanObject_loop n d (k # keys) (skip_ws q3) = Done r))"
  by (auto simp: scanString_eq starts_iff
      split: if_splits list.splits option.splits outcome.splits)

lemma scanArray_loop_Done_iff:
  "scanArray_loop (Suc n) d s = Done r \<longleftrightarrow>
     (\<exists>q2 q3. s \<noteq> [] \<and> scanValue n d s = Done q2 \<and>
        (skip_ws q2 = 0x5D # q3 \<and> r = q3 \<or>
         skip_ws q2 = 0x2C # q3 \<and> scanArray_loop n d (skip_ws q3) = Done r))"
  by (auto simp: starts_iff split: if_splits outcome.splits)

lemma scanValue_scalar:
  assumes "skip_ws s = c # u" "c \<noteq> 0x7B" "c \<noteq> 0x5B" "d \<le> MAX_JSON_DEPTH"
  shows "scanValue (Suc n) d s =
           (case parse_scalar (c # u) of None \<Rightarrow> Fail | Some (t, q) \<Rightarrow> Done q)"
  using assms
  by (auto simp: parse_scalar_def scanString_eq scanLiteral_eq scanNumber_eq split: option.splits)

lemma scanNumber_Nil: "scanNumber [] = None"
  by (simp add: scanNumber_def scanNumber_int_def starts_def)

lemma scanValue_Done_iff:
  "scanValue (Suc n) d s = Done r \<longleftrightarrow> d \<le> MAX_JSON_DEPTH \<and>
     ((\<exists>u. skip_ws s = 0x7B # u \<and>
        (skip_ws u = 0x7D # r \<or>
         (skip_ws u = [] \<or> hd (skip_ws u) \<noteq> 0x7D) \<and>
           scanObject_loop n (Suc d) [] (skip_ws u) = Done r)) \<or>
     (\<exists>u. skip_ws s = 0x5B # u \<and>
        (skip_ws u = 0x5D # r \<or>
         (skip_ws u = [] \<or> hd (skip_ws u) \<noteq> 0x5D) \<and>
           scanArray_loop n (Suc d) (skip_ws u) = Done r)) \<or>
     (\<exists>c u t. skip_ws s = c # u \<and> c \<noteq> 0x7B \<and> c \<noteq> 0x5B \<and> parse_scalar (c # u) = Some (t, r)))"
proof (cases "d \<le> MAX_JSON_DEPTH")
  case d: True
  show ?thesis
  proof (cases "skip_ws s")
    case Nil
    with d show ?thesis by (simp add: scanNumber_Nil)
  next
    case (Cons c u)
    consider "c = 0x7B" | "c = 0x5B" | "c \<noteq> 0x7B" "c \<noteq> 0x5B" by blast
    then show ?thesis
    proof cases
      case 1
      with d Cons show ?thesis by (cases "skip_ws u") (auto simp: starts_def)
    next
      case 2
      with d Cons show ?thesis by (cases "skip_ws u") (auto simp: starts_def)
    next
      case 3
      with scanValue_scalar [OF Cons 3 d] Cons d show ?thesis
        by (auto split: option.splits)
    qed
  qed
qed simp

lemma parse_value_Nil_not_Done: "parse_value n [] \<noteq> Done x"
  by (cases n) simp_all

lemma parse_loops_Nil_not_Done: "parse_members n [] \<noteq> Done x" "parse_elements n [] \<noteq> Done y"
proof -
  show "parse_members n [] \<noteq> Done x" by (cases n) simp_all
  show "parse_elements n [] \<noteq> Done y"
    using parse_value_Nil_not_Done by (cases n) (auto split: outcome.splits)
qed

lemma scan_parse_Done:
  "(\<forall>d r. scanValue n d s = Done r \<longleftrightarrow> (\<exists>t. parse_value n s = Done (t, r) \<and> admissible d t)) \<and>
   (\<forall>d keys r. scanObject_loop n d keys s = Done r \<longleftrightarrow>
      (\<exists>ms. parse_members n s = Done (ms, r) \<and> distinct (map fst ms) \<and>
         set (map fst ms) \<inter> set keys = {} \<and> list_all (\<lambda>(k, t). admissible d t) ms)) \<and>
   (\<forall>d r. scanArray_loop n d s = Done r \<longleftrightarrow>
      (\<exists>ts. parse_elements n s = Done (ts, r) \<and> list_all (admissible d) ts))"
proof (induction n arbitrary: s)
  case 0
  then show ?case by simp
next
  case (Suc n)
  then have IHv: "scanValue n d s = Done r \<longleftrightarrow> (\<exists>t. parse_value n s = Done (t, r) \<and> admissible d t)"
    and IHo: "scanObject_loop n d keys s = Done r \<longleftrightarrow>
      (\<exists>ms. parse_members n s = Done (ms, r) \<and> distinct (map fst ms) \<and>
         set (map fst ms) \<inter> set keys = {} \<and> list_all (\<lambda>(k, t). admissible d t) ms)"
    and IHa: "scanArray_loop n d s = Done r \<longleftrightarrow>
      (\<exists>ts. parse_elements n s = Done (ts, r) \<and> list_all (admissible d) ts)" for s d keys r
    by blast+
  have o: "scanObject_loop (Suc n) d keys s = Done r \<longleftrightarrow>
      (\<exists>ms. parse_members (Suc n) s = Done (ms, r) \<and> distinct (map fst ms) \<and>
         set (map fst ms) \<inter> set keys = {} \<and> list_all (\<lambda>(k, t). admissible d t) ms)" for d keys r
    unfolding scanObject_loop_Done_iff parse_members_Done_iff IHv IHo
    by (rule iffI) (elim exE conjE disjE; force)+
  have a: "scanArray_loop (Suc n) d s = Done r \<longleftrightarrow>
      (\<exists>ts. parse_elements (Suc n) s = Done (ts, r) \<and> list_all (admissible d) ts)" for d r
    unfolding scanArray_loop_Done_iff parse_elements_Done_iff IHv IHa
    using parse_value_Nil_not_Done by (intro iffI) (elim exE conjE disjE; force)+
  have v: "scanValue (Suc n) d s = Done r \<longleftrightarrow>
      (\<exists>t. parse_value (Suc n) s = Done (t, r) \<and> admissible d t)" for d r
  proof (cases "d \<le> MAX_JSON_DEPTH")
    case True
    then show ?thesis
      unfolding scanValue_Done_iff parse_value_Done_iff IHo IHa
      using parse_loops_Nil_not_Done
      by (intro iffI; elim exE conjE disjE)
        (auto simp: admissible_TArr admissible_TObj parse_scalar_def split: list.splits if_splits)
  qed (simp add: scanValue_Done_iff admissible_def)
  from o a v show ?case by blast
qed

lemmas scanValue_parse = scan_parse_Done [THEN conjunct1, rule_format]

lemma scanValue_length [js_len]: "scanValue n d s = Done r \<Longrightarrow> length r < length s"
  using scanValue_parse parse_value_length by blast

lemma scanValue_OutOfFuel:
  assumes "scanValue (Suc n) d s = OutOfFuel"
  shows "\<exists>c u. skip_ws s = c # u \<and> (scanObject_loop n (Suc d) [] (skip_ws u) = OutOfFuel \<or>
           scanArray_loop n (Suc d) (skip_ws u) = OutOfFuel)"
proof (cases "skip_ws s")
  case Nil
  with assms show ?thesis by (simp add: scanNumber_Nil split: if_splits)
next
  case (Cons c u)
  consider "c = 0x7B" | "c = 0x5B" | "c \<noteq> 0x7B" "c \<noteq> 0x5B" by blast
  then show ?thesis
  proof cases
    case 3
    with assms scanValue_scalar [OF Cons 3, of d n] show ?thesis
      by (cases "d \<le> MAX_JSON_DEPTH") (auto split: option.splits)
  qed (use assms Cons in \<open>auto split: if_splits\<close>)
qed

lemma scanObject_loop_OutOfFuel:
  assumes "scanObject_loop (Suc n) d keys s = OutOfFuel"
  shows "\<exists>u k q q1. s = 0x22 # u \<and> parse_chars u = Some (k, q) \<and> skip_ws q = 0x3A # q1 \<and>
           (scanValue n d q1 = OutOfFuel \<or>
            (\<exists>q2 e q3. scanValue n d q1 = Done q2 \<and> skip_ws q2 = e # q3 \<and>
               scanObject_loop n d (k # keys) (skip_ws q3) = OutOfFuel))"
  using assms
  by (auto simp: scanString_eq starts_iff split: if_splits list.splits option.splits outcome.splits)

lemma scanArray_loop_OutOfFuel:
  assumes "scanArray_loop (Suc n) d s = OutOfFuel"
  shows "scanValue n d s = OutOfFuel \<or>
         (\<exists>q2 e q3. scanValue n d s = Done q2 \<and> skip_ws q2 = e # q3 \<and>
            scanArray_loop n d (skip_ws q3) = OutOfFuel)"
  using assms by (auto simp: starts_iff split: if_splits outcome.splits)

lemma scan_enough:
  "(\<forall>d. 2 * length s + 2 \<le> n \<longrightarrow> scanValue n d s \<noteq> OutOfFuel) \<and>
   (\<forall>d keys. 2 * length s + 1 \<le> n \<longrightarrow> scanObject_loop n d keys s \<noteq> OutOfFuel) \<and>
   (\<forall>d. 2 * length s + 3 \<le> n \<longrightarrow> scanArray_loop n d s \<noteq> OutOfFuel)"
proof (induction n arbitrary: s)
  case 0
  then show ?case by simp
next
  case (Suc n)
  then have IH: "2 * length s + 2 \<le> n \<Longrightarrow> scanValue n d s \<noteq> OutOfFuel"
    "2 * length s + 1 \<le> n \<Longrightarrow> scanObject_loop n d keys s \<noteq> OutOfFuel"
    "2 * length s + 3 \<le> n \<Longrightarrow> scanArray_loop n d s \<noteq> OutOfFuel" for s d keys
    by blast+
  have v: "scanValue (Suc n) d s \<noteq> OutOfFuel" if fuel: "2 * length s + 2 \<le> Suc n" for d
  proof
    assume "scanValue (Suc n) d s = OutOfFuel"
    then obtain c u where "skip_ws s = c # u" and out: "scanObject_loop n (Suc d) [] (skip_ws u) = OutOfFuel \<or>
        scanArray_loop n (Suc d) (skip_ws u) = OutOfFuel"
      using scanValue_OutOfFuel by blast
    then have "length (skip_ws u) < length s"
      using length_skip_ws [of u] by (auto dest!: skip_ws_Cons_length)
    with out fuel IH(2,3) [of "skip_ws u"] show False by auto
  qed
  have o: "scanObject_loop (Suc n) d keys s \<noteq> OutOfFuel" if fuel: "2 * length s + 1 \<le> Suc n" for d keys
  proof
    assume "scanObject_loop (Suc n) d keys s = OutOfFuel"
    from scanObject_loop_OutOfFuel [OF this] obtain u k q q1 where
      read: "s = 0x22 # u" "parse_chars u = Some (k, q)" "skip_ws q = 0x3A # q1"
      and out: "scanValue n d q1 = OutOfFuel \<or>
        (\<exists>q2 e q3. scanValue n d q1 = Done q2 \<and> skip_ws q2 = e # q3 \<and>
           scanObject_loop n d (k # keys) (skip_ws q3) = OutOfFuel)"
      by (elim exE conjE) (rule that)
    from read have q1: "length q1 + 2 < length s"
      by (auto dest!: parse_chars_length skip_ws_Cons_length)
    with fuel IH(1) [of q1 d] out obtain q2 e q3 where
      "scanValue n d q1 = Done q2" "skip_ws q2 = e # q3" and
      out': "scanObject_loop n d (k # keys) (skip_ws q3) = OutOfFuel" by auto
    then have "length (skip_ws q3) < length s"
      using q1 length_skip_ws [of q3] by (auto dest!: skip_ws_Cons_length scanValue_length)
    with fuel IH(2) [of "skip_ws q3"] out' show False by auto
  qed
  have a: "scanArray_loop (Suc n) d s \<noteq> OutOfFuel" if fuel: "2 * length s + 3 \<le> Suc n" for d
  proof
    assume "scanArray_loop (Suc n) d s = OutOfFuel"
    then obtain q2 e q3 where
      "scanValue n d s = Done q2" "skip_ws q2 = e # q3" and
      out: "scanArray_loop n d (skip_ws q3) = OutOfFuel"
      using scanArray_loop_OutOfFuel [of n d s] IH(1) [of s d] fuel by auto
    then have "length (skip_ws q3) + 1 < length s"
      using length_skip_ws [of q3] by (auto dest!: skip_ws_Cons_length scanValue_length)
    with fuel IH(3) [of "skip_ws q3"] out show False by auto
  qed
  from v o a show ?case by blast
qed

text \<open>
  The scan of a text always ends: the fuel the model gives to \<open>scanValue\<close> is never
  exhausted, at any depth.
\<close>

theorem scanValue_enough: "scanValue (json_fuel source) depth (skipWhitespace source) \<noteq> OutOfFuel"
  using scan_enough [of "skip_ws source" "json_fuel source"] length_skip_ws [of source]
  by (simp add: json_fuel_def)

lemma skip_ws_idem [simp]: "skip_ws (skip_ws s) = skip_ws s"
  by (simp add: skip_ws_def)

lemma parse_value_skip_ws [simp]: "parse_value n (skip_ws s) = parse_value n s"
  by (cases n) simp_all

lemma scan_iff:
  "scan s \<longleftrightarrow> (\<exists>t. json_parse_raw s = Some t \<and> strict_tree t \<and> tree_height t \<le> MAX_JSON_DEPTH)"
proof -
  have "scan s \<longleftrightarrow> (\<exists>r. scanValue (json_fuel s) 0 (skip_ws s) = Done r \<and> skip_ws r = [])"
    by (simp add: scan_def split: outcome.split)
  also have "\<dots> \<longleftrightarrow> (\<exists>r t. parse_value (json_fuel s) s = Done (t, r) \<and> admissible 0 t \<and> skip_ws r = [])"
    by (auto simp: scanValue_parse)
  also have "\<dots> \<longleftrightarrow> (\<exists>t. json_parse_raw s = Some t \<and> admissible 0 t)"
    by (auto simp: json_parse_raw_def split: outcome.split)
  finally show ?thesis by (simp add: admissible_def)
qed

text \<open>
  C16: \<open>hasStrictJsonObjectKeys\<close> accepts exactly the texts of at most 8 MiB that parse as
  JSON with no object repeating a key and in which no value lies inside more than 512 containers. An empty container has no
  value inside, so that 513 nested ones are accepted if the innermost is empty.
\<close>

theorem hasStrictJsonObjectKeys_correct:
  "hasStrictJsonObjectKeys s \<longleftrightarrow>
     int (length (utf8_encode s)) \<le> MAX_PROJECT_CHAT_JSON_BYTES \<and>
     (\<exists>t. json_parse_raw s = Some t \<and> strict_tree t \<and> tree_height t \<le> MAX_JSON_DEPTH)"
  by (auto simp: hasStrictJsonObjectKeys_def utf8ByteLengthWithin_eq utf8_length_def scan_iff
      safe_int_def MAX_SAFE_INTEGER_def MAX_PROJECT_CHAT_JSON_BYTES_def)

lemma strict_keys_parse:
  "hasStrictJsonObjectKeys s \<Longrightarrow> \<exists>t. json_parse s = Some t \<and> strict_tree t"
  using json_parse_strict by (auto simp: hasStrictJsonObjectKeys_def scan_iff)

end
