(* ===== verification/Strict_Snapshot.thy ===== *)
theory Strict_Snapshot
  imports Strict_Json
begin

text \<open>
  The defensive copy of \<open>src/app/src/domain/projectChats/strictSnapshot.ts\<close>. The input is a value in
  a store of objects, which may share and may be cyclic; the result is the tree it
  unfolds to (the copy's own identities are never observed). The closure's variables and weak
  collections are the record \<open>snap\<close>. \<open>visit\<close> recurses on the depth, which its first test bounds.

  Shown: an accepted value unfolds to the returned tree, the tree obeys the depth limit and the
  byte limit counted over its full expansion (shared objects at every occurrence), and a value
  that reaches a cycle is rejected.
\<close>

section \<open>Definitions\<close>

definition MAX_PROJECT_CHAT_SNAPSHOT_NODES :: nat where
  "MAX_PROJECT_CHAT_SNAPSHOT_NODES = 10000"
definition MAX_PROJECT_CHAT_SNAPSHOT_DEPTH :: nat where
  "MAX_PROJECT_CHAT_SNAPSHOT_DEPTH = 64"
definition MAX_PROJECT_CHAT_SNAPSHOT_SCALAR_BYTES :: int where
  "MAX_PROJECT_CHAT_SNAPSHOT_SCALAR_BYTES = 8 * 1024 * 1024"
definition MAX_PROJECT_CHAT_SNAPSHOT_WORK :: int where
  "MAX_PROJECT_CHAT_SNAPSHOT_WORK = 100000"

lemmas snapshot_limits =
  MAX_PROJECT_CHAT_SNAPSHOT_NODES_def MAX_PROJECT_CHAT_SNAPSHOT_DEPTH_def
  MAX_PROJECT_CHAT_SNAPSHOT_SCALAR_BYTES_def MAX_PROJECT_CHAT_SNAPSHOT_WORK_def

text \<open>
  \<open>String(index) === key\<close> for an integer \<open>index\<close> in range holds for decimal texts only, whose
  \<open>Number\<close> is their digits' value.
\<close>

definition isCanonicalArrayIndex :: "jsstr \<Rightarrow> nat \<Rightarrow> bool" where
  "isCanonicalArrayIndex key len \<longleftrightarrow>
     key \<noteq> [] \<and> list_all is_digit key \<and> digits_value key < len \<and> nat_digits (digits_value key) = key"

record snap =
  snapshots :: "addr \<rightharpoonup> jtree"
  scalarCosts :: "addr \<rightharpoonup> int"
  subtreeHeights :: "addr \<rightharpoonup> nat"
  active :: "addr list"
  nodes :: nat
  scalarBytes :: int
  work :: int

definition empty_snap :: snap where
  "empty_snap = \<lparr>snapshots = Map.empty, scalarCosts = Map.empty, subtreeHeights = Map.empty,
     active = [], nodes = 0, scalarBytes = 0, work = 0\<rparr>"

definition consumeScalar :: "jsstr \<Rightarrow> snap \<Rightarrow> snap option" where
  "consumeScalar s st =
     (case utf8ByteLengthWithin s (MAX_PROJECT_CHAT_SNAPSHOT_SCALAR_BYTES - scalarBytes st) of
        None \<Rightarrow> None
      | Some bytes \<Rightarrow> Some (st\<lparr>scalarBytes := scalarBytes st + bytes\<rparr>))"

definition consumeScalarBytes :: "int \<Rightarrow> snap \<Rightarrow> snap option" where
  "consumeScalarBytes bytes st =
     (if \<not> safe_int bytes \<or> bytes < 0 \<or>
         bytes > MAX_PROJECT_CHAT_SNAPSHOT_SCALAR_BYTES - scalarBytes st then None
      else Some (st\<lparr>scalarBytes := scalarBytes st + bytes\<rparr>))"

definition canConsumeWork :: "int \<Rightarrow> snap \<Rightarrow> bool" where
  "canConsumeWork units st \<longleftrightarrow>
     safe_int units \<and> units \<ge> 0 \<and> units \<le> MAX_PROJECT_CHAT_SNAPSHOT_WORK - work st"

definition cachedSubtreeHeight :: "jsval \<Rightarrow> snap \<Rightarrow> nat option" where
  "cachedSubtreeHeight v st = (case v of Ref a \<Rightarrow> subtreeHeights st a | Prim _ \<Rightarrow> Some 0)"

text \<open>
  The checks of an array's \<open>length\<close> descriptor; the result is the length.
\<close>

definition array_length :: "jsobj \<Rightarrow> snap \<Rightarrow> nat option" where
  "array_length ob st =
     (case map_of (obj_props ob) (KStr (js ''length'')) of
        Some (DataDesc (Prim (PNum n)) False) \<Rightarrow>
          (case as_integer n of
             Some i \<Rightarrow> if i < 0 \<or> i > 2 ^ 32 - 1 \<or> \<not> canConsumeWork (i + 1) st then None else Some (nat i)
           | None \<Rightarrow> None)
      | _ \<Rightarrow> None)"

text \<open>
  The loop over \<open>Reflect.ownKeys\<close>: every key a string not seen before, its bytes counted
  (an array's \<open>length\<close> apart), its property an enumerable data property. Returns the
  properties read, in order.
\<close>

fun read_keys :: "bool \<Rightarrow> jsstr list \<Rightarrow> (jskey \<times> jsdesc) list \<Rightarrow> snap \<Rightarrow>
    ((jsstr \<times> jsval) list \<times> snap) option" where
  "read_keys isArray seen [] st = Some ([], st)"
| "read_keys isArray seen ((KSym _, d) # ps) st = None"
| "read_keys isArray seen ((KStr key, d) # ps) st =
     (if key \<in> set seen then None
      else if isArray \<and> key = js ''length'' then
        (case d of
           AccessorDesc _ _ \<Rightarrow> None
         | DataDesc _ _ \<Rightarrow> read_keys isArray (key # seen) ps st)
      else (case consumeScalar key st of
        None \<Rightarrow> None
      | Some st' \<Rightarrow>
          (case d of
             DataDesc v True \<Rightarrow>
               map_option (\<lambda>(kvs, st''). ((key, v) # kvs, st'')) (read_keys isArray (key # seen) ps st')
           | _ \<Rightarrow> None)))"

text \<open>
  From the \<open>Array.isArray\<close> test to the first child: the children in the order they are
  visited (\<open>None\<close> for an index without a property), and the keys of a record.
\<close>

definition open_container :: "jsobj \<Rightarrow> snap \<Rightarrow> (jsstr list \<times> jsval option list \<times> snap) option" where
  "open_container ob st =
     (if obj_array ob then
        (case array_length ob st of
           None \<Rightarrow> None
         | Some len \<Rightarrow>
             if obj_proto ob \<noteq> ProtoArray \<and> obj_proto ob \<noteq> ProtoNull then None
             else if \<not> canConsumeWork (int (length (obj_props ob))) st then None
             else (case read_keys True [] (obj_props ob)
                     (st\<lparr>work := work st + int (length (obj_props ob))\<rparr>) of
               None \<Rightarrow> None
             | Some (kvs, st') \<Rightarrow>
                 if \<not> list_all (\<lambda>(k, v). isCanonicalArrayIndex k len) kvs then None
                 else if length kvs + 1 \<noteq> len + 1 then None
                 else Some ([], map (\<lambda>i. map_of kvs (nat_digits i)) [0..<len], st')))
      else
        (if obj_proto ob \<noteq> ProtoObject \<and> obj_proto ob \<noteq> ProtoNull then None
         else if \<not> canConsumeWork (int (length (obj_props ob))) st then None
         else (case read_keys False [] (obj_props ob)
                 (st\<lparr>work := work st + int (length (obj_props ob))\<rparr>) of
           None \<Rightarrow> None
         | Some (kvs, st') \<Rightarrow> Some (map fst kvs, map (Some \<circ> snd) kvs, st'))))"

definition build :: "bool \<Rightarrow> jsstr list \<Rightarrow> jtree list \<Rightarrow> jtree" where
  "build isArray ks ts = (if isArray then TArr ts else TObj (zip ks ts))"

definition enter :: "addr \<Rightarrow> snap \<Rightarrow> snap" where
  "enter a st = st\<lparr>nodes := nodes st + 1, active := a # active st\<rparr>"

definition leave :: "addr \<Rightarrow> jtree \<Rightarrow> int \<Rightarrow> nat \<Rightarrow> snap \<Rightarrow> snap" where
  "leave a t scalarStart height st =
     st\<lparr>snapshots := (snapshots st)(a \<mapsto> t),
        scalarCosts := (scalarCosts st)(a \<mapsto> scalarBytes st - scalarStart),
        subtreeHeights := (subtreeHeights st)(a \<mapsto> height),
        active := removeAll a (active st)\<rparr>"

function visit :: "heap \<Rightarrow> jsval \<Rightarrow> nat \<Rightarrow> snap \<Rightarrow> (jtree \<times> snap) option"
  and visit_children :: "heap \<Rightarrow> jsval option list \<Rightarrow> nat \<Rightarrow> nat \<Rightarrow> snap \<Rightarrow>
    (jtree list \<times> nat \<times> snap) option" where
  "visit h v depth st =
     (if depth > MAX_PROJECT_CHAT_SNAPSHOT_DEPTH then None
      else case v of
        Prim p \<Rightarrow>
          (case p of
             PStr s \<Rightarrow> map_option (\<lambda>st'. (TStr s, st')) (consumeScalar s st)
           | _ \<Rightarrow> Some (TPrim p, st))
      | Ref a \<Rightarrow>
          (case snapshots st a of
             Some previous \<Rightarrow>
               if a \<in> set (active st) then None
               else (case (scalarCosts st a, subtreeHeights st a) of
                  (Some scalarCost, Some subtreeHeight) \<Rightarrow>
                    if depth + subtreeHeight \<le> MAX_PROJECT_CHAT_SNAPSHOT_DEPTH
                    then map_option (\<lambda>st'. (previous, st')) (consumeScalarBytes scalarCost st)
                    else None
                | _ \<Rightarrow> None)
           | None \<Rightarrow>
               if a \<in> set (active st) then None
               else if nodes st \<ge> MAX_PROJECT_CHAT_SNAPSHOT_NODES then None
               else (case open_container (h a) (enter a st) of
                  None \<Rightarrow> None
                | Some (ks, cs, st1) \<Rightarrow>
                    (case visit_children h cs (depth + 1) 0
                       (st1\<lparr>snapshots := (snapshots st1)(a \<mapsto> build (obj_array (h a)) [] [])\<rparr>) of
                       None \<Rightarrow> None
                     | Some (ts, height, st2) \<Rightarrow>
                         Some (build (obj_array (h a)) ks ts,
                           leave a (build (obj_array (h a)) ks ts) (scalarBytes st) height st2)))))"
| "visit_children h [] depth subtreeHeight st = Some ([], subtreeHeight, st)"
| "visit_children h (None # cs) depth subtreeHeight st = None"
| "visit_children h (Some v # cs) depth subtreeHeight st =
     (case visit h v depth st of
        None \<Rightarrow> None
      | Some (t, st1) \<Rightarrow>
          (case cachedSubtreeHeight v st1 of
             None \<Rightarrow> None
           | Some childHeight \<Rightarrow>
               map_option (\<lambda>(ts, height, st2). (t # ts, height, st2))
                 (visit_children h cs depth (max subtreeHeight (childHeight + 1)) st1)))"
  by pat_completeness auto
termination
  by (relation "measures
      [case_sum (\<lambda>(h, v, depth, st). 66 - depth) (\<lambda>(h, cs, depth, ht, st). 66 - depth),
       case_sum (\<lambda>_. 0) (\<lambda>(h, cs, depth, ht, st). Suc (length cs))]")
    (auto simp: snapshot_limits)

declare visit.simps [simp del]

definition snapshotUntrusted :: "heap \<Rightarrow> jsval \<Rightarrow> jtree option" where
  "snapshotUntrusted h v = map_option fst (visit h v 0 empty_snap)"


section \<open>What an accepted value is\<close>

text \<open>
  The containers the copy admits: a record of enumerable data properties under string keys, and
  a dense array with nothing but its indices and its length.
\<close>

definition plain_record :: "jsobj \<Rightarrow> (jsstr \<times> jsval) list \<Rightarrow> bool" where
  "plain_record ob kvs \<longleftrightarrow>
     \<not> obj_array ob \<and> obj_proto ob \<in> {ProtoObject, ProtoNull} \<and> distinct (map fst kvs) \<and>
     obj_props ob = map (\<lambda>(k, v). (KStr k, DataDesc v True)) kvs"

definition plain_array :: "jsobj \<Rightarrow> jsval list \<Rightarrow> bool" where
  "plain_array ob vs \<longleftrightarrow>
     obj_array ob \<and> obj_proto ob \<in> {ProtoArray, ProtoNull} \<and> distinct (map fst (obj_props ob)) \<and>
     set (obj_props ob) =
       insert (KStr (js ''length''), DataDesc (Prim (PNum (num_int (int (length vs))))) False)
         ((\<lambda>i. (KStr (nat_digits i), DataDesc (vs ! i) True)) ` {..<length vs})"

inductive unfolds :: "heap \<Rightarrow> jsval \<Rightarrow> jtree \<Rightarrow> bool" for h where
  unfolds_prim: "unfolds h (Prim p) (TPrim p)"
| unfolds_array:
    "plain_array (h a) vs \<Longrightarrow> list_all2 (unfolds h) vs ts \<Longrightarrow> unfolds h (Ref a) (TArr ts)"
| unfolds_record:
    "plain_record (h a) kvs \<Longrightarrow> list_all2 (unfolds h) (map snd kvs) (map snd fs) \<Longrightarrow>
     map fst fs = map fst kvs \<Longrightarrow> unfolds h (Ref a) (TObj fs)"

inductive_cases unfolds_primE: "unfolds h (Prim p) t"
inductive_simps unfolds_ref_iff: "unfolds h (Ref a) t"

lemma unfolds_ref_cases [consumes 1, case_names 1 2]:
  assumes "unfolds h (Ref a) t"
  obtains vs ts where "t = TArr ts" "plain_array (h a) vs" "list_all2 (unfolds h) vs ts"
  | kvs fs where "t = TObj fs" "plain_record (h a) kvs" "list_all2 (unfolds h) (map snd kvs) (map snd fs)"
      "map fst fs = map fst kvs"
  using assms unfolding unfolds_ref_iff by blast

text \<open>The bytes of all strings and keys of a tree, each counted at every occurrence.\<close>

fun tree_cost :: "jtree \<Rightarrow> int" where
  "tree_cost (TPrim p) = (case p of PStr s \<Rightarrow> int (utf8_length s) | _ \<Rightarrow> 0)"
| "tree_cost (TArr ts) =
     sum_list (map (\<lambda>i. int (utf8_length (nat_digits i))) [0..<length ts]) + sum_list (map tree_cost ts)"
| "tree_cost (TObj fs) =
     sum_list (map (\<lambda>(k, t). int (utf8_length k)) fs) + sum_list (map (\<lambda>(k, t). tree_cost t) fs)"

lemma consumeScalar_Some:
  "consumeScalar s st = Some st' \<longleftrightarrow>
     st' = st\<lparr>scalarBytes := scalarBytes st + int (utf8_length s)\<rparr> \<and>
     safe_int (MAX_PROJECT_CHAT_SNAPSHOT_SCALAR_BYTES - scalarBytes st) \<and>
     scalarBytes st + int (utf8_length s) \<le> MAX_PROJECT_CHAT_SNAPSHOT_SCALAR_BYTES"
  by (auto simp: consumeScalar_def utf8ByteLengthWithin_eq split: option.splits if_splits)

definition bytes_ok :: "snap \<Rightarrow> bool" where
  "bytes_ok st \<longleftrightarrow> 0 \<le> scalarBytes st \<and> scalarBytes st \<le> MAX_PROJECT_CHAT_SNAPSHOT_SCALAR_BYTES"

lemma bytes_ok_safe: "bytes_ok st \<Longrightarrow> safe_int (MAX_PROJECT_CHAT_SNAPSHOT_SCALAR_BYTES - scalarBytes st)"
  by (simp add: bytes_ok_def safe_int_def snapshot_limits MAX_SAFE_INTEGER_def)

abbreviation is_length :: "jsstr \<Rightarrow> bool" where
  "is_length k \<equiv> k = js ''length''"

lemma read_keys_Some:
  assumes "read_keys arr seen ps st = Some (kvs, st')" and "bytes_ok st"
  shows "distinct (map fst ps) \<and> (\<forall>k \<in> set seen. KStr k \<notin> fst ` set ps) \<and>
    filter (\<lambda>(k, d). \<not> (arr \<and> k = KStr (js ''length''))) ps = map (\<lambda>(k, v). (KStr k, DataDesc v True)) kvs \<and>
    st' = st\<lparr>scalarBytes := scalarBytes st + sum_list (map (\<lambda>(k, v). int (utf8_length k)) kvs)\<rparr> \<and> bytes_ok st'"
  using assms
proof (induction arr seen ps st arbitrary: kvs st' rule: read_keys.induct)
  case (3 arr seen key d ps st)
  show ?case
  proof (cases "arr \<and> key = js ''length''")
    case True
    with 3(3) obtain v e where d: "d = DataDesc v e"
      by (auto split: if_splits jsdesc.splits)
    with True 3(3) have new: "key \<notin> set seen"
      and rest: "read_keys arr (key # seen) ps st = Some (kvs, st')"
      by (auto split: if_splits)
    with 3(1) [OF new True d rest 3(4)] True show ?thesis by auto
  next
    case False
    with 3(3) obtain st1 v kvs' where new: "key \<notin> set seen" and d: "d = DataDesc v True"
      and st1: "consumeScalar key st = Some st1"
      and rest: "read_keys arr (key # seen) ps st1 = Some (kvs', st')" and kvs: "kvs = (key, v) # kvs'"
      by (auto split: if_splits jsdesc.splits option.splits bool.splits)
    have "bytes_ok st1" using st1 3(4) by (auto simp: consumeScalar_Some bytes_ok_def)
    with 3(2) [OF new False st1 d _ rest] new False d kvs st1 show ?thesis
      by (auto simp: consumeScalar_Some)
  qed
qed auto


text \<open>The children of a container that passed the checks, and what reading them cost.\<close>

definition opened :: "jsobj \<Rightarrow> jsstr list \<Rightarrow> jsval list \<Rightarrow> int \<Rightarrow> bool" where
  "opened ob ks vs cost \<longleftrightarrow>
     (if obj_array ob
      then plain_array ob vs \<and> ks = [] \<and>
        cost = sum_list (map (\<lambda>i. int (utf8_length (nat_digits i))) [0..<length vs])
      else length ks = length vs \<and> plain_record ob (zip ks vs) \<and>
        cost = sum_list (map (\<lambda>k. int (utf8_length k)) ks))"

lemma nat_digits_inject [simp]: "nat_digits i = nat_digits j \<longleftrightarrow> i = j"
  using nat_digits_correct by metis

lemma nat_digits_not_length [simp]: "nat_digits i \<noteq> js ''length''" "js ''length'' \<noteq> nat_digits i"
proof -
  show "nat_digits i \<noteq> js ''length''"
  proof
    assume "nat_digits i = js ''length''"
    with nat_digits_correct [of i] have "list_all is_digit (js ''length'')" by simp
    then show False by (simp add: js_def js_char)
  qed
  then show "js ''length'' \<noteq> nat_digits i" by (rule not_sym)
qed

lemma isCanonicalArrayIndex_iff: "isCanonicalArrayIndex k n \<longleftrightarrow> (\<exists>i < n. k = nat_digits i)"
  using nat_digits_correct by (metis isCanonicalArrayIndex_def)

text \<open>As many distinct indices below a bound as the bound itself are all of them.\<close>

lemma index_keys_complete:
  assumes "distinct (map fst kvs)" and "\<forall>k \<in> fst ` set kvs. \<exists>i < n. k = nat_digits i" and "length kvs = n"
  shows "fst ` set kvs = nat_digits ` {..<n}"
proof (rule card_subset_eq)
  show "fst ` set kvs \<subseteq> nat_digits ` {..<n}" using assms(2) by auto
  have "card (fst ` set kvs) = n" using assms(1,3) distinct_card by fastforce
  moreover have "card (nat_digits ` {..<n}) = n" by (subst card_image) (auto simp: inj_on_def)
  ultimately show "card (fst ` set kvs) = card (nat_digits ` {..<n})" by simp
qed simp

lemma index_keys_cost:
  fixes f :: "jsstr \<Rightarrow> int"
  assumes "distinct (map fst kvs)" and "fst ` set kvs = nat_digits ` {..<n}"
  shows "sum_list (map (\<lambda>(k, v). f k) kvs) = sum_list (map (\<lambda>i. f (nat_digits i)) [0..<n])"
proof -
  have "sum_list (map (\<lambda>(k, v). f k) kvs) = sum_list (map f (map fst kvs))"
    by (simp add: comp_def split_def)
  also have "\<dots> = sum f (nat_digits ` {..<n})"
    using assms by (simp add: sum_list_distinct_conv_sum_set del: map_map)
  also have "\<dots> = sum (\<lambda>i. f (nat_digits i)) (set [0..<n])"
    by (subst sum.reindex) (auto simp: inj_on_def atLeast0LessThan)
  finally show ?thesis by (simp add: sum_list_distinct_conv_sum_set [of "[0..<n]"])
qed

lemma array_length_Some:
  "array_length ob st = Some n \<Longrightarrow>
   map_of (obj_props ob) (KStr (js ''length'')) = Some (DataDesc (Prim (PNum (num_int (int n)))) False)"
  by (auto simp: array_length_def as_integer_eq_Some split: option.splits jsdesc.splits jsval.splits
      jsprim.splits bool.splits if_splits)

lemma distinct_KStr:
  "distinct (map fst (map (\<lambda>(k, v). (KStr k, DataDesc v True)) kvs)) \<longleftrightarrow> distinct (map fst kvs)"
  by (induction kvs) force+

lemma open_array_Some:
  assumes "obj_array ob" and "open_container ob st = Some (ks, cs, st')"
  shows "\<exists>n kvs. array_length ob st = Some n \<and> obj_proto ob \<in> {ProtoArray, ProtoNull} \<and>
    read_keys True [] (obj_props ob) (st\<lparr>work := work st + int (length (obj_props ob))\<rparr>) = Some (kvs, st') \<and>
    list_all (\<lambda>(k, v). isCanonicalArrayIndex k n) kvs \<and> length kvs = n \<and> ks = [] \<and>
    cs = map (\<lambda>i. map_of kvs (nat_digits i)) [0..<n]"
  using assms by (simp add: open_container_def split: option.splits if_splits prod.splits)

lemma open_record_Some:
  assumes "\<not> obj_array ob" and "open_container ob st = Some (ks, cs, st')"
  shows "\<exists>kvs. obj_proto ob \<in> {ProtoObject, ProtoNull} \<and>
    read_keys False [] (obj_props ob) (st\<lparr>work := work st + int (length (obj_props ob))\<rparr>) = Some (kvs, st') \<and>
    ks = map fst kvs \<and> cs = map (Some \<circ> snd) kvs"
  using assms by (simp add: open_container_def split: option.splits if_splits prod.splits)

lemma open_array_sound:
  assumes arr: "obj_array ob" and ok: "open_container ob st = Some (ks, cs, st')" and bytes: "bytes_ok st"
  shows "\<exists>vs cost. cs = map Some vs \<and> opened ob ks vs cost \<and> bytes_ok st' \<and>
    st' = st\<lparr>work := work st + int (length (obj_props ob)), scalarBytes := scalarBytes st + cost\<rparr>"
proof -
  let ?st = "st\<lparr>work := work st + int (length (obj_props ob))\<rparr>"
  from open_array_Some [OF arr ok] obtain n kvs where n: "array_length ob st = Some n"
    and proto: "obj_proto ob \<in> {ProtoArray, ProtoNull}"
    and read: "read_keys True [] (obj_props ob) ?st = Some (kvs, st')"
    and idx: "list_all (\<lambda>(k, v). isCanonicalArrayIndex k n) kvs" and len: "length kvs = n"
    and cs: "ks = []" "cs = map (\<lambda>i. map_of kvs (nat_digits i)) [0..<n]"
    by blast
  have bytes': "bytes_ok ?st" using bytes by (simp add: bytes_ok_def)
  note rk = read_keys_Some [OF read bytes']
  let ?ps = "obj_props ob" and ?L = "KStr (js ''length'')"
  let ?f = "\<lambda>(k, v). (KStr k, DataDesc v True)"
  have filt: "filter (\<lambda>(k, d). k \<noteq> ?L) ?ps = map ?f kvs" using rk by simp
  have dist: "distinct (map fst ?ps)" using rk by blast
  have "distinct (map fst (map ?f kvs))"
    unfolding filt [symmetric] by (rule distinct_map_filter_key [OF dist])
  then have dk: "distinct (map fst kvs)" unfolding distinct_KStr .
  have keys: "fst ` set kvs = nat_digits ` {..<n}"
    by (rule index_keys_complete [OF dk _ len]) (use idx in \<open>auto simp: list_all_iff isCanonicalArrayIndex_iff\<close>)
  define vs where "vs = map (\<lambda>i. the (map_of kvs (nat_digits i))) [0..<n]"
  have some: "map_of kvs (nat_digits i) = Some (vs ! i)" if "i < n" for i
    using that keys by (force simp: vs_def map_of_eq_None_iff)
  have "set kvs = (\<lambda>i. (nat_digits i, vs ! i)) ` {..<n}"
  proof (intro equalityI subsetI)
    fix x assume x: "x \<in> set kvs"
    then have "fst x \<in> nat_digits ` {..<n}" unfolding keys [symmetric] by (rule imageI)
    then obtain i where "i < n" "fst x = nat_digits i" by auto
    moreover have "map_of kvs (fst x) = Some (snd x)" using x dk by simp
    ultimately show "x \<in> (\<lambda>i. (nat_digits i, vs ! i)) ` {..<n}"
      using some by (cases x) auto
  qed (use some map_of_SomeD in fastforce)
  then have others: "set (filter (\<lambda>(k, d). k \<noteq> ?L) ?ps) =
      (\<lambda>i. (KStr (nat_digits i), DataDesc (vs ! i) True)) ` {..<n}"
    unfolding filt by (auto simp: image_image)
  have L: "(?L, d) \<in> set ?ps \<longleftrightarrow> d = DataDesc (Prim (PNum (num_int (int n)))) False" for d
    using map_of_eq_Some_iff [OF dist] array_length_Some [OF n] by (metis option.inject)
  have "x \<in> set ?ps \<longleftrightarrow> x \<in> set (filter (\<lambda>(k, d). k \<noteq> ?L) ?ps) \<or>
      x = (?L, DataDesc (Prim (PNum (num_int (int n)))) False)" for x
    using L by (cases x) auto
  then have "plain_array ob vs"
    unfolding others using arr proto dist by (auto simp: plain_array_def vs_def)
  moreover have "cs = map Some vs" using cs some by (simp add: vs_def)
  moreover have "opened ob ks vs (sum_list (map (\<lambda>(k, v). int (utf8_length k)) kvs))"
    using arr cs(1) calculation(1) index_keys_cost [OF dk keys, of "\<lambda>k. int (utf8_length k)"]
    by (simp add: opened_def) (simp add: vs_def)
  moreover from rk have "st' = ?st\<lparr>scalarBytes := scalarBytes ?st + sum_list (map (\<lambda>(k, v). int (utf8_length k)) kvs)\<rparr>"
    and "bytes_ok st'" by blast+
  ultimately show ?thesis by (intro exI [of _ vs] exI conjI) simp_all
qed

lemma open_record_sound:
  assumes arr: "\<not> obj_array ob" and ok: "open_container ob st = Some (ks, cs, st')" and bytes: "bytes_ok st"
  shows "\<exists>vs cost. cs = map Some vs \<and> opened ob ks vs cost \<and> bytes_ok st' \<and>
    st' = st\<lparr>work := work st + int (length (obj_props ob)), scalarBytes := scalarBytes st + cost\<rparr>"
proof -
  let ?st = "st\<lparr>work := work st + int (length (obj_props ob))\<rparr>"
  from open_record_Some [OF arr ok] obtain kvs where proto: "obj_proto ob \<in> {ProtoObject, ProtoNull}"
    and read: "read_keys False [] (obj_props ob) ?st = Some (kvs, st')"
    and cs: "ks = map fst kvs" "cs = map (Some \<circ> snd) kvs"
    by blast
  have bytes': "bytes_ok ?st" using bytes by (simp add: bytes_ok_def)
  note rk = read_keys_Some [OF read bytes']
  have props: "obj_props ob = map (\<lambda>(k, v). (KStr k, DataDesc v True)) kvs" using rk by simp
  moreover have "distinct (map fst (obj_props ob))" using rk by blast
  then have "distinct (map fst kvs)" unfolding props distinct_KStr .
  ultimately have "plain_record ob kvs" using arr proto by (simp add: plain_record_def)
  then have "opened ob ks (map snd kvs) (sum_list (map (\<lambda>(k, v). int (utf8_length k)) kvs))"
    using arr cs by (simp add: opened_def zip_map_fst_snd comp_def split_def)
  moreover have "cs = map Some (map snd kvs)" using cs by simp
  moreover from rk have "st' = ?st\<lparr>scalarBytes := scalarBytes ?st + sum_list (map (\<lambda>(k, v). int (utf8_length k)) kvs)\<rparr>"
    and "bytes_ok st'" by blast+
  ultimately show ?thesis by (intro exI [of _ "map snd kvs"] exI conjI) simp_all
qed



section \<open>The traversal\<close>

text \<open>
  The invariant of the traversal: the entry of every container that is not being visited is the
  tree it unfolds to, with the cost and the height of that tree.
\<close>

definition cached :: "heap \<Rightarrow> snap \<Rightarrow> addr \<Rightarrow> jtree \<Rightarrow> bool" where
  "cached h st a t \<longleftrightarrow>
     unfolds h (Ref a) t \<and> scalarCosts st a = Some (tree_cost t) \<and> subtreeHeights st a = Some (tree_height t)"

definition snap_inv :: "heap \<Rightarrow> snap \<Rightarrow> bool" where
  "snap_inv h st \<longleftrightarrow>
     bytes_ok st \<and> (\<forall>a t. snapshots st a = Some t \<and> a \<notin> set (active st) \<longrightarrow> cached h st a t)"

lemma snap_inv_cached:
  "snap_inv h st \<Longrightarrow> snapshots st a = Some t \<Longrightarrow> a \<notin> set (active st) \<Longrightarrow> cached h st a t"
  by (simp add: snap_inv_def)

definition visited :: "heap \<Rightarrow> jsval \<Rightarrow> nat \<Rightarrow> snap \<Rightarrow> jtree \<Rightarrow> snap \<Rightarrow> bool" where
  "visited h v d st t st' \<longleftrightarrow>
     unfolds h v t \<and> snap_inv h st' \<and> active st' = active st \<and>
     scalarBytes st' = scalarBytes st + tree_cost t \<and>
     d + tree_height t \<le> MAX_PROJECT_CHAT_SNAPSHOT_DEPTH \<and>
     (\<forall>a. v = Ref a \<longrightarrow> snapshots st' a = Some t \<and> a \<notin> set (active st'))"

definition visited_all :: "heap \<Rightarrow> jsval option list \<Rightarrow> nat \<Rightarrow> nat \<Rightarrow> snap \<Rightarrow> jtree list \<Rightarrow> nat \<Rightarrow> snap \<Rightarrow> bool" where
  "visited_all h cs d ht st ts ht' st' \<longleftrightarrow>
     list_all2 (\<lambda>c t. \<exists>v. c = Some v \<and> unfolds h v t) cs ts \<and> snap_inv h st' \<and> active st' = active st \<and>
     scalarBytes st' = scalarBytes st + sum_list (map tree_cost ts) \<and>
     ht' = fold max (map (\<lambda>t. Suc (tree_height t)) ts) ht \<and>
     (\<forall>t \<in> set ts. d + tree_height t \<le> MAX_PROJECT_CHAT_SNAPSHOT_DEPTH)"

lemma visited_height:
  assumes "visited h v d st t st'"
  shows "cachedSubtreeHeight v st' = Some (tree_height t)"
proof (cases v)
  case (Prim p)
  with assms show ?thesis by (auto simp: visited_def cachedSubtreeHeight_def elim: unfolds_primE)
next
  case (Ref a)
  with assms snap_inv_cached [of h st' a t] show ?thesis
    by (auto simp: visited_def cachedSubtreeHeight_def cached_def)
qed

lemma tree_cost_build:
  assumes "opened ob ks vs cost" and "length ts = length vs"
  shows "tree_cost (build (obj_array ob) ks ts) = cost + sum_list (map tree_cost ts)"
  using assms by (auto simp: opened_def build_def split_def map_zip_snd
      map_zip_fst [where f = "\<lambda>k. int (utf8_length k)"])

lemma tree_height_build:
  assumes "opened ob ks vs cost" and "length ts = length vs"
  shows "tree_height (build (obj_array ob) ks ts) = fold max (map (\<lambda>t. Suc (tree_height t)) ts) 0"
  using assms by (auto simp: opened_def build_def tree_height.simps split_def
      map_zip_snd [where f = "\<lambda>t. Suc (tree_height t)"])

lemma unfolds_build:
  assumes "opened (h a) ks vs cost" and "list_all2 (unfolds h) vs ts"
  shows "unfolds h (Ref a) (build (obj_array (h a)) ks ts)"
proof (cases "obj_array (h a)")
  case True
  with assms show ?thesis by (auto simp: opened_def build_def intro: unfolds_array)
next
  case False
  have "length vs = length ts" using assms(2) by (rule list_all2_lengthD)
  with False assms show ?thesis
    by (auto simp: opened_def build_def intro!: unfolds_record [where kvs = "zip ks vs"])
qed


lemma tree_cost_nonneg [simp]: "0 \<le> tree_cost t"
  by (induction t rule: tree_cost.induct)
    (auto intro!: add_nonneg_nonneg sum_list_nonneg split: jsprim.split)

lemma open_container_sound:
  assumes "open_container ob st = Some (ks, cs, st')" and "bytes_ok st"
  shows "\<exists>vs cost. cs = map Some vs \<and> opened ob ks vs cost \<and> bytes_ok st' \<and>
    st' = st\<lparr>work := work st + int (length (obj_props ob)), scalarBytes := scalarBytes st + cost\<rparr>"
  using open_array_sound [OF _ assms] open_record_sound [OF _ assms] by blast

text \<open>What a visit of a container reports, from what the visits of its children report.\<close>

lemma leave_visited:
  assumes fresh: "a \<notin> set (active st)" and d: "d \<le> MAX_PROJECT_CHAT_SNAPSHOT_DEPTH"
    and op: "opened (h a) ks vs cost"
    and st1: "st1 = (enter a st)\<lparr>work := w, scalarBytes := scalarBytes st + cost\<rparr>"
    and kids: "visited_all h (map Some vs) (d + 1) 0 (st1\<lparr>snapshots := m\<rparr>) ts height st2"
  defines "t \<equiv> build (obj_array (h a)) ks ts"
  shows "visited h (Ref a) d st t (leave a t (scalarBytes st) height st2)"
proof -
  have un: "list_all2 (unfolds h) vs ts"
    using kids by (auto simp: visited_all_def list_all2_conv_all_nth)
  then have len: "length ts = length vs" by (simp add: list_all2_lengthD)
  have cost: "tree_cost t = cost + sum_list (map tree_cost ts)"
    unfolding t_def by (rule tree_cost_build [OF op len])
  have ht: "tree_height t = height"
    using kids unfolding t_def tree_height_build [OF op len] by (simp add: visited_all_def)
  have inv2: "snap_inv h st2" and act: "active st2 = a # active st"
    and bytes: "scalarBytes st2 = scalarBytes st + tree_cost t"
    and depth: "\<forall>u \<in> set ts. d + 1 + tree_height u \<le> MAX_PROJECT_CHAT_SNAPSHOT_DEPTH"
    using kids cost st1 by (simp_all add: visited_all_def enter_def)
  have "tree_height t \<le> MAX_PROJECT_CHAT_SNAPSHOT_DEPTH - d"
    unfolding t_def tree_height_build [OF op len] using depth by (auto simp: fold_max_le_iff)
  moreover have "unfolds h (Ref a) t" unfolding t_def by (rule unfolds_build [OF op un])
  moreover from this have "snap_inv h (leave a t (scalarBytes st) height st2)"
    using inv2 act bytes ht fresh by (auto simp: snap_inv_def leave_def cached_def bytes_ok_def)
  ultimately show ?thesis
    using fresh act bytes d by (auto simp: visited_def leave_def)
qed

lemma visit_sound:
  "snap_inv h st \<Longrightarrow> visit h v d st = Some (t, st') \<Longrightarrow> visited h v d st t st'"
  "snap_inv h st \<Longrightarrow> visit_children h cs d ht st = Some (ts, ht', st') \<Longrightarrow>
     visited_all h cs d ht st ts ht' st'"
proof (induction h v d st and h cs d ht st arbitrary: t st' and ts ht' st' rule: visit_visit_children.induct)
  case (1 h v depth st)
  from 1(3) have d: "depth \<le> MAX_PROJECT_CHAT_SNAPSHOT_DEPTH"
    by (subst (asm) visit.simps) (auto split: if_splits)
  show ?case
  proof (cases v)
    case (Prim p)
    with 1(2,3) d show ?thesis
      by (cases p) (auto simp: visit.simps visited_def snap_inv_def consumeScalar_Some bytes_ok_def cached_def
          intro: unfolds_prim)
  next
    case v: (Ref a)
    show ?thesis
    proof (cases "snapshots st a")
      case (Some previous)
      with 1(3) v d have inact: "a \<notin> set (active st)"
        by (subst (asm) visit.simps) (auto split: if_splits)
      have c: "cached h st a previous" by (rule snap_inv_cached [OF 1(2) Some inact])
      from 1(3) v d Some inact c have "t = previous" "depth + tree_height t \<le> MAX_PROJECT_CHAT_SNAPSHOT_DEPTH"
        "consumeScalarBytes (tree_cost t) st = Some st'"
        by (subst (asm) visit.simps; auto simp: cached_def split: if_splits)+
      with c v Some inact 1(2) show ?thesis
        by (auto simp: visited_def consumeScalarBytes_def snap_inv_def cached_def bytes_ok_def split: if_splits)
    next
      case None
      let ?m = "\<lambda>st1. (snapshots st1)(a \<mapsto> build (obj_array (h a)) [] [])"
      from 1(3) v d None obtain ks cs st1 ts height st2 where
        fresh: "a \<notin> set (active st)" and nodes: "\<not> nodes st \<ge> MAX_PROJECT_CHAT_SNAPSHOT_NODES"
        and op: "open_container (h a) (enter a st) = Some (ks, cs, st1)"
        and kids: "visit_children h cs (depth + 1) 0 (st1\<lparr>snapshots := ?m st1\<rparr>) = Some (ts, height, st2)"
        and t: "t = build (obj_array (h a)) ks ts" and st': "st' = leave a t (scalarBytes st) height st2"
        by (subst (asm) visit.simps) (auto split: if_splits option.splits)
      have "bytes_ok (enter a st)" using 1(2) by (simp add: enter_def snap_inv_def bytes_ok_def)
      from open_container_sound [OF op this] obtain vs cost where cs: "cs = map Some vs"
        and opd: "opened (h a) ks vs cost" and b1: "bytes_ok st1"
        and st1: "st1 = (enter a st)\<lparr>work := work (enter a st) + int (length (obj_props (h a))),
          scalarBytes := scalarBytes st + cost\<rparr>"
        by (auto simp: enter_def)
      have "snap_inv h (st1\<lparr>snapshots := ?m st1\<rparr>)"
        using 1(2) b1 st1 by (auto simp: snap_inv_def enter_def bytes_ok_def cached_def)
      from 1(1) [OF _ v None fresh nodes op refl refl this kids] d
      have "visited_all h (map Some vs) (depth + 1) 0 (st1\<lparr>snapshots := ?m st1\<rparr>) ts height st2"
        by (simp add: cs)
      from leave_visited [OF fresh d opd st1 this] show ?thesis by (simp add: t st' v)
    qed
  qed
next
  case (4 h v cs depth subtreeHeight st)
  from 4(4) obtain t st1 childHeight ts1 where first: "visit h v depth st = Some (t, st1)"
    and c: "cachedSubtreeHeight v st1 = Some childHeight"
    and rest: "visit_children h cs depth (max subtreeHeight (childHeight + 1)) st1 = Some (ts1, ht', st')"
    and ts: "ts = t # ts1"
    by (auto split: option.splits)
  have v: "visited h v depth st t st1" by (rule 4(1) [OF 4(3) first])
  then have "snap_inv h st1" by (simp add: visited_def)
  from 4(2) [OF first refl c this rest] v visited_height [OF v] c show ?case
    by (auto simp: visited_all_def visited_def ts max.commute)
qed (auto simp: visited_all_def)


lemma snap_inv_empty: "snap_inv h empty_snap"
  by (simp add: snap_inv_def empty_snap_def bytes_ok_def snapshot_limits)

lemma snapshotUntrusted_bounds:
  assumes "snapshotUntrusted h v = Some t"
  shows "unfolds h v t \<and> tree_height t \<le> MAX_PROJECT_CHAT_SNAPSHOT_DEPTH \<and>
         tree_cost t \<le> MAX_PROJECT_CHAT_SNAPSHOT_SCALAR_BYTES"
proof -
  from assms obtain st where "visit h v 0 empty_snap = Some (t, st)"
    by (auto simp: snapshotUntrusted_def)
  from visit_sound(1) [OF snap_inv_empty this] show ?thesis
    by (auto simp: visited_def snap_inv_def bytes_ok_def empty_snap_def)
qed

lemmas snapshotUntrusted_unfolds = snapshotUntrusted_bounds [THEN conjunct1]

text \<open>
  C20: whatever the object graph, an accepted value is the tree the graph unfolds to: plain
  containers only, at most 64 edges deep, and with at most 8 MiB of strings and keys counted
  over the full expansion, although shared containers are visited once.
\<close>

theorem snapshotUntrusted_sound:
  assumes "snapshotUntrusted h v = Some t"
  shows "unfolds h v t \<and> tree_height t \<le> MAX_PROJECT_CHAT_SNAPSHOT_DEPTH \<and>
         tree_cost t \<le> MAX_PROJECT_CHAT_SNAPSHOT_SCALAR_BYTES"
  using snapshotUntrusted_bounds [OF assms] .


section \<open>Unfolding is deterministic and well founded\<close>

lemma plain_array_unique: 
  assumes "plain_array ob vs" and "plain_array ob vs'"
  shows "vs = vs'"
proof -
  have "(KStr (js ''length''), DataDesc (Prim (PNum (num_int (int (length vs))))) False)
      \<in> set (obj_props ob)" using assms(1) by (simp add: plain_array_def)
  with assms(2) have len: "length vs = length vs'" by (auto simp: plain_array_def)
  moreover have "vs ! i = vs' ! i" if "i < length vs" for i
  proof -
    have "(KStr (nat_digits i), DataDesc (vs ! i) True) \<in> set (obj_props ob)"
      using assms(1) that by (auto simp: plain_array_def)
    with assms(2) show ?thesis by (auto simp: plain_array_def)
  qed
  ultimately show ?thesis by (rule nth_equalityI)
qed

lemma plain_record_unique: 
  assumes "plain_record ob kvs" and "plain_record ob kvs'"
  shows "kvs = kvs'"
proof -
  have inj: "inj (\<lambda>(k, v). (KStr k, DataDesc v True))" by (auto simp: inj_def)
  have "map (\<lambda>(k, v). (KStr k, DataDesc v True)) kvs = map (\<lambda>(k, v). (KStr k, DataDesc v True)) kvs'"
    using assms by (simp add: plain_record_def)
  then show ?thesis using inj_map_eq_map [OF inj] by blast
qed

lemma plain_array_record: "plain_array ob vs \<Longrightarrow> \<not> plain_record ob kvs"
  by (simp add: plain_array_def plain_record_def)

lemma list_all2_unique:
  "list_all2 (\<lambda>x y. P x y \<and> (\<forall>z. P x z \<longrightarrow> z = y)) xs ys \<Longrightarrow> list_all2 P xs zs \<Longrightarrow> zs = ys"
  by (induction xs ys arbitrary: zs rule: list_all2_induct) (auto simp: list_all2_Cons1)

lemma unfolds_unique: "unfolds h v t \<Longrightarrow> unfolds h v t' \<Longrightarrow> t' = t"
proof (induction v t arbitrary: t' rule: unfolds.induct)
  case (unfolds_prim p)
  then show ?case by (auto elim: unfolds_primE)
next
  case (unfolds_array a vs ts)
  from unfolds_array(3) show ?case
  proof (cases rule: unfolds_ref_cases)
    case (1 vs' ts')
    then have "vs' = vs" using plain_array_unique unfolds_array(1) by blast
    with list_all2_unique [OF unfolds_array(2)] 1 have "ts' = ts" by blast
    with 1 show ?thesis by simp
  qed (use unfolds_array(1) plain_array_record in blast)
next
  case (unfolds_record a kvs fs)
  from unfolds_record(4) show ?case
  proof (cases rule: unfolds_ref_cases)
    case (2 kvs' fs')
    then have kv: "kvs' = kvs" using plain_record_unique unfolds_record(1) by blast
    with list_all2_unique [OF unfolds_record(3)] 2 have "map snd fs' = map snd fs" by blast
    with 2 kv unfolds_record(2) have "fs' = fs" by (metis zip_map_fst_snd)
    with 2 show ?thesis by simp
  qed (use unfolds_record(1) plain_array_record in blast)
qed

text \<open>The object graph: \<open>b\<close> is the value of a data property of \<open>a\<close>.\<close>

definition points_to :: "heap \<Rightarrow> addr \<Rightarrow> addr \<Rightarrow> bool" where
  "points_to h a b \<longleftrightarrow> (\<exists>k e. (k, DataDesc (Ref b) e) \<in> set (obj_props (h a)))"

lemma unfolds_child:
  assumes "unfolds h (Ref a) t" and "points_to h a b"
  shows "\<exists>u. unfolds h (Ref b) u \<and> size u < size t"
  using assms(1)
proof (cases rule: unfolds_ref_cases)
  case (1 vs ts)
  with assms(2) obtain i where i: "i < length vs" "vs ! i = Ref b"
    by (auto simp: points_to_def plain_array_def)
  then have "unfolds h (Ref b) (ts ! i)" "i < length ts"
    using 1(3) by (auto simp: list_all2_conv_all_nth)
  moreover have "size (ts ! i) < size t"
    using size_list_estimation' [of "ts ! i" ts _ size] calculation(2) 1(1)
    by (simp add: less_Suc_eq_le)
  ultimately show ?thesis by blast
next
  case (2 kvs fs)
  with assms(2) obtain k where "(k, Ref b) \<in> set kvs"
    by (auto simp: points_to_def plain_record_def)
  then obtain i where i: "i < length kvs" "snd (kvs ! i) = Ref b"
    by (metis in_set_conv_nth snd_conv)
  then have "unfolds h (Ref b) (snd (fs ! i))" and len: "i < length fs"
    using 2(3) by (auto simp: list_all2_conv_all_nth)
  moreover have "size (snd (fs ! i)) < size t"
    using size_list_estimation' [of "fs ! i" fs "size (snd (fs ! i))" "size_prod (\<lambda>_. 0) size"] nth_mem [OF len] 2(1)
    by (cases "fs ! i") (simp add: less_Suc_eq_le)
  ultimately show ?thesis by blast
qed


lemma unfolds_reach:
  "(points_to h)\<^sup>+\<^sup>+ a b \<Longrightarrow> unfolds h (Ref a) t \<Longrightarrow> \<exists>u. unfolds h (Ref b) u \<and> size u < size t"
  by (induction rule: tranclp_induct) (meson unfolds_child less_trans)+

text \<open>
  A value from which an object on a cycle of data properties can be reached is rejected:
  the traversal ends and never accepts it.
\<close>

theorem snapshotUntrusted_rejects_cycles:
  assumes "(points_to h)\<^sup>*\<^sup>* a b" and "(points_to h)\<^sup>+\<^sup>+ b b"
  shows "snapshotUntrusted h (Ref a) = None"
proof (rule ccontr)
  assume "snapshotUntrusted h (Ref a) \<noteq> None"
  then obtain t where "unfolds h (Ref a) t"
    using snapshotUntrusted_unfolds by blast
  then obtain u where u: "unfolds h (Ref b) u"
    using assms(1) unfolds_reach by (metis rtranclpD)
  then show False using unfolds_reach [OF assms(2) u] unfolds_unique by blast
qed

definition self_loop :: heap where
  "self_loop a = \<lparr>obj_array = False, obj_proto = ProtoObject,
     obj_props = [(KStr (js ''self''), DataDesc (Ref a) True)]\<rparr>"

theorem snapshotUntrusted_rejects_cycles_witness: "snapshotUntrusted self_loop (Ref []) = None"
proof (rule snapshotUntrusted_rejects_cycles)
  show "(points_to self_loop)\<^sup>*\<^sup>* [] []" by simp
  show "(points_to self_loop)\<^sup>+\<^sup>+ [] []"
    by (rule tranclp.r_into_trancl) (auto simp: points_to_def self_loop_def)
qed



section \<open>Freshly built trees\<close>

text \<open>
  A tree without repeated keys, laid out in its own store, unfolds to itself.
\<close>

lemma subtree_at_append: "subtree_at t (p @ q) = subtree_at (subtree_at t p) q"
proof (induction p arbitrary: t)
  case (Cons i p)
  have "subtree_at TUndef q = TUndef" for q by (cases q) auto
  with Cons show ?case by auto
qed simp

lemma plain_array_tree_heap:
  assumes "subtree_at T p = TArr ts"
  shows "plain_array (tree_heap T p) (map (\<lambda>i. tree_val (ts ! i) (p @ [i])) [0..<length ts])"
  using assms by (auto simp: plain_array_def tree_heap_def tree_obj_def distinct_map inj_on_def
      image_iff atLeast0LessThan)

lemma plain_record_tree_heap:
  assumes "subtree_at T p = TObj fs" and "distinct (map fst fs)"
  shows "plain_record (tree_heap T p)
    (map (\<lambda>i. (fst (fs ! i), tree_val (snd (fs ! i)) (p @ [i]))) [0..<length fs])"
proof -
  have "map (\<lambda>i. fst (fs ! i)) [0..<length fs] = map fst fs" by (rule nth_equalityI) simp_all
  with assms show ?thesis by (simp add: plain_record_def tree_heap_def tree_obj_def comp_def)
qed

lemma unfolds_tree_heap:
  "subtree_at T p = t \<Longrightarrow> strict_tree t \<Longrightarrow> unfolds (tree_heap T) (tree_val t p) t"
proof (induction t arbitrary: p)
  case (TPrim v)
  then show ?case by (simp add: tree_val_def unfolds_prim)
next
  case (TArr ts)
  let ?vs = "map (\<lambda>i. tree_val (ts ! i) (p @ [i])) [0..<length ts]"
  have "subtree_at T (p @ [i]) = ts ! i" if "i < length ts" for i
    using that TArr.prems(1) by (simp add: subtree_at_append)
  then have "list_all2 (unfolds (tree_heap T)) ?vs ts"
    using TArr.IH TArr.prems(2) by (simp add: list_all2_conv_all_nth list_all_length)
  with plain_array_tree_heap [OF TArr.prems(1)] show ?case
    by (simp add: tree_val_def unfolds_array)
next
  case (TObj fs)
  let ?kvs = "map (\<lambda>i. (fst (fs ! i), tree_val (snd (fs ! i)) (p @ [i]))) [0..<length fs]"
  have sub: "subtree_at T (p @ [i]) = snd (fs ! i)" if "i < length fs" for i
    using that TObj.prems(1) by (simp add: subtree_at_append)
  have "unfolds (tree_heap T) (tree_val (snd (fs ! i)) (p @ [i])) (snd (fs ! i))" if "i < length fs" for i
  proof (rule TObj.IH [OF nth_mem [OF that] _ sub [OF that]])
    show "snd (fs ! i) \<in> Basic_BNFs.snds (fs ! i)" by (cases "fs ! i") auto
    show "strict_tree (snd (fs ! i))" using TObj.prems(2) that by (auto simp: list_all_length split_def)
  qed
  then have "list_all2 (unfolds (tree_heap T)) (map snd ?kvs) (map snd fs)"
    by (simp add: list_all2_conv_all_nth)
  moreover have "map fst fs = map fst ?kvs" by (rule nth_equalityI) simp_all
  ultimately show ?case
    using plain_record_tree_heap [OF TObj.prems(1)] TObj.prems(2)
    by (auto simp: tree_val_def intro: unfolds_record)
qed

text \<open>What the traversal of a tree spends: one node and its own keys per container.\<close>

fun tree_nodes :: "jtree \<Rightarrow> nat" where
  "tree_nodes (TPrim _) = 0"
| "tree_nodes (TArr ts) = Suc (sum_list (map tree_nodes ts))"
| "tree_nodes (TObj fs) = Suc (sum_list (map (\<lambda>(k, t). tree_nodes t) fs))"

fun tree_work :: "jtree \<Rightarrow> int" where
  "tree_work (TPrim _) = 0"
| "tree_work (TArr ts) = int (length ts) + 1 + sum_list (map tree_work ts)"
| "tree_work (TObj fs) = int (length fs) + sum_list (map (\<lambda>(k, t). tree_work t) fs)"

lemma tree_work_nonneg [simp]: "0 \<le> tree_work t"
  by (induction t rule: tree_work.induct) (auto intro!: add_nonneg_nonneg sum_list_nonneg)

definition within_limits :: "jtree \<Rightarrow> bool" where
  "within_limits t \<longleftrightarrow>
     tree_height t \<le> MAX_PROJECT_CHAT_SNAPSHOT_DEPTH \<and>
     tree_cost t \<le> MAX_PROJECT_CHAT_SNAPSHOT_SCALAR_BYTES \<and>
     tree_nodes t \<le> MAX_PROJECT_CHAT_SNAPSHOT_NODES \<and>
     tree_work t \<le> MAX_PROJECT_CHAT_SNAPSHOT_WORK"


lemma read_keys_append:
  assumes "distinct (map fst kvs)" and "set (map fst kvs) \<inter> set seen = {}"
    and "arr \<Longrightarrow> js ''length'' \<notin> fst ` set kvs" and "0 \<le> scalarBytes st"
    and "scalarBytes st + sum_list (map (\<lambda>(k, v). int (utf8_length k)) kvs)
      \<le> MAX_PROJECT_CHAT_SNAPSHOT_SCALAR_BYTES"
  shows "read_keys arr seen (map (\<lambda>(k, v). (KStr k, DataDesc v True)) kvs @ ps) st =
    map_option (\<lambda>(r, st'). (kvs @ r, st')) (read_keys arr (rev (map fst kvs) @ seen) ps
      (st\<lparr>scalarBytes := scalarBytes st + sum_list (map (\<lambda>(k, v). int (utf8_length k)) kvs)\<rparr>))"
  using assms
proof (induction kvs arbitrary: seen st)
  case Nil
  then show ?case by (simp add: option.map_ident)
next
  case (Cons kv kvs)
  obtain k v where kv: "kv = (k, v)" by (cases kv)
  let ?rest = "sum_list (map (\<lambda>(k, v). int (utf8_length k)) kvs)"
  have rest: "0 \<le> ?rest" by (auto intro!: sum_list_nonneg)
  with Cons.prems kv have "bytes_ok st" by (simp add: bytes_ok_def)
  then have "consumeScalar k st = Some (st\<lparr>scalarBytes := scalarBytes st + int (utf8_length k)\<rparr>)"
    using Cons.prems(5) rest kv bytes_ok_safe by (simp add: consumeScalar_Some)
  moreover have "\<not> (arr \<and> k = js ''length'')" "k \<notin> set seen" using Cons.prems kv by auto
  moreover note Cons.IH [of "k # seen" "st\<lparr>scalarBytes := scalarBytes st + int (utf8_length k)\<rparr>"]
  ultimately show ?case using Cons.prems kv by (auto simp: option.map_comp comp_def split_def add.assoc)
qed

definition is_container :: "jtree \<Rightarrow> bool" where
  "is_container t \<longleftrightarrow> (case t of TPrim _ \<Rightarrow> False | _ \<Rightarrow> True)"

text \<open>The keys and the children of a tree's root, and the price of its own keys.\<close>

definition tree_keys :: "jtree \<Rightarrow> jsstr list" where
  "tree_keys t = (case t of TObj fs \<Rightarrow> map fst fs | _ \<Rightarrow> [])"

definition own_work :: "jtree \<Rightarrow> int" where
  "own_work t = (case t of TPrim _ \<Rightarrow> 0 | TArr ts \<Rightarrow> int (length ts) + 1 | TObj fs \<Rightarrow> int (length fs))"

definition own_cost :: "jtree \<Rightarrow> int" where
  "own_cost t = tree_cost t - sum_list (map tree_cost (subtrees t))"

definition child_vals :: "jtree \<Rightarrow> addr \<Rightarrow> jsval option list" where
  "child_vals t p = map (\<lambda>i. Some (tree_val (subtrees t ! i) (p @ [i]))) [0..<length (subtrees t)]"

lemma as_integer_of_nat [simp]: "as_integer (NumFin (of_nat n)) = Some (int n)"
  using as_integer_num_int [of "int n"] by simp

lemma open_tree_array:
  assumes "0 \<le> scalarBytes st" "scalarBytes st + own_cost (TArr ts) \<le> MAX_PROJECT_CHAT_SNAPSHOT_SCALAR_BYTES"
    and "0 \<le> work st" "work st + own_work (TArr ts) \<le> MAX_PROJECT_CHAT_SNAPSHOT_WORK"
  shows "open_container (tree_obj (TArr ts) p) st =
    Some ([], child_vals (TArr ts) p,
      st\<lparr>work := work st + own_work (TArr ts), scalarBytes := scalarBytes st + own_cost (TArr ts)\<rparr>)"
proof -
  let ?kvs = "map (\<lambda>i. (nat_digits i, tree_val (ts ! i) (p @ [i]))) [0..<length ts]"
  let ?L = "(KStr (js ''length''), DataDesc (Prim (PNum (num_int (int (length ts))))) False)"
  let ?ob = "tree_obj (TArr ts) p"
  have props: "obj_props ?ob = map (\<lambda>(k, v). (KStr k, DataDesc v True)) ?kvs @ [?L]"
    by (simp add: tree_obj_def)
  have cost: "own_cost (TArr ts) = sum_list (map (\<lambda>(k, v). int (utf8_length k)) ?kvs)"
    by (simp add: own_cost_def comp_def)
  have dist: "distinct (map fst ?kvs)" by (simp add: distinct_map inj_on_def)
  have "map_of (map (\<lambda>(k, v). (KStr k, DataDesc v True)) ?kvs) (KStr (js ''length'')) = None"
    by (subst map_of_eq_None_iff) auto
  then have "map_of (obj_props ?ob) (KStr (js ''length'')) = Some (snd ?L)"
    unfolding props by (simp add: map_add_def del: map_map)
  then have len: "array_length ?ob st = Some (length ts)"
    using assms(3,4) by (simp add: array_length_def canConsumeWork_def safe_int_def MAX_SAFE_INTEGER_def
        own_work_def snapshot_limits)
  have "read_keys True [] (obj_props ?ob) (st\<lparr>work := work st + own_work (TArr ts)\<rparr>) =
      Some (?kvs, st\<lparr>work := work st + own_work (TArr ts), scalarBytes := scalarBytes st + own_cost (TArr ts)\<rparr>)"
    unfolding props using assms(1,2) cost dist
    by (subst read_keys_append) (auto simp: distinct_map inj_on_def)
  moreover have "int (length (obj_props ?ob)) = own_work (TArr ts)"
    by (simp add: props own_work_def)
  moreover have "canConsumeWork (own_work (TArr ts)) st"
    using assms(3,4) by (simp add: canConsumeWork_def safe_int_def MAX_SAFE_INTEGER_def own_work_def snapshot_limits)
  moreover have "list_all (\<lambda>(k, v). isCanonicalArrayIndex k (length ts)) ?kvs"
    by (auto simp: list_all_iff isCanonicalArrayIndex_iff)
  moreover have "map (\<lambda>i. map_of ?kvs (nat_digits i)) [0..<length ts] = child_vals (TArr ts) p"
    using map_of_eq_Some_iff [OF dist] by (auto simp: child_vals_def)
  moreover have "obj_array ?ob" "obj_proto ?ob = ProtoArray" by (simp_all add: tree_obj_def)
  ultimately show ?thesis using len by (simp add: open_container_def)
qed

lemma open_tree_record:
  assumes "0 \<le> scalarBytes st" "scalarBytes st + own_cost (TObj fs) \<le> MAX_PROJECT_CHAT_SNAPSHOT_SCALAR_BYTES"
    and "0 \<le> work st" "work st + own_work (TObj fs) \<le> MAX_PROJECT_CHAT_SNAPSHOT_WORK"
    and "distinct (map fst fs)"
  shows "open_container (tree_obj (TObj fs) p) st =
    Some (map fst fs, child_vals (TObj fs) p,
      st\<lparr>work := work st + own_work (TObj fs), scalarBytes := scalarBytes st + own_cost (TObj fs)\<rparr>)"
proof -
  let ?kvs = "map (\<lambda>i. (fst (fs ! i), tree_val (snd (fs ! i)) (p @ [i]))) [0..<length fs]"
  let ?ob = "tree_obj (TObj fs) p"
  have props: "obj_props ?ob = map (\<lambda>(k, v). (KStr k, DataDesc v True)) ?kvs @ []"
    by (simp add: tree_obj_def)
  have keys: "map fst ?kvs = map fst fs" by (rule nth_equalityI) simp_all
  have "sum_list (map (\<lambda>(k, v). int (utf8_length k)) ?kvs) = sum_list (map (\<lambda>k. int (utf8_length k)) (map fst ?kvs))"
    by (simp add: comp_def)
  also have "\<dots> = own_cost (TObj fs)"
    unfolding keys by (simp add: own_cost_def comp_def split_def)
  finally have cost: "sum_list (map (\<lambda>(k, v). int (utf8_length k)) ?kvs) = own_cost (TObj fs)" .
  have "read_keys False [] (obj_props ?ob) (st\<lparr>work := work st + own_work (TObj fs)\<rparr>) =
      Some (?kvs, st\<lparr>work := work st + own_work (TObj fs), scalarBytes := scalarBytes st + own_cost (TObj fs)\<rparr>)"
    unfolding props using assms(1,2,5) cost keys
    by (subst read_keys_append) auto
  moreover have "int (length (obj_props ?ob)) = own_work (TObj fs)"
    by (simp add: props own_work_def)
  moreover have "canConsumeWork (own_work (TObj fs)) st"
    using assms(3,4) by (simp add: canConsumeWork_def safe_int_def MAX_SAFE_INTEGER_def own_work_def snapshot_limits)
  moreover have "map (Some \<circ> snd) ?kvs = child_vals (TObj fs) p"
    by (simp add: child_vals_def)
  moreover have "\<not> obj_array ?ob" "obj_proto ?ob = ProtoObject" by (simp_all add: tree_obj_def)
  ultimately show ?thesis using keys by (simp add: open_container_def)
qed


lemma open_tree:
  assumes "0 \<le> scalarBytes st" "scalarBytes st + own_cost t \<le> MAX_PROJECT_CHAT_SNAPSHOT_SCALAR_BYTES"
    and "0 \<le> work st" "work st + own_work t \<le> MAX_PROJECT_CHAT_SNAPSHOT_WORK"
    and "strict_tree t" and "is_container t"
  shows "open_container (tree_obj t p) st = Some (tree_keys t, child_vals t p,
      st\<lparr>work := work st + own_work t, scalarBytes := scalarBytes st + own_cost t\<rparr>)"
  using assms open_tree_array [of st _ p] open_tree_record [of st _ p]
  by (cases t) (simp_all add: tree_keys_def is_container_def)

text \<open>
  The budget a subtree finds and what its traversal leaves. Only its own addresses are touched.
\<close>

definition room :: "nat \<Rightarrow> int \<Rightarrow> nat \<Rightarrow> int \<Rightarrow> snap \<Rightarrow> bool" where
  "room d cost n w st \<longleftrightarrow>
     scalarBytes st + cost \<le> MAX_PROJECT_CHAT_SNAPSHOT_SCALAR_BYTES \<and>
     nodes st + n \<le> MAX_PROJECT_CHAT_SNAPSHOT_NODES \<and>
     0 \<le> work st \<and> work st + w \<le> MAX_PROJECT_CHAT_SNAPSHOT_WORK \<and> d \<le> MAX_PROJECT_CHAT_SNAPSHOT_DEPTH"

definition untouched :: "addr \<Rightarrow> snap \<Rightarrow> bool" where
  "untouched p st \<longleftrightarrow> (\<forall>q. snapshots st (p @ q) = None \<and> p @ q \<notin> set (active st))"

definition spent :: "addr set \<Rightarrow> nat \<Rightarrow> int \<Rightarrow> snap \<Rightarrow> snap \<Rightarrow> bool" where
  "spent A n w st st' \<longleftrightarrow>
     nodes st' = nodes st + n \<and> work st' = work st + w \<and>
     (\<forall>q. q \<notin> A \<longrightarrow> snapshots st' q = snapshots st q)"

abbreviation below :: "addr \<Rightarrow> addr set" where
  "below p \<equiv> {p @ q | q. True}"

definition accepts :: "jtree \<Rightarrow> jtree \<Rightarrow> bool" where
  "accepts T t \<longleftrightarrow>
     (\<forall>p d st. subtree_at T p = t \<longrightarrow> snap_inv (tree_heap T) st \<longrightarrow> untouched p st \<longrightarrow>
        room (d + tree_height t) (tree_cost t) (tree_nodes t) (tree_work t) st \<longrightarrow>
        (\<exists>u st'. visit (tree_heap T) (tree_val t p) d st = Some (u, st') \<and>
          spent (below p) (tree_nodes t) (tree_work t) st st'))"

lemma tree_cost_split: "tree_cost t = own_cost t + sum_list (map tree_cost (subtrees t))"
  by (simp add: own_cost_def)

lemma tree_nodes_split: "is_container t \<Longrightarrow> tree_nodes t = Suc (sum_list (map tree_nodes (subtrees t)))"
  by (cases t) (simp_all add: is_container_def comp_def split_def)

lemma own_cost_nonneg: "0 \<le> own_cost t"
  by (cases t) (auto simp: own_cost_def comp_def split_def intro!: sum_list_nonneg split: jsprim.split)

lemma tree_work_split: "tree_work t = own_work t + sum_list (map tree_work (subtrees t))"
  by (cases t) (simp_all add: own_work_def comp_def split_def)

lemma tree_height_child: "u \<in> set (subtrees t) \<Longrightarrow> Suc (tree_height u) \<le> tree_height t"
  using tree_height_le_iff(1) [of _ "tree_height t"] tree_height_le_iff(2) [of _ "tree_height t"]
  by (cases t) (force simp del: tree_height_le_iff)+

lemma spent_trans:
  "spent A n w st st1 \<Longrightarrow> spent B n' w' st1 st2 \<Longrightarrow> spent (A \<union> B) (n + n') (w + w') st st2"
  by (simp add: spent_def)

lemma acceptsD:
  assumes "accepts T t" and "subtree_at T p = t" and "snap_inv (tree_heap T) st" and "untouched p st"
    and "room (d + tree_height t) (tree_cost t) (tree_nodes t) (tree_work t) st" and "strict_tree t"
  shows "\<exists>st'. visit (tree_heap T) (tree_val t p) d st = Some (t, st') \<and>
    visited (tree_heap T) (tree_val t p) d st t st' \<and> spent (below p) (tree_nodes t) (tree_work t) st st'"
proof -
  from assms obtain u st' where v: "visit (tree_heap T) (tree_val t p) d st = Some (u, st')"
    and sp: "spent (below p) (tree_nodes t) (tree_work t) st st'"
    unfolding accepts_def by blast
  have vis: "visited (tree_heap T) (tree_val t p) d st u st'"
    by (rule visit_sound(1) [OF assms(3) v])
  then have "u = t"
    using unfolds_unique [OF unfolds_tree_heap [OF assms(2,6)]] by (simp add: visited_def)
  with v vis sp show ?thesis by blast
qed

definition placed :: "jtree \<Rightarrow> addr \<Rightarrow> nat \<Rightarrow> nat \<times> jtree \<Rightarrow> bool" where
  "placed T p d it \<longleftrightarrow>
     accepts T (snd it) \<and> subtree_at T (p @ [fst it]) = snd it \<and> strict_tree (snd it) \<and>
     d + tree_height (snd it) \<le> MAX_PROJECT_CHAT_SNAPSHOT_DEPTH"

abbreviation total :: "(jtree \<Rightarrow> 'a::monoid_add) \<Rightarrow> (nat \<times> jtree) list \<Rightarrow> 'a" where
  "total f its \<equiv> sum_list (map (\<lambda>it. f (snd it)) its)"

lemma children_accepted:
  assumes "\<forall>it \<in> set its. placed T p d it \<and> untouched (p @ [fst it]) st"
    and "distinct (map fst its)" and "snap_inv (tree_heap T) st"
    and "room d (total tree_cost its) (total tree_nodes its) (total tree_work its) st"
  shows "\<exists>ts ht' st'.
    visit_children (tree_heap T) (map (\<lambda>it. Some (tree_val (snd it) (p @ [fst it]))) its) d ht st =
      Some (ts, ht', st') \<and>
    spent {p @ i # q | i q. i \<in> fst ` set its} (total tree_nodes its) (total tree_work its) st st'"
  using assms
proof (induction its arbitrary: ht st)
  case Nil
  then show ?case by (simp add: spent_def)
next
  case (Cons it its)
  obtain i t where it: "it = (i, t)" by (cases it)
  have nn: "0 \<le> total tree_cost its" "0 \<le> total tree_work its" by (auto intro!: sum_list_nonneg)
  have pl: "placed T p d (i, t)" "untouched (p @ [i]) st" using Cons.prems(1) it by auto
  have "room (d + tree_height t) (tree_cost t) (tree_nodes t) (tree_work t) st"
    using Cons.prems(4) nn pl(1) by (simp add: room_def it placed_def)
  with acceptsD [of T t "p @ [i]" st d] pl Cons.prems(3) obtain st1 where
    v: "visit (tree_heap T) (tree_val t (p @ [i])) d st = Some (t, st1)"
    and vis: "visited (tree_heap T) (tree_val t (p @ [i])) d st t st1"
    and sp: "spent (below (p @ [i])) (tree_nodes t) (tree_work t) st st1"
    by (auto simp: placed_def)
  have inv1: "snap_inv (tree_heap T) st1" and act: "active st1 = active st"
    and bytes: "scalarBytes st1 = scalarBytes st + tree_cost t"
    using vis by (auto simp: visited_def)
  have "untouched (p @ [fst jt]) st1" if "jt \<in> set its" for jt
  proof -
    have "fst jt \<noteq> i" using Cons.prems(2) that it by force
    moreover have "untouched (p @ [fst jt]) st" using Cons.prems(1) that by simp
    ultimately show ?thesis using sp act by (auto simp: untouched_def spent_def)
  qed
  then have kids: "\<forall>jt \<in> set its. placed T p d jt \<and> untouched (p @ [fst jt]) st1"
    using Cons.prems(1) by simp
  have "room d (total tree_cost its) (total tree_nodes its) (total tree_work its) st1"
    using Cons.prems(4) bytes sp tree_work_nonneg [of t] by (simp add: room_def spent_def it)
  from Cons.IH [OF kids _ inv1 this, of "max ht (tree_height t + 1)"] Cons.prems(2) obtain ts ht' st' where
    rest: "visit_children (tree_heap T) (map (\<lambda>it. Some (tree_val (snd it) (p @ [fst it]))) its) d
      (max ht (tree_height t + 1)) st1 = Some (ts, ht', st')"
    and sp': "spent {p @ i # q | i q. i \<in> fst ` set its} (total tree_nodes its) (total tree_work its) st1 st'"
    by auto
  have "spent (below (p @ [i]) \<union> {p @ i # q | i q. i \<in> fst ` set its})
      (tree_nodes t + total tree_nodes its) (tree_work t + total tree_work its) st st'"
    by (rule spent_trans [OF sp sp'])
  moreover have "below (p @ [i]) \<union> {p @ i # q | i q. i \<in> fst ` set its} =
      {p @ j # q | j q. j \<in> fst ` set (it # its)}" by (auto simp: it)
  ultimately show ?case using v rest visited_height [OF vis] by (simp add: it)
qed


text \<open>A container is accepted when its children are.\<close>

lemma container_accepted:
  assumes kids: "\<forall>u \<in> set (subtrees t). accepts T u" and strict: "strict_tree t"
    and cont: "is_container t"
  shows "accepts T t"
  unfolding accepts_def
proof (intro allI impI)
  fix p d st
  assume at: "subtree_at T p = t" and inv: "snap_inv (tree_heap T) st" and fresh: "untouched p st"
    and room: "room (d + tree_height t) (tree_cost t) (tree_nodes t) (tree_work t) st"
  let ?its = "enumerate 0 (subtrees t)" and ?h = "tree_heap T"
  have ob: "?h p = tree_obj t p" by (simp add: tree_heap_def at)
  have val: "tree_val t p = Ref p" using cont by (cases t) (simp_all add: tree_val_def is_container_def)
  have tot: "total f ?its = sum_list (map f (subtrees t))" for f :: "jtree \<Rightarrow> 'a::monoid_add"
    by (simp add: enumerate_eq_zip map_zip_snd)
  have split: "tree_cost t = own_cost t + total tree_cost ?its"
    "tree_nodes t = Suc (total tree_nodes ?its)" "tree_work t = own_work t + total tree_work ?its"
    using tree_nodes_split [OF cont] tree_cost_split [of t] tree_work_split [of t] unfolding tot by blast+
  have nn: "0 \<le> total tree_cost ?its" "0 \<le> total tree_work ?its" "0 \<le> own_work t" "0 \<le> own_cost t"
    by (auto intro!: sum_list_nonneg own_cost_nonneg simp: own_work_def split: jtree.split)
  let ?st1 = "(enter p st)\<lparr>work := work st + own_work t, scalarBytes := scalarBytes st + own_cost t\<rparr>"
  have op: "open_container (?h p) (enter p st) = Some (tree_keys t, child_vals t p, ?st1)"
    unfolding ob using inv room nn strict cont split
    by (subst open_tree) (auto simp: enter_def room_def snap_inv_def bytes_ok_def)
  let ?st2 = "?st1\<lparr>snapshots := (snapshots ?st1)(p \<mapsto> build (obj_array (?h p)) [] [])\<rparr>"
  have inv2: "snap_inv ?h ?st2"
    using inv room nn split by (auto simp: snap_inv_def enter_def bytes_ok_def room_def cached_def)
  have cs: "child_vals t p = map (\<lambda>it. Some (tree_val (snd it) (p @ [fst it]))) ?its"
    by (rule nth_equalityI) (simp_all add: child_vals_def nth_enumerate_eq)
  have kid: "placed T p (d + 1) it \<and> untouched (p @ [fst it]) ?st2" if mem: "it \<in> set ?its" for it
  proof -
    obtain i u where it: "it = (i, u)" "i < length (subtrees t)" "u = subtrees t ! i"
      using mem by (intro that [of "fst it" "snd it"]) (simp_all add: in_set_enumerate_eq)
    have u: "u \<in> set (subtrees t)" using it by simp
    have "strict_tree u" using strict u by (cases t) (auto simp: list_all_iff)
    moreover have "subtree_at T (p @ [i]) = u" using it by (simp add: subtree_at_append at)
    moreover have "d + 1 + tree_height u \<le> MAX_PROJECT_CHAT_SNAPSHOT_DEPTH"
      using tree_height_child [OF u] room by (simp add: room_def)
    moreover have "untouched (p @ [i]) ?st2" using fresh by (simp add: untouched_def enter_def)
    ultimately show ?thesis using kids u by (simp add: placed_def it(1))
  qed
  have room2: "room (d + 1) (total tree_cost ?its) (total tree_nodes ?its) (total tree_work ?its) ?st2
      \<or> subtrees t = []"
    using room split nn tree_height_child [of "hd (subtrees t)" t]
    by (cases "subtrees t") (auto simp: room_def enter_def)
  have "\<exists>ts ht' st'. visit_children ?h (child_vals t p) (d + 1) 0 ?st2 = Some (ts, ht', st') \<and>
      spent {p @ i # q | i q. i \<in> fst ` set ?its} (total tree_nodes ?its) (total tree_work ?its) ?st2 st'"
  proof (cases "subtrees t = []")
    case True
    then show ?thesis unfolding cs by (simp add: spent_def)
  next
    case False
    with room2 show ?thesis unfolding cs
      by (intro children_accepted ballI kid inv2) simp_all
  qed
  then obtain ts ht st3 where
    rest: "visit_children ?h (child_vals t p) (d + 1) 0 ?st2 = Some (ts, ht, st3)"
    and sp: "spent {p @ i # q | i q. i \<in> fst ` set ?its} (total tree_nodes ?its) (total tree_work ?its) ?st2 st3"
    by blast
  have "snapshots st p = None" "p \<notin> set (active st)" using fresh by (auto simp: untouched_def dest: spec [of _ "[]"])
  moreover have "nodes st < MAX_PROJECT_CHAT_SNAPSHOT_NODES" "d \<le> MAX_PROJECT_CHAT_SNAPSHOT_DEPTH"
    using room split by (auto simp: room_def)
  ultimately have "visit ?h (tree_val t p) d st =
      Some (build (obj_array (?h p)) (tree_keys t) ts, leave p (build (obj_array (?h p)) (tree_keys t) ts) (scalarBytes st) ht st3)"
    using op rest by (simp add: val visit.simps)
  moreover have "spent (below p) (tree_nodes t) (tree_work t) st
      (leave p (build (obj_array (?h p)) (tree_keys t) ts) (scalarBytes st) ht st3)"
    using sp split by (auto simp: spent_def leave_def enter_def)
  ultimately show "\<exists>u st'. visit ?h (tree_val t p) d st = Some (u, st') \<and>
      spent (below p) (tree_nodes t) (tree_work t) st st'" by blast
qed


lemma prim_accepted: "accepts T (TPrim v)"
  unfolding accepts_def
proof (intro allI impI)
  fix p d st
  assume inv: "snap_inv (tree_heap T) st"
    and room: "room (d + tree_height (TPrim v)) (tree_cost (TPrim v)) (tree_nodes (TPrim v)) (tree_work (TPrim v)) st"
  have "safe_int (MAX_PROJECT_CHAT_SNAPSHOT_SCALAR_BYTES - scalarBytes st)"
    using inv by (simp add: snap_inv_def bytes_ok_safe)
  with room have "consumeScalar s st = Some (st\<lparr>scalarBytes := scalarBytes st + int (utf8_length s)\<rparr>)" if "v = PStr s" for s
    using that by (simp add: consumeScalar_Some room_def)
  with room show "\<exists>u st'. visit (tree_heap T) (tree_val (TPrim v) p) d st = Some (u, st') \<and>
      spent (below p) (tree_nodes (TPrim v)) (tree_work (TPrim v)) st st'"
    by (cases v) (simp_all add: tree_val_def visit.simps room_def spent_def)
qed

lemma tree_accepted: "strict_tree t \<Longrightarrow> accepts T t"
proof (induction t)
  case (TPrim v)
  show ?case by (rule prim_accepted)
next
  case (TArr ts)
  then show ?case by (intro container_accepted) (auto simp: is_container_def list_all_iff)
next
  case (TObj fs)
  then show ?case by (intro container_accepted) (fastforce simp: is_container_def list_all_iff)+
qed

lemma snapshotUntrusted_tree:
  assumes "strict_tree t" and "within_limits t"
  shows "snapshotUntrusted (tree_heap t) (tree_val t []) = Some t"
proof -
  have "room (0 + tree_height t) (tree_cost t) (tree_nodes t) (tree_work t) empty_snap"
    using assms(2) by (simp add: room_def within_limits_def empty_snap_def)
  moreover have "untouched [] empty_snap" by (simp add: untouched_def empty_snap_def)
  ultimately show ?thesis
    using acceptsD [OF tree_accepted, of t t "[]" empty_snap 0] assms(1) snap_inv_empty
    by (auto simp: snapshotUntrusted_def)
qed

text \<open>A snapshot of a fresh tree is the tree, whatever the limits say.\<close>

lemma snapshotUntrusted_tree_eq:
  assumes "strict_tree t" and "snapshotUntrusted (tree_heap t) (tree_val t []) = Some u"
  shows "u = t"
  using snapshotUntrusted_unfolds [OF assms(2)] unfolds_tree_heap [of t "[]" t] assms(1) unfolds_unique
  by simp

text \<open>
  C29: plain data is copied faithfully: a tree without repeated keys that keeps the four limits
  (64 edges deep, 8 MiB of text, 10,000 containers, 100,000 keys) is accepted and returned
  unchanged; and no tree is ever returned changed.
\<close>

theorem snapshotUntrusted_complete:
  assumes "strict_tree t"
  shows "(within_limits t \<longrightarrow> snapshotUntrusted (tree_heap t) (tree_val t []) = Some t) \<and>
         snapshotUntrusted (tree_heap t) (tree_val t []) \<in> {None, Some t}"
  using snapshotUntrusted_tree [OF assms] snapshotUntrusted_tree_eq [OF assms]
  by (cases "snapshotUntrusted (tree_heap t) (tree_val t [])") auto

theorem snapshotUntrusted_complete_witness:
  "snapshotUntrusted (tree_heap (TArr [TBool True])) (tree_val (TArr [TBool True]) []) = Some (TArr [TBool True])"
proof -
  have "strict_tree (TArr [TBool True])" by simp
  moreover have "within_limits (TArr [TBool True])"
    by (simp add: within_limits_def snapshot_limits nat_digits.simps utf8_length_def utf8_encode_def utf8_cp_def)
  ultimately show ?thesis using snapshotUntrusted_complete [of "TArr [TBool True]"] by blast
qed

theorem snapshotUntrusted_sound_witness:
  "unfolds (tree_heap (TArr [])) (Ref []) (TArr []) \<and> tree_cost (TArr []) \<le> MAX_PROJECT_CHAT_SNAPSHOT_SCALAR_BYTES"
proof -
  have "snapshotUntrusted (tree_heap (TArr [])) (tree_val (TArr []) []) = Some (TArr [])"
    by (rule snapshotUntrusted_tree) (simp_all add: within_limits_def snapshot_limits)
  from snapshotUntrusted_sound [OF this] show ?thesis by (simp add: tree_val_def)
qed

end
