(* ===== verification/Project_Contract.thy ===== *)
theory Project_Contract
  imports Strict_Snapshot
begin

text \<open>
  The project and chat data of \<open>src/app/src/domain/projectChats/contract.ts\<close>: one record per
  interface, one datatype per union of literals, and the commands. A project's \<open>kind\<close> and its
  \<open>root\<close> are one field, since their types tie them together. \<open>schemaVersion\<close> has one possible
  value and is written out where a state becomes a value.

  The \<open>encode\<close> functions give the JavaScript value of a state as a tree, fields in the order of
  the source's literals. \<open>wf_state\<close> is the meaning of a valid state: unique identifiers, every
  chat owned by its project, one personal project, selections that point to active entries.
\<close>

section \<open>Data\<close>

definition PROJECT_CHAT_SCHEMA_VERSION :: int where
  "PROJECT_CHAT_SCHEMA_VERSION = 2"

definition PERSONAL_PROJECT_ID :: jsstr where
  "PERSONAL_PROJECT_ID = js ''project:personal''"

record PrimeChatBinding =
  accountId :: "jsstr option"
  sessionId :: jsstr
  sessionFile :: jsstr
  agentId :: "jsstr option"

record ProjectChat =
  chat_id :: jsstr
  chat_projectId :: jsstr
  title :: jsstr
  chat_pinned :: bool
  chat_archived :: bool
  binding :: "PrimeChatBinding option"

text \<open>A personal project has the root \<open>studio-managed-empty\<close>, a folder project has a path.\<close>

datatype project_kind = PersonalKind | FolderKind (folder_path: jsstr)

record Project =
  project_id :: jsstr
  kind :: project_kind
  project_name :: jsstr
  project_pinned :: bool
  project_archived :: bool
  selectedChatId :: "jsstr option"
  chats :: "ProjectChat list"

record ProjectChatState =
  selectedProjectId :: jsstr
  projects :: "Project list"

datatype ProjectChatCommand =
    ProjectCreate jsstr jsstr jsstr
  | ChatCreate jsstr jsstr jsstr
  | ChatBindPrimeSession jsstr jsstr PrimeChatBinding
  | ProjectRename jsstr jsstr
  | ProjectArchive jsstr
  | ProjectRestore jsstr
  | ProjectSetPinned jsstr bool
  | ChatRename jsstr jsstr jsstr
  | ChatArchive jsstr jsstr
  | ChatRestore jsstr jsstr
  | ChatSetPinned jsstr jsstr bool
  | ChatDuplicate jsstr jsstr jsstr jsstr
  | ChatMove jsstr jsstr jsstr
  | ChatDelete jsstr jsstr
  | SelectProject jsstr
  | SelectChat jsstr jsstr

datatype ProjectChatRejectionReason =
    InvalidCommand | InvalidId | InvalidName | InvalidFolderPath | InvalidBinding
  | DuplicateProjectId | DuplicateChatId | ProjectNotFound | ProjectArchived | ChatNotFound
  | ChatProjectMismatch | ChatArchived | ChatAlreadyBound | SessionAlreadyBound
  | StateLimitExceeded | PersonalProjectImmutable

datatype ProjectChatUnchangedReason =
    AlreadySelected | SameName | AlreadyArchived | AlreadyRestored | AlreadyPinned
  | AlreadyUnpinned | SameBinding

datatype ProjectChatSelection = Resolved jsstr "jsstr option" | Unavailable

datatype ProjectChatTransitionResult =
    Applied (result_state: ProjectChatState) (result_selection: ProjectChatSelection)
  | Unchanged (result_state: ProjectChatState) ProjectChatUnchangedReason
      (result_selection: ProjectChatSelection)
  | Rejected (result_state: ProjectChatState) ProjectChatRejectionReason
      (result_selection: ProjectChatSelection)


section \<open>States as values\<close>

definition encode_nullable :: "jsstr option \<Rightarrow> jtree" where
  "encode_nullable x = (case x of None \<Rightarrow> TNull | Some s \<Rightarrow> TStr s)"

definition encode_binding :: "PrimeChatBinding option \<Rightarrow> jtree" where
  "encode_binding b =
     (case b of
        None \<Rightarrow> TNull
      | Some b \<Rightarrow> jobj
          [(''kind'', TStr (js ''prime-session'')), (''accountId'', encode_nullable (accountId b)),
           (''sessionId'', TStr (sessionId b)), (''sessionFile'', TStr (sessionFile b)),
           (''agentId'', encode_nullable (agentId b))])"

definition encode_chat :: "ProjectChat \<Rightarrow> jtree" where
  "encode_chat c = jobj
     [(''id'', TStr (chat_id c)), (''projectId'', TStr (chat_projectId c)), (''title'', TStr (title c)),
      (''pinned'', TBool (chat_pinned c)), (''archived'', TBool (chat_archived c)),
      (''binding'', encode_binding (binding c))]"

definition encode_project :: "Project \<Rightarrow> jtree" where
  "encode_project p = jobj
     [(''id'', TStr (project_id p)),
      (''kind'', TStr (js (case kind p of PersonalKind \<Rightarrow> ''personal'' | FolderKind _ \<Rightarrow> ''folder''))),
      (''name'', TStr (project_name p)),
      (''root'', jobj (case kind p of
         PersonalKind \<Rightarrow> [(''kind'', TStr (js ''studio-managed-empty''))]
       | FolderKind path \<Rightarrow> [(''kind'', TStr (js ''folder'')), (''path'', TStr path)])),
      (''pinned'', TBool (project_pinned p)), (''archived'', TBool (project_archived p)),
      (''selectedChatId'', encode_nullable (selectedChatId p)),
      (''chats'', TArr (map encode_chat (chats p)))]"

definition encode_state :: "ProjectChatState \<Rightarrow> jtree" where
  "encode_state s = jobj
     [(''schemaVersion'', TInt PROJECT_CHAT_SCHEMA_VERSION),
      (''selectedProjectId'', TStr (selectedProjectId s)),
      (''projects'', TArr (map encode_project (projects s)))]"


section \<open>Valid states\<close>

definition validFolderPath :: "jsstr \<Rightarrow> bool" where
  "validFolderPath path \<longleftrightarrow> length (js_trim path) > 0 \<and> 0 \<notin> set path"

definition wf_binding :: "PrimeChatBinding \<Rightarrow> bool" where
  "wf_binding b \<longleftrightarrow>
     (\<forall>a. accountId b = Some a \<longrightarrow> isProjectChatId a) \<and> isProjectChatId (sessionId b) \<and>
     isPrimeSessionFile (sessionFile b) \<and> (\<forall>a. agentId b = Some a \<longrightarrow> isProjectChatId a)"

definition wf_chat :: "jsstr \<Rightarrow> ProjectChat \<Rightarrow> bool" where
  "wf_chat owner c \<longleftrightarrow>
     isProjectChatId (chat_id c) \<and> chat_projectId c = owner \<and> isProjectChatLabel (title c) \<and>
     (\<forall>b. binding c = Some b \<longrightarrow> wf_binding b)"

definition wf_kind :: "Project \<Rightarrow> bool" where
  "wf_kind p \<longleftrightarrow>
     (case kind p of
        PersonalKind \<Rightarrow> project_id p = PERSONAL_PROJECT_ID \<and> project_name p = js ''Personal'' \<and>
          \<not> project_archived p
      | FolderKind path \<Rightarrow> project_id p \<noteq> PERSONAL_PROJECT_ID \<and> validFolderPath path)"

text \<open>The remembered chat of a project is one of its chats and is not archived.\<close>

definition wf_selected :: "Project \<Rightarrow> bool" where
  "wf_selected p \<longleftrightarrow>
     (\<forall>i. selectedChatId p = Some i \<longrightarrow> (\<exists>c \<in> set (chats p). chat_id c = i \<and> \<not> chat_archived c))"

definition wf_project :: "Project \<Rightarrow> bool" where
  "wf_project p \<longleftrightarrow>
     isProjectChatId (project_id p) \<and> isProjectChatLabel (project_name p) \<and> wf_kind p \<and>
     (\<forall>c \<in> set (chats p). wf_chat (project_id p) c) \<and> wf_selected p"

definition chat_ids :: "Project list \<Rightarrow> jsstr list" where
  "chat_ids ps = concat (map (\<lambda>p. map chat_id (chats p)) ps)"

definition wf_state :: "ProjectChatState \<Rightarrow> bool" where
  "wf_state s \<longleftrightarrow>
     (\<forall>p \<in> set (projects s). wf_project p) \<and>
     distinct (map project_id (projects s)) \<and> distinct (chat_ids (projects s)) \<and>
     PERSONAL_PROJECT_ID \<in> project_id ` set (projects s) \<and>
     (\<exists>p \<in> set (projects s). project_id p = selectedProjectId s \<and> \<not> project_archived p)"

lemma wf_stateD:
  assumes "wf_state s"
  shows "p \<in> set (projects s) \<Longrightarrow> wf_project p"
    and "distinct (map project_id (projects s))" and "distinct (chat_ids (projects s))"
  using assms by (auto simp: wf_state_def)

lemma chat_ids_simps [simp]:
  "chat_ids [] = []" "chat_ids (p # ps) = map chat_id (chats p) @ chat_ids ps"
  "chat_ids (ps @ qs) = chat_ids ps @ chat_ids qs"
  by (simp_all add: chat_ids_def)

lemma set_chat_ids: "set (chat_ids ps) = (\<Union>p \<in> set ps. chat_id ` set (chats p))"
  by (auto simp: chat_ids_def)

text \<open>Encoded states have no repeated key, and print as JSON.\<close>

lemma strict_encode_state: "strict_tree (encode_state s)"
  by (auto simp: encode_state_def encode_project_def encode_chat_def encode_binding_def
      encode_nullable_def list_all_iff split: option.split project_kind.split)

end
