(* ===== verification/Serialization.thy ===== *)
theory Serialization
  imports Project_Contract
begin

text \<open>
  Decoding, saving and loading of \<open>src/app/src/domain/projectChats/serialization.ts\<close>. Decoders
  work on the tree a strict snapshot returns; \<open>None\<close> is \<open>undefined\<close>. The identifier sets the
  decoders add to are passed along. A migration is a function from the snapshot to an
  arbitrary value in a store, or \<open>None\<close> when it throws.

  Shown: the decoder accepts the encoding of exactly the valid states and every state it returns
  is valid; saving followed by loading returns the state; loading ends and rejects or returns
  a valid state whatever the text and the migrations; version 1 files are migrated.
\<close>

section \<open>Decoding\<close>

definition MAX_PROJECT_CHAT_MIGRATIONS :: nat where
  "MAX_PROJECT_CHAT_MIGRATIONS = 1024"

type_synonym fields = "(jsstr \<times> jtree) list"

definition hasExactKeys :: "fields \<Rightarrow> string list \<Rightarrow> bool" where
  "hasExactKeys fs keys \<longleftrightarrow> length fs = length keys \<and> list_all (\<lambda>k. k \<in> set (map js keys)) (map fst fs)"

text \<open>\<open>isProjectChatId\<close>, \<open>isProjectChatLabel\<close> and \<open>isPrimeSessionFile\<close> on an unknown value.\<close>

definition id_value :: "jtree \<Rightarrow> bool" where
  "id_value t = (case t of TPrim (PStr s) \<Rightarrow> isProjectChatId s | _ \<Rightarrow> False)"

definition label_value :: "jtree \<Rightarrow> bool" where
  "label_value t = (case t of TPrim (PStr s) \<Rightarrow> isProjectChatLabel s | _ \<Rightarrow> False)"

definition file_value :: "jtree \<Rightarrow> bool" where
  "file_value t = (case t of TPrim (PStr s) \<Rightarrow> isPrimeSessionFile s | _ \<Rightarrow> False)"

definition path_value :: "jtree \<Rightarrow> bool" where
  "path_value t = (case t of TPrim (PStr s) \<Rightarrow> validFolderPath s | _ \<Rightarrow> False)"

definition bool_value :: "jtree \<Rightarrow> bool" where
  "bool_value t = (case t of TPrim (PBool _) \<Rightarrow> True | _ \<Rightarrow> False)"

text \<open>Reading a value whose type has been tested.\<close>

definition the_str :: "jtree \<Rightarrow> jsstr" where
  "the_str t = (case t of TPrim (PStr s) \<Rightarrow> s | _ \<Rightarrow> [])"

definition the_bool :: "jtree \<Rightarrow> bool" where
  "the_bool t = (case t of TPrim (PBool b) \<Rightarrow> b | _ \<Rightarrow> False)"

definition nullable_str :: "jtree \<Rightarrow> jsstr option" where
  "nullable_str t = (case t of TPrim (PStr s) \<Rightarrow> Some s | _ \<Rightarrow> None)"

definition decodePrimeChatBinding :: "jtree \<Rightarrow> PrimeChatBinding option option" where
  "decodePrimeChatBinding v =
     (if v = TNull then Some None
      else case v of
        TObj fs \<Rightarrow>
          if \<not> hasExactKeys fs [''kind'', ''accountId'', ''sessionId'', ''sessionFile'', ''agentId''] \<or>
             field fs ''kind'' \<noteq> TStr (js ''prime-session'') \<or>
             (field fs ''accountId'' \<noteq> TNull \<and> \<not> id_value (field fs ''accountId'')) \<or>
             \<not> id_value (field fs ''sessionId'') \<or>
             \<not> file_value (field fs ''sessionFile'') \<or>
             (field fs ''agentId'' \<noteq> TNull \<and> \<not> id_value (field fs ''agentId''))
          then None
          else Some (Some \<lparr>accountId = nullable_str (field fs ''accountId''),
            sessionId = the_str (field fs ''sessionId''),
            sessionFile = the_str (field fs ''sessionFile''),
            agentId = nullable_str (field fs ''agentId'')\<rparr>)
      | _ \<Rightarrow> None)"

definition decodeChat :: "jtree \<Rightarrow> jsstr \<Rightarrow> jsstr list \<Rightarrow> (ProjectChat \<times> jsstr list) option" where
  "decodeChat v ownerId knownChatIds =
     (case v of
        TObj fs \<Rightarrow>
          if \<not> hasExactKeys fs [''id'', ''projectId'', ''title'', ''pinned'', ''archived'', ''binding''] \<or>
             \<not> id_value (field fs ''id'') \<or>
             field fs ''projectId'' \<noteq> TStr ownerId \<or>
             \<not> label_value (field fs ''title'') \<or>
             \<not> bool_value (field fs ''pinned'') \<or>
             \<not> bool_value (field fs ''archived'') \<or>
             the_str (field fs ''id'') \<in> set knownChatIds
          then None
          else (case decodePrimeChatBinding (field fs ''binding'') of
            None \<Rightarrow> None
          | Some b \<Rightarrow> Some
              (\<lparr>chat_id = the_str (field fs ''id''), chat_projectId = ownerId,
                title = the_str (field fs ''title''), chat_pinned = the_bool (field fs ''pinned''),
                chat_archived = the_bool (field fs ''archived''), binding = b\<rparr>,
               the_str (field fs ''id'') # knownChatIds))
      | _ \<Rightarrow> None)"

fun decode_chats :: "jtree list \<Rightarrow> jsstr \<Rightarrow> jsstr list \<Rightarrow> (ProjectChat list \<times> jsstr list) option" where
  "decode_chats [] ownerId known = Some ([], known)"
| "decode_chats (v # vs) ownerId known =
     (case decodeChat v ownerId known of
        None \<Rightarrow> None
      | Some (chat, known') \<Rightarrow>
          map_option (\<lambda>(cs, known''). (chat # cs, known'')) (decode_chats vs ownerId known'))"

text \<open>The \<open>kind\<close> and \<open>root\<close> tests of \<open>decodeProject\<close>; \<open>None\<close> is the early return.\<close>

definition decode_kind :: "fields \<Rightarrow> project_kind option" where
  "decode_kind fs =
     (if field fs ''kind'' = TStr (js ''personal'') then
        (if field fs ''id'' \<noteq> TStr PERSONAL_PROJECT_ID \<or> field fs ''name'' \<noteq> TStr (js ''Personal'') \<or>
            field fs ''archived'' \<noteq> TBool False then None
         else case field fs ''root'' of
           TObj r \<Rightarrow> if \<not> hasExactKeys r [''kind''] \<or> field r ''kind'' \<noteq> TStr (js ''studio-managed-empty'')
             then None else Some PersonalKind
         | _ \<Rightarrow> None)
      else if field fs ''kind'' = TStr (js ''folder'') then
        (if field fs ''id'' = TStr PERSONAL_PROJECT_ID then None
         else case field fs ''root'' of
           TObj r \<Rightarrow> if \<not> hasExactKeys r [''kind'', ''path''] \<or> field r ''kind'' \<noteq> TStr (js ''folder'') \<or>
               \<not> path_value (field r ''path'')
             then None else Some (FolderKind (the_str (field r ''path'')))
         | _ \<Rightarrow> None)
      else None)"

definition decodeProject ::
  "jtree \<Rightarrow> jsstr list \<Rightarrow> jsstr list \<Rightarrow> (Project \<times> jsstr list \<times> jsstr list) option" where
  "decodeProject v knownProjectIds knownChatIds =
     (case v of
        TObj fs \<Rightarrow>
          (case field fs ''chats'' of
             TArr vs \<Rightarrow>
               if \<not> hasExactKeys fs [''id'', ''kind'', ''name'', ''root'', ''pinned'', ''archived'',
                     ''selectedChatId'', ''chats''] \<or>
                  \<not> id_value (field fs ''id'') \<or>
                  the_str (field fs ''id'') \<in> set knownProjectIds \<or>
                  \<not> label_value (field fs ''name'') \<or>
                  \<not> bool_value (field fs ''pinned'') \<or>
                  \<not> bool_value (field fs ''archived'') \<or>
                  (field fs ''selectedChatId'' \<noteq> TNull \<and> \<not> id_value (field fs ''selectedChatId''))
               then None
               else (case decode_kind fs of
                 None \<Rightarrow> None
               | Some k \<Rightarrow>
                   (case decode_chats vs (the_str (field fs ''id'')) knownChatIds of
                      None \<Rightarrow> None
                    | Some (cs, knownChatIds') \<Rightarrow>
                        let selected = nullable_str (field fs ''selectedChatId'');
                            selectedChat = (case selected of
                              None \<Rightarrow> None
                            | Some i \<Rightarrow> find (\<lambda>c. chat_id c = i) cs)
                        in if selected \<noteq> None \<and> (case selectedChat of None \<Rightarrow> True | Some c \<Rightarrow> chat_archived c)
                           then None
                           else Some
                             (\<lparr>project_id = the_str (field fs ''id''), kind = k,
                               project_name = the_str (field fs ''name''),
                               project_pinned = the_bool (field fs ''pinned''),
                               project_archived = the_bool (field fs ''archived''),
                               selectedChatId = selected, chats = cs\<rparr>,
                              the_str (field fs ''id'') # knownProjectIds, knownChatIds')))
           | _ \<Rightarrow> None)
      | _ \<Rightarrow> None)"

fun decode_projects :: "jtree list \<Rightarrow> jsstr list \<Rightarrow> jsstr list \<Rightarrow> Project list option" where
  "decode_projects [] pids cids = Some []"
| "decode_projects (v # vs) pids cids =
     (case decodeProject v pids cids of
        None \<Rightarrow> None
      | Some (p, pids', cids') \<Rightarrow> map_option ((#) p) (decode_projects vs pids' cids'))"

definition decodeCurrentState :: "jtree \<Rightarrow> ProjectChatState option" where
  "decodeCurrentState v =
     (case v of
        TObj fs \<Rightarrow>
          (case field fs ''projects'' of
             TArr vs \<Rightarrow>
               if \<not> hasExactKeys fs [''schemaVersion'', ''selectedProjectId'', ''projects''] \<or>
                  field fs ''schemaVersion'' \<noteq> TInt PROJECT_CHAT_SCHEMA_VERSION \<or>
                  \<not> id_value (field fs ''selectedProjectId'')
               then None
               else (case decode_projects vs [] [] of
                 None \<Rightarrow> None
               | Some ps \<Rightarrow>
                   let personalProjects =
                         filter (\<lambda>p. project_id p = PERSONAL_PROJECT_ID \<and> kind p = PersonalKind) ps;
                       selected = the_str (field fs ''selectedProjectId'');
                       selectedProject = find (\<lambda>p. project_id p = selected) ps
                   in if length personalProjects \<noteq> 1 \<or>
                         (case selectedProject of None \<Rightarrow> True | Some p \<Rightarrow> project_archived p)
                      then None
                      else Some \<lparr>selectedProjectId = selected, projects = ps\<rparr>)
           | _ \<Rightarrow> None)
      | _ \<Rightarrow> None)"



section \<open>Saving\<close>

datatype ProjectChatSerializationResult = Serialized (json: jsstr) | SerializationRejected

definition serializeProjectChatState :: "heap \<Rightarrow> jsval \<Rightarrow> ProjectChatSerializationResult" where
  "serializeProjectChatState h value =
     (case snapshotUntrusted h value of
        None \<Rightarrow> SerializationRejected
      | Some snapshot \<Rightarrow>
          (case decodeCurrentState snapshot of
             None \<Rightarrow> SerializationRejected
           | Some state \<Rightarrow>
               (case json_stringify (encode_state state) of
                  None \<Rightarrow> SerializationRejected
                | Some text \<Rightarrow>
                    if utf8ByteLengthWithin text MAX_PROJECT_CHAT_JSON_BYTES \<noteq> None
                    then Serialized text else SerializationRejected)))"

text \<open>A state of the program as the argument: its own objects, none of them shared.\<close>

abbreviation serialize_state :: "ProjectChatState \<Rightarrow> ProjectChatSerializationResult" where
  "serialize_state s \<equiv> serializeProjectChatState (tree_heap (encode_state s)) (tree_val (encode_state s) [])"


section \<open>Loading\<close>

definition snapshotVersion :: "jtree \<Rightarrow> int option" where
  "snapshotVersion v =
     (case v of
        TObj fs \<Rightarrow>
          (case field fs ''schemaVersion'' of
             TPrim (PNum n) \<Rightarrow>
               (case as_integer n of
                  Some version \<Rightarrow> if version \<ge> 0 then Some version else None
                | None \<Rightarrow> None)
           | _ \<Rightarrow> None)
      | _ \<Rightarrow> None)"

definition V1_STATE_KEYS :: "string list" where
  "V1_STATE_KEYS = [''schemaVersion'', ''selectedProjectId'', ''projects'']"
definition V1_PROJECT_KEYS :: "string list" where
  "V1_PROJECT_KEYS = [''id'', ''kind'', ''name'', ''root'', ''pinned'', ''archived'', ''selectedChatId'', ''chats'']"
definition V1_CHAT_KEYS :: "string list" where
  "V1_CHAT_KEYS = [''id'', ''projectId'', ''title'', ''pinned'', ''archived'']"

definition invalidMigratedState :: jtree where
  "invalidMigratedState = jobj
     [(''schemaVersion'', TInt PROJECT_CHAT_SCHEMA_VERSION), (''selectedProjectId'', TStr []), (''projects'', TArr [])]"

definition migrate_chat :: "jtree \<Rightarrow> jtree option" where
  "migrate_chat v =
     (case v of
        TObj fs \<Rightarrow> if \<not> hasExactKeys fs V1_CHAT_KEYS then None else Some (TObj (put_member (js ''binding'') TNull fs))
      | _ \<Rightarrow> None)"

definition migrate_project :: "jtree \<Rightarrow> jtree option" where
  "migrate_project v =
     (case v of
        TObj fs \<Rightarrow>
          (case field fs ''chats'' of
             TArr cs \<Rightarrow>
               if \<not> hasExactKeys fs V1_PROJECT_KEYS then None
               else map_option (\<lambda>cs'. TObj (put_member (js ''chats'') (TArr cs') fs)) (those (map migrate_chat cs))
           | _ \<Rightarrow> None)
      | _ \<Rightarrow> None)"

definition migrateSchemaV1ToV2 :: "jtree \<Rightarrow> jtree" where
  "migrateSchemaV1ToV2 snapshot =
     (case snapshot of
        TObj fs \<Rightarrow>
          (case field fs ''projects'' of
             TArr ps \<Rightarrow>
               if field fs ''schemaVersion'' \<noteq> TInt 1 \<or> \<not> hasExactKeys fs V1_STATE_KEYS
               then invalidMigratedState
               else (case those (map migrate_project ps) of
                 None \<Rightarrow> invalidMigratedState
               | Some ps' \<Rightarrow> TObj (put_member (js ''projects'') (TArr ps')
                   (put_member (js ''schemaVersion'') (TInt PROJECT_CHAT_SCHEMA_VERSION) fs)))
           | _ \<Rightarrow> invalidMigratedState)
      | _ \<Rightarrow> invalidMigratedState)"

text \<open>
  A caller's migration: two numbers, and a function from the snapshot to a value in a store,
  \<open>None\<close> when it throws; no function at all is the outer \<open>None\<close>. An entry of the list that is not an
  object is \<open>None\<close>.
\<close>

type_synonym migrate_fun = "jtree \<Rightarrow> (heap \<times> jsval) option"

record ProjectChatMigration =
  fromVersion :: jsval
  toVersion :: jsval
  migrate :: "migrate_fun option"

type_synonym migration_map = "int \<rightharpoonup> jsnum \<times> migrate_fun"

definition builtin_migrations :: migration_map where
  "builtin_migrations =
     [1 \<mapsto> (num_int 2, \<lambda>t. let u = migrateSchemaV1ToV2 t in Some (tree_heap u, tree_val u []))]"

fun migrationMap_loop :: "ProjectChatMigration option list \<Rightarrow> migration_map \<Rightarrow> migration_map option" where
  "migrationMap_loop [] byVersion = Some byVersion"
| "migrationMap_loop (None # ms) byVersion = None"
| "migrationMap_loop (Some m # ms) byVersion =
     (case (fromVersion m, toVersion m, migrate m) of
        (Prim (PNum f), Prim (PNum t), Some g) \<Rightarrow>
          (case as_integer f of
             None \<Rightarrow> None
           | Some i \<Rightarrow>
               if i < 0 \<or> t \<noteq> to_double (of_int (i + 1)) \<or> byVersion i \<noteq> None then None
               else migrationMap_loop ms (byVersion(i \<mapsto> (t, g))))
      | _ \<Rightarrow> None)"

definition migrationMap :: "ProjectChatMigration option list \<Rightarrow> migration_map option" where
  "migrationMap migrations =
     (if length migrations > MAX_PROJECT_CHAT_MIGRATIONS then None
      else migrationMap_loop migrations builtin_migrations)"

datatype ProjectChatLoadRejectionReason =
    InvalidJson | InvalidSnapshot | UnsupportedVersion | MigrationMissing | MigrationInvalid
  | MigrationFailed | InvalidState

datatype ProjectChatLoadResult =
    Loaded ProjectChatState
  | Migrated int ProjectChatState
  | LoadRejected ProjectChatLoadRejectionReason "int option"

text \<open>
  The loop of \<open>deserializeProjectChatState\<close>: each turn moves the version up by one, so the two turns
  it is given are enough (\<open>migration_loop_enough\<close>); \<open>None\<close> would be a third turn.
\<close>

fun migration_loop ::
  "nat \<Rightarrow> migration_map \<Rightarrow> int \<Rightarrow> jtree \<Rightarrow> (ProjectChatLoadResult + jtree) option" where
  "migration_loop fuel byVersion currentVersion snapshot =
     (if currentVersion \<ge> PROJECT_CHAT_SCHEMA_VERSION then Some (Inr snapshot)
      else case fuel of
        0 \<Rightarrow> None
      | Suc fuel' \<Rightarrow>
          (case byVersion currentVersion of
             None \<Rightarrow> Some (Inl (LoadRejected MigrationMissing (Some currentVersion)))
           | Some (to, run) \<Rightarrow>
               (case run snapshot of
                  None \<Rightarrow> Some (Inl (LoadRejected MigrationFailed (Some currentVersion)))
                | Some (h, migrated) \<Rightarrow>
                    (case snapshotUntrusted h migrated of
                       None \<Rightarrow> Some (Inl (LoadRejected MigrationFailed (Some currentVersion)))
                     | Some snapshot' \<Rightarrow>
                         (case snapshotVersion snapshot' of
                            None \<Rightarrow> Some (Inl (LoadRejected MigrationFailed (Some currentVersion)))
                          | Some version \<Rightarrow>
                              if num_int version \<noteq> to
                              then Some (Inl (LoadRejected MigrationFailed (Some currentVersion)))
                              else migration_loop fuel' byVersion version snapshot')))))"

declare migration_loop.simps [simp del]

definition finish_load :: "int \<Rightarrow> jtree \<Rightarrow> ProjectChatLoadResult" where
  "finish_load startVersion snapshot =
     (case decodeCurrentState snapshot of
        None \<Rightarrow> LoadRejected InvalidState None
      | Some state \<Rightarrow>
          if startVersion = PROJECT_CHAT_SCHEMA_VERSION then Loaded state else Migrated startVersion state)"

definition deserializeProjectChatState ::
  "jsstr \<Rightarrow> ProjectChatMigration option list \<Rightarrow> ProjectChatLoadResult" where
  "deserializeProjectChatState serialized migrations =
     (if \<not> hasStrictJsonObjectKeys serialized then LoadRejected InvalidJson None
      else case json_parse serialized of
        None \<Rightarrow> LoadRejected InvalidJson None
      | Some parsed \<Rightarrow>
          (case snapshotUntrusted (tree_heap parsed) (tree_val parsed []) of
             None \<Rightarrow> LoadRejected InvalidSnapshot None
           | Some snapshot \<Rightarrow>
               (case snapshotVersion snapshot of
                  None \<Rightarrow> LoadRejected InvalidSnapshot None
                | Some version \<Rightarrow>
                    if version > PROJECT_CHAT_SCHEMA_VERSION
                    then LoadRejected UnsupportedVersion (Some version)
                    else if version < PROJECT_CHAT_SCHEMA_VERSION then
                      (case migrationMap migrations of
                         None \<Rightarrow> LoadRejected MigrationInvalid (Some version)
                       | Some byVersion \<Rightarrow>
                           (case migration_loop 2 byVersion version snapshot of
                              None \<Rightarrow> LoadRejected InvalidSnapshot None
                            | Some (Inl failed) \<Rightarrow> failed
                            | Some (Inr snapshot') \<Rightarrow> finish_load version snapshot'))
                    else finish_load version snapshot)))"


section \<open>The decoder returns valid states\<close>

lemmas value_defs = id_value_def label_value_def file_value_def path_value_def bool_value_def
  the_str_def the_bool_def nullable_str_def

lemma id_valueD: "id_value t \<Longrightarrow> \<exists>s. t = TStr s \<and> isProjectChatId s"
  and label_valueD: "label_value t \<Longrightarrow> \<exists>s. t = TStr s \<and> isProjectChatLabel s"
  and file_valueD: "file_value t \<Longrightarrow> \<exists>s. t = TStr s \<and> isPrimeSessionFile s"
  and path_valueD: "path_value t \<Longrightarrow> \<exists>s. t = TStr s \<and> validFolderPath s"
  and bool_valueD: "bool_value t \<Longrightarrow> \<exists>b. t = TBool b"
  by (auto simp: value_defs split: jtree.splits jsprim.splits)

lemma the_str_id: "id_value t \<Longrightarrow> isProjectChatId (the_str t)"
  by (auto dest!: id_valueD simp: the_str_def)

lemma the_str_label: "label_value t \<Longrightarrow> isProjectChatLabel (the_str t)"
  by (auto dest!: label_valueD simp: the_str_def)

lemma the_str_file: "file_value t \<Longrightarrow> isPrimeSessionFile (the_str t)"
  by (auto dest!: file_valueD simp: the_str_def)

lemma the_str_path: "path_value t \<Longrightarrow> validFolderPath (the_str t)"
  by (auto dest!: path_valueD simp: the_str_def)

lemma nullable_id: "t = TNull \<or> id_value t \<Longrightarrow> nullable_str t = Some a \<Longrightarrow> isProjectChatId a"
  by (auto dest!: id_valueD simp: nullable_str_def)

lemma decodePrimeChatBinding_sound:
  assumes "decodePrimeChatBinding v = Some (Some b)"
  shows "wf_binding b"
  using assms
  by (auto simp: decodePrimeChatBinding_def wf_binding_def the_str_id the_str_file
      split: jtree.splits if_splits intro: nullable_id)

lemma decodeChat_sound:
  assumes "decodeChat v owner known = Some (c, known')"
  shows "wf_chat owner c \<and> chat_id c \<notin> set known \<and> known' = chat_id c # known"
  using assms
  by (auto simp: decodeChat_def wf_chat_def the_str_id the_str_label
      split: jtree.splits if_splits option.splits intro: decodePrimeChatBinding_sound)

lemma decode_chats_sound:
  "decode_chats vs owner known = Some (cs, known') \<Longrightarrow>
   (\<forall>c \<in> set cs. wf_chat owner c) \<and> distinct (map chat_id cs) \<and>
   chat_id ` set cs \<inter> set known = {} \<and> set known' = chat_id ` set cs \<union> set known"
proof (induction vs owner known arbitrary: cs known' rule: decode_chats.induct)
  case (2 v vs owner known)
  from 2(2) obtain c k1 cs' where c: "decodeChat v owner known = Some (c, k1)"
    and rest: "decode_chats vs owner k1 = Some (cs', known')" and cs: "cs = c # cs'"
    by (auto split: option.splits)
  from 2(1) [OF c refl rest] decodeChat_sound [OF c] show ?case by (auto simp: cs)
qed simp

lemma decode_kind_sound:
  assumes "decode_kind fs = Some k" and "id_value (field fs ''id'')"
  shows "wf_kind \<lparr>project_id = the_str (field fs ''id''), kind = k,
    project_name = the_str (field fs ''name''), project_pinned = b,
    project_archived = the_bool (field fs ''archived''), selectedChatId = i, chats = cs\<rparr>"
  using assms id_valueD [OF assms(2)]
  by (auto simp: decode_kind_def wf_kind_def the_str_path the_str_def [of "TStr _"] the_bool_def
      split: if_splits jtree.splits)

text \<open>The outcome of a project that passed every test.\<close>

lemma decodeProject_sound:
  assumes "decodeProject v pids cids = Some (p, pids', cids')"
  shows "wf_project p \<and> project_id p \<notin> set pids \<and> pids' = project_id p # pids \<and>
    distinct (map chat_id (chats p)) \<and> chat_id ` set (chats p) \<inter> set cids = {} \<and>
    set cids' = chat_id ` set (chats p) \<union> set cids"
proof -
  from assms obtain fs where v: "v = TObj fs" by (auto simp: decodeProject_def split: jtree.splits)
  from assms obtain vs where vs: "field fs ''chats'' = TArr vs"
    by (auto simp: decodeProject_def v split: jtree.splits)
  let ?sel = "nullable_str (field fs ''selectedChatId'')"
  from assms obtain k cs where k: "decode_kind fs = Some k"
    and cs: "decode_chats vs (the_str (field fs ''id'')) cids = Some (cs, cids')"
    and ids: "id_value (field fs ''id'')" "the_str (field fs ''id'') \<notin> set pids" "label_value (field fs ''name'')"
    and sel: "\<forall>i. ?sel = Some i \<longrightarrow> (\<exists>c. find (\<lambda>c. chat_id c = i) cs = Some c \<and> \<not> chat_archived c)"
    and p: "p = \<lparr>project_id = the_str (field fs ''id''), kind = k, project_name = the_str (field fs ''name''),
       project_pinned = the_bool (field fs ''pinned''), project_archived = the_bool (field fs ''archived''),
       selectedChatId = ?sel, chats = cs\<rparr>"
    and pids: "pids' = the_str (field fs ''id'') # pids"
    by (auto simp: decodeProject_def v vs Let_def split: if_splits option.splits)
  have "wf_selected p" using sel by (auto simp: wf_selected_def p dest!: find_Some_mem)
  moreover have "wf_kind p" unfolding p by (rule decode_kind_sound [OF k ids(1)])
  ultimately show ?thesis
    using decode_chats_sound [OF cs] ids by (auto simp: wf_project_def p pids the_str_id the_str_label)
qed

lemma decode_projects_sound:
  "decode_projects vs pids cids = Some ps \<Longrightarrow>
   (\<forall>p \<in> set ps. wf_project p) \<and> distinct (map project_id ps) \<and> project_id ` set ps \<inter> set pids = {} \<and>
   distinct (chat_ids ps) \<and> set (chat_ids ps) \<inter> set cids = {}"
proof (induction vs pids cids arbitrary: ps rule: decode_projects.induct)
  case (2 v vs pids cids)
  from 2(2) obtain p pids' cids' ps' where p: "decodeProject v pids cids = Some (p, pids', cids')"
    and rest: "decode_projects vs pids' cids' = Some ps'" and ps: "ps = p # ps'"
    by (auto split: option.splits)
  from 2(1) [OF p refl refl rest] decodeProject_sound [OF p] show ?case by (auto simp: ps)
qed simp

lemma wf_kind_personal: "wf_project p \<Longrightarrow> kind p = PersonalKind \<longleftrightarrow> project_id p = PERSONAL_PROJECT_ID"
  by (auto simp: wf_project_def wf_kind_def split: project_kind.splits)

lemma decodeCurrentState_wf:
  assumes "decodeCurrentState v = Some s"
  shows "wf_state s"
proof -
  from assms obtain fs where v: "v = TObj fs" by (auto simp: decodeCurrentState_def split: jtree.splits)
  from assms obtain vs where vs: "field fs ''projects'' = TArr vs"
    by (auto simp: decodeCurrentState_def v split: jtree.splits)
  let ?sel = "the_str (field fs ''selectedProjectId'')"
  from assms obtain ps p where ps: "decode_projects vs [] [] = Some ps"
    and one: "length (filter (\<lambda>p. project_id p = PERSONAL_PROJECT_ID \<and> kind p = PersonalKind) ps) = 1"
    and sel: "find (\<lambda>p. project_id p = ?sel) ps = Some p" "\<not> project_archived p"
    and s: "s = \<lparr>selectedProjectId = ?sel, projects = ps\<rparr>"
    by (auto simp: decodeCurrentState_def v vs Let_def split: if_splits option.splits)
  have "PERSONAL_PROJECT_ID \<in> project_id ` set ps"
    using one by (auto simp: length_Suc_conv filter_eq_Cons_iff)
  with decode_projects_sound [OF ps] sel show ?thesis
    by (auto simp: wf_state_def s dest!: find_Some_mem)
qed



section \<open>The decoder accepts every valid state\<close>

lemma field_simps [simp]:
  "field [] k = TUndef" "field ((js a, t) # fs) k = (if a = k then t else field fs k)"
  by (simp_all add: field_def)

lemma value_simps [simp]:
  "id_value (TStr s) \<longleftrightarrow> isProjectChatId s" "label_value (TStr s) \<longleftrightarrow> isProjectChatLabel s"
  "file_value (TStr s) \<longleftrightarrow> isPrimeSessionFile s" "path_value (TStr s) \<longleftrightarrow> validFolderPath s"
  "bool_value (TBool b)" "the_str (TStr s) = s" "the_bool (TBool b) = b"
  by (simp_all add: value_defs)

lemma nullable_encode [simp]:
  "nullable_str (encode_nullable x) = x"
  "encode_nullable x \<noteq> TNull \<and> \<not> id_value (encode_nullable x) \<longleftrightarrow> (\<exists>a. x = Some a \<and> \<not> isProjectChatId a)"
  by (auto simp: encode_nullable_def value_defs split: option.split)

lemma decode_encode_binding:
  "decodePrimeChatBinding (encode_binding b) =
     (if \<forall>b'. b = Some b' \<longrightarrow> wf_binding b' then Some b else None)"
  by (cases b) (auto simp: encode_binding_def decodePrimeChatBinding_def jobj_def hasExactKeys_def wf_binding_def)

lemma decode_encode_chat:
  "decodeChat (encode_chat c) owner known =
     (if wf_chat owner c \<and> chat_id c \<notin> set known then Some (c, chat_id c # known) else None)"
  by (auto simp: encode_chat_def decodeChat_def jobj_def hasExactKeys_def wf_chat_def decode_encode_binding)

lemma decode_encode_chats:
  "decode_chats (map encode_chat cs) owner known =
     (if (\<forall>c \<in> set cs. wf_chat owner c) \<and> distinct (map chat_id cs) \<and> chat_id ` set cs \<inter> set known = {}
      then Some (cs, rev (map chat_id cs) @ known) else None)"
  by (induction cs arbitrary: known) (auto simp: decode_encode_chat)


lemma decode_encode_kind:
  "decode_kind [(js ''id'', TStr (project_id p)),
      (js ''kind'', TStr (js (case kind p of PersonalKind \<Rightarrow> ''personal'' | FolderKind _ \<Rightarrow> ''folder''))),
      (js ''name'', TStr (project_name p)),
      (js ''root'', jobj (case kind p of
         PersonalKind \<Rightarrow> [(''kind'', TStr (js ''studio-managed-empty''))]
       | FolderKind path \<Rightarrow> [(''kind'', TStr (js ''folder'')), (''path'', TStr path)])),
      (js ''pinned'', b), (js ''archived'', TBool (project_archived p)), i, cs] =
     (if wf_kind p then Some (kind p) else None)"
  by (cases "kind p") (auto simp: decode_kind_def wf_kind_def jobj_def hasExactKeys_def)

lemma wf_project_selected_id:
  "\<forall>c \<in> set (chats p). wf_chat o' c \<Longrightarrow> wf_selected p \<Longrightarrow> selectedChatId p = Some i \<Longrightarrow> isProjectChatId i"
  by (auto simp: wf_selected_def wf_chat_def)

lemma decode_encode_project:
  "decodeProject (encode_project p) pids cids =
     (if wf_project p \<and> project_id p \<notin> set pids \<and> distinct (map chat_id (chats p)) \<and>
         chat_id ` set (chats p) \<inter> set cids = {}
      then Some (p, project_id p # pids, rev (map chat_id (chats p)) @ cids) else None)"
proof (cases "(\<forall>c \<in> set (chats p). wf_chat (project_id p) c) \<and> distinct (map chat_id (chats p)) \<and>
    chat_id ` set (chats p) \<inter> set cids = {}")
  case False
  then show ?thesis
    by (auto simp: encode_project_def decodeProject_def jobj_def decode_encode_chats wf_project_def
        split: option.split)
next
  case True
  then have sel: "(case selectedChatId p of None \<Rightarrow> False
      | Some i \<Rightarrow> (case find (\<lambda>c. chat_id c = i) (chats p) of None \<Rightarrow> True | Some c \<Rightarrow> chat_archived c))
      \<longleftrightarrow> \<not> wf_selected p"
    by (auto simp: wf_selected_def find_key_case split: option.split)
  have chats: "decode_chats (map encode_chat (chats p)) (project_id p) cids =
      Some (chats p, rev (map chat_id (chats p)) @ cids)"
    using True by (simp add: decode_encode_chats)
  have "wf_selected p \<Longrightarrow> \<forall>i. selectedChatId p = Some i \<longrightarrow> isProjectChatId i"
    using True wf_project_selected_id by blast
  then have "decodeProject (encode_project p) pids cids =
      (if isProjectChatId (project_id p) \<and> project_id p \<notin> set pids \<and> isProjectChatLabel (project_name p) \<and>
          wf_kind p \<and> wf_selected p
       then Some (p, project_id p # pids, rev (map chat_id (chats p)) @ cids) else None)"
    using sel
    by (cases "selectedChatId p")
      (auto simp: encode_project_def decodeProject_def jobj_def [of "_ # _ # _ # _ # _ # _ # _ # _"]
        hasExactKeys_def Let_def decode_encode_kind chats)
  with True show ?thesis by (simp add: wf_project_def)
qed

lemma decode_encode_projects:
  "decode_projects (map encode_project ps) pids cids =
     (if (\<forall>p \<in> set ps. wf_project p) \<and> distinct (map project_id ps) \<and> project_id ` set ps \<inter> set pids = {} \<and>
         distinct (chat_ids ps) \<and> set (chat_ids ps) \<inter> set cids = {}
      then Some ps else None)"
  by (induction ps arbitrary: pids cids) (auto simp: decode_encode_project)



lemma personal_filter:
  assumes "\<forall>p \<in> set ps. wf_project p" and "distinct (map project_id ps)"
  shows "length (filter (\<lambda>p. project_id p = PERSONAL_PROJECT_ID \<and> kind p = PersonalKind) ps) = 1 \<longleftrightarrow>
    PERSONAL_PROJECT_ID \<in> project_id ` set ps"
  using assms
proof (induction ps)
  case (Cons p ps)
  then have "filter (\<lambda>p. project_id p = PERSONAL_PROJECT_ID \<and> kind p = PersonalKind) ps = []"
    if "project_id p = PERSONAL_PROJECT_ID"
    using that by (auto simp: filter_empty_conv image_iff)
  with Cons show ?case by (auto simp: wf_kind_personal)
qed simp

lemma decode_encode_state:
  "decodeCurrentState (encode_state s) = (if wf_state s then Some s else None)"
proof (cases "(\<forall>p \<in> set (projects s). wf_project p) \<and> distinct (map project_id (projects s)) \<and>
    distinct (chat_ids (projects s))")
  case False
  then show ?thesis
    by (auto simp: encode_state_def decodeCurrentState_def jobj_def decode_encode_projects wf_state_def)
next
  case True
  then have "isProjectChatId i" if "\<exists>p \<in> set (projects s). project_id p = i \<and> \<not> project_archived p" for i
    using that by (auto simp: wf_project_def)
  with True show ?thesis
    by (auto simp: encode_state_def decodeCurrentState_def jobj_def hasExactKeys_def decode_encode_projects
        Let_def personal_filter find_key_case wf_state_def simp del: One_nat_def)
qed



section \<open>Saving and loading\<close>

lemma encode_state_prints: "\<exists>x. json_stringify (encode_state s) = Some x"
proof -
  have "printable (encode_state s)"
    by (auto simp: encode_state_def encode_project_def encode_chat_def encode_binding_def encode_nullable_def
        jobj_def list_all_iff PROJECT_CHAT_SCHEMA_VERSION_def as_safe_integer_def as_integer_def safe_int_def
        MAX_SAFE_INTEGER_def split: option.split project_kind.split)
  then show ?thesis using printable_stringify by blast
qed

lemma serialize_state_iff:
  "serialize_state s = Serialized x \<longleftrightarrow>
     wf_state s \<and> json_stringify (encode_state s) = Some x \<and>
     snapshotUntrusted (tree_heap (encode_state s)) (tree_val (encode_state s) []) = Some (encode_state s) \<and>
     int (utf8_length x) \<le> MAX_PROJECT_CHAT_JSON_BYTES"
  using snapshotUntrusted_tree_eq [OF strict_encode_state, of s]
  by (auto simp: serializeProjectChatState_def decode_encode_state utf8ByteLengthWithin_eq
      MAX_PROJECT_CHAT_JSON_BYTES_def safe_int_def MAX_SAFE_INTEGER_def split: option.splits if_splits)


text \<open>
  C15: on the value of a state, the decoder accepts exactly the valid states and returns the
  state itself; and whatever value it is given, a state it returns is valid.
\<close>

theorem decodeCurrentState_correct:
  "decodeCurrentState (encode_state s) = (if wf_state s then Some s else None) \<and>
   (\<forall>v s'. decodeCurrentState v = Some s' \<longrightarrow> wf_state s')"
  using decode_encode_state decodeCurrentState_wf by blast

lemma snapshotVersion_encode: "snapshotVersion (encode_state s) = Some PROJECT_CHAT_SCHEMA_VERSION"
  by (simp add: snapshotVersion_def encode_state_def jobj_def PROJECT_CHAT_SCHEMA_VERSION_def as_integer_def)

lemma stringify_strict_keys:
  assumes "json_stringify t = Some x" and "strict_tree t" and "tree_height t \<le> MAX_PROJECT_CHAT_SNAPSHOT_DEPTH"
    and "int (utf8_length x) \<le> MAX_PROJECT_CHAT_JSON_BYTES"
  shows "hasStrictJsonObjectKeys x \<and> json_parse x = Some t"
proof -
  have "scan x"
    using json_parse_raw_stringify [OF assms(1)] assms(2,3)
    by (auto simp: scan_iff MAX_JSON_DEPTH_def MAX_PROJECT_CHAT_SNAPSHOT_DEPTH_def)
  then show ?thesis
    using assms(4) json_round_trip [OF assms(1,2)]
    by (simp add: hasStrictJsonObjectKeys_def utf8ByteLengthWithin_eq safe_int_def MAX_SAFE_INTEGER_def
        MAX_PROJECT_CHAT_JSON_BYTES_def)
qed

text \<open>Loading the text of a tree that has been accepted, up to the version test.\<close>

lemma deserialize_printed:
  assumes "json_stringify t = Some x" and "strict_tree t"
    and "snapshotUntrusted (tree_heap t) (tree_val t []) = Some t"
    and "int (utf8_length x) \<le> MAX_PROJECT_CHAT_JSON_BYTES"
    and "snapshotVersion t = Some version"
  shows "deserializeProjectChatState x ms =
    (if version > PROJECT_CHAT_SCHEMA_VERSION then LoadRejected UnsupportedVersion (Some version)
     else if version < PROJECT_CHAT_SCHEMA_VERSION then
       (case migrationMap ms of
          None \<Rightarrow> LoadRejected MigrationInvalid (Some version)
        | Some byVersion \<Rightarrow>
            (case migration_loop 2 byVersion version t of
               None \<Rightarrow> LoadRejected InvalidSnapshot None
             | Some (Inl failed) \<Rightarrow> failed
             | Some (Inr snapshot') \<Rightarrow> finish_load version snapshot'))
     else finish_load version t)"
  using stringify_strict_keys [OF assms(1,2) _ assms(4)] snapshotUntrusted_bounds [OF assms(3)] assms(3,5)
  by (simp add: deserializeProjectChatState_def)

text \<open>
  C11: loading what was saved returns the very same state, with any migrations: every size,
  depth and strictness limit the reader enforces was already enforced by the writer.
\<close>

theorem save_load_round_trip:
  assumes "serialize_state s = Serialized x"
  shows "deserializeProjectChatState x migrations = Loaded s"
proof -
  from assms have wf: "wf_state s" and printed: "json_stringify (encode_state s) = Some x"
    and snap: "snapshotUntrusted (tree_heap (encode_state s)) (tree_val (encode_state s) []) = Some (encode_state s)"
    and size: "int (utf8_length x) \<le> MAX_PROJECT_CHAT_JSON_BYTES"
    by (auto simp: serialize_state_iff)
  show ?thesis
    unfolding deserialize_printed [OF printed strict_encode_state snap size snapshotVersion_encode]
    using wf by (simp add: finish_load_def decode_encode_state)
qed

text \<open>Every entry of a prepared map raises the version by one.\<close>

definition raises :: "migration_map \<Rightarrow> bool" where
  "raises m \<longleftrightarrow> (\<forall>v to run. m v = Some (to, run) \<longrightarrow> 0 \<le> v \<and> to = to_double (of_int (v + 1)))"

lemma migrationMap_loop_raises: "migrationMap_loop ms m = Some m' \<Longrightarrow> raises m \<Longrightarrow> raises m' \<and> m \<subseteq>\<^sub>m m'"
proof (induction ms arbitrary: m)
  case (Cons mo ms)
  from Cons.prems(1) obtain mg where mo: "mo = Some mg" by (cases mo) auto
  from Cons.prems(1) obtain f t g i where mg: "fromVersion mg = Prim (PNum f)" "toVersion mg = Prim (PNum t)"
      "migrate mg = Some g" and i: "as_integer f = Some i"
    and ok: "\<not> (i < 0 \<or> t \<noteq> to_double (of_int (i + 1)) \<or> m i \<noteq> None)"
    and rest: "migrationMap_loop ms (m(i \<mapsto> (t, g))) = Some m'"
    by (auto simp: mo split: jsval.splits jsprim.splits option.splits if_splits)
  have "raises (m(i \<mapsto> (t, g)))" using Cons.prems(2) ok by (auto simp: raises_def)
  then have "raises m' \<and> m(i \<mapsto> (t, g)) \<subseteq>\<^sub>m m'"
    using Cons.IH rest by blast
  moreover have "m \<subseteq>\<^sub>m m(i \<mapsto> (t, g))" using ok by (auto simp: map_le_def)
  ultimately show ?case using map_le_trans by blast
qed auto

lemma builtin_raises: "raises builtin_migrations"
  using to_double_safe [of 2]
  by (simp add: raises_def builtin_migrations_def safe_int_def MAX_SAFE_INTEGER_def)

lemma migrationMap_raises:
  assumes "migrationMap ms = Some m"
  shows "raises m \<and> m 1 = builtin_migrations 1"
proof -
  have "raises m \<and> builtin_migrations \<subseteq>\<^sub>m m"
    using assms migrationMap_loop_raises builtin_raises by (auto simp: migrationMap_def split: if_splits)
  then show ?thesis by (auto simp: map_le_def builtin_migrations_def)
qed

lemma raises_step:
  assumes "raises m" and "m v = Some (to, run)" and "v < PROJECT_CHAT_SCHEMA_VERSION" and "num_int w = to"
  shows "w = v + 1"
proof -
  have "to = to_double (of_int (v + 1))" "0 \<le> v" using assms(1,2) by (auto simp: raises_def)
  moreover have "safe_int (v + 1)"
    using assms(3) \<open>0 \<le> v\<close> by (simp add: safe_int_def MAX_SAFE_INTEGER_def PROJECT_CHAT_SCHEMA_VERSION_def)
  ultimately show ?thesis using assms(4) to_double_safe [of "v + 1"] by simp
qed

lemma migration_loop_returns:
  assumes "raises m" and "PROJECT_CHAT_SCHEMA_VERSION \<le> v + int fuel"
  shows "migration_loop fuel m v t \<noteq> None"
  using assms(2)
proof (induction fuel arbitrary: v t)
  case 0
  then show ?case by (simp add: migration_loop.simps)
next
  case (Suc fuel)
  have "migration_loop fuel m (v + 1) u \<noteq> None" for u
    by (rule Suc.IH) (use Suc.prems in simp)
  then show ?case
    by (subst migration_loop.simps) (auto split: option.split dest!: raises_step [OF assms(1)])
qed


text \<open>
  The migration loop ends: with any list of migrations that was accepted, two turns reach the
  current version or a rejection, from every version a file can carry.
\<close>

theorem migration_loop_enough:
  assumes "migrationMap migrations = Some byVersion" and "0 \<le> version"
  shows "\<exists>r. migration_loop 2 byVersion version snapshot = Some r"
  using migration_loop_returns [of byVersion version 2] migrationMap_raises [OF assms(1)] assms(2)
  by (simp add: PROJECT_CHAT_SCHEMA_VERSION_def)

theorem migration_loop_enough_witness:
  "\<exists>r. migration_loop 2 builtin_migrations 0 TNull = Some r"
  by (rule migration_loop_enough [of "[]"]) (simp_all add: migrationMap_def)

text \<open>What a load promises.\<close>

definition load_ok :: "ProjectChatLoadResult \<Rightarrow> bool" where
  "load_ok r \<longleftrightarrow>
     (case r of
        Loaded s \<Rightarrow> wf_state s
      | Migrated v s \<Rightarrow> wf_state s \<and> 0 \<le> v \<and> v < PROJECT_CHAT_SCHEMA_VERSION
      | LoadRejected _ _ \<Rightarrow> True)"

lemma load_ok_rejected [simp]: "load_ok (LoadRejected reason v)"
  by (simp add: load_ok_def)

lemma finish_load_ok: "0 \<le> v \<Longrightarrow> v \<le> PROJECT_CHAT_SCHEMA_VERSION \<Longrightarrow> load_ok (finish_load v t)"
  using decodeCurrentState_wf by (auto simp: finish_load_def load_ok_def split: option.split)

lemma snapshotVersion_nonneg: "snapshotVersion t = Some v \<Longrightarrow> 0 \<le> v"
  by (auto simp: snapshotVersion_def split: jtree.splits jsprim.splits option.splits if_splits)

lemma migration_loop_rejects:
  "migration_loop fuel m v t = Some (Inl r) \<Longrightarrow> load_ok r"
proof (induction fuel arbitrary: v t)
  case (Suc fuel)
  from Suc.prems show ?case
    by (simp add: migration_loop.simps [of "Suc fuel"] split: if_splits option.splits prod.splits)
      (auto dest: Suc.IH)
qed (auto simp: migration_loop.simps split: if_splits)

text \<open>
  Whatever the text and whatever the migrations do, a load either is rejected or returns
  a valid state; a migrated one comes from an older version, which is reported.
\<close>

theorem deserialize_valid:
  "load_ok (deserializeProjectChatState serialized migrations)"
  unfolding deserializeProjectChatState_def
  by (auto intro!: finish_load_ok dest: snapshotVersion_nonneg migration_loop_rejects
      split: option.split sum.split)


section \<open>Version 1\<close>

text \<open>The value of a state in the first schema, whose chats have no binding.\<close>

definition encode_chat_v1 :: "ProjectChat \<Rightarrow> jtree" where
  "encode_chat_v1 c = jobj
     [(''id'', TStr (chat_id c)), (''projectId'', TStr (chat_projectId c)), (''title'', TStr (title c)),
      (''pinned'', TBool (chat_pinned c)), (''archived'', TBool (chat_archived c))]"

definition encode_project_v1 :: "Project \<Rightarrow> jtree" where
  "encode_project_v1 p = jobj
     [(''id'', TStr (project_id p)),
      (''kind'', TStr (js (case kind p of PersonalKind \<Rightarrow> ''personal'' | FolderKind _ \<Rightarrow> ''folder''))),
      (''name'', TStr (project_name p)),
      (''root'', jobj (case kind p of
         PersonalKind \<Rightarrow> [(''kind'', TStr (js ''studio-managed-empty''))]
       | FolderKind path \<Rightarrow> [(''kind'', TStr (js ''folder'')), (''path'', TStr path)])),
      (''pinned'', TBool (project_pinned p)), (''archived'', TBool (project_archived p)),
      (''selectedChatId'', encode_nullable (selectedChatId p)),
      (''chats'', TArr (map encode_chat_v1 (chats p)))]"

definition encode_state_v1 :: "ProjectChatState \<Rightarrow> jtree" where
  "encode_state_v1 s = jobj
     [(''schemaVersion'', TInt 1), (''selectedProjectId'', TStr (selectedProjectId s)),
      (''projects'', TArr (map encode_project_v1 (projects s)))]"

definition no_bindings :: "ProjectChatState \<Rightarrow> bool" where
  "no_bindings s \<longleftrightarrow> (\<forall>p \<in> set (projects s). \<forall>c \<in> set (chats p). binding c = None)"

lemma migrate_encode_chat: "binding c = None \<Longrightarrow> migrate_chat (encode_chat_v1 c) = Some (encode_chat c)"
  by (simp add: migrate_chat_def encode_chat_v1_def encode_chat_def jobj_def hasExactKeys_def V1_CHAT_KEYS_def
      encode_binding_def)

lemma those_map_eq: "\<forall>x \<in> set xs. f x = Some (g x) \<Longrightarrow> those (map f xs) = Some (map g xs)"
  by (induction xs) auto

lemma migrate_encode_project:
  assumes "\<forall>c \<in> set (chats p). binding c = None"
  shows "migrate_project (encode_project_v1 p) = Some (encode_project p)"
proof -
  have "those (map migrate_chat (map encode_chat_v1 (chats p))) = Some (map encode_chat (chats p))"
    using those_map_eq [of "chats p" "\<lambda>c. migrate_chat (encode_chat_v1 c)" encode_chat] assms
    by (simp add: migrate_encode_chat comp_def)
  then show ?thesis
    by (simp add: migrate_project_def encode_project_v1_def encode_project_def
        jobj_def [of "_ # _ # _ # _ # _ # _ # _ # _"] hasExactKeys_def V1_PROJECT_KEYS_def)
qed

lemma migrate_encode_state:
  assumes "no_bindings s"
  shows "migrateSchemaV1ToV2 (encode_state_v1 s) = encode_state s"
proof -
  have "those (map migrate_project (map encode_project_v1 (projects s))) = Some (map encode_project (projects s))"
    using those_map_eq [of "projects s" "\<lambda>p. migrate_project (encode_project_v1 p)" encode_project] assms
    by (simp add: migrate_encode_project no_bindings_def comp_def)
  then show ?thesis
    by (simp add: migrateSchemaV1ToV2_def encode_state_v1_def encode_state_def jobj_def hasExactKeys_def
        V1_STATE_KEYS_def)
qed

lemma strict_encode_state_v1: "strict_tree (encode_state_v1 s)"
  by (auto simp: encode_state_v1_def encode_project_v1_def encode_chat_v1_def encode_nullable_def list_all_iff
      split: option.split project_kind.split)

text \<open>
  A first-schema file of a valid state is migrated to that state, its chats unbound,
  whatever further migrations are registered, when it and its migrated form keep the limits.
\<close>

theorem migrates_v1:
  assumes "wf_state s" and "no_bindings s" and "within_limits (encode_state_v1 s)" and "within_limits (encode_state s)"
    and "json_stringify (encode_state_v1 s) = Some x" and "int (utf8_length x) \<le> MAX_PROJECT_CHAT_JSON_BYTES"
    and "migrationMap migrations \<noteq> None"
  shows "deserializeProjectChatState x migrations = Migrated 1 s"
proof -
  from assms(7) obtain m where m: "migrationMap migrations = Some m" by blast
  have ver: "snapshotVersion (encode_state_v1 s) = Some 1"
    by (simp add: snapshotVersion_def encode_state_v1_def jobj_def as_integer_def)
  have snap: "snapshotUntrusted (tree_heap (encode_state s)) (tree_val (encode_state s) []) = Some (encode_state s)"
    by (rule snapshotUntrusted_tree [OF strict_encode_state assms(4)])
  have "m 1 = Some (num_int 2, \<lambda>t. let u = migrateSchemaV1ToV2 t in Some (tree_heap u, tree_val u []))"
    using migrationMap_raises [OF m] by (simp add: builtin_migrations_def)
  then have "migration_loop 2 m 1 (encode_state_v1 s) = Some (Inr (encode_state s))"
    by (subst migration_loop.simps)
      (simp add: Let_def numeral_2_eq_2 migrate_encode_state [OF assms(2)] snap snapshotVersion_encode migration_loop.simps
        PROJECT_CHAT_SCHEMA_VERSION_def)
  then show ?thesis
    unfolding deserialize_printed [OF assms(5) strict_encode_state_v1
        snapshotUntrusted_tree [OF strict_encode_state_v1 assms(3)] assms(6) ver]
    using m assms(1) by (simp add: finish_load_def decode_encode_state PROJECT_CHAT_SCHEMA_VERSION_def)
qed



section \<open>The initial state\<close>

definition createInitialProjectChatState :: ProjectChatState where
  "createInitialProjectChatState =
     \<lparr>selectedProjectId = PERSONAL_PROJECT_ID,
      projects =
        [\<lparr>project_id = PERSONAL_PROJECT_ID, kind = PersonalKind, project_name = js ''Personal'',
          project_pinned = False, project_archived = False, selectedChatId = None, chats = []\<rparr>]\<rparr>"

lemma wf_initial: "wf_state createInitialProjectChatState"
proof -
  have "isProjectChatId PERSONAL_PROJECT_ID"
    by (simp add: isProjectChatId_def PERSONAL_PROJECT_ID_def js_def validation_limits)
  moreover have "isProjectChatLabel (js ''Personal'')"
    by (simp add: isProjectChatLabel_def js_def js_trim_def js_char UNSAFE_LABEL_CATEGORY_def unsafe_label_cp_def
        validation_limits)
  ultimately show ?thesis
    by (simp add: wf_state_def createInitialProjectChatState_def wf_project_def wf_kind_def wf_selected_def)
qed

lemma initial_text:
  "case json_stringify (encode_state createInitialProjectChatState) of
     Some x \<Rightarrow> utf8_length x < 1000 | None \<Rightarrow> False"
  by code_simp

lemma initial_within: "within_limits (encode_state createInitialProjectChatState)"
  by code_simp


lemma initial_serializes: "\<exists>x. serialize_state createInitialProjectChatState = Serialized x"
  using initial_text wf_initial snapshotUntrusted_tree [OF strict_encode_state initial_within]
  by (auto simp: serialize_state_iff MAX_PROJECT_CHAT_JSON_BYTES_def split: option.splits)

theorem save_load_round_trip_witness:
  "\<exists>x. serialize_state createInitialProjectChatState = Serialized x \<and>
    deserializeProjectChatState x [] = Loaded createInitialProjectChatState"
  using initial_serializes save_load_round_trip by blast

lemma initial_v1:
  "within_limits (encode_state_v1 createInitialProjectChatState) \<and>
   (case json_stringify (encode_state_v1 createInitialProjectChatState) of
      Some x \<Rightarrow> utf8_length x < 1000 | None \<Rightarrow> False)"
  by code_simp

theorem migrates_v1_witness:
  "\<exists>x. json_stringify (encode_state_v1 createInitialProjectChatState) = Some x \<and>
    deserializeProjectChatState x [] = Migrated 1 createInitialProjectChatState"
proof -
  from initial_v1 obtain x where x: "json_stringify (encode_state_v1 createInitialProjectChatState) = Some x"
    and len: "int (utf8_length x) \<le> MAX_PROJECT_CHAT_JSON_BYTES"
    by (auto simp: MAX_PROJECT_CHAT_JSON_BYTES_def split: option.splits)
  have "no_bindings createInitialProjectChatState" by (simp add: no_bindings_def createInitialProjectChatState_def)
  moreover have "migrationMap [] \<noteq> None" by (simp add: migrationMap_def)
  ultimately have "deserializeProjectChatState x [] = Migrated 1 createInitialProjectChatState"
    using migrates_v1 [OF wf_initial _ _ initial_within x len] initial_v1 by blast
  with x show ?thesis by blast
qed


theorem decodeCurrentState_correct_witness:
  "decodeCurrentState (encode_state createInitialProjectChatState) = Some createInitialProjectChatState"
  using decodeCurrentState_correct [of createInitialProjectChatState] wf_initial by simp

end
