(* ===== verification/Project_Reducer.thy ===== *)
theory Project_Reducer
  imports Serialization Step_System
begin

text \<open>
  The transitions of \<open>src/app/src/domain/projectChats/reducer.ts\<close>. Each case of the switch is a
  definition of its own and returns a decision: \<open>Apply c\<close> where the source returns
  \<open>applied(state, c)\<close>, \<open>Keep r\<close> for \<open>unchanged(state, r)\<close>, \<open>Refuse r\<close> for
  \<open>rejected(state, r)\<close>; \<open>conclude\<close> makes that call. A state's JavaScript value is its encoding in a store
  of its own: the spreads of the source never make two parts of one state share an object.

  Shown: from the initial state, through any inputs, every state is valid and no session is bound
  twice; what each command does to chats and projects, and to nothing else; which commands
  can only be refused for their size; how the selection resolves.
\<close>

section \<open>Commands\<close>

definition the_text :: "fields \<Rightarrow> string \<Rightarrow> jsstr option" where
  "the_text fs k = (case field fs k of TPrim (PStr s) \<Rightarrow> Some s | _ \<Rightarrow> None)"

definition the_flag :: "fields \<Rightarrow> string \<Rightarrow> bool option" where
  "the_flag fs k = (case field fs k of TPrim (PBool b) \<Rightarrow> Some b | _ \<Rightarrow> None)"

definition hasExactCommandKeys :: "fields \<Rightarrow> string list \<Rightarrow> bool" where
  "hasExactCommandKeys fs keys \<longleftrightarrow>
     length fs = length keys \<and> list_all (\<lambda>k. k \<in> set (map js keys)) (map fst fs)"

definition decodeCommandBinding :: "jtree \<Rightarrow> PrimeChatBinding option" where
  "decodeCommandBinding v =
     (case v of
        TObj fs \<Rightarrow>
          if \<not> hasExactCommandKeys fs [''kind'', ''accountId'', ''sessionId'', ''sessionFile'', ''agentId''] \<or>
             field fs ''kind'' \<noteq> TStr (js ''prime-session'') \<or>
             (field fs ''accountId'' \<noteq> TNull \<and> \<not> id_value (field fs ''accountId'')) \<or>
             \<not> id_value (field fs ''sessionId'') \<or>
             \<not> file_value (field fs ''sessionFile'') \<or>
             (field fs ''agentId'' \<noteq> TNull \<and> \<not> id_value (field fs ''agentId''))
          then None
          else Some \<lparr>accountId = nullable_str (field fs ''accountId''),
            sessionId = the_str (field fs ''sessionId''),
            sessionFile = the_str (field fs ''sessionFile''),
            agentId = nullable_str (field fs ''agentId'')\<rparr>
      | _ \<Rightarrow> None)"

text \<open>A case that reads one, two, three or four string fields after the key test.\<close>

definition text1 :: "fields \<Rightarrow> string list \<Rightarrow> (jsstr \<Rightarrow> 'a) \<Rightarrow> 'a option" where
  "text1 fs ks mk = (if hasExactCommandKeys fs (''type'' # ks)
     then (case the_text fs (ks ! 0) of Some a \<Rightarrow> Some (mk a) | None \<Rightarrow> None) else None)"

definition text2 :: "fields \<Rightarrow> string list \<Rightarrow> (jsstr \<Rightarrow> jsstr \<Rightarrow> 'a) \<Rightarrow> 'a option" where
  "text2 fs ks mk = (if hasExactCommandKeys fs (''type'' # ks)
     then (case (the_text fs (ks ! 0), the_text fs (ks ! 1)) of
       (Some a, Some b) \<Rightarrow> Some (mk a b) | _ \<Rightarrow> None) else None)"

definition text3 :: "fields \<Rightarrow> string list \<Rightarrow> (jsstr \<Rightarrow> jsstr \<Rightarrow> jsstr \<Rightarrow> 'a) \<Rightarrow> 'a option" where
  "text3 fs ks mk = (if hasExactCommandKeys fs (''type'' # ks)
     then (case (the_text fs (ks ! 0), the_text fs (ks ! 1), the_text fs (ks ! 2)) of
       (Some a, Some b, Some c) \<Rightarrow> Some (mk a b c) | _ \<Rightarrow> None) else None)"

definition text4 :: "fields \<Rightarrow> string list \<Rightarrow> (jsstr \<Rightarrow> jsstr \<Rightarrow> jsstr \<Rightarrow> jsstr \<Rightarrow> 'a) \<Rightarrow> 'a option" where
  "text4 fs ks mk = (if hasExactCommandKeys fs (''type'' # ks)
     then (case (the_text fs (ks ! 0), the_text fs (ks ! 1), the_text fs (ks ! 2), the_text fs (ks ! 3)) of
       (Some a, Some b, Some c, Some d) \<Rightarrow> Some (mk a b c d) | _ \<Rightarrow> None) else None)"

definition decode_bind_command :: "fields \<Rightarrow> ProjectChatCommand option" where
  "decode_bind_command fs =
     (if \<not> hasExactCommandKeys fs [''type'', ''projectId'', ''chatId'', ''binding''] then None
      else case (the_text fs ''projectId'', the_text fs ''chatId'') of
        (Some p, Some c) \<Rightarrow> map_option (ChatBindPrimeSession p c) (decodeCommandBinding (field fs ''binding''))
      | _ \<Rightarrow> None)"

definition decode_pin_project_command :: "fields \<Rightarrow> ProjectChatCommand option" where
  "decode_pin_project_command fs =
     (if hasExactCommandKeys fs [''type'', ''projectId'', ''pinned''] then
        (case (the_text fs ''projectId'', the_flag fs ''pinned'') of
           (Some p, Some b) \<Rightarrow> Some (ProjectSetPinned p b) | _ \<Rightarrow> None)
      else None)"

definition decode_pin_chat_command :: "fields \<Rightarrow> ProjectChatCommand option" where
  "decode_pin_chat_command fs =
     (if hasExactCommandKeys fs [''type'', ''projectId'', ''chatId'', ''pinned''] then
        (case (the_text fs ''projectId'', the_text fs ''chatId'', the_flag fs ''pinned'') of
           (Some p, Some c, Some b) \<Rightarrow> Some (ChatSetPinned p c b) | _ \<Rightarrow> None)
      else None)"

definition decode_command_fields :: "fields \<Rightarrow> ProjectChatCommand option" where
  "decode_command_fields fs =
     (case the_text fs ''type'' of
        None \<Rightarrow> None
      | Some t \<Rightarrow>
          if t = js ''project.create'' then text3 fs [''projectId'', ''name'', ''folderPath''] ProjectCreate
          else if t = js ''chat.create'' then text3 fs [''projectId'', ''chatId'', ''title''] ChatCreate
          else if t = js ''chat.bind-prime-session'' then decode_bind_command fs
          else if t = js ''project.rename'' then text2 fs [''projectId'', ''name''] ProjectRename
          else if t = js ''project.archive'' then text1 fs [''projectId''] ProjectArchive
          else if t = js ''project.restore'' then text1 fs [''projectId''] ProjectRestore
          else if t = js ''selection.select-project'' then text1 fs [''projectId''] SelectProject
          else if t = js ''project.set-pinned'' then decode_pin_project_command fs
          else if t = js ''chat.rename'' then text3 fs [''projectId'', ''chatId'', ''title''] ChatRename
          else if t = js ''chat.archive'' then text2 fs [''projectId'', ''chatId''] ChatArchive
          else if t = js ''chat.restore'' then text2 fs [''projectId'', ''chatId''] ChatRestore
          else if t = js ''selection.select-chat'' then text2 fs [''projectId'', ''chatId''] SelectChat
          else if t = js ''chat.set-pinned'' then decode_pin_chat_command fs
          else if t = js ''chat.duplicate''
            then text4 fs [''projectId'', ''chatId'', ''newChatId'', ''title''] ChatDuplicate
          else if t = js ''chat.move'' then text3 fs [''projectId'', ''chatId'', ''targetProjectId''] ChatMove
          else if t = js ''chat.delete'' then text2 fs [''projectId'', ''chatId''] ChatDelete
          else None)"

definition decodeProjectChatCommand :: "heap \<Rightarrow> jsval \<Rightarrow> ProjectChatCommand option" where
  "decodeProjectChatCommand h value =
     (case snapshotUntrusted h value of
        Some (TObj fs) \<Rightarrow> decode_command_fields fs
      | _ \<Rightarrow> None)"


section \<open>Queries\<close>

definition primeBindingEqual :: "PrimeChatBinding \<Rightarrow> PrimeChatBinding \<Rightarrow> bool" where
  "primeBindingEqual l r \<longleftrightarrow>
     accountId l = accountId r \<and> sessionId l = sessionId r \<and> sessionFile l = sessionFile r \<and> agentId l = agentId r"

definition projectById :: "ProjectChatState \<Rightarrow> jsstr \<Rightarrow> Project option" where
  "projectById s i = find (\<lambda>p. project_id p = i) (projects s)"

definition chatOwner :: "ProjectChatState \<Rightarrow> jsstr \<Rightarrow> Project option" where
  "chatOwner s i = find (\<lambda>p. list_ex (\<lambda>c. chat_id c = i) (chats p)) (projects s)"

definition resolveProjectChatSelection :: "ProjectChatState \<Rightarrow> ProjectChatSelection" where
  "resolveProjectChatSelection s =
     (let selected = projectById s (selectedProjectId s);
          project = (case selected of
            Some p \<Rightarrow> if \<not> project_archived p then Some p
              else (case projectById s PERSONAL_PROJECT_ID of
                Some q \<Rightarrow> Some q | None \<Rightarrow> find (\<lambda>c. \<not> project_archived c) (projects s))
          | None \<Rightarrow> (case projectById s PERSONAL_PROJECT_ID of
                Some q \<Rightarrow> Some q | None \<Rightarrow> find (\<lambda>c. \<not> project_archived c) (projects s)))
      in case project of
        None \<Rightarrow> Unavailable
      | Some p \<Rightarrow>
          if project_archived p then Unavailable
          else
            let remembered = find (\<lambda>c. Some (chat_id c) = selectedChatId p \<and> \<not> chat_archived c) (chats p);
                chat = (case remembered of Some c \<Rightarrow> Some c | None \<Rightarrow> find (\<lambda>c. \<not> chat_archived c) (chats p))
            in Resolved (project_id p) (map_option chat_id chat))"

definition rejected :: "ProjectChatState \<Rightarrow> ProjectChatRejectionReason \<Rightarrow> ProjectChatTransitionResult" where
  "rejected s reason = Rejected s reason (resolveProjectChatSelection s)"

definition unchanged :: "ProjectChatState \<Rightarrow> ProjectChatUnchangedReason \<Rightarrow> ProjectChatTransitionResult" where
  "unchanged s reason = Unchanged s reason (resolveProjectChatSelection s)"

definition applied :: "ProjectChatState \<Rightarrow> ProjectChatState \<Rightarrow> ProjectChatTransitionResult" where
  "applied previousState candidateState =
     (if serialize_state candidateState = SerializationRejected then rejected previousState StateLimitExceeded
      else Applied candidateState (resolveProjectChatSelection candidateState))"

definition chatInProject ::
  "ProjectChatState \<Rightarrow> jsstr \<Rightarrow> jsstr \<Rightarrow> ProjectChatRejectionReason + Project \<times> ProjectChat" where
  "chatInProject s projectId chatId =
     (case projectById s projectId of
        None \<Rightarrow> Inl ProjectNotFound
      | Some project \<Rightarrow>
          (case find (\<lambda>c. chat_id c = chatId) (chats project) of
             Some chat \<Rightarrow> Inr (project, chat)
           | None \<Rightarrow> Inl (if chatOwner s chatId \<noteq> None then ChatProjectMismatch else ChatNotFound)))"

text \<open>
  \<open>slice(0, findIndex)\<close> and \<open>slice(findIndex + 1)\<close>; the index is \<open>- 1\<close> when no chat has the identifier.
\<close>

definition chats_before :: "jsstr \<Rightarrow> ProjectChat list \<Rightarrow> ProjectChat list" where
  "chats_before i cs = (if list_ex (\<lambda>c. chat_id c = i) cs then takeWhile (\<lambda>c. chat_id c \<noteq> i) cs else butlast cs)"

definition chats_after :: "jsstr \<Rightarrow> ProjectChat list \<Rightarrow> ProjectChat list" where
  "chats_after i cs = (if list_ex (\<lambda>c. chat_id c = i) cs then tl (dropWhile (\<lambda>c. chat_id c \<noteq> i) cs) else cs)"

definition replacementChatAfterArchive :: "Project \<Rightarrow> jsstr \<Rightarrow> jsstr option" where
  "replacementChatAfterArchive project archivedChatId =
     (if selectedChatId project \<noteq> Some archivedChatId then selectedChatId project
      else
        (case find (\<lambda>c. \<not> chat_archived c \<and> chat_id c \<noteq> archivedChatId) (chats_after archivedChatId (chats project)) of
           Some after \<Rightarrow> Some (chat_id after)
         | None \<Rightarrow> map_option chat_id
             (find (\<lambda>c. \<not> chat_archived c \<and> chat_id c \<noteq> archivedChatId)
               (rev (chats_before archivedChatId (chats project))))))"

definition replaceProject :: "ProjectChatState \<Rightarrow> Project \<Rightarrow> jsstr \<Rightarrow> ProjectChatState" where
  "replaceProject s replacement selected =
     s\<lparr>selectedProjectId := selected,
       projects := map (\<lambda>p. if project_id p = project_id replacement then replacement else p) (projects s)\<rparr>"

definition update_chat :: "jsstr \<Rightarrow> (ProjectChat \<Rightarrow> ProjectChat) \<Rightarrow> ProjectChat list \<Rightarrow> ProjectChat list" where
  "update_chat i f cs = map (\<lambda>c. if chat_id c = i then f c else c) cs"



section \<open>Transitions\<close>

datatype decision =
    Apply ProjectChatState
  | Keep ProjectChatUnchangedReason
  | Refuse ProjectChatRejectionReason

definition project_create :: "ProjectChatState \<Rightarrow> jsstr \<Rightarrow> jsstr \<Rightarrow> jsstr \<Rightarrow> decision" where
  "project_create s projectId name folderPath =
     (if \<not> isProjectChatLabel name then Refuse InvalidName
      else if \<not> validFolderPath folderPath then Refuse InvalidFolderPath
      else if projectById s projectId \<noteq> None then Refuse DuplicateProjectId
      else
        let project = \<lparr>project_id = projectId, kind = FolderKind folderPath, project_name = name,
              project_pinned = False, project_archived = False, selectedChatId = None, chats = []\<rparr>
        in Apply (s\<lparr>selectedProjectId := project_id project, projects := projects s @ [project]\<rparr>))"

definition project_rename :: "ProjectChatState \<Rightarrow> jsstr \<Rightarrow> jsstr \<Rightarrow> decision" where
  "project_rename s projectId name =
     (case projectById s projectId of
        None \<Rightarrow> Refuse ProjectNotFound
      | Some project \<Rightarrow>
          if kind project = PersonalKind then Refuse PersonalProjectImmutable
          else if \<not> isProjectChatLabel name then Refuse InvalidName
          else if project_name project = name then Keep SameName
          else Apply (replaceProject s (project\<lparr>project_name := name\<rparr>) (selectedProjectId s)))"

definition project_archive :: "ProjectChatState \<Rightarrow> jsstr \<Rightarrow> decision" where
  "project_archive s projectId =
     (case projectById s projectId of
        None \<Rightarrow> Refuse ProjectNotFound
      | Some project \<Rightarrow>
          if kind project = PersonalKind then Refuse PersonalProjectImmutable
          else if project_archived project then Keep AlreadyArchived
          else
            let selected = (if selectedProjectId s = project_id project then PERSONAL_PROJECT_ID
              else selectedProjectId s)
            in Apply (replaceProject s (project\<lparr>project_archived := True\<rparr>) selected))"

definition project_restore :: "ProjectChatState \<Rightarrow> jsstr \<Rightarrow> decision" where
  "project_restore s projectId =
     (case projectById s projectId of
        None \<Rightarrow> Refuse ProjectNotFound
      | Some project \<Rightarrow>
          if kind project = PersonalKind \<or> \<not> project_archived project then Keep AlreadyRestored
          else Apply (replaceProject s (project\<lparr>project_archived := False\<rparr>) (selectedProjectId s)))"

definition project_set_pinned :: "ProjectChatState \<Rightarrow> jsstr \<Rightarrow> bool \<Rightarrow> decision" where
  "project_set_pinned s projectId pinned =
     (case projectById s projectId of
        None \<Rightarrow> Refuse ProjectNotFound
      | Some project \<Rightarrow>
          if project_pinned project = pinned then Keep (if pinned then AlreadyPinned else AlreadyUnpinned)
          else Apply (replaceProject s (project\<lparr>project_pinned := pinned\<rparr>) (selectedProjectId s)))"

definition new_chat :: "jsstr \<Rightarrow> jsstr \<Rightarrow> jsstr \<Rightarrow> ProjectChat" where
  "new_chat i owner name = \<lparr>chat_id = i, chat_projectId = owner, title = name, chat_pinned = False,
     chat_archived = False, binding = None\<rparr>"

definition chat_create :: "ProjectChatState \<Rightarrow> jsstr \<Rightarrow> jsstr \<Rightarrow> jsstr \<Rightarrow> decision" where
  "chat_create s projectId chatId name =
     (if \<not> isProjectChatLabel name then Refuse InvalidName
      else case projectById s projectId of
        None \<Rightarrow> Refuse ProjectNotFound
      | Some project \<Rightarrow>
          if project_archived project then Refuse ProjectArchived
          else if chatOwner s chatId \<noteq> None then Refuse DuplicateChatId
          else Apply (replaceProject s
            (project\<lparr>selectedChatId := Some chatId,
              chats := chats project @ [new_chat chatId (project_id project) name]\<rparr>)
            (project_id project)))"

text \<open>The cases that begin with \<open>chatInProject\<close> and return its reason.\<close>

definition with_chat ::
  "ProjectChatState \<Rightarrow> jsstr \<Rightarrow> jsstr \<Rightarrow> (Project \<Rightarrow> ProjectChat \<Rightarrow> decision) \<Rightarrow> decision" where
  "with_chat s projectId chatId f =
     (case chatInProject s projectId chatId of
        Inl reason \<Rightarrow> Refuse reason
      | Inr (project, chat) \<Rightarrow> f project chat)"

definition chat_bind_prime_session :: "ProjectChatState \<Rightarrow> jsstr \<Rightarrow> jsstr \<Rightarrow> PrimeChatBinding \<Rightarrow> decision" where
  "chat_bind_prime_session s projectId chatId b =
     with_chat s projectId chatId (\<lambda>project chat.
       case binding chat of
         Some old \<Rightarrow> if primeBindingEqual old b then Keep SameBinding else Refuse ChatAlreadyBound
       | None \<Rightarrow>
           if list_ex (\<lambda>p. list_ex (\<lambda>c. chat_id c \<noteq> chat_id chat \<and>
                map_option sessionId (binding c) = Some (sessionId b)) (chats p)) (projects s)
           then Refuse SessionAlreadyBound
           else Apply (replaceProject s
             (project\<lparr>chats := update_chat (chat_id chat) (\<lambda>c. c\<lparr>binding := Some b\<rparr>) (chats project)\<rparr>)
             (selectedProjectId s)))"

definition chat_rename :: "ProjectChatState \<Rightarrow> jsstr \<Rightarrow> jsstr \<Rightarrow> jsstr \<Rightarrow> decision" where
  "chat_rename s projectId chatId name =
     with_chat s projectId chatId (\<lambda>project chat.
       if \<not> isProjectChatLabel name then Refuse InvalidName
       else if title chat = name then Keep SameName
       else Apply (replaceProject s
         (project\<lparr>chats := update_chat (chat_id chat) (\<lambda>c. c\<lparr>title := name\<rparr>) (chats project)\<rparr>)
         (selectedProjectId s)))"

definition chat_archive :: "ProjectChatState \<Rightarrow> jsstr \<Rightarrow> jsstr \<Rightarrow> decision" where
  "chat_archive s projectId chatId =
     with_chat s projectId chatId (\<lambda>project chat.
       if chat_archived chat then Keep AlreadyArchived
       else Apply (replaceProject s
         (project\<lparr>selectedChatId := replacementChatAfterArchive project (chat_id chat),
           chats := update_chat (chat_id chat) (\<lambda>c. c\<lparr>chat_archived := True\<rparr>) (chats project)\<rparr>)
         (selectedProjectId s)))"

definition chat_restore :: "ProjectChatState \<Rightarrow> jsstr \<Rightarrow> jsstr \<Rightarrow> decision" where
  "chat_restore s projectId chatId =
     with_chat s projectId chatId (\<lambda>project chat.
       if \<not> chat_archived chat then Keep AlreadyRestored
       else
         let hasActiveRememberedChat =
           list_ex (\<lambda>c. Some (chat_id c) = selectedChatId project \<and> \<not> chat_archived c) (chats project)
         in Apply (replaceProject s
           (project\<lparr>selectedChatId := (if hasActiveRememberedChat then selectedChatId project else Some (chat_id chat)),
             chats := update_chat (chat_id chat) (\<lambda>c. c\<lparr>chat_archived := False\<rparr>) (chats project)\<rparr>)
           (selectedProjectId s)))"

definition chat_set_pinned :: "ProjectChatState \<Rightarrow> jsstr \<Rightarrow> jsstr \<Rightarrow> bool \<Rightarrow> decision" where
  "chat_set_pinned s projectId chatId pinned =
     with_chat s projectId chatId (\<lambda>project chat.
       if chat_pinned chat = pinned then Keep (if pinned then AlreadyPinned else AlreadyUnpinned)
       else Apply (replaceProject s
         (project\<lparr>chats := update_chat (chat_id chat) (\<lambda>c. c\<lparr>chat_pinned := pinned\<rparr>) (chats project)\<rparr>)
         (selectedProjectId s)))"

definition chat_duplicate :: "ProjectChatState \<Rightarrow> jsstr \<Rightarrow> jsstr \<Rightarrow> jsstr \<Rightarrow> jsstr \<Rightarrow> decision" where
  "chat_duplicate s projectId chatId newChatId name =
     with_chat s projectId chatId (\<lambda>project chat.
       if \<not> isProjectChatLabel name then Refuse InvalidName
       else if chatOwner s newChatId \<noteq> None then Refuse DuplicateChatId
       else Apply (replaceProject s
         (project\<lparr>selectedChatId := Some newChatId,
           chats := chats project @ [new_chat newChatId (project_id project) name]\<rparr>)
         (project_id project)))"

definition remove_chat :: "Project \<Rightarrow> jsstr \<Rightarrow> Project" where
  "remove_chat project i =
     project\<lparr>selectedChatId := replacementChatAfterArchive project i,
       chats := filter (\<lambda>c. chat_id c \<noteq> i) (chats project)\<rparr>"

definition chat_move :: "ProjectChatState \<Rightarrow> jsstr \<Rightarrow> jsstr \<Rightarrow> jsstr \<Rightarrow> decision" where
  "chat_move s projectId chatId targetProjectId =
     with_chat s projectId chatId (\<lambda>project chat.
       if project_id project = targetProjectId then Keep AlreadySelected
       else case projectById s targetProjectId of
         None \<Rightarrow> Refuse ProjectNotFound
       | Some target \<Rightarrow>
           if project_archived target then Refuse ProjectArchived
           else
             let moved = chat\<lparr>chat_projectId := project_id target\<rparr>;
                 source = remove_chat project (chat_id chat);
                 destination = target\<lparr>selectedChatId := Some (chat_id moved), chats := chats target @ [moved]\<rparr>
             in Apply (s\<lparr>selectedProjectId := project_id target,
                  projects := map (\<lambda>p. if project_id p = project_id source then source
                    else if project_id p = project_id destination then destination else p) (projects s)\<rparr>))"

definition chat_delete :: "ProjectChatState \<Rightarrow> jsstr \<Rightarrow> jsstr \<Rightarrow> decision" where
  "chat_delete s projectId chatId =
     with_chat s projectId chatId (\<lambda>project chat.
       Apply (replaceProject s (remove_chat project (chat_id chat)) (selectedProjectId s)))"

definition select_project :: "ProjectChatState \<Rightarrow> jsstr \<Rightarrow> decision" where
  "select_project s projectId =
     (case projectById s projectId of
        None \<Rightarrow> Refuse ProjectNotFound
      | Some project \<Rightarrow>
          if project_archived project then Refuse ProjectArchived
          else if selectedProjectId s = project_id project then Keep AlreadySelected
          else Apply (s\<lparr>selectedProjectId := project_id project\<rparr>))"

definition select_chat :: "ProjectChatState \<Rightarrow> jsstr \<Rightarrow> jsstr \<Rightarrow> decision" where
  "select_chat s projectId chatId =
     (case projectById s projectId of
        None \<Rightarrow> Refuse ProjectNotFound
      | Some project \<Rightarrow>
          if project_archived project then Refuse ProjectArchived
          else case find (\<lambda>c. chat_id c = chatId) (chats project) of
            None \<Rightarrow> Refuse (if chatOwner s chatId \<noteq> None then ChatProjectMismatch else ChatNotFound)
          | Some chat \<Rightarrow>
              if chat_archived chat then Refuse ChatArchived
              else if selectedProjectId s = project_id project \<and> selectedChatId project = Some (chat_id chat)
              then Keep AlreadySelected
              else Apply (replaceProject s (project\<lparr>selectedChatId := Some (chat_id chat)\<rparr>) (project_id project)))"

text \<open>The identifiers of a command, in the order they are validated.\<close>

fun command_ids :: "ProjectChatCommand \<Rightarrow> jsstr list" where
  "command_ids (ProjectCreate p _ _) = [p]"
| "command_ids (ProjectRename p _) = [p]"
| "command_ids (ProjectArchive p) = [p]"
| "command_ids (ProjectRestore p) = [p]"
| "command_ids (ProjectSetPinned p _) = [p]"
| "command_ids (SelectProject p) = [p]"
| "command_ids (ChatCreate p c _) = [p, c]"
| "command_ids (ChatBindPrimeSession p c _) = [p, c]"
| "command_ids (ChatRename p c _) = [p, c]"
| "command_ids (ChatArchive p c) = [p, c]"
| "command_ids (ChatRestore p c) = [p, c]"
| "command_ids (ChatSetPinned p c _) = [p, c]"
| "command_ids (ChatDelete p c) = [p, c]"
| "command_ids (SelectChat p c) = [p, c]"
| "command_ids (ChatDuplicate p c n _) = [p, c, n]"
| "command_ids (ChatMove p c t) = [p, c, t]"

fun decide :: "ProjectChatState \<Rightarrow> ProjectChatCommand \<Rightarrow> decision" where
  "decide s (ProjectCreate p n f) = project_create s p n f"
| "decide s (ProjectRename p n) = project_rename s p n"
| "decide s (ProjectArchive p) = project_archive s p"
| "decide s (ProjectRestore p) = project_restore s p"
| "decide s (ProjectSetPinned p b) = project_set_pinned s p b"
| "decide s (ChatCreate p c n) = chat_create s p c n"
| "decide s (ChatBindPrimeSession p c b) = chat_bind_prime_session s p c b"
| "decide s (ChatRename p c n) = chat_rename s p c n"
| "decide s (ChatArchive p c) = chat_archive s p c"
| "decide s (ChatRestore p c) = chat_restore s p c"
| "decide s (ChatSetPinned p c b) = chat_set_pinned s p c b"
| "decide s (ChatDuplicate p c i n) = chat_duplicate s p c i n"
| "decide s (ChatMove p c t) = chat_move s p c t"
| "decide s (ChatDelete p c) = chat_delete s p c"
| "decide s (SelectProject p) = select_project s p"
| "decide s (SelectChat p c) = select_chat s p c"

definition conclude :: "ProjectChatState \<Rightarrow> decision \<Rightarrow> ProjectChatTransitionResult" where
  "conclude s d =
     (case d of
        Apply candidate \<Rightarrow> applied s candidate
      | Keep reason \<Rightarrow> unchanged s reason
      | Refuse reason \<Rightarrow> rejected s reason)"

definition transition :: "ProjectChatState \<Rightarrow> ProjectChatCommand \<Rightarrow> ProjectChatTransitionResult" where
  "transition s command =
     (if \<not> list_all isProjectChatId (command_ids command) then rejected s InvalidId
      else conclude s (decide s command))"

definition transitionProjectChatState :: "ProjectChatState \<Rightarrow> heap \<Rightarrow> jsval \<Rightarrow> ProjectChatTransitionResult" where
  "transitionProjectChatState s h commandInput =
     (case decodeProjectChatCommand h commandInput of
        None \<Rightarrow> rejected s InvalidCommand
      | Some command \<Rightarrow> transition s command)"



section \<open>Validity of the candidates\<close>

text \<open>A project found by its identifier splits the list of projects in two.\<close>

lemma projectById_Some:
  assumes "projectById s i = Some p"
  shows "p \<in> set (projects s)" "project_id p = i"
  using find_Some_mem [of "\<lambda>p. project_id p = i" "projects s" p] assms by (auto simp: projectById_def)

lemma project_split:
  assumes "wf_state s" and "p \<in> set (projects s)"
  obtains us vs where "projects s = us @ p # vs" "project_id p \<notin> project_id ` set (us @ vs)"
proof -
  from split_list [OF assms(2)] obtain us vs where split: "projects s = us @ p # vs" by blast
  moreover have "project_id p \<notin> project_id ` set (us @ vs)"
    using wf_stateD(2) [OF assms(1)] by (auto simp: split)
  ultimately show ?thesis using that by blast
qed

lemma replaceProject_split:
  assumes "projects s = us @ p # vs" and "project_id p \<notin> project_id ` set (us @ vs)" and "project_id q = project_id p"
  shows "projects (replaceProject s q sel) = us @ q # vs"
  using assms(2) by (simp add: replaceProject_def assms(1,3) image_Un)

definition selectable :: "Project list \<Rightarrow> jsstr \<Rightarrow> bool" where
  "selectable ps sel \<longleftrightarrow> (\<exists>p \<in> set ps. project_id p = sel \<and> \<not> project_archived p)"

lemma wf_replace:
  assumes wf: "wf_state s" and split: "projects s = us @ p # vs"
    and new: "project_id p \<notin> project_id ` set (us @ vs)" and q: "project_id q = project_id p" "wf_project q"
    and ids: "distinct (map chat_id (chats q))" "chat_id ` set (chats q) \<inter> set (chat_ids (us @ vs)) = {}"
    and sel: "selectable (us @ q # vs) sel"
  shows "wf_state (replaceProject s q sel)"
proof -
  have "distinct (chat_ids (us @ q # vs))"
    using wf_stateD(3) [OF wf] ids by (auto simp: split)
  moreover have "distinct (map project_id (us @ q # vs))"
    using wf_stateD(2) [OF wf] q(1) by (simp add: split)
  moreover have "PERSONAL_PROJECT_ID \<in> project_id ` set (us @ q # vs)"
    using wf q(1) by (simp add: wf_state_def split)
  moreover have "\<forall>r \<in> set (us @ q # vs). wf_project r"
    using wf q(2) by (auto simp: wf_state_def split)
  ultimately show ?thesis
    using sel unfolding wf_state_def selectable_def replaceProject_split [OF split new q(1)]
    by (simp add: replaceProject_def)
qed

lemma wf_selectable: "wf_state s \<Longrightarrow> selectable (projects s) (selectedProjectId s)"
  by (simp add: wf_state_def selectable_def)

lemma selectable_replace:
  "selectable (us @ p # vs) sel \<Longrightarrow> project_id q = project_id p \<Longrightarrow> project_archived q \<longrightarrow> project_archived p \<Longrightarrow>
   selectable (us @ q # vs) sel"
  by (auto simp: selectable_def)

text \<open>The chat identifiers of a split list of projects.\<close>

lemma split_ids:
  assumes "wf_state s" and "projects s = us @ p # vs"
  shows "distinct (map chat_id (chats p))" "chat_id ` set (chats p) \<inter> set (chat_ids (us @ vs)) = {}"
  using wf_stateD(3) [OF assms(1)] by (auto simp: assms(2))

lemma chatOwner_None: "chatOwner s i = None \<longleftrightarrow> i \<notin> set (chat_ids (projects s))"
  by (auto simp: chatOwner_def find_None_conv set_chat_ids list_ex_iff)

lemma chatInProject_Inr:
  assumes "chatInProject s projectId chatId = Inr (p, c)"
  shows "projectById s projectId = Some p" "c \<in> set (chats p)" "chat_id c = chatId"
  using assms find_Some_mem [of "\<lambda>c. chat_id c = chatId" "chats p" c]
  by (auto simp: chatInProject_def split: option.splits)

lemma update_chat_ids [simp]:
  "\<lbrakk>\<And>c. chat_id (f c) = chat_id c\<rbrakk> \<Longrightarrow> map chat_id (update_chat i f cs) = map chat_id cs"
  by (auto simp: update_chat_def)

lemma set_update_chat: "set (update_chat i f cs) = (\<lambda>c. if chat_id c = i then f c else c) ` set cs"
  by (simp add: update_chat_def)

text \<open>The replacement of a remembered chat is an active chat other than the one that goes.\<close>

lemma replacement_other:
  assumes "wf_selected p" and "replacementChatAfterArchive p i = Some j"
  shows "\<exists>c \<in> set (chats p). chat_id c = j \<and> j \<noteq> i \<and> \<not> chat_archived c"
proof -
  have tl: "x \<in> set (tl xs) \<Longrightarrow> x \<in> set xs" for x and xs :: "ProjectChat list" by (cases xs) auto
  have sub: "set (chats_after i (chats p)) \<subseteq> set (chats p)"
    by (auto simp: chats_after_def dest!: tl dest: set_dropWhileD)
  have sub': "set (chats_before i (chats p)) \<subseteq> set (chats p)"
    by (auto simp: chats_before_def dest: in_set_butlastD set_takeWhileD)
  show ?thesis
    using assms sub sub'
    by (auto simp: replacementChatAfterArchive_def wf_selected_def split: if_splits option.splits
        dest!: find_Some_mem)
qed


text \<open>
  Replacing one project by a version that keeps its identity and its kind and whose chats and
  remembered chat are in order gives a valid state.
\<close>

definition good_version :: "Project \<Rightarrow> Project \<Rightarrow> bool" where
  "good_version p q \<longleftrightarrow>
     project_id q = project_id p \<and> kind q = kind p \<and> isProjectChatLabel (project_name q) \<and>
     (kind p = PersonalKind \<longrightarrow> project_name q = project_name p \<and> project_archived q = project_archived p) \<and>
     (\<forall>c \<in> set (chats q). wf_chat (project_id p) c) \<and> wf_selected q"

lemma good_version_wf: "wf_project p \<Longrightarrow> good_version p q \<Longrightarrow> wf_project q"
  by (auto simp: good_version_def wf_project_def wf_kind_def split: project_kind.splits)

lemma wf_replace_version:
  assumes "wf_state s" and "projectById s i = Some p" and "good_version p q"
    and "distinct (map chat_id (chats q))"
    and "\<And>us vs. projects s = us @ p # vs \<Longrightarrow> chat_id ` set (chats q) \<inter> set (chat_ids (us @ vs)) = {}"
    and "\<And>us vs. projects s = us @ p # vs \<Longrightarrow> selectable (us @ q # vs) sel"
  shows "wf_state (replaceProject s q sel)"
proof -
  note p = projectById_Some [OF assms(2)]
  obtain us vs where split: "projects s = us @ p # vs" "project_id p \<notin> project_id ` set (us @ vs)"
    by (rule project_split [OF assms(1) p(1)])
  have "wf_project q" by (rule good_version_wf [OF wf_stateD(1) [OF assms(1) p(1)] assms(3)])
  with wf_replace [OF assms(1) split _ _ assms(4) assms(5) [OF split(1)] assms(6) [OF split(1)]] assms(3)
  show ?thesis by (simp add: good_version_def)
qed

text \<open>The common case: the chats keep their identifiers, the selected project does not change.\<close>

lemma wf_replace_same_ids:
  assumes "wf_state s" and "projectById s i = Some p" and "good_version p q"
    and "map chat_id (chats q) = map chat_id (chats p)" and "project_archived q \<longrightarrow> project_archived p"
  shows "wf_state (replaceProject s q (selectedProjectId s))"
proof (rule wf_replace_version [OF assms(1-3)])
  note p = projectById_Some [OF assms(2)]
  obtain us vs where "projects s = us @ p # vs" by (rule project_split [OF assms(1) p(1)])
  then show "distinct (map chat_id (chats q))" using split_ids(1) [OF assms(1)] by (simp add: assms(4))
  fix us vs assume split: "projects s = us @ p # vs"
  have "chat_id ` set (chats q) = chat_id ` set (chats p)" using assms(4) by (metis list.set_map)
  then show "chat_id ` set (chats q) \<inter> set (chat_ids (us @ vs)) = {}"
    using split_ids(2) [OF assms(1) split] by simp
  show "selectable (us @ q # vs) (selectedProjectId s)"
    using wf_selectable [OF assms(1)] assms(3,5) unfolding split
    by (auto intro: selectable_replace simp: good_version_def)
qed

lemma wf_project_parts:
  assumes "wf_state s" and "projectById s i = Some p"
  shows "wf_project p" "isProjectChatLabel (project_name p)" "\<forall>c \<in> set (chats p). wf_chat (project_id p) c"
    "wf_selected p" "kind p = PersonalKind \<longleftrightarrow> project_id p = PERSONAL_PROJECT_ID" "distinct (map chat_id (chats p))"
    "kind p = PersonalKind \<Longrightarrow> \<not> project_archived p"
proof -
  note p = projectById_Some [OF assms(2)]
  show wf: "wf_project p" by (rule wf_stateD(1) [OF assms(1) p(1)])
  then show "isProjectChatLabel (project_name p)" "\<forall>c \<in> set (chats p). wf_chat (project_id p) c" "wf_selected p"
    "kind p = PersonalKind \<Longrightarrow> \<not> project_archived p"
    by (auto simp: wf_project_def wf_kind_def)
  show "kind p = PersonalKind \<longleftrightarrow> project_id p = PERSONAL_PROJECT_ID" by (rule wf_kind_personal [OF wf])
  show "distinct (map chat_id (chats p))"
    by (rule project_split [OF assms(1) p(1)]) (rule split_ids(1) [OF assms(1)])
qed

lemma wf_selected_updates [simp]:
  "wf_selected (p\<lparr>project_name := n\<rparr>) = wf_selected p" "wf_selected (p\<lparr>project_archived := b\<rparr>) = wf_selected p"
  "wf_selected (p\<lparr>project_pinned := b\<rparr>) = wf_selected p"
  by (simp_all add: wf_selected_def)

lemma wf_selected_update_chat:
  assumes "wf_selected p" and "\<And>c. chat_id (f c) = chat_id c" and "\<And>c. \<not> chat_archived c \<Longrightarrow> \<not> chat_archived (f c)"
  shows "wf_selected (p\<lparr>chats := update_chat i f (chats p)\<rparr>)"
  unfolding wf_selected_def
proof (intro allI impI)
  fix k assume "selectedChatId (p\<lparr>chats := update_chat i f (chats p)\<rparr>) = Some k"
  with assms(1) obtain c where c: "c \<in> set (chats p)" "chat_id c = k" "\<not> chat_archived c"
    by (auto simp: wf_selected_def)
  let ?c = "if chat_id c = i then f c else c"
  have "?c \<in> set (chats (p\<lparr>chats := update_chat i f (chats p)\<rparr>))"
    using c(1) by (simp add: set_update_chat)
  moreover have "chat_id ?c = k \<and> \<not> chat_archived ?c" using c assms(2,3) by simp
  ultimately show "\<exists>c \<in> set (chats (p\<lparr>chats := update_chat i f (chats p)\<rparr>)). chat_id c = k \<and> \<not> chat_archived c"
    by blast
qed

lemma wf_project_rename: "wf_state s \<Longrightarrow> project_rename s i n = Apply s' \<Longrightarrow> wf_state s'"
  by (auto simp: project_rename_def good_version_def wf_project_parts split: option.splits if_splits
      intro!: wf_replace_same_ids dest: wf_project_parts(3))

lemma wf_project_set_pinned: "wf_state s \<Longrightarrow> project_set_pinned s i b = Apply s' \<Longrightarrow> wf_state s'"
  by (auto simp: project_set_pinned_def good_version_def wf_project_parts split: option.splits if_splits
      intro!: wf_replace_same_ids dest: wf_project_parts(3))

lemma wf_project_restore: "wf_state s \<Longrightarrow> project_restore s i = Apply s' \<Longrightarrow> wf_state s'"
  by (auto simp: project_restore_def good_version_def wf_project_parts split: option.splits if_splits
      intro!: wf_replace_same_ids dest: wf_project_parts(3))

lemma wf_project_create:
  assumes "wf_state s" and "isProjectChatId i" and "project_create s i n f = Apply s'"
  shows "wf_state s'"
proof -
  from assms(3) have ok: "isProjectChatLabel n" "validFolderPath f" "projectById s i = None"
    and s': "s' = s\<lparr>selectedProjectId := i, projects := projects s @ [\<lparr>project_id = i, kind = FolderKind f,
      project_name = n, project_pinned = False, project_archived = False, selectedChatId = None, chats = []\<rparr>]\<rparr>"
    by (auto simp: project_create_def split: if_splits)
  have "i \<notin> project_id ` set (projects s)"
    using ok(3) by (auto simp: projectById_def find_None_conv)
  moreover from this have "i \<noteq> PERSONAL_PROJECT_ID" using assms(1) by (auto simp: wf_state_def)
  ultimately show ?thesis
    using assms(1,2) ok by (auto simp: wf_state_def s' wf_project_def wf_kind_def wf_selected_def)
qed

lemma wf_project_archive:
  assumes "wf_state s" and "project_archive s i = Apply s'"
  shows "wf_state s'"
proof -
  from assms(2) obtain p where p: "projectById s i = Some p" "kind p \<noteq> PersonalKind" "\<not> project_archived p"
    and s': "s' = replaceProject s (p\<lparr>project_archived := True\<rparr>)
      (if selectedProjectId s = project_id p then PERSONAL_PROJECT_ID else selectedProjectId s)"
    by (auto simp: project_archive_def Let_def split: option.splits if_splits)
  note parts = wf_project_parts [OF assms(1) p(1)] and mem = projectById_Some [OF p(1)]
  have pers: "project_id p \<noteq> PERSONAL_PROJECT_ID" using parts(5) p(2) by blast
  show ?thesis unfolding s'
  proof (rule wf_replace_version [OF assms(1) p(1)])
    show "good_version p (p\<lparr>project_archived := True\<rparr>)" using parts(2-4) p(2) by (simp add: good_version_def)
    show "distinct (map chat_id (chats (p\<lparr>project_archived := True\<rparr>)))" using parts(6) by simp
    fix us vs assume split: "projects s = us @ p # vs"
    then show "chat_id ` set (chats (p\<lparr>project_archived := True\<rparr>)) \<inter> set (chat_ids (us @ vs)) = {}"
      using split_ids(2) [OF assms(1) split] by simp
    obtain q where q: "q \<in> set (projects s)" "project_id q = PERSONAL_PROJECT_ID"
      using assms(1) by (auto simp: wf_state_def)
    then have "\<not> project_archived q"
      using wf_stateD(1) [OF assms(1) q(1)] wf_kind_personal [of q] by (auto simp: wf_project_def wf_kind_def)
    moreover have "q \<in> set (us @ vs)" using q pers by (auto simp: split)
    ultimately show "selectable (us @ p\<lparr>project_archived := True\<rparr> # vs)
        (if selectedProjectId s = project_id p then PERSONAL_PROJECT_ID else selectedProjectId s)"
      using q wf_selectable [OF assms(1)] by (auto simp: selectable_def split)
  qed
qed

text \<open>The cases on an existing chat.\<close>

lemma with_chat_Apply:
  assumes "with_chat s i j f = Apply s'"
  obtains p c where "projectById s i = Some p" "c \<in> set (chats p)" "chat_id c = j" "f p c = Apply s'"
  using assms chatInProject_Inr [of s i j] unfolding with_chat_def by (fastforce split: sum.splits)

lemma wf_update_chat_field:
  assumes "wf_state s" and "projectById s i = Some p"
    and "\<And>c. chat_id (f c) = chat_id c" and "\<And>c. chat_projectId (f c) = chat_projectId c"
    and "\<And>c. chat_archived (f c) = chat_archived c"
    and "\<And>c. wf_chat (project_id p) c \<Longrightarrow> wf_chat (project_id p) (f c)"
  shows "wf_state (replaceProject s (p\<lparr>chats := update_chat j f (chats p)\<rparr>) (selectedProjectId s))"
proof (rule wf_replace_same_ids [OF assms(1,2)])
  note parts = wf_project_parts [OF assms(1,2)]
  show "good_version p (p\<lparr>chats := update_chat j f (chats p)\<rparr>)"
    using parts assms(3-6) by (auto simp: good_version_def set_update_chat intro!: wf_selected_update_chat)
qed (use assms in auto)

lemma wf_chat_rename: "wf_state s \<Longrightarrow> chat_rename s i j n = Apply s' \<Longrightarrow> wf_state s'"
  by (auto simp: chat_rename_def wf_chat_def split: if_splits elim!: with_chat_Apply intro!: wf_update_chat_field)

lemma wf_chat_set_pinned: "wf_state s \<Longrightarrow> chat_set_pinned s i j b = Apply s' \<Longrightarrow> wf_state s'"
  by (auto simp: chat_set_pinned_def wf_chat_def split: if_splits elim!: with_chat_Apply intro!: wf_update_chat_field)

lemma wf_chat_bind:
  "wf_state s \<Longrightarrow> wf_binding b \<Longrightarrow> chat_bind_prime_session s i j b = Apply s' \<Longrightarrow> wf_state s'"
  by (auto simp: chat_bind_prime_session_def wf_chat_def split: if_splits option.splits
      elim!: with_chat_Apply intro!: wf_update_chat_field)


lemma wf_selected_archive:
  assumes "wf_selected p"
  shows "wf_selected (p\<lparr>selectedChatId := replacementChatAfterArchive p i,
    chats := update_chat i (\<lambda>c. c\<lparr>chat_archived := True\<rparr>) (chats p)\<rparr>)"
  using replacement_other [OF assms, of i] by (fastforce simp: wf_selected_def set_update_chat)

lemma wf_chat_archive:
  assumes "wf_state s" and "chat_archive s i j = Apply s'"
  shows "wf_state s'"
proof -
  from assms(2) obtain p where p: "projectById s i = Some p"
    and s': "s' = replaceProject s (p\<lparr>selectedChatId := replacementChatAfterArchive p j,
      chats := update_chat j (\<lambda>c. c\<lparr>chat_archived := True\<rparr>) (chats p)\<rparr>) (selectedProjectId s)"
    unfolding chat_archive_def by (elim with_chat_Apply) (auto split: if_splits)
  note parts = wf_project_parts [OF assms(1) p]
  show ?thesis
    unfolding s' using parts wf_selected_archive [OF parts(4)]
    by (intro wf_replace_same_ids [OF assms(1) p]) (auto simp: good_version_def set_update_chat wf_chat_def)
qed

lemma wf_chat_restore:
  assumes "wf_state s" and "chat_restore s i j = Apply s'"
  shows "wf_state s'"
proof -
  let ?f = "\<lambda>c. c\<lparr>chat_archived := False\<rparr>"
  let ?has = "\<lambda>p. list_ex (\<lambda>c. Some (chat_id c) = selectedChatId p \<and> \<not> chat_archived c) (chats p)"
  let ?q = "\<lambda>p c. p\<lparr>selectedChatId := (if ?has p then selectedChatId p else Some (chat_id c)),
      chats := update_chat (chat_id c) ?f (chats p)\<rparr>"
  from assms(2) obtain p c where p: "projectById s i = Some p" and c: "c \<in> set (chats p)"
    and s': "s' = replaceProject s (?q p c) (selectedProjectId s)"
    unfolding chat_restore_def Let_def by (elim with_chat_Apply) (auto split: if_splits)
  note parts = wf_project_parts [OF assms(1) p]
  have "wf_selected (p\<lparr>chats := update_chat (chat_id c) ?f (chats p)\<rparr>)"
    by (rule wf_selected_update_chat [OF parts(4)]) auto
  moreover have "?f c \<in> set (update_chat (chat_id c) ?f (chats p))"
    using c by (force simp: set_update_chat)
  ultimately have "wf_selected (?q p c)"
    by (cases "?has p") (auto simp: wf_selected_def intro: bexI [of _ "?f c"])
  then show ?thesis
    unfolding s' using parts by (intro wf_replace_same_ids [OF assms(1) p])
      (auto simp: good_version_def set_update_chat wf_chat_def)
qed

text \<open>A new active chat at the end of an active project, which becomes the selected one.\<close>

abbreviation add_chat :: "Project \<Rightarrow> ProjectChat \<Rightarrow> Project" where
  "add_chat p c \<equiv> p\<lparr>selectedChatId := Some (chat_id c), chats := chats p @ [c]\<rparr>"

lemma wf_add_chat:
  assumes "wf_state s" and "projectById s i = Some p" and "wf_chat (project_id p) c"
    and "chat_id c \<notin> set (chat_ids (projects s))"
    and "\<not> chat_archived c" and "\<not> project_archived p"
  shows "wf_state (replaceProject s (add_chat p c) (project_id p))"
proof (rule wf_replace_version [OF assms(1,2)])
  note parts = wf_project_parts [OF assms(1,2)] and mem = projectById_Some [OF assms(2)]
  have new: "chat_id c \<notin> chat_id ` set (chats p)" using assms(4) mem(1) by (auto simp: set_chat_ids)
  show "good_version p (add_chat p c)"
    using parts assms(3,5) by (auto simp: good_version_def wf_selected_def)
  show "distinct (map chat_id (chats (add_chat p c)))" using parts(6) new by simp
  fix us vs assume split: "projects s = us @ p # vs"
  show "chat_id ` set (chats (add_chat p c)) \<inter> set (chat_ids (us @ vs)) = {}"
    using split_ids(2) [OF assms(1) split] assms(4) by (auto simp: split)
  show "selectable (us @ add_chat p c # vs) (project_id p)"
    using assms(6) by (auto simp: selectable_def)
qed

lemma wf_new_chat:
  "isProjectChatId i \<Longrightarrow> isProjectChatLabel n \<Longrightarrow> wf_chat owner (new_chat i owner n)"
  by (simp add: wf_chat_def new_chat_def)

lemma new_chat_simps [simp]:
  "chat_id (new_chat i owner n) = i" "\<not> chat_archived (new_chat i owner n)"
  "binding (new_chat i owner n) = None"
  by (simp_all add: new_chat_def)

lemma wf_chat_create:
  assumes "wf_state s" and "isProjectChatId j" and "chat_create s i j n = Apply s'"
  shows "wf_state s'"
proof -
  from assms(3) obtain p where "projectById s i = Some p" "isProjectChatLabel n" "\<not> project_archived p"
    "j \<notin> set (chat_ids (projects s))"
    "s' = replaceProject s (add_chat p (new_chat j (project_id p) n)) (project_id p)"
    by (auto simp: chat_create_def simp flip: chatOwner_None split: option.splits if_splits)
  with wf_add_chat [OF assms(1), of i p "new_chat j (project_id p) n"] assms(2) wf_new_chat show ?thesis by simp
qed

lemma wf_chat_duplicate:
  assumes "wf_state s" and "isProjectChatId k" and "chat_duplicate s i j k n = Apply s'"
    and "\<forall>p. projectById s i = Some p \<longrightarrow> \<not> project_archived p"
  shows "wf_state s'"
proof -
  from assms(3) obtain p where "projectById s i = Some p" "isProjectChatLabel n"
    "k \<notin> set (chat_ids (projects s))"
    "s' = replaceProject s (add_chat p (new_chat k (project_id p) n)) (project_id p)"
    unfolding chat_duplicate_def
    by (elim with_chat_Apply) (auto simp flip: chatOwner_None split: option.splits if_splits)
  with wf_add_chat [OF assms(1), of i p "new_chat k (project_id p) n"] assms(2,4) wf_new_chat show ?thesis by simp
qed

lemma wf_remove_chat:
  assumes "wf_state s" and "projectById s i = Some p"
  shows "wf_state (replaceProject s (remove_chat p j) (selectedProjectId s))"
proof (rule wf_replace_version [OF assms])
  note parts = wf_project_parts [OF assms]
  show "good_version p (remove_chat p j)"
    using parts replacement_other [OF parts(4), of j]
    by (auto simp: good_version_def remove_chat_def wf_selected_def)
  show "distinct (map chat_id (chats (remove_chat p j)))"
    using distinct_map_filter_key [OF parts(6)] by (simp add: remove_chat_def)
  fix us vs assume split: "projects s = us @ p # vs"
  show "chat_id ` set (chats (remove_chat p j)) \<inter> set (chat_ids (us @ vs)) = {}"
    using split_ids(2) [OF assms(1) split] by (auto simp: remove_chat_def)
  have "selectable (us @ p # vs) (selectedProjectId s)" using wf_selectable [OF assms(1)] unfolding split .
  then show "selectable (us @ remove_chat p j # vs) (selectedProjectId s)"
    by (rule selectable_replace) (simp_all add: remove_chat_def)
qed

lemma wf_chat_delete: "wf_state s \<Longrightarrow> chat_delete s i j = Apply s' \<Longrightarrow> wf_state s'"
  unfolding chat_delete_def by (elim with_chat_Apply) (auto intro: wf_remove_chat)


text \<open>A move is a deletion followed by an insertion elsewhere.\<close>

lemma replace_twice:
  assumes "project_id p \<noteq> project_id q"
  shows "s\<lparr>selectedProjectId := sel, projects := map (\<lambda>r. if project_id r = project_id p then p
      else if project_id r = project_id q then q else r) (projects s)\<rparr> =
    replaceProject (replaceProject s p sel0) q sel"
  using assms by (simp add: replaceProject_def comp_def)

lemma projectById_replace_other:
  assumes "project_id q \<noteq> k" and "projectById s k = Some t"
  shows "projectById (replaceProject s q sel) k = Some t"
proof -
  have "find (\<lambda>p. project_id p = k) ps = Some t \<Longrightarrow>
    find (\<lambda>p. project_id p = k) (map (\<lambda>p. if project_id p = project_id q then q else p) ps) = Some t" for ps
    using assms(1) by (induction ps) (auto split: if_splits)
  with assms(2) show ?thesis by (simp add: projectById_def replaceProject_def)
qed

lemma chat_ids_remove:
  assumes "wf_state s" and "projectById s i = Some p"
  shows "j \<notin> set (chat_ids (projects (replaceProject s (remove_chat p j) sel))) \<or> j \<notin> chat_id ` set (chats p)"
proof -
  note p = projectById_Some [OF assms(2)]
  obtain us vs where split: "projects s = us @ p # vs" "project_id p \<notin> project_id ` set (us @ vs)"
    by (rule project_split [OF assms(1) p(1)])
  have "projects (replaceProject s (remove_chat p j) sel) = us @ remove_chat p j # vs"
    by (rule replaceProject_split [OF split]) (simp add: remove_chat_def)
  then show ?thesis using split_ids(2) [OF assms(1) split(1)] by (auto simp: remove_chat_def)
qed

lemma chat_move_Apply:
  assumes "chat_move s i j k = Apply s'"
  obtains p c t where "projectById s i = Some p" "c \<in> set (chats p)" "chat_id c = j"
    "project_id p \<noteq> k" "projectById s k = Some t" "\<not> project_archived t"
    "s' = replaceProject (replaceProject s (remove_chat p j) (selectedProjectId s))
       (add_chat t (c\<lparr>chat_projectId := project_id t\<rparr>)) (project_id t)"
proof -
  from assms obtain p c where p: "projectById s i = Some p" "c \<in> set (chats p)" "chat_id c = j"
    and rest: "(if project_id p = k then Keep AlreadySelected
       else case projectById s k of
         None \<Rightarrow> Refuse ProjectNotFound
       | Some target \<Rightarrow>
           if project_archived target then Refuse ProjectArchived
           else
             let moved = c\<lparr>chat_projectId := project_id target\<rparr>;
                 source = remove_chat p (chat_id c);
                 destination = target\<lparr>selectedChatId := Some (chat_id moved), chats := chats target @ [moved]\<rparr>
             in Apply (s\<lparr>selectedProjectId := project_id target,
                  projects := map (\<lambda>p. if project_id p = project_id source then source
                    else if project_id p = project_id destination then destination else p) (projects s)\<rparr>)) = Apply s'"
    unfolding chat_move_def by (rule with_chat_Apply)
  from rest obtain t where t: "project_id p \<noteq> k" "projectById s k = Some t" "\<not> project_archived t"
    by (auto split: if_splits option.splits)
  let ?dest = "add_chat t (c\<lparr>chat_projectId := project_id t\<rparr>)"
  have ne: "project_id (remove_chat p j) \<noteq> project_id ?dest"
    using t projectById_Some(2) [OF t(2)] by (simp add: remove_chat_def)
  from rest t p(3) have "s' = s\<lparr>selectedProjectId := project_id t,
      projects := map (\<lambda>r. if project_id r = project_id (remove_chat p j) then remove_chat p j
        else if project_id r = project_id ?dest then ?dest else r) (projects s)\<rparr>"
    by (simp add: Let_def)
  also have "\<dots> = replaceProject (replaceProject s (remove_chat p j) (selectedProjectId s)) ?dest (project_id t)"
    by (rule replace_twice [OF ne])
  finally have "s' = replaceProject (replaceProject s (remove_chat p j) (selectedProjectId s)) ?dest (project_id t)" .
  with p t show ?thesis using that by blast
qed

lemma wf_chat_move:
  assumes wf: "wf_state s" and mv: "chat_move s i j k = Apply s'"
    and active: "\<forall>p c. projectById s i = Some p \<longrightarrow> c \<in> set (chats p) \<longrightarrow> chat_id c = j \<longrightarrow> \<not> chat_archived c"
  shows "wf_state s'"
proof -
  from mv obtain p c t where p: "projectById s i = Some p" and c: "c \<in> set (chats p)" "chat_id c = j"
    and k: "project_id p \<noteq> k" and t: "projectById s k = Some t" "\<not> project_archived t"
    and s': "s' = replaceProject (replaceProject s (remove_chat p j) (selectedProjectId s))
       (add_chat t (c\<lparr>chat_projectId := project_id t\<rparr>)) (project_id t)"
    by (rule chat_move_Apply)
  let ?s = "replaceProject s (remove_chat p j) (selectedProjectId s)"
  show ?thesis unfolding s'
  proof (rule wf_add_chat [OF wf_remove_chat [OF wf p]])
    show "projectById ?s k = Some t"
      using k t(1) by (intro projectById_replace_other) (simp_all add: remove_chat_def)
    show "wf_chat (project_id t) (c\<lparr>chat_projectId := project_id t\<rparr>)"
      using wf_project_parts(3) [OF wf p] c by (auto simp: wf_chat_def)
    show "chat_id (c\<lparr>chat_projectId := project_id t\<rparr>) \<notin> set (chat_ids (projects ?s))"
      using chat_ids_remove [OF wf p, of j "selectedProjectId s"] c by auto
    show "\<not> chat_archived (c\<lparr>chat_projectId := project_id t\<rparr>)" using active p c by simp
    show "\<not> project_archived t" by (rule t(2))
  qed
qed

lemma wf_select_project:
  "wf_state s \<Longrightarrow> select_project s i = Apply s' \<Longrightarrow> wf_state s'"
  using projectById_Some by (fastforce simp: select_project_def wf_state_def split: option.splits if_splits)

lemma wf_select_chat:
  assumes "wf_state s" and "select_chat s i j = Apply s'"
  shows "wf_state s'"
proof -
  from assms(2) obtain p c where p: "projectById s i = Some p" "\<not> project_archived p"
    and c: "find (\<lambda>c. chat_id c = j) (chats p) = Some c" "\<not> chat_archived c"
    and s': "s' = replaceProject s (p\<lparr>selectedChatId := Some (chat_id c)\<rparr>) (project_id p)"
    by (auto simp: select_chat_def split: option.splits if_splits)
  note parts = wf_project_parts [OF assms(1) p(1)]
  show ?thesis unfolding s'
  proof (rule wf_replace_version [OF assms(1) p(1)])
    show "good_version p (p\<lparr>selectedChatId := Some (chat_id c)\<rparr>)"
      using parts find_Some_mem [OF c(1)] c(2) by (auto simp: good_version_def wf_selected_def)
    show "distinct (map chat_id (chats (p\<lparr>selectedChatId := Some (chat_id c)\<rparr>)))" using parts(6) by simp
    fix us vs assume split: "projects s = us @ p # vs"
    show "chat_id ` set (chats (p\<lparr>selectedChatId := Some (chat_id c)\<rparr>)) \<inter> set (chat_ids (us @ vs)) = {}"
      using split_ids(2) [OF assms(1) split] by simp
    show "selectable (us @ p\<lparr>selectedChatId := Some (chat_id c)\<rparr> # vs) (project_id p)"
      using p(2) by (auto simp: selectable_def)
  qed
qed



section \<open>The abstract store\<close>

text \<open>
  The promise of the reducer in terms of two maps: the chats by identifier, and the projects'
  own attributes by identifier.
\<close>

definition look :: "ProjectChat list \<Rightarrow> jsstr \<Rightarrow> ProjectChat option" where
  "look cs i = find (\<lambda>c. chat_id c = i) cs"

definition chat_map :: "ProjectChatState \<Rightarrow> jsstr \<Rightarrow> ProjectChat option" where
  "chat_map s = look (concat (map chats (projects s)))"

definition project_map :: "ProjectChatState \<Rightarrow> jsstr \<Rightarrow> (project_kind \<times> jsstr \<times> bool \<times> bool) option" where
  "project_map s i =
     map_option (\<lambda>p. (kind p, project_name p, project_pinned p, project_archived p)) (projectById s i)"

fun chat_effect :: "ProjectChatCommand \<Rightarrow> (jsstr \<rightharpoonup> ProjectChat) \<Rightarrow> jsstr \<rightharpoonup> ProjectChat" where
  "chat_effect (ChatCreate p c n) m = m(c \<mapsto> new_chat c p n)"
| "chat_effect (ChatDuplicate p _ c n) m = m(c \<mapsto> new_chat c p n)"
| "chat_effect (ChatBindPrimeSession _ c b) m = m(c := map_option (\<lambda>x. x\<lparr>binding := Some b\<rparr>) (m c))"
| "chat_effect (ChatRename _ c n) m = m(c := map_option (\<lambda>x. x\<lparr>title := n\<rparr>) (m c))"
| "chat_effect (ChatArchive _ c) m = m(c := map_option (\<lambda>x. x\<lparr>chat_archived := True\<rparr>) (m c))"
| "chat_effect (ChatRestore _ c) m = m(c := map_option (\<lambda>x. x\<lparr>chat_archived := False\<rparr>) (m c))"
| "chat_effect (ChatSetPinned _ c b) m = m(c := map_option (\<lambda>x. x\<lparr>chat_pinned := b\<rparr>) (m c))"
| "chat_effect (ChatMove _ c t) m = m(c := map_option (\<lambda>x. x\<lparr>chat_projectId := t\<rparr>) (m c))"
| "chat_effect (ChatDelete _ c) m = m(c := None)"
| "chat_effect (ProjectCreate _ _ _) m = m"
| "chat_effect (ProjectRename _ _) m = m"
| "chat_effect (ProjectArchive _) m = m"
| "chat_effect (ProjectRestore _) m = m"
| "chat_effect (ProjectSetPinned _ _) m = m"
| "chat_effect (SelectProject _) m = m"
| "chat_effect (SelectChat _ _) m = m"

definition project_effect ::
  "ProjectChatCommand \<Rightarrow> (jsstr \<rightharpoonup> project_kind \<times> jsstr \<times> bool \<times> bool) \<Rightarrow> jsstr \<rightharpoonup> project_kind \<times> jsstr \<times> bool \<times> bool" where
  "project_effect cmd m =
     (case cmd of
        ProjectCreate p n f \<Rightarrow> m(p \<mapsto> (FolderKind f, n, False, False))
      | ProjectRename p n \<Rightarrow> m(p := map_option (\<lambda>(k, _, b, a). (k, n, b, a)) (m p))
      | ProjectArchive p \<Rightarrow> m(p := map_option (\<lambda>(k, n, b, _). (k, n, b, True)) (m p))
      | ProjectRestore p \<Rightarrow> m(p := map_option (\<lambda>(k, n, b, _). (k, n, b, False)) (m p))
      | ProjectSetPinned p b \<Rightarrow> m(p := map_option (\<lambda>(k, n, _, a). (k, n, b, a)) (m p))
      | _ \<Rightarrow> m)"

lemma look_simps [simp]:
  "look [] k = None" "look (c # cs) k = (if chat_id c = k then Some c else look cs k)"
  by (simp_all add: look_def)

lemma look_append [simp]: "look (cs @ ds) k = (case look cs k of Some c \<Rightarrow> Some c | None \<Rightarrow> look ds k)"
  by (induction cs) auto

lemma look_None: "look cs k = None \<longleftrightarrow> k \<notin> chat_id ` set cs"
  by (auto simp: look_def find_None_conv)

lemma look_update:
  "\<lbrakk>\<And>c. chat_id (f c) = chat_id c\<rbrakk> \<Longrightarrow>
   look (update_chat j f cs) = (look cs)(j := map_option f (look cs j))"
  by (rule ext, induction cs) (auto simp: update_chat_def)

lemma look_remove: "look (filter (\<lambda>c. chat_id c \<noteq> j) cs) = (look cs)(j := None)"
  by (rule ext, induction cs) auto

lemma look_Some: "distinct (map chat_id cs) \<Longrightarrow> c \<in> set cs \<Longrightarrow> look cs (chat_id c) = Some c"
  unfolding look_def by (rule find_distinct_key)

lemma chat_map_split:
  assumes "projects s = us @ p # vs"
  shows "chat_map s k = (case look (concat (map chats us)) k of Some c \<Rightarrow> Some c
    | None \<Rightarrow> (case look (chats p) k of Some c \<Rightarrow> Some c | None \<Rightarrow> look (concat (map chats vs)) k))"
  by (simp add: chat_map_def assms split: option.split)

lemma look_outside: "k \<notin> set (chat_ids ps) \<Longrightarrow> look (concat (map chats ps)) k = None"
  by (auto simp: look_None set_chat_ids)

text \<open>Replacing one project changes the chats as it changes that project's chats, at one identifier.\<close>

lemma chat_map_replace:
  assumes "wf_state s" and "projectById s i = Some p" and "project_id q = project_id p"
    and upd: "look (chats q) = (look (chats p))(j := h (look (chats p) j))"
    and out: "\<And>us vs. projects s = us @ p # vs \<Longrightarrow> j \<notin> set (chat_ids (us @ vs))"
  shows "chat_map (replaceProject s q sel) = (chat_map s)(j := h (chat_map s j))"
proof
  fix k
  note p = projectById_Some [OF assms(2)]
  obtain us vs where split: "projects s = us @ p # vs" "project_id p \<notin> project_id ` set (us @ vs)"
    by (rule project_split [OF assms(1) p(1)])
  note split' = replaceProject_split [OF split assms(3), of sel]
  have "look (concat (map chats us)) j = None" "look (concat (map chats vs)) j = None"
    using out [OF split(1)] by (simp_all add: look_outside)
  then show "chat_map (replaceProject s q sel) k = ((chat_map s)(j := h (chat_map s j))) k"
    by (auto simp: chat_map_split [OF split(1)] chat_map_split [OF split'] upd split: option.split)
qed

lemma chat_map_same:
  assumes "wf_state s" and "projectById s i = Some p" and "project_id q = project_id p" and "chats q = chats p"
  shows "chat_map (replaceProject s q sel) = chat_map s"
proof -
  note p = projectById_Some [OF assms(2)]
  obtain us vs where split: "projects s = us @ p # vs" "project_id p \<notin> project_id ` set (us @ vs)"
    by (rule project_split [OF assms(1) p(1)])
  show ?thesis
    by (simp add: chat_map_def split(1) replaceProject_split [OF split assms(3)] assms(4))
qed

lemma outside_chat:
  assumes "wf_state s" and "projects s = us @ p # vs" and "c \<in> set (chats p)"
  shows "chat_id c \<notin> set (chat_ids (us @ vs))"
  using split_ids(2) [OF assms(1,2)] assms(3) by blast

lemma projectById_replace:
  assumes "projectById s i = Some p" and "project_id q = project_id p"
  shows "projectById (replaceProject s q sel) k = (if k = i then Some q else projectById s k)"
proof -
  have i: "project_id p = i" by (rule projectById_Some(2) [OF assms(1)])
  have "find (\<lambda>p. project_id p = k) (map (\<lambda>p. if project_id p = project_id q then q else p) ps) =
      (if k = i \<and> (\<exists>r \<in> set ps. project_id r = i) then Some q else find (\<lambda>p. project_id p = k) ps)" for ps
    using assms(2) i by (induction ps) auto
  with projectById_Some [OF assms(1)] show ?thesis by (auto simp: projectById_def replaceProject_def)
qed

lemma project_map_replace:
  assumes "projectById s i = Some p" and "project_id q = project_id p"
  shows "project_map (replaceProject s q sel) =
    (project_map s)(i \<mapsto> (kind q, project_name q, project_pinned q, project_archived q))"
  by (rule ext) (simp add: project_map_def projectById_replace [OF assms])

lemma project_map_at: "projectById s i = Some p \<Longrightarrow>
    project_map s i = Some (kind p, project_name p, project_pinned p, project_archived p)"
  by (simp add: project_map_def)


lemma project_map_keep:
  assumes "projectById s i = Some p" and "project_id q = project_id p" and "kind q = kind p"
    and "project_name q = project_name p" and "project_pinned q = project_pinned p"
    and "project_archived q = project_archived p"
  shows "project_map (replaceProject s q sel) = project_map s"
  using project_map_at [OF assms(1)] by (simp add: project_map_replace [OF assms(1,2)] assms(3-6) fun_upd_idem)

definition same_attributes :: "Project \<Rightarrow> Project \<Rightarrow> bool" where
  "same_attributes p q \<longleftrightarrow> project_id q = project_id p \<and> kind q = kind p \<and> project_name q = project_name p \<and>
     project_pinned q = project_pinned p \<and> project_archived q = project_archived p"

lemma effect_update:
  assumes "wf_state s" and "projectById s i = Some p" and "c \<in> set (chats p)" and "same_attributes p q"
    and "chats q = update_chat (chat_id c) f (chats p)" and "\<And>c. chat_id (f c) = chat_id c"
  shows "chat_map (replaceProject s q sel) =
      (chat_map s)(chat_id c := map_option f (chat_map s (chat_id c))) \<and>
    project_map (replaceProject s q sel) = project_map s"
proof
  show "chat_map (replaceProject s q sel) = (chat_map s)(chat_id c := map_option f (chat_map s (chat_id c)))"
    using assms outside_chat [OF assms(1) _ assms(3)]
    by (intro chat_map_replace) (auto simp: look_update same_attributes_def)
  show "project_map (replaceProject s q sel) = project_map s"
    using assms(4) by (intro project_map_keep [OF assms(2)]) (simp_all add: same_attributes_def)
qed

lemma effect_add:
  assumes "wf_state s" and "projectById s i = Some p" and "chat_id c \<notin> set (chat_ids (projects s))"
  shows "chat_map (replaceProject s (add_chat p c) sel) = (chat_map s)(chat_id c \<mapsto> c) \<and>
    project_map (replaceProject s (add_chat p c) sel) = project_map s"
proof
  have "chat_id c \<notin> chat_id ` set (chats p)"
    using assms(3) projectById_Some [OF assms(2)] by (auto simp: set_chat_ids)
  then have look: "look (chats (add_chat p c)) = (look (chats p))(chat_id c := Some c)"
    by (auto simp: fun_eq_iff look_None [symmetric] split: option.split)
  show "chat_map (replaceProject s (add_chat p c) sel) = (chat_map s)(chat_id c \<mapsto> c)"
    by (rule chat_map_replace [OF assms(1,2) _ look]) (use assms(3) in auto)
  show "project_map (replaceProject s (add_chat p c) sel) = project_map s"
    by (rule project_map_keep [OF assms(2)]) simp_all
qed

lemma effect_remove:
  assumes "wf_state s" and "projectById s i = Some p" and "c \<in> set (chats p)"
  shows "chat_map (replaceProject s (remove_chat p (chat_id c)) sel) = (chat_map s)(chat_id c := None) \<and>
    project_map (replaceProject s (remove_chat p (chat_id c)) sel) = project_map s"
proof
  have look: "look (chats (remove_chat p (chat_id c))) = (look (chats p))(chat_id c := None)"
    by (simp add: remove_chat_def look_remove)
  show "chat_map (replaceProject s (remove_chat p (chat_id c)) sel) = (chat_map s)(chat_id c := None)"
    using outside_chat [OF assms(1) _ assms(3)]
    by (intro chat_map_replace [OF assms(1,2) _ look]) (auto simp: remove_chat_def)
  show "project_map (replaceProject s (remove_chat p (chat_id c)) sel) = project_map s"
    by (rule project_map_keep [OF assms(2)]) (simp_all add: remove_chat_def)
qed

lemma chat_map_at:
  assumes "wf_state s" and "projectById s i = Some p" and "c \<in> set (chats p)"
  shows "chat_map s (chat_id c) = Some c"
proof -
  note p = projectById_Some [OF assms(2)]
  obtain us vs where split: "projects s = us @ p # vs" "project_id p \<notin> project_id ` set (us @ vs)"
    by (rule project_split [OF assms(1) p(1)])
  have "look (concat (map chats us)) (chat_id c) = None"
    using outside_chat [OF assms(1) split(1) assms(3)] by (simp add: look_outside)
  with look_Some [OF wf_project_parts(6) [OF assms(1,2)] assms(3)] show ?thesis
    by (simp add: chat_map_split [OF split(1)])
qed

text \<open>The effect of each case.\<close>

definition refines :: "ProjectChatCommand \<Rightarrow> ProjectChatState \<Rightarrow> ProjectChatState \<Rightarrow> bool" where
  "refines cmd s s' \<longleftrightarrow>
     chat_map s' = chat_effect cmd (chat_map s) \<and> project_map s' = project_effect cmd (project_map s)"

lemma refines_attribute:
  assumes "wf_state s" and "projectById s i = Some p" and "project_id q = project_id p" and "chats q = chats p"
    and "chat_effect cmd (chat_map s) = chat_map s"
    and "project_effect cmd (project_map s) =
      (project_map s)(i \<mapsto> (kind q, project_name q, project_pinned q, project_archived q))"
  shows "refines cmd s (replaceProject s q sel)"
  using chat_map_same [OF assms(1-4)] project_map_replace [OF assms(2,3)] assms(5,6) by (simp add: refines_def)

lemma refines_project_commands:
  assumes "wf_state s"
  shows "project_rename s i n = Apply s' \<Longrightarrow> refines (ProjectRename i n) s s'"
    and "project_archive s i = Apply s' \<Longrightarrow> refines (ProjectArchive i) s s'"
    and "project_restore s i = Apply s' \<Longrightarrow> refines (ProjectRestore i) s s'"
    and "project_set_pinned s i b = Apply s' \<Longrightarrow> refines (ProjectSetPinned i b) s s'"
    and "select_chat s i j = Apply s' \<Longrightarrow> refines (SelectChat i j) s s'"
    and "select_project s i = Apply s' \<Longrightarrow> refines (SelectProject i) s s'"
  using assms
  by (auto simp: project_rename_def project_archive_def project_restore_def project_set_pinned_def select_chat_def
      select_project_def Let_def project_effect_def project_map_at fun_upd_idem split: option.splits if_splits
      intro!: refines_attribute)
    (simp add: refines_def project_effect_def chat_map_def project_map_def projectById_def fun_eq_iff)


lemma refines_project_create:
  assumes "project_create s i n f = Apply s'"
  shows "refines (ProjectCreate i n f) s s'"
proof -
  from assms have none: "find (\<lambda>p. project_id p = i) (projects s) = None"
    and s': "s' = s\<lparr>selectedProjectId := i, projects := projects s @ [\<lparr>project_id = i, kind = FolderKind f,
      project_name = n, project_pinned = False, project_archived = False, selectedChatId = None, chats = []\<rparr>]\<rparr>"
    by (auto simp: project_create_def projectById_def split: if_splits)
  have "find P (xs @ [x]) = (case find P xs of Some y \<Rightarrow> Some y | None \<Rightarrow> if P x then Some x else None)"
    for P and xs :: "Project list" and x by (induction xs) auto
  with none show ?thesis
    by (auto simp: refines_def s' chat_map_def project_map_def projectById_def project_effect_def fun_eq_iff
        split: option.split)
qed

lemma refines_chat_fields:
  assumes "wf_state s"
  shows "chat_rename s i j n = Apply s' \<Longrightarrow> refines (ChatRename i j n) s s'"
    and "chat_set_pinned s i j b = Apply s' \<Longrightarrow> refines (ChatSetPinned i j b) s s'"
    and "chat_bind_prime_session s i j pb = Apply s' \<Longrightarrow> refines (ChatBindPrimeSession i j pb) s s'"
    and "chat_archive s i j = Apply s' \<Longrightarrow> refines (ChatArchive i j) s s'"
    and "chat_restore s i j = Apply s' \<Longrightarrow> refines (ChatRestore i j) s s'"
  unfolding chat_rename_def chat_set_pinned_def chat_bind_prime_session_def chat_archive_def chat_restore_def Let_def
  by (elim with_chat_Apply, use effect_update [OF assms] in
      \<open>fastforce simp: refines_def project_effect_def same_attributes_def split: if_splits option.splits\<close>)+


lemma refines_chat_lists:
  assumes "wf_state s"
  shows "chat_create s i j n = Apply s' \<Longrightarrow> refines (ChatCreate i j n) s s'"
    and "chat_duplicate s i j k n = Apply s' \<Longrightarrow> refines (ChatDuplicate i j k n) s s'"
    and "chat_delete s i j = Apply s' \<Longrightarrow> refines (ChatDelete i j) s s'"
proof -
  show "refines (ChatCreate i j n) s s'" if "chat_create s i j n = Apply s'"
    using that effect_add [OF assms, of i _ "new_chat j i n" i] projectById_Some(2) [of s i]
    by (fastforce simp: chat_create_def refines_def project_effect_def simp flip: chatOwner_None
        split: option.splits if_splits)
  show "refines (ChatDuplicate i j k n) s s'" if "chat_duplicate s i j k n = Apply s'"
    using that unfolding chat_duplicate_def
    by (elim with_chat_Apply)
      (use effect_add [OF assms, of i _ "new_chat k i n" i] projectById_Some(2) [of s i] in
        \<open>fastforce simp: refines_def project_effect_def simp flip: chatOwner_None split: if_splits\<close>)
  show "refines (ChatDelete i j) s s'" if "chat_delete s i j = Apply s'"
    using that unfolding chat_delete_def
    by (elim with_chat_Apply) (use effect_remove [OF assms] in \<open>auto simp: refines_def project_effect_def\<close>)
qed

lemma refines_chat_move:
  assumes wf: "wf_state s" and mv: "chat_move s i j k = Apply s'"
  shows "refines (ChatMove i j k) s s'"
proof -
  from mv obtain p c t where p: "projectById s i = Some p" and c: "c \<in> set (chats p)" "chat_id c = j"
    and k: "project_id p \<noteq> k" and t: "projectById s k = Some t"
    and s': "s' = replaceProject (replaceProject s (remove_chat p j) (selectedProjectId s))
       (add_chat t (c\<lparr>chat_projectId := project_id t\<rparr>)) (project_id t)"
    by (rule chat_move_Apply)
  let ?s = "replaceProject s (remove_chat p j) (selectedProjectId s)" and ?c = "c\<lparr>chat_projectId := k\<rparr>"
  have tid: "project_id t = k" by (rule projectById_Some(2) [OF t])
  have t': "projectById ?s k = Some t"
    using k t by (intro projectById_replace_other) (simp_all add: remove_chat_def)
  have "chat_id ?c \<notin> set (chat_ids (projects ?s))"
    using chat_ids_remove [OF wf p, of j "selectedProjectId s"] c by auto
  from effect_add [OF wf_remove_chat [OF wf p] t' this, of k] effect_remove [OF wf p c(1), of "selectedProjectId s"]
    chat_map_at [OF wf p c(1)] c(2)
  show ?thesis by (simp add: refines_def s' tid project_effect_def)
qed

lemma decide_refines: "wf_state s \<Longrightarrow> decide s cmd = Apply s' \<Longrightarrow> refines cmd s s'"
  by (cases cmd) (auto intro: refines_project_commands refines_project_create refines_chat_fields
      refines_chat_lists refines_chat_move)

lemma transition_Applied:
  "transition s cmd = Applied s' sel \<longleftrightarrow>
     list_all isProjectChatId (command_ids cmd) \<and> decide s cmd = Apply s' \<and>
     serialize_state s' \<noteq> SerializationRejected \<and> sel = resolveProjectChatSelection s'"
  by (auto simp: transition_def conclude_def applied_def rejected_def unchanged_def split: decision.splits if_splits)

text \<open>
  C6: refinement. On a valid state, an applied command changes the chats and the projects'
  attributes exactly as the abstract store prescribes: one entry, as the command says, and
  nothing else, through every rearrangement of the project lists and selections.
\<close>

theorem transition_refines_store:
  assumes "wf_state s" and "transition s cmd = Applied s' sel"
  shows "chat_map s' = chat_effect cmd (chat_map s) \<and> project_map s' = project_effect cmd (project_map s)"
  using decide_refines [OF assms(1)] assms(2) by (auto simp: transition_Applied refines_def)


section \<open>Reachable states\<close>

text \<open>No two chats are bound to one session.\<close>

definition bound_session :: "ProjectChat \<Rightarrow> jsstr option" where
  "bound_session c = map_option sessionId (binding c)"

definition sessions_unique :: "ProjectChatState \<Rightarrow> bool" where
  "sessions_unique s \<longleftrightarrow>
     (\<forall>i j c d. chat_map s i = Some c \<longrightarrow> chat_map s j = Some d \<longrightarrow>
        bound_session c \<noteq> None \<longrightarrow> bound_session c = bound_session d \<longrightarrow> i = j)"

lemma chat_map_mem: "chat_map s i = Some c \<Longrightarrow> \<exists>p \<in> set (projects s). c \<in> set (chats p) \<and> chat_id c = i"
  by (auto simp: chat_map_def look_def dest!: find_Some_mem)

lemma bind_Apply_free:
  assumes "chat_bind_prime_session s i j b = Apply s'" and "chat_map s k = Some c" and "k \<noteq> j"
  shows "bound_session c \<noteq> Some (sessionId b)"
proof -
  from assms(1) have
    "\<not> list_ex (\<lambda>p. list_ex (\<lambda>c. chat_id c \<noteq> j \<and>
                map_option sessionId (binding c) = Some (sessionId b)) (chats p)) (projects s)"
    unfolding chat_bind_prime_session_def
    by (elim with_chat_Apply) (auto split: option.splits if_splits)
  with chat_map_mem [OF assms(2)] assms(3) show ?thesis by (auto simp: list_ex_iff bound_session_def)
qed

lemma effect_keeps_session:
  assumes "\<nexists>i j b. cmd = ChatBindPrimeSession i j b" and "chat_effect cmd m k = Some c" and "bound_session c \<noteq> None"
  shows "\<exists>d. m k = Some d \<and> bound_session d = bound_session c"
  using assms by (cases cmd) (auto simp: bound_session_def split: if_splits)

lemma sessions_unique_step:
  assumes "wf_state s" and "sessions_unique s" and "decide s cmd = Apply s'"
  shows "sessions_unique s'"
proof (cases "\<exists>i j b. cmd = ChatBindPrimeSession i j b")
  case True
  then obtain i j b where cmd: "cmd = ChatBindPrimeSession i j b" by blast
  have m: "chat_map s' = (chat_map s)(j := map_option (\<lambda>x. x\<lparr>binding := Some b\<rparr>) (chat_map s j))"
    using decide_refines [OF assms(1,3)] by (simp add: cmd refines_def)
  have free: "bound_session c \<noteq> Some (sessionId b)" if "chat_map s k = Some c" "k \<noteq> j" for k c
    using bind_Apply_free that assms(3) by (auto simp: cmd)
  have new: "bound_session (x\<lparr>binding := Some b\<rparr>) = Some (sessionId b)" for x by (simp add: bound_session_def)
  show ?thesis
    using assms(2) free unfolding sessions_unique_def m by (auto simp: new split: if_splits) (metis new)+
next
  case False
  then have old: "\<exists>d. chat_map s k = Some d \<and> bound_session d = bound_session c"
    if "chat_map s' k = Some c" "bound_session c \<noteq> None" for k c
    using decide_refines [OF assms(1,3)] effect_keeps_session [of cmd "chat_map s" k c] that
    by (auto simp: refines_def)
  show ?thesis
    unfolding sessions_unique_def
  proof (intro allI impI)
    fix i j c d
    assume "chat_map s' i = Some c" "chat_map s' j = Some d" "bound_session c \<noteq> None" "bound_session c = bound_session d"
    with old [of i c] old [of j d] show "i = j"
      using assms(2) unfolding sessions_unique_def by metis
  qed
qed

text \<open>What holds of every state the reducer passes through.\<close>

definition project_inv :: "ProjectChatState \<Rightarrow> bool" where
  "project_inv s \<longleftrightarrow> wf_state s \<and> sessions_unique s"

definition project_step :: "ProjectChatState \<Rightarrow> heap \<times> jsval \<Rightarrow> ProjectChatState" where
  "project_step s input = result_state (transitionProjectChatState s (fst input) (snd input))"

lemma result_state_cases:
  "result_state (transition s cmd) = s \<or> (\<exists>s' sel. transition s cmd = Applied s' sel \<and> result_state (transition s cmd) = s')"
  by (cases "transition s cmd") (auto simp: transition_def conclude_def applied_def rejected_def unchanged_def
      split: decision.splits if_splits)

lemma serialized_wf: "serialize_state s \<noteq> SerializationRejected \<Longrightarrow> wf_state s"
  by (cases "serialize_state s") (auto simp: serialize_state_iff)

lemma transition_inv:
  assumes "project_inv s"
  shows "project_inv (result_state (transition s cmd))"
  using result_state_cases [of s cmd]
proof (elim disjE exE conjE)
  fix s' sel assume tr: "transition s cmd = Applied s' sel" and "result_state (transition s cmd) = s'"
  from tr have "wf_state s'" "decide s cmd = Apply s'" by (auto simp: transition_Applied serialized_wf)
  with sessions_unique_step [of s cmd s'] assms tr show ?thesis by (simp add: project_inv_def)
qed (use assms in simp)

lemma chat_map_initial [simp]: "chat_map createInitialProjectChatState i = None"
  by (simp add: chat_map_def createInitialProjectChatState_def)

interpretation project: step_system createInitialProjectChatState project_step project_inv
proof
  show "project_inv createInitialProjectChatState"
    by (simp add: project_inv_def wf_initial sessions_unique_def)
  show "project_inv (project_step s e)" if "project_inv s" for s e
    using that transition_inv [OF that]
    by (auto simp: project_step_def transitionProjectChatState_def rejected_def split: option.split)
qed

text \<open>
  C5: from the initial state, through any sequence of inputs whatsoever (malformed values,
  hostile objects, commands in any order), the state stays valid: identifiers are unique, every
  chat is owned by its project, there is one personal project, the selections point to active
  entries; and no session is bound to two chats.
\<close>

theorem reachable_states_valid:
  assumes "reachable createInitialProjectChatState project_step s"
  shows "wf_state s \<and> sessions_unique s"
  using project.reachable_inv [OF assms] by (simp add: project_inv_def)

theorem reachable_states_valid_witness:
  "wf_state createInitialProjectChatState \<and> sessions_unique createInitialProjectChatState"
  by (rule reachable_states_valid) (rule reachable_init)



section \<open>Which commands are refused for their size\<close>

text \<open>
  The two commands whose candidate is never valid: duplicating a chat of an archived project
  (which would become the selected project), and moving an archived chat (which would become the
  selected chat of the target).
\<close>

fun misplaced :: "ProjectChatState \<Rightarrow> ProjectChatCommand \<Rightarrow> bool" where
  "misplaced s (ChatDuplicate i _ _ _) \<longleftrightarrow> (\<exists>p. projectById s i = Some p \<and> project_archived p)"
| "misplaced s (ChatMove i j _) \<longleftrightarrow> (\<exists>p c. projectById s i = Some p \<and> c \<in> set (chats p) \<and> chat_id c = j \<and> chat_archived c)"
| "misplaced s _ \<longleftrightarrow> False"

text \<open>The binding of a decoded command has passed the same tests as a stored one.\<close>

fun command_binding_ok :: "ProjectChatCommand \<Rightarrow> bool" where
  "command_binding_ok (ChatBindPrimeSession _ _ b) \<longleftrightarrow> wf_binding b"
| "command_binding_ok _ \<longleftrightarrow> True"

lemma candidate_valid:
  assumes "wf_state s" and "list_all isProjectChatId (command_ids cmd)" and "command_binding_ok cmd"
    and "decide s cmd = Apply s'" and "\<not> misplaced s cmd"
  shows "wf_state s'"
  using assms
  by (cases cmd) (auto intro: wf_project_create wf_project_rename wf_project_archive wf_project_restore
      wf_project_set_pinned wf_chat_create wf_chat_bind wf_chat_rename wf_chat_archive wf_chat_restore
      wf_chat_set_pinned wf_chat_duplicate wf_chat_move wf_chat_delete wf_select_project wf_select_chat)

definition fits :: "ProjectChatState \<Rightarrow> bool" where
  "fits s \<longleftrightarrow> within_limits (encode_state s) \<and>
     (\<exists>x. json_stringify (encode_state s) = Some x \<and> int (utf8_length x) \<le> MAX_PROJECT_CHAT_JSON_BYTES)"

lemma fits_serializes: "wf_state s \<Longrightarrow> fits s \<Longrightarrow> serialize_state s \<noteq> SerializationRejected"
  using snapshotUntrusted_tree [OF strict_encode_state, of s] serialize_state_iff [of s]
  by (auto simp: fits_def)

text \<open>
  C30: progress. On a valid state, a command with valid identifiers (and, if it binds a session, with a well-formed binding) that passes the guards of its case
  leads to a valid candidate, and is applied whenever that candidate fits the size limits. Two misplaced commands are excepted: duplicating a
  chat of an archived project, and moving an archived chat.
\<close>

theorem accepted_commands_apply:
  assumes "wf_state s" and "list_all isProjectChatId (command_ids cmd)" and "command_binding_ok cmd"
    and "decide s cmd = Apply candidate" and "\<not> misplaced s cmd" and "fits candidate"
  shows "transition s cmd = Applied candidate (resolveProjectChatSelection candidate) \<and> wf_state candidate"
  using candidate_valid [OF assms(1-5)] fits_serializes [OF _ assms(6)] assms(2,4)
  by (simp add: transition_Applied)

lemma duplicate_misplaced:
  assumes "wf_state s" and "misplaced s (ChatDuplicate i j k n)" and "chat_duplicate s i j k n = Apply s'"
  shows "\<not> wf_state s'"
proof
  assume wf: "wf_state s'"
  from assms(2) obtain p where p: "projectById s i = Some p" "project_archived p" by auto
  from assms(3) p have s': "s' = replaceProject s (add_chat p (new_chat k (project_id p) n)) (project_id p)"
    unfolding chat_duplicate_def by (elim with_chat_Apply) (auto split: if_splits)
  have "projectById s' i = Some (add_chat p (new_chat k (project_id p) n))"
    unfolding s' using projectById_replace [OF p(1)] by simp
  moreover have "selectedProjectId s' = i" using projectById_Some(2) [OF p(1)] by (simp add: s' replaceProject_def)
  moreover obtain q where "q \<in> set (projects s')" "project_id q = selectedProjectId s'" "\<not> project_archived q"
    using wf by (auto simp: wf_state_def)
  ultimately show False
    using find_distinct_key [OF wf_stateD(2) [OF wf], of q] p(2) by (auto simp: projectById_def)
qed

lemma move_misplaced:
  assumes wf: "wf_state s" and mis: "misplaced s (ChatMove i j k)" and mv: "chat_move s i j k = Apply s'"
  shows "\<not> wf_state s'"
proof
  assume wf': "wf_state s'"
  from mv obtain p c t where p: "projectById s i = Some p" and c: "c \<in> set (chats p)" "chat_id c = j"
    and k: "project_id p \<noteq> k" and t: "projectById s k = Some t"
    and s': "s' = replaceProject (replaceProject s (remove_chat p j) (selectedProjectId s))
       (add_chat t (c\<lparr>chat_projectId := project_id t\<rparr>)) (project_id t)"
    by (rule chat_move_Apply)
  let ?t = "add_chat t (c\<lparr>chat_projectId := project_id t\<rparr>)"
  have arch: "chat_archived c"
    using mis p c distinct_key_eq [OF wf_project_parts(6) [OF wf p]] by auto
  have "projectById (replaceProject s (remove_chat p j) (selectedProjectId s)) k = Some t"
    using k t by (intro projectById_replace_other) (simp_all add: remove_chat_def)
  from projectById_replace [OF this, of ?t "project_id t" k] have t': "projectById s' k = Some ?t"
    by (simp add: s')
  then have sel: "wf_selected ?t" and dist: "distinct (map chat_id (chats ?t))"
    using wf_project_parts [OF wf' t'] by blast+
  have "selectedChatId ?t = Some j" by (simp add: c(2))
  with sel obtain d where "d \<in> set (chats ?t)" "chat_id d = j" "\<not> chat_archived d"
    unfolding wf_selected_def by blast
  moreover have "c\<lparr>chat_projectId := project_id t\<rparr> \<in> set (chats ?t)" by simp
  ultimately have "d = c\<lparr>chat_projectId := project_id t\<rparr>" using distinct_key_eq [OF dist] c(2) by fastforce
  with arch \<open>\<not> chat_archived d\<close> show False by simp
qed

text \<open>
  C31: the exception to the previous property. Duplicating a chat of an archived project and
  moving an archived chat pass every guard of their cases, are never applied, however small
  the state, and are reported as exceeding the state's limits.
\<close>

theorem misplaced_commands_never_apply:
  assumes "wf_state s" and "list_all isProjectChatId (command_ids cmd)"
    and "decide s cmd = Apply candidate" and "misplaced s cmd"
  shows "transition s cmd = rejected s StateLimitExceeded"
proof -
  have "\<not> wf_state candidate"
    using assms(3,4) duplicate_misplaced [OF assms(1)] move_misplaced [OF assms(1)]
    by (cases cmd) (simp_all del: misplaced.simps(1,2))
  then have "serialize_state candidate = SerializationRejected" using serialized_wf by blast
  with assms(2,3) show ?thesis by (simp add: transition_def conclude_def applied_def)
qed


text \<open>Concrete commands for the properties above.\<close>

definition sample_create :: ProjectChatCommand where
  "sample_create = ProjectCreate (js ''p1'') (js ''P'') (js ''/p'')"

definition sample_project :: "bool \<Rightarrow> Project" where
  "sample_project archived = \<lparr>project_id = js ''p1'', kind = FolderKind (js ''/p''), project_name = js ''P'',
     project_pinned = False, project_archived = archived, selectedChatId = None, chats = []\<rparr>"

definition sample_created :: ProjectChatState where
  "sample_created = createInitialProjectChatState
     \<lparr>selectedProjectId := js ''p1'', projects := projects createInitialProjectChatState @ [sample_project False]\<rparr>"

lemmas sample_ids = isProjectChatId_def js_def validation_limits

lemma sample_label: "isProjectChatLabel (js ''P'')"
  by (simp add: isProjectChatLabel_def js_def js_trim_def js_char UNSAFE_LABEL_CATEGORY_def unsafe_label_cp_def
      validation_limits)

lemma sample_path: "validFolderPath (js ''/p'')"
  by (simp add: validFolderPath_def js_def js_trim_def js_char)

lemma sample_decide: "decide createInitialProjectChatState sample_create = Apply sample_created"
  using sample_label sample_path
  by (simp add: sample_create_def project_create_def projectById_def createInitialProjectChatState_def
      PERSONAL_PROJECT_ID_def sample_created_def sample_project_def)

lemma sample_created_limits:
  "within_limits (encode_state sample_created) \<and>
   (case json_stringify (encode_state sample_created) of Some x \<Rightarrow> utf8_length x < 1000 | None \<Rightarrow> False)"
  by code_simp

lemma sample_fits: "fits sample_created"
  using sample_created_limits
  by (auto simp: fits_def MAX_PROJECT_CHAT_JSON_BYTES_def split: option.splits)

lemma sample_command_ids: "list_all isProjectChatId (command_ids sample_create)"
  by (simp add: sample_create_def sample_ids)

theorem accepted_commands_apply_witness:
  "transition createInitialProjectChatState sample_create =
     Applied sample_created (resolveProjectChatSelection sample_created) \<and> wf_state sample_created"
  by (rule accepted_commands_apply [OF wf_initial sample_command_ids _ sample_decide _ sample_fits])
    (simp_all add: sample_create_def)

theorem transition_refines_store_witness:
  "chat_map sample_created = chat_effect sample_create (chat_map createInitialProjectChatState)"
proof -
  have "wf_state sample_created"
    using candidate_valid [OF wf_initial sample_command_ids _ sample_decide] by (simp add: sample_create_def)
  then have "transition createInitialProjectChatState sample_create =
      Applied sample_created (resolveProjectChatSelection sample_created)"
    using sample_decide sample_command_ids fits_serializes sample_fits by (simp add: transition_Applied)
  from transition_refines_store [OF wf_initial this] show ?thesis by blast
qed

definition sample_archived :: ProjectChatState where
  "sample_archived = createInitialProjectChatState
     \<lparr>projects := projects createInitialProjectChatState @
        [(sample_project True)\<lparr>chats := [new_chat (js ''c1'') (js ''p1'') (js ''P'')]\<rparr>]\<rparr>"

lemma wf_sample_archived: "wf_state sample_archived"
  using wf_initial sample_label sample_path
  by (simp add: wf_state_def sample_archived_def createInitialProjectChatState_def PERSONAL_PROJECT_ID_def
      wf_project_def wf_kind_def wf_selected_def wf_chat_def new_chat_def sample_project_def)
    (simp add: sample_ids)

theorem misplaced_commands_never_apply_witness:
  "transition sample_archived (ChatDuplicate (js ''p1'') (js ''c1'') (js ''c2'') (js ''P'')) =
     rejected sample_archived StateLimitExceeded"
proof (rule misplaced_commands_never_apply [OF wf_sample_archived])
  let ?cmd = "ChatDuplicate (js ''p1'') (js ''c1'') (js ''c2'') (js ''P'')"
  show "list_all isProjectChatId (command_ids ?cmd)" by (simp add: sample_ids)
  show "misplaced sample_archived ?cmd"
    by (simp add: projectById_def sample_archived_def createInitialProjectChatState_def PERSONAL_PROJECT_ID_def
        sample_project_def)
  show "decide sample_archived ?cmd = Apply (replaceProject sample_archived
      (add_chat ((sample_project True)\<lparr>chats := [new_chat (js ''c1'') (js ''p1'') (js ''P'')]\<rparr>)
        (new_chat (js ''c2'') (js ''p1'') (js ''P''))) (js ''p1''))"
    using sample_label
    by (simp add: chat_duplicate_def with_chat_def chatInProject_def chatOwner_def projectById_def sample_archived_def
        createInitialProjectChatState_def PERSONAL_PROJECT_ID_def sample_project_def)
qed


section \<open>Selection\<close>

text \<open>
  On a valid state the selection always resolves, to the selected project, and to the
  remembered chat when there is one; otherwise to the project's first active chat, or to none when
  it has no active chat.
\<close>

theorem selection_resolves:
  assumes "wf_state s"
  shows "\<exists>p \<in> set (projects s). project_id p = selectedProjectId s \<and> \<not> project_archived p \<and>
    resolveProjectChatSelection s = Resolved (selectedProjectId s)
      (case selectedChatId p of
         Some i \<Rightarrow> Some i
       | None \<Rightarrow> map_option chat_id (find (\<lambda>c. \<not> chat_archived c) (chats p)))"
proof -
  from assms obtain p where p: "p \<in> set (projects s)" "project_id p = selectedProjectId s" "\<not> project_archived p"
    by (auto simp: wf_state_def)
  then have by_id: "projectById s (selectedProjectId s) = Some p"
    using find_distinct_key [OF wf_stateD(2) [OF assms] p(1)] by (simp add: projectById_def)
  have remembered: "\<exists>c. find (\<lambda>c. Some (chat_id c) = Some i \<and> \<not> chat_archived c) (chats p) = Some c \<and> chat_id c = i"
    if "selectedChatId p = Some i" for i
  proof -
    have "\<exists>c \<in> set (chats p). chat_id c = i \<and> \<not> chat_archived c"
      using wf_project_parts(4) [OF assms by_id] that by (auto simp: wf_selected_def)
    then obtain c where "find (\<lambda>c. Some (chat_id c) = Some i \<and> \<not> chat_archived c) (chats p) = Some c"
      using find_None_conv [of "\<lambda>c. Some (chat_id c) = Some i \<and> \<not> chat_archived c" "chats p"] by (auto simp: Bex_def)
    with find_Some_mem [OF this] show ?thesis by auto
  qed
  have none: "find (\<lambda>c. False) cs = None" for cs :: "ProjectChat list" by (simp add: find_None_conv)
  have "resolveProjectChatSelection s = Resolved (selectedProjectId s)
      (case selectedChatId p of
         Some i \<Rightarrow> Some i
       | None \<Rightarrow> map_option chat_id (find (\<lambda>c. \<not> chat_archived c) (chats p)))"
    using remembered p by (cases "selectedChatId p") (auto simp: resolveProjectChatSelection_def by_id Let_def none)
  with p show ?thesis by blast
qed

theorem selection_resolves_witness:
  "\<exists>p \<in> set (projects createInitialProjectChatState).
     project_id p = selectedProjectId createInitialProjectChatState \<and> \<not> project_archived p"
  using selection_resolves [OF wf_initial] by blast



section \<open>Decoding commands\<close>

definition command_value :: "string \<Rightarrow> (string \<times> jtree) list \<Rightarrow> jtree" where
  "command_value t fs = jobj ((''type'', TStr (js t)) # fs)"

fun encode_command :: "ProjectChatCommand \<Rightarrow> jtree" where
  "encode_command (ProjectCreate p n f) = command_value ''project.create''
     [(''projectId'', TStr p), (''name'', TStr n), (''folderPath'', TStr f)]"
| "encode_command (ChatCreate p c n) = command_value ''chat.create''
     [(''projectId'', TStr p), (''chatId'', TStr c), (''title'', TStr n)]"
| "encode_command (ChatBindPrimeSession p c b) = command_value ''chat.bind-prime-session''
     [(''projectId'', TStr p), (''chatId'', TStr c), (''binding'', encode_binding (Some b))]"
| "encode_command (ProjectRename p n) = command_value ''project.rename'' [(''projectId'', TStr p), (''name'', TStr n)]"
| "encode_command (ProjectArchive p) = command_value ''project.archive'' [(''projectId'', TStr p)]"
| "encode_command (ProjectRestore p) = command_value ''project.restore'' [(''projectId'', TStr p)]"
| "encode_command (ProjectSetPinned p b) = command_value ''project.set-pinned''
     [(''projectId'', TStr p), (''pinned'', TBool b)]"
| "encode_command (ChatRename p c n) = command_value ''chat.rename''
     [(''projectId'', TStr p), (''chatId'', TStr c), (''title'', TStr n)]"
| "encode_command (ChatArchive p c) = command_value ''chat.archive'' [(''projectId'', TStr p), (''chatId'', TStr c)]"
| "encode_command (ChatRestore p c) = command_value ''chat.restore'' [(''projectId'', TStr p), (''chatId'', TStr c)]"
| "encode_command (ChatSetPinned p c b) = command_value ''chat.set-pinned''
     [(''projectId'', TStr p), (''chatId'', TStr c), (''pinned'', TBool b)]"
| "encode_command (ChatDuplicate p c i n) = command_value ''chat.duplicate''
     [(''projectId'', TStr p), (''chatId'', TStr c), (''newChatId'', TStr i), (''title'', TStr n)]"
| "encode_command (ChatMove p c t) = command_value ''chat.move''
     [(''projectId'', TStr p), (''chatId'', TStr c), (''targetProjectId'', TStr t)]"
| "encode_command (ChatDelete p c) = command_value ''chat.delete'' [(''projectId'', TStr p), (''chatId'', TStr c)]"
| "encode_command (SelectProject p) = command_value ''selection.select-project'' [(''projectId'', TStr p)]"
| "encode_command (SelectChat p c) = command_value ''selection.select-chat''
     [(''projectId'', TStr p), (''chatId'', TStr c)]"

lemma decodeCommandBinding_eq:
  "decodeCommandBinding v = (case decodePrimeChatBinding v of Some b \<Rightarrow> b | None \<Rightarrow> None)"
  by (auto simp: decodeCommandBinding_def decodePrimeChatBinding_def hasExactCommandKeys_def hasExactKeys_def
      split: jtree.split)

lemma the_text_TStr [simp]: "field fs k = TStr s \<Longrightarrow> the_text fs k = Some s"
  and the_flag_TBool [simp]: "field fs k = TBool b \<Longrightarrow> the_flag fs k = Some b"
  by (simp_all add: the_text_def the_flag_def)

lemma decode_encode_command:
  "\<exists>fs. encode_command cmd = TObj fs \<and>
     decode_command_fields fs = (if command_binding_ok cmd then Some cmd else None)"
  by (cases cmd) (simp_all add: command_value_def jobj_def decode_command_fields_def text1_def text2_def text3_def
      text4_def decode_bind_command_def decode_pin_project_command_def decode_pin_chat_command_def
      hasExactCommandKeys_def decodeCommandBinding_eq decode_encode_binding)

lemma strict_encode_command: "strict_tree (encode_command cmd)"
  by (cases cmd) (auto simp: command_value_def encode_binding_def encode_nullable_def split: option.split)

lemma decoded_binding_ok: "decode_command_fields fs = Some cmd \<Longrightarrow> command_binding_ok cmd"
proof -
  assume dec: "decode_command_fields fs = Some cmd"
  have "wf_binding b" if "decodeCommandBinding v = Some b" for v b
    using that decodePrimeChatBinding_sound by (auto simp: decodeCommandBinding_eq split: option.splits)
  with dec show ?thesis
    unfolding decode_command_fields_def text1_def text2_def text3_def text4_def decode_bind_command_def
      decode_pin_project_command_def decode_pin_chat_command_def
    by (auto split: option.splits if_splits)
qed

text \<open>
  Commands survive the boundary: the value of a command within the snapshot limits decodes to
  that command, unless its binding is malformed, when it is refused; and whatever value comes in, a decoded
  command never carries a malformed binding.
\<close>

theorem commands_decode:
  assumes "within_limits (encode_command cmd)"
  shows "decodeProjectChatCommand (tree_heap (encode_command cmd)) (tree_val (encode_command cmd) []) =
      (if command_binding_ok cmd then Some cmd else None) \<and>
    (\<forall>h v c. decodeProjectChatCommand h v = Some c \<longrightarrow> command_binding_ok c)"
proof
  show "decodeProjectChatCommand (tree_heap (encode_command cmd)) (tree_val (encode_command cmd) []) =
      (if command_binding_ok cmd then Some cmd else None)"
    using snapshotUntrusted_tree [OF strict_encode_command assms] decode_encode_command [of cmd]
    by (auto simp: decodeProjectChatCommand_def)
  show "\<forall>h v c. decodeProjectChatCommand h v = Some c \<longrightarrow> command_binding_ok c"
    using decoded_binding_ok by (auto simp: decodeProjectChatCommand_def split: option.splits jtree.splits)
qed

lemma sample_command_limits: "within_limits (encode_command (ProjectArchive (js ''p1'')))"
  by code_simp

theorem commands_decode_witness:
  "decodeProjectChatCommand (tree_heap (encode_command (ProjectArchive (js ''p1''))))
     (tree_val (encode_command (ProjectArchive (js ''p1''))) []) = Some (ProjectArchive (js ''p1''))"
  using commands_decode [OF sample_command_limits] by simp

end
