(* ===== verification/Sha256.thy ===== *)
theory Sha256
  imports Json
begin

unbundle bit_operations_syntax

text \<open>
  The SHA-256 routine of \<open>src/app/src/domain/approval/contract.ts\<close> (\<open>rotateRight\<close> to \<open>sha256Hex\<close>). The
  source computes with numbers and 32-bit operators; every value that a sum or a shift
  receives is read modulo \<open>2 ^ 32\<close> again, so the model computes with 32-bit words. Typed arrays are
  lists updated by index.

  Shown: the result is the digest that FIPS 180-4 specifies. The standard is stated on its own, in terms of the numbers it mentions: the
  constants are bits of roots of primes, the words are big-endian numbers, the digits are those of the number in base 16. No
  definition of the code is used in it. The result is always 64 lowercase hexadecimal digits.
\<close>

definition rotateRight :: "32 word \<Rightarrow> nat \<Rightarrow> 32 word" where
  "rotateRight v n = drop_bit n v OR push_bit (32 - n) v"

definition SHA256_ROUND_CONSTANTS :: "32 word list" where
  "SHA256_ROUND_CONSTANTS =
    [0x428a2f98, 0x71374491, 0xb5c0fbcf, 0xe9b5dba5, 0x3956c25b, 0x59f111f1] @
    [0x923f82a4, 0xab1c5ed5, 0xd807aa98, 0x12835b01, 0x243185be, 0x550c7dc3] @
    [0x72be5d74, 0x80deb1fe, 0x9bdc06a7, 0xc19bf174, 0xe49b69c1, 0xefbe4786] @
    [0x0fc19dc6, 0x240ca1cc, 0x2de92c6f, 0x4a7484aa, 0x5cb0a9dc, 0x76f988da] @
    [0x983e5152, 0xa831c66d, 0xb00327c8, 0xbf597fc7, 0xc6e00bf3, 0xd5a79147] @
    [0x06ca6351, 0x14292967, 0x27b70a85, 0x2e1b2138, 0x4d2c6dfc, 0x53380d13] @
    [0x650a7354, 0x766a0abb, 0x81c2c92e, 0x92722c85, 0xa2bfe8a1, 0xa81a664b] @
    [0xc24b8b70, 0xc76c51a3, 0xd192e819, 0xd6990624, 0xf40e3585, 0x106aa070] @
    [0x19a4c116, 0x1e376c08, 0x2748774c, 0x34b0bcb5, 0x391c0cb3, 0x4ed8aa4a] @
    [0x5b9cca4f, 0x682e6ff3, 0x748f82ee, 0x78a5636f, 0x84c87814, 0x8cc70208] @
    [0x90befffa, 0xa4506ceb, 0xbef9a3f7, 0xc67178f2]"

text \<open>\<open>DataView.setUint32\<close> and \<open>getUint32\<close>, most significant byte first.\<close>

definition setUint32 :: "8 word list \<Rightarrow> nat \<Rightarrow> nat \<Rightarrow> 8 word list" where
  "setUint32 buf i n =
     buf[i := of_nat (n div 0x1000000), i + 1 := of_nat (n div 0x10000),
         i + 2 := of_nat (n div 0x100), i + 3 := of_nat n]"

definition getUint32 :: "8 word list \<Rightarrow> nat \<Rightarrow> 32 word" where
  "getUint32 buf i =
     push_bit 24 (ucast (buf ! i)) OR push_bit 16 (ucast (buf ! (i + 1))) OR
     push_bit 8 (ucast (buf ! (i + 2))) OR ucast (buf ! (i + 3))"

definition paddedLength :: "nat \<Rightarrow> nat" where
  "paddedLength n = (n + 9 + 63) div 64 * 64"

definition padded :: "8 word list \<Rightarrow> 8 word list" where
  "padded bytes =
     (let len = paddedLength (length bytes);
          bitLength = length bytes * 8;
          p0 = bytes @ replicate (len - length bytes) 0;
          p1 = p0[length bytes := 0x80];
          p2 = setUint32 p1 (len - 8) (bitLength div 0x100000000)
      in setUint32 p2 (len - 4) (bitLength mod 0x100000000))"

definition initial_hash :: "32 word list" where
  "initial_hash = [0x6a09e667, 0xbb67ae85, 0x3c6ef372, 0xa54ff53a, 0x510e527f, 0x9b05688c, 0x1f83d9ab, 0x5be0cd19]"

text \<open>One turn of the loop that fills \<open>words[16..63]\<close>; the index is the number of words so far.\<close>

definition next_word :: "32 word list \<Rightarrow> 32 word list" where
  "next_word ws =
     (let i = length ws;
          previous15 = ws ! (i - 15);
          previous2 = ws ! (i - 2);
          sigma0 = rotateRight previous15 7 XOR rotateRight previous15 18 XOR drop_bit 3 previous15;
          sigma1 = rotateRight previous2 17 XOR rotateRight previous2 19 XOR drop_bit 10 previous2
      in ws @ [ws ! (i - 16) + sigma0 + ws ! (i - 7) + sigma1])"

definition schedule :: "8 word list \<Rightarrow> nat \<Rightarrow> 32 word list" where
  "schedule buf offset = (next_word ^^ 48) (map (\<lambda>i. getUint32 buf (offset + i * 4)) [0..<16])"

type_synonym registers = "32 word \<times> 32 word \<times> 32 word \<times> 32 word \<times> 32 word \<times> 32 word \<times> 32 word \<times> 32 word"

definition round_step :: "32 word list \<Rightarrow> registers \<Rightarrow> nat \<Rightarrow> registers" where
  "round_step ws = (\<lambda>(a, b, c, d, e, f, g, h) i.
     (let upperSigma1 = rotateRight e 6 XOR rotateRight e 11 XOR rotateRight e 25;
          choice = (e AND f) XOR (NOT e AND g);
          temporary1 = h + upperSigma1 + choice + SHA256_ROUND_CONSTANTS ! i + ws ! i;
          upperSigma0 = rotateRight a 2 XOR rotateRight a 13 XOR rotateRight a 22;
          majority = (a AND b) XOR (a AND c) XOR (b AND c);
          temporary2 = upperSigma0 + majority
      in (temporary1 + temporary2, a, b, c, d + temporary1, e, f, g)))"

definition compress :: "8 word list \<Rightarrow> 32 word list \<Rightarrow> nat \<Rightarrow> 32 word list" where
  "compress buf hash offset =
     (case foldl (round_step (schedule buf offset))
        (hash ! 0, hash ! 1, hash ! 2, hash ! 3, hash ! 4, hash ! 5, hash ! 6, hash ! 7) [0..<64] of
        (a, b, c, d, e, f, g, h) \<Rightarrow>
          [hash ! 0 + a, hash ! 1 + b, hash ! 2 + c, hash ! 3 + d,
           hash ! 4 + e, hash ! 5 + f, hash ! 6 + g, hash ! 7 + h])"

definition hex_word :: "32 word \<Rightarrow> jsstr" where
  "hex_word w = map (\<lambda>i. hex_digit (unat (drop_bit (4 * (7 - i)) w) mod 16)) [0..<8]"

definition sha256Hex :: "jsstr \<Rightarrow> jsstr" where
  "sha256Hex message =
     (let buf = padded (utf8_encode message)
      in concat (map hex_word (foldl (compress buf) initial_hash (map (\<lambda>k. k * 64) [0..<length buf div 64]))))"



section \<open>The standard\<close>

text \<open>
  SHA-256 as FIPS 180-4 states it: padding with one bit, zeros and the 64-bit length; the message in big-endian words; the
  message schedule as a recursive function; the rounds with word rotations; blocks of 64 bytes. The constants (sections 4.2.2 and 5.3.3) are
  the first 32 bits of the fractional parts of the cube roots of the first 64 primes, and of the square roots of the first eight.
\<close>

definition is_prime :: "nat \<Rightarrow> bool" where
  "is_prime p \<longleftrightarrow> 1 < p \<and> (\<forall>d \<in> {2..<p}. \<not> d dvd p)"

definition fips_primes :: "nat list" where
  "fips_primes = filter is_prime [2..<312]"

definition first_bits :: "nat \<Rightarrow> nat \<Rightarrow> 32 word" where
  "first_bits n p = of_int \<lfloor>2 ^ 32 * frac (root n (real p))\<rfloor>"

definition fips_K :: "nat \<Rightarrow> 32 word" where
  "fips_K t = first_bits 3 (fips_primes ! t)"

definition fips_H0 :: "32 word list" where
  "fips_H0 = map (first_bits 2) (take 8 fips_primes)"

definition big_endian :: "8 word list \<Rightarrow> nat" where
  "big_endian bs = foldl (\<lambda>n b. n * 256 + unat b) 0 bs"

definition fips_message_word :: "8 word list \<Rightarrow> nat \<Rightarrow> 32 word" where
  "fips_message_word m i = of_nat (big_endian (take 4 (drop (i * 4) m)))"

definition fips_hex :: "32 word \<Rightarrow> string" where
  "fips_hex w = map (\<lambda>i. ''0123456789abcdef'' ! (unat w div 16 ^ (7 - i) mod 16)) [0..<8]"

definition be64 :: "nat \<Rightarrow> 8 word list" where
  "be64 n = map (\<lambda>i. of_nat (n div 256 ^ (7 - i))) [0..<8]"

definition fips_pad :: "8 word list \<Rightarrow> 8 word list" where
  "fips_pad m = m @ 0x80 # replicate ((119 - length m mod 64) mod 64) 0 @ be64 (8 * length m)"

fun fips_word :: "(nat \<Rightarrow> 32 word) \<Rightarrow> nat \<Rightarrow> 32 word" where
  "fips_word M t =
     (if t < 16 then M t
      else fips_word M (t - 16) +
        (word_rotr 7 (fips_word M (t - 15)) XOR word_rotr 18 (fips_word M (t - 15)) XOR drop_bit 3 (fips_word M (t - 15))) +
        fips_word M (t - 7) +
        (word_rotr 17 (fips_word M (t - 2)) XOR word_rotr 19 (fips_word M (t - 2)) XOR drop_bit 10 (fips_word M (t - 2))))"

declare fips_word.simps [simp del]

definition fips_round :: "(nat \<Rightarrow> 32 word) \<Rightarrow> registers \<Rightarrow> nat \<Rightarrow> registers" where
  "fips_round W = (\<lambda>(a, b, c, d, e, f, g, h) t.
     (let T1 = h + (word_rotr 6 e XOR word_rotr 11 e XOR word_rotr 25 e) + ((e AND f) XOR (NOT e AND g)) +
            fips_K t + W t;
          T2 = (word_rotr 2 a XOR word_rotr 13 a XOR word_rotr 22 a) + ((a AND b) XOR (a AND c) XOR (b AND c))
      in (T1 + T2, a, b, c, d + T1, e, f, g)))"

definition fips_block :: "32 word list \<Rightarrow> (nat \<Rightarrow> 32 word) \<Rightarrow> 32 word list" where
  "fips_block H M =
     (case foldl (fips_round (fips_word M)) (H ! 0, H ! 1, H ! 2, H ! 3, H ! 4, H ! 5, H ! 6, H ! 7) [0..<64] of
        (a, b, c, d, e, f, g, h) \<Rightarrow>
          [H ! 0 + a, H ! 1 + b, H ! 2 + c, H ! 3 + d, H ! 4 + e, H ! 5 + f, H ! 6 + g, H ! 7 + h])"

definition fips_sha256 :: "8 word list \<Rightarrow> 32 word list" where
  "fips_sha256 m =
     (let p = fips_pad m
      in foldl (\<lambda>H k. fips_block H (\<lambda>i. fips_message_word p (k * 16 + i))) fips_H0 [0..<length p div 64])"


section \<open>The constants\<close>

lemma floor_root:
  fixes x :: int and p :: nat
  assumes "0 < n" "0 \<le> x" "x ^ n \<le> int p * 2 ^ (32 * n)" "int p * 2 ^ (32 * n) < (x + 1) ^ n"
  shows "\<lfloor>2 ^ 32 * root n (real p)\<rfloor> = x"
proof -
  let ?y = "2 ^ 32 * root n (real p)"
  have y: "0 \<le> ?y" "?y ^ n = of_int (int p * 2 ^ (32 * n))"
    using assms(1) by (simp_all add: power_mult_distrib power_mult)
  have "of_int x \<le> ?y"
  proof (rule power_le_imp_le_base)
    show "real_of_int x ^ Suc (n - 1) \<le> ?y ^ Suc (n - 1)"
      using assms(1,3) y(2) by (metis Suc_diff_1 of_int_le_iff of_int_power)
  qed (rule y(1))
  moreover have "?y < of_int (x + 1)"
  proof (rule power_less_imp_less_base)
    show "?y ^ n < real_of_int (x + 1) ^ n"
      using assms(4) y(2) by (metis of_int_less_iff of_int_power)
  qed (use assms(2) in simp)
  ultimately show ?thesis by (simp add: floor_eq_iff)
qed

lemma first_bits_floor: "first_bits n p = of_int \<lfloor>2 ^ 32 * root n (real p)\<rfloor>"
proof -
  have "2 ^ 32 * frac (root n (real p)) = 2 ^ 32 * root n (real p) - of_int (2 ^ 32 * \<lfloor>root n (real p)\<rfloor>)"
    by (simp add: frac_def algebra_simps)
  then have "\<lfloor>2 ^ 32 * frac (root n (real p))\<rfloor> = \<lfloor>2 ^ 32 * root n (real p)\<rfloor> - 2 ^ 32 * \<lfloor>root n (real p)\<rfloor>"
    by (simp only: floor_diff_of_int)
  moreover have "(2 ^ 32 :: 32 word) = 0" by simp
  ultimately show ?thesis unfolding first_bits_def by (simp only: of_int_diff of_int_mult of_int_power of_int_numeral) simp
qed

text \<open>A test by integers: the word, with some integral part before it, is the root rounded down.\<close>

definition root_ok :: "nat \<Rightarrow> int \<Rightarrow> 32 word \<Rightarrow> bool" where
  "root_ok n p w \<longleftrightarrow> list_ex (\<lambda>k. let x = k * 2 ^ 32 + uint w; q = p * 2 ^ (32 * n) in x ^ n \<le> q \<and> q < (x + 1) ^ n) [0..18]"

lemma root_ok_bits: "0 < n \<Longrightarrow> root_ok n (int p) w \<Longrightarrow> first_bits n p = w"
proof -
  assume n: "0 < n" and "root_ok n (int p) w"
  then obtain k where k: "0 \<le> k" "(k * 2 ^ 32 + uint w) ^ n \<le> int p * 2 ^ (32 * n)" "int p * 2 ^ (32 * n) < (k * 2 ^ 32 + uint w + 1) ^ n"
    by (auto simp: root_ok_def list_ex_iff Let_def)
  have "\<lfloor>2 ^ 32 * root n (real p)\<rfloor> = k * 2 ^ 32 + uint w"
    by (rule floor_root [OF n _ k(2,3)]) (use k(1) in simp)
  then have "first_bits n p = of_int (k * 2 ^ 32 + uint w)" by (simp only: first_bits_floor)
  moreover have "(2 ^ 32 :: 32 word) = 0" by simp
  ultimately show ?thesis by (simp only: of_int_add of_int_mult of_int_power of_int_numeral) simp
qed
lemma small_divisor:
  fixes p d :: nat
  assumes "d dvd p" "1 < d" "d < p" "p < 312"
  shows "\<exists>e \<in> set [2, 3, 5, 7, 11, 13, 17]. e dvd p \<and> e < p"
proof -
  obtain q where q: "p = d * q" using assms(1) by blast
  have "q \<noteq> 0" "q \<noteq> 1" using assms q by auto
  then have "1 < q" by simp
  have *: "\<exists>c. c dvd p \<and> 1 < c \<and> c < 18 \<and> c < p"
  proof (cases "d < 18")
    case False
    have "q < 18"
    proof (rule ccontr)
      assume "\<not> q < 18"
      then have "18 * 18 \<le> d * q" using False by (intro mult_le_mono) auto
      then show False using q assms(4) by simp
    qed
    moreover have "q < p" using q assms(2) \<open>1 < q\<close> by simp
    ultimately show ?thesis using q \<open>1 < q\<close> by (intro exI [of _ q]) simp
  qed (use assms in blast)
  then obtain c where c: "c dvd p" "1 < c" "c < 18" "c < p" by blast
  have "c \<in> {2..<18}" using c by simp
  also have "{2..<18} = set [2..<18::nat]" by (simp only: set_upt)
  finally have "\<exists>e \<in> set [2, 3, 5, 7, 11, 13, 17]. e dvd c" by (simp add: upt_rec_numeral) fastforce
  then obtain e where e: "e \<in> set [2, 3, 5, 7, 11, 13, 17]" "e dvd c" by blast
  then have "e dvd p" "e \<le> c" using c dvd_trans dvd_imp_le [of e c] by auto
  then show ?thesis using e(1) c(4) by (meson le_less_trans)
qed

lemma is_prime_small:
  assumes "p < 312"
  shows "is_prime p \<longleftrightarrow> 1 < p \<and> list_all (\<lambda>e. p \<le> e \<or> p mod e \<noteq> 0) [2, 3, 5, 7, 11, 13, 17]" (is "_ \<longleftrightarrow> _ \<and> list_all ?P ?es")
proof -
  have "(\<exists>d \<in> {2..<p}. d dvd p) \<longleftrightarrow> (\<exists>e \<in> set ?es. e dvd p \<and> e < p)"
  proof
    assume "\<exists>d \<in> {2..<p}. d dvd p"
    then show "\<exists>e \<in> set ?es. e dvd p \<and> e < p" using small_divisor [OF _ _ _ assms] by (auto simp del: set_simps)
  next
    assume "\<exists>e \<in> set ?es. e dvd p \<and> e < p"
    moreover have "\<forall>e \<in> set ?es. (2::nat) \<le> e" by simp
    ultimately show "\<exists>d \<in> {2..<p}. d dvd p" by (metis atLeastLessThan_iff)
  qed
  then show ?thesis by (auto simp: is_prime_def list_all_iff dvd_eq_mod_eq_0 not_le simp del: set_simps)
qed

lemma fips_primes_eq: "fips_primes = [2, 3, 5, 7, 11, 13, 17, 19, 23, 29, 31, 37, 41, 43, 47, 53, 59, 61, 67, 71, 73, 79, 83, 89, 97, 101, 103,
  107, 109, 113, 127, 131, 137, 139, 149, 151, 157, 163, 167, 173, 179, 181, 191, 193, 197, 199, 211, 223, 227, 229, 233, 239, 241, 251,
  257, 263, 269, 271, 277, 281, 283, 293, 307, 311]"
proof -
  have "fips_primes = filter (\<lambda>p. 1 < p \<and> list_all (\<lambda>e. p \<le> e \<or> p mod e \<noteq> 0) [2, 3, 5, 7, 11, 13, 17]) [2..<312]"
    unfolding fips_primes_def by (rule filter_cong) (auto simp: is_prime_small simp del: list.pred_inject)
  then show ?thesis by (simp add: upt_rec_numeral)
qed

lemma round_constants_eq: "SHA256_ROUND_CONSTANTS = map (first_bits 3) fips_primes"
proof -
  have "list_all2 (root_ok 3) (map int fips_primes) SHA256_ROUND_CONSTANTS" unfolding fips_primes_eq by code_simp
  then have "list_all2 (\<lambda>p w. w = first_bits 3 p) fips_primes SHA256_ROUND_CONSTANTS"
    unfolding list_all2_map1 by (rule list_all2_mono) (simp add: root_ok_bits)
  then show ?thesis by (induction rule: list_all2_induct) simp_all
qed

lemma initial_hash_eq: "initial_hash = fips_H0"
proof -
  have "list_all2 (root_ok 2) (map int (take 8 fips_primes)) initial_hash" unfolding fips_primes_eq by code_simp
  then have "list_all2 (\<lambda>p w. w = first_bits 2 p) (take 8 fips_primes) initial_hash"
    unfolding list_all2_map1 by (rule list_all2_mono) (simp add: root_ok_bits)
  then have "initial_hash = map (first_bits 2) (take 8 fips_primes)" by (induction rule: list_all2_induct) simp_all
  then show ?thesis by (simp add: fips_H0_def)
qed

lemma fips_K_eq: "t < 64 \<Longrightarrow> SHA256_ROUND_CONSTANTS ! t = fips_K t"
  unfolding round_constants_eq fips_K_def by (rule nth_map) (simp add: fips_primes_eq)


section \<open>The code follows the standard\<close>

lemma rotateRight_eq: "0 < n \<Longrightarrow> n < 32 \<Longrightarrow> rotateRight v n = word_rotr n v"
proof (rule bit_word_eqI)
  fix i assume n: "0 < n" "n < 32" and i: "i < LENGTH(32)"
  show "bit (rotateRight v n) i = bit (word_rotr n v) i"
  proof (cases "i + n < 32")
    case True
    with n i show ?thesis
      by (auto simp: rotateRight_def bit_or_iff bit_drop_bit_eq bit_push_bit_iff bit_word_rotr_iff add.commute)
  next
    case False
    then have "(i + n) mod 32 = i + n - 32" using n i by (simp add: mod_if)
    moreover have "\<not> bit v (i + n)" using False bit_imp_le_length [of v "i + n"] by auto
    ultimately show ?thesis using False n i
      by (auto simp: rotateRight_def bit_or_iff bit_drop_bit_eq bit_push_bit_iff bit_word_rotr_iff add.commute)
  qed
qed

lemma paddedLength_eq: "paddedLength n = n + 9 + (119 - n mod 64) mod 64"
proof -
  define q r where "q = n div 64" and "r = n mod 64"
  then have n: "n = 64 * q + r" and r: "r < 64" by simp_all
  show ?thesis
  proof (cases "r \<le> 55")
    case True
    then have "(n + 9 + 63) div 64 = q + 1" using n r by (intro div_nat_eqI) auto
    moreover have "(119 - r) mod 64 = 55 - r" using True by (simp add: mod_if)
    ultimately show ?thesis using True n r by (simp add: paddedLength_def flip: r_def)
  next
    case False
    then have "(n + 9 + 63) div 64 = q + 2" using n r by (intro div_nat_eqI) auto
    moreover have "(119 - r) mod 64 = 119 - r" using False by simp
    ultimately show ?thesis using False n r by (simp add: paddedLength_def flip: r_def)
  qed
qed

lemma schedule_eq:
  "j \<le> 48 \<Longrightarrow> (next_word ^^ j) (map M [0..<16]) = map (fips_word M) [0..<16 + j]"
proof (induction j)
  case 0
  have "fips_word M i = M i" if "i < 16" for i using that by (subst fips_word.simps) simp
  then show ?case by simp
next
  case (Suc j)
  let ?ws = "map (fips_word M) [0..<16 + j]"
  have nth: "?ws ! (16 + j - k) = fips_word M (16 + j - k)" if "0 < k" "k \<le> 16" for k
    using that by simp
  have "next_word ?ws = ?ws @ [fips_word M (16 + j)]"
    unfolding next_word_def Let_def using nth [of 16] nth [of 15] nth [of 7] nth [of 2]
    by (simp add: rotateRight_eq fips_word.simps [of M "16 + j"])
  moreover have "[0..<17 + j] = [0..<16 + j] @ [16 + j]"
    using upt_Suc_append [of 0 "16 + j"] by simp
  ultimately show ?case using Suc by (simp del: upt_Suc)
qed

lemma nth_setUint32:
  "i + 3 < length buf \<Longrightarrow> k < length buf \<Longrightarrow>
   setUint32 buf i n ! k = (if k < i \<or> i + 4 \<le> k then buf ! k else of_nat (n div 256 ^ (3 - (k - i))))"
proof -
  assume i: "i + 3 < length buf" and k: "k < length buf"
  consider "k < i" | "k = i" | "k = i + 1" | "k = i + 2" | "k = i + 3" | "i + 4 \<le> k" by linarith
  then show ?thesis using i k by cases (simp_all add: setUint32_def nth_list_update)
qed

lemma length_setUint32 [simp]: "length (setUint32 buf i n) = length buf"
  by (simp add: setUint32_def)

text \<open>The two halves of the bit length are its eight bytes.\<close>

lemma of_nat_8_cong: "a mod 256 = b mod 256 \<Longrightarrow> (of_nat a :: 8 word) = of_nat b"
  by (simp add: word_of_nat_eq_iff take_bit_eq_mod)

lemma mod_div_digit:
  fixes b :: nat
  assumes "e < k" and "0 < b"
  shows "n mod b ^ k div b ^ e mod b = n div b ^ e mod b"
proof -
  obtain j where k: "k = e + Suc j" using less_imp_Suc_add [OF assms(1)] by auto
  let ?c = "b * b ^ j"
  have "n mod b ^ k = b ^ e * (n div b ^ e mod ?c) + n mod b ^ e"
    using mod_mult2_eq [of n "b ^ e" ?c] by (simp add: k power_add ac_simps)
  then have "n mod b ^ k div b ^ e = n div b ^ e mod ?c" using assms(2) by simp
  then show ?thesis by (simp add: mod_mod_cancel)
qed

lemma length_bytes:
  assumes "k < 8"
  shows "be64 n ! k = (if k < 4 then of_nat (n div 256 ^ 4 div 256 ^ (3 - k))
    else of_nat (n mod 256 ^ 4 div 256 ^ (3 - (k - 4))))"
proof (cases "k < 4")
  case True
  then have "7 - k = 4 + (3 - k)" by simp
  then have "n div 256 ^ (7 - k) = n div 256 ^ 4 div 256 ^ (3 - k)"
    by (simp only: power_add div_mult2_eq)
  with True show ?thesis by (simp add: be64_def)
next
  case False
  then have e: "7 - k < 4" "3 - (k - 4) = 7 - k" using assms by auto
  have "(of_nat (n mod 256 ^ 4 div 256 ^ (7 - k)) :: 8 word) = of_nat (n div 256 ^ (7 - k))"
    by (rule of_nat_8_cong) (rule mod_div_digit [OF e(1)], simp)
  with False assms show ?thesis unfolding e(2) by (simp add: be64_def)
qed

lemma length_be64 [simp]: "length (be64 n) = 8"
  by (simp add: be64_def)

lemma nth_padding:
  "i < length m + 9 + z \<Longrightarrow>
   (m @ x # replicate z y @ b) ! i =
     (if i < length m then m ! i else if i = length m then x
      else if i < length m + 1 + z then y else b ! (i - (length m + 1 + z)))"
  by (auto simp: nth_append nth_Cons')

lemma padded_eq: "padded m = fips_pad m"
proof (rule nth_equalityI)
  let ?len = "paddedLength (length m)" and ?z = "(119 - length m mod 64) mod 64"
  have len: "?len = length m + 9 + ?z" by (rule paddedLength_eq)
  then show "length (padded m) = length (fips_pad m)"
    by (simp add: padded_def Let_def fips_pad_def)
  fix i assume "i < length (padded m)"
  then have i: "i < ?len" using len by (simp add: padded_def Let_def)
  let ?bl = "length m * 8" and ?p1 = "(m @ replicate (?len - length m) 0)[length m := 0x80]"
  let ?p2 = "setUint32 ?p1 (?len - 8) (?bl div 0x100000000)"
  have l1: "length ?p1 = ?len" using len by simp
  have n1: "?p1 ! k = (if k < length m then m ! k else if k = length m then 0x80 else 0)" if "k < ?len" for k
  proof -
    have z: "replicate (?len - length m) (0 :: 8 word) ! (k - length m) = 0" if "\<not> k < length m"
      by (rule nth_replicate) (use that \<open>k < ?len\<close> in linarith)
    have "length m < length (m @ replicate (?len - length m) (0 :: 8 word))"
      unfolding length_append length_replicate using len by linarith
    then show ?thesis using z by (simp only: nth_list_update nth_append split: if_splits) auto
  qed
  have pad: "padded m ! i = (if i < length m then m ! i else if i = length m then 0x80
      else if i < ?len - 8 then 0 else be64 (8 * length m) ! (i - (?len - 8)))"
  proof -
    have "padded m ! i = setUint32 ?p2 (?len - 4) (?bl mod 0x100000000) ! i" by (simp add: padded_def Let_def)
    also have "\<dots> = (if i < ?len - 4 then ?p2 ! i else of_nat (?bl mod 0x100000000 div 256 ^ (3 - (i - (?len - 4)))))"
      using nth_setUint32 [of "?len - 4" ?p2 i] i l1 len by simp
    also have "?p2 ! i = (if i < ?len - 8 \<or> ?len - 4 \<le> i then ?p1 ! i
        else of_nat (?bl div 0x100000000 div 256 ^ (3 - (i - (?len - 8)))))"
      using nth_setUint32 [of "?len - 8" ?p1 i] i l1 len by simp
    finally have "padded m ! i = (if i < ?len - 8 then ?p1 ! i
        else if i < ?len - 4 then of_nat (?bl div 0x100000000 div 256 ^ (3 - (i - (?len - 8))))
        else of_nat (?bl mod 0x100000000 div 256 ^ (3 - (i - (?len - 4)))))"
      using len by auto
    moreover have "be64 ?bl ! (i - (?len - 8)) = (if i < ?len - 4 then of_nat (?bl div 0x100000000 div 256 ^ (3 - (i - (?len - 8))))
        else of_nat (?bl mod 0x100000000 div 256 ^ (3 - (i - (?len - 4)))))" if "?len - 8 \<le> i"
    proof -
      obtain z where "?len = length m + 9 + z" using len by blast
      then have "i - (?len - 8) < 8" "i - (?len - 8) < 4 \<longleftrightarrow> i < ?len - 4"
        "\<not> i < ?len - 4 \<longrightarrow> i - (?len - 8) - 4 = i - (?len - 4)" using i that by auto
      then show ?thesis using length_bytes [of "i - (?len - 8)" ?bl] by simp
    qed
    moreover have "length m < ?len - 8" using len by simp
    ultimately show ?thesis using n1 [OF i] by (simp add: mult.commute)
  qed
  have fips: "fips_pad m ! i = (if i < length m then m ! i else if i = length m then 0x80
      else if i < ?len - 8 then 0 else be64 (8 * length m) ! (i - (?len - 8)))"
  proof -
    have "?len - 8 = length m + 1 + ?z" using len by linarith
    moreover have "i < length m + 9 + ?z" using i len by linarith
    ultimately show ?thesis unfolding fips_pad_def by (simp only: nth_padding)
  qed
  show "padded m ! i = fips_pad m ! i" unfolding pad fips ..
qed


lemma push_or: "push_bit 8 (v :: 32 word) OR ucast (b :: 8 word) = 256 * v + ucast b"
proof -
  have "push_bit 8 v AND ucast b = 0"
    by (rule bit_word_eqI) (auto simp: bit_simps dest: bit_imp_le_length)
  then have "push_bit 8 v + ucast b = push_bit 8 v OR ucast b" by (rule disjunctive_add_eq_or)
  then show ?thesis by (simp add: push_bit_eq_mult mult.commute)
qed

lemma word_bytes:
  fixes a b c d :: "8 word"
  shows "push_bit 24 (ucast a) OR push_bit 16 (ucast b) OR push_bit 8 (ucast c) OR ucast d = (of_nat (((unat a * 256 + unat b) * 256 + unat c) * 256 + unat d) :: 32 word)"
proof -
  have "push_bit 24 (ucast a) OR push_bit 16 (ucast b) OR push_bit 8 (ucast c) OR ucast d =
    push_bit 8 (push_bit 8 (push_bit 8 (ucast a) OR ucast b) OR ucast c) OR (ucast d :: 32 word)"
    by (simp add: push_bit_or ac_simps)
  also have "\<dots> = 256 * (256 * (256 * ucast a + ucast b) + ucast c) + ucast d" by (simp only: push_or)
  finally show ?thesis by (simp add: algebra_simps)
qed
lemma getUint32_eq: "i * 4 + 4 \<le> length buf \<Longrightarrow> getUint32 buf (i * 4) = fips_message_word buf i"
proof -
  assume "i * 4 + 4 \<le> length buf"
  then have "take 4 (drop (i * 4) buf) = [buf ! (i * 4), buf ! (i * 4 + 1), buf ! (i * 4 + 2), buf ! (i * 4 + 3)]"
    by (simp add: list_eq_iff_nth_eq less_Suc_eq numeral_eq_Suc nth_Cons')
  then show ?thesis by (simp add: getUint32_def fips_message_word_def big_endian_def word_bytes del: of_nat_add of_nat_mult)
qed

lemma hex_digit_eq: "n < 16 \<Longrightarrow> hex_digit n = of_char (''0123456789abcdef'' ! n)"
proof -
  have "list_all (\<lambda>n. hex_digit n = of_char (''0123456789abcdef'' ! n)) [0..<16]" by code_simp
  then show "n < 16 \<Longrightarrow> ?thesis" by (simp add: list_all_iff del: upt_rec_numeral)
qed

lemma hex_word_eq: "hex_word w = js (fips_hex w)"
proof -
  have "unat (drop_bit (4 * k) w) = unat w div 16 ^ k" for k
    unfolding unat_drop_bit_eq by (simp add: drop_bit_eq_div power_mult)
  then show ?thesis by (simp add: hex_word_def fips_hex_def js_def hex_digit_eq del: upt_rec_numeral)
qed

lemma round_step_eq:
  assumes "\<And>t. t < 64 \<Longrightarrow> ws ! t = W t"
  shows "foldl (round_step ws) r [0..<64] = foldl (fips_round W) r [0..<64]"
proof -
  have "round_step ws s t = fips_round W s t" if "t < 64" for s t
    using assms [OF that] fips_K_eq [OF that] by (simp add: round_step_def fips_round_def rotateRight_eq split: prod.split)
  then show ?thesis by (intro foldl_cong) auto
qed

lemma compress_eq: "compress buf H offset = fips_block H (\<lambda>i. getUint32 buf (offset + i * 4))"
proof -
  have "schedule buf offset = map (fips_word (\<lambda>i. getUint32 buf (offset + i * 4))) [0..<64]"
    unfolding schedule_def using schedule_eq [of 48] by simp
  then show ?thesis
    unfolding compress_def fips_block_def by (subst round_step_eq) (simp_all del: upt_Suc)
qed

lemma fips_word_cong: "(\<And>i. i < 16 \<Longrightarrow> M i = N i) \<Longrightarrow> fips_word M t = fips_word N t"
proof (induction t rule: less_induct)
  case (less t)
  show ?case
  proof (cases "t < 16")
    case False
    then have "fips_word M (t - k) = fips_word N (t - k)" if "0 < k" for k using that less by simp
    with False show ?thesis by (simp add: fips_word.simps [of M t] fips_word.simps [of N t])
  qed (use less.prems in \<open>simp add: fips_word.simps [of M t] fips_word.simps [of N t]\<close>)
qed

lemma fips_block_cong: "(\<And>i. i < 16 \<Longrightarrow> M i = N i) \<Longrightarrow> fips_block H M = fips_block H N"
proof -
  assume "\<And>i. i < 16 \<Longrightarrow> M i = N i"
  then have "fips_word M = fips_word N" using fips_word_cong by blast
  then show ?thesis by (simp only: fips_block_def)
qed

text \<open>
  C23: the hand-written digest is SHA-256: on every message it equals the standard's definition
  applied to the message's UTF-8 bytes, printed in lowercase hexadecimal.
\<close>

theorem sha256Hex_is_sha256:
  "sha256Hex message = js (concat (map fips_hex (fips_sha256 (utf8_encode message))))"
proof -
  let ?p = "fips_pad (utf8_encode message)"
  have "fips_block H (\<lambda>i. getUint32 ?p (k * 64 + i * 4)) = fips_block H (\<lambda>i. fips_message_word ?p (k * 16 + i))"
    if "k < length ?p div 64" for H k
  proof (rule fips_block_cong)
    fix i :: nat
    assume "i < 16"
    moreover have "64 * Suc k \<le> length ?p" using that by (simp add: less_eq_div_iff_mult_less_eq [symmetric] Suc_le_eq mult.commute)
    ultimately show "getUint32 ?p (k * 64 + i * 4) = fips_message_word ?p (k * 16 + i)"
      using getUint32_eq [of "k * 16 + i" ?p] by (simp add: algebra_simps)
  qed
  then have "foldl (\<lambda>H k. fips_block H (\<lambda>i. getUint32 ?p (k * 64 + i * 4))) fips_H0 [0..<length ?p div 64] = fips_sha256 (utf8_encode message)"
    unfolding fips_sha256_def Let_def by (intro foldl_cong) auto
  then have "foldl (compress ?p) initial_hash (map (\<lambda>k. k * 64) [0..<length ?p div 64]) = fips_sha256 (utf8_encode message)"
    by (simp add: foldl_map compress_eq initial_hash_eq del: upt_Suc)
  then have "sha256Hex message = concat (map hex_word (fips_sha256 (utf8_encode message)))"
    by (simp add: sha256Hex_def Let_def padded_eq)
  then show ?thesis by (simp add: hex_word_eq [abs_def] js_def map_concat o_def)
qed

lemma length_compress [simp]: "length (compress buf H k) = 8"
  by (simp add: compress_def split: prod.split)

lemma length_foldl_compress: "length H = 8 \<Longrightarrow> length (foldl (compress buf) H ks) = 8"
  by (induction ks arbitrary: H) auto

definition lower_hex :: "code_unit \<Rightarrow> bool" where
  [js_char]: "lower_hex c \<longleftrightarrow> 0x30 \<le> c \<and> c \<le> 0x39 \<or> 0x61 \<le> c \<and> c \<le> 0x66"

lemma hex_digit_lower: "n < 16 \<Longrightarrow> lower_hex (hex_digit n)"
  by (auto simp: js_char hex_digit_def word_le_nat_alt unat_word_ariths unat_of_nat)

lemma hex_word_shape: "length (hex_word w) = 8 \<and> list_all lower_hex (hex_word w)"
  by (auto simp: hex_word_def list_all_iff intro!: hex_digit_lower)

lemma sha256Hex_shape: "length (sha256Hex m) = 64 \<and> list_all lower_hex (sha256Hex m)"
proof -
  have "length (concat (map hex_word ws)) = 8 * length ws \<and> list_all lower_hex (concat (map hex_word ws))" for ws
    using hex_word_shape by (induction ws) auto
  moreover have "length (foldl (compress buf) initial_hash ks) = 8" for buf ks
    by (rule length_foldl_compress) (simp add: initial_hash_def)
  ultimately show ?thesis by (simp add: sha256Hex_def Let_def)
qed

end
