(* ===== verification/Approval_Contract.thy ===== *)
theory Approval_Contract
  imports Sha256 Step_System
begin

text \<open>
  The capability contract, \<open>src/app/src/domain/approval/contract.ts\<close>: the closed registry of
  trusted adapters, the evidence it mints, and the two verifiers that turn an untrusted
  grant or attempt into a checked claim.

  An untrusted input is a value in a store of objects and is read with \<open>js_get\<close>, in the order of the
  source; a \<open>throw new TypeError\<close> is the error of a sum. Evidence is known by
  its identity (the \<open>WeakSet\<close> and \<open>WeakMap\<close> of the source are maps on addresses); evidence objects are
  frozen, so their fields are those the mint gave them.

  Shown: what the verifiers accept is well formed, its evidence was minted by this registry for
  this phase, action and target, and one piece of evidence serves a single claim.
\<close>

named_theorems approval \<open>facts the approval proofs share\<close>


section \<open>Data\<close>

datatype CapabilityAction =
  A_file | A_shell | A_network | A_browser | A_computer | A_credentials | A_messages | A_download | A_upload
| A_git | A_package | A_process

definition CAPABILITY_ACTIONS :: "CapabilityAction list" where
  "CAPABILITY_ACTIONS =
     [A_file, A_shell, A_network, A_browser, A_computer, A_credentials, A_messages, A_download, A_upload,
      A_git, A_package, A_process]"

fun action_name :: "CapabilityAction \<Rightarrow> string" where
  "action_name A_file = ''file''"
| "action_name A_shell = ''shell''"
| "action_name A_network = ''network''"
| "action_name A_browser = ''browser''"
| "action_name A_computer = ''computer''"
| "action_name A_credentials = ''credentials''"
| "action_name A_messages = ''messages''"
| "action_name A_download = ''download''"
| "action_name A_upload = ''upload''"
| "action_name A_git = ''git''"
| "action_name A_package = ''package''"
| "action_name A_process = ''process''"

datatype CapabilityScope = S_once | S_session | S_persistent

fun scope_name :: "CapabilityScope \<Rightarrow> string" where
  "scope_name S_once = ''once''"
| "scope_name S_session = ''session''"
| "scope_name S_persistent = ''persistent''"

definition SCOPES :: "CapabilityScope list" where
  "SCOPES = [S_once, S_session, S_persistent]"

datatype RiskSeverity = R_low | R_medium | R_high | R_critical

fun severity_name :: "RiskSeverity \<Rightarrow> string" where
  "severity_name R_low = ''low''"
| "severity_name R_medium = ''medium''"
| "severity_name R_high = ''high''"
| "severity_name R_critical = ''critical''"

definition SEVERITIES :: "RiskSeverity list" where
  "SEVERITIES = [R_low, R_medium, R_high, R_critical]"

text \<open>\<open>LIST.includes(value)\<close>, returning the member that the value names.\<close>

definition js_includes :: "('a \<Rightarrow> string) \<Rightarrow> 'a list \<Rightarrow> jsval \<Rightarrow> 'a option" where
  "js_includes name xs v = find (\<lambda>x. v = jstr (name x)) xs"

record CapabilityTarget =
  target_action :: CapabilityAction
  target_value :: jsstr

record CapabilityRisk =
  severity :: RiskSeverity
  fingerprint :: jsstr

record CapabilityBinding =
  principalId :: jsstr
  accountId :: jsstr
  projectId :: jsstr
  sessionId :: jsstr
  policyId :: jsstr
  epoch :: int

datatype evidence_phase = Grant_Phase | Attempt_Phase

text \<open>Evidence carries its identity; the type of \<open>kind\<close> has the single value of the source.\<close>

record VerifiedAdapterEvidence =
  ev_ref :: addr
  ev_kind :: string
  ev_phase :: evidence_phase
  ev_adapterId :: jsstr
  ev_adapterVersion :: jsstr
  ev_action :: CapabilityAction
  ev_target :: CapabilityTarget
  ev_argumentsDigest :: jsstr

record CapabilityClaim =
  scope :: CapabilityScope
  action :: CapabilityAction
  target :: CapabilityTarget
  risk :: CapabilityRisk
  binding :: CapabilityBinding
  evidence :: VerifiedAdapterEvidence

record CapabilityGrant = CapabilityClaim +
  grant_id :: jsstr
  approvalId :: jsstr
  issuedAt :: int
  expiresAt :: int

record CapabilityAttempt = CapabilityClaim +
  attempt_id :: jsstr
  grantId :: jsstr


section \<open>Checks on single values\<close>

fun exactIdentifier :: "jsval \<Rightarrow> string \<Rightarrow> js_error + jsstr" where
  "exactIdentifier (Prim (PStr s)) label =
     (if s = [] \<or> s \<noteq> js_trim s \<or> 0 \<in> set s
      then Inl (TypeError (label @ '' must be a non-empty exact identifier'')) else Inr s)"
| "exactIdentifier _ label = Inl (TypeError (label @ '' must be a non-empty exact identifier''))"

text \<open>\<open>Number.isSafeInteger(value) && value >= 0\<close>, returning the integer.\<close>

definition safe_nonneg :: "jsval \<Rightarrow> int option" where
  "safe_nonneg v =
     (case v of
        Prim (PNum n) \<Rightarrow> (case as_safe_integer n of Some i \<Rightarrow> if i < 0 then None else Some i | None \<Rightarrow> None)
      | _ \<Rightarrow> None)"

definition exactTimestamp :: "jsval \<Rightarrow> string \<Rightarrow> js_error + int" where
  "exactTimestamp v label =
     (case safe_nonneg v of
        None \<Rightarrow> Inl (TypeError (label @ '' must be a non-negative integer timestamp''))
      | Some i \<Rightarrow> Inr i)"

text \<open>The pattern \<open>/^sha256:[0-9a-f]{64}$/\<close>.\<close>

definition SHA256_DIGEST :: "jsstr \<Rightarrow> bool" where
  "SHA256_DIGEST s \<longleftrightarrow>
     take 7 s = js ''sha256:'' \<and> length (drop 7 s) = 64 \<and> list_all lower_hex (drop 7 s)"

definition normalizeArgumentsDigest :: "jsstr \<Rightarrow> js_error + jsstr" where
  "normalizeArgumentsDigest s =
     (if \<not> SHA256_DIGEST s then Inl (TypeError ''Arguments digest must be canonical lowercase SHA-256'')
      else Inr s)"

text \<open>
  \<open>normalizeTarget\<close>: the value is kept byte for byte; the twelve cases of the \<open>switch\<close> are the
  twelve actions.
\<close>

definition exactTarget :: "CapabilityAction \<Rightarrow> jsstr \<Rightarrow> CapabilityTarget" where
  "exactTarget a s = \<lparr>target_action = a, target_value = s\<rparr>"

definition exact_resource :: "jsstr \<Rightarrow> bool" where
  "exact_resource s \<longleftrightarrow> s \<noteq> [] \<and> 0 \<notin> set s \<and> cu CHR ''*'' \<notin> set s"

definition normalizeTarget :: "jsval \<Rightarrow> jsval \<Rightarrow> js_error + CapabilityTarget" where
  "normalizeTarget a v =
     (case v of
        Prim (PStr s) \<Rightarrow>
          if \<not> exact_resource s
          then Inl (TypeError ''Capability target must identify one non-empty exact resource'')
          else (case js_includes action_name CAPABILITY_ACTIONS a of
             Some act \<Rightarrow> Inr (exactTarget act s)
           | None \<Rightarrow> Inl (TypeError ''Capability target action is not recognized''))
      | _ \<Rightarrow> Inl (TypeError ''Capability target must identify one non-empty exact resource''))"

text \<open>\<open>typeof epoch\<close> is checked with the value.\<close>

definition exactEpoch :: "jsval \<Rightarrow> string \<Rightarrow> js_error + int" where
  "exactEpoch v label =
     (case safe_nonneg v of
        None \<Rightarrow> Inl (TypeError (label @ '' binding epoch must be a non-negative integer''))
      | Some i \<Rightarrow> Inr i)"


section \<open>Claims\<close>

text \<open>The reads at the head of \<open>snapshotClaim\<close>, in order.\<close>

record raw_claim =
  raw_scope :: jsval
  raw_action :: jsval
  raw_evidence :: addr
  raw_target_action :: jsval
  raw_target_value :: jsval
  raw_severity :: jsval
  raw_fingerprint :: jsval
  raw_principalId :: jsval
  raw_accountId :: jsval
  raw_projectId :: jsval
  raw_sessionId :: jsval
  raw_policyId :: jsval
  raw_epoch :: jsval

definition read_claim :: "heap \<Rightarrow> jsval \<Rightarrow> string \<Rightarrow> (addr \<Rightarrow> bool) \<Rightarrow> js_error + raw_claim" where
  "read_claim h input label verified =
     ebind (js_get h input ''scope'') (\<lambda>sc.
     ebind (js_get h input ''action'') (\<lambda>act.
     ebind (js_get h input ''target'') (\<lambda>targetInput.
     ebind (js_get h input ''risk'') (\<lambda>riskInput.
     ebind (js_get h input ''binding'') (\<lambda>bindingInput.
     ebind (js_get h input ''evidence'') (\<lambda>evidenceInput.
     ebind (case evidenceInput of
         Ref a \<Rightarrow> if verified a then Inr a else Inl (TypeError (label @ '' adapter evidence is not verified''))
       | Prim _ \<Rightarrow> Inl (TypeError (label @ '' adapter evidence is not verified''))) (\<lambda>a.
     ebind (js_get h targetInput ''action'') (\<lambda>targetAction.
     ebind (js_get h targetInput ''value'') (\<lambda>targetValue.
     ebind (js_get h riskInput ''severity'') (\<lambda>riskSeverity.
     ebind (js_get h riskInput ''fingerprint'') (\<lambda>riskFingerprint.
     ebind (js_get h bindingInput ''principalId'') (\<lambda>principal.
     ebind (js_get h bindingInput ''accountId'') (\<lambda>account.
     ebind (js_get h bindingInput ''projectId'') (\<lambda>project.
     ebind (js_get h bindingInput ''sessionId'') (\<lambda>session.
     ebind (js_get h bindingInput ''policyId'') (\<lambda>policy.
     ebind (js_get h bindingInput ''epoch'') (\<lambda>ep.
       Inr \<lparr>raw_scope = sc, raw_action = act, raw_evidence = a, raw_target_action = targetAction,
         raw_target_value = targetValue, raw_severity = riskSeverity, raw_fingerprint = riskFingerprint,
         raw_principalId = principal, raw_accountId = account, raw_projectId = project,
         raw_sessionId = session, raw_policyId = policy, raw_epoch = ep\<rparr>)))))))))))))))))"

definition check_risk :: "raw_claim \<Rightarrow> string \<Rightarrow> js_error + CapabilityRisk" where
  "check_risk r label =
     (case js_includes severity_name SEVERITIES (raw_severity r) of
        Some sev \<Rightarrow>
          if falsy (raw_fingerprint r)
          then Inl (TypeError (label @ '' risk must have an exact severity and fingerprint''))
          else ebind (exactIdentifier (raw_fingerprint r) (label @ '' risk fingerprint'')) (\<lambda>f.
            Inr \<lparr>severity = sev, fingerprint = f\<rparr>)
      | None \<Rightarrow> Inl (TypeError (label @ '' risk must have an exact severity and fingerprint'')))"

definition check_binding :: "raw_claim \<Rightarrow> string \<Rightarrow> js_error + CapabilityBinding" where
  "check_binding r label =
     ebind (exactIdentifier (raw_principalId r) (label @ '' binding principal'')) (\<lambda>principal.
     ebind (exactIdentifier (raw_accountId r) (label @ '' binding account'')) (\<lambda>account.
     ebind (exactIdentifier (raw_projectId r) (label @ '' binding project'')) (\<lambda>project.
     ebind (exactIdentifier (raw_sessionId r) (label @ '' binding session'')) (\<lambda>session.
     ebind (exactIdentifier (raw_policyId r) (label @ '' binding policy'')) (\<lambda>policy.
     ebind (exactEpoch (raw_epoch r) label) (\<lambda>ep.
       Inr \<lparr>principalId = principal, accountId = account, projectId = project, sessionId = session,
         policyId = policy, epoch = ep\<rparr>))))))"

text \<open>The checks that follow the reads, once the action is known.\<close>

definition claim_of_raw ::
  "raw_claim \<Rightarrow> string \<Rightarrow> evidence_phase \<Rightarrow> VerifiedAdapterEvidence \<Rightarrow> CapabilityAction \<Rightarrow> js_error + CapabilityClaim" where
  "claim_of_raw r label phase ev act =
     (case js_includes scope_name SCOPES (raw_scope r) of
       None \<Rightarrow> Inl (TypeError (label @ '' scope is not recognized''))
     | Some sc \<Rightarrow>
     if raw_target_action r \<noteq> raw_action r
     then Inl (TypeError (label @ '' action and target action must match exactly''))
     else ebind (normalizeTarget (raw_action r) (raw_target_value r)) (\<lambda>t.
     if ev_kind ev \<noteq> ''verified-adapter-evidence'' \<or> ev_phase ev \<noteq> phase
     then Inl (TypeError (label @ '' adapter evidence phase is not verified''))
     else if ev_action ev \<noteq> act \<or> target_action (ev_target ev) \<noteq> target_action t \<or>
       target_value (ev_target ev) \<noteq> target_value t
     then Inl (TypeError (label @ '' adapter evidence must bind the exact action and target''))
     else ebind (check_risk r label) (\<lambda>rk.
     ebind (check_binding r label) (\<lambda>b.
       Inr \<lparr>scope = sc, action = act, target = t, risk = rk, binding = b, evidence = ev\<rparr>))))"

definition snapshotClaim ::
  "heap \<Rightarrow> jsval \<Rightarrow> string \<Rightarrow> evidence_phase \<Rightarrow> (addr \<rightharpoonup> VerifiedAdapterEvidence) \<Rightarrow> js_error + CapabilityClaim" where
  "snapshotClaim h input label phase verifiedEvidence =
     ebind (read_claim h input label (\<lambda>a. verifiedEvidence a \<noteq> None)) (\<lambda>r.
     let ev = the (verifiedEvidence (raw_evidence r)) in
     case js_includes action_name CAPABILITY_ACTIONS (raw_action r) of
       None \<Rightarrow> Inl (TypeError (label @ '' action is not a recognized capability action''))
     | Some act \<Rightarrow> claim_of_raw r label phase ev act)"


section \<open>The registry\<close>

text \<open>
  An adapter definition as the caller passes it: \<open>validateTarget\<close> is \<open>None\<close> when it is not a
  function; a validator is a parameter of the model, which may throw and otherwise
  returns a value in a store of its own.
\<close>

type_synonym target_validator = "heap \<Rightarrow> jsval \<Rightarrow> js_error + (heap \<times> jsval)"

record adapter_input =
  in_adapterId :: jsval
  in_adapterVersion :: jsval
  in_action :: jsval
  in_validateTarget :: "target_validator option"

record TrustedAdapterDefinition =
  adapterId :: jsstr
  adapterVersion :: jsstr
  adapter_action :: CapabilityAction
  validateTarget :: target_validator

text \<open>The variables that \<open>createTrustedAdapterAuthority\<close> closes over; \<open>next_evidence\<close> numbers the
  evidence objects it has made.\<close>

record authority =
  adapters :: "jsstr \<rightharpoonup> TrustedAdapterDefinition"
  grantEvidence :: "addr \<rightharpoonup> VerifiedAdapterEvidence"
  attemptEvidence :: "addr \<rightharpoonup> VerifiedAdapterEvidence"
  grantClaims :: "addr \<rightharpoonup> jsstr"
  attemptClaims :: "addr \<rightharpoonup> jsstr"
  next_evidence :: nat

definition adapter_key :: "jsstr \<Rightarrow> jsstr \<Rightarrow> jsstr \<Rightarrow> jsstr" where
  "adapter_key i v a = json_key (TArr [TStr i, TStr v, TStr a])"

fun register_adapters ::
  "(jsstr \<rightharpoonup> TrustedAdapterDefinition) \<Rightarrow> adapter_input list \<Rightarrow> js_error + (jsstr \<rightharpoonup> TrustedAdapterDefinition)" where
  "register_adapters ads [] = Inr ads"
| "register_adapters ads (input # rest) =
     ebind (exactIdentifier (in_adapterId input) ''Trusted adapter id'') (\<lambda>i.
     ebind (exactIdentifier (in_adapterVersion input) ''Trusted adapter version'') (\<lambda>v.
     case (js_includes action_name CAPABILITY_ACTIONS (in_action input), in_validateTarget input) of
       (Some act, Some validate) \<Rightarrow>
         (let key = adapter_key i v (js (action_name act)) in
          if ads key \<noteq> None then Inl (TypeError ''Trusted adapter definition is duplicated'')
          else register_adapters
            (ads(key \<mapsto> \<lparr>adapterId = i, adapterVersion = v, adapter_action = act, validateTarget = validate\<rparr>)) rest)
     | _ \<Rightarrow> Inl (TypeError ''Trusted adapter definition is invalid'')))"

definition createTrustedAdapterAuthority :: "adapter_input list \<Rightarrow> js_error + authority" where
  "createTrustedAdapterAuthority definitions =
     ebind (register_adapters Map.empty definitions) (\<lambda>ads.
       Inr \<lparr>adapters = ads, grantEvidence = Map.empty, attemptEvidence = Map.empty,
         grantClaims = Map.empty, attemptClaims = Map.empty, next_evidence = 0\<rparr>)"

definition bindClaim :: "(addr \<rightharpoonup> jsstr) \<Rightarrow> addr \<Rightarrow> jsstr \<Rightarrow> js_error + (addr \<rightharpoonup> jsstr)" where
  "bindClaim claims ev fp =
     (case claims ev of
        Some existing \<Rightarrow>
          if existing \<noteq> fp
          then Inl (TypeError ''Adapter evidence cannot be replayed for a different phase claim'')
          else Inr (claims(ev \<mapsto> fp))
      | None \<Rightarrow> Inr (claims(ev \<mapsto> fp)))"

text \<open>
  The mint's argument. The three names are strings, as their types say; the candidate and the
  arguments are arbitrary values.
\<close>

record AdapterVerificationInput =
  v_adapterId :: jsstr
  v_adapterVersion :: jsstr
  v_action :: jsstr
  v_candidateTarget :: jsval
  v_canonicalArguments :: jsval

text \<open>\<open>(phase === "grant" ? grantEvidence : attemptEvidence).add(evidence)\<close>.\<close>

definition add_evidence :: "evidence_phase \<Rightarrow> VerifiedAdapterEvidence \<Rightarrow> authority \<Rightarrow> authority" where
  "add_evidence ph e au =
     (case ph of
        Grant_Phase \<Rightarrow> au\<lparr>grantEvidence := (grantEvidence au)(ev_ref e \<mapsto> e), next_evidence := Suc (next_evidence au)\<rparr>
      | Attempt_Phase \<Rightarrow> au\<lparr>attemptEvidence := (attemptEvidence au)(ev_ref e \<mapsto> e), next_evidence := Suc (next_evidence au)\<rparr>)"

definition mintEvidence ::
  "authority \<Rightarrow> evidence_phase \<Rightarrow> heap \<Rightarrow> AdapterVerificationInput \<Rightarrow> js_error + (VerifiedAdapterEvidence \<times> authority)" where
  "mintEvidence au phase h input =
     (case v_canonicalArguments input of
        Prim (PStr canonicalArguments) \<Rightarrow>
          (case adapters au (adapter_key (v_adapterId input) (v_adapterVersion input) (v_action input)) of
             None \<Rightarrow> Inl (TypeError ''Adapter is not in the closed trusted registry'')
           | Some def \<Rightarrow>
               ebind (validateTarget def h (v_candidateTarget input)) (\<lambda>(h', targetInput).
               ebind (js_get h' targetInput ''action'') (\<lambda>targetAction.
               ebind (js_get h' targetInput ''value'') (\<lambda>targetValue.
               if targetAction \<noteq> Prim (PStr (v_action input))
               then Inl (TypeError ''Adapter evidence action and target action must match exactly'')
               else ebind (normalizeTarget (Prim (PStr (v_action input))) targetValue) (\<lambda>t.
               ebind (normalizeArgumentsDigest (js ''sha256:'' @ sha256Hex canonicalArguments)) (\<lambda>digest.
               let ev = \<lparr>ev_ref = [next_evidence au], ev_kind = ''verified-adapter-evidence'', ev_phase = phase,
                     ev_adapterId = adapterId def, ev_adapterVersion = adapterVersion def,
                     ev_action = target_action t, ev_target = t, ev_argumentsDigest = digest\<rparr>
               in Inr (ev, add_evidence phase ev au)))))))
      | _ \<Rightarrow> Inl (TypeError ''Canonical arguments must be an immutable string''))"

text \<open>The part of the two fingerprints that grants and attempts share.\<close>

definition claim_fields :: "'a CapabilityClaim_scheme \<Rightarrow> jtree list" where
  "claim_fields c =
     [TStr (js (scope_name (scope c))), TStr (js (action_name (action c))),
      TStr (js (action_name (target_action (target c)))), TStr (target_value (target c)),
      TStr (js (severity_name (severity (risk c)))), TStr (fingerprint (risk c)),
      TStr (principalId (binding c)), TStr (accountId (binding c)), TStr (projectId (binding c)),
      TStr (sessionId (binding c)), TStr (policyId (binding c)), TInt (epoch (binding c)),
      TStr (ev_adapterId (evidence c)), TStr (ev_adapterVersion (evidence c)),
      TStr (ev_argumentsDigest (evidence c))]"

definition grant_fields :: "CapabilityGrant \<Rightarrow> jtree" where
  "grant_fields g =
     TArr ([TStr (grant_id g), TStr (approvalId g)] @ claim_fields g @ [TInt (issuedAt g), TInt (expiresAt g)])"

definition attempt_fields :: "CapabilityAttempt \<Rightarrow> jtree" where
  "attempt_fields a = TArr ([TStr (attempt_id a), TStr (grantId a)] @ claim_fields a)"

definition createCapabilityGrant :: "authority \<Rightarrow> heap \<Rightarrow> jsval \<Rightarrow> js_error + (CapabilityGrant \<times> authority)" where
  "createCapabilityGrant au h input =
     ebind (snapshotClaim h input ''Grant'' Grant_Phase (grantEvidence au)) (\<lambda>claim.
     ebind (js_get h input ''issuedAt'') (\<lambda>rawIssued.
     ebind (exactTimestamp rawIssued ''Grant issue time'') (\<lambda>issued.
     ebind (js_get h input ''expiresAt'') (\<lambda>rawExpires.
     ebind (exactTimestamp rawExpires ''Grant expiry'') (\<lambda>expires.
     if expires \<le> issued then Inl (TypeError ''Grant expiry must be later than its issue time'')
     else ebind (js_get h input ''id'') (\<lambda>rawId.
     ebind (exactIdentifier rawId ''Grant id'') (\<lambda>gid.
     ebind (js_get h input ''approvalId'') (\<lambda>rawApproval.
     ebind (exactIdentifier rawApproval ''Approval id'') (\<lambda>approval.
     let g = CapabilityClaim.extend claim
           (CapabilityGrant.fields gid approval issued expires)
     in ebind (bindClaim (grantClaims au) (ev_ref (evidence g)) (json_key (grant_fields g))) (\<lambda>claims.
       Inr (g, au\<lparr>grantClaims := claims\<rparr>)))))))))))"

definition createCapabilityAttempt :: "authority \<Rightarrow> heap \<Rightarrow> jsval \<Rightarrow> js_error + (CapabilityAttempt \<times> authority)" where
  "createCapabilityAttempt au h input =
     ebind (snapshotClaim h input ''Attempt'' Attempt_Phase (attemptEvidence au)) (\<lambda>claim.
     ebind (js_get h input ''id'') (\<lambda>rawId.
     ebind (exactIdentifier rawId ''Attempt id'') (\<lambda>aid.
     ebind (js_get h input ''grantId'') (\<lambda>rawGrant.
     ebind (exactIdentifier rawGrant ''Grant id'') (\<lambda>gid.
     let a = CapabilityClaim.extend claim (CapabilityAttempt.fields aid gid)
     in ebind (bindClaim (attemptClaims au) (ev_ref (evidence a)) (json_key (attempt_fields a))) (\<lambda>claims.
       Inr (a, au\<lparr>attemptClaims := claims\<rparr>)))))))"


section \<open>What the checks accept\<close>

definition exact_id :: "jsstr \<Rightarrow> bool" where
  "exact_id s \<longleftrightarrow> s \<noteq> [] \<and> js_trim s = s \<and> 0 \<notin> set s"

definition timestamp :: "int \<Rightarrow> bool" where
  "timestamp i \<longleftrightarrow> 0 \<le> i \<and> i \<le> MAX_SAFE_INTEGER"

lemma exactIdentifier_Inr_iff [approval]:
  "exactIdentifier v label = Inr s \<longleftrightarrow> v = Prim (PStr s) \<and> exact_id s"
  by (cases "(v, label)" rule: exactIdentifier.cases) (auto simp: exact_id_def)

lemma safe_nonneg_Some_iff [approval]:
  "safe_nonneg v = Some i \<longleftrightarrow> v = Prim (PNum (num_int i)) \<and> timestamp i"
proof
  show "v = Prim (PNum (num_int i)) \<and> timestamp i" if "safe_nonneg v = Some i"
    using that by (auto simp: safe_nonneg_def timestamp_def as_safe_integer_eq_Some safe_int_def
        split: jsval.splits jsprim.splits option.splits if_splits)
  show "safe_nonneg v = Some i" if v: "v = Prim (PNum (num_int i)) \<and> timestamp i"
  proof -
    have "as_safe_integer (num_int i) = Some i"
      using v by (auto simp: as_safe_integer_eq_Some safe_int_def timestamp_def MAX_SAFE_INTEGER_def)
    with v show ?thesis by (simp add: safe_nonneg_def timestamp_def)
  qed
qed

lemma exactTimestamp_Inr_iff [approval]:
  "exactTimestamp v label = Inr i \<longleftrightarrow> v = Prim (PNum (num_int i)) \<and> timestamp i"
  unfolding safe_nonneg_Some_iff [symmetric] by (simp add: exactTimestamp_def split: option.split)

lemma exactEpoch_Inr_iff [approval]:
  "exactEpoch v label = Inr i \<longleftrightarrow> v = Prim (PNum (num_int i)) \<and> timestamp i"
  unfolding safe_nonneg_Some_iff [symmetric] by (simp add: exactEpoch_def split: option.split)

lemma js_includes_Some_iff:
  assumes "inj name"
  shows "js_includes name xs v = Some x \<longleftrightarrow> x \<in> set xs \<and> v = jstr (name x)"
proof
  show "x \<in> set xs \<and> v = jstr (name x)" if "js_includes name xs v = Some x"
    using find_Some_mem [OF that [unfolded js_includes_def]] .
  show "js_includes name xs v = Some x" if "x \<in> set xs \<and> v = jstr (name x)"
    using that assms by (induction xs) (auto simp: js_includes_def inj_def)
qed

lemma inj_names: "inj action_name" "inj scope_name" "inj severity_name"
proof -
  show "inj action_name"
    by (rule injI) (case_tac x; case_tac y; simp)
  show "inj scope_name"
    by (rule injI) (case_tac x; case_tac y; simp)
  show "inj severity_name"
    by (rule injI) (case_tac x; case_tac y; simp)
qed

lemma enumerations_complete [simp]: "a \<in> set CAPABILITY_ACTIONS" "s \<in> set SCOPES" "r \<in> set SEVERITIES"
proof -
  show "a \<in> set CAPABILITY_ACTIONS" by (cases a) (simp_all add: CAPABILITY_ACTIONS_def)
  show "s \<in> set SCOPES" by (cases s) (simp_all add: SCOPES_def)
  show "r \<in> set SEVERITIES" by (cases r) (simp_all add: SEVERITIES_def)
qed

lemma js_includes_enum [approval]:
  "js_includes action_name CAPABILITY_ACTIONS v = Some a \<longleftrightarrow> v = jstr (action_name a)"
  "js_includes scope_name SCOPES v = Some s \<longleftrightarrow> v = jstr (scope_name s)"
  "js_includes severity_name SEVERITIES v = Some r \<longleftrightarrow> v = jstr (severity_name r)"
  by (simp_all add: js_includes_Some_iff inj_names)

lemma js_includes_name [simp]:
  "js_includes action_name CAPABILITY_ACTIONS (jstr (action_name a)) = Some a"
  "js_includes scope_name SCOPES (jstr (scope_name s)) = Some s"
  "js_includes severity_name SEVERITIES (jstr (severity_name r)) = Some r"
  by (simp_all add: js_includes_enum)

lemma name_eq_iff [simp]:
  "action_name a = action_name b \<longleftrightarrow> a = b" "scope_name s = scope_name t \<longleftrightarrow> s = t"
  "severity_name r = severity_name q \<longleftrightarrow> r = q"
  by (auto dest: injD [OF inj_names(1)] injD [OF inj_names(2)] injD [OF inj_names(3)])

lemma normalizeTarget_Inr_iff [approval]:
  "normalizeTarget a v = Inr t \<longleftrightarrow>
     a = jstr (action_name (target_action t)) \<and> v = Prim (PStr (target_value t)) \<and> exact_resource (target_value t)"
proof
  assume "normalizeTarget a v = Inr t"
  then obtain s act where "v = Prim (PStr s)" "exact_resource s"
    "js_includes action_name CAPABILITY_ACTIONS a = Some act" "t = exactTarget act s"
    by (auto simp: normalizeTarget_def split: jsval.splits jsprim.splits if_splits option.splits)
  then show "a = jstr (action_name (target_action t)) \<and> v = Prim (PStr (target_value t)) \<and> exact_resource (target_value t)"
    by (simp add: js_includes_enum exactTarget_def)
next
  assume *: "a = jstr (action_name (target_action t)) \<and> v = Prim (PStr (target_value t)) \<and> exact_resource (target_value t)"
  then have "js_includes action_name CAPABILITY_ACTIONS a = Some (target_action t)" by (simp add: js_includes_enum)
  with * show "normalizeTarget a v = Inr t" by (simp add: normalizeTarget_def exactTarget_def)
qed

lemma sha256_digest: "SHA256_DIGEST (js ''sha256:'' @ sha256Hex m)"
  using sha256Hex_shape [of m] by (simp add: SHA256_DIGEST_def)

lemma normalizeArgumentsDigest_sha256 [simp]:
  "normalizeArgumentsDigest (js ''sha256:'' @ sha256Hex m) = Inr (js ''sha256:'' @ sha256Hex m)"
  by (simp add: normalizeArgumentsDigest_def sha256_digest)


section \<open>Well-formed claims\<close>

definition valid_target :: "CapabilityTarget \<Rightarrow> bool" where
  "valid_target t \<longleftrightarrow> exact_resource (target_value t)"

definition valid_evidence :: "evidence_phase \<Rightarrow> VerifiedAdapterEvidence \<Rightarrow> bool" where
  "valid_evidence ph e \<longleftrightarrow>
     ev_kind e = ''verified-adapter-evidence'' \<and> ev_phase e = ph \<and> exact_id (ev_adapterId e) \<and>
     exact_id (ev_adapterVersion e) \<and> target_action (ev_target e) = ev_action e \<and>
     valid_target (ev_target e) \<and> SHA256_DIGEST (ev_argumentsDigest e)"

definition valid_binding :: "CapabilityBinding \<Rightarrow> bool" where
  "valid_binding b \<longleftrightarrow>
     exact_id (principalId b) \<and> exact_id (accountId b) \<and> exact_id (projectId b) \<and> exact_id (sessionId b) \<and>
     exact_id (policyId b) \<and> timestamp (epoch b)"

definition valid_claim :: "evidence_phase \<Rightarrow> 'a CapabilityClaim_scheme \<Rightarrow> bool" where
  "valid_claim ph c \<longleftrightarrow>
     valid_target (target c) \<and> target_action (target c) = action c \<and> exact_id (fingerprint (risk c)) \<and>
     valid_binding (binding c) \<and> ev_phase (evidence c) = ph \<and>
     ev_kind (evidence c) = ''verified-adapter-evidence'' \<and>
     ev_action (evidence c) = action c \<and> ev_target (evidence c) = target c"

definition valid_grant :: "CapabilityGrant \<Rightarrow> bool" where
  "valid_grant g \<longleftrightarrow>
     valid_claim Grant_Phase g \<and> exact_id (grant_id g) \<and> exact_id (approvalId g) \<and>
     timestamp (issuedAt g) \<and> timestamp (expiresAt g) \<and> issuedAt g < expiresAt g"

definition valid_attempt :: "CapabilityAttempt \<Rightarrow> bool" where
  "valid_attempt a \<longleftrightarrow> valid_claim Attempt_Phase a \<and> exact_id (attempt_id a) \<and> exact_id (grantId a)"

text \<open>The untrusted value spells the claim out: every read finds the field.\<close>

definition claim_reads :: "heap \<Rightarrow> jsval \<Rightarrow> 'a CapabilityClaim_scheme \<Rightarrow> bool" where
  "claim_reads h v c \<longleftrightarrow>
     js_get h v ''scope'' = Inr (jstr (scope_name (scope c))) \<and>
     js_get h v ''action'' = Inr (jstr (action_name (action c))) \<and>
     (\<exists>t. js_get h v ''target'' = Inr t \<and>
        js_get h t ''action'' = Inr (jstr (action_name (target_action (target c)))) \<and>
        js_get h t ''value'' = Inr (Prim (PStr (target_value (target c))))) \<and>
     (\<exists>r. js_get h v ''risk'' = Inr r \<and>
        js_get h r ''severity'' = Inr (jstr (severity_name (severity (risk c)))) \<and>
        js_get h r ''fingerprint'' = Inr (Prim (PStr (fingerprint (risk c))))) \<and>
     (\<exists>b. js_get h v ''binding'' = Inr b \<and>
        js_get h b ''principalId'' = Inr (Prim (PStr (principalId (binding c)))) \<and>
        js_get h b ''accountId'' = Inr (Prim (PStr (accountId (binding c)))) \<and>
        js_get h b ''projectId'' = Inr (Prim (PStr (projectId (binding c)))) \<and>
        js_get h b ''sessionId'' = Inr (Prim (PStr (sessionId (binding c)))) \<and>
        js_get h b ''policyId'' = Inr (Prim (PStr (policyId (binding c)))) \<and>
        js_get h b ''epoch'' = Inr (Prim (PNum (num_int (epoch (binding c)))))) \<and>
     js_get h v ''evidence'' = Inr (Ref (ev_ref (evidence c)))"


lemma read_claim_Inr_iff:
  "read_claim h v label verified = Inr r \<longleftrightarrow>
     js_get h v ''scope'' = Inr (raw_scope r) \<and> js_get h v ''action'' = Inr (raw_action r) \<and>
     (\<exists>t. js_get h v ''target'' = Inr t \<and> js_get h t ''action'' = Inr (raw_target_action r) \<and>
        js_get h t ''value'' = Inr (raw_target_value r)) \<and>
     (\<exists>k. js_get h v ''risk'' = Inr k \<and> js_get h k ''severity'' = Inr (raw_severity r) \<and>
        js_get h k ''fingerprint'' = Inr (raw_fingerprint r)) \<and>
     (\<exists>b. js_get h v ''binding'' = Inr b \<and> js_get h b ''principalId'' = Inr (raw_principalId r) \<and>
        js_get h b ''accountId'' = Inr (raw_accountId r) \<and> js_get h b ''projectId'' = Inr (raw_projectId r) \<and>
        js_get h b ''sessionId'' = Inr (raw_sessionId r) \<and> js_get h b ''policyId'' = Inr (raw_policyId r) \<and>
        js_get h b ''epoch'' = Inr (raw_epoch r)) \<and>
     js_get h v ''evidence'' = Inr (Ref (raw_evidence r)) \<and> verified (raw_evidence r)"
proof -
  have evidence: "(case x of Ref a \<Rightarrow> if verified a then Inr a else Inl e | Prim q \<Rightarrow> Inl e) = Inr a \<longleftrightarrow>
      x = Ref a \<and> verified a" for x a and e :: js_error
    by (auto split: jsval.splits)
  show ?thesis
    unfolding read_claim_def ebind_Inr_iff evidence sum.inject by (cases r) auto
qed

lemma check_risk_Inr_iff:
  "check_risk r label = Inr k \<longleftrightarrow>
     raw_severity r = jstr (severity_name (severity k)) \<and> raw_fingerprint r = Prim (PStr (fingerprint k)) \<and>
     exact_id (fingerprint k)"
  by (cases k) (auto simp: check_risk_def ok_iff approval exact_id_def split: option.splits)

lemma check_binding_Inr_iff:
  "check_binding r label = Inr b \<longleftrightarrow>
     raw_principalId r = Prim (PStr (principalId b)) \<and> raw_accountId r = Prim (PStr (accountId b)) \<and>
     raw_projectId r = Prim (PStr (projectId b)) \<and> raw_sessionId r = Prim (PStr (sessionId b)) \<and>
     raw_policyId r = Prim (PStr (policyId b)) \<and> raw_epoch r = Prim (PNum (num_int (epoch b))) \<and> valid_binding b"
  by (cases b) (auto simp: check_binding_def ok_iff approval valid_binding_def)


lemma snapshotClaim_Inr_iff:
  assumes reg: "\<And>a e. registry a = Some e \<Longrightarrow> ev_ref e = a"
  shows "snapshotClaim h v label ph registry = Inr c \<longleftrightarrow>
    claim_reads h v c \<and> valid_claim ph c \<and> registry (ev_ref (evidence c)) = Some (evidence c)"
proof
  assume "snapshotClaim h v label ph registry = Inr c"
  then obtain r where r: "read_claim h v label (\<lambda>a. registry a \<noteq> None) = Inr r"
    and rest: "(let ev = the (registry (raw_evidence r)) in
      case js_includes action_name CAPABILITY_ACTIONS (raw_action r) of
        None \<Rightarrow> Inl (TypeError (label @ '' action is not a recognized capability action''))
      | Some act \<Rightarrow> claim_of_raw r label ph ev act) = Inr c"
    unfolding snapshotClaim_def ebind_Inr_iff by blast
  obtain e where e: "registry (raw_evidence r) = Some e" using r by (auto simp: read_claim_Inr_iff)
  then have ref: "ev_ref e = raw_evidence r" by (rule reg)
  obtain act where act: "raw_action r = jstr (action_name act)" and c: "claim_of_raw r label ph e act = Inr c"
    using rest by (auto simp: e js_includes_enum split: option.splits)
  obtain sc t where "raw_scope r = jstr (scope_name sc)"
    "raw_target_action r = raw_action r" "normalizeTarget (raw_action r) (raw_target_value r) = Inr t"
    "ev_kind e = ''verified-adapter-evidence''" "ev_phase e = ph" "ev_action e = act"
    "target_action (ev_target e) = target_action t" "target_value (ev_target e) = target_value t"
    "check_risk r label = Inr (risk c)" "check_binding r label = Inr (binding c)"
    "c = \<lparr>scope = sc, action = act, target = t, risk = risk c, binding = binding c, evidence = e\<rparr>"
    using c by (auto simp: claim_of_raw_def ok_iff js_includes_enum split: option.splits)
  with r e ref act show "claim_reads h v c \<and> valid_claim ph c \<and> registry (ev_ref (evidence c)) = Some (evidence c)"
    by (cases c) (auto simp: claim_reads_def valid_claim_def valid_target_def read_claim_Inr_iff normalizeTarget_Inr_iff
        check_risk_Inr_iff check_binding_Inr_iff)
next
  assume *: "claim_reads h v c \<and> valid_claim ph c \<and> registry (ev_ref (evidence c)) = Some (evidence c)"
  let ?b = "binding c"
  let ?r = "\<lparr>raw_scope = jstr (scope_name (scope c)), raw_action = jstr (action_name (action c)),
    raw_evidence = ev_ref (evidence c), raw_target_action = jstr (action_name (action c)),
    raw_target_value = Prim (PStr (target_value (target c))), raw_severity = jstr (severity_name (severity (risk c))),
    raw_fingerprint = Prim (PStr (fingerprint (risk c))), raw_principalId = Prim (PStr (principalId ?b)),
    raw_accountId = Prim (PStr (accountId ?b)), raw_projectId = Prim (PStr (projectId ?b)),
    raw_sessionId = Prim (PStr (sessionId ?b)), raw_policyId = Prim (PStr (policyId ?b)),
    raw_epoch = Prim (PNum (num_int (epoch ?b)))\<rparr>"
  have "read_claim h v label (\<lambda>a. registry a \<noteq> None) = Inr ?r"
    using * by (auto simp: read_claim_Inr_iff claim_reads_def valid_claim_def)
  moreover have "check_risk ?r label = Inr (risk c)" "check_binding ?r label = Inr ?b"
    "normalizeTarget (raw_action ?r) (raw_target_value ?r) = Inr (target c)"
    using * by (simp_all add: check_risk_Inr_iff check_binding_Inr_iff normalizeTarget_Inr_iff valid_claim_def valid_target_def)
  ultimately show "snapshotClaim h v label ph registry = Inr c"
    using * by (simp add: snapshotClaim_def claim_of_raw_def valid_claim_def)
qed



section \<open>The registry's invariant\<close>

definition adapters_inv :: "(jsstr \<rightharpoonup> TrustedAdapterDefinition) \<Rightarrow> bool" where
  "adapters_inv ads \<longleftrightarrow>
     (\<forall>k d. ads k = Some d \<longrightarrow> exact_id (adapterId d) \<and> exact_id (adapterVersion d) \<and>
        k = adapter_key (adapterId d) (adapterVersion d) (js (action_name (adapter_action d))))"

definition registry_inv :: "nat \<Rightarrow> evidence_phase \<Rightarrow> (addr \<rightharpoonup> VerifiedAdapterEvidence) \<Rightarrow> (addr \<rightharpoonup> jsstr) \<Rightarrow> bool" where
  "registry_inv n ph registry claims \<longleftrightarrow>
     (\<forall>a e. registry a = Some e \<longrightarrow> ev_ref e = a \<and> (\<exists>i < n. a = [i]) \<and> valid_evidence ph e) \<and>
     dom claims \<subseteq> dom registry"

definition authority_inv :: "authority \<Rightarrow> bool" where
  "authority_inv au \<longleftrightarrow>
     adapters_inv (adapters au) \<and>
     registry_inv (next_evidence au) Grant_Phase (grantEvidence au) (grantClaims au) \<and>
     registry_inv (next_evidence au) Attempt_Phase (attemptEvidence au) (attemptClaims au)"

lemma registry_invD:
  assumes "registry_inv n ph registry claims" "registry a = Some e"
  shows "ev_ref e = a" "\<exists>i < n. a = [i]" "valid_evidence ph e"
  using assms by (auto simp: registry_inv_def)

lemma registry_inv_fresh: "registry_inv n ph registry claims \<Longrightarrow> registry [n] = None"
  using registry_invD(2) [of n ph registry claims "[n]"] by (cases "registry [n]") auto

lemma registry_inv_mono: "registry_inv n ph registry claims \<Longrightarrow> n \<le> k \<Longrightarrow> registry_inv k ph registry claims"
  unfolding registry_inv_def by (meson order_less_le_trans)

lemma registry_inv_mint:
  "registry_inv n ph registry claims \<Longrightarrow> ev_ref e = [n] \<Longrightarrow> valid_evidence ph e \<Longrightarrow>
   registry_inv (Suc n) ph (registry([n] \<mapsto> e)) claims"
  by (auto simp: registry_inv_def less_Suc_eq dom_def)

lemma registry_inv_claim:
  "registry_inv n ph registry claims \<Longrightarrow> registry a = Some e \<Longrightarrow> registry_inv n ph registry (claims(a \<mapsto> f))"
  by (auto simp: registry_inv_def)

lemma adapter_key_inject [simp]: "adapter_key i v a = adapter_key j w b \<longleftrightarrow> i = j \<and> v = w \<and> a = b"
  by (simp add: adapter_key_def json_key_inject)

lemma register_adapters_inv:
  "register_adapters ads inputs = Inr ads' \<Longrightarrow> adapters_inv ads \<Longrightarrow> adapters_inv ads'"
proof (induction inputs arbitrary: ads)
  case (Cons input inputs)
  obtain i v act f where r: "exact_id i" "exact_id v"
    "register_adapters (ads(adapter_key i v (js (action_name act)) \<mapsto>
       \<lparr>adapterId = i, adapterVersion = v, adapter_action = act, validateTarget = f\<rparr>)) inputs = Inr ads'"
    using Cons.prems(1)
    by (cases "js_includes action_name CAPABILITY_ACTIONS (in_action input)"; cases "in_validateTarget input")
      (auto simp: ok_iff exactIdentifier_Inr_iff Let_def split: if_splits)
  show ?case by (rule Cons.IH [OF r(3)]) (use Cons.prems(2) r(1,2) in \<open>auto simp: adapters_inv_def\<close>)
qed simp

lemma createTrustedAdapterAuthority_inv:
  "createTrustedAdapterAuthority defs = Inr au \<Longrightarrow> authority_inv au"
  using register_adapters_inv [of Map.empty defs]
  by (auto simp: createTrustedAdapterAuthority_def ebind_Inr_iff authority_inv_def registry_inv_def)
    (auto simp: adapters_inv_def)

lemma bindClaim_Inr_iff:
  "bindClaim claims a f = Inr claims' \<longleftrightarrow> (claims a = None \<or> claims a = Some f) \<and> claims' = claims(a \<mapsto> f)"
  by (auto simp: bindClaim_def split: option.splits)

text \<open>The minted evidence, and what it records.\<close>

definition minted :: "authority \<Rightarrow> evidence_phase \<Rightarrow> heap \<Rightarrow> AdapterVerificationInput \<Rightarrow> VerifiedAdapterEvidence \<Rightarrow> bool" where
  "minted au ph h input e \<longleftrightarrow>
     (\<exists>def args h' t. v_canonicalArguments input = Prim (PStr args) \<and>
        adapters au (adapter_key (v_adapterId input) (v_adapterVersion input) (v_action input)) = Some def \<and>
        validateTarget def h (v_candidateTarget input) = Inr (h', t) \<and>
        js_get h' t ''action'' = Inr (Prim (PStr (v_action input))) \<and>
        js_get h' t ''value'' = Inr (Prim (PStr (target_value (ev_target e)))) \<and>
        exact_resource (target_value (ev_target e)) \<and>
        ev_ref e = [next_evidence au] \<and> ev_kind e = ''verified-adapter-evidence'' \<and> ev_phase e = ph \<and>
        ev_adapterId e = adapterId def \<and> ev_adapterVersion e = adapterVersion def \<and>
        v_action input = js (action_name (ev_action e)) \<and> target_action (ev_target e) = ev_action e \<and>
        ev_argumentsDigest e = js ''sha256:'' @ sha256Hex args)"

lemma mintEvidence_Inr:
  assumes "mintEvidence au ph h input = Inr (e, au')"
  shows "minted au ph h input e \<and> au' = add_evidence ph e au"
proof -
  obtain args where args: "v_canonicalArguments input = Prim (PStr args)"
    using assms by (auto simp: mintEvidence_def split: jsval.splits jsprim.splits)
  obtain d where d: "adapters au (adapter_key (v_adapterId input) (v_adapterVersion input) (v_action input)) = Some d"
    using assms args by (auto simp: mintEvidence_def split: option.splits)
  obtain h' v t where t: "validateTarget d h (v_candidateTarget input) = Inr (h', v)"
    "js_get h' v ''action'' = Inr (Prim (PStr (v_action input)))"
    "js_get h' v ''value'' = Inr (Prim (PStr (target_value t)))"
    "v_action input = js (action_name (target_action t))" "exact_resource (target_value t)"
    and e: "e = \<lparr>ev_ref = [next_evidence au], ev_kind = ''verified-adapter-evidence'', ev_phase = ph,
      ev_adapterId = adapterId d, ev_adapterVersion = adapterVersion d, ev_action = target_action t,
      ev_target = t, ev_argumentsDigest = js ''sha256:'' @ sha256Hex args\<rparr>"
    and au': "au' = add_evidence ph e au"
    using assms args d
    by (auto simp: mintEvidence_def ok_iff normalizeTarget_Inr_iff Let_def)
  show ?thesis unfolding minted_def using args d t e au' by auto
qed

lemma minted_valid:
  "authority_inv au \<Longrightarrow> minted au ph h input e \<Longrightarrow> valid_evidence ph e"
  by (auto simp: minted_def valid_evidence_def authority_inv_def adapters_inv_def valid_target_def sha256_digest)

lemma mintEvidence_inv:
  assumes "authority_inv au" "mintEvidence au ph h input = Inr (e, au')"
  shows "authority_inv au'"
proof -
  have m: "minted au ph h input e" "au' = add_evidence ph e au"
    using mintEvidence_Inr [OF assms(2)] by auto
  then have "ev_ref e = [next_evidence au]" "valid_evidence ph e"
    using minted_valid [OF assms(1)] by (auto simp: minted_def)
  with assms(1) m(2) show ?thesis
    by (cases ph) (auto simp: authority_inv_def add_evidence_def intro: registry_inv_mint registry_inv_mono)
qed



section \<open>The verifiers\<close>

definition grant_reads :: "heap \<Rightarrow> jsval \<Rightarrow> CapabilityGrant \<Rightarrow> bool" where
  "grant_reads h v g \<longleftrightarrow>
     claim_reads h v g \<and> js_get h v ''id'' = Inr (Prim (PStr (grant_id g))) \<and>
     js_get h v ''approvalId'' = Inr (Prim (PStr (approvalId g))) \<and>
     js_get h v ''issuedAt'' = Inr (Prim (PNum (num_int (issuedAt g)))) \<and>
     js_get h v ''expiresAt'' = Inr (Prim (PNum (num_int (expiresAt g))))"

definition attempt_reads :: "heap \<Rightarrow> jsval \<Rightarrow> CapabilityAttempt \<Rightarrow> bool" where
  "attempt_reads h v a \<longleftrightarrow>
     claim_reads h v a \<and> js_get h v ''id'' = Inr (Prim (PStr (attempt_id a))) \<and>
     js_get h v ''grantId'' = Inr (Prim (PStr (grantId a)))"

lemmas claim_record_defs = CapabilityClaim.defs CapabilityGrant.defs CapabilityAttempt.defs

lemma claim_scheme_eqs [simp]:
  "claim_reads h v (CapabilityClaim.truncate c) = claim_reads h v c"
  "valid_claim ph (CapabilityClaim.truncate c) = valid_claim ph c"
  "evidence (CapabilityClaim.truncate c) = evidence c"
  by (simp_all add: claim_reads_def valid_claim_def claim_record_defs)

lemma grant_split:
  "g = CapabilityClaim.extend (CapabilityClaim.truncate g)
     (CapabilityGrant.fields (grant_id g) (approvalId g) (issuedAt g) (expiresAt g))" for g :: CapabilityGrant
  by (cases g) (simp add: claim_record_defs)

lemma attempt_split:
  "a = CapabilityClaim.extend (CapabilityClaim.truncate a) (CapabilityAttempt.fields (attempt_id a) (grantId a))"
  for a :: CapabilityAttempt
  by (cases a) (simp add: claim_record_defs)

lemma extend_inject:
  "CapabilityClaim.extend c (CapabilityGrant.fields i p s e) = g \<longleftrightarrow>
     c = CapabilityClaim.truncate g \<and> i = grant_id g \<and> p = approvalId g \<and> s = issuedAt g \<and> e = expiresAt g"
  "CapabilityClaim.extend c (CapabilityAttempt.fields i p) = a \<longleftrightarrow>
     c = CapabilityClaim.truncate a \<and> i = attempt_id a \<and> p = grantId a"
  for g :: CapabilityGrant and a :: CapabilityAttempt
  by (cases g; cases c; auto simp: claim_record_defs) (cases a; cases c; auto simp: claim_record_defs)

lemma createCapabilityGrant_Inr_iff:
  assumes "authority_inv au"
  shows "createCapabilityGrant au h v = Inr (g, au') \<longleftrightarrow>
    grant_reads h v g \<and> valid_grant g \<and> grantEvidence au (ev_ref (evidence g)) = Some (evidence g) \<and>
    grantClaims au (ev_ref (evidence g)) \<in> {None, Some (json_key (grant_fields g))} \<and>
    au' = au\<lparr>grantClaims := (grantClaims au)(ev_ref (evidence g) \<mapsto> json_key (grant_fields g))\<rparr>"
proof -
  have snapshot: "snapshotClaim h v l ph (grantEvidence au) = Inr c \<longleftrightarrow>
      claim_reads h v c \<and> valid_claim ph c \<and> grantEvidence au (ev_ref (evidence c)) = Some (evidence c)" for l ph c
    by (rule snapshotClaim_Inr_iff) (use assms in \<open>auto simp: authority_inv_def registry_inv_def\<close>)
  show ?thesis
    unfolding createCapabilityGrant_def Let_def ok_iff approval snapshot
      bindClaim_Inr_iff sum.inject prod.inject extend_inject
    by (auto simp: grant_reads_def valid_grant_def simp flip: grant_split)
qed

lemma createCapabilityAttempt_Inr_iff:
  assumes "authority_inv au"
  shows "createCapabilityAttempt au h v = Inr (a, au') \<longleftrightarrow>
    attempt_reads h v a \<and> valid_attempt a \<and> attemptEvidence au (ev_ref (evidence a)) = Some (evidence a) \<and>
    attemptClaims au (ev_ref (evidence a)) \<in> {None, Some (json_key (attempt_fields a))} \<and>
    au' = au\<lparr>attemptClaims := (attemptClaims au)(ev_ref (evidence a) \<mapsto> json_key (attempt_fields a))\<rparr>"
proof -
  have snapshot: "snapshotClaim h v l ph (attemptEvidence au) = Inr c \<longleftrightarrow>
      claim_reads h v c \<and> valid_claim ph c \<and> attemptEvidence au (ev_ref (evidence c)) = Some (evidence c)" for l ph c
    by (rule snapshotClaim_Inr_iff) (use assms in \<open>auto simp: authority_inv_def registry_inv_def\<close>)
  show ?thesis
    unfolding createCapabilityAttempt_def Let_def ok_iff approval snapshot
      bindClaim_Inr_iff sum.inject prod.inject extend_inject
    by (auto simp: attempt_reads_def valid_attempt_def simp flip: attempt_split)
qed



lemma createCapabilityGrant_InrD:
  assumes "authority_inv au" "createCapabilityGrant au h v = Inr (g, au')"
  shows "valid_grant g" "grantEvidence au (ev_ref (evidence g)) = Some (evidence g)"
    "grantClaims au (ev_ref (evidence g)) \<in> {None, Some (json_key (grant_fields g))}"
    "grantClaims au' (ev_ref (evidence g)) = Some (json_key (grant_fields g))"
    "grantEvidence au' = grantEvidence au" "attemptEvidence au' = attemptEvidence au"
  using assms(2) unfolding createCapabilityGrant_Inr_iff [OF assms(1)] by simp_all

lemma createCapabilityAttempt_InrD:
  assumes "authority_inv au" "createCapabilityAttempt au h v = Inr (a, au')"
  shows "valid_attempt a" "attemptEvidence au (ev_ref (evidence a)) = Some (evidence a)"
    "attemptClaims au (ev_ref (evidence a)) \<in> {None, Some (json_key (attempt_fields a))}"
    "attemptClaims au' (ev_ref (evidence a)) = Some (json_key (attempt_fields a))"
    "grantEvidence au' = grantEvidence au" "attemptEvidence au' = attemptEvidence au"
  using assms(2) unfolding createCapabilityAttempt_Inr_iff [OF assms(1)] by simp_all


section \<open>Runs of a registry\<close>

text \<open>The calls that the closures of one registry allow, in any order; one that throws changes nothing.\<close>

datatype authority_event =
  Mint evidence_phase heap AdapterVerificationInput
| Verify_Grant heap jsval
| Verify_Attempt heap jsval

definition kept :: "authority \<Rightarrow> js_error + ('a \<times> authority) \<Rightarrow> authority" where
  "kept au r = (case r of Inl _ \<Rightarrow> au | Inr (_, au') \<Rightarrow> au')"

lemma kept_simps [simp]: "kept au (Inl e) = au" "kept au (Inr (x, au')) = au'"
  by (simp_all add: kept_def)

fun authority_step :: "authority \<Rightarrow> authority_event \<Rightarrow> authority" where
  "authority_step au (Mint ph h input) = kept au (mintEvidence au ph h input)"
| "authority_step au (Verify_Grant h v) = kept au (createCapabilityGrant au h v)"
| "authority_step au (Verify_Attempt h v) = kept au (createCapabilityAttempt au h v)"

definition empty_authority :: authority where
  "empty_authority =
     \<lparr>adapters = Map.empty, grantEvidence = Map.empty, attemptEvidence = Map.empty,
      grantClaims = Map.empty, attemptClaims = Map.empty, next_evidence = 0\<rparr>"

definition new_authority :: "adapter_input list \<Rightarrow> authority" where
  "new_authority defs = (case createTrustedAdapterAuthority defs of Inr au \<Rightarrow> au | Inl _ \<Rightarrow> empty_authority)"

definition authority_later :: "authority \<Rightarrow> authority \<Rightarrow> bool" where
  "authority_later au au' \<longleftrightarrow>
     adapters au' = adapters au \<and> grantEvidence au \<subseteq>\<^sub>m grantEvidence au' \<and> attemptEvidence au \<subseteq>\<^sub>m attemptEvidence au' \<and>
     grantClaims au \<subseteq>\<^sub>m grantClaims au' \<and> attemptClaims au \<subseteq>\<^sub>m attemptClaims au'"

lemma map_le_lookup: "m \<subseteq>\<^sub>m n \<Longrightarrow> m k = Some x \<Longrightarrow> n k = Some x"
  by (force simp: map_le_def dom_def)

lemma authority_laterD:
  assumes "authority_later au au'"
  shows "grantEvidence au k = Some e \<Longrightarrow> grantEvidence au' k = Some e"
    "attemptEvidence au k = Some e \<Longrightarrow> attemptEvidence au' k = Some e"
    "grantClaims au k = Some f \<Longrightarrow> grantClaims au' k = Some f"
    "attemptClaims au k = Some f \<Longrightarrow> attemptClaims au' k = Some f"
  using assms unfolding authority_later_def by (blast intro: map_le_lookup)+

lemma authority_later_refl [simp]: "authority_later au au"
  by (simp add: authority_later_def)

lemma authority_later_trans: "authority_later au au' \<Longrightarrow> authority_later au' au'' \<Longrightarrow> authority_later au au''"
  by (auto simp: authority_later_def intro: map_le_trans)

lemma new_authority_inv: "authority_inv (new_authority defs)"
  using createTrustedAdapterAuthority_inv [of defs]
  by (auto simp: new_authority_def empty_authority_def authority_inv_def adapters_inv_def registry_inv_def split: sum.split)

lemma map_le_fresh: "m k \<in> {None, Some x} \<Longrightarrow> m \<subseteq>\<^sub>m m(k \<mapsto> x)"
  by (auto simp: map_le_def)

lemma createCapabilityGrant_inv:
  assumes "authority_inv au" "createCapabilityGrant au h v = Inr (g, au')"
  shows "authority_inv au' \<and> authority_later au au'"
  using assms(1) assms(2) [unfolded createCapabilityGrant_Inr_iff [OF assms(1)]]
  by (auto simp: authority_inv_def authority_later_def map_le_fresh intro: registry_inv_claim)

lemma createCapabilityAttempt_inv:
  assumes "authority_inv au" "createCapabilityAttempt au h v = Inr (a, au')"
  shows "authority_inv au' \<and> authority_later au au'"
  using assms(1) assms(2) [unfolded createCapabilityAttempt_Inr_iff [OF assms(1)]]
  by (auto simp: authority_inv_def authority_later_def map_le_fresh intro: registry_inv_claim)

lemma mintEvidence_later:
  assumes inv: "authority_inv au" and m: "mintEvidence au ph h input = Inr (e, au')"
  shows "authority_later au au'"
proof -
  have "grantEvidence au [next_evidence au] = None" "attemptEvidence au [next_evidence au] = None"
    using inv by (auto simp: authority_inv_def intro: registry_inv_fresh)
  moreover have "au' = add_evidence ph e au" "ev_ref e = [next_evidence au]"
    using mintEvidence_Inr [OF m] by (auto simp: minted_def)
  ultimately show ?thesis by (cases ph) (auto simp: authority_later_def add_evidence_def map_le_fresh)
qed

lemma kept_cases:
  assumes "\<And>x au'. r = Inr (x, au') \<Longrightarrow> P au'" "P au"
  shows "P (kept au r)"
  using assms by (cases r) (auto simp: kept_def split: prod.split)

lemma authority_step_ok:
  assumes "authority_inv au"
  shows "authority_inv (authority_step au ev) \<and> authority_later au (authority_step au ev)"
proof (cases ev)
  case (Mint ph h input)
  show ?thesis unfolding Mint authority_step.simps
    by (rule kept_cases) (use assms mintEvidence_inv mintEvidence_later in \<open>blast, simp\<close>)
next
  case (Verify_Grant h v)
  show ?thesis unfolding Verify_Grant authority_step.simps
    by (rule kept_cases) (use assms createCapabilityGrant_inv in \<open>blast, simp\<close>)
next
  case (Verify_Attempt h v)
  show ?thesis unfolding Verify_Attempt authority_step.simps
    by (rule kept_cases) (use assms createCapabilityAttempt_inv in \<open>blast, simp\<close>)
qed

interpretation registry: monotone_system "new_authority defs" authority_step authority_inv authority_later for defs
  by unfold_locales (auto simp: new_authority_inv authority_step_ok intro: authority_later_trans)



section \<open>Evidence through a run\<close>

lemma claim_fields_printable: "valid_claim ph c \<Longrightarrow> list_all printable (claim_fields c)"
  by (auto simp: claim_fields_def valid_claim_def valid_binding_def timestamp_def number_text_def as_safe_integer_def
      safe_int_def MAX_SAFE_INTEGER_def)

lemma timestamp_printable: "timestamp i \<Longrightarrow> printable (TInt i)"
  by (auto simp: timestamp_def number_text_def as_safe_integer_def safe_int_def MAX_SAFE_INTEGER_def)

lemma claim_fields_inject:
  assumes "claim_fields c = claim_fields d" "evidence c = evidence d"
  shows "CapabilityClaim.truncate c = CapabilityClaim.truncate d"
proof -
  have "target c = target d" "risk c = risk d" "binding c = binding d"
    using assms(1) by (auto simp: claim_fields_def intro: CapabilityTarget.equality CapabilityRisk.equality CapabilityBinding.equality)
  with assms show ?thesis by (simp add: claim_fields_def claim_record_defs)
qed

lemma grant_key_inject:
  assumes "valid_grant g" "valid_grant g'" "evidence g = evidence g'"
    and "json_key (grant_fields g) = json_key (grant_fields g')"
  shows "g = g'"
proof -
  have "printable (grant_fields k)" if "valid_grant k" for k
    using that claim_fields_printable [of Grant_Phase k] timestamp_printable
    by (simp add: grant_fields_def valid_grant_def del: printable.simps(1)) (simp add: valid_grant_def)
  then have "grant_fields g = grant_fields g'" using assms json_key_inject by blast
  moreover have "length (claim_fields g) = length (claim_fields g')" by (simp add: claim_fields_def)
  ultimately have "claim_fields g = claim_fields g'" "grant_id g = grant_id g'" "approvalId g = approvalId g'"
    "issuedAt g = issuedAt g'" "expiresAt g = expiresAt g'" by (auto simp: grant_fields_def)
  then show ?thesis using grant_split [of g] grant_split [of g'] claim_fields_inject [OF _ assms(3)] by simp
qed

lemma attempt_key_inject:
  assumes "valid_attempt a" "valid_attempt a'" "evidence a = evidence a'"
    and "json_key (attempt_fields a) = json_key (attempt_fields a')"
  shows "a = a'"
proof -
  have "printable (attempt_fields k)" if "valid_attempt k" for k
    using that claim_fields_printable [of Attempt_Phase k]
    by (simp add: attempt_fields_def valid_attempt_def)
  then have "attempt_fields a = attempt_fields a'" using assms json_key_inject by blast
  then have "claim_fields a = claim_fields a'" "attempt_id a = attempt_id a'" "grantId a = grantId a'"
    by (auto simp: attempt_fields_def)
  then show ?thesis using attempt_split [of a] attempt_split [of a'] claim_fields_inject [OF _ assms(3)] by simp
qed

lemma same_evidence_same_grant:
  assumes inv: "authority_inv au" and g: "createCapabilityGrant au h v = Inr (g, au1)"
    and later: "authority_later au1 au2" "authority_inv au2"
    and g': "createCapabilityGrant au2 h' v' = Inr (g', au3)"
    and ref: "ev_ref (evidence g) = ev_ref (evidence g')"
  shows "g = g'"
proof -
  note G = createCapabilityGrant_InrD [OF inv g] and G' = createCapabilityGrant_InrD [OF later(2) g']
  have "grantClaims au2 (ev_ref (evidence g)) = Some (json_key (grant_fields g))"
    by (rule authority_laterD(3) [OF later(1) G(4)])
  then have "json_key (grant_fields g) = json_key (grant_fields g')" using G'(3) ref by simp
  moreover have "grantEvidence au2 (ev_ref (evidence g)) = Some (evidence g)"
    by (rule authority_laterD(1) [OF later(1)]) (simp add: G(2) G(5))
  then have "evidence g = evidence g'" using G'(2) unfolding ref by (simp only: option.inject)
  ultimately show ?thesis by (intro grant_key_inject [OF G(1) G'(1)])
qed

lemma same_evidence_same_attempt:
  assumes inv: "authority_inv au" and a: "createCapabilityAttempt au h v = Inr (a, au1)"
    and later: "authority_later au1 au2" "authority_inv au2"
    and a': "createCapabilityAttempt au2 h' v' = Inr (a', au3)"
    and ref: "ev_ref (evidence a) = ev_ref (evidence a')"
  shows "a = a'"
proof -
  note A = createCapabilityAttempt_InrD [OF inv a] and A' = createCapabilityAttempt_InrD [OF later(2) a']
  have "attemptClaims au2 (ev_ref (evidence a)) = Some (json_key (attempt_fields a))"
    by (rule authority_laterD(4) [OF later(1) A(4)])
  then have "json_key (attempt_fields a) = json_key (attempt_fields a')" using A'(3) ref by simp
  moreover have "attemptEvidence au2 (ev_ref (evidence a)) = Some (evidence a)"
    by (rule authority_laterD(2) [OF later(1)]) (simp add: A(2) A(6))
  then have "evidence a = evidence a'" using A'(2) unfolding ref by (simp only: option.inject)
  ultimately show ?thesis by (intro attempt_key_inject [OF A(1) A'(1)])
qed

text \<open>Every registered piece of evidence was minted by this registry, at some earlier point of the run.\<close>

definition provenance :: "authority \<Rightarrow> VerifiedAdapterEvidence \<Rightarrow> bool" where
  "provenance au e \<longleftrightarrow>
     (\<exists>d h v h' t args. adapters au (adapter_key (ev_adapterId e) (ev_adapterVersion e) (js (action_name (ev_action e)))) = Some d \<and>
        adapter_action d = ev_action e \<and> validateTarget d h v = Inr (h', t) \<and>
        js_get h' t ''value'' = Inr (Prim (PStr (target_value (ev_target e)))) \<and>
        ev_argumentsDigest e = js ''sha256:'' @ sha256Hex args)"

lemma minted_provenance:
  assumes "authority_inv au" "minted au ph h input e"
  shows "provenance au e"
proof -
  obtain d args h' t where d: "adapters au (adapter_key (v_adapterId input) (v_adapterVersion input) (v_action input)) = Some d"
    and rest: "validateTarget d h (v_candidateTarget input) = Inr (h', t)"
      "js_get h' t ''value'' = Inr (Prim (PStr (target_value (ev_target e))))"
      "ev_adapterId e = adapterId d" "ev_adapterVersion e = adapterVersion d"
      "v_action input = js (action_name (ev_action e))" "ev_argumentsDigest e = js ''sha256:'' @ sha256Hex args"
    using assms(2) by (auto simp: minted_def)
  have "adapter_key (v_adapterId input) (v_adapterVersion input) (v_action input) =
      adapter_key (adapterId d) (adapterVersion d) (js (action_name (adapter_action d)))"
    using assms(1) d unfolding authority_inv_def adapters_inv_def by blast
  then have "v_adapterId input = adapterId d" "v_adapterVersion input = adapterVersion d"
    "v_action input = js (action_name (adapter_action d))" by simp_all
  with d rest show ?thesis unfolding provenance_def by (auto, blast)
qed

lemma reachable_provenance:
  assumes "reachable (new_authority defs) authority_step au"
  shows "grantEvidence au a = Some e \<or> attemptEvidence au a = Some e \<Longrightarrow> provenance au e"
  using assms
proof (induction arbitrary: a e rule: reachable.induct)
  case reachable_init
  then show ?case
    by (auto simp: new_authority_def empty_authority_def createTrustedAdapterAuthority_def ebind_def split: sum.splits)
next
  case (reachable_step au ev)
  have inv: "authority_inv au" using registry.reachable_inv [OF reachable_step.hyps] .
  have keep: "provenance (authority_step au ev) e \<longleftrightarrow> provenance au e" for e
    using authority_step_ok [OF inv] by (simp add: provenance_def authority_later_def)
  show ?case
  proof (cases "grantEvidence au a = Some e \<or> attemptEvidence au a = Some e")
    case True
    then show ?thesis using reachable_step.IH keep by blast
  next
    case False
    then obtain ph h input where ev: "ev = Mint ph h input"
      using reachable_step.prems createCapabilityGrant_Inr_iff [OF inv] createCapabilityAttempt_Inr_iff [OF inv]
      by (cases ev) (auto simp: kept_def split: sum.splits)
    then obtain e' au' where m: "mintEvidence au ph h input = Inr (e', au')" "authority_step au ev = au'"
      using reachable_step.prems False by (auto simp: kept_def split: sum.splits)
    with mintEvidence_Inr [OF m(1)] reachable_step.prems False have "e = e'" "minted au ph h input e'"
      by (auto simp: add_evidence_def split: evidence_phase.splits if_splits)
    then show ?thesis using minted_provenance [OF inv] keep by blast
  qed
qed



section \<open>Demonstration\<close>

text \<open>A registry with one adapter, one piece of evidence per phase, and a grant and an attempt that use them.\<close>

definition plain_obj :: "(string \<times> jsval) list \<Rightarrow> jsobj" where
  "plain_obj fs = \<lparr>obj_array = False, obj_proto = ProtoObject, obj_props = map (\<lambda>(k, v). (KStr (js k), DataDesc v True)) fs\<rparr>"

lemma js_get_plain:
  assumes "h a = plain_obj fs"
  shows "js_get h (Ref a) k = Inr (case map_of fs k of Some v \<Rightarrow> v | None \<Rightarrow> Prim PUndef)"
proof -
  have "map_of (map (\<lambda>(k, v). (KStr (js k), DataDesc v True)) fs) (KStr (js k)) = map_option (\<lambda>v. DataDesc v True) (map_of fs k)"
    by (induction fs) auto
  then show ?thesis using assms by (auto simp: js_get_def plain_obj_def split: option.split)
qed

definition demo_validate :: target_validator where
  "demo_validate h v =
     Inr (\<lambda>_. plain_obj [(''action'', jstr ''shell''), (''value'', jstr ''ls'')], Ref [])"

definition demo_defs :: "adapter_input list" where
  "demo_defs =
     [\<lparr>in_adapterId = jstr ''term'', in_adapterVersion = jstr ''1'', in_action = jstr ''shell'',
       in_validateTarget = Some demo_validate\<rparr>]"

definition demo_input :: AdapterVerificationInput where
  "demo_input =
     \<lparr>v_adapterId = js ''term'', v_adapterVersion = js ''1'', v_action = js ''shell'',
      v_candidateTarget = jstr ''ls'', v_canonicalArguments = jstr ''[]''\<rparr>"

definition demo_binding :: CapabilityBinding where
  "demo_binding =
     \<lparr>principalId = js ''u'', accountId = js ''a'', projectId = js ''p'', sessionId = js ''s'', policyId = js ''y'', epoch = 0\<rparr>"

definition demo_evidence :: "evidence_phase \<Rightarrow> nat \<Rightarrow> VerifiedAdapterEvidence" where
  "demo_evidence ph n =
     \<lparr>ev_ref = [n], ev_kind = ''verified-adapter-evidence'', ev_phase = ph, ev_adapterId = js ''term'',
      ev_adapterVersion = js ''1'', ev_action = A_shell, ev_target = exactTarget A_shell (js ''ls''),
      ev_argumentsDigest = js ''sha256:'' @ sha256Hex (js ''[]'')\<rparr>"

definition demo_claim :: "evidence_phase \<Rightarrow> nat \<Rightarrow> CapabilityClaim" where
  "demo_claim ph n =
     \<lparr>scope = S_once, action = A_shell, target = exactTarget A_shell (js ''ls''),
      risk = \<lparr>severity = R_low, fingerprint = js ''f''\<rparr>, binding = demo_binding, evidence = demo_evidence ph n\<rparr>"

definition demo_grant :: CapabilityGrant where
  "demo_grant = CapabilityClaim.extend (demo_claim Grant_Phase 0) (CapabilityGrant.fields (js ''g'') (js ''ok'') 10 20)"

definition demo_attempt :: CapabilityAttempt where
  "demo_attempt = CapabilityClaim.extend (demo_claim Attempt_Phase 1) (CapabilityAttempt.fields (js ''t'') (js ''g''))"

definition demo_claim_props :: "nat \<Rightarrow> (string \<times> jsval) list" where
  "demo_claim_props n =
     [(''scope'', jstr ''once''), (''action'', jstr ''shell''), (''target'', Ref [11]), (''risk'', Ref [12]),
      (''binding'', Ref [13]), (''evidence'', Ref [n])]"

definition demo_heap :: heap where
  "demo_heap = (\<lambda>_. plain_obj [])
     ([9] := plain_obj ([(''id'', jstr ''g''), (''approvalId'', jstr ''ok''), (''issuedAt'', Prim (PNum (num_int 10))),
        (''expiresAt'', Prim (PNum (num_int 20)))] @ demo_claim_props 0),
      [10] := plain_obj ([(''id'', jstr ''t''), (''grantId'', jstr ''g'')] @ demo_claim_props 1),
      [11] := plain_obj [(''action'', jstr ''shell''), (''value'', jstr ''ls'')],
      [12] := plain_obj [(''severity'', jstr ''low''), (''fingerprint'', jstr ''f'')],
      [13] := plain_obj [(''principalId'', jstr ''u''), (''accountId'', jstr ''a''), (''projectId'', jstr ''p''),
        (''sessionId'', jstr ''s''), (''policyId'', jstr ''y''), (''epoch'', Prim (PNum (num_int 0)))],
      [14] := plain_obj [(''type'', jstr ''issue''), (''grant'', Ref [9])],
      [15] := plain_obj [(''type'', jstr ''authorize''), (''attempt'', Ref [10])])"

definition demo_authority :: authority where
  "demo_authority =
     foldl authority_step (new_authority demo_defs)
       [Mint Grant_Phase demo_heap demo_input, Mint Attempt_Phase demo_heap demo_input]"

lemma demo_ids [simp]:
  "exact_id (js ''term'')" "exact_id (js ''1'')" "exact_id (js ''u'')" "exact_id (js ''a'')" "exact_id (js ''p'')"
  "exact_id (js ''s'')" "exact_id (js ''y'')" "exact_id (js ''f'')" "exact_id (js ''g'')" "exact_id (js ''ok'')"
  "exact_id (js ''t'')" "exact_resource (js ''ls'')"
  by code_simp+

lemma demo_adapters:
  "new_authority demo_defs =
     empty_authority\<lparr>adapters := [adapter_key (js ''term'') (js ''1'') (js ''shell'') \<mapsto>
       \<lparr>adapterId = js ''term'', adapterVersion = js ''1'', adapter_action = A_shell, validateTarget = demo_validate\<rparr>]\<rparr>"
proof -
  have "exactIdentifier (jstr ''term'') l = Inr (js ''term'')" "exactIdentifier (jstr ''1'') l = Inr (js ''1'')" for l
    by (simp_all add: exactIdentifier_Inr_iff del: exactIdentifier.simps)
  moreover have "js_includes action_name CAPABILITY_ACTIONS (jstr ''shell'') = Some A_shell"
    by (simp add: js_includes_enum)
  ultimately show ?thesis
    by (simp add: new_authority_def createTrustedAdapterAuthority_def demo_defs_def empty_authority_def)
qed

lemma demo_mint:
  assumes "adapters au = adapters (new_authority demo_defs)"
  shows "mintEvidence au ph demo_heap demo_input =
    Inr (demo_evidence ph (next_evidence au), add_evidence ph (demo_evidence ph (next_evidence au)) au)"
proof -
  have "normalizeTarget (jstr ''shell'') (jstr ''ls'') = Inr (exactTarget A_shell (js ''ls''))"
    by (simp add: normalizeTarget_Inr_iff exactTarget_def)
  with assms show ?thesis
    by (simp add: mintEvidence_def demo_input_def demo_adapters demo_validate_def js_get_plain [where fs = "[(''action'', jstr ''shell''), (''value'', jstr ''ls'')]"]
        demo_evidence_def exactTarget_def Let_def)
qed

lemma demo_authority_eq:
  "demo_authority = (new_authority demo_defs)\<lparr>grantEvidence := [[0] \<mapsto> demo_evidence Grant_Phase 0],
     attemptEvidence := [[1] \<mapsto> demo_evidence Attempt_Phase 1], next_evidence := 2\<rparr>"
  by (simp add: demo_authority_def demo_mint add_evidence_def demo_adapters empty_authority_def demo_evidence_def)

lemma demo_reachable: "reachable (new_authority demo_defs) authority_step demo_authority"
  unfolding demo_authority_def by (rule reachable_foldl)

lemma demo_inv [simp]: "authority_inv demo_authority"
  by (rule registry.reachable_inv [OF demo_reachable])

lemma demo_claim_valid: "valid_claim ph (demo_claim ph n)"
  by (simp add: valid_claim_def demo_claim_def demo_evidence_def valid_target_def exactTarget_def valid_binding_def
      demo_binding_def timestamp_def MAX_SAFE_INTEGER_def)

lemma demo_valid: "valid_grant demo_grant" "valid_attempt demo_attempt"
proof -
  have "valid_claim Grant_Phase demo_grant" "valid_claim Attempt_Phase demo_attempt"
    using demo_claim_valid [of Grant_Phase 0] demo_claim_valid [of Attempt_Phase 1]
    by (simp_all add: demo_grant_def demo_attempt_def valid_claim_def claim_record_defs)
  then show "valid_grant demo_grant" "valid_attempt demo_attempt"
    by (simp_all add: valid_grant_def valid_attempt_def demo_grant_def demo_attempt_def claim_record_defs timestamp_def MAX_SAFE_INTEGER_def)
qed

lemma demo_lookups:
  "js_get demo_heap (Ref [9]) k = Inr (case map_of ([(''id'', jstr ''g''), (''approvalId'', jstr ''ok''), (''issuedAt'', Prim (PNum (num_int 10))),
        (''expiresAt'', Prim (PNum (num_int 20)))] @ demo_claim_props 0) k of Some v \<Rightarrow> v | None \<Rightarrow> Prim PUndef)"
  "js_get demo_heap (Ref [10]) k = Inr (case map_of ([(''id'', jstr ''t''), (''grantId'', jstr ''g'')] @ demo_claim_props 1) k of Some v \<Rightarrow> v | None \<Rightarrow> Prim PUndef)"
  "js_get demo_heap (Ref [11]) k = Inr (case map_of [(''action'', jstr ''shell''), (''value'', jstr ''ls'')] k of Some v \<Rightarrow> v | None \<Rightarrow> Prim PUndef)"
  "js_get demo_heap (Ref [12]) k = Inr (case map_of [(''severity'', jstr ''low''), (''fingerprint'', jstr ''f'')] k of Some v \<Rightarrow> v | None \<Rightarrow> Prim PUndef)"
  "js_get demo_heap (Ref [13]) k = Inr (case map_of [(''principalId'', jstr ''u''), (''accountId'', jstr ''a''), (''projectId'', jstr ''p''),
        (''sessionId'', jstr ''s''), (''policyId'', jstr ''y''), (''epoch'', Prim (PNum (num_int 0)))] k of Some v \<Rightarrow> v | None \<Rightarrow> Prim PUndef)"
  "js_get demo_heap (Ref [14]) k = Inr (case map_of [(''type'', jstr ''issue''), (''grant'', Ref [9])] k of Some v \<Rightarrow> v | None \<Rightarrow> Prim PUndef)"
  "js_get demo_heap (Ref [15]) k = Inr (case map_of [(''type'', jstr ''authorize''), (''attempt'', Ref [10])] k of Some v \<Rightarrow> v | None \<Rightarrow> Prim PUndef)"
  by (rule js_get_plain; simp add: demo_heap_def)+

lemma demo_reads: "grant_reads demo_heap (Ref [9]) demo_grant" "attempt_reads demo_heap (Ref [10]) demo_attempt"
  by (simp_all add: grant_reads_def attempt_reads_def claim_reads_def demo_lookups demo_claim_props_def demo_grant_def
      demo_attempt_def demo_claim_def demo_evidence_def demo_binding_def exactTarget_def claim_record_defs)


lemma demo_grant_ok:
  "createCapabilityGrant demo_authority demo_heap (Ref [9]) =
     Inr (demo_grant, demo_authority\<lparr>grantClaims := [[0] \<mapsto> json_key (grant_fields demo_grant)]\<rparr>)"
  by (subst createCapabilityGrant_Inr_iff [OF demo_inv])
    (simp add: demo_reads demo_valid demo_authority_eq demo_adapters empty_authority_def,
     simp add: demo_grant_def demo_claim_def demo_evidence_def claim_record_defs)

lemma demo_attempt_ok:
  "createCapabilityAttempt demo_authority demo_heap (Ref [10]) =
     Inr (demo_attempt, demo_authority\<lparr>attemptClaims := [[1] \<mapsto> json_key (attempt_fields demo_attempt)]\<rparr>)"
  by (subst createCapabilityAttempt_Inr_iff [OF demo_inv])
    (simp add: demo_reads demo_valid demo_authority_eq demo_adapters empty_authority_def,
     simp add: demo_attempt_def demo_claim_def demo_evidence_def claim_record_defs)


section \<open>Properties\<close>

text \<open>
  C18: in every state of a registry the two verifiers accept exactly the values that spell out
  a well-formed grant or attempt whose evidence is registered for that phase and not yet bound to another claim, and return it.
\<close>

theorem verifiers_exact:
  assumes "reachable (new_authority defs) authority_step au"
  shows "(createCapabilityGrant au h v = Inr (g, au') \<longleftrightarrow>
      grant_reads h v g \<and> valid_grant g \<and> grantEvidence au (ev_ref (evidence g)) = Some (evidence g) \<and>
      grantClaims au (ev_ref (evidence g)) \<in> {None, Some (json_key (grant_fields g))} \<and>
      au' = au\<lparr>grantClaims := (grantClaims au)(ev_ref (evidence g) \<mapsto> json_key (grant_fields g))\<rparr>) \<and>
    (createCapabilityAttempt au h v = Inr (a, au'') \<longleftrightarrow>
      attempt_reads h v a \<and> valid_attempt a \<and> attemptEvidence au (ev_ref (evidence a)) = Some (evidence a) \<and>
      attemptClaims au (ev_ref (evidence a)) \<in> {None, Some (json_key (attempt_fields a))} \<and>
      au'' = au\<lparr>attemptClaims := (attemptClaims au)(ev_ref (evidence a) \<mapsto> json_key (attempt_fields a))\<rparr>)"
  using registry.reachable_inv [OF assms] createCapabilityGrant_Inr_iff createCapabilityAttempt_Inr_iff by auto

theorem verifiers_exact_witness:
  "createCapabilityGrant demo_authority demo_heap (Ref [9]) =
     Inr (demo_grant, demo_authority\<lparr>grantClaims := [[0] \<mapsto> json_key (grant_fields demo_grant)]\<rparr>) \<and>
   valid_grant demo_grant"
  using verifiers_exact [OF demo_reachable] demo_grant_ok by blast

text \<open>
  C17: one piece of evidence serves one claim. Whatever calls a registry receives between two
  accepted grants (or two accepted attempts) with the same evidence object, the two are
  equal in every field.
\<close>

theorem evidence_serves_one_claim:
  assumes "reachable (new_authority defs) authority_step au"
  shows "(createCapabilityGrant au h v = Inr (g, au1) \<and>
      createCapabilityGrant (foldl authority_step au1 evs) h' v' = Inr (g', au2) \<and>
      ev_ref (evidence g) = ev_ref (evidence g') \<longrightarrow> g = g') \<and>
    (createCapabilityAttempt au h v = Inr (a, au1) \<and>
      createCapabilityAttempt (foldl authority_step au1 evs) h' v' = Inr (a', au2) \<and>
      ev_ref (evidence a) = ev_ref (evidence a') \<longrightarrow> a = a')"
proof -
  have inv: "authority_inv au" by (rule registry.reachable_inv [OF assms])
  note run = registry.foldl_inv registry.foldl_later
  have "g = g'" if "createCapabilityGrant au h v = Inr (g, au1)"
    "createCapabilityGrant (foldl authority_step au1 evs) h' v' = Inr (g', au2)" "ev_ref (evidence g) = ev_ref (evidence g')"
    using that same_evidence_same_grant [OF inv] createCapabilityGrant_inv [OF inv] run by meson
  moreover have "a = a'" if "createCapabilityAttempt au h v = Inr (a, au1)"
    "createCapabilityAttempt (foldl authority_step au1 evs) h' v' = Inr (a', au2)" "ev_ref (evidence a) = ev_ref (evidence a')"
    using that same_evidence_same_attempt [OF inv] createCapabilityAttempt_inv [OF inv] run by meson
  ultimately show ?thesis by blast
qed

theorem evidence_serves_one_claim_witness:
  "\<not> (\<exists>h v au. createCapabilityGrant (demo_authority\<lparr>grantClaims := [[0] \<mapsto> json_key (grant_fields demo_grant)]\<rparr>) h v =
     Inr (demo_grant\<lparr>grant_id := js ''other''\<rparr>, au))"
proof
  assume "\<exists>h v au. createCapabilityGrant (demo_authority\<lparr>grantClaims := [[0] \<mapsto> json_key (grant_fields demo_grant)]\<rparr>) h v =
    Inr (demo_grant\<lparr>grant_id := js ''other''\<rparr>, au)"
  then have "demo_grant = demo_grant\<lparr>grant_id := js ''other''\<rparr>"
    using evidence_serves_one_claim [OF demo_reachable, of demo_heap "Ref [9]" demo_grant _ "[]"] demo_grant_ok by fastforce
  then have "grant_id demo_grant = grant_id (demo_grant\<lparr>grant_id := js ''other''\<rparr>)" by (rule arg_cong)
  then show False by (simp add: demo_grant_def claim_record_defs)
qed

text \<open>
  Every piece of evidence a registry knows is typed by its mint: the digest is
  \<open>sha256:\<close> and 64 lowercase hexadecimal digits, the SHA-256 of some arguments string; the adapter that
  validated the target is the registered one of that name, version and action; phases and registries agree.
\<close>

theorem registered_evidence_typed:
  assumes "reachable (new_authority defs) authority_step au"
    and "grantEvidence au a = Some e \<and> ph = Grant_Phase \<or> attemptEvidence au a = Some e \<and> ph = Attempt_Phase"
  shows "valid_evidence ph e \<and> ev_ref e = a \<and> length (ev_argumentsDigest e) = 71 \<and> provenance au e"
proof -
  have inv: "authority_inv au" by (rule registry.reachable_inv [OF assms(1)])
  then have "valid_evidence ph e \<and> ev_ref e = a"
    using assms(2) by (auto simp: authority_inv_def dest: registry_invD)
  moreover from this have "length (ev_argumentsDigest e) = 71"
    by (auto simp: valid_evidence_def SHA256_DIGEST_def)
  moreover have "provenance au e" using reachable_provenance [OF assms(1)] assms(2) by blast
  ultimately show ?thesis by blast
qed

theorem registered_evidence_typed_witness:
  "length (js ''sha256:'' @ sha256Hex (js ''[]'')) = 71 \<and> provenance demo_authority (demo_evidence Grant_Phase 0)"
  using registered_evidence_typed [OF demo_reachable, of "[0]" "demo_evidence Grant_Phase 0" Grant_Phase]
  by (simp add: demo_authority_eq demo_evidence_def)

end
