(* ===== verification/Approval_Reducer.thy ===== *)
theory Approval_Reducer
  imports Approval_Contract
begin

text \<open>
  The approval reducer, \<open>src/app/src/domain/approval/reducer.ts\<close>: which grants exist, which attempts they
  authorized, which sessions ended, which grants were revoked and which policy epoch is
  current, changed by six actions under a trusted clock.

  The records of the source (objects without prototype) are maps; a step returns \<open>None\<close> where the
  source returns the very state it received. The registry of the contract is threaded through the
  steps that call it. The clock's reading and the completion verifier are
  arguments of every call, so they may answer differently each time or throw.

  Shown: an attempt is allowed exactly under the documented conditions, one attempt per grant is in
  flight, what was lost (revocation, uncertain outcome, used-up grant, ended session, stale epoch, expiry) stays lost,
  history only grows, and a completion needs its verifier's consent.
\<close>

section \<open>State\<close>

datatype DenialReason =
  Grant_not_found | Scope_mismatch | Action_mismatch | Target_mismatch | Risk_mismatch | Principal_mismatch
| Account_mismatch | Project_mismatch | Session_mismatch | Policy_mismatch | Epoch_mismatch
| Adapter_evidence_mismatch | Arguments_digest_mismatch | Grant_not_active | Grant_expired | Attempt_replayed
| Grant_consumed | Session_ended | Grant_revoked | Policy_epoch_stale | Invalid_time | Grant_outcome_uncertain
| Grant_in_flight

datatype TerminalStatus = Succeeded | Failed | Denied | Uncertain

fun status_name :: "TerminalStatus \<Rightarrow> string" where
  "status_name Succeeded = ''succeeded''"
| "status_name Failed = ''failed''"
| "status_name Denied = ''denied''"
| "status_name Uncertain = ''uncertain''"

definition COMPLETION_STATUSES :: "TerminalStatus list" where
  "COMPLETION_STATUSES = [Succeeded, Failed, Uncertain]"

record TerminalOutcome =
  status :: TerminalStatus
  outcome_reason :: "DenialReason option"
  outcome_at :: int

datatype attempt_phase = Authorized | Terminal

record AttemptRecord =
  attempt :: CapabilityAttempt
  attempt_phase :: attempt_phase
  authorizedAt :: "int option"
  outcome :: "TerminalOutcome option"

record GrantRecord =
  grant :: CapabilityGrant
  consumedBy :: "jsstr option"
  inFlightBy :: "jsstr option"
  uncertainBy :: "jsstr option"

record Revocation =
  revoked_at :: int
  revocation_reason :: jsstr

record PolicyEpoch =
  current_epoch :: int
  effectiveAt :: int

datatype verdict = Allow | Deny

record ApprovalDecision =
  verdict :: verdict
  decision_reason :: "DenialReason option"
  decided_at :: int
  decision_attempt :: CapabilityAttempt
  decision_grant :: "CapabilityGrant option"

record ApprovalState =
  grants :: "jsstr \<rightharpoonup> GrantRecord"
  approvalGrants :: "jsstr \<rightharpoonup> jsstr"
  attempts :: "jsstr \<rightharpoonup> AttemptRecord"
  decisions :: "ApprovalDecision list"
  endedSessions :: "jsstr \<rightharpoonup> int"
  revocations :: "jsstr \<rightharpoonup> Revocation"
  policyEpochs :: "jsstr \<rightharpoonup> PolicyEpoch"
  lastObservedAt :: "int option"

definition createApprovalState :: ApprovalState where
  "createApprovalState =
     \<lparr>grants = Map.empty, approvalGrants = Map.empty, attempts = Map.empty, decisions = [],
      endedSessions = Map.empty, revocations = Map.empty, policyEpochs = Map.empty, lastObservedAt = None\<rparr>"


section \<open>Actions\<close>

text \<open>A decoded action still carries the raw values of its fields.\<close>

datatype ApprovalReducerAction =
  Issue jsval
| Authorize jsval
| End_session jsval
| Revoke jsval jsval
| Advance_policy_epoch jsval jsval jsval jsval jsval
| Settle jsval jsval jsval

definition decode_envelope :: "heap \<Rightarrow> jsval \<Rightarrow> js_error + ApprovalReducerAction option" where
  "decode_envelope h envelope =
     ebind (js_get h envelope ''type'') (\<lambda>type.
     if type = jstr ''issue'' then
       ebind (js_get h envelope ''grant'') (\<lambda>g. Inr (Some (Issue g)))
     else if type = jstr ''authorize'' then
       ebind (js_get h envelope ''attempt'') (\<lambda>a. Inr (Some (Authorize a)))
     else if type = jstr ''end-session'' then
       ebind (js_get h envelope ''binding'') (\<lambda>b. Inr (Some (End_session b)))
     else if type = jstr ''revoke'' then
       ebind (js_get h envelope ''grantId'') (\<lambda>g.
       ebind (js_get h envelope ''reason'') (\<lambda>r. Inr (Some (Revoke g r))))
     else if type = jstr ''advance-policy-epoch'' then
       ebind (js_get h envelope ''principalId'') (\<lambda>pr.
       ebind (js_get h envelope ''accountId'') (\<lambda>ac.
       ebind (js_get h envelope ''projectId'') (\<lambda>pj.
       ebind (js_get h envelope ''policyId'') (\<lambda>po.
       ebind (js_get h envelope ''epoch'') (\<lambda>ep. Inr (Some (Advance_policy_epoch pr ac pj po ep)))))))
     else if type = jstr ''settle'' then
       ebind (js_get h envelope ''attemptId'') (\<lambda>i.
       ebind (js_get h envelope ''outcome'') (\<lambda>out.
       ebind (js_get h envelope ''attestation'') (\<lambda>att. Inr (Some (Settle i out att)))))
     else Inr None)"

definition decodeApprovalReducerAction :: "heap \<Rightarrow> jsval \<Rightarrow> ApprovalReducerAction option" where
  "decodeApprovalReducerAction h input =
     (case input of
        Prim _ \<Rightarrow> None
      | Ref _ \<Rightarrow> (case decode_envelope h input of Inr a \<Rightarrow> a | Inl _ \<Rightarrow> None))"

text \<open>\<open>withEntry\<close> and \<open>hasEntry\<close>.\<close>

definition withEntry :: "('k \<rightharpoonup> 'v) \<Rightarrow> 'k \<Rightarrow> 'v \<Rightarrow> ('k \<rightharpoonup> 'v)" where
  [approval]: "withEntry source key value = source(key \<mapsto> value)"

definition hasEntry :: "('k \<rightharpoonup> 'v) \<Rightarrow> 'k \<Rightarrow> bool" where
  [approval]: "hasEntry source key \<longleftrightarrow> source key \<noteq> None"

definition validTime :: "jsval \<Rightarrow> int option" where
  [approval]: "validTime v = safe_nonneg v"

text \<open>\<open>validIdentifier\<close>, returning the string.\<close>

fun validIdentifier :: "jsval \<Rightarrow> jsstr option" where
  "validIdentifier (Prim (PStr s)) = (if s \<noteq> [] \<and> s = js_trim s \<and> 0 \<notin> set s then Some s else None)"
| "validIdentifier _ = None"

definition snapshotBinding :: "heap \<Rightarrow> jsval \<Rightarrow> js_error + CapabilityBinding option" where
  "snapshotBinding h v =
     ebind (js_get h v ''principalId'') (\<lambda>pr.
     ebind (js_get h v ''accountId'') (\<lambda>ac.
     ebind (js_get h v ''projectId'') (\<lambda>pj.
     ebind (js_get h v ''sessionId'') (\<lambda>se.
     ebind (js_get h v ''policyId'') (\<lambda>po.
     ebind (js_get h v ''epoch'') (\<lambda>ep.
       Inr (case (validIdentifier pr, validIdentifier ac, validIdentifier pj, validIdentifier se, validIdentifier po, safe_nonneg ep) of
         (Some pr', Some ac', Some pj', Some se', Some po', Some ep') \<Rightarrow>
           Some \<lparr>principalId = pr', accountId = ac', projectId = pj', sessionId = se', policyId = po', epoch = ep'\<rparr>
       | _ \<Rightarrow> None)))))))"

definition sessionKey :: "CapabilityBinding \<Rightarrow> jsstr" where
  "sessionKey b = json_key (TArr [TStr (principalId b), TStr (accountId b), TStr (projectId b), TStr (sessionId b)])"

definition policy_key :: "jsstr \<Rightarrow> jsstr \<Rightarrow> jsstr \<Rightarrow> jsstr \<Rightarrow> jsstr" where
  "policy_key pr ac pj po = json_key (TArr [TStr pr, TStr ac, TStr pj, TStr po])"

abbreviation policyKey :: "CapabilityBinding \<Rightarrow> jsstr" where
  "policyKey b \<equiv> policy_key (principalId b) (accountId b) (projectId b) (policyId b)"

definition claimMismatch :: "CapabilityGrant \<Rightarrow> CapabilityAttempt \<Rightarrow> DenialReason option" where
  "claimMismatch g a =
     (if scope g \<noteq> scope a then Some Scope_mismatch
      else if action g \<noteq> action a then Some Action_mismatch
      else if target_action (target g) \<noteq> target_action (target a) \<or> target_value (target g) \<noteq> target_value (target a)
      then Some Target_mismatch
      else if severity (risk g) \<noteq> severity (risk a) \<or> fingerprint (risk g) \<noteq> fingerprint (risk a)
      then Some Risk_mismatch
      else if principalId (binding g) \<noteq> principalId (binding a) then Some Principal_mismatch
      else if accountId (binding g) \<noteq> accountId (binding a) then Some Account_mismatch
      else if projectId (binding g) \<noteq> projectId (binding a) then Some Project_mismatch
      else if sessionId (binding g) \<noteq> sessionId (binding a) then Some Session_mismatch
      else if policyId (binding g) \<noteq> policyId (binding a) then Some Policy_mismatch
      else if epoch (binding g) \<noteq> epoch (binding a) then Some Epoch_mismatch
      else if ev_kind (evidence g) \<noteq> ev_kind (evidence a) \<or>
        ev_adapterId (evidence g) \<noteq> ev_adapterId (evidence a) \<or>
        ev_adapterVersion (evidence g) \<noteq> ev_adapterVersion (evidence a) \<or>
        ev_action (evidence g) \<noteq> ev_action (evidence a) \<or>
        target_action (ev_target (evidence g)) \<noteq> target_action (ev_target (evidence a)) \<or>
        target_value (ev_target (evidence g)) \<noteq> target_value (ev_target (evidence a))
      then Some Adapter_evidence_mismatch
      else if ev_argumentsDigest (evidence g) \<noteq> ev_argumentsDigest (evidence a)
      then Some Arguments_digest_mismatch
      else None)"

definition deny :: "ApprovalState \<Rightarrow> CapabilityAttempt \<Rightarrow> int \<Rightarrow> CapabilityGrant option \<Rightarrow> DenialReason \<Rightarrow> ApprovalState" where
  "deny st presented t g reason =
     st\<lparr>attempts := withEntry (attempts st) (attempt_id presented)
          \<lparr>attempt = presented, attempt_phase = Terminal, authorizedAt = None,
           outcome = Some \<lparr>status = Denied, outcome_reason = Some reason, outcome_at = t\<rparr>\<rparr>,
        decisions := decisions st @
          [\<lparr>verdict = Deny, decision_reason = Some reason, decided_at = t, decision_attempt = presented, decision_grant = g\<rparr>]\<rparr>"

definition denyReplay :: "ApprovalState \<Rightarrow> CapabilityAttempt \<Rightarrow> int \<Rightarrow> CapabilityGrant option \<Rightarrow> ApprovalState" where
  "denyReplay st presented t g =
     st\<lparr>decisions := decisions st @
          [\<lparr>verdict = Deny, decision_reason = Some Attempt_replayed, decided_at = t,
            decision_attempt = presented, decision_grant = g\<rparr>]\<rparr>"


section \<open>Steps\<close>

definition issue_grant :: "ApprovalState \<Rightarrow> CapabilityGrant \<Rightarrow> ApprovalState option" where
  "issue_grant st issued =
     (if hasEntry (grants st) (grant_id issued) \<or> hasEntry (revocations st) (grant_id issued) \<or>
        hasEntry (approvalGrants st) (approvalId issued)
      then None
      else
        let key = policyKey (binding issued); currentEpoch = policyEpochs st key in
        if (case currentEpoch of
              Some e \<Rightarrow> current_epoch e \<noteq> epoch (binding issued) \<or> issuedAt issued < effectiveAt e
            | None \<Rightarrow> False)
        then None
        else Some (st\<lparr>
          grants := withEntry (grants st) (grant_id issued)
            \<lparr>grant = issued, consumedBy = None, inFlightBy = None, uncertainBy = None\<rparr>,
          approvalGrants := withEntry (approvalGrants st) (approvalId issued) (grant_id issued),
          policyEpochs :=
            (case currentEpoch of
               Some _ \<Rightarrow> policyEpochs st
             | None \<Rightarrow> withEntry (policyEpochs st) key
                 \<lparr>current_epoch = epoch (binding issued), effectiveAt = issuedAt issued\<rparr>)\<rparr>))"

definition end_session :: "ApprovalState \<Rightarrow> heap \<Rightarrow> jsval \<Rightarrow> int \<Rightarrow> ApprovalState option" where
  "end_session st h v t =
     (case snapshotBinding h v of
        Inr (Some b) \<Rightarrow> Some (st\<lparr>endedSessions := withEntry (endedSessions st) (sessionKey b) t\<rparr>)
      | Inr None \<Rightarrow> None
      | Inl _ \<Rightarrow> None)"

definition revoke :: "ApprovalState \<Rightarrow> jsval \<Rightarrow> jsval \<Rightarrow> int \<Rightarrow> ApprovalState option" where
  "revoke st rawId rawReason t =
     (case (validIdentifier rawId, validIdentifier rawReason) of
        (Some gid, Some reason) \<Rightarrow>
          if hasEntry (revocations st) gid then None
          else Some (st\<lparr>revocations := withEntry (revocations st) gid \<lparr>revoked_at = t, revocation_reason = reason\<rparr>\<rparr>)
      | _ \<Rightarrow> None)"

definition advance_policy_epoch :: "ApprovalState \<Rightarrow> jsval \<Rightarrow> jsval \<Rightarrow> jsval \<Rightarrow> jsval \<Rightarrow> jsval \<Rightarrow> int \<Rightarrow> ApprovalState option" where
  "advance_policy_epoch st pr ac pj po ep t =
     (case (safe_nonneg ep, validIdentifier pr, validIdentifier ac, validIdentifier pj, validIdentifier po) of
        (Some e, Some pr', Some ac', Some pj', Some po') \<Rightarrow>
          (let key = policy_key pr' ac' pj' po' in
           if (case policyEpochs st key of
                 Some current \<Rightarrow> e \<le> current_epoch current \<or> t < effectiveAt current
               | None \<Rightarrow> False)
           then None
           else Some (st\<lparr>policyEpochs := withEntry (policyEpochs st) key \<lparr>current_epoch = e, effectiveAt = t\<rparr>\<rparr>))
      | _ \<Rightarrow> None)"

text \<open>A string that counts as true in a condition.\<close>

definition truthy :: "jsstr option \<Rightarrow> bool" where
  "truthy x \<longleftrightarrow> x \<noteq> None \<and> x \<noteq> Some []"

record CompletionAuthentication =
  completed_attempt :: CapabilityAttempt
  completion_outcome :: TerminalStatus
  completion_observedAt :: int

type_synonym completion_verifier = "CompletionAuthentication \<Rightarrow> heap \<Rightarrow> jsval \<Rightarrow> js_error + jsval"

definition complete_attempt ::
  "ApprovalState \<Rightarrow> jsstr \<Rightarrow> AttemptRecord \<Rightarrow> GrantRecord \<Rightarrow> int \<Rightarrow> TerminalStatus \<Rightarrow> int \<Rightarrow> ApprovalState" where
  "complete_attempt st aid existing auth authorized out t =
     st\<lparr>grants := withEntry (grants st) (grant_id (grant auth))
          \<lparr>grant = grant auth, consumedBy = (if truthy (consumedBy auth) then consumedBy auth else None),
           inFlightBy = None,
           uncertainBy = (if out = Uncertain then Some (attempt_id (attempt existing)) else None)\<rparr>,
        attempts := withEntry (attempts st) aid
          \<lparr>attempt = attempt existing, attempt_phase = Terminal, authorizedAt = Some authorized,
           outcome = Some \<lparr>status = out, outcome_reason = None, outcome_at = t\<rparr>\<rparr>\<rparr>"

definition settle ::
  "ApprovalState \<Rightarrow> heap \<Rightarrow> jsval \<Rightarrow> jsval \<Rightarrow> jsval \<Rightarrow> int \<Rightarrow> completion_verifier \<Rightarrow> ApprovalState option" where
  "settle st h rawId rawOutcome attestation t authenticateCompletion =
     (case validIdentifier rawId of
        None \<Rightarrow> None
      | Some aid \<Rightarrow>
          (case (attempts st aid, js_includes status_name COMPLETION_STATUSES rawOutcome) of
             (Some existing, Some out) \<Rightarrow>
               (case (attempt_phase existing, authorizedAt existing) of
                  (Authorized, Some authorized) \<Rightarrow>
                    if t < authorized then None
                    else
                      (case grants st (grantId (attempt existing)) of
                         None \<Rightarrow> None
                       | Some auth \<Rightarrow>
                           if inFlightBy auth \<noteq> Some (attempt_id (attempt existing)) then None
                           else if authenticateCompletion
                             \<lparr>completed_attempt = attempt existing, completion_outcome = out, completion_observedAt = t\<rparr>
                             h attestation \<noteq> Inr (Prim (PBool True)) then None
                           else Some (complete_attempt st aid existing auth authorized out t))
                | _ \<Rightarrow> None)
           | _ \<Rightarrow> None))"

definition allow :: "ApprovalState \<Rightarrow> CapabilityAttempt \<Rightarrow> CapabilityGrant \<Rightarrow> int \<Rightarrow> ApprovalState" where
  "allow st presented g t =
     st\<lparr>grants := withEntry (grants st) (grant_id g)
          \<lparr>grant = g, consumedBy = (if scope g = S_once then Some (attempt_id presented) else None),
           inFlightBy = Some (attempt_id presented), uncertainBy = None\<rparr>,
        attempts := withEntry (attempts st) (attempt_id presented)
          \<lparr>attempt = presented, attempt_phase = Authorized, authorizedAt = Some t, outcome = None\<rparr>,
        decisions := decisions st @
          [\<lparr>verdict = Allow, decision_reason = None, decided_at = t,
            decision_attempt = presented, decision_grant = Some g\<rparr>]\<rparr>"

text \<open>The checks that an attempt passes before it is allowed, in the order of the source.\<close>

definition authorize_attempt :: "ApprovalState \<Rightarrow> CapabilityAttempt \<Rightarrow> int \<Rightarrow> ApprovalState" where
  "authorize_attempt st presented t =
     (let auth = grants st (grantId presented); known = map_option grant auth in
      if hasEntry (attempts st) (attempt_id presented) then denyReplay st presented t known
      else if hasEntry (revocations st) (grantId presented) then deny st presented t known Grant_revoked
      else case auth of
        None \<Rightarrow> deny st presented t None Grant_not_found
      | Some r \<Rightarrow>
          (let g = grant r; no = deny st presented t (Some g) in
           if truthy (uncertainBy r) then no Grant_outcome_uncertain
           else if scope g = S_once \<and> truthy (consumedBy r) then no Grant_consumed
           else case claimMismatch g presented of
             Some mismatch \<Rightarrow> no mismatch
           | None \<Rightarrow>
               if truthy (inFlightBy r) then no Grant_in_flight
               else if (case policyEpochs st (policyKey (binding g)) of
                   None \<Rightarrow> True
                 | Some e \<Rightarrow> current_epoch e \<noteq> epoch (binding g) \<or> issuedAt g < effectiveAt e)
               then no Policy_epoch_stale
               else if t < issuedAt g then no Grant_not_active
               else if expiresAt g \<le> t then no Grant_expired
               else if scope g \<noteq> S_persistent \<and> hasEntry (endedSessions st) (sessionKey (binding g))
               then no Session_ended
               else allow st presented g t))"

text \<open>
  \<open>reduceApprovalAt\<close>: \<open>None\<close> when it returns the state it was given. An exception leaves the state as it was;
  the registry keeps what a completed verifier call bound.
\<close>

fun reduceApprovalAt ::
  "ApprovalState \<Rightarrow> authority \<Rightarrow> heap \<Rightarrow> ApprovalReducerAction \<Rightarrow> int \<Rightarrow> completion_verifier \<Rightarrow> ApprovalState option \<times> authority" where
  "reduceApprovalAt st au h (Issue v) t ac =
     (case createCapabilityGrant au h v of Inl _ \<Rightarrow> (None, au) | Inr (g, au') \<Rightarrow> (issue_grant st g, au'))"
| "reduceApprovalAt st au h (End_session v) t ac = (end_session st h v t, au)"
| "reduceApprovalAt st au h (Revoke i r) t ac = (revoke st i r t, au)"
| "reduceApprovalAt st au h (Advance_policy_epoch pr acc pj po ep) t ac = (advance_policy_epoch st pr acc pj po ep t, au)"
| "reduceApprovalAt st au h (Settle i out att) t ac = (settle st h i out att t ac, au)"
| "reduceApprovalAt st au h (Authorize v) t ac =
     (case createCapabilityAttempt au h v of Inl _ \<Rightarrow> (None, au) | Inr (a, au') \<Rightarrow> (Some (authorize_attempt st a t), au'))"

definition approvalReducer ::
  "ApprovalState \<Rightarrow> authority \<Rightarrow> heap \<Rightarrow> jsval \<Rightarrow> js_error + jsval \<Rightarrow> completion_verifier \<Rightarrow> ApprovalState \<times> authority" where
  "approvalReducer st au h input clock ac =
     (case decodeApprovalReducerAction h input of
        None \<Rightarrow> (st, au)
      | Some act \<Rightarrow>
          (case clock of
             Inl _ \<Rightarrow> (st, au)
           | Inr c \<Rightarrow>
               (case validTime c of
                  None \<Rightarrow> (st, au)
                | Some t \<Rightarrow>
                    if (case lastObservedAt st of Some l \<Rightarrow> t < l | None \<Rightarrow> False) then (st, au)
                    else
                      (case reduceApprovalAt st au h act t ac of
                         (None, au') \<Rightarrow> (st, au')
                       | (Some next, au') \<Rightarrow> (next\<lparr>lastObservedAt := Some t\<rparr>, au')))))"

text \<open>A run: calls of the reducer, of the mint and of the verifiers in any order.\<close>

datatype approval_event =
  Registry authority_event
| Reduce heap jsval "js_error + jsval" completion_verifier

fun approval_step :: "ApprovalState \<times> authority \<Rightarrow> approval_event \<Rightarrow> ApprovalState \<times> authority" where
  "approval_step (st, au) (Registry e) = (st, authority_step au e)"
| "approval_step (st, au) (Reduce h input clock ac) = approvalReducer st au h input clock ac"



section \<open>What authorizes an attempt\<close>

text \<open>The evidence of a grant and of an attempt agree in everything but identity and phase.\<close>

definition same_evidence :: "VerifiedAdapterEvidence \<Rightarrow> VerifiedAdapterEvidence \<Rightarrow> bool" where
  "same_evidence e f \<longleftrightarrow> e\<lparr>ev_ref := ev_ref f, ev_phase := ev_phase f\<rparr> = f"

definition claims_agree :: "CapabilityGrant \<Rightarrow> CapabilityAttempt \<Rightarrow> bool" where
  "claims_agree g a \<longleftrightarrow>
     scope g = scope a \<and> action g = action a \<and> target g = target a \<and> risk g = risk a \<and> binding g = binding a \<and>
     same_evidence (evidence g) (evidence a)"

lemma record_eq_iffs:
  "x = y \<longleftrightarrow> target_action x = target_action y \<and> target_value x = target_value y"
  "r = q \<longleftrightarrow> severity r = severity q \<and> fingerprint r = fingerprint q"
  "b = c \<longleftrightarrow> principalId b = principalId c \<and> accountId b = accountId c \<and> projectId b = projectId c \<and>
     sessionId b = sessionId c \<and> policyId b = policyId c \<and> epoch b = epoch c"
  for x y :: CapabilityTarget and r q :: CapabilityRisk and b c :: CapabilityBinding
  by (auto intro: CapabilityTarget.equality CapabilityRisk.equality CapabilityBinding.equality)

lemma same_evidence_iff:
  "same_evidence e f \<longleftrightarrow>
     ev_kind e = ev_kind f \<and> ev_adapterId e = ev_adapterId f \<and> ev_adapterVersion e = ev_adapterVersion f \<and>
     ev_action e = ev_action f \<and> ev_target e = ev_target f \<and> ev_argumentsDigest e = ev_argumentsDigest f"
  unfolding same_evidence_def by (cases e; cases f) auto

lemma claimMismatch_None_iff: "claimMismatch g a = None \<longleftrightarrow> claims_agree g a"
proof -
  have chain: "(if p then Some x else q) = None \<longleftrightarrow> \<not> p \<and> q = None" for p x and q :: "DenialReason option" by simp
  show ?thesis
    unfolding claimMismatch_def claims_agree_def same_evidence_iff record_eq_iffs chain by blast
qed

text \<open>The conditions under which the reducer allows an attempt.\<close>

definition current_policy :: "ApprovalState \<Rightarrow> CapabilityGrant \<Rightarrow> bool" where
  "current_policy st g \<longleftrightarrow>
     (\<exists>e. policyEpochs st (policyKey (binding g)) = Some e \<and> current_epoch e = epoch (binding g) \<and>
        effectiveAt e \<le> issuedAt g)"

definition usable :: "ApprovalState \<Rightarrow> GrantRecord \<Rightarrow> int \<Rightarrow> bool" where
  "usable st r t \<longleftrightarrow>
     uncertainBy r = None \<and> inFlightBy r = None \<and> (scope (grant r) = S_once \<longrightarrow> consumedBy r = None) \<and>
     current_policy st (grant r) \<and> issuedAt (grant r) \<le> t \<and> t < expiresAt (grant r) \<and>
     (scope (grant r) = S_persistent \<or> endedSessions st (sessionKey (binding (grant r))) = None)"

definition allowed :: "ApprovalState \<Rightarrow> CapabilityAttempt \<Rightarrow> GrantRecord \<Rightarrow> int \<Rightarrow> bool" where
  "allowed st a r t \<longleftrightarrow>
     attempts st (attempt_id a) = None \<and> revocations st (grantId a) = None \<and> grants st (grantId a) = Some r \<and>
     claims_agree (grant r) a \<and> usable st r t"

definition proper_refs :: "GrantRecord \<Rightarrow> bool" where
  "proper_refs r \<longleftrightarrow> consumedBy r \<noteq> Some [] \<and> inFlightBy r \<noteq> Some [] \<and> uncertainBy r \<noteq> Some []"

lemma truthy_proper [simp]:
  assumes "proper_refs r"
  shows "truthy (consumedBy r) \<longleftrightarrow> consumedBy r \<noteq> None" "truthy (inFlightBy r) \<longleftrightarrow> inFlightBy r \<noteq> None"
    "truthy (uncertainBy r) \<longleftrightarrow> uncertainBy r \<noteq> None"
  using assms by (auto simp: truthy_def proper_refs_def)

text \<open>An attempt has one of three outcomes.\<close>

lemma if_P_deny:
  "(\<exists>g reason. (if p then deny st a t g' r' else x) = deny st a t g reason) \<longleftrightarrow>
     p \<or> (\<exists>g reason. x = deny st a t g reason)"
  by auto

lemma authorize_attempt_cases:
  assumes "\<And>r. grants st (grantId a) = Some r \<Longrightarrow> proper_refs r"
  shows "(\<exists>r. allowed st a r t \<and> authorize_attempt st a t = allow st a (grant r) t) \<or>
    (\<nexists>r. allowed st a r t) \<and>
    (attempts st (attempt_id a) \<noteq> None \<and> (\<exists>g. authorize_attempt st a t = denyReplay st a t g) \<or>
     attempts st (attempt_id a) = None \<and> (\<exists>g reason. authorize_attempt st a t = deny st a t g reason))"
proof (cases "grants st (grantId a)")
  case None
  then show ?thesis
    unfolding authorize_attempt_def allowed_def by (auto simp: approval Let_def)
next
  case (Some r)
  let ?g = "grant r"
  let ?no = "deny st a t (Some ?g)"
  have stale: "(case policyEpochs st (policyKey (binding ?g)) of None \<Rightarrow> True
      | Some e \<Rightarrow> current_epoch e \<noteq> epoch (binding ?g) \<or> issuedAt ?g < effectiveAt e) \<longleftrightarrow> \<not> current_policy st ?g"
    by (auto simp: current_policy_def split: option.split)
  have mismatch: "(case claimMismatch ?g a of Some m \<Rightarrow> f m | None \<Rightarrow> x) =
      (if \<not> claims_agree ?g a then f (the (claimMismatch ?g a)) else x)" for f and x :: ApprovalState
    using claimMismatch_None_iff [of ?g a] by (cases "claimMismatch ?g a") auto
  let ?rest = "(if revocations st (grantId a) \<noteq> None then ?no Grant_revoked
     else if uncertainBy r \<noteq> None then ?no Grant_outcome_uncertain
     else if scope ?g = S_once \<and> consumedBy r \<noteq> None then ?no Grant_consumed
     else if \<not> claims_agree ?g a then ?no (the (claimMismatch ?g a))
     else if inFlightBy r \<noteq> None then ?no Grant_in_flight
     else if \<not> current_policy st ?g then ?no Policy_epoch_stale
     else if t < issuedAt ?g then ?no Grant_not_active
     else if expiresAt ?g \<le> t then ?no Grant_expired
     else if scope ?g \<noteq> S_persistent \<and> endedSessions st (sessionKey (binding ?g)) \<noteq> None then ?no Session_ended
     else allow st a ?g t)"
  have eq: "authorize_attempt st a t =
      (if attempts st (attempt_id a) \<noteq> None then denyReplay st a t (Some ?g) else ?rest)"
    unfolding authorize_attempt_def Let_def Some option.case option.map stale mismatch hasEntry_def
      truthy_proper [OF assms [OF Some]] by (rule refl)
  show ?thesis
  proof (cases "allowed st a r t")
    case True
    then have "authorize_attempt st a t = allow st a ?g t"
      unfolding eq allowed_def usable_def by auto
    with True show ?thesis by blast
  next
    case False
    then have no: "\<nexists>r. allowed st a r t" using Some by (auto simp: allowed_def)
    show ?thesis
    proof (cases "attempts st (attempt_id a) = None")
      case True
      then have "authorize_attempt st a t = ?rest" unfolding eq by simp
      moreover have "\<exists>g reason. ?rest = deny st a t g reason"
        using False True Some unfolding if_P_deny allowed_def usable_def
        by (cases "t < issuedAt ?g") (simp_all add: not_less, blast)
      ultimately have "\<exists>g reason. authorize_attempt st a t = deny st a t g reason" by (simp only:)
      with True no show ?thesis by blast
    next
      case replay: False
      then have "authorize_attempt st a t = denyReplay st a t (Some ?g)" unfolding eq by simp
      with replay no show ?thesis by blast
    qed
  qed
qed



section \<open>The invariant\<close>

definition grant_ok :: "ApprovalState \<Rightarrow> jsstr \<Rightarrow> GrantRecord \<Rightarrow> bool" where
  "grant_ok st k r \<longleftrightarrow>
     grant_id (grant r) = k \<and> valid_grant (grant r) \<and> proper_refs r \<and>
     approvalGrants st (approvalId (grant r)) = Some k \<and>
     (\<exists>e. policyEpochs st (policyKey (binding (grant r))) = Some e \<and> epoch (binding (grant r)) \<le> current_epoch e) \<and>
     (consumedBy r \<noteq> None \<longrightarrow> scope (grant r) = S_once) \<and>
     (inFlightBy r \<noteq> None \<longrightarrow> uncertainBy r = None) \<and>
     (\<forall>a. inFlightBy r = Some a \<longrightarrow>
        (\<exists>x. attempts st a = Some x \<and> grantId (attempt x) = k \<and> attempt_phase x = Authorized))"

definition attempt_ok :: "ApprovalState \<Rightarrow> jsstr \<Rightarrow> AttemptRecord \<Rightarrow> bool" where
  "attempt_ok st k x \<longleftrightarrow>
     attempt_id (attempt x) = k \<and> valid_attempt (attempt x) \<and>
     (attempt_phase x = Authorized \<longrightarrow>
        authorizedAt x \<noteq> None \<and> outcome x = None \<and>
        (\<exists>r. grants st (grantId (attempt x)) = Some r \<and> inFlightBy r = Some k)) \<and>
     (attempt_phase x = Terminal \<longrightarrow> (\<exists>out. outcome x = Some out \<and> (status out = Denied \<longleftrightarrow> authorizedAt x = None)))"

text \<open>The decision behind an allowed attempt, which the state still bears out.\<close>

definition decision_ok :: "ApprovalState \<Rightarrow> ApprovalDecision \<Rightarrow> bool" where
  "decision_ok st d \<longleftrightarrow>
     (\<exists>x r. attempts st (attempt_id (decision_attempt d)) = Some x \<and> attempt x = decision_attempt d \<and>
        authorizedAt x = Some (decided_at d) \<and> grants st (grantId (decision_attempt d)) = Some r \<and>
        decision_grant d = Some (grant r) \<and> claims_agree (grant r) (decision_attempt d) \<and>
        issuedAt (grant r) \<le> decided_at d \<and> decided_at d < expiresAt (grant r) \<and>
        (scope (grant r) = S_once \<longrightarrow> consumedBy r = Some (attempt_id (decision_attempt d))))"

abbreviation allows :: "ApprovalState \<Rightarrow> ApprovalDecision list" where
  "allows st \<equiv> filter (\<lambda>d. verdict d = Allow) (decisions st)"

definition state_inv :: "ApprovalState \<Rightarrow> bool" where
  "state_inv st \<longleftrightarrow>
     (\<forall>k r. grants st k = Some r \<longrightarrow> grant_ok st k r) \<and>
     (\<forall>k x. attempts st k = Some x \<longrightarrow> attempt_ok st k x) \<and>
     (\<forall>d \<in> set (allows st). decision_ok st d) \<and>
     distinct (map (attempt_id \<circ> decision_attempt) (allows st))"

lemma state_invD:
  assumes "state_inv st"
  shows "grants st k = Some r \<Longrightarrow> grant_ok st k r" "attempts st k = Some x \<Longrightarrow> attempt_ok st k x"
    "d \<in> set (allows st) \<Longrightarrow> decision_ok st d" "distinct (map (attempt_id \<circ> decision_attempt) (allows st))"
  using assms by (auto simp: state_inv_def)

text \<open>History: what later states keep of earlier ones.\<close>

definition map_later :: "('v \<Rightarrow> 'v \<Rightarrow> bool) \<Rightarrow> ('k \<rightharpoonup> 'v) \<Rightarrow> ('k \<rightharpoonup> 'v) \<Rightarrow> bool" where
  "map_later R m m' \<longleftrightarrow> (\<forall>k x. m k = Some x \<longrightarrow> (\<exists>x'. m' k = Some x' \<and> R x x'))"

lemma map_laterD: "map_later R m m' \<Longrightarrow> m k = Some x \<Longrightarrow> \<exists>x'. m' k = Some x' \<and> R x x'"
  by (auto simp: map_later_def)

lemma map_later_refl: "(\<And>x. R x x) \<Longrightarrow> map_later R m m"
  by (auto simp: map_later_def)

lemma map_later_trans:
  assumes "map_later R m m'" "map_later R m' m''" "\<And>x y z. R x y \<Longrightarrow> R y z \<Longrightarrow> R x z"
  shows "map_later R m m''"
  unfolding map_later_def using assms(3) map_laterD [OF assms(1)] map_laterD [OF assms(2)] by blast

lemma map_later_upd:
  assumes "\<And>x. R x x" "\<And>x. m k = Some x \<Longrightarrow> R x y"
  shows "map_later R m (m(k \<mapsto> y))"
  using assms by (auto simp: map_later_def)

definition grant_kept :: "GrantRecord \<Rightarrow> GrantRecord \<Rightarrow> bool" where
  "grant_kept r r' \<longleftrightarrow>
     grant r' = grant r \<and> (uncertainBy r \<noteq> None \<longrightarrow> uncertainBy r' = uncertainBy r) \<and>
     (consumedBy r \<noteq> None \<longrightarrow> consumedBy r' = consumedBy r)"

definition attempt_kept :: "AttemptRecord \<Rightarrow> AttemptRecord \<Rightarrow> bool" where
  "attempt_kept x x' \<longleftrightarrow>
     attempt x' = attempt x \<and> authorizedAt x' = authorizedAt x \<and> (attempt_phase x = Terminal \<longrightarrow> x' = x)"

definition epoch_kept :: "PolicyEpoch \<Rightarrow> PolicyEpoch \<Rightarrow> bool" where
  "epoch_kept e e' \<longleftrightarrow> e' = e \<or> current_epoch e < current_epoch e' \<and> effectiveAt e \<le> effectiveAt e'"

definition state_later :: "ApprovalState \<Rightarrow> ApprovalState \<Rightarrow> bool" where
  "state_later st st' \<longleftrightarrow>
     map_later grant_kept (grants st) (grants st') \<and> map_later attempt_kept (attempts st) (attempts st') \<and>
     map_later epoch_kept (policyEpochs st) (policyEpochs st') \<and>
     approvalGrants st \<subseteq>\<^sub>m approvalGrants st' \<and> revocations st \<subseteq>\<^sub>m revocations st' \<and>
     dom (endedSessions st) \<subseteq> dom (endedSessions st') \<and>
     (\<exists>ds. decisions st' = decisions st @ ds)"

lemma kept_refl [simp]: "grant_kept r r" "attempt_kept x x" "epoch_kept e e"
  by (simp_all add: grant_kept_def attempt_kept_def epoch_kept_def)

lemma kept_trans:
  "grant_kept r r' \<Longrightarrow> grant_kept r' r'' \<Longrightarrow> grant_kept r r''"
  "attempt_kept x x' \<Longrightarrow> attempt_kept x' x'' \<Longrightarrow> attempt_kept x x''"
  "epoch_kept e e' \<Longrightarrow> epoch_kept e' e'' \<Longrightarrow> epoch_kept e e''"
  by (auto simp: grant_kept_def attempt_kept_def epoch_kept_def)

lemma map_later_kept_refl [simp]:
  "map_later grant_kept m m" "map_later attempt_kept n n" "map_later epoch_kept q q"
  by (simp_all add: map_later_refl)

lemma state_later_refl [simp]: "state_later st st"
  by (simp add: state_later_def)

lemma state_later_trans:
  assumes "state_later st st'" "state_later st' st''"
  shows "state_later st st''"
proof -
  note L = assms [unfolded state_later_def]
  have "map_later grant_kept (grants st) (grants st'')" "map_later attempt_kept (attempts st) (attempts st'')"
    "map_later epoch_kept (policyEpochs st) (policyEpochs st'')"
    using L kept_trans by (blast intro: map_later_trans)+
  moreover have "approvalGrants st \<subseteq>\<^sub>m approvalGrants st''" "revocations st \<subseteq>\<^sub>m revocations st''"
    using L by (blast intro: map_le_trans)+
  ultimately show ?thesis using L unfolding state_later_def by fastforce
qed

text \<open>An allowing decision stays borne out by what later states keep.\<close>

lemma decision_ok_later:
  assumes "decision_ok st d" "map_later grant_kept (grants st) (grants st')"
    "map_later attempt_kept (attempts st) (attempts st')"
  shows "decision_ok st' d"
proof -
  obtain x r where x: "attempts st (attempt_id (decision_attempt d)) = Some x"
    and r: "grants st (grantId (decision_attempt d)) = Some r"
    and d: "attempt x = decision_attempt d" "authorizedAt x = Some (decided_at d)" "decision_grant d = Some (grant r)"
      "claims_agree (grant r) (decision_attempt d)" "issuedAt (grant r) \<le> decided_at d" "decided_at d < expiresAt (grant r)"
      "scope (grant r) = S_once \<longrightarrow> consumedBy r = Some (attempt_id (decision_attempt d))"
    using assms(1) by (auto simp: decision_ok_def)
  obtain x' r' where "attempts st' (attempt_id (decision_attempt d)) = Some x'" "attempt_kept x x'"
    "grants st' (grantId (decision_attempt d)) = Some r'" "grant_kept r r'"
    using map_laterD [OF assms(2) r] map_laterD [OF assms(3) x] by blast
  with d show ?thesis
    unfolding decision_ok_def by (intro exI [of _ x'] exI [of _ r']) (auto simp: attempt_kept_def grant_kept_def)
qed

lemma state_inv_intro:
  assumes inv: "state_inv st" and later: "map_later grant_kept (grants st) (grants st')"
      "map_later attempt_kept (attempts st) (attempts st')"
    and grants: "\<And>k r. grants st' k = Some r \<Longrightarrow> grant_ok st' k r"
    and attempts: "\<And>k x. attempts st' k = Some x \<Longrightarrow> attempt_ok st' k x"
    and allows: "allows st' = allows st"
  shows "state_inv st'"
  using state_invD [OF inv] decision_ok_later [OF _ later] grants attempts unfolding state_inv_def allows by blast


lemma grant_ok_later:
  assumes "grant_ok st k r" "approvalGrants st \<subseteq>\<^sub>m approvalGrants st'"
    "map_later epoch_kept (policyEpochs st) (policyEpochs st')"
    "\<And>a. inFlightBy r = Some a \<Longrightarrow> attempts st' a = attempts st a"
  shows "grant_ok st' k r"
proof -
  obtain e where e: "policyEpochs st (policyKey (binding (grant r))) = Some e" "epoch (binding (grant r)) \<le> current_epoch e"
    using assms(1) by (auto simp: grant_ok_def)
  obtain e' where "policyEpochs st' (policyKey (binding (grant r))) = Some e'" "epoch_kept e e'"
    using map_laterD [OF assms(3) e(1)] by blast
  then have "\<exists>e'. policyEpochs st' (policyKey (binding (grant r))) = Some e' \<and> epoch (binding (grant r)) \<le> current_epoch e'"
    using e(2) by (auto simp: epoch_kept_def)
  moreover have "approvalGrants st' (approvalId (grant r)) = Some k"
    using assms(1,2) by (auto simp: grant_ok_def intro: map_le_lookup)
  ultimately show ?thesis using assms(1,4) unfolding grant_ok_def by simp
qed

lemma attempt_ok_later:
  assumes "attempt_ok st k x"
    "\<And>r. attempt_phase x = Authorized \<Longrightarrow> grants st (grantId (attempt x)) = Some r \<Longrightarrow> inFlightBy r = Some k \<Longrightarrow>
       \<exists>r'. grants st' (grantId (attempt x)) = Some r' \<and> inFlightBy r' = Some k"
  shows "attempt_ok st' k x"
  using assms unfolding attempt_ok_def by blast

lemma issue_grant_Some_iff:
  "issue_grant st g = Some st' \<longleftrightarrow>
     grants st (grant_id g) = None \<and> revocations st (grant_id g) = None \<and> approvalGrants st (approvalId g) = None \<and>
     (\<forall>e. policyEpochs st (policyKey (binding g)) = Some e \<longrightarrow> current_epoch e = epoch (binding g) \<and> effectiveAt e \<le> issuedAt g) \<and>
     st' = st\<lparr>grants := (grants st)(grant_id g \<mapsto> \<lparr>grant = g, consumedBy = None, inFlightBy = None, uncertainBy = None\<rparr>),
       approvalGrants := (approvalGrants st)(approvalId g \<mapsto> grant_id g),
       policyEpochs := (case policyEpochs st (policyKey (binding g)) of Some _ \<Rightarrow> policyEpochs st
         | None \<Rightarrow> (policyEpochs st)(policyKey (binding g) \<mapsto> \<lparr>current_epoch = epoch (binding g), effectiveAt = issuedAt g\<rparr>))\<rparr>"
  by (cases "policyEpochs st (policyKey (binding g))") (auto simp: issue_grant_def approval Let_def)

lemma issue_grant_ok:
  assumes inv: "state_inv st" and g: "valid_grant g" and st': "issue_grant st g = Some st'"
  shows "state_inv st' \<and> state_later st st'"
proof -
  note S = st' [unfolded issue_grant_Some_iff]
  have ap: "approvalGrants st \<subseteq>\<^sub>m approvalGrants st'" using S by (auto simp: map_le_def)
  have ep: "map_later epoch_kept (policyEpochs st) (policyEpochs st')"
    using S by (auto simp: map_later_def split: option.split)
  have gl: "map_later grant_kept (grants st) (grants st')"
    using S by (auto intro: map_later_upd)
  have att: "attempts st' = attempts st" and dec: "decisions st' = decisions st" using S by simp_all
  have G: "grant_ok st' k r" if "grants st' k = Some r" for k r
  proof (cases "k = grant_id g")
    case True
    then have r: "r = \<lparr>grant = g, consumedBy = None, inFlightBy = None, uncertainBy = None\<rparr>" using that S by simp
    have "\<exists>e. policyEpochs st' (policyKey (binding g)) = Some e \<and> epoch (binding g) \<le> current_epoch e"
      using S by (auto split: option.split)
    with True g S show ?thesis by (simp add: grant_ok_def proper_refs_def r)
  next
    case False
    then have "grants st k = Some r" using that S by simp
    from grant_ok_later [OF state_invD(1) [OF inv this] ap ep] show ?thesis by (simp add: att)
  qed
  have A: "attempt_ok st' k x" if "attempts st' k = Some x" for k x
    by (rule attempt_ok_later [OF state_invD(2) [OF inv]]) (use that S in auto)
  have "state_inv st'"
    by (rule state_inv_intro [OF inv gl _ G A]) (simp_all add: att dec)
  then show ?thesis using S gl ap ep unfolding state_later_def by simp
qed

lemma end_session_ok:
  "state_inv st \<Longrightarrow> end_session st h v t = Some st' \<Longrightarrow> state_inv st' \<and> state_later st st'"
  by (auto simp: end_session_def state_inv_def grant_ok_def attempt_ok_def decision_ok_def state_later_def approval
      split: sum.splits option.splits)

lemma revoke_Some_iff:
  "revoke st i v t = Some st' \<longleftrightarrow>
     (\<exists>gid reason. validIdentifier i = Some gid \<and> validIdentifier v = Some reason \<and> revocations st gid = None \<and>
        st' = st\<lparr>revocations := (revocations st)(gid \<mapsto> \<lparr>revoked_at = t, revocation_reason = reason\<rparr>)\<rparr>)"
  by (auto simp: revoke_def approval split: option.splits)

lemma revoke_ok: "state_inv st \<Longrightarrow> revoke st i v t = Some st' \<Longrightarrow> state_inv st' \<and> state_later st st'"
  by (auto simp: revoke_Some_iff state_inv_def grant_ok_def attempt_ok_def decision_ok_def state_later_def map_le_def)

lemma advance_policy_epoch_ok:
  assumes inv: "state_inv st" and st': "advance_policy_epoch st pr ac pj po ep t = Some st'"
  shows "state_inv st' \<and> state_later st st'"
proof -
  obtain key e where S: "st' = st\<lparr>policyEpochs := (policyEpochs st)(key \<mapsto> \<lparr>current_epoch = e, effectiveAt = t\<rparr>)\<rparr>"
    "\<And>c. policyEpochs st key = Some c \<Longrightarrow> current_epoch c < e \<and> effectiveAt c \<le> t"
    using st' by (fastforce simp: advance_policy_epoch_def approval Let_def split: option.splits if_splits)
  have ep: "map_later epoch_kept (policyEpochs st) (policyEpochs st')"
    using S by (auto simp: epoch_kept_def intro!: map_later_upd)
  have "state_inv st'"
  proof (rule state_inv_intro [OF inv])
    show "grant_ok st' k r" if "grants st' k = Some r" for k r
      by (rule grant_ok_later [OF state_invD(1) [OF inv] _ ep]) (use that S in auto)
    show "attempt_ok st' k x" if "attempts st' k = Some x" for k x
      by (rule attempt_ok_later [OF state_invD(2) [OF inv]]) (use that S in auto)
  qed (use S in auto)
  then show ?thesis using S ep by (simp add: state_later_def)
qed


lemma case_option_None_Some_iff: "(case x of None \<Rightarrow> None | Some y \<Rightarrow> f y) = Some z \<longleftrightarrow> (\<exists>y. x = Some y \<and> f y = Some z)"
  by (cases x) auto

lemma if_None_Some_iff: "(if b then None else m) = Some z \<longleftrightarrow> \<not> b \<and> m = Some z"
  by simp

lemma status_includes [approval]:
  "js_includes status_name COMPLETION_STATUSES v = Some out \<longleftrightarrow> out \<noteq> Denied \<and> v = jstr (status_name out)"
proof -
  have "inj status_name" by (rule injI) (case_tac x; case_tac y; simp)
  then show ?thesis by (cases out) (simp_all add: js_includes_Some_iff COMPLETION_STATUSES_def)
qed

lemma settle_Some_iff:
  "settle st h i v att t ac = Some st' \<longleftrightarrow>
     (\<exists>aid x out authorized r.
        validIdentifier i = Some aid \<and> attempts st aid = Some x \<and> v = jstr (status_name out) \<and> out \<noteq> Denied \<and>
        attempt_phase x = Authorized \<and> authorizedAt x = Some authorized \<and> authorized \<le> t \<and>
        grants st (grantId (attempt x)) = Some r \<and> inFlightBy r = Some (attempt_id (attempt x)) \<and>
        ac \<lparr>completed_attempt = attempt x, completion_outcome = out, completion_observedAt = t\<rparr> h att = Inr (Prim (PBool True)) \<and>
        st' = complete_attempt st aid x r authorized out t)"
proof -
  have out: "(case (y, js_includes status_name COMPLETION_STATUSES v) of (Some x, Some out) \<Rightarrow> f x out | _ \<Rightarrow> None) = Some z \<longleftrightarrow>
      (\<exists>x out. y = Some x \<and> out \<noteq> Denied \<and> v = jstr (status_name out) \<and> f x out = Some z)"
    for y :: "AttemptRecord option" and f and z :: ApprovalState
    unfolding status_includes [symmetric] conj_assoc [symmetric] by (auto split: option.split)
  have phase: "(case (ph, au) of (Authorized, Some n) \<Rightarrow> f n | _ \<Rightarrow> None) = Some z \<longleftrightarrow>
      ph = Authorized \<and> (\<exists>n. au = Some n \<and> f n = Some z)" for ph and au :: "int option" and f and z :: ApprovalState
    by (cases ph) (auto split: option.split)
  show ?thesis
    unfolding settle_def case_option_None_Some_iff out phase if_None_Some_iff not_less not_not option.inject by auto
qed

lemma complete_attempt_ok:
  assumes inv: "state_inv st" and x: "attempts st aid = Some x" "attempt_phase x = Authorized" "authorizedAt x = Some authorized"
    and r: "grants st (grantId (attempt x)) = Some r" and fl: "inFlightBy r = Some (attempt_id (attempt x))"
    and out: "out \<noteq> Denied"
  shows "state_inv (complete_attempt st aid x r authorized out t) \<and> state_later st (complete_attempt st aid x r authorized out t)"
    (is "state_inv ?st' \<and> _")
proof -
  let ?k = "grantId (attempt x)"
  let ?r' = "\<lparr>grant = grant r, consumedBy = consumedBy r, inFlightBy = None,
    uncertainBy = (if out = Uncertain then Some aid else None)\<rparr>"
  let ?x' = "\<lparr>attempt = attempt x, attempt_phase = Terminal, authorizedAt = Some authorized,
    outcome = Some \<lparr>status = out, outcome_reason = None, outcome_at = t\<rparr>\<rparr>"
  note R = state_invD(1) [OF inv r, unfolded grant_ok_def]
  note X = state_invD(2) [OF inv x(1), unfolded attempt_ok_def]
  have aid: "attempt_id (attempt x) = aid" using X by blast
  have k: "grant_id (grant r) = ?k" using R by blast
  have proper: "proper_refs r" using R by blast
  have ne: "aid \<noteq> []" using proper fl by (auto simp: proper_refs_def aid)
  have cons: "(if truthy (consumedBy r) then consumedBy r else None) = consumedBy r"
    using proper by simp
  have eq: "?st' = st\<lparr>grants := (grants st)(?k \<mapsto> ?r'), attempts := (attempts st)(aid \<mapsto> ?x')\<rparr>"
    unfolding complete_attempt_def approval k aid cons by simp
  have gl: "map_later grant_kept (grants st) ((grants st)(?k \<mapsto> ?r'))"
    by (rule map_later_upd) (use r R fl in \<open>auto simp: grant_kept_def\<close>)
  have al: "map_later attempt_kept (attempts st) ((attempts st)(aid \<mapsto> ?x'))"
    by (rule map_later_upd) (use x in \<open>auto simp: attempt_kept_def\<close>)
  have "state_inv ?st'"
  proof (rule state_inv_intro [OF inv])
    show "grant_ok ?st' k q" if q: "grants ?st' k = Some q" for k q
    proof (cases "k = ?k")
      case True
      then have "q = ?r'" using q unfolding eq by simp
      with True R ne show ?thesis unfolding eq grant_ok_def by (auto simp: proper_refs_def)
    next
      case False
      then have kq: "grants st k = Some q" using q unfolding eq by simp
      have "inFlightBy q \<noteq> Some aid"
        using state_invD(1) [OF inv kq] x(1) False unfolding grant_ok_def by auto
      then show ?thesis by (intro grant_ok_later [OF state_invD(1) [OF inv kq]]) (auto simp: eq)
    qed
    show "attempt_ok ?st' k y" if y: "attempts ?st' k = Some y" for k y
    proof (cases "k = aid")
      case True
      then have "y = ?x'" using y unfolding eq by simp
      with True X out show ?thesis unfolding attempt_ok_def by simp
    next
      case False
      then have ky: "attempts st k = Some y" using y unfolding eq by simp
      show ?thesis
      proof (rule attempt_ok_later [OF state_invD(2) [OF inv ky]])
        fix q assume q: "grants st (grantId (attempt y)) = Some q" "inFlightBy q = Some k"
        then have "grantId (attempt y) \<noteq> ?k" using r fl False by (auto simp: aid)
        then show "\<exists>r'. grants ?st' (grantId (attempt y)) = Some r' \<and> inFlightBy r' = Some k"
          using q unfolding eq by simp
      qed
    qed
  qed (use gl al in \<open>simp_all add: eq\<close>)
  then show ?thesis using gl al unfolding eq state_later_def by simp
qed


lemma settle_ok:
  assumes "state_inv st" "settle st h i v att t ac = Some st'"
  shows "state_inv st' \<and> state_later st st'"
  using assms(2) unfolding settle_Some_iff by (elim exE conjE) (simp add: complete_attempt_ok assms(1))

lemma denyReplay_ok: "state_inv st \<Longrightarrow> state_inv (denyReplay st a t g) \<and> state_later st (denyReplay st a t g)"
  by (auto simp: denyReplay_def state_inv_def grant_ok_def attempt_ok_def decision_ok_def state_later_def)

lemma deny_ok:
  assumes inv: "state_inv st" and a: "valid_attempt a" "attempts st (attempt_id a) = None"
  shows "state_inv (deny st a t g reason) \<and> state_later st (deny st a t g reason)" (is "state_inv ?st' \<and> _")
proof -
  have al: "map_later attempt_kept (attempts st) (attempts ?st')"
    unfolding deny_def by (auto simp: approval a(2) intro!: map_later_upd)
  have same: "grants ?st' = grants st" "approvalGrants ?st' = approvalGrants st" "policyEpochs ?st' = policyEpochs st"
    "revocations ?st' = revocations st" "endedSessions ?st' = endedSessions st"
    by (simp_all add: deny_def)
  have "state_inv ?st'"
  proof (rule state_inv_intro [OF inv _ al])
    show "grant_ok ?st' k r" if r: "grants ?st' k = Some r" for k r
    proof -
      have kr: "grants st k = Some r" using r same by simp
      then have "inFlightBy r \<noteq> Some (attempt_id a)"
        using state_invD(1) [OF inv kr] a(2) unfolding grant_ok_def by auto
      then show ?thesis
        by (intro grant_ok_later [OF state_invD(1) [OF inv kr]]) (auto simp: same, simp add: deny_def approval)
    qed
    show "attempt_ok ?st' k y" if y: "attempts ?st' k = Some y" for k y
    proof (cases "k = attempt_id a")
      case True
      then show ?thesis using y a(1) by (auto simp: deny_def approval attempt_ok_def)
    next
      case False
      then have "attempts st k = Some y" using y by (simp add: deny_def approval)
      then show ?thesis by (intro attempt_ok_later [OF state_invD(2) [OF inv]]) (simp_all add: same)
    qed
  qed (simp_all add: same, simp add: deny_def)
  then show ?thesis using al by (simp add: state_later_def same) (simp add: deny_def)
qed

lemma allow_ok:
  assumes inv: "state_inv st" and a: "valid_attempt a" and ok: "allowed st a r t"
  shows "state_inv (allow st a (grant r) t) \<and> state_later st (allow st a (grant r) t)" (is "state_inv ?st' \<and> _")
proof -
  let ?k = "grantId a" and ?i = "attempt_id a"
  let ?r' = "\<lparr>grant = grant r, consumedBy = (if scope (grant r) = S_once then Some ?i else None),
    inFlightBy = Some ?i, uncertainBy = None\<rparr>"
  let ?x' = "\<lparr>attempt = a, attempt_phase = Authorized, authorizedAt = Some t, outcome = None\<rparr>"
  let ?d = "\<lparr>verdict = Allow, decision_reason = None, decided_at = t, decision_attempt = a, decision_grant = Some (grant r)\<rparr>"
  have fresh: "attempts st ?i = None" and r: "grants st ?k = Some r"
    and use: "uncertainBy r = None" "inFlightBy r = None" "scope (grant r) = S_once \<longrightarrow> consumedBy r = None"
      "claims_agree (grant r) a" "issuedAt (grant r) \<le> t" "t < expiresAt (grant r)"
    using ok by (auto simp: allowed_def usable_def)
  note R = state_invD(1) [OF inv r, unfolded grant_ok_def]
  have k: "grant_id (grant r) = ?k" using R by blast
  have ne: "?i \<noteq> []" using a by (auto simp: valid_attempt_def exact_id_def)
  have eq: "?st' = st\<lparr>grants := (grants st)(?k \<mapsto> ?r'), attempts := (attempts st)(?i \<mapsto> ?x'), decisions := decisions st @ [?d]\<rparr>"
    unfolding allow_def approval k by simp
  have consumed: "consumedBy r = None" using R use(3) by blast
  have gl: "map_later grant_kept (grants st) (grants ?st')"
    unfolding eq by (auto simp: grant_kept_def r use(1) consumed intro!: map_later_upd)
  have al: "map_later attempt_kept (attempts st) (attempts ?st')"
    unfolding eq by (auto simp: fresh intro!: map_later_upd)
  have G: "grant_ok ?st' k q" if q: "grants ?st' k = Some q" for k q
  proof (cases "k = ?k")
    case True
    then have "q = ?r'" using q unfolding eq by simp
    with True R ne show ?thesis unfolding eq grant_ok_def by (auto simp: proper_refs_def)
  next
    case False
    then have kq: "grants st k = Some q" using q unfolding eq by simp
    then have "inFlightBy q \<noteq> Some ?i" using state_invD(1) [OF inv kq] fresh unfolding grant_ok_def by auto
    then show ?thesis by (intro grant_ok_later [OF state_invD(1) [OF inv kq]]) (auto simp: eq)
  qed
  have A: "attempt_ok ?st' k y" if y: "attempts ?st' k = Some y" for k y
  proof (cases "k = ?i")
    case True
    then show ?thesis using y a unfolding eq by (auto simp: attempt_ok_def)
  next
    case False
    then have ky: "attempts st k = Some y" using y unfolding eq by simp
    show ?thesis
      by (rule attempt_ok_later [OF state_invD(2) [OF inv ky]]) (use r use(2) in \<open>auto simp: eq\<close>)
  qed
  have "decision_ok ?st' ?d"
    using use unfolding eq decision_ok_def by simp
  moreover have "?i \<notin> (attempt_id \<circ> decision_attempt) ` set (allows st)"
    using state_invD(3) [OF inv] fresh by (force simp: decision_ok_def)
  ultimately have "state_inv ?st'"
    unfolding state_inv_def using G A state_invD(3,4) [OF inv] decision_ok_later [OF _ gl al]
    by (auto simp: eq)
  then show ?thesis using gl al unfolding state_later_def by (simp add: eq)
qed

lemma authorize_attempt_outcomes:
  assumes "state_inv st"
  shows "(\<exists>r. allowed st a r t \<and> authorize_attempt st a t = allow st a (grant r) t) \<or>
    (\<nexists>r. allowed st a r t) \<and>
    (attempts st (attempt_id a) \<noteq> None \<and> (\<exists>g. authorize_attempt st a t = denyReplay st a t g) \<or>
     attempts st (attempt_id a) = None \<and> (\<exists>g reason. authorize_attempt st a t = deny st a t g reason))"
  by (rule authorize_attempt_cases) (use state_invD(1) [OF assms] in \<open>simp add: grant_ok_def\<close>)

lemma authorize_attempt_ok:
  assumes inv: "state_inv st" and a: "valid_attempt a"
  shows "state_inv (authorize_attempt st a t) \<and> state_later st (authorize_attempt st a t)"
proof -
  show ?thesis
    using authorize_attempt_outcomes [OF inv] allow_ok [OF inv a] deny_ok [OF inv a] denyReplay_ok [OF inv] by metis
qed



section \<open>Runs\<close>

text \<open>The evidence of every recorded grant and attempt is registered, under the right phase.\<close>

definition registered :: "ApprovalState \<Rightarrow> authority \<Rightarrow> bool" where
  "registered st au \<longleftrightarrow>
     (\<forall>k r. grants st k = Some r \<longrightarrow> grantEvidence au (ev_ref (evidence (grant r))) = Some (evidence (grant r))) \<and>
     (\<forall>k x. attempts st k = Some x \<longrightarrow> attemptEvidence au (ev_ref (evidence (attempt x))) = Some (evidence (attempt x)))"

text \<open>Where the grants and attempts of a later state come from.\<close>

definition origin :: "ApprovalState \<Rightarrow> ApprovalState \<Rightarrow> CapabilityGrant set \<Rightarrow> CapabilityAttempt set \<Rightarrow> bool" where
  "origin st st' G A \<longleftrightarrow>
     (\<forall>r' \<in> ran (grants st'). (\<exists>r \<in> ran (grants st). grant r' = grant r) \<or> grant r' \<in> G) \<and>
     (\<forall>x' \<in> ran (attempts st'). (\<exists>x \<in> ran (attempts st). attempt x' = attempt x) \<or> attempt x' \<in> A)"

lemma origin_same: "grants st' = grants st \<Longrightarrow> attempts st' = attempts st \<Longrightarrow> origin st st' G A"
  by (auto simp: origin_def)

lemma ran_updD: "y \<in> ran (m(k \<mapsto> x)) \<Longrightarrow> y = x \<or> y \<in> ran m"
  by (auto simp: ran_def split: if_splits)

lemma origin_ops:
  "issue_grant st g = Some st1 \<Longrightarrow> origin st st1 {g} {}"
  "end_session st h v t = Some st1 \<Longrightarrow> origin st st1 {} {}"
  "revoke st i w t = Some st1 \<Longrightarrow> origin st st1 {} {}"
  "advance_policy_epoch st pr ac pj po ep t = Some st1 \<Longrightarrow> origin st st1 {} {}"
proof -
  show "origin st st1 {g} {}" if "issue_grant st g = Some st1"
    using that unfolding issue_grant_Some_iff by (auto simp: origin_def dest!: ran_updD)
  show "origin st st1 {} {}" if "end_session st h v t = Some st1"
    using that by (intro origin_same) (auto simp: end_session_def split: sum.splits option.splits)
  show "origin st st1 {} {}" if "revoke st i w t = Some st1"
    using that by (intro origin_same) (auto simp: revoke_Some_iff)
  show "origin st st1 {} {}" if "advance_policy_epoch st pr ac pj po ep t = Some st1"
    using that by (intro origin_same) (auto simp: advance_policy_epoch_def Let_def split: option.splits if_splits)
qed

lemma origin_settle: "settle st h i v att t ac = Some st1 \<Longrightarrow> origin st st1 {} {}"
  unfolding settle_Some_iff
  by (elim exE conjE) (auto simp: origin_def complete_attempt_def approval dest!: ran_updD intro: ranI)

lemma origin_authorize:
  assumes "state_inv st"
  shows "origin st (authorize_attempt st a t) {} {a}"
proof -
  have "origin st (deny st a t g reason) {} {a}" "origin st (denyReplay st a t g) {} {a}" for g reason
    by (auto simp: origin_def deny_def denyReplay_def approval dest!: ran_updD)
  moreover have "origin st (allow st a (grant r) t) {} {a}" if "allowed st a r t" for r
    using that by (auto simp: origin_def allow_def approval allowed_def dest!: ran_updD intro: ranI)
  ultimately show ?thesis using authorize_attempt_outcomes [OF assms] by metis
qed

lemma registered_step:
  assumes "registered st au" "authority_later au au'" "origin st st' G A"
    "\<And>g. g \<in> G \<Longrightarrow> grantEvidence au' (ev_ref (evidence g)) = Some (evidence g)"
    "\<And>a. a \<in> A \<Longrightarrow> attemptEvidence au' (ev_ref (evidence a)) = Some (evidence a)"
  shows "registered st' au'"
proof -
  have "grantEvidence au' (ev_ref (evidence (grant r'))) = Some (evidence (grant r'))" if r': "r' \<in> ran (grants st')" for r'
  proof (cases "grant r' \<in> G")
    case False
    then obtain r where "r \<in> ran (grants st)" "grant r' = grant r" using assms(3) r' by (auto simp: origin_def)
    then show ?thesis using assms(1) authority_laterD(1) [OF assms(2)] by (auto simp: registered_def ran_def)
  qed (rule assms(4))
  moreover have "attemptEvidence au' (ev_ref (evidence (attempt x'))) = Some (evidence (attempt x'))"
    if x': "x' \<in> ran (attempts st')" for x'
  proof (cases "attempt x' \<in> A")
    case False
    then obtain x where "x \<in> ran (attempts st)" "attempt x' = attempt x" using assms(3) x' by (auto simp: origin_def)
    then show ?thesis using assms(1) authority_laterD(2) [OF assms(2)] by (auto simp: registered_def ran_def)
  qed (rule assms(5))
  ultimately show ?thesis by (auto simp: registered_def intro: ranI)
qed

definition approval_inv :: "ApprovalState \<times> authority \<Rightarrow> bool" where
  "approval_inv s \<longleftrightarrow> state_inv (fst s) \<and> authority_inv (snd s) \<and> registered (fst s) (snd s)"

lemma reduceApprovalAt_ok:
  assumes "approval_inv (st, au)" and red: "reduceApprovalAt st au h act t ac = (res, au')"
  shows "authority_inv au' \<and> authority_later au au' \<and>
    (case res of Some st' \<Rightarrow> state_inv st' \<and> state_later st st' \<and> registered st' au' | None \<Rightarrow> True)"
proof -
  have inv: "state_inv st" "authority_inv au" "registered st au" using assms(1) by (auto simp: approval_inv_def)
  have reg: "registered st' au" if "origin st st' {} {}" for st'
    by (rule registered_step [OF inv(3) authority_later_refl that]) auto
  show ?thesis
  proof (cases act)
    case (Issue v)
    show ?thesis
    proof (cases "createCapabilityGrant au h v")
      case (Inr p)
      obtain g au1 where p: "p = (g, au1)" by force
      note C = createCapabilityGrant_inv [OF inv(2) Inr [unfolded p]] createCapabilityGrant_InrD [OF inv(2) Inr [unfolded p]]
      have "registered st' au1" if "issue_grant st g = Some st'" for st'
        by (rule registered_step [OF inv(3) _ origin_ops(1) [OF that]]) (use C in auto)
      with red C(1,2) issue_grant_ok [OF inv(1)] show ?thesis by (auto simp: Issue Inr p split: option.split)
    qed (use red inv Issue in auto)
  next
    case (Authorize v)
    show ?thesis
    proof (cases "createCapabilityAttempt au h v")
      case (Inr p)
      obtain a au1 where p: "p = (a, au1)" by force
      note C = createCapabilityAttempt_inv [OF inv(2) Inr [unfolded p]] createCapabilityAttempt_InrD [OF inv(2) Inr [unfolded p]]
      have "registered (authorize_attempt st a t) au1"
        by (rule registered_step [OF inv(3) _ origin_authorize [OF inv(1)]]) (use C in auto)
      with red C(1,2) authorize_attempt_ok [OF inv(1)] show ?thesis by (auto simp: Authorize Inr p)
    qed (use red inv Authorize in auto)
  next
    case (End_session v)
    with red inv show ?thesis
      using end_session_ok [OF inv(1)] reg [OF origin_ops(2)] by (auto split: option.split)
  next
    case (Revoke i r)
    with red inv show ?thesis
      using revoke_ok [OF inv(1)] reg [OF origin_ops(3)] by (auto split: option.split)
  next
    case (Advance_policy_epoch pr acc pj po ep)
    with red inv show ?thesis
      using advance_policy_epoch_ok [OF inv(1)] reg [OF origin_ops(4)] by (auto split: option.split)
  next
    case (Settle i out att)
    with red inv show ?thesis
      using settle_ok [OF inv(1)] reg [OF origin_settle] by (auto split: option.split)
  qed
qed


lemma approvalReducer_cases:
  assumes "approvalReducer st au h input clock ac = (st', au')"
  shows "st' = st \<and> au' = au \<or>
    (\<exists>act c t res. decodeApprovalReducerAction h input = Some act \<and> clock = Inr c \<and> validTime c = Some t \<and>
       (\<forall>l. lastObservedAt st = Some l \<longrightarrow> l \<le> t) \<and> reduceApprovalAt st au h act t ac = (res, au') \<and>
       st' = (case res of None \<Rightarrow> st | Some next \<Rightarrow> next\<lparr>lastObservedAt := Some t\<rparr>))"
proof -
  have late: "(case last of Some l \<Rightarrow> t < l | None \<Rightarrow> False) \<longleftrightarrow> \<not> (\<forall>l. last = Some l \<longrightarrow> l \<le> t)" for last and t :: int
    by (auto split: option.split)
  show ?thesis
    using assms unfolding approvalReducer_def late
    by (auto split: option.splits sum.splits if_splits prod.splits)
qed

lemma approvalReducer_Reduce:
  assumes "decodeApprovalReducerAction h input = Some act" "validTime c = Some t"
    "\<forall>l. lastObservedAt st = Some l \<longrightarrow> l \<le> t" "reduceApprovalAt st au h act t ac = (res, au')"
  shows "approvalReducer st au h input (Inr c) ac = (case res of None \<Rightarrow> st | Some next \<Rightarrow> next\<lparr>lastObservedAt := Some t\<rparr>, au')"
  using assms unfolding approvalReducer_def by (auto split: option.split)

definition clock_le :: "int option \<Rightarrow> int option \<Rightarrow> bool" where
  "clock_le a b \<longleftrightarrow> (\<forall>l. a = Some l \<longrightarrow> (\<exists>m. b = Some m \<and> l \<le> m))"

definition approval_later :: "ApprovalState \<times> authority \<Rightarrow> ApprovalState \<times> authority \<Rightarrow> bool" where
  "approval_later s s' \<longleftrightarrow>
     state_later (fst s) (fst s') \<and> authority_later (snd s) (snd s') \<and>
     clock_le (lastObservedAt (fst s)) (lastObservedAt (fst s'))"

lemma observed_simps [simp]:
  "state_inv (st\<lparr>lastObservedAt := x\<rparr>) = state_inv st" "registered (st\<lparr>lastObservedAt := x\<rparr>) au = registered st au"
  "state_later st (st'\<lparr>lastObservedAt := x\<rparr>) = state_later st st'"
  by (simp_all add: state_inv_def registered_def state_later_def grant_ok_def attempt_ok_def decision_ok_def)

lemma registered_later: "registered st au \<Longrightarrow> authority_later au au' \<Longrightarrow> registered st au'"
  by (auto simp: registered_def intro: authority_laterD)

lemma approval_step_ok:
  assumes "approval_inv s"
  shows "approval_inv (approval_step s ev) \<and> approval_later s (approval_step s ev)"
proof -
  obtain st au where s: "s = (st, au)" by force
  have inv: "state_inv st" "authority_inv au" "registered st au" using assms by (auto simp: approval_inv_def s)
  show ?thesis
  proof (cases ev)
    case (Registry e)
    then show ?thesis
      using authority_step_ok [OF inv(2)] inv registered_later [OF inv(3)]
      by (auto simp: s approval_inv_def approval_later_def clock_le_def)
  next
    case (Reduce h input clock ac)
    obtain st' au' where r: "approvalReducer st au h input clock ac = (st', au')" by force
    then show ?thesis using approvalReducer_cases [OF r]
    proof (elim disjE exE conjE)
      fix act c t res
      assume *: "reduceApprovalAt st au h act t ac = (res, au')" "\<forall>l. lastObservedAt st = Some l \<longrightarrow> l \<le> t"
        "st' = (case res of None \<Rightarrow> st | Some next \<Rightarrow> next\<lparr>lastObservedAt := Some t\<rparr>)"
      show ?thesis
        using reduceApprovalAt_ok [OF assms [unfolded s] *(1)] *(2,3) inv registered_later [OF inv(3)]
        by (cases res) (auto simp: s Reduce r approval_inv_def approval_later_def clock_le_def)
    qed (use assms in \<open>auto simp: s Reduce approval_later_def clock_le_def\<close>)
  qed
qed

lemma approval_init_inv: "approval_inv (createApprovalState, new_authority defs)"
  by (simp add: approval_inv_def state_inv_def registered_def createApprovalState_def new_authority_inv)

lemma approval_later_trans: "approval_later s s' \<Longrightarrow> approval_later s' s'' \<Longrightarrow> approval_later s s''"
  unfolding approval_later_def clock_le_def
  using state_later_trans authority_later_trans by (metis order_trans)

interpretation approvals: monotone_system "(createApprovalState, new_authority defs)" approval_step approval_inv approval_later for defs
  by unfold_locales
    (auto simp: approval_init_inv approval_step_ok approval_later_def [of s s for s] clock_le_def intro: approval_later_trans)

text \<open>Only \<open>authorize\<close> decides.\<close>

lemma decisions_kept:
  "issue_grant st g = Some st1 \<Longrightarrow> decisions st1 = decisions st"
  "end_session st h v t = Some st1 \<Longrightarrow> decisions st1 = decisions st"
  "revoke st i w t = Some st1 \<Longrightarrow> decisions st1 = decisions st"
  "advance_policy_epoch st pr acc pj po ep t = Some st1 \<Longrightarrow> decisions st1 = decisions st"
  "settle st h i v att t ac = Some st1 \<Longrightarrow> decisions st1 = decisions st"
proof -
  show "issue_grant st g = Some st1 \<Longrightarrow> decisions st1 = decisions st" by (simp add: issue_grant_Some_iff)
  show "end_session st h v t = Some st1 \<Longrightarrow> decisions st1 = decisions st"
    by (auto simp: end_session_def split: sum.splits option.splits)
  show "revoke st i w t = Some st1 \<Longrightarrow> decisions st1 = decisions st" by (auto simp: revoke_Some_iff)
  show "advance_policy_epoch st pr acc pj po ep t = Some st1 \<Longrightarrow> decisions st1 = decisions st"
    by (auto simp: advance_policy_epoch_def Let_def split: option.splits if_splits)
  show "settle st h i v att t ac = Some st1 \<Longrightarrow> decisions st1 = decisions st"
    unfolding settle_Some_iff by (elim exE conjE) (simp add: complete_attempt_def)
qed

lemma reduceApprovalAt_allows:
  assumes inv: "state_inv st" and red: "reduceApprovalAt st au h act t ac = (Some st', au')"
  shows "allows st' = allows st \<and> (\<nexists>v a r. act = Authorize v \<and> createCapabilityAttempt au h v = Inr (a, au') \<and> allowed st a r t) \<or>
    (\<exists>v a r. act = Authorize v \<and> createCapabilityAttempt au h v = Inr (a, au') \<and> allowed st a r t \<and>
       allows st' = allows st @ [\<lparr>verdict = Allow, decision_reason = None, decided_at = t,
         decision_attempt = a, decision_grant = Some (grant r)\<rparr>])"
proof (cases "\<exists>v. act = Authorize v")
  case True
  then obtain v where act: "act = Authorize v" by blast
  obtain a where a: "createCapabilityAttempt au h v = Inr (a, au')" "st' = authorize_attempt st a t"
    using red by (auto simp: act split: sum.splits)
  from authorize_attempt_outcomes [OF inv, of a t] show ?thesis
  proof (elim disjE exE conjE)
    fix r assume "allowed st a r t" "authorize_attempt st a t = allow st a (grant r) t"
    then show ?thesis using a act by (intro disjI2) (auto simp: allow_def)
  qed (use a act in \<open>auto simp: deny_def denyReplay_def\<close>)
next
  case False
  then show ?thesis using red decisions_kept by (cases act) (auto split: sum.splits)
qed



section \<open>Lost authority\<close>

text \<open>The ways in which a grant can no longer be used.\<close>

definition spent :: "ApprovalState \<Rightarrow> jsstr \<Rightarrow> bool" where
  "spent st k \<longleftrightarrow>
     revocations st k \<noteq> None \<or>
     (\<exists>r. grants st k = Some r \<and>
        (uncertainBy r \<noteq> None \<or>
         scope (grant r) = S_once \<and> consumedBy r \<noteq> None \<or>
         scope (grant r) \<noteq> S_persistent \<and> endedSessions st (sessionKey (binding (grant r))) \<noteq> None \<or>
         \<not> current_policy st (grant r) \<or>
         (\<exists>l. lastObservedAt st = Some l \<and> expiresAt (grant r) \<le> l)))"

lemma current_policy_lost:
  assumes "grant_ok st k r" "\<not> current_policy st (grant r)" "map_later epoch_kept (policyEpochs st) (policyEpochs st')"
  shows "\<not> current_policy st' (grant r)"
proof -
  obtain e where e: "policyEpochs st (policyKey (binding (grant r))) = Some e" "epoch (binding (grant r)) \<le> current_epoch e"
    using assms(1) by (auto simp: grant_ok_def)
  obtain e' where "policyEpochs st' (policyKey (binding (grant r))) = Some e'" "epoch_kept e e'"
    using map_laterD [OF assms(3) e(1)] by blast
  then show ?thesis using e assms(2) by (auto simp: current_policy_def epoch_kept_def)
qed

lemma spent_later:
  assumes inv: "approval_inv s" and later: "approval_later s s'" and spent: "spent (fst s) k"
  shows "spent (fst s') k"
proof (cases "revocations (fst s) k = None")
  case False
  then have "revocations (fst s') k \<noteq> None"
    using later by (auto simp: approval_later_def state_later_def dest: map_le_lookup)
  then show ?thesis by (simp add: spent_def)
next
  case True
  have L: "map_later grant_kept (grants (fst s)) (grants (fst s'))"
    "map_later epoch_kept (policyEpochs (fst s)) (policyEpochs (fst s'))"
    "dom (endedSessions (fst s)) \<subseteq> dom (endedSessions (fst s'))" "clock_le (lastObservedAt (fst s)) (lastObservedAt (fst s'))"
    using later by (auto simp: approval_later_def state_later_def)
  obtain r where r: "grants (fst s) k = Some r" and why: "uncertainBy r \<noteq> None \<or>
      scope (grant r) = S_once \<and> consumedBy r \<noteq> None \<or>
      scope (grant r) \<noteq> S_persistent \<and> endedSessions (fst s) (sessionKey (binding (grant r))) \<noteq> None \<or>
      \<not> current_policy (fst s) (grant r) \<or> (\<exists>l. lastObservedAt (fst s) = Some l \<and> expiresAt (grant r) \<le> l)"
    using spent True by (auto simp: spent_def)
  have ok: "grant_ok (fst s) k r" using inv r by (auto simp: approval_inv_def state_inv_def)
  obtain r' where r': "grants (fst s') k = Some r'" "grant_kept r r'" using map_laterD [OF L(1) r] by blast
  have "uncertainBy r' \<noteq> None \<or>
      scope (grant r) = S_once \<and> consumedBy r' \<noteq> None \<or>
      scope (grant r) \<noteq> S_persistent \<and> endedSessions (fst s') (sessionKey (binding (grant r))) \<noteq> None \<or>
      \<not> current_policy (fst s') (grant r) \<or> (\<exists>l. lastObservedAt (fst s') = Some l \<and> expiresAt (grant r) \<le> l)"
    using why
  proof (elim disjE)
    assume "\<exists>l. lastObservedAt (fst s) = Some l \<and> expiresAt (grant r) \<le> l"
    then have "\<exists>l. lastObservedAt (fst s') = Some l \<and> expiresAt (grant r) \<le> l"
      using L(4) unfolding clock_le_def by force
    then show ?thesis by blast
  qed (use r' L(3) current_policy_lost [OF ok _ L(2)] in \<open>auto simp: grant_kept_def\<close>)
  moreover have "grant r' = grant r" using r'(2) by (simp add: grant_kept_def)
  ultimately show ?thesis unfolding spent_def using r'(1) by metis
qed

lemma allowed_not_spent:
  assumes "state_inv st" "allowed st a r t" "\<forall>l. lastObservedAt st = Some l \<longrightarrow> l \<le> t"
  shows "\<not> spent st (grantId a)"
  using assms(2,3) by (fastforce simp: spent_def allowed_def usable_def)

abbreviation allows_of :: "jsstr \<Rightarrow> ApprovalState \<Rightarrow> ApprovalDecision list" where
  "allows_of k st \<equiv> filter (\<lambda>d. grantId (decision_attempt d) = k) (allows st)"

lemma approval_step_allows_spent:
  assumes inv: "approval_inv s" and spent: "spent (fst s) k"
  shows "allows_of k (fst (approval_step s ev)) = allows_of k (fst s)"
proof -
  obtain st au where s: "s = (st, au)" by force
  have st: "state_inv st" using inv by (simp add: approval_inv_def s)
  show ?thesis
  proof (cases ev)
    case (Reduce h input clock ac)
    obtain st' au' where r: "approvalReducer st au h input clock ac = (st', au')" by force
    from approvalReducer_cases [OF r] show ?thesis
    proof (elim disjE exE conjE)
      fix act c t res
      assume *: "reduceApprovalAt st au h act t ac = (res, au')" "\<forall>l. lastObservedAt st = Some l \<longrightarrow> l \<le> t"
        "st' = (case res of None \<Rightarrow> st | Some next \<Rightarrow> next\<lparr>lastObservedAt := Some t\<rparr>)"
      show ?thesis
      proof (cases res)
        case (Some st1)
        have "allows_of k st1 = allows_of k st"
          using reduceApprovalAt_allows [OF st *(1) [unfolded Some]] allowed_not_spent [OF st _ *(2)] spent
          by (auto simp: s simp del: filter_filter)
        then show ?thesis by (simp add: s Reduce r *(3) Some del: filter_filter)
      qed (simp add: s Reduce r *(3))
    qed (simp add: s Reduce r)
  qed (simp add: s)
qed

lemma run_allows_spent:
  "approval_inv s \<Longrightarrow> spent (fst s) k \<Longrightarrow> allows_of k (fst (foldl approval_step s evs)) = allows_of k (fst s)"
proof (induction evs arbitrary: s)
  case (Cons ev evs)
  have "approval_inv (approval_step s ev)" "spent (fst (approval_step s ev)) k"
    using Cons.prems approval_step_ok spent_later by blast+
  then show ?case using Cons.IH approval_step_allows_spent [OF Cons.prems] by simp
qed simp



section \<open>Demonstration\<close>

text \<open>The run that registers evidence, issues the demonstration grant at time 12 and presents the attempt at time 15.\<close>

definition demo_verifier :: completion_verifier where
  "demo_verifier c h v = Inr v"

definition demo_issue :: approval_event where
  "demo_issue = Reduce demo_heap (Ref [14]) (Inr (Prim (PNum (num_int 12)))) demo_verifier"

definition demo_present :: approval_event where
  "demo_present = Reduce demo_heap (Ref [15]) (Inr (Prim (PNum (num_int 15)))) demo_verifier"

definition demo_settle_heap :: heap where
  "demo_settle_heap = (\<lambda>_. plain_obj [(''type'', jstr ''settle''), (''attemptId'', jstr ''t''),
     (''outcome'', jstr ''succeeded''), (''attestation'', Prim (PBool True))])"

definition demo_settle :: approval_event where
  "demo_settle = Reduce demo_settle_heap (Ref []) (Inr (Prim (PNum (num_int 17)))) demo_verifier"

definition demo_registered :: "ApprovalState \<times> authority" where
  "demo_registered = foldl approval_step (createApprovalState, new_authority demo_defs)
     [Registry (Mint Grant_Phase demo_heap demo_input), Registry (Mint Attempt_Phase demo_heap demo_input)]"

definition demo_issued :: "ApprovalState \<times> authority" where
  "demo_issued = approval_step demo_registered demo_issue"

definition demo_allowed :: "ApprovalState \<times> authority" where
  "demo_allowed = approval_step demo_issued demo_present"

lemma demo_registered_eq: "demo_registered = (createApprovalState, demo_authority)"
  by (simp add: demo_registered_def demo_authority_def)

lemma demo_reachable_registered: "reachable (createApprovalState, new_authority demo_defs) approval_step demo_registered"
  unfolding demo_registered_def by (rule reachable_foldl)

lemma demo_reachable_issued: "reachable (createApprovalState, new_authority demo_defs) approval_step demo_issued"
  unfolding demo_issued_def by (rule reachable_step [OF demo_reachable_registered])

lemma demo_reachable_allowed: "reachable (createApprovalState, new_authority demo_defs) approval_step demo_allowed"
  unfolding demo_allowed_def by (rule reachable_step [OF demo_reachable_issued])

lemma demo_decode:
  "decodeApprovalReducerAction demo_heap (Ref [14]) = Some (Issue (Ref [9]))"
  "decodeApprovalReducerAction demo_heap (Ref [15]) = Some (Authorize (Ref [10]))"
  by (simp_all add: decodeApprovalReducerAction_def decode_envelope_def demo_lookups)

lemma demo_times [simp]: "timestamp 12" "timestamp 15" "timestamp 17"
  by (simp_all add: timestamp_def MAX_SAFE_INTEGER_def)

lemma validTime_int: "timestamp i \<Longrightarrow> validTime (Prim (PNum (num_int i))) = Some i"
  by (simp add: validTime_def safe_nonneg_Some_iff)

abbreviation demo_record :: GrantRecord where
  "demo_record \<equiv> \<lparr>grant = demo_grant, consumedBy = None, inFlightBy = None, uncertainBy = None\<rparr>"

definition demo_issued_state :: ApprovalState where
  "demo_issued_state = createApprovalState\<lparr>grants := [js ''g'' \<mapsto> demo_record], approvalGrants := [js ''ok'' \<mapsto> js ''g''],
     policyEpochs := [policyKey demo_binding \<mapsto> \<lparr>current_epoch = 0, effectiveAt = 10\<rparr>], lastObservedAt := Some 12\<rparr>"

lemma demo_grant_fields:
  "grant_id demo_grant = js ''g''" "approvalId demo_grant = js ''ok''" "issuedAt demo_grant = 10" "expiresAt demo_grant = 20"
  "scope demo_grant = S_once" "binding demo_grant = demo_binding" "evidence demo_grant = demo_evidence Grant_Phase 0"
  "attempt_id demo_attempt = js ''t''" "grantId demo_attempt = js ''g''" "evidence demo_attempt = demo_evidence Attempt_Phase 1"
  "epoch demo_binding = 0"
  by (simp_all add: demo_grant_def demo_attempt_def demo_claim_def demo_binding_def claim_record_defs)

lemma demo_issued_eq:
  "demo_issued = (demo_issued_state, demo_authority\<lparr>grantClaims := [[0] \<mapsto> json_key (grant_fields demo_grant)]\<rparr>)"
proof -
  have "issue_grant createApprovalState demo_grant = Some (demo_issued_state\<lparr>lastObservedAt := None\<rparr>)"
    by (simp add: issue_grant_Some_iff createApprovalState_def demo_issued_state_def demo_grant_fields)
  then have "reduceApprovalAt createApprovalState demo_authority demo_heap (Issue (Ref [9])) 12 demo_verifier =
      (Some (demo_issued_state\<lparr>lastObservedAt := None\<rparr>), demo_authority\<lparr>grantClaims := [[0] \<mapsto> json_key (grant_fields demo_grant)]\<rparr>)"
    by (simp add: demo_grant_ok)
  from approvalReducer_Reduce [OF demo_decode(1) validTime_int [of 12] _ this] show ?thesis
    by (simp add: demo_issued_def demo_registered_eq demo_issue_def createApprovalState_def demo_issued_state_def)
qed

lemma demo_agree: "claims_agree demo_grant demo_attempt"
  by (simp add: claims_agree_def same_evidence_def demo_grant_def demo_attempt_def demo_claim_def demo_evidence_def claim_record_defs)

lemma demo_allowed_ok: "allowed demo_issued_state demo_attempt demo_record 15"
  by (simp add: allowed_def usable_def current_policy_def demo_issued_state_def createApprovalState_def demo_agree demo_grant_fields)

lemma demo_attempt_issued:
  "createCapabilityAttempt (demo_authority\<lparr>grantClaims := [[0] \<mapsto> json_key (grant_fields demo_grant)]\<rparr>) demo_heap (Ref [10]) =
     Inr (demo_attempt, demo_authority\<lparr>grantClaims := [[0] \<mapsto> json_key (grant_fields demo_grant)],
       attemptClaims := [[1] \<mapsto> json_key (attempt_fields demo_attempt)]\<rparr>)"
proof -
  have "authority_inv (demo_authority\<lparr>grantClaims := [[0] \<mapsto> json_key (grant_fields demo_grant)]\<rparr>)"
    using createCapabilityGrant_inv [OF demo_inv demo_grant_ok] by blast
  then show ?thesis
    by (simp add: createCapabilityAttempt_Inr_iff demo_reads demo_valid demo_grant_fields)
      (simp add: demo_authority_eq demo_adapters empty_authority_def demo_evidence_def)
qed

lemma demo_allowed_eq:
  "demo_allowed = ((allow demo_issued_state demo_attempt demo_grant 15)\<lparr>lastObservedAt := Some 15\<rparr>,
     demo_authority\<lparr>grantClaims := [[0] \<mapsto> json_key (grant_fields demo_grant)],
       attemptClaims := [[1] \<mapsto> json_key (attempt_fields demo_attempt)]\<rparr>)"
proof -
  have "state_inv demo_issued_state"
    using approvals.reachable_inv [OF demo_reachable_issued] by (simp add: approval_inv_def demo_issued_eq)
  from authorize_attempt_outcomes [OF this, of demo_attempt 15]
  have "authorize_attempt demo_issued_state demo_attempt 15 = allow demo_issued_state demo_attempt demo_grant 15"
    using demo_allowed_ok by (auto simp: allowed_def)
  then have "reduceApprovalAt demo_issued_state (snd demo_issued) demo_heap (Authorize (Ref [10])) 15 demo_verifier =
      (Some (allow demo_issued_state demo_attempt demo_grant 15),
       demo_authority\<lparr>grantClaims := [[0] \<mapsto> json_key (grant_fields demo_grant)],
         attemptClaims := [[1] \<mapsto> json_key (attempt_fields demo_attempt)]\<rparr>)"
    by (simp add: demo_issued_eq demo_attempt_issued)
  from approvalReducer_Reduce [OF demo_decode(2) validTime_int [of 15] _ this] show ?thesis
    by (simp add: demo_allowed_def demo_issued_eq demo_present_def demo_issued_state_def)
qed



section \<open>Properties\<close>

lemma in_flight_unique:
  assumes "state_inv st" "attempts st i = Some x" "attempts st j = Some y" "attempt_phase x = Authorized"
    "attempt_phase y = Authorized" "grantId (attempt x) = grantId (attempt y)"
  shows "i = j"
proof -
  obtain r q where "grants st (grantId (attempt x)) = Some r" "inFlightBy r = Some i"
    "grants st (grantId (attempt y)) = Some q" "inFlightBy q = Some j"
    using assms(4,5) state_invD(2) [OF assms(1,2)] state_invD(2) [OF assms(1,3)] unfolding attempt_ok_def by blast
  then show ?thesis using assms(6) by simp
qed

lemma distinct_constant_key: "distinct (map f xs) \<Longrightarrow> (\<And>x. x \<in> set xs \<Longrightarrow> f x = c) \<Longrightarrow> length xs \<le> 1"
  by (cases xs rule: remdups_adj.cases) auto

text \<open>
  When an attempt is due to be allowed, in terms of the call alone: the input decodes to an \<open>authorize\<close>, the clock reads a valid time \<open>t\<close> that
  does not go back, and the verifier accepts the attempt \<open>a\<close>, which is allowed under the grant of the record \<open>r\<close>.
\<close>

definition due :: "ApprovalState \<Rightarrow> authority \<Rightarrow> heap \<Rightarrow> jsval \<Rightarrow> js_error + jsval \<Rightarrow> CapabilityAttempt \<Rightarrow> GrantRecord \<Rightarrow> int \<Rightarrow> bool" where
  "due st au h input clock a r t \<longleftrightarrow>
     (\<exists>v c au'. decodeApprovalReducerAction h input = Some (Authorize v) \<and> clock = Inr c \<and> validTime c = Some t \<and>
        (\<forall>l. lastObservedAt st = Some l \<longrightarrow> l \<le> t) \<and> createCapabilityAttempt au h v = Inr (a, au') \<and> allowed st a r t)"

lemma due_allows:
  assumes "state_inv st" "due st au h input clock a r t"
  shows "allows (fst (approvalReducer st au h input clock ac)) = allows st @ [\<lparr>verdict = Allow, decision_reason = None, decided_at = t,
    decision_attempt = a, decision_grant = Some (grant r)\<rparr>]"
proof -
  obtain v c au' where d: "decodeApprovalReducerAction h input = Some (Authorize v)" "clock = Inr c" "validTime c = Some t"
    "\<forall>l. lastObservedAt st = Some l \<longrightarrow> l \<le> t" "createCapabilityAttempt au h v = Inr (a, au')" "allowed st a r t"
    using assms(2) by (auto simp: due_def)
  have red: "reduceApprovalAt st au h (Authorize v) t ac = (Some (authorize_attempt st a t), au')" by (simp add: d(5))
  have "allows (authorize_attempt st a t) = allows st @ [\<lparr>verdict = Allow, decision_reason = None, decided_at = t,
    decision_attempt = a, decision_grant = Some (grant r)\<rparr>]"
    using reduceApprovalAt_allows [OF assms(1) red] d(5,6) by (auto simp: allowed_def)
  then show ?thesis using approvalReducer_Reduce [OF d(1,3,4) red] by (simp add: d(2))
qed

text \<open>
  C1: the reducer allows an attempt exactly when one is due: the input decodes to an \<open>authorize\<close>, the clock reads a valid
  time that does not go back, the verifier accepts the attempt, and the attempt is new, its grant is
  known, unrevoked, of the same claim and arguments digest, not uncertain, not in flight, not
  used up, of the current policy epoch, within its time window and of a session not ended (unless persistent). An attempt that is due is allowed, by
  one decision that records that attempt, grant and time; without one the allowing decisions stay as they are.
\<close>

theorem authorization_exact:
  assumes "reachable (createApprovalState, new_authority defs) approval_step (st, au)"
    and "approvalReducer st au h input clock ac = (st', au')"
  shows "(\<forall>a r t. due st au h input clock a r t \<longrightarrow>
        allows st' = allows st @ [\<lparr>verdict = Allow, decision_reason = None, decided_at = t,
          decision_attempt = a, decision_grant = Some (grant r)\<rparr>]) \<and>
    ((\<nexists>a r t. due st au h input clock a r t) \<longrightarrow> allows st' = allows st)"
proof (intro conjI allI impI)
  have inv: "state_inv st" using approvals.reachable_inv [OF assms(1)] by (simp add: approval_inv_def)
  show "allows st' = allows st @ [\<lparr>verdict = Allow, decision_reason = None, decided_at = t,
      decision_attempt = a, decision_grant = Some (grant r)\<rparr>]" if "due st au h input clock a r t" for a r t
    using due_allows [OF inv that, of ac] by (simp add: assms(2))
  assume none: "\<nexists>a r t. due st au h input clock a r t"
  show "allows st' = allows st"
  proof (rule ccontr)
    assume new: "allows st' \<noteq> allows st"
    then obtain act c t st1 where r: "decodeApprovalReducerAction h input = Some act" "clock = Inr c" "validTime c = Some t"
      "\<forall>l. lastObservedAt st = Some l \<longrightarrow> l \<le> t" "reduceApprovalAt st au h act t ac = (Some st1, au')" "allows st' = allows st1"
      using approvalReducer_cases [OF assms(2)] by (auto split: option.splits)
    with reduceApprovalAt_allows [OF inv r(5)] new have "\<exists>a r. due st au h input clock a r t" by (auto simp: due_def)
    with none show False by blast
  qed
qed

theorem authorization_exact_witness:
  "allows (fst demo_allowed) = [\<lparr>verdict = Allow, decision_reason = None, decided_at = 15,
      decision_attempt = demo_attempt, decision_grant = Some demo_grant\<rparr>] \<and>
   (\<exists>a r t. due (fst demo_issued) (snd demo_issued) demo_heap (Ref [15]) (Inr (Prim (PNum (num_int 15)))) a r t)"
proof -
  have one: "allows (fst demo_allowed) = [\<lparr>verdict = Allow, decision_reason = None, decided_at = 15,
      decision_attempt = demo_attempt, decision_grant = Some demo_grant\<rparr>]" "allows (fst demo_issued) = []"
    by (simp_all add: demo_allowed_eq demo_issued_eq allow_def demo_issued_state_def createApprovalState_def)
  have "approvalReducer (fst demo_issued) (snd demo_issued) demo_heap (Ref [15]) (Inr (Prim (PNum (num_int 15)))) demo_verifier =
      (fst demo_allowed, snd demo_allowed)"
    by (simp add: demo_allowed_def demo_issued_eq demo_present_def)
  from authorization_exact [OF _ this, of demo_defs] demo_reachable_issued one show ?thesis by auto
qed

text \<open>
  C2: in every reachable state an attempt in flight is the one its grant names, so a grant has
  at most one attempt in flight; no attempt is allowed twice; a grant for one use is allowed once; and every
  allowing decision is borne out by the recorded attempt, its grant's equal claim and its time window.
\<close>

theorem approval_states_consistent:
  assumes "reachable (createApprovalState, new_authority defs) approval_step (st, au)"
  shows "(\<forall>i j x y. attempts st i = Some x \<and> attempts st j = Some y \<and> attempt_phase x = Authorized \<and>
        attempt_phase y = Authorized \<and> grantId (attempt x) = grantId (attempt y) \<longrightarrow> i = j) \<and>
    distinct (map (attempt_id \<circ> decision_attempt) (allows st)) \<and>
    (\<forall>d \<in> set (allows st). decision_ok st d) \<and>
    (\<forall>k r. grants st k = Some r \<and> scope (grant r) = S_once \<longrightarrow> length (allows_of k st) \<le> 1)"
proof (intro conjI allI impI)
  have inv: "state_inv st" using approvals.reachable_inv [OF assms] by (simp add: approval_inv_def)
  show "distinct (map (attempt_id \<circ> decision_attempt) (allows st))" "\<forall>d \<in> set (allows st). decision_ok st d"
    using state_invD [OF inv] by auto
  fix i j x y
  assume "attempts st i = Some x \<and> attempts st j = Some y \<and> attempt_phase x = Authorized \<and>
    attempt_phase y = Authorized \<and> grantId (attempt x) = grantId (attempt y)"
  then show "i = j" using in_flight_unique [OF inv, of i x j y] by blast
next
  fix k r
  assume r: "grants st k = Some r \<and> scope (grant r) = S_once"
  have inv: "state_inv st" using approvals.reachable_inv [OF assms] by (simp add: approval_inv_def)
  have same: "consumedBy r = Some (attempt_id (decision_attempt d))" if "d \<in> set (allows_of k st)" for d
    using state_invD(3) [OF inv, of d] that r unfolding decision_ok_def by auto
  have "distinct (map (attempt_id \<circ> decision_attempt) (allows_of k st))"
    using distinct_map_filter_key [OF state_invD(4) [OF inv]] by blast
  then show "length (allows_of k st) \<le> 1"
    by (rule distinct_constant_key [where c = "the (consumedBy r)"]) (use same in \<open>simp only: o_apply option.sel\<close>)
qed

theorem approval_states_consistent_witness:
  "length (allows_of (js ''g'') (fst demo_allowed)) \<le> 1 \<and> allows_of (js ''g'') (fst demo_allowed) \<noteq> []"
proof -
  have "grants (fst demo_allowed) (js ''g'') = Some \<lparr>grant = demo_grant, consumedBy = Some (js ''t''),
      inFlightBy = Some (js ''t''), uncertainBy = None\<rparr>"
    by (simp add: demo_allowed_eq allow_def approval demo_grant_fields)
  with approval_states_consistent [of demo_defs "fst demo_allowed" "snd demo_allowed"] demo_reachable_allowed
  have "length (allows_of (js ''g'') (fst demo_allowed)) \<le> 1" by (simp add: demo_grant_fields)
  moreover have "allows_of (js ''g'') (fst demo_allowed) \<noteq> []"
    by (simp add: demo_allowed_eq allow_def demo_grant_fields)
  ultimately show ?thesis by blast
qed

text \<open>
  History only grows. Whatever a run receives, grants keep their content, their use and their uncertainty,
  finished attempts never change, decisions are only appended, revocations and
  ended sessions stay, policy epochs and the observed time never go back, and the registry keeps its evidence and claims.
\<close>

theorem approval_history_grows:
  assumes "reachable (createApprovalState, new_authority defs) approval_step s"
  shows "approval_later s (foldl approval_step s evs)"
  using approvals.foldl_later [OF approvals.reachable_inv [OF assms]] .

theorem approval_history_grows_witness:
  "approval_later demo_issued demo_allowed \<and>
   lastObservedAt (fst demo_issued) = Some 12 \<and> lastObservedAt (fst demo_allowed) = Some 15"
proof -
  have "approval_later demo_issued demo_allowed"
    using approval_history_grows [OF demo_reachable_issued, of "[demo_present]"] by (simp add: demo_allowed_def)
  then show ?thesis by (simp add: demo_issued_eq demo_allowed_eq demo_issued_state_def)
qed

text \<open>
  C14: lost authority is lost for good. Once a grant is revoked, left with an uncertain outcome, used up, of an ended session (unless it is persistent), of a
  stale policy epoch, or past its expiry by the observed time, no continuation of the run allows it again.
\<close>

theorem lost_authority_stays_lost:
  assumes "reachable (createApprovalState, new_authority defs) approval_step s" and "spent (fst s) k"
  shows "allows_of k (fst (foldl approval_step s evs)) = allows_of k (fst s)"
  using run_allows_spent [OF approvals.reachable_inv [OF assms(1)] assms(2)] .

theorem lost_authority_stays_lost_witness:
  "allows_of (js ''g'') (fst (foldl approval_step demo_allowed [demo_settle, demo_present])) =
   allows_of (js ''g'') (fst demo_allowed) \<and> spent (fst demo_allowed) (js ''g'')"
proof -
  have "spent (fst demo_allowed) (js ''g'')"
    by (simp add: spent_def demo_allowed_eq allow_def approval demo_grant_fields)
  then show ?thesis using lost_authority_stays_lost [OF demo_reachable_allowed] by blast
qed

lemma attempts_kept:
  "issue_grant st g = Some st1 \<Longrightarrow> attempts st1 = attempts st"
  "end_session st h v t = Some st1 \<Longrightarrow> attempts st1 = attempts st"
  "revoke st i w t = Some st1 \<Longrightarrow> attempts st1 = attempts st"
  "advance_policy_epoch st pr acc pj po ep t = Some st1 \<Longrightarrow> attempts st1 = attempts st"
proof -
  show "issue_grant st g = Some st1 \<Longrightarrow> attempts st1 = attempts st" by (simp add: issue_grant_Some_iff)
  show "end_session st h v t = Some st1 \<Longrightarrow> attempts st1 = attempts st"
    by (auto simp: end_session_def split: sum.splits option.splits)
  show "revoke st i w t = Some st1 \<Longrightarrow> attempts st1 = attempts st" by (auto simp: revoke_Some_iff)
  show "advance_policy_epoch st pr acc pj po ep t = Some st1 \<Longrightarrow> attempts st1 = attempts st"
    by (auto simp: advance_policy_epoch_def Let_def split: option.splits if_splits)
qed


lemma authorized_kept:
  assumes inv: "state_inv st" and x: "attempts st k = Some x" "attempt_phase x = Authorized"
    and red: "reduceApprovalAt st au h act t ac = (Some st', au')" and new: "attempts st' k \<noteq> Some x"
  shows "\<exists>att out authorized. ac \<lparr>completed_attempt = attempt x, completion_outcome = out, completion_observedAt = t\<rparr> h att =
      Inr (Prim (PBool True)) \<and> out \<noteq> Denied \<and> authorizedAt x = Some authorized \<and> authorized \<le> t \<and>
    attempts st' k = Some (x\<lparr>attempt_phase := Terminal, outcome := Some \<lparr>status = out, outcome_reason = None, outcome_at = t\<rparr>\<rparr>)"
proof (cases act)
  case (Authorize v)
  then obtain a where "st' = authorize_attempt st a t" using red by (auto split: sum.splits)
  with authorize_attempt_outcomes [OF inv, of a t] x new show ?thesis
    by (auto simp: allow_def deny_def denyReplay_def approval allowed_def split: if_splits)
next
  case (Settle i v att)
  then obtain aid y out authorized r where *: "attempts st aid = Some y" "out \<noteq> Denied" "authorizedAt y = Some authorized"
    "authorized \<le> t" "ac \<lparr>completed_attempt = attempt y, completion_outcome = out, completion_observedAt = t\<rparr> h att = Inr (Prim (PBool True))"
    "st' = complete_attempt st aid y r authorized out t"
    using red by (auto simp: settle_Some_iff)
  then have "k = aid" using x new by (auto simp: complete_attempt_def approval split: if_splits)
  then have "y = x" using *(1) x(1) by simp
  then have "attempts st' k = Some (x\<lparr>attempt_phase := Terminal, outcome := Some \<lparr>status = out, outcome_reason = None, outcome_at = t\<rparr>\<rparr>)"
    using * \<open>k = aid\<close> by (simp add: complete_attempt_def approval)
  with * \<open>y = x\<close> show ?thesis by blast
qed (use red x new attempts_kept in \<open>auto split: sum.splits\<close>)

text \<open>
  C32: an attempt in flight is finished only with the completion verifier's consent: whenever a call changes the
  record of an authorized attempt, the verifier answered true for that attempt, outcome and time,
  the outcome is not a denial, and the time is not before the authorization.
\<close>

theorem completion_needs_consent:
  assumes "reachable (createApprovalState, new_authority defs) approval_step (st, au)"
    and "approvalReducer st au h input clock ac = (st', au')"
    and "attempts st k = Some x" "attempt_phase x = Authorized" "attempts st' k \<noteq> Some x"
  shows "\<exists>att out authorized t. clock = Inr (Prim (PNum (num_int t))) \<and>
    ac \<lparr>completed_attempt = attempt x, completion_outcome = out, completion_observedAt = t\<rparr> h att = Inr (Prim (PBool True)) \<and>
    out \<noteq> Denied \<and> authorizedAt x = Some authorized \<and> authorized \<le> t \<and>
    attempts st' k = Some (x\<lparr>attempt_phase := Terminal, outcome := Some \<lparr>status = out, outcome_reason = None, outcome_at = t\<rparr>\<rparr>)"
proof -
  have inv: "state_inv st" using approvals.reachable_inv [OF assms(1)] by (simp add: approval_inv_def)
  obtain act t st1 where r: "clock = Inr (Prim (PNum (num_int t)))"
    "reduceApprovalAt st au h act t ac = (Some st1, au')" "attempts st' = attempts st1"
    using approvalReducer_cases [OF assms(2)] assms(3,5) by (auto simp: approval split: option.splits)
  from authorized_kept [OF inv assms(3,4) r(2)] assms(5) r show ?thesis by auto
qed

lemma demo_settle_step:
  "reduceApprovalAt (fst demo_allowed) (snd demo_allowed) demo_settle_heap (Settle (jstr ''t'') (jstr ''succeeded'') (Prim (PBool True))) 17 demo_verifier =
   (Some (complete_attempt (fst demo_allowed) (js ''t'')
      \<lparr>attempt = demo_attempt, attempt_phase = Authorized, authorizedAt = Some 15, outcome = None\<rparr>
      \<lparr>grant = demo_grant, consumedBy = Some (js ''t''), inFlightBy = Some (js ''t''), uncertainBy = None\<rparr> 15 Succeeded 17), snd demo_allowed)"
proof -
  have "validIdentifier (jstr ''t'') = Some (js ''t'')" by code_simp
  moreover have "attempts (fst demo_allowed) (js ''t'') = Some \<lparr>attempt = demo_attempt, attempt_phase = Authorized, authorizedAt = Some 15, outcome = None\<rparr>"
    "grants (fst demo_allowed) (js ''g'') = Some \<lparr>grant = demo_grant, consumedBy = Some (js ''t''), inFlightBy = Some (js ''t''), uncertainBy = None\<rparr>"
    by (simp_all add: demo_allowed_eq allow_def approval demo_grant_fields)
  ultimately show ?thesis
    by (simp add: settle_Some_iff demo_grant_fields demo_verifier_def)
      (intro exI [of _ Succeeded], simp)
qed

theorem completion_needs_consent_witness:
  "\<exists>att out authorized t. Inr (Prim (PNum (num_int 17))) = (Inr (Prim (PNum (num_int t))) :: js_error + jsval) \<and>
     demo_verifier \<lparr>completed_attempt = demo_attempt, completion_outcome = out, completion_observedAt = t\<rparr> demo_settle_heap att = Inr (Prim (PBool True)) \<and>
     out \<noteq> Denied \<and> Some 15 = Some authorized \<and> authorized \<le> t"
proof -
  let ?x = "\<lparr>attempt = demo_attempt, attempt_phase = Authorized, authorizedAt = Some 15, outcome = None\<rparr>"
  have dec: "decodeApprovalReducerAction demo_settle_heap (Ref []) = Some (Settle (jstr ''t'') (jstr ''succeeded'') (Prim (PBool True)))"
    by (simp add: decodeApprovalReducerAction_def decode_envelope_def js_get_plain [OF demo_settle_heap_def [THEN fun_cong]])
  have last: "\<forall>l. lastObservedAt (fst demo_allowed) = Some l \<longrightarrow> l \<le> 17" by (simp add: demo_allowed_eq)
  note step = approvalReducer_Reduce [OF dec validTime_int [OF demo_times(3)] last demo_settle_step]
  have x: "attempts (fst demo_allowed) (js ''t'') = Some ?x"
    by (simp add: demo_allowed_eq allow_def approval demo_grant_fields)
  have "reachable (createApprovalState, new_authority demo_defs) approval_step (fst demo_allowed, snd demo_allowed)"
    using demo_reachable_allowed by simp
  from completion_needs_consent [OF this step x] show ?thesis
    by (auto simp: complete_attempt_def approval)
qed

end
