(* ===== verification/Editor_Buffer.thy ===== *)
theory Editor_Buffer
  imports Json Step_System
begin

text \<open>
  The editor's draft buffers, \<open>src/app/src/features/editor/editorBufferStore.ts\<close>: a store of unsaved texts
  keyed by document identity, bounded in entries and in code units, which evicts the
  least recently written drafts. The record \<open>values\<close> of the source (an object without prototype) is a map.

  Shown: the bounds hold in every reachable state, a write keeps exactly the longest recent
  suffix that fits and so always keeps what was just written, and document identities do not collide.
\<close>

definition MAX_EDITOR_BUFFER_ENTRIES :: nat where
  "MAX_EDITOR_BUFFER_ENTRIES = 64"

definition MAX_EDITOR_BUFFER_CODE_UNITS :: nat where
  "MAX_EDITOR_BUFFER_CODE_UNITS = 2 * 1024 * 1024"

definition MAX_EDITOR_BUFFER_TOTAL_CODE_UNITS :: int where
  "MAX_EDITOR_BUFFER_TOTAL_CODE_UNITS = 8 * 1024 * 1024"

definition MAX_EDITOR_DOCUMENT_ID_CODE_UNITS :: nat where
  "MAX_EDITOR_DOCUMENT_ID_CODE_UNITS = 2048"

definition UNSAFE_DOCUMENT_ID_CHARACTER :: "code_unit \<Rightarrow> bool" where
  "UNSAFE_DOCUMENT_ID_CHARACTER c \<longleftrightarrow> c \<le> 0x1F \<or> 0x7F \<le> c \<and> c \<le> 0x9F"

record CanvasEditorIdentity =
  canvas_sessionId :: jsstr
  canvas_chatId :: jsstr
  canvas_messageId :: jsstr
  sourceVersion :: int
  displayRevision :: int

text \<open>The fields of an artifact document that enter its identity.\<close>

record ArtifactIdentity =
  brokerId :: jsstr
  rootSessionId :: jsstr
  artifactId :: jsstr
  artifact_revision :: int
  artifact_identity :: jsstr

record EditorBufferState =
  buffer_order :: "jsstr list"
  buffer_values :: "jsstr \<rightharpoonup> jsstr"
  totalCodeUnits :: int

definition createEditorBufferState :: EditorBufferState where
  "createEditorBufferState = \<lparr>buffer_order = [], buffer_values = Map.empty, totalCodeUnits = 0\<rparr>"

definition valid_document_id :: "jsstr \<Rightarrow> bool" where
  "valid_document_id s \<longleftrightarrow>
     s \<noteq> [] \<and> length s \<le> MAX_EDITOR_DOCUMENT_ID_CODE_UNITS \<and> \<not> list_ex UNSAFE_DOCUMENT_ID_CHARACTER s"

fun assertDocumentId :: "jsval \<Rightarrow> js_error + jsstr" where
  "assertDocumentId (Prim (PStr s)) =
     (if valid_document_id s then Inr s else Inl (TypeError ''Editor document identity is invalid.''))"
| "assertDocumentId _ = Inl (TypeError ''Editor document identity is invalid.'')"

definition boundEditorBufferContent :: "jsstr \<Rightarrow> jsstr" where
  "boundEditorBufferContent content =
     (if length content \<le> MAX_EDITOR_BUFFER_CODE_UNITS then content
      else
        let end = (if is_high (content ! (MAX_EDITOR_BUFFER_CODE_UNITS - 1))
                   then MAX_EDITOR_BUFFER_CODE_UNITS - 1 else MAX_EDITOR_BUFFER_CODE_UNITS)
        in take end content)"

definition artifactEditorDocumentId :: "ArtifactIdentity \<Rightarrow> jsstr" where
  "artifactEditorDocumentId d =
     json_key (TArr [TStr (js ''artifact''), TStr (brokerId d), TStr (rootSessionId d), TStr (artifactId d),
       TInt (artifact_revision d), TStr (artifact_identity d)])"

definition canvasEditorDocumentId :: "CanvasEditorIdentity \<Rightarrow> jsstr" where
  "canvasEditorDocumentId d =
     json_key (TArr [TStr (js ''canvas''), TStr (canvas_sessionId d), TStr (canvas_chatId d), TStr (canvas_messageId d),
       TInt (sourceVersion d), TInt (displayRevision d)])"

definition readEditorBuffer :: "EditorBufferState \<Rightarrow> jsval \<Rightarrow> js_error + jsstr option" where
  "readEditorBuffer st documentId = ebind (assertDocumentId documentId) (\<lambda>d. Inr (buffer_values st d))"

text \<open>The eviction loop: drop the oldest identity while a limit is exceeded.\<close>

fun evict :: "jsstr list \<Rightarrow> (jsstr \<rightharpoonup> jsstr) \<Rightarrow> int \<Rightarrow> EditorBufferState" where
  "evict [] vals held = \<lparr>buffer_order = [], buffer_values = vals, totalCodeUnits = held\<rparr>"
| "evict (d # ds) vals held =
     (if length (d # ds) > MAX_EDITOR_BUFFER_ENTRIES \<or> held > MAX_EDITOR_BUFFER_TOTAL_CODE_UNITS
      then (case vals d of
              Some v \<Rightarrow> evict ds (vals(d := None)) (held - int (length v))
            | None \<Rightarrow> evict ds vals held)
      else \<lparr>buffer_order = d # ds, buffer_values = vals, totalCodeUnits = held\<rparr>)"

definition write_buffer :: "EditorBufferState \<Rightarrow> jsstr \<Rightarrow> jsstr \<Rightarrow> EditorBufferState" where
  "write_buffer st d content =
     (let nextContent = boundEditorBufferContent content;
          previousLength = (case buffer_values st d of Some v \<Rightarrow> length v | None \<Rightarrow> 0)
      in evict (filter (\<lambda>c. c \<noteq> d) (buffer_order st) @ [d]) ((buffer_values st)(d \<mapsto> nextContent))
           (totalCodeUnits st - int previousLength + int (length nextContent)))"

definition writeEditorBuffer :: "EditorBufferState \<Rightarrow> jsval \<Rightarrow> jsval \<Rightarrow> js_error + EditorBufferState" where
  "writeEditorBuffer st documentId content =
     ebind (assertDocumentId documentId) (\<lambda>d.
       case content of
         Prim (PStr c) \<Rightarrow> Inr (write_buffer st d c)
       | _ \<Rightarrow> Inl (TypeError ''Editor buffer content is invalid.''))"

definition removeEditorBuffer :: "EditorBufferState \<Rightarrow> jsval \<Rightarrow> js_error + EditorBufferState" where
  "removeEditorBuffer st documentId =
     ebind (assertDocumentId documentId) (\<lambda>d.
       case buffer_values st d of
         None \<Rightarrow> Inr st
       | Some v \<Rightarrow> Inr \<lparr>buffer_order = filter (\<lambda>c. c \<noteq> d) (buffer_order st),
           buffer_values = (buffer_values st)(d := None), totalCodeUnits = totalCodeUnits st - int (length v)\<rparr>)"


section \<open>The invariant\<close>

lemma assertDocumentId_Inr_iff: "assertDocumentId v = Inr s \<longleftrightarrow> v = Prim (PStr s) \<and> valid_document_id s"
  by (cases v rule: assertDocumentId.cases) auto

definition units :: "(jsstr \<rightharpoonup> jsstr) \<Rightarrow> jsstr list \<Rightarrow> int" where
  "units vals ds = sum_list (map (\<lambda>d. int (length (the (vals d)))) ds)"

text \<open>What the loop may assume of its arguments, and keeps.\<close>

definition consistent :: "jsstr list \<Rightarrow> (jsstr \<rightharpoonup> jsstr) \<Rightarrow> int \<Rightarrow> bool" where
  "consistent ds vals held \<longleftrightarrow>
     distinct ds \<and> set ds = dom vals \<and> held = units vals ds \<and>
     (\<forall>d v. vals d = Some v \<longrightarrow> valid_document_id d \<and> length v \<le> MAX_EDITOR_BUFFER_CODE_UNITS)"

definition fits :: "jsstr list \<Rightarrow> (jsstr \<rightharpoonup> jsstr) \<Rightarrow> bool" where
  "fits ds vals \<longleftrightarrow> length ds \<le> MAX_EDITOR_BUFFER_ENTRIES \<and> units vals ds \<le> MAX_EDITOR_BUFFER_TOTAL_CODE_UNITS"

definition buffer_inv :: "EditorBufferState \<Rightarrow> bool" where
  "buffer_inv st \<longleftrightarrow>
     consistent (buffer_order st) (buffer_values st) (totalCodeUnits st) \<and> fits (buffer_order st) (buffer_values st)"

lemma units_cong: "(\<And>d. d \<in> set ds \<Longrightarrow> f d = g d) \<Longrightarrow> units f ds = units g ds"
  by (simp add: units_def cong: map_cong)

lemma units_nonneg: "0 \<le> units vals ds"
  by (induction ds) (auto simp: units_def)

lemma units_append [simp]: "units vals (xs @ ys) = units vals xs + units vals ys"
  by (simp add: units_def)

lemma units_Cons [simp]: "units vals (d # ds) = int (length (the (vals d))) + units vals ds"
  by (simp add: units_def)

lemma units_Nil [simp]: "units vals [] = 0"
  by (simp add: units_def)

lemma units_remove:
  "distinct ds \<Longrightarrow> d \<in> set ds \<Longrightarrow> units vals ds = int (length (the (vals d))) + units vals (filter (\<lambda>c. c \<noteq> d) ds)"
proof (induction ds)
  case (Cons c ds)
  then have "filter (\<lambda>x. x \<noteq> c) ds = ds" by (auto intro: filter_True)
  with Cons show ?case by (cases "c = d") auto
qed simp

text \<open>
  The loop returns the longest suffix of the recency order that is within the limits, with
  exactly its values.
\<close>

fun longest_fitting :: "(jsstr \<rightharpoonup> jsstr) \<Rightarrow> jsstr list \<Rightarrow> jsstr list" where
  "longest_fitting vals [] = []"
| "longest_fitting vals (d # ds) = (if fits (d # ds) vals then d # ds else longest_fitting vals ds)"

lemma longest_fitting_suffix: "\<exists>ys. ds = ys @ longest_fitting vals ds"
proof (induction ds)
  case (Cons d ds)
  then obtain ys where "ds = ys @ longest_fitting vals ds" by blast
  then show ?case by (cases "fits (d # ds) vals") (auto intro: exI [of _ "d # ys"])
qed simp

lemma longest_fitting_within: "fits (longest_fitting vals ds) vals"
  by (induction ds) (auto simp: fits_def MAX_EDITOR_BUFFER_TOTAL_CODE_UNITS_def)

lemma longest_fitting_max:
  "fits ys vals \<Longrightarrow> ds = xs @ ys \<Longrightarrow> \<exists>zs. longest_fitting vals ds = zs @ ys"
proof (induction xs arbitrary: ds)
  case Nil
  then show ?case by (cases ys) auto
next
  case (Cons x xs)
  then show ?case by (auto intro: exI [of _ "x # xs"])
qed

lemma evict_eq:
  assumes "consistent ds vals held"
  shows "evict ds vals held =
    \<lparr>buffer_order = longest_fitting vals ds, buffer_values = vals |` set (longest_fitting vals ds),
     totalCodeUnits = units vals (longest_fitting vals ds)\<rparr>"
  using assms
proof (induction ds vals held rule: evict.induct)
  case (1 vals held)
  then show ?case by (auto simp: consistent_def)
next
  case (2 d ds vals held)
  note c = "2.prems" [unfolded consistent_def]
  show ?case
  proof (cases "fits (d # ds) vals")
    case True
    then have "vals |` set (d # ds) = vals" using c by (auto simp: restrict_map_def fun_eq_iff domIff)
    with True c show ?thesis by (auto simp: fits_def)
  next
    case False
    obtain v where v: "vals d = Some v" using c by (metis domIff list.set_intros(1) not_None_eq)
    have over: "length (d # ds) > MAX_EDITOR_BUFFER_ENTRIES \<or> held > MAX_EDITOR_BUFFER_TOTAL_CODE_UNITS"
      using False c by (auto simp: fits_def)
    let ?vals = "vals(d := None)"
    have same: "units ?vals xs = units vals xs" if "d \<notin> set xs" for xs
      by (rule units_cong) (use that in auto)
    have notin: "d \<notin> set ds" using c by simp
    have "consistent ds ?vals (held - int (length v))"
      using c v same [OF notin] unfolding consistent_def by auto
    from "2.IH"(2) [OF over v this] have ih: "evict ds ?vals (held - int (length v)) =
      \<lparr>buffer_order = longest_fitting ?vals ds, buffer_values = ?vals |` set (longest_fitting ?vals ds),
       totalCodeUnits = units ?vals (longest_fitting ?vals ds)\<rparr>" .
    have fit: "longest_fitting ?vals xs = longest_fitting vals xs" if "d \<notin> set xs" for xs
      using that by (induction xs) (auto simp: fits_def same)
    have "d \<notin> set (longest_fitting vals ds)"
      using longest_fitting_suffix [of ds vals] notin by (metis in_set_conv_decomp_first set_append UnCI)
    moreover from this have "?vals |` set (longest_fitting vals ds) = vals |` set (longest_fitting vals ds)"
      by (auto simp: restrict_map_def fun_eq_iff)
    ultimately show ?thesis using False over v ih fit [OF notin] same by simp
  qed
qed



lemma length_bound [simp]: "length (boundEditorBufferContent c) \<le> MAX_EDITOR_BUFFER_CODE_UNITS"
  by (simp add: boundEditorBufferContent_def Let_def)

lemma consistent_write:
  assumes "consistent (buffer_order st) (buffer_values st) (totalCodeUnits st)" "valid_document_id d"
  shows "consistent (filter (\<lambda>c. c \<noteq> d) (buffer_order st) @ [d]) ((buffer_values st)(d \<mapsto> boundEditorBufferContent c))
    (totalCodeUnits st - int (case buffer_values st d of Some v \<Rightarrow> length v | None \<Rightarrow> 0) + int (length (boundEditorBufferContent c)))"
    (is "consistent (?rest @ [d]) ?vals _")
proof -
  note c = assms(1) [unfolded consistent_def]
  have "units ?vals ?rest = units (buffer_values st) ?rest" by (rule units_cong) auto
  moreover have "units (buffer_values st) ?rest =
      totalCodeUnits st - int (case buffer_values st d of Some v \<Rightarrow> length v | None \<Rightarrow> 0)"
  proof (cases "buffer_values st d")
    case None
    then have "?rest = buffer_order st" using c by (auto intro!: filter_True simp: domIff)
    with None c show ?thesis by simp
  next
    case (Some v)
    then have "d \<in> set (buffer_order st)" using c by auto
    then show ?thesis using units_remove [of "buffer_order st" d "buffer_values st"] c Some by simp
  qed
  ultimately show ?thesis using c assms(2) unfolding consistent_def by auto
qed

text \<open>A write keeps the longest recent suffix of the updated drafts that is within the limits.\<close>

lemma write_buffer_eq:
  assumes "buffer_inv st" "valid_document_id d"
  shows "write_buffer st d c =
    (let order = filter (\<lambda>x. x \<noteq> d) (buffer_order st) @ [d];
         vals = (buffer_values st)(d \<mapsto> boundEditorBufferContent c);
         recent = longest_fitting vals order
     in \<lparr>buffer_order = recent, buffer_values = vals |` set recent, totalCodeUnits = units vals recent\<rparr>)"
  unfolding write_buffer_def Let_def
  by (rule evict_eq, rule consistent_write [OF _ assms(2)]) (use assms(1) in \<open>simp add: buffer_inv_def\<close>)

lemma buffer_inv_suffix:
  assumes "consistent ds vals held" "ds = ys @ zs" "fits zs vals"
  shows "buffer_inv \<lparr>buffer_order = zs, buffer_values = vals |` set zs, totalCodeUnits = units vals zs\<rparr>"
proof -
  have "units (vals |` set zs) zs = units vals zs" by (rule units_cong) (simp add: restrict_map_def)
  then show ?thesis
    using assms unfolding buffer_inv_def consistent_def fits_def by (auto simp: restrict_map_def split: if_splits)
qed

lemma write_buffer_inv:
  assumes "buffer_inv st" "valid_document_id d"
  shows "buffer_inv (write_buffer st d c)"
proof -
  let ?ds = "filter (\<lambda>x. x \<noteq> d) (buffer_order st) @ [d]" and ?vals = "(buffer_values st)(d \<mapsto> boundEditorBufferContent c)"
  obtain ys where "?ds = ys @ longest_fitting ?vals ?ds" using longest_fitting_suffix by blast
  moreover have "consistent (buffer_order st) (buffer_values st) (totalCodeUnits st)"
    using assms(1) by (simp add: buffer_inv_def)
  ultimately show ?thesis
    unfolding write_buffer_eq [OF assms] Let_def
    by (intro buffer_inv_suffix [OF consistent_write [OF _ assms(2)] _ longest_fitting_within])
qed

lemma removeEditorBuffer_inv:
  assumes inv: "buffer_inv st" and r: "removeEditorBuffer st v = Inr st'"
  shows "buffer_inv st'"
proof -
  obtain d where d: "v = Prim (PStr d)"
    and st': "st' = (case buffer_values st d of None \<Rightarrow> st
      | Some x \<Rightarrow> \<lparr>buffer_order = filter (\<lambda>c. c \<noteq> d) (buffer_order st),
          buffer_values = (buffer_values st)(d := None), totalCodeUnits = totalCodeUnits st - int (length x)\<rparr>)"
    using r by (auto simp: removeEditorBuffer_def ebind_Inr_iff assertDocumentId_Inr_iff split: option.splits)
  show ?thesis
  proof (cases "buffer_values st d")
    case (Some x)
    note c = inv [unfolded buffer_inv_def consistent_def fits_def]
    let ?rest = "filter (\<lambda>c. c \<noteq> d) (buffer_order st)"
    have u: "units ((buffer_values st)(d := None)) ?rest = units (buffer_values st) ?rest" by (rule units_cong) auto
    have "d \<in> set (buffer_order st)" using c Some by auto
    then have "units (buffer_values st) (buffer_order st) = int (length x) + units (buffer_values st) ?rest"
      using units_remove [of "buffer_order st" d "buffer_values st"] c Some by simp
    moreover have "length ?rest \<le> MAX_EDITOR_BUFFER_ENTRIES" using c by (blast intro: order_trans [OF length_filter_le])
    ultimately show ?thesis
      using c u unfolding st' Some buffer_inv_def consistent_def fits_def by auto
  qed (use inv st' in simp)
qed


section \<open>Runs\<close>

datatype buffer_event = Write jsval jsval | Remove jsval

fun buffer_step :: "EditorBufferState \<Rightarrow> buffer_event \<Rightarrow> EditorBufferState" where
  "buffer_step st (Write d c) = (case writeEditorBuffer st d c of Inr st' \<Rightarrow> st' | Inl _ \<Rightarrow> st)"
| "buffer_step st (Remove d) = (case removeEditorBuffer st d of Inr st' \<Rightarrow> st' | Inl _ \<Rightarrow> st)"

lemma writeEditorBuffer_Inr_iff:
  "writeEditorBuffer st v w = Inr st' \<longleftrightarrow>
     (\<exists>d c. v = Prim (PStr d) \<and> w = Prim (PStr c) \<and> valid_document_id d \<and> st' = write_buffer st d c)"
proof (cases w)
  case (Prim p)
  then show ?thesis by (cases p) (auto simp: writeEditorBuffer_def ebind_Inr_iff assertDocumentId_Inr_iff)
qed (simp add: writeEditorBuffer_def ebind_Inr_iff)

lemma buffer_step_inv: "buffer_inv st \<Longrightarrow> buffer_inv (buffer_step st e)"
  by (cases e)
    (auto simp: writeEditorBuffer_Inr_iff write_buffer_inv removeEditorBuffer_inv split: sum.split)

lemma buffer_init_inv: "buffer_inv createEditorBufferState"
  by (simp add: buffer_inv_def consistent_def fits_def createEditorBufferState_def MAX_EDITOR_BUFFER_TOTAL_CODE_UNITS_def)

interpretation buffers: step_system createEditorBufferState buffer_step buffer_inv
  by unfold_locales (simp_all add: buffer_init_inv buffer_step_inv)

text \<open>
  C21: whatever a run writes and removes, at most 64 drafts are held, each of at most 2 Mi code units, at most 8 Mi code units in all,
  and the counter is exactly what is held.
\<close>

theorem buffer_bounds:
  assumes "reachable createEditorBufferState buffer_step st"
  shows "length (buffer_order st) \<le> 64 \<and> distinct (buffer_order st) \<and> set (buffer_order st) = dom (buffer_values st) \<and>
    totalCodeUnits st = (\<Sum>d\<leftarrow>buffer_order st. int (length (the (buffer_values st d)))) \<and>
    totalCodeUnits st \<le> 8 * 1024 * 1024 \<and>
    (\<forall>d v. buffer_values st d = Some v \<longrightarrow> length v \<le> 2 * 1024 * 1024)"
  using buffers.reachable_inv [OF assms]
  by (simp add: buffer_inv_def consistent_def fits_def units_def MAX_EDITOR_BUFFER_ENTRIES_def
      MAX_EDITOR_BUFFER_CODE_UNITS_def MAX_EDITOR_BUFFER_TOTAL_CODE_UNITS_def)

text \<open>
  A write is a least-recently-written cache: it puts the draft last, keeps the longest recent suffix within
  the limits, and drops everything older. The written draft is always kept, and reading it back gives its
  bounded content; every other draft kept is unchanged.
\<close>

theorem write_keeps_recent:
  assumes "reachable createEditorBufferState buffer_step st"
    and "writeEditorBuffer st (Prim (PStr d)) (Prim (PStr c)) = Inr st'"
  shows "readEditorBuffer st' (Prim (PStr d)) = Inr (Some (boundEditorBufferContent c)) \<and>
    (\<exists>dropped. filter (\<lambda>x. x \<noteq> d) (buffer_order st) @ [d] = dropped @ buffer_order st' \<and>
       (\<forall>x. x \<noteq> d \<longrightarrow> buffer_values st' x = (if x \<in> set dropped then None else buffer_values st x)) \<and>
       (\<forall>ys zs. dropped = ys @ zs \<and> zs \<noteq> [] \<longrightarrow>
          \<not> fits (zs @ buffer_order st') ((buffer_values st)(d \<mapsto> boundEditorBufferContent c))))"
proof -
  have inv: "buffer_inv st" by (rule buffers.reachable_inv [OF assms(1)])
  let ?order = "filter (\<lambda>x. x \<noteq> d) (buffer_order st) @ [d]"
  let ?vals = "(buffer_values st)(d \<mapsto> boundEditorBufferContent c)"
  define recent where "recent = longest_fitting ?vals ?order"
  have d: "valid_document_id d" and st': "st' = write_buffer st d c"
    using assms(2) by (auto simp: writeEditorBuffer_Inr_iff)
  then have eq: "st' = \<lparr>buffer_order = recent, buffer_values = ?vals |` set recent, totalCodeUnits = units ?vals recent\<rparr>"
    using write_buffer_eq [OF inv d] by (simp add: Let_def recent_def)
  have "int (length (boundEditorBufferContent c)) \<le> int MAX_EDITOR_BUFFER_CODE_UNITS" by simp
  then have "fits [d] ?vals"
    by (simp add: fits_def MAX_EDITOR_BUFFER_ENTRIES_def MAX_EDITOR_BUFFER_TOTAL_CODE_UNITS_def MAX_EDITOR_BUFFER_CODE_UNITS_def)
  then obtain ws where last: "recent = ws @ [d]" unfolding recent_def using longest_fitting_max by blast
  obtain dropped where dropped: "?order = dropped @ recent" unfolding recent_def using longest_fitting_suffix by blast
  have set: "set (buffer_order st) = dom (buffer_values st)" and dist: "distinct ?order"
    using inv by (auto simp: buffer_inv_def consistent_def)
  have vals: "buffer_values st' x = (if x \<in> set dropped then None else buffer_values st x)" if "x \<noteq> d" for x
  proof -
    have "x \<in> set (buffer_order st) \<longleftrightarrow> x \<in> set dropped \<or> x \<in> set recent"
      using arg_cong [OF dropped, of set] that by auto
    moreover have "x \<in> set dropped \<Longrightarrow> x \<notin> set recent" using dist by (simp only: dropped) auto
    moreover have "x \<notin> set (buffer_order st) \<Longrightarrow> buffer_values st x = None" using set by auto
    ultimately show ?thesis using that unfolding eq by (auto simp: restrict_map_def)
  qed
  have max: "\<not> fits (zs @ recent) ?vals" if "dropped = ys @ zs" "zs \<noteq> []" for ys zs
  proof
    assume "fits (zs @ recent) ?vals"
    moreover have "?order = ys @ zs @ recent" using dropped that(1) by simp
    ultimately obtain us where "recent = us @ zs @ recent"
      using longest_fitting_max [of "zs @ recent" ?vals ?order ys] unfolding recent_def [symmetric] by blast
    then have "length recent = length (us @ zs @ recent)" by (rule arg_cong)
    then show False using that(2) by simp
  qed
  have "readEditorBuffer st' (Prim (PStr d)) = Inr (Some (boundEditorBufferContent c))"
    using d last unfolding eq by (simp add: readEditorBuffer_def restrict_map_def)
  moreover have "buffer_order st' = recent" unfolding eq by simp
  ultimately show ?thesis using dropped vals max by (intro conjI exI [of _ dropped]) auto
qed



section \<open>Identities\<close>

text \<open>
  Document identities do not collide: two canvases, or two artifacts, of equal identity text are equal in every field
  (revisions being safe integers), and no canvas shares the text of an artifact.
\<close>

theorem document_ids_distinct:
  assumes "safe_int (sourceVersion x)" "safe_int (displayRevision x)" "safe_int (sourceVersion y)" "safe_int (displayRevision y)"
    and "safe_int (artifact_revision a)" "safe_int (artifact_revision b)"
  shows "(canvasEditorDocumentId x = canvasEditorDocumentId y \<longleftrightarrow> x = y) \<and>
    (artifactEditorDocumentId a = artifactEditorDocumentId b \<longleftrightarrow> a = b) \<and>
    canvasEditorDocumentId x \<noteq> artifactEditorDocumentId a"
  using assms unfolding canvasEditorDocumentId_def artifactEditorDocumentId_def
  by (simp add: json_key_inject) (auto intro: CanvasEditorIdentity.equality ArtifactIdentity.equality)

definition demo_canvas :: "int \<Rightarrow> CanvasEditorIdentity" where
  "demo_canvas n = \<lparr>canvas_sessionId = js ''s'', canvas_chatId = js ''c'', canvas_messageId = js ''m'', sourceVersion = 0, displayRevision = n\<rparr>"

definition demo_artifact :: ArtifactIdentity where
  "demo_artifact = \<lparr>brokerId = js ''b'', rootSessionId = js ''s'', artifactId = js ''a'', artifact_revision = 3, artifact_identity = js ''i''\<rparr>"

theorem document_ids_distinct_witness:
  "canvasEditorDocumentId (demo_canvas 1) \<noteq> canvasEditorDocumentId (demo_canvas 2) \<and>
   canvasEditorDocumentId (demo_canvas 1) \<noteq> artifactEditorDocumentId demo_artifact"
  using document_ids_distinct [of "demo_canvas 1" "demo_canvas 2" demo_artifact demo_artifact]
  by (simp add: demo_canvas_def demo_artifact_def safe_int_def MAX_SAFE_INTEGER_def)

definition demo_buffer :: EditorBufferState where
  "demo_buffer = buffer_step createEditorBufferState (Write (Prim (PStr (js ''one''))) (Prim (PStr (js ''x''))))"

lemma demo_document_ids [simp]: "valid_document_id (js ''one'')" "valid_document_id (js ''two'')"
proof -
  have "\<not> list_ex UNSAFE_DOCUMENT_ID_CHARACTER (js ''one'')" "\<not> list_ex UNSAFE_DOCUMENT_ID_CHARACTER (js ''two'')"
    by code_simp+
  then show "valid_document_id (js ''one'')" "valid_document_id (js ''two'')"
    by (simp_all add: valid_document_id_def MAX_EDITOR_DOCUMENT_ID_CODE_UNITS_def)
qed

lemma demo_buffer_reachable: "reachable createEditorBufferState buffer_step demo_buffer"
  unfolding demo_buffer_def by (rule reachable_step [OF reachable_init])

lemma demo_write: "\<exists>st'. writeEditorBuffer demo_buffer (Prim (PStr (js ''two''))) (Prim (PStr (js ''yz''))) = Inr st'"
  by (simp add: writeEditorBuffer_Inr_iff)

theorem buffer_bounds_witness: "length (buffer_order demo_buffer) \<le> 64 \<and> totalCodeUnits demo_buffer \<le> 8 * 1024 * 1024"
  using buffer_bounds [OF demo_buffer_reachable] by blast

theorem write_keeps_recent_witness:
  "\<exists>st'. writeEditorBuffer demo_buffer (Prim (PStr (js ''two''))) (Prim (PStr (js ''yz''))) = Inr st' \<and>
     readEditorBuffer st' (Prim (PStr (js ''two''))) = Inr (Some (boundEditorBufferContent (js ''yz'')))"
  using demo_write write_keeps_recent [OF demo_buffer_reachable] by blast

end
