(* ===== verification/Toast_Queue.thy ===== *)
theory Toast_Queue
  imports Json Step_System
begin

text \<open>
  The notification queue, \<open>src/app/src/components/toastQueue.ts\<close>: at most six visible notifications, one per
  identity (owner and scope), some of which offer actions such as a retry.

  Identifiers drawn with \<open>crypto.randomUUID\<close> and the current time are arguments. A frozen array
  is a list; an index found by \<open>findIndex\<close> is an option.

  Shown: the queue never exceeds its capacity, holds one notification per identity, and no
  operation on it drops an action that it was not asked to drop.
\<close>

datatype ToastSeverity = Info | Success | Warning | Error

datatype ToastOwner = Runtime | Harness | Studio_durable | Renderer | Native | Unsupported

record ToastActionReference =
  action_id :: jsstr
  action_label :: jsstr
  action_action :: jsstr

record ToastIdentity =
  toast_owner :: ToastOwner
  toast_scope :: jsstr

record ToastInput = ToastIdentity +
  input_severity :: ToastSeverity
  input_title :: jsstr
  input_message :: jsstr
  input_action :: "ToastActionReference option"
  input_persistent :: "bool option"

record StudioToast = ToastIdentity +
  toast_id :: jsstr
  toast_severity :: ToastSeverity
  toast_title :: jsstr
  toast_message :: jsstr
  persistent :: bool
  occurrences :: nat
  expiresAtMs :: "int option"
  toast_actions :: "ToastActionReference list"

type_synonym toast_queue = "StudioToast list"

definition MAX_VISIBLE_TOASTS :: nat where
  "MAX_VISIBLE_TOASTS = 6"

definition TOAST_DURATION_MS :: int where
  "TOAST_DURATION_MS = 2400"

definition sameIdentity :: "'a ToastIdentity_scheme \<Rightarrow> 'b ToastIdentity_scheme \<Rightarrow> bool" where
  "sameIdentity l r \<longleftrightarrow> toast_owner l = toast_owner r \<and> toast_scope l = toast_scope r"

definition appendAction :: "ToastActionReference list \<Rightarrow> ToastActionReference option \<Rightarrow> ToastActionReference list" where
  "appendAction acts a =
     (case a of
        None \<Rightarrow> acts
      | Some x \<Rightarrow> if list_ex (\<lambda>c. action_id c = action_id x) acts then acts else acts @ [x])"

definition persistentFor :: "ToastInput \<Rightarrow> ToastActionReference list \<Rightarrow> bool" where
  "persistentFor input acts \<longleftrightarrow> input_persistent input = Some True \<or> input_severity input = Error \<or> length acts > 0"

definition expiry :: "bool \<Rightarrow> int \<Rightarrow> int option" where
  "expiry pers now = (if pers then None else Some (now + TOAST_DURATION_MS))"

definition createToast :: "ToastInput \<Rightarrow> int \<Rightarrow> jsstr \<Rightarrow> StudioToast" where
  "createToast input now uuid =
     (let acts = (case input_action input of Some a \<Rightarrow> [a] | None \<Rightarrow> []);
          pers = persistentFor input acts
      in \<lparr>toast_owner = toast_owner input, toast_scope = toast_scope input, toast_id = uuid,
          toast_severity = input_severity input, toast_title = input_title input, toast_message = input_message input,
          persistent = pers, occurrences = 1, expiresAtMs = expiry pers now, toast_actions = acts\<rparr>)"

text \<open>The update that \<open>enqueueToast\<close> and \<open>settleToastAction\<close> make to a notification already shown.\<close>

definition represent :: "StudioToast \<Rightarrow> ToastInput \<Rightarrow> ToastActionReference list \<Rightarrow> int \<Rightarrow> StudioToast" where
  "represent t input acts now =
     (let pers = persistentFor input acts
      in t\<lparr>toast_severity := input_severity input, toast_title := input_title input, toast_message := input_message input,
           persistent := pers, occurrences := occurrences t + 1, expiresAtMs := expiry pers now, toast_actions := acts\<rparr>)"

definition enqueueToast :: "toast_queue \<Rightarrow> ToastInput \<Rightarrow> int \<Rightarrow> jsstr \<Rightarrow> string + toast_queue" where
  "enqueueToast queue input now uuid =
     (case findIndex (\<lambda>t. sameIdentity t input) queue of
        Some i \<Rightarrow>
          (let prior = queue ! i; acts = appendAction (toast_actions prior) (input_action input)
           in Inr (queue[i := represent prior input acts now]))
      | None \<Rightarrow>
          (let toast = createToast input now uuid in
           if length queue < MAX_VISIBLE_TOASTS then Inr (queue @ [toast])
           else
             let passive =
               (case findIndex (\<lambda>c. \<not> persistent c) queue of
                  Some i \<Rightarrow> Some i
                | None \<Rightarrow> findIndex (\<lambda>c. length (toast_actions c) = 0) queue)
             in case passive of
                  Some i \<Rightarrow> Inr (take i queue @ drop (Suc i) queue @ [toast])
                | None \<Rightarrow>
                    if length (toast_actions toast) = 0 then Inr queue
                    else Inl ''Toast queue actionable capacity invariant violated.''))"

definition without_action :: "StudioToast \<Rightarrow> jsstr \<Rightarrow> ToastActionReference list" where
  "without_action t aid = filter (\<lambda>a. action_id a \<noteq> aid) (toast_actions t)"

definition removeToastAction :: "toast_queue \<Rightarrow> ToastIdentity \<Rightarrow> jsstr \<Rightarrow> toast_queue" where
  "removeToastAction queue ident aid =
     concat (map (\<lambda>t.
       if \<not> sameIdentity t ident then [t]
       else let acts = without_action t aid in if length acts = 0 then [] else [t\<lparr>toast_actions := acts\<rparr>]) queue)"

definition settleToastAction :: "toast_queue \<Rightarrow> ToastIdentity \<Rightarrow> jsstr \<Rightarrow> ToastInput option \<Rightarrow> int \<Rightarrow> toast_queue" where
  "settleToastAction queue ident aid replacement now =
     concat (map (\<lambda>t.
       if \<not> sameIdentity t ident then [t]
       else let acts = without_action t aid in
         case replacement of
           None \<Rightarrow> if length acts = 0 then [] else [t\<lparr>toast_actions := acts\<rparr>]
         | Some r \<Rightarrow> [represent t r acts now]) queue)"

definition resolveToast :: "toast_queue \<Rightarrow> ToastIdentity \<Rightarrow> toast_queue" where
  "resolveToast queue ident = filter (\<lambda>t. \<not> sameIdentity t ident) queue"

definition dismissToast :: "toast_queue \<Rightarrow> jsstr \<Rightarrow> toast_queue" where
  "dismissToast queue tid = filter (\<lambda>t. toast_id t \<noteq> tid) queue"

definition dismissToastSnapshot :: "toast_queue \<Rightarrow> jsstr \<Rightarrow> nat \<Rightarrow> jsstr list \<Rightarrow> toast_queue" where
  "dismissToastSnapshot queue tid coveredOccurrences coveredActionIds =
     concat (map (\<lambda>t.
       if toast_id t \<noteq> tid then [t]
       else
         let acts = filter (\<lambda>a. action_id a \<notin> set coveredActionIds) (toast_actions t);
             later = occurrences t - coveredOccurrences
         in if later = 0 \<and> length acts = 0 then []
            else [t\<lparr>occurrences := max 1 later, toast_actions := acts\<rparr>]) queue)"


section \<open>The invariant\<close>

abbreviation ident :: "'a ToastIdentity_scheme \<Rightarrow> ToastOwner \<times> jsstr" where
  "ident t \<equiv> (toast_owner t, toast_scope t)"

lemma sameIdentity_iff: "sameIdentity l r \<longleftrightarrow> ident l = ident r"
  by (simp add: sameIdentity_def)

definition toast_ok :: "StudioToast \<Rightarrow> bool" where
  "toast_ok t \<longleftrightarrow>
     (toast_actions t \<noteq> [] \<longrightarrow> persistent t) \<and> (persistent t \<longleftrightarrow> expiresAtMs t = None) \<and> 1 \<le> occurrences t \<and>
     distinct (map action_id (toast_actions t))"

definition queue_inv :: "toast_queue \<Rightarrow> bool" where
  "queue_inv q \<longleftrightarrow> length q \<le> MAX_VISIBLE_TOASTS \<and> distinct (map ident q) \<and> list_all toast_ok q"

lemma findIndex_None: "findIndex P xs = None \<longleftrightarrow> (\<forall>x \<in> set xs. \<not> P x)"
  by (induction xs) auto

lemma represent_simps [simp]:
  "toast_owner (represent t input acts now) = toast_owner t" "toast_scope (represent t input acts now) = toast_scope t"
  "toast_id (represent t input acts now) = toast_id t" "toast_actions (represent t input acts now) = acts"
  by (simp_all add: represent_def Let_def)

lemma represent_ok: "distinct (map action_id acts) \<Longrightarrow> toast_ok (represent t input acts now)"
  by (simp add: represent_def toast_ok_def Let_def expiry_def persistentFor_def)

lemma createToast_simps [simp]:
  "toast_owner (createToast input now uuid) = toast_owner input" "toast_scope (createToast input now uuid) = toast_scope input"
  "toast_actions (createToast input now uuid) = (case input_action input of Some a \<Rightarrow> [a] | None \<Rightarrow> [])"
  by (simp_all add: createToast_def Let_def)

lemma createToast_ok: "toast_ok (createToast input now uuid)"
  by (simp add: createToast_def toast_ok_def Let_def expiry_def persistentFor_def split: option.split)

lemma distinct_appendAction: "distinct (map action_id acts) \<Longrightarrow> distinct (map action_id (appendAction acts a))"
  by (auto simp: appendAction_def list_ex_iff split: option.split)

lemma set_appendAction: "set acts \<subseteq> set (appendAction acts a)"
  by (auto simp: appendAction_def split: option.split)

lemma remove_nth:
  assumes "i < length xs"
  shows "distinct (map f xs) \<Longrightarrow> distinct (map f (take i xs @ drop (Suc i) xs))"
    and "length (take i xs @ drop (Suc i) xs) < length xs"
    and "set xs = insert (xs ! i) (set (take i xs @ drop (Suc i) xs))"
proof -
  note split = id_take_nth_drop [OF assms]
  show "distinct (map f (take i xs @ drop (Suc i) xs))" if "distinct (map f xs)"
    using that by (subst (asm) split) auto
  show "length (take i xs @ drop (Suc i) xs) < length xs" using assms by simp
  show "set xs = insert (xs ! i) (set (take i xs @ drop (Suc i) xs))"
    by (subst split) auto
qed

text \<open>
  The three outcomes of a call that returns: update in place, append, or replace a notification
  without actions.
\<close>

lemma enqueueToast_Inr:
  assumes "enqueueToast queue input now uuid = Inr q"
  obtains (update) i where "i < length queue" "ident (queue ! i) = ident input"
      "q = queue[i := represent (queue ! i) input (appendAction (toast_actions (queue ! i)) (input_action input)) now]"
  | (append) "\<forall>t \<in> set queue. ident t \<noteq> ident input" "length queue < MAX_VISIBLE_TOASTS"
      "q = queue @ [createToast input now uuid]"
  | (replace) i where "\<forall>t \<in> set queue. ident t \<noteq> ident input" "i < length queue"
      "\<not> persistent (queue ! i) \<or> toast_actions (queue ! i) = []"
      "q = take i queue @ drop (Suc i) queue @ [createToast input now uuid]"
  | (full) "\<forall>t \<in> set queue. ident t \<noteq> ident input" "input_action input = None" "q = queue"
proof (cases "findIndex (\<lambda>t. sameIdentity t input) queue")
  case (Some i)
  with findIndex_Some [OF Some] assms show ?thesis
    by (intro update [of i]) (auto simp: enqueueToast_def sameIdentity_iff Let_def)
next
  case None
  then have none: "\<forall>t \<in> set queue. ident t \<noteq> ident input" by (auto simp: findIndex_None sameIdentity_iff)
  show ?thesis
  proof (cases "length queue < MAX_VISIBLE_TOASTS")
    case True
    with None none assms show ?thesis by (intro append) (auto simp: enqueueToast_def)
  next
    case full_queue: False
    show ?thesis
    proof (cases "findIndex (\<lambda>c. \<not> persistent c) queue")
      case (Some i)
      with findIndex_Some [OF Some] None none full_queue assms show ?thesis
        by (intro replace [of i]) (auto simp: enqueueToast_def)
    next
      case persistents: None
      show ?thesis
      proof (cases "findIndex (\<lambda>c. length (toast_actions c) = 0) queue")
        case (Some i)
        with findIndex_Some [OF Some] persistents None none full_queue assms show ?thesis
          by (intro replace [of i]) (auto simp: enqueueToast_def)
      next
        case actionable: None
        with persistents None none full_queue assms show ?thesis
          by (intro full) (auto simp: enqueueToast_def split: option.splits if_splits)
      qed
    qed
  qed
qed

lemma enqueueToast_inv:
  assumes inv: "queue_inv queue" and q: "enqueueToast queue input now uuid = Inr q"
  shows "queue_inv q"
  using q
proof (cases rule: enqueueToast_Inr)
  case (update i)
  have "map ident q = map ident queue"
    using update by (intro nth_equalityI) (auto simp: nth_list_update)
  moreover have "toast_ok (queue ! i)" using inv update(1) by (auto simp: queue_inv_def list_all_length)
  then have "toast_ok (represent (queue ! i) input (appendAction (toast_actions (queue ! i)) (input_action input)) now)"
    by (intro represent_ok distinct_appendAction) (simp add: toast_ok_def)
  ultimately show ?thesis
    using inv update by (auto simp: queue_inv_def list_all_length nth_list_update)
next
  case append
  then show ?thesis using inv createToast_ok by (auto simp: queue_inv_def image_iff)
next
  case (replace i)
  note less = remove_nth [OF replace(2)]
  let ?rest = "take i queue @ drop (Suc i) queue"
  have "distinct (map ident ?rest)" by (rule less(1)) (use inv in \<open>simp add: queue_inv_def\<close>)
  moreover have "list_all toast_ok ?rest" "\<forall>t \<in> set ?rest. ident t \<noteq> ident input"
    using inv less(3) replace(1) by (auto simp: queue_inv_def list_all_iff)
  moreover have "length ?rest < length queue" by (rule less(2))
  ultimately show ?thesis
    using inv createToast_ok [of input now uuid] unfolding replace(4) queue_inv_def append_assoc [symmetric]
    by (auto simp del: append_assoc)
qed (use inv in simp)


lemma enqueueToast_Inl:
  assumes "enqueueToast queue input now uuid = Inl e"
  shows "MAX_VISIBLE_TOASTS \<le> length queue \<and> input_action input \<noteq> None \<and>
    (\<forall>t \<in> set queue. ident t \<noteq> ident input \<and> toast_actions t \<noteq> [])"
proof -
  have "findIndex (\<lambda>t. sameIdentity t input) queue = None" "\<not> length queue < MAX_VISIBLE_TOASTS"
    "findIndex (\<lambda>c. length (toast_actions c) = 0) queue = None" "input_action input \<noteq> None"
    using assms by (auto simp: enqueueToast_def Let_def split: option.splits if_splits)
  then show ?thesis by (auto simp: findIndex_None sameIdentity_iff)
qed

text \<open>The operations that rewrite or drop single notifications.\<close>

lemma flatMap_inv:
  assumes inv: "queue_inv q"
    and f: "\<And>t. t \<in> set q \<Longrightarrow> f t = [] \<or> (\<exists>t'. f t = [t'] \<and> ident t' = ident t \<and> toast_ok t')"
  shows "queue_inv (concat (map f q))"
proof -
  have "length (concat (map f q)) \<le> length q \<and>
      (distinct (map ident q) \<longrightarrow> distinct (map ident (concat (map f q)))) \<and>
      ident ` set (concat (map f q)) \<subseteq> ident ` set q \<and> list_all toast_ok (concat (map f q))"
    using f
  proof (induction q)
    case (Cons t q)
    then have IH: "length (concat (map f q)) \<le> length q"
      "distinct (map ident q) \<Longrightarrow> distinct (map ident (concat (map f q)))"
      "ident ` set (concat (map f q)) \<subseteq> ident ` set q" "list_all toast_ok (concat (map f q))" by auto
    from Cons.prems [of t] consider "f t = []" | t' where "f t = [t']" "ident t' = ident t" "toast_ok t'" by auto
    then show ?case
    proof cases
      case 1
      then show ?thesis using IH by auto
    next
      case 2
      then show ?thesis using IH by (simp only: list.map concat.simps) (auto 0 3)
    qed
  qed simp
  then show ?thesis using inv by (auto simp: queue_inv_def)
qed

lemma toast_okD: "queue_inv q \<Longrightarrow> t \<in> set q \<Longrightarrow> toast_ok t"
  by (auto simp: queue_inv_def list_all_iff)

lemma distinct_filter_actions: "distinct (map action_id acts) \<Longrightarrow> distinct (map action_id (filter P acts))"
  by (rule distinct_map_filter_key)

lemma toast_ok_actions: "toast_ok t \<Longrightarrow> toast_ok (t\<lparr>toast_actions := filter P (toast_actions t)\<rparr>)"
  by (auto simp: toast_ok_def distinct_filter_actions)

lemma settleToastAction_inv: "queue_inv q \<Longrightarrow> queue_inv (settleToastAction q i aid r now)"
  unfolding settleToastAction_def
proof (rule flatMap_inv)
  fix t assume "queue_inv q" "t \<in> set q"
  then have ok: "toast_ok t" by (rule toast_okD)
  then have "toast_ok (represent t x (without_action t aid) now)" for x
    by (intro represent_ok) (simp add: without_action_def distinct_filter_actions toast_ok_def)
  then show "(if \<not> sameIdentity t i then [t]
      else let acts = without_action t aid
        in case r of None \<Rightarrow> if length acts = 0 then [] else [t\<lparr>toast_actions := acts\<rparr>]
          | Some r \<Rightarrow> [represent t r acts now]) = [] \<or>
    (\<exists>t'. (if \<not> sameIdentity t i then [t]
      else let acts = without_action t aid
        in case r of None \<Rightarrow> if length acts = 0 then [] else [t\<lparr>toast_actions := acts\<rparr>]
          | Some r \<Rightarrow> [represent t r acts now]) = [t'] \<and> ident t' = ident t \<and> toast_ok t')"
    using ok toast_ok_actions [OF ok, of "\<lambda>a. action_id a \<noteq> aid"]
    by (auto simp: Let_def without_action_def split: option.split)
qed

lemma removeToastAction_inv: "queue_inv q \<Longrightarrow> queue_inv (removeToastAction q i aid)"
  using settleToastAction_inv [of q i aid None 0] by (simp only: settleToastAction_def removeToastAction_def option.case)

lemma dismissToastSnapshot_inv: "queue_inv q \<Longrightarrow> queue_inv (dismissToastSnapshot q tid n ids)"
  unfolding dismissToastSnapshot_def
proof (rule flatMap_inv)
  fix t assume "queue_inv q" "t \<in> set q"
  then have ok: "toast_ok t" by (rule toast_okD)
  let ?acts = "filter (\<lambda>a. action_id a \<notin> set ids) (toast_actions t)"
  have "toast_ok (t\<lparr>occurrences := max 1 k, toast_actions := ?acts\<rparr>)" for k
    using toast_ok_actions [OF ok, of "\<lambda>a. action_id a \<notin> set ids"] by (auto simp: toast_ok_def)
  with ok show "(if toast_id t \<noteq> tid then [t]
      else let acts = ?acts; later = occurrences t - n
        in if later = 0 \<and> length acts = 0 then [] else [t\<lparr>occurrences := max 1 later, toast_actions := acts\<rparr>]) = [] \<or>
    (\<exists>t'. (if toast_id t \<noteq> tid then [t]
      else let acts = ?acts; later = occurrences t - n
        in if later = 0 \<and> length acts = 0 then [] else [t\<lparr>occurrences := max 1 later, toast_actions := acts\<rparr>]) = [t'] \<and>
      ident t' = ident t \<and> toast_ok t')"
    by (auto simp: Let_def)
qed

lemma filter_queue_inv: "queue_inv q \<Longrightarrow> queue_inv (filter P q)"
  by (auto simp: queue_inv_def distinct_map_filter_key list_all_iff intro: order_trans [OF length_filter_le])

lemmas queue_inv_ops = settleToastAction_inv removeToastAction_inv dismissToastSnapshot_inv filter_queue_inv



section \<open>The actions on display\<close>

text \<open>What a queue offers: which notification, of which identity, shows which action.\<close>

definition shown :: "toast_queue \<Rightarrow> (jsstr \<times> (ToastOwner \<times> jsstr) \<times> jsstr) set" where
  "shown q = {(toast_id t, ident t, action_id a) | t a. t \<in> set q \<and> a \<in> set (toast_actions t)}"

lemma shown_simps [simp]:
  "shown [] = {}"
  "shown (t # q) = {(toast_id t, ident t, action_id a) | a. a \<in> set (toast_actions t)} \<union> shown q"
  "shown (q @ q') = shown q \<union> shown q'"
  by (auto simp: shown_def)

lemma shown_concat: "shown (concat (map f q)) = (\<Union>t \<in> set q. shown (f t))"
  by (induction q) auto

lemma shown_UN: "shown q = (\<Union>t \<in> set q. shown [t])"
  by (auto simp: shown_def)

lemma shown_settle:
  "shown (settleToastAction q i aid r now) = shown q - {(k, ident i, aid) | k. True}"
proof -
  have "shown (if \<not> sameIdentity t i then [t]
      else let acts = without_action t aid
        in case r of None \<Rightarrow> if length acts = 0 then [] else [t\<lparr>toast_actions := acts\<rparr>]
          | Some r \<Rightarrow> [represent t r acts now]) = shown [t] - {(k, ident i, aid) | k. True}" for t
    by (auto simp: sameIdentity_iff without_action_def Let_def filter_empty_conv split: option.split)
  then show ?thesis unfolding settleToastAction_def shown_concat by (subst (2) shown_UN) auto
qed

lemma shown_dismiss:
  "shown (dismissToastSnapshot q tid n ids) = shown q - {(tid, d, aid) | d aid. aid \<in> set ids}"
proof -
  have "shown (if toast_id t \<noteq> tid then [t]
      else let acts = filter (\<lambda>a. action_id a \<notin> set ids) (toast_actions t); later = occurrences t - n
        in if later = 0 \<and> length acts = 0 then [] else [t\<lparr>occurrences := max 1 later, toast_actions := acts\<rparr>]) =
      shown [t] - {(tid, d, aid) | d aid. aid \<in> set ids}" for t
    by (auto simp: Let_def filter_empty_conv)
  then show ?thesis unfolding dismissToastSnapshot_def shown_concat by (subst (2) shown_UN) auto
qed

lemma shown_resolve: "shown (resolveToast q i) = {x \<in> shown q. fst (snd x) \<noteq> ident i}"
proof -
  have "shown [t] = {x \<in> shown [t]. fst (snd x) \<noteq> ident i}" if "\<not> sameIdentity t i" for t
    using that by (auto simp: sameIdentity_iff)
  moreover have "{x \<in> shown [t]. fst (snd x) \<noteq> ident i} = {}" if "sameIdentity t i" for t
    using that by (auto simp: sameIdentity_iff)
  ultimately have "shown (if sameIdentity t i then [] else [t]) = {x \<in> shown [t]. fst (snd x) \<noteq> ident i}" for t
    by simp
  moreover have "resolveToast q i = concat (map (\<lambda>t. if sameIdentity t i then [] else [t]) q)"
    by (induction q) (auto simp: resolveToast_def)
  ultimately show ?thesis by (subst (2) shown_UN) (auto simp: shown_concat)
qed

lemma shown_append_action:
  "{action_id a | a. a \<in> set (appendAction acts x)} = {action_id a | a. a \<in> set acts} \<union> (case x of None \<Rightarrow> {} | Some a \<Rightarrow> {action_id a})"
  by (auto simp: appendAction_def list_ex_iff split: option.split) metis

text \<open>An accepted notification adds its own action, and nothing that was on display goes away.\<close>

lemma shown_enqueue:
  assumes inv: "queue_inv queue" and q: "enqueueToast queue input now uuid = Inr q"
  shows "\<exists>k. (\<forall>t \<in> set queue. ident t = ident input \<longrightarrow> k = toast_id t) \<and>
    shown q = shown queue \<union> (case input_action input of None \<Rightarrow> {} | Some a \<Rightarrow> {(k, ident input, action_id a)})"
  using q
proof (cases rule: enqueueToast_Inr)
  case (update i)
  let ?t = "queue ! i"
  have split: "queue = take i queue @ ?t # drop (Suc i) queue" by (rule id_take_nth_drop [OF update(1)])
  have whole: "shown queue = shown (take i queue) \<union> shown [?t] \<union> shown (drop (Suc i) queue)"
    using arg_cong [OF split, of shown] by (simp add: Un_ac)
  have "q = take i queue @ represent ?t input (appendAction (toast_actions ?t) (input_action input)) now # drop (Suc i) queue"
    using update(1,3) by (simp add: upd_conv_take_nth_drop)
  then have "shown q = shown (take i queue) \<union> {(toast_id ?t, ident ?t, action_id a) | a. a \<in> set (appendAction (toast_actions ?t) (input_action input))} \<union>
      shown (drop (Suc i) queue)" by auto
  also have "{(toast_id ?t, ident ?t, action_id a) | a. a \<in> set (appendAction (toast_actions ?t) (input_action input))} =
      shown [?t] \<union> (case input_action input of None \<Rightarrow> {} | Some a \<Rightarrow> {(toast_id ?t, ident ?t, action_id a)})"
    using shown_append_action [of "toast_actions ?t" "input_action input"] by (auto simp: shown_def split: option.splits)
  finally have "shown q = shown queue \<union> (case input_action input of None \<Rightarrow> {} | Some a \<Rightarrow> {(toast_id ?t, ident input, action_id a)})"
    using whole by (simp only: update(2) Un_ac)
  moreover have "t = ?t" if "t \<in> set queue" "ident t = ident input" for t
    using that update inv distinct_key_eq [of ident queue t ?t] by (auto simp: queue_inv_def)
  ultimately show ?thesis by blast
next
  case append
  then show ?thesis by (intro exI [of _ "toast_id (createToast input now uuid)"]) (auto split: option.split)
next
  case (replace i)
  have "toast_actions (queue ! i) = []"
    using replace toast_okD [OF inv, of "queue ! i"] by (auto simp: toast_ok_def)
  then have "shown queue = shown (take i queue @ drop (Suc i) queue)"
    by (subst id_take_nth_drop [OF replace(2)]) auto
  then show ?thesis using replace
    by (intro exI [of _ "toast_id (createToast input now uuid)"]) (auto split: option.split)
next
  case full
  then show ?thesis by auto
qed

text \<open>
  No notification pushes an action off the display. A call of \<open>enqueueToast\<close> on a well-formed queue that returns keeps the queue
  within six notifications with distinct identities, keeps every action that was offered, and adds
  exactly the action of the new notification.
\<close>

theorem enqueue_keeps_actions:
  assumes "queue_inv queue" and "enqueueToast queue input now uuid = Inr q"
  shows "length q \<le> 6 \<and> distinct (map ident q) \<and>
    (\<exists>k. shown q = shown queue \<union> (case input_action input of None \<Rightarrow> {} | Some a \<Rightarrow> {(k, ident input, action_id a)}))"
  using enqueueToast_inv [OF assms] shown_enqueue [OF assms] by (auto simp: queue_inv_def MAX_VISIBLE_TOASTS_def)

definition demo_toast_input :: ToastInput where
  "demo_toast_input = \<lparr>toast_owner = Harness, toast_scope = js ''x'', input_severity = Info, input_title = js ''t'',
     input_message = js ''m'', input_action = Some \<lparr>action_id = js ''a'', action_label = js ''Retry'', action_action = js ''palette.open''\<rparr>,
     input_persistent = None\<rparr>"

theorem enqueue_keeps_actions_witness:
  "\<exists>q. enqueueToast [] demo_toast_input 0 (js ''u'') = Inr q \<and> length q \<le> 6 \<and>
     (\<exists>k. shown q = {(k, (Harness, js ''x''), js ''a'')})"
proof -
  have "enqueueToast [] demo_toast_input 0 (js ''u'') = Inr [createToast demo_toast_input 0 (js ''u'')]"
    by (simp add: enqueueToast_def MAX_VISIBLE_TOASTS_def)
  moreover have "queue_inv []" by (simp add: queue_inv_def)
  ultimately show ?thesis
    using enqueue_keeps_actions [of "[]" demo_toast_input 0 "js ''u''"] by (fastforce simp: demo_toast_input_def)
qed

end
