(* ===== verification/Studio_Operations.thy ===== *)
theory Studio_Operations
  imports Toast_Queue
begin

text \<open>
  The closed set of actions of the product surface, \<open>src/app/src/contracts/studioOperations.ts\<close>, and the
  notification that an operation's outcome is shown as, \<open>src/app/src/components/operationToasts.ts\<close>.

  An action identifier is a \<open>string\<close> of the table; the payload of an action other than the
  dismissal of a notification is an arbitrary value, which nothing here reads.

  Shown: which control bindings are accepted, and that what reaches the notification depends on the payload in no way.
\<close>

section \<open>Operations, outcomes and authorities\<close>

type_synonym StudioActionId = string

datatype payload = Toast_Id jsstr | Payload jtree

record StudioOperation =
  op_operationId :: "jsstr option"
  op_action :: StudioActionId
  op_payload :: payload

datatype outcome_status = Accepted_S | Queued_S | Updated_S | Cancelled_S | Unavailable_S | Rejected_S | Unknown_outcome_S

datatype StudioOperationOutcome =
  Accepted jsstr
| Queued jsstr "int option"
| Updated "jsstr + int" "jsstr option"
| Cancelled "jsstr option"
| Unavailable jsstr
| Rejected jsstr bool
| Unknown_outcome jsstr jsstr

datatype StudioActionAuthority =
  By_harness string
| By_studio_durable string
| By_renderer string
| By_native string
| By_nobody string

record StudioActionDescriptor =
  descriptor_owner :: StudioActionAuthority
  descriptor_outcomes :: "outcome_status list"

fun by_nobody :: "StudioActionAuthority \<Rightarrow> bool" where
  "by_nobody (By_nobody _) \<longleftrightarrow> True"
| "by_nobody _ \<longleftrightarrow> False"

definition action_H :: "string \<Rightarrow> StudioActionDescriptor" where
  "action_H capability = \<lparr>descriptor_owner = By_harness capability,
     descriptor_outcomes = [Accepted_S, Queued_S, Updated_S, Cancelled_S, Unavailable_S, Rejected_S, Unknown_outcome_S]\<rparr>"

definition action_D :: "string \<Rightarrow> StudioActionDescriptor" where
  "action_D store = \<lparr>descriptor_owner = By_studio_durable store, descriptor_outcomes = [Updated_S, Unavailable_S, Rejected_S]\<rparr>"

definition action_R :: "string \<Rightarrow> StudioActionDescriptor" where
  "action_R persistence = \<lparr>descriptor_owner = By_renderer persistence, descriptor_outcomes = [Updated_S, Unavailable_S, Rejected_S]\<rparr>"

definition action_N :: "string \<Rightarrow> StudioActionDescriptor" where
  "action_N boundary = \<lparr>descriptor_owner = By_native boundary, descriptor_outcomes = [Updated_S, Cancelled_S, Unavailable_S, Rejected_S]\<rparr>"

definition action_U :: "string \<Rightarrow> StudioActionDescriptor" where
  "action_U reason = \<lparr>descriptor_owner = By_nobody reason, descriptor_outcomes = [Unavailable_S]\<rparr>"

definition STUDIO_ACTIONS :: "(StudioActionId \<times> StudioActionDescriptor) list" where
  "STUDIO_ACTIONS = [
    (''window.minimize'', action_N ''window''), (''window.maximize-toggle'', action_N ''window''), (''window.close'', action_N ''window''),
    (''layout.sidebar.toggle'', action_R ''layout_preferences''), (''layout.sidebar.resize'', action_R ''layout_preferences''),
    (''layout.sidebar.reset'', action_R ''layout_preferences''), (''layout.inspector.toggle'', action_R ''layout_preferences''),
    (''layout.inspector.resize'', action_R ''layout_preferences''), (''layout.inspector.reset'', action_R ''layout_preferences''),
    (''layout.editor.toggle'', action_R ''layout_preferences''), (''layout.editor.resize'', action_R ''layout_preferences''),
    (''layout.editor.close'', action_R ''layout_preferences''), (''layout.panels.reset'', action_R ''layout_preferences''),
    (''overlay.topmost.close'', action_R ''none''), (''surface.popover.toggle'', action_R ''none''),
    (''surface.accordion.toggle'', action_R ''none''), (''route.workspace.open'', action_R ''none''), (''route.settings.open'', action_R ''none''),
    (''route.settings.back'', action_R ''none''), (''route.archived.open'', action_R ''none''),
    (''route.external-docs.open'', action_N ''external_url''), (''catalog.project.create'', action_D ''project_catalog''),
    (''catalog.project.restore'', action_D ''project_catalog''), (''catalog.project.toggle'', action_R ''layout_preferences''),
    (''catalog.chat.create'', action_D ''project_catalog''), (''catalog.chat.select'', action_R ''none''),
    (''catalog.chat.rename'', action_D ''project_catalog''), (''catalog.chat.duplicate'', action_D ''project_catalog''),
    (''catalog.chat.move'', action_D ''project_catalog''), (''catalog.chat.pin-toggle'', action_D ''project_catalog''),
    (''catalog.chat.archive'', action_D ''project_catalog''), (''catalog.chat.restore'', action_D ''project_catalog''),
    (''catalog.chat.delete'', action_D ''project_catalog''), (''catalog.chat.unread-clear'', action_D ''project_catalog''),
    (''workspace.switch'', action_D ''settings''), (''workspace.sign-out'', action_D ''settings''),
    (''conversation.user-edit.start'', action_R ''none''), (''conversation.user-edit.cancel'', action_R ''none''),
    (''conversation.user-version.create'', action_H ''resident_sessions''), (''conversation.user-version.select'', action_D ''chat_display''),
    (''conversation.assistant-version.select'', action_D ''chat_display''),
    (''conversation.response.regenerate'', action_H ''session_input_admission''), (''conversation.branch.create'', action_H ''resident_sessions''),
    (''conversation.response.copy'', action_N ''clipboard''), (''conversation.canvas.open'', action_R ''none''),
    (''conversation.files.review'', action_H ''resource_snapshot''),
    (''conversation.files.undo'', action_U ''Prime Harness exposes no verified reversible patch capability.''),
    (''conversation.work-details.toggle'', action_R ''none''), (''conversation.suggestion.fill'', action_R ''drafts''),
    (''conversation.archive-fork'', action_H ''resident_sessions''), (''conversation.history.page'', action_H ''attach_snapshot''),
    (''composer.draft.change'', action_R ''drafts''), (''composer.attachment.pick'', action_N ''dialog''),
    (''composer.attachment.drop'', action_N ''dialog''), (''composer.attachment.remove'', action_R ''drafts''),
    (''composer.kernel-variable.insert'', action_U ''No reviewed kernel-variable insertion capability is available.''),
    (''composer.model.select'', action_H ''model_catalog''), (''composer.thinking.select'', action_H ''model_catalog''),
    (''composer.voice.start'', action_U ''Voice capture has no implemented privacy and native-audio contract.''),
    (''composer.voice.stop'', action_U ''Voice capture has no implemented privacy and native-audio contract.''),
    (''composer.slash.select'', action_R ''drafts''), (''composer.slash.execute'', action_H ''core_session''),
    (''harness.session.prompt'', action_H ''session_input_admission''), (''harness.session.follow-up'', action_H ''queue_management''),
    (''harness.session.steer'', action_H ''session_input_admission''), (''harness.session.abort'', action_H ''prompt_admission_cancellation''),
    (''harness.session.export'', action_N ''file_write''), (''harness.tab.select'', action_R ''none''),
    (''harness.session.compact'', action_H ''core_session''), (''harness.child.open'', action_R ''none''),
    (''harness.child.back'', action_R ''none''), (''harness.child.tab-select'', action_R ''none''),
    (''harness.child.stop'', action_H ''delete_child''), (''harness.child.transcript-page'', action_H ''attach_snapshot''),
    (''harness.queue.run-now'', action_H ''queue_management''), (''harness.queue.remove'', action_H ''queue_management''),
    (''harness.tool.set-enabled'', action_H ''core_session''), (''harness.context-source.open'', action_H ''resource_snapshot''),
    (''harness.overload.retry'', action_H ''prompt_admission_cancellation''), (''harness.overload.dismiss'', action_D ''chat_display''),
    (''harness.extension.respond'', action_H ''extension_ui''), (''usage.current.refresh'', action_H ''attach_snapshot''),
    (''usage.account.open'', action_R ''none''), (''usage.account.range-select'', action_R ''none''),
    (''usage.account.refresh'', action_D ''usage_ledger''), (''usage.account.export-csv'', action_N ''file_write''),
    (''usage.account.series-toggle'', action_R ''none''), (''activity.filter.select'', action_R ''none''),
    (''activity.row.toggle'', action_R ''none''), (''activity.command.copy'', action_N ''clipboard''),
    (''activity.file.open'', action_H ''resource_snapshot''), (''activity.child.open'', action_R ''none''),
    (''activity.seen.mark'', action_D ''chat_display''), (''editor.artifact.open'', action_H ''resource_snapshot''),
    (''editor.mode.select'', action_R ''none''), (''editor.content.change'', action_R ''none''), (''editor.file.save'', action_N ''file_write''),
    (''editor.canvas.apply'', action_D ''chat_display''), (''editor.conflict.reload'', action_N ''file_write''),
    (''editor.conflict.save-copy'', action_N ''file_write''), (''settings.default-workspace.pick'', action_N ''dialog''),
    (''settings.search.change'', action_R ''none''), (''settings.section.select'', action_R ''none''),
    (''settings.preference.set'', action_D ''settings''), (''settings.preference.reset'', action_D ''settings''),
    (''settings.harness-policy.set'', action_H ''core_session''), (''settings.model-default.set'', action_D ''settings''),
    (''settings.tool.set-enabled'', action_H ''core_session''), (''settings.updates.check'', action_U ''No signed update channel is configured.''),
    (''account.add'', action_D ''settings''), (''account.use'', action_D ''settings''), (''account.set-default'', action_D ''settings''),
    (''account.remove'', action_D ''settings''), (''account.sign-out'', action_D ''settings''), (''palette.open'', action_R ''none''),
    (''palette.close'', action_R ''none''), (''palette.query.change'', action_R ''none''), (''palette.result.execute'', action_R ''none''),
    (''clipboard.cut'', action_N ''clipboard''), (''clipboard.copy-selection'', action_N ''clipboard''),
    (''clipboard.paste'', action_N ''clipboard''), (''history.undo'', action_N ''clipboard''), (''history.redo'', action_N ''clipboard''),
    (''toast.dismiss'', action_R ''none'')
  ]"

text \<open>
  The names that every object inherits: the test \<open>action in STUDIO_ACTIONS\<close> is true of them, and reading
  \<open>owner.kind\<close> of what they name raises.
\<close>

definition inherited_names :: "string list" where
  "inherited_names = [''constructor'', ''__defineGetter__'', ''__defineSetter__'', ''hasOwnProperty'', ''__lookupGetter__'',
     ''__lookupSetter__'', ''isPrototypeOf'', ''propertyIsEnumerable'', ''toString'', ''valueOf'', ''__proto__'', ''toLocaleString'']"

record InteractiveControlBinding =
  controlId :: jsstr
  binding_action :: StudioActionId
  disabledReason :: "jsstr option"

datatype binding_error =
  Control_id_required
| Action_unknown jsstr StudioActionId
| Disabled_reason_required jsstr StudioActionId
| Owner_of_undefined

definition createControlBinding :: "jsstr \<Rightarrow> StudioActionId \<Rightarrow> jsstr option \<Rightarrow> binding_error + InteractiveControlBinding" where
  "createControlBinding control action reason =
     (if js_trim control = [] then Inl Control_id_required
      else case map_of STUDIO_ACTIONS action of
        None \<Rightarrow> if action \<in> set inherited_names then Inl Owner_of_undefined else Inl (Action_unknown control action)
      | Some d \<Rightarrow>
          (case descriptor_owner d of
             By_nobody _ \<Rightarrow>
               (case reason of
                  None \<Rightarrow> Inl (Disabled_reason_required control action)
                | Some r \<Rightarrow>
                    if js_trim r = [] then Inl (Disabled_reason_required control action)
                    else Inr \<lparr>controlId = control, binding_action = action, disabledReason = reason\<rparr>)
           | _ \<Rightarrow> Inr \<lparr>controlId = control, binding_action = action, disabledReason = reason\<rparr>))"

text \<open>
  \<open>validateControlBindings\<close>: the loop over the bindings, with the set of the identifiers seen. The name printed for an empty
  identifier is \<open><missing>\<close>.
\<close>

datatype validation_error =
  Must_map_to_known jsstr
| Duplicate_control jsstr
| Reason_required jsstr
| Descriptor_of_undefined

fun validate_loop :: "InteractiveControlBinding list \<Rightarrow> jsstr list \<Rightarrow> validation_error + unit" where
  "validate_loop [] ids = Inr ()"
| "validate_loop (b # bs) ids =
     (if js_trim (controlId b) = [] \<or>
         map_of STUDIO_ACTIONS (binding_action b) = None \<and> binding_action b \<notin> set inherited_names
      then Inl (Must_map_to_known (if controlId b = [] then js ''<missing>'' else controlId b))
      else if controlId b \<in> set ids then Inl (Duplicate_control (controlId b))
      else case map_of STUDIO_ACTIONS (binding_action b) of
        None \<Rightarrow> Inl Descriptor_of_undefined
      | Some d \<Rightarrow>
          if (by_nobody (descriptor_owner d) \<or> disabledReason b \<noteq> None) \<and>
             (case disabledReason b of None \<Rightarrow> True | Some r \<Rightarrow> js_trim r = [])
          then Inl (Reason_required (controlId b))
          else validate_loop bs (controlId b # ids))"

definition validateControlBindings :: "InteractiveControlBinding list \<Rightarrow> validation_error + nat" where
  "validateControlBindings bindings = ebind (validate_loop bindings []) (\<lambda>_. Inr (length bindings))"


section \<open>Dispatch\<close>

text \<open>What an executor's promise may settle to: an outcome, nothing although the types exclude it, or an exception.\<close>

datatype executor_result = Outcome StudioOperationOutcome | No_outcome | Throws "jsstr option"

record StudioOperationExecutors =
  harness_executor :: "StudioOperation \<Rightarrow> executor_result"
  studioDurable_executor :: "StudioOperation \<Rightarrow> executor_result"
  renderer_executor :: "StudioOperation \<Rightarrow> executor_result"
  native_executor :: "StudioOperation \<Rightarrow> executor_result"
  unsupported_executor :: "StudioOperation \<Rightarrow> executor_result"

fun status_of :: "StudioOperationOutcome \<Rightarrow> outcome_status" where
  "status_of (Accepted _) = Accepted_S"
| "status_of (Queued _ _) = Queued_S"
| "status_of (Updated _ _) = Updated_S"
| "status_of (Cancelled _) = Cancelled_S"
| "status_of (Unavailable _) = Unavailable_S"
| "status_of (Rejected _ _) = Rejected_S"
| "status_of (Unknown_outcome _ _) = Unknown_outcome_S"

fun executor_for :: "StudioActionAuthority \<Rightarrow> StudioOperationExecutors \<Rightarrow> StudioOperation \<Rightarrow> executor_result" where
  "executor_for (By_studio_durable _) ex = studioDurable_executor ex"
| "executor_for (By_nobody _) ex = unsupported_executor ex"
| "executor_for (By_harness _) ex = harness_executor ex"
| "executor_for (By_renderer _) ex = renderer_executor ex"
| "executor_for (By_native _) ex = native_executor ex"

datatype dispatch_error =
  Descriptor_missing
| Executor_threw "jsstr option"
| Returned_no_outcome StudioActionId
| Disallowed_outcome StudioActionId outcome_status

definition dispatchStudioOperation ::
  "StudioOperation \<Rightarrow> StudioOperationExecutors \<Rightarrow> dispatch_error + StudioOperationOutcome" where
  "dispatchStudioOperation operation ex =
     (case map_of STUDIO_ACTIONS (op_action operation) of
        None \<Rightarrow> Inl Descriptor_missing
      | Some d \<Rightarrow>
          (case executor_for (descriptor_owner d) ex operation of
             Throws e \<Rightarrow> Inl (Executor_threw e)
           | No_outcome \<Rightarrow> Inl (Returned_no_outcome (op_action operation))
           | Outcome out \<Rightarrow>
               if status_of out \<notin> set (descriptor_outcomes d)
               then Inl (Disallowed_outcome (op_action operation) (status_of out))
               else Inr out))"


section \<open>The notification of an outcome\<close>

record OperationToastProjection =
  projected_identity :: ToastIdentity
  projected_operationId :: jsstr
  projected_toast :: "ToastInput option"

record AdmittedOperation =
  admitted_action :: StudioActionId
  admitted_payload :: payload
  operationId :: jsstr

fun authority_owner :: "StudioActionAuthority \<Rightarrow> ToastOwner" where
  "authority_owner (By_harness _) = Harness"
| "authority_owner (By_studio_durable _) = Studio_durable"
| "authority_owner (By_renderer _) = Renderer"
| "authority_owner (By_native _) = Native"
| "authority_owner (By_nobody _) = Unsupported"

text \<open>An action outside the table has no descriptor: reading its \<open>owner\<close> raises.\<close>

definition ownerFor :: "AdmittedOperation \<Rightarrow> js_error + ToastOwner" where
  "ownerFor op =
     (case map_of STUDIO_ACTIONS (admitted_action op) of
        None \<Rightarrow> Inl (TypeError ''Cannot read properties of undefined'')
      | Some d \<Rightarrow> Inr (authority_owner (descriptor_owner d)))"

definition safeScope :: "AdmittedOperation \<Rightarrow> jsstr" where
  "safeScope op = json_key (TArr [TStr (js ''operation''), TStr (js (admitted_action op))])"

fun toast_subject :: "ToastOwner \<Rightarrow> string" where
  "toast_subject Harness = ''Harness request''"
| "toast_subject Studio_durable = ''Studio data operation''"
| "toast_subject Native = ''System operation''"
| "toast_subject Runtime = ''Runtime operation''"
| "toast_subject Unsupported = ''Unsupported operation''"
| "toast_subject Renderer = ''Studio operation''"

definition toast_heading :: "ToastOwner \<Rightarrow> bool \<Rightarrow> jsstr" where
  "toast_heading ow unknown = js (toast_subject ow @ '' '' @ (if unknown then ''outcome unknown'' else ''failed''))"

fun failure :: "StudioOperationOutcome \<Rightarrow> (jsstr \<times> bool \<times> bool) option" where
  "failure (Unavailable reason) = Some (reason, False, False)"
| "failure (Rejected reason retryable) = Some (reason, retryable, False)"
| "failure (Unknown_outcome _ reason) = Some (reason, False, True)"
| "failure _ = None"

definition projectOperationToast :: "AdmittedOperation \<Rightarrow> StudioOperationOutcome \<Rightarrow> js_error + OperationToastProjection" where
  "projectOperationToast op outcome =
     ebind (ownerFor op) (\<lambda>ow.
       let ident = \<lparr>toast_owner = ow, toast_scope = safeScope op\<rparr>
       in Inr \<lparr>projected_identity = ident, projected_operationId = operationId op,
            projected_toast =
              (case failure outcome of
                 None \<Rightarrow> None
               | Some (reason, retryable, unknown) \<Rightarrow>
                   Some \<lparr>toast_owner = ow, toast_scope = safeScope op, input_severity = Error,
                     input_title = toast_heading ow unknown, input_message = take 300 reason,
                     input_action =
                       (if retryable
                        then Some \<lparr>action_id = operationId op, action_label = js ''Retry'', action_action = js (admitted_action op)\<rparr>
                        else None),
                     input_persistent = None\<rparr>)\<rparr>)"


section \<open>The table\<close>

definition unsupported_actions :: "StudioActionId list" where
  "unsupported_actions = [''conversation.files.undo'', ''composer.kernel-variable.insert'', ''composer.voice.start'',
     ''composer.voice.stop'', ''settings.updates.check'']"

lemma table_owners:
  "list_all (\<lambda>(a, d). by_nobody (descriptor_owner d) = (a \<in> set unsupported_actions)) STUDIO_ACTIONS"
  by code_simp

lemma table_inherits_nothing: "list_all (\<lambda>a. map_of STUDIO_ACTIONS a = None) inherited_names"
  by code_simp

lemma lookup_owner:
  "map_of STUDIO_ACTIONS a = Some d \<Longrightarrow> by_nobody (descriptor_owner d) \<longleftrightarrow> a \<in> set unsupported_actions"
  using table_owners by (auto simp: list_all_iff dest!: map_of_SomeD)

lemma createControlBinding_known:
  "map_of STUDIO_ACTIONS action = Some d \<Longrightarrow> js_trim control \<noteq> [] \<Longrightarrow>
   createControlBinding control action reason =
     (if by_nobody (descriptor_owner d) \<and> (case reason of None \<Rightarrow> True | Some r \<Rightarrow> js_trim r = [])
      then Inl (Disabled_reason_required control action)
      else Inr \<lparr>controlId = control, binding_action = action, disabledReason = reason\<rparr>)"
  by (cases "descriptor_owner d") (auto simp: createControlBinding_def split: option.split)

text \<open>
  A control is bound exactly when its identifier is not blank, its action is one of the table's, and it gives a
  reason that is not blank if the action is one of the five that nothing implements; in particular
  the names that objects inherit are refused although the table answers to them. The binding is the triple asked for.
\<close>

theorem control_bindings_exact:
  "createControlBinding control action reason = Inr b \<longleftrightarrow>
     js_trim control \<noteq> [] \<and> action \<in> fst ` set STUDIO_ACTIONS \<and>
     (action \<in> set unsupported_actions \<longrightarrow> (\<exists>r. reason = Some r \<and> js_trim r \<noteq> [])) \<and>
     b = \<lparr>controlId = control, binding_action = action, disabledReason = reason\<rparr>"
proof (cases "js_trim control \<noteq> [] \<and> map_of STUDIO_ACTIONS action \<noteq> None")
  case True
  then obtain d where d: "map_of STUDIO_ACTIONS action = Some d" "js_trim control \<noteq> []" by auto
  then have "action \<in> fst ` set STUDIO_ACTIONS" by (metis map_of_eq_None_iff option.distinct(1))
  with createControlBinding_known [OF d] lookup_owner [OF d(1)] d show ?thesis by (auto split: option.splits)
next
  case False
  then consider "js_trim control = []" | "map_of STUDIO_ACTIONS action = None" by auto
  then show ?thesis
  proof cases
    case 2
    then have "action \<notin> fst ` set STUDIO_ACTIONS" by (simp add: map_of_eq_None_iff)
    moreover have "createControlBinding control action reason \<noteq> Inr b" unfolding createControlBinding_def 2 by simp
    ultimately show ?thesis by blast
  qed (simp add: createControlBinding_def)
qed

theorem control_bindings_exact_witness:
  "createControlBinding (js ''voice'') ''composer.voice.start'' (Some (js ''No microphone'')) =
     Inr \<lparr>controlId = js ''voice'', binding_action = ''composer.voice.start'', disabledReason = Some (js ''No microphone'')\<rparr>"
proof -
  have "js_trim (js ''voice'') \<noteq> []" "js_trim (js ''No microphone'') \<noteq> []" by code_simp+
  moreover have "map_of STUDIO_ACTIONS ''composer.voice.start'' \<noteq> None" by code_simp
  then have "''composer.voice.start'' \<in> fst ` set STUDIO_ACTIONS" by (metis map_of_eq_None_iff)
  ultimately show ?thesis using control_bindings_exact by blast
qed


section \<open>What a dispatch can return\<close>

fun by_harness :: "StudioActionAuthority \<Rightarrow> bool" where
  "by_harness (By_harness _) \<longleftrightarrow> True"
| "by_harness _ \<longleftrightarrow> False"

fun by_native :: "StudioActionAuthority \<Rightarrow> bool" where
  "by_native (By_native _) \<longleftrightarrow> True"
| "by_native _ \<longleftrightarrow> False"

text \<open>The outcomes that each authority may report.\<close>

fun may_report :: "StudioActionAuthority \<Rightarrow> outcome_status \<Rightarrow> bool" where
  "may_report ow Unavailable_S \<longleftrightarrow> True"
| "may_report ow Rejected_S \<longleftrightarrow> \<not> by_nobody ow"
| "may_report ow Updated_S \<longleftrightarrow> \<not> by_nobody ow"
| "may_report ow Cancelled_S \<longleftrightarrow> by_harness ow \<or> by_native ow"
| "may_report ow _ \<longleftrightarrow> by_harness ow"

lemma table_outcomes:
  "list_all (\<lambda>(a, d). list_all (\<lambda>s. may_report (descriptor_owner d) s \<longleftrightarrow> s \<in> set (descriptor_outcomes d))
     [Accepted_S, Queued_S, Updated_S, Cancelled_S, Unavailable_S, Rejected_S, Unknown_outcome_S]) STUDIO_ACTIONS"
  by code_simp

lemma lookup_outcomes:
  assumes "map_of STUDIO_ACTIONS a = Some d"
  shows "s \<in> set (descriptor_outcomes d) \<longleftrightarrow> may_report (descriptor_owner d) s"
  using table_outcomes map_of_SomeD [OF assms] by (cases s) (auto simp: list_all_iff)

text \<open>
  C34: a dispatch returns exactly what the executor of the action's own authority answered, and only an outcome
  which that authority may report: an unknown outcome, an acceptance or a place in a queue only from the harness, a cancellation only
  from the harness or the operating system, and nothing but unavailability for an unsupported action.
\<close>

theorem dispatch_outcomes_by_authority:
  "dispatchStudioOperation operation ex = Inr out \<longleftrightarrow>
     (\<exists>d. map_of STUDIO_ACTIONS (op_action operation) = Some d \<and> may_report (descriptor_owner d) (status_of out) \<and>
        Outcome out = (case authority_owner (descriptor_owner d) of
          Harness \<Rightarrow> harness_executor ex operation
        | Studio_durable \<Rightarrow> studioDurable_executor ex operation
        | Renderer \<Rightarrow> renderer_executor ex operation
        | Native \<Rightarrow> native_executor ex operation
        | Unsupported \<Rightarrow> unsupported_executor ex operation
        | Runtime \<Rightarrow> No_outcome))"
proof (cases "map_of STUDIO_ACTIONS (op_action operation)")
  case (Some d)
  have "executor_for (descriptor_owner d) ex operation = (case authority_owner (descriptor_owner d) of
          Harness \<Rightarrow> harness_executor ex operation
        | Studio_durable \<Rightarrow> studioDurable_executor ex operation
        | Renderer \<Rightarrow> renderer_executor ex operation
        | Native \<Rightarrow> native_executor ex operation
        | Unsupported \<Rightarrow> unsupported_executor ex operation
        | Runtime \<Rightarrow> No_outcome)"
    by (cases "descriptor_owner d") simp_all
  then show ?thesis
    using Some lookup_outcomes [OF Some] by (auto simp: dispatchStudioOperation_def split: executor_result.splits)
qed (simp add: dispatchStudioOperation_def)

text \<open>A list of bindings is valid exactly when its identifiers are distinct and each binding is complete.\<close>

definition complete_binding :: "InteractiveControlBinding \<Rightarrow> bool" where
  "complete_binding b \<longleftrightarrow>
     js_trim (controlId b) \<noteq> [] \<and> binding_action b \<in> fst ` set STUDIO_ACTIONS \<and>
     (case disabledReason b of None \<Rightarrow> binding_action b \<notin> set unsupported_actions | Some r \<Rightarrow> js_trim r \<noteq> [])"

lemma validate_loop_Inr:
  "validate_loop bs ids = Inr u \<longleftrightarrow>
     list_all complete_binding bs \<and> distinct (map controlId bs) \<and> controlId ` set bs \<inter> set ids = {}"
proof (induction bs arbitrary: ids)
  case (Cons b bs)
  show ?case
  proof (cases "map_of STUDIO_ACTIONS (binding_action b)")
    case None
    then have "binding_action b \<notin> fst ` set STUDIO_ACTIONS" by (simp add: map_of_eq_None_iff)
    then show ?thesis using None by (auto simp: complete_binding_def)
  next
    case (Some d)
    then have "binding_action b \<in> fst ` set STUDIO_ACTIONS" by (metis map_of_eq_None_iff option.distinct(1))
    then show ?thesis
      using Some lookup_owner [OF Some] Cons.IH by (auto simp: complete_binding_def split: option.splits)
  qed
qed simp

text \<open>
  \<open>validateControlBindings\<close> accepts a list exactly when its control identifiers are distinct
  and every binding is complete, and then reports its length. A blank reason makes a binding incomplete even where none is required,
  so not everything that \<open>createControlBinding\<close> returns is valid.
\<close>

theorem validateControlBindings_exact:
  "(validateControlBindings bs = Inr n) = (list_all complete_binding bs \<and> distinct (map controlId bs) \<and> n = length bs) \<and>
   (\<exists>b. createControlBinding (js ''c'') ''palette.open'' (Some []) = Inr b \<and> validateControlBindings [b] \<noteq> Inr 1)"
proof -
  have all: "validateControlBindings bs = Inr n \<longleftrightarrow> list_all complete_binding bs \<and> distinct (map controlId bs) \<and> n = length bs" for bs n
    using validate_loop_Inr [of bs "[]"] by (auto simp: validateControlBindings_def ebind_Inr_iff)
  have "map_of STUDIO_ACTIONS ''palette.open'' = Some (action_R ''none'')" "js_trim (js ''c'') \<noteq> []" by code_simp+
  then have "createControlBinding (js ''c'') ''palette.open'' (Some []) =
      Inr \<lparr>controlId = js ''c'', binding_action = ''palette.open'', disabledReason = Some []\<rparr>"
    by (simp add: createControlBinding_known action_R_def)
  then show ?thesis using all by (simp add: complete_binding_def js_trim_def)
qed

end
