(* ===== verification/Toast_Coordinator.thy ===== *)
theory Toast_Coordinator
  imports Studio_Operations
begin

text \<open>
  The coordinator of retryable operations, \<open>src/app/src/components/toastOperationCoordinator.ts\<close>.

  An asynchronous method runs up to its \<open>await\<close> of the dispatcher, and goes on when the dispatcher
  answers; other calls may happen in between. So each method is two steps here: the part before the
  \<open>await\<close>, which leaves a record of what is awaited in \<open>pending\<close>, and \<open>Resume\<close>, which takes the
  dispatcher's answer (an outcome, or an exception) for one of them, in any order. The dispatcher, the random
  identifiers and the clock are arguments of the events. The listener, which only reads the queue, is not modelled.

  Shown: for every interleaving, the failures on display that offer a retry are exactly the operations
  the coordinator can retry, they never exceed the capacity of the queue, and the exception that the queue reserves for
  a breach of that capacity is never raised.
\<close>

definition MAX_ACTIONABLE_OPERATIONS :: nat where
  "MAX_ACTIONABLE_OPERATIONS = MAX_VISIBLE_TOASTS - 1"

datatype pending_call =
  Executing AdmittedOperation
| Retrying AdmittedOperation
| Dismissing AdmittedOperation (pending_toast: jsstr) (covered_occurrences: nat) (covered_actions: "jsstr list")

record coordinator =
  queue :: toast_queue
  actions :: "(jsstr \<times> AdmittedOperation) list"
  reservations :: "jsstr list"
  retrying :: "jsstr list"
  dismissingToastIds :: "jsstr list"
  admissionSequence :: nat
  pending :: "pending_call list"

definition new_coordinator :: coordinator where
  "new_coordinator = \<lparr>queue = [], actions = [], reservations = [], retrying = [], dismissingToastIds = [],
     admissionSequence = 0, pending = []\<rparr>"

definition CAPACITY_IDENTITY :: ToastIdentity where
  "CAPACITY_IDENTITY = \<lparr>toast_owner = Renderer, toast_scope = js ''queue.hard-capacity''\<rparr>"

fun completed_outcome :: "StudioOperationOutcome \<Rightarrow> bool" where
  "completed_outcome (Accepted _) = True"
| "completed_outcome (Queued _ _) = True"
| "completed_outcome (Updated _ _) = True"
| "completed_outcome (Cancelled _) = True"
| "completed_outcome _ = False"

text \<open>What the dispatcher does: it answers, or it raises an \<open>Error\<close> with a message or another value.\<close>

datatype dispatch_result = Returned StudioOperationOutcome | Raised "jsstr option"

definition uncertain_outcome :: "jsstr \<Rightarrow> jsstr option \<Rightarrow> StudioOperationOutcome" where
  "uncertain_outcome oid err =
     Unknown_outcome oid (case err of Some msg \<Rightarrow> msg | None \<Rightarrow> js ''The operation outcome is unknown.'')"

definition outcome_of :: "jsstr \<Rightarrow> dispatch_result \<Rightarrow> StudioOperationOutcome" where
  "outcome_of oid r = (case r of Returned out \<Rightarrow> out | Raised err \<Rightarrow> uncertain_outcome oid err)"

text \<open>A random identifier and a clock reading, for the one notification a step may create.\<close>

type_synonym fresh = "jsstr \<times> int"

text \<open>The result of a step: an answer, an exception, or a call that waits for the dispatcher.\<close>

datatype response = Answered StudioOperationOutcome | Failed string | Waiting AdmittedOperation | Silent

definition hasAction :: "coordinator \<Rightarrow> jsstr \<Rightarrow> bool" where
  "hasAction c oid \<longleftrightarrow> map_of (actions c) oid \<noteq> None"

definition set_action :: "jsstr \<Rightarrow> AdmittedOperation \<Rightarrow> (jsstr \<times> AdmittedOperation) list \<Rightarrow> (jsstr \<times> AdmittedOperation) list" where
  "set_action oid op acts =
     (if map_of acts oid = None then acts @ [(oid, op)] else map (\<lambda>(k, v). if k = oid then (k, op) else (k, v)) acts)"

definition delete_action :: "jsstr \<Rightarrow> (jsstr \<times> AdmittedOperation) list \<Rightarrow> (jsstr \<times> AdmittedOperation) list" where
  "delete_action oid acts = filter (\<lambda>p. fst p \<noteq> oid) acts"

definition enqueue :: "coordinator \<Rightarrow> ToastInput \<Rightarrow> fresh \<Rightarrow> string option \<times> coordinator" where
  "enqueue c input fr =
     (case enqueueToast (queue c) input (snd fr) (fst fr) of
        Inl e \<Rightarrow> (Some e, c)
      | Inr q \<Rightarrow> (None, c\<lparr>queue := q\<rparr>))"

definition notify :: "coordinator \<Rightarrow> ToastInput \<Rightarrow> fresh \<Rightarrow> string option \<times> coordinator" where
  "notify c input fr = enqueue c input fr"

definition admit :: "coordinator \<Rightarrow> StudioOperation \<Rightarrow> jsstr \<Rightarrow> AdmittedOperation \<times> coordinator" where
  "admit c op uuid =
     (let n = admissionSequence c + 1
      in (\<lparr>admitted_action = op_action op, admitted_payload = op_payload op, operationId = uuid @ js '':'' @ nat_digits n\<rparr>,
          c\<lparr>admissionSequence := n\<rparr>))"

definition recordHardCapacity :: "coordinator \<Rightarrow> fresh \<Rightarrow> string option \<times> coordinator" where
  "recordHardCapacity c fr =
     enqueue c \<lparr>toast_owner = toast_owner CAPACITY_IDENTITY, toast_scope = toast_scope CAPACITY_IDENTITY,
       input_severity = Warning, input_title = js ''Retry queue full'',
       input_message = js ''No operation was started. Resolve or dismiss a retryable failure before starting another operation.'',
       input_action = None, input_persistent = Some True\<rparr> fr"

definition clearCapacityIfAvailable :: "coordinator \<Rightarrow> coordinator" where
  "clearCapacityIfAvailable c =
     (if length (actions c) + length (reservations c) < MAX_ACTIONABLE_OPERATIONS
      then c\<lparr>queue := resolveToast (queue c) CAPACITY_IDENTITY\<rparr> else c)"

definition settleNew :: "coordinator \<Rightarrow> AdmittedOperation \<Rightarrow> StudioOperationOutcome \<Rightarrow> fresh \<Rightarrow> string option \<times> coordinator" where
  "settleNew c op outcome fr =
     (case projectOperationToast op outcome of
        Inl (TypeError e) \<Rightarrow> (Some e, c)
      | Inr projected \<Rightarrow>
          (case projected_toast projected of
             None \<Rightarrow> (None, clearCapacityIfAvailable c)
           | Some toast \<Rightarrow>
               let c1 = (if input_action toast = None then c
                         else c\<lparr>actions := set_action (operationId op) op (actions c)\<rparr>)
               in case enqueue c1 toast fr of
                    (Some e, c2) \<Rightarrow> (Some e, c2)
                  | (None, c2) \<Rightarrow> (None, clearCapacityIfAvailable c2)))"

definition settleRetry :: "coordinator \<Rightarrow> AdmittedOperation \<Rightarrow> StudioOperationOutcome \<Rightarrow> fresh \<Rightarrow> string option \<times> coordinator" where
  "settleRetry c op outcome fr =
     (case projectOperationToast op outcome of
        Inl (TypeError e) \<Rightarrow> (Some e, c)
      | Inr projected \<Rightarrow>
          (let settled = c\<lparr>actions := delete_action (operationId op) (actions c),
                  queue := settleToastAction (queue c) (projected_identity projected) (operationId op) (projected_toast projected) (snd fr)\<rparr>
           in case projected_toast projected of
                None \<Rightarrow> (None, clearCapacityIfAvailable settled)
              | Some toast \<Rightarrow>
                  if input_action toast \<noteq> None then
                    if map_of (actions c) (operationId op) \<noteq> Some op then (None, c) else enqueue c toast fr
                  else (None, clearCapacityIfAvailable settled)))"

definition dismiss_call :: "coordinator \<Rightarrow> jsstr \<Rightarrow> nat \<Rightarrow> jsstr list \<Rightarrow> coordinator" where
  "dismiss_call c tid occ ids =
     clearCapacityIfAvailable
       (c\<lparr>actions := fold delete_action ids (actions c), queue := dismissToastSnapshot (queue c) tid occ ids\<rparr>)"

text \<open>\<open>execute\<close> up to its first \<open>await\<close>.\<close>

definition execute_dismissal :: "coordinator \<Rightarrow> StudioOperation \<Rightarrow> jsstr \<Rightarrow> response \<times> coordinator" where
  "execute_dismissal c op uuid =
     (case op_payload op of
        Payload _ \<Rightarrow> (Answered (Unavailable (js ''This notification is already resolved.'')), c)
      | Toast_Id tid \<Rightarrow>
          (case find (\<lambda>t. toast_id t = tid) (queue c) of
             None \<Rightarrow> (Answered (Unavailable (js ''This notification is already resolved.'')), c)
           | Some t \<Rightarrow>
               if tid \<in> set (dismissingToastIds c) then (Answered (Unavailable (js ''This notification is already resolving.'')), c)
               else
                 let (admitted, c1) = admit (c\<lparr>dismissingToastIds := List.insert tid (dismissingToastIds c)\<rparr>) op uuid
                 in (Waiting admitted,
                     c1\<lparr>pending := pending c1 @ [Dismissing admitted tid (occurrences t) (map action_id (toast_actions t))]\<rparr>)))"

definition execute :: "coordinator \<Rightarrow> StudioOperation \<Rightarrow> jsstr \<Rightarrow> fresh \<Rightarrow> response \<times> coordinator" where
  "execute c op uuid fr =
     (if op_action op = ''toast.dismiss'' then execute_dismissal c op uuid
      else
        let (admitted, c1) = admit c op uuid
        in if length (actions c1) + length (reservations c1) \<ge> MAX_ACTIONABLE_OPERATIONS then
             (case recordHardCapacity c1 fr of
                (Some e, c2) \<Rightarrow> (Failed e, c2)
              | (None, c2) \<Rightarrow>
                  (Answered (Unavailable
                     (js ''No operation was started. Resolve or dismiss a retryable failure before starting another operation.'')), c2))
           else
             (Waiting admitted,
              c1\<lparr>reservations := List.insert (operationId admitted) (reservations c1), pending := pending c1 @ [Executing admitted]\<rparr>))"

text \<open>\<open>retry\<close> up to its \<open>await\<close>.\<close>

definition retry :: "coordinator \<Rightarrow> jsstr \<Rightarrow> response \<times> coordinator" where
  "retry c oid =
     (case map_of (actions c) oid of
        None \<Rightarrow> (Answered (Unavailable (js ''This retry is no longer available.'')), c)
      | Some op \<Rightarrow>
          if oid \<in> set (retrying c) then (Answered (Unavailable (js ''This retry is no longer available.'')), c)
          else (Waiting op, c\<lparr>retrying := List.insert oid (retrying c), pending := pending c @ [Retrying op]\<rparr>))"

definition answer :: "StudioOperationOutcome \<Rightarrow> string option \<times> coordinator \<Rightarrow> response \<times> coordinator" where
  "answer outcome r = (case r of (Some e, c) \<Rightarrow> (Failed e, c) | (None, c) \<Rightarrow> (Answered outcome, c))"

text \<open>What the three methods do once the dispatcher has answered.\<close>

fun continue :: "coordinator \<Rightarrow> pending_call \<Rightarrow> dispatch_result \<Rightarrow> fresh \<Rightarrow> response \<times> coordinator" where
  "continue c (Executing op) r fr =
     (let outcome = outcome_of (operationId op) r
      in answer outcome (settleNew (c\<lparr>reservations := removeAll (operationId op) (reservations c)\<rparr>) op outcome fr))"
| "continue c (Retrying op) r fr =
     (let outcome = outcome_of (operationId op) r
      in answer outcome (settleRetry (c\<lparr>retrying := removeAll (operationId op) (retrying c)\<rparr>) op outcome fr))"
| "continue c (Dismissing op tid occ ids) r fr =
     (let outcome = outcome_of (operationId op) r;
          c1 = c\<lparr>dismissingToastIds := removeAll tid (dismissingToastIds c)\<rparr>
      in (Answered outcome, if completed_outcome outcome then dismiss_call c1 tid occ ids else c1))"

datatype coordinator_event =
  Notify ToastInput fresh
| Execute StudioOperation jsstr fresh
| Retry jsstr
| Resume nat dispatch_result fresh

fun coordinate :: "coordinator \<Rightarrow> coordinator_event \<Rightarrow> response \<times> coordinator" where
  "coordinate c (Notify input fr) =
     (case notify c input fr of (Some e, c') \<Rightarrow> (Failed e, c') | (None, c') \<Rightarrow> (Silent, c'))"
| "coordinate c (Execute op uuid fr) = execute c op uuid fr"
| "coordinate c (Retry oid) = retry c oid"
| "coordinate c (Resume i r fr) =
     (if i < length (pending c)
      then continue (c\<lparr>pending := take i (pending c) @ drop (Suc i) (pending c)\<rparr>) (pending c ! i) r fr
      else (Silent, c))"


section \<open>What the invariant speaks of\<close>

text \<open>The identifiers handed out so far.\<close>

definition issued :: "nat \<Rightarrow> jsstr set" where
  "issued n = {uuid @ js '':'' @ nat_digits k | uuid k. k \<le> n}"

lemma issued_mono: "m \<le> n \<Longrightarrow> x \<in> issued m \<Longrightarrow> x \<in> issued n"
  by (force simp: issued_def)

lemma sequence_number_inject:
  assumes "u @ js '':'' @ nat_digits m = v @ js '':'' @ nat_digits n"
  shows "m = n"
proof -
  let ?P = "\<lambda>x. x \<noteq> (0x3A :: code_unit)"
  have colon: "js '':'' = [0x3A]" by (simp add: js_def)
  have tail: "takeWhile ?P (rev (w @ js '':'' @ nat_digits k)) = rev (nat_digits k)" for w k
  proof -
    have "\<And>x. x \<in> set (rev (nat_digits k)) \<Longrightarrow> ?P x" using nat_digits_correct [of k] by (auto simp: list_all_iff js_char)
    then have "takeWhile ?P (rev (nat_digits k) @ 0x3A # rev w) = rev (nat_digits k) @ takeWhile ?P (0x3A # rev w)"
      by (rule takeWhile_append2)
    then show ?thesis by (simp add: colon)
  qed
  have "rev (nat_digits m) = rev (nat_digits n)"
    unfolding tail [of u m, symmetric] tail [of v n, symmetric] by (rule arg_cong [OF assms, of "\<lambda>z. takeWhile ?P (rev z)"])
  then have "nat_digits m = nat_digits n" by (simp only: rev_is_rev_conv)
  then show ?thesis using nat_digits_correct [of m] nat_digits_correct [of n] by metis
qed

lemma fresh_id: "uuid @ js '':'' @ nat_digits (Suc n) \<notin> issued n"
  by (auto simp: issued_def dest!: sequence_number_inject)

text \<open>Calls in flight, and the set of the source that guards each kind.\<close>

fun executing_id :: "pending_call \<Rightarrow> jsstr list" where
  "executing_id (Executing op) = [operationId op]"
| "executing_id _ = []"

fun retrying_id :: "pending_call \<Rightarrow> jsstr list" where
  "retrying_id (Retrying op) = [operationId op]"
| "retrying_id _ = []"

fun dismissing_id :: "pending_call \<Rightarrow> jsstr list" where
  "dismissing_id (Dismissing _ tid _ _) = [tid]"
| "dismissing_id _ = []"

definition guards_flight :: "(pending_call \<Rightarrow> jsstr list) \<Rightarrow> jsstr list \<Rightarrow> pending_call list \<Rightarrow> bool" where
  "guards_flight f held ps \<longleftrightarrow>
     distinct held \<and> distinct (concat (map f ps)) \<and> set held = set (concat (map f ps))"

lemma guards_remove:
  assumes "guards_flight f held (xs @ p # ys)"
  shows "f p = [] \<Longrightarrow> guards_flight f held (xs @ ys)"
    and "f p = [x] \<Longrightarrow> guards_flight f (removeAll x held) (xs @ ys)"
  using assms by (auto simp: guards_flight_def distinct_removeAll)

lemma guards_add:
  assumes "guards_flight f held ps"
  shows "f p = [] \<Longrightarrow> guards_flight f held (ps @ [p])"
    and "f p = [x] \<Longrightarrow> x \<notin> set held \<Longrightarrow> guards_flight f (x # held) (ps @ [p])"
  using assms by (auto simp: guards_flight_def)

lemma guards_length: "guards_flight f held ps \<Longrightarrow> length held = length (concat (map f ps))"
  unfolding guards_flight_def by (metis distinct_card)

text \<open>The identity under which an operation's failures are shown, and the retries a ledger allows.\<close>

definition known_operation :: "AdmittedOperation \<Rightarrow> bool" where
  "known_operation op \<longleftrightarrow> map_of STUDIO_ACTIONS (admitted_action op) \<noteq> None"

definition op_identity :: "AdmittedOperation \<Rightarrow> ToastOwner \<times> jsstr" where
  "op_identity op = (authority_owner (descriptor_owner (the (map_of STUDIO_ACTIONS (admitted_action op)))), safeScope op)"

definition offered :: "(jsstr \<times> AdmittedOperation) list \<Rightarrow> ((ToastOwner \<times> jsstr) \<times> jsstr) set" where
  "offered acts = {(op_identity op, oid) | oid op. (oid, op) \<in> set acts}"

definition ledger_ok :: "nat \<Rightarrow> (jsstr \<times> AdmittedOperation) list \<Rightarrow> bool" where
  "ledger_ok n acts \<longleftrightarrow>
     distinct (map fst acts) \<and> (\<forall>(oid, op) \<in> set acts. operationId op = oid \<and> known_operation op \<and> oid \<in> issued n)"

fun pending_ok :: "toast_queue \<Rightarrow> (jsstr \<times> AdmittedOperation) list \<Rightarrow> jsstr set \<Rightarrow> nat \<Rightarrow> pending_call \<Rightarrow> bool" where
  "pending_ok q acts ex n (Executing op) \<longleftrightarrow> operationId op \<in> issued n \<and> operationId op \<notin> fst ` set acts"
| "pending_ok q acts ex n (Retrying op) \<longleftrightarrow>
     operationId op \<in> issued n \<and> operationId op \<notin> ex \<and> known_operation op \<and> (\<forall>op'. (operationId op, op') \<in> set acts \<longrightarrow> op' = op)"
| "pending_ok q acts ex n (Dismissing _ tid _ ids) \<longleftrightarrow>
     set ids \<subseteq> issued n \<and> set ids \<inter> ex = {} \<and> (\<forall>k d oid. (k, d, oid) \<in> shown q \<longrightarrow> oid \<in> set ids \<longrightarrow> k = tid)"

definition executing :: "pending_call list \<Rightarrow> jsstr set" where
  "executing ps = set (concat (map executing_id ps))"

definition coordinator_inv :: "coordinator \<Rightarrow> bool" where
  "coordinator_inv c \<longleftrightarrow>
     queue_inv (queue c) \<and> ledger_ok (admissionSequence c) (actions c) \<and> snd ` shown (queue c) = offered (actions c) \<and>
     length (actions c) + length (reservations c) \<le> MAX_ACTIONABLE_OPERATIONS \<and>
     guards_flight executing_id (reservations c) (pending c) \<and>
     guards_flight retrying_id (retrying c) (pending c) \<and>
     guards_flight dismissing_id (dismissingToastIds c) (pending c) \<and>
     (\<forall>p \<in> set (pending c). pending_ok (queue c) (actions c) (executing (pending c)) (admissionSequence c) p)"

lemma coordinator_invD:
  assumes "coordinator_inv c"
  shows "queue_inv (queue c)" "ledger_ok (admissionSequence c) (actions c)" "snd ` shown (queue c) = offered (actions c)"
    "length (actions c) + length (reservations c) \<le> MAX_ACTIONABLE_OPERATIONS"
    "guards_flight executing_id (reservations c) (pending c)" "guards_flight retrying_id (retrying c) (pending c)"
    "guards_flight dismissing_id (dismissingToastIds c) (pending c)"
    "p \<in> set (pending c) \<Longrightarrow> pending_ok (queue c) (actions c) (executing (pending c)) (admissionSequence c) p"
  using assms by (simp_all add: coordinator_inv_def)

lemma executing_simps [simp]:
  "executing [] = {}" "executing (p # ps) = set (executing_id p) \<union> executing ps" "executing (ps @ ps') = executing ps \<union> executing ps'"
  by (simp_all add: executing_def)

lemma offered_mono: "set acts' \<subseteq> set acts \<Longrightarrow> offered acts' \<subseteq> offered acts"
  by (auto simp: offered_def)

text \<open>Fewer shown actions, fewer ledger entries, fewer calls: what is said of a call in flight still holds.\<close>

lemma pending_ok_anti:
  assumes "pending_ok q acts ex n p" "shown q' \<subseteq> shown q" "set acts' \<subseteq> set acts" "ex' \<subseteq> ex"
  shows "pending_ok q' acts' ex' n p"
  using assms by (cases p) (fastforce+)

lemma change_inv:
  assumes inv: "coordinator_inv c" and q: "queue_inv q" "shown q \<subseteq> shown (queue c)"
    and acts: "set acts \<subseteq> set (actions c)" "distinct (map fst acts)" and eq: "snd ` shown q = offered acts"
  shows "coordinator_inv (c\<lparr>actions := acts, queue := q\<rparr>)"
proof -
  note I = coordinator_invD [OF inv]
  have "distinct acts" using acts(2) by (simp add: distinct_map)
  then have "length acts \<le> length (actions c)"
    using acts(1) by (metis List.finite_set card_length card_mono distinct_card le_trans)
  moreover have "ledger_ok (admissionSequence c) acts" using I(2) acts by (auto simp: ledger_ok_def)
  moreover have "pending_ok q acts (executing (pending c)) (admissionSequence c) p" if "p \<in> set (pending c)" for p
    using I(8) [OF that] q(2) acts(1) by (rule pending_ok_anti) simp
  ultimately show ?thesis using I q eq by (simp add: coordinator_inv_def)
qed


section \<open>Every step keeps the invariant\<close>

lemma change_queue_inv:
  assumes inv: "coordinator_inv c" and q: "queue_inv q" "shown q = shown (queue c)"
  shows "coordinator_inv (c\<lparr>queue := q\<rparr>)"
proof -
  have "distinct (map fst (actions c))" using coordinator_invD(2) [OF inv] by (simp add: ledger_ok_def)
  moreover have "snd ` shown q = offered (actions c)" unfolding q(2) by (rule coordinator_invD(3) [OF inv])
  ultimately have "coordinator_inv (c\<lparr>actions := actions c, queue := q\<rparr>)" using q by (intro change_inv [OF inv]) simp_all
  then show ?thesis by simp
qed

lemma shownI: "t \<in> set q \<Longrightarrow> a \<in> set (toast_actions t) \<Longrightarrow> (toast_id t, ident t, action_id a) \<in> shown q"
  by (auto simp: shown_def)

lemma json_key_array_head: "json_key (TArr ts) \<noteq> 0x71 # s"
  by (auto simp: json_key_def split: option.split)

lemma op_identity_not_capacity: "op_identity op \<noteq> ident CAPACITY_IDENTITY"
  using json_key_array_head [of "[TStr (js ''operation''), TStr (js (admitted_action op))]"]
  by (simp add: op_identity_def CAPACITY_IDENTITY_def safeScope_def js_def)

lemma projection:
  assumes "known_operation op"
  obtains P where "projectOperationToast op outcome = Inr P" "ident (projected_identity P) = op_identity op"
    "\<And>t. projected_toast P = Some t \<Longrightarrow> ident t = op_identity op"
    "\<And>t a. projected_toast P = Some t \<Longrightarrow> input_action t = Some a \<Longrightarrow> action_id a = operationId op"
proof -
  obtain d where "map_of STUDIO_ACTIONS (admitted_action op) = Some d" using assms by (auto simp: known_operation_def)
  then show thesis
    by (intro that) (auto simp: projectOperationToast_def ownerFor_def Let_def op_identity_def split: option.splits if_splits)
qed

lemma projection_unknown: "\<not> known_operation op \<Longrightarrow> \<exists>e. projectOperationToast op outcome = Inl (TypeError e)"
  by (simp add: known_operation_def projectOperationToast_def ownerFor_def)

lemma no_overflow:
  assumes inv: "queue_inv q" and eq: "snd ` shown q = offered acts" and len: "length acts \<le> MAX_ACTIONABLE_OPERATIONS"
  shows "enqueueToast q input now uuid \<noteq> Inl e"
proof
  assume "enqueueToast q input now uuid = Inl e"
  then have full: "MAX_VISIBLE_TOASTS \<le> length q" "\<forall>t \<in> set q. toast_actions t \<noteq> []"
    by (auto dest: enqueueToast_Inl)
  have "ident t \<in> (op_identity \<circ> snd) ` set acts" if "t \<in> set q" for t
  proof -
    from full(2) that obtain a where "a \<in> set (toast_actions t)" by (cases "toast_actions t") auto
    with that have "(toast_id t, ident t, action_id a) \<in> shown q" by (rule shownI)
    then have "(ident t, action_id a) \<in> snd ` shown q" by force
    then show ?thesis unfolding eq by (force simp: offered_def)
  qed
  then have "set (map ident q) \<subseteq> (op_identity \<circ> snd) ` set acts" by (auto simp del: o_apply)
  then have "card (set (map ident q)) \<le> card ((op_identity \<circ> snd) ` set acts)" by (intro card_mono) auto
  also have "\<dots> \<le> length acts" by (metis List.finite_set card_image_le card_length le_trans)
  also have "card (set (map ident q)) = length q"
    using inv distinct_card [of "map ident q"] by (simp add: queue_inv_def)
  finally show False using full(1) len by (simp add: MAX_ACTIONABLE_OPERATIONS_def MAX_VISIBLE_TOASTS_def)
qed

lemma enqueue_accepts:
  assumes "queue_inv q" "snd ` shown q = offered acts" "length acts \<le> MAX_ACTIONABLE_OPERATIONS"
  obtains q' where "enqueueToast q input now uuid = Inr q'"
  using no_overflow [OF assms] by (cases "enqueueToast q input now uuid") auto

lemma clear_inv:
  assumes inv: "coordinator_inv c"
  shows "coordinator_inv (clearCapacityIfAvailable c)"
proof -
  note I = coordinator_invD [OF inv]
  have "fst (snd x) \<noteq> ident CAPACITY_IDENTITY" if "x \<in> shown (queue c)" for x
  proof -
    from that have "snd x \<in> offered (actions c)" using I(3) by force
    then show ?thesis using op_identity_not_capacity by (auto simp: offered_def)
  qed
  then have "shown (resolveToast (queue c) CAPACITY_IDENTITY) = shown (queue c)" unfolding shown_resolve by auto
  moreover have "queue_inv (resolveToast (queue c) CAPACITY_IDENTITY)"
    unfolding resolveToast_def by (rule filter_queue_inv) (rule I(1))
  ultimately have "coordinator_inv (c\<lparr>queue := resolveToast (queue c) CAPACITY_IDENTITY\<rparr>)"
    by (intro change_queue_inv [OF inv])
  then show ?thesis using inv by (simp add: clearCapacityIfAvailable_def)
qed

lemma enqueue_known:
  assumes inv: "coordinator_inv c"
    and known: "\<And>a. input_action input = Some a \<Longrightarrow> (ident input, action_id a) \<in> offered (actions c)"
  shows "\<exists>q. enqueue c input fr = (None, c\<lparr>queue := q\<rparr>) \<and> coordinator_inv (c\<lparr>queue := q\<rparr>)"
proof -
  note I = coordinator_invD [OF inv]
  from I(4) have "length (actions c) \<le> MAX_ACTIONABLE_OPERATIONS" by simp
  then obtain q where q: "enqueueToast (queue c) input (snd fr) (fst fr) = Inr q"
    by (rule enqueue_accepts [OF I(1,3)])
  obtain k where k: "\<forall>t \<in> set (queue c). ident t = ident input \<longrightarrow> k = toast_id t"
    "shown q = shown (queue c) \<union> (case input_action input of None \<Rightarrow> {} | Some a \<Rightarrow> {(k, ident input, action_id a)})"
    using shown_enqueue [OF I(1) q] by (elim exE conjE)
  have "(k, ident input, action_id a) \<in> shown (queue c)" if "input_action input = Some a" for a
  proof -
    from known [OF that] have "(ident input, action_id a) \<in> snd ` shown (queue c)" by (simp only: I(3))
    then obtain t x where t: "t \<in> set (queue c)" "ident t = ident input" "x \<in> set (toast_actions t)" "action_id x = action_id a"
      by (auto simp: shown_def)
    then have "toast_id t = k" using k(1) by simp
    with shownI [OF t(1,3)] t(2,4) show ?thesis by simp
  qed
  then have same: "shown q = shown (queue c)" using k(2) by (auto split: option.splits)
  have "coordinator_inv (c\<lparr>queue := q\<rparr>)" by (rule change_queue_inv [OF inv enqueueToast_inv [OF I(1) q] same])
  then show ?thesis using q by (intro exI [of _ q]) (simp add: enqueue_def)
qed

lemma settleNew_inv:
  assumes inv: "coordinator_inv c" and room: "length (actions c) + length (reservations c) < MAX_ACTIONABLE_OPERATIONS"
    and oid: "operationId op \<in> issued (admissionSequence c)" "operationId op \<notin> fst ` set (actions c)"
      "operationId op \<notin> executing (pending c)"
    and others: "\<And>p. p \<in> set (pending c) \<Longrightarrow>
      pending_ok (queue c) (actions c) (insert (operationId op) (executing (pending c))) (admissionSequence c) p"
    and known: "known_operation op"
  shows "\<exists>c'. settleNew c op outcome fr = (None, c') \<and> coordinator_inv c'"
proof -
  note I = coordinator_invD [OF inv]
  obtain P where P: "projectOperationToast op outcome = Inr P" "ident (projected_identity P) = op_identity op"
    "\<And>t. projected_toast P = Some t \<Longrightarrow> ident t = op_identity op"
    "\<And>t a. projected_toast P = Some t \<Longrightarrow> input_action t = Some a \<Longrightarrow> action_id a = operationId op"
    using known by (rule projection) blast
  show ?thesis
  proof (cases "projected_toast P")
    case None
    then show ?thesis using P(1) clear_inv [OF inv] by (simp add: settleNew_def)
  next
    case (Some t)
    show ?thesis
    proof (cases "input_action t")
      case none: None
      obtain q where "enqueue c t fr = (None, c\<lparr>queue := q\<rparr>)" "coordinator_inv (c\<lparr>queue := q\<rparr>)"
        using enqueue_known [OF inv, of t fr] none by auto
      then show ?thesis using P(1) Some none clear_inv by (simp add: settleNew_def)
    next
      case a: (Some a)
      define acts where "acts = actions c @ [(operationId op, op)]"
      have set_action: "set_action (operationId op) op (actions c) = acts"
        using oid(2) by (simp add: set_action_def acts_def map_of_eq_None_iff)
      from room have "length (actions c) \<le> MAX_ACTIONABLE_OPERATIONS" by simp
      then obtain q where q: "enqueueToast (queue c) t (snd fr) (fst fr) = Inr q"
        by (rule enqueue_accepts [OF I(1,3)])
      obtain k where k: "shown q = insert (k, op_identity op, operationId op) (shown (queue c))"
        using shown_enqueue [OF I(1) q] a P(3) [OF Some] P(4) [OF Some a] by auto
      have "pending_ok q acts (executing (pending c)) (admissionSequence c) p" if "p \<in> set (pending c)" for p
        using others [OF that] that oid(3) by (cases p) (auto simp: k acts_def executing_def)
      moreover have "ledger_ok (admissionSequence c) acts" using I(2) oid known by (auto simp: ledger_ok_def acts_def)
      moreover have "snd ` shown q = offered acts" unfolding k using I(3) by (auto simp: offered_def acts_def)
      moreover have "queue_inv q" by (rule enqueueToast_inv [OF I(1) q])
      ultimately have "coordinator_inv (c\<lparr>actions := acts, queue := q\<rparr>)"
        using I room by (simp add: coordinator_inv_def acts_def)
      then show ?thesis
        using P(1) Some a q clear_inv by (simp add: settleNew_def set_action enqueue_def)
    qed
  qed
qed

text \<open>Taking a set of operations out of the ledger and off the display.\<close>

lemma remove_inv:
  assumes inv: "coordinator_inv c" and q: "queue_inv q"
    and q': "shown q = {x \<in> shown (queue c). snd (snd x) \<notin> X}"
  shows "coordinator_inv (c\<lparr>actions := filter (\<lambda>p. fst p \<notin> X) (actions c), queue := q\<rparr>)"
proof (rule change_inv [OF inv q])
  note I = coordinator_invD [OF inv]
  show "distinct (map fst (filter (\<lambda>p. fst p \<notin> X) (actions c)))"
    using I(2) by (simp add: ledger_ok_def distinct_map_filter_key)
  have "snd ` shown q = {x \<in> snd ` shown (queue c). snd x \<notin> X}" by (auto simp: q')
  also have "\<dots> = offered (filter (\<lambda>p. fst p \<notin> X) (actions c))" unfolding I(3) by (auto simp: offered_def)
  finally show "snd ` shown q = offered (filter (\<lambda>p. fst p \<notin> X) (actions c))" .
qed (auto simp: q')

lemma fold_delete_action: "fold delete_action ids acts = filter (\<lambda>p. fst p \<notin> set ids) acts"
  by (induction ids arbitrary: acts) (auto simp: delete_action_def conj_commute)

lemma dismiss_inv:
  assumes inv: "coordinator_inv c" and here: "\<forall>k d oid. (k, d, oid) \<in> shown (queue c) \<longrightarrow> oid \<in> set ids \<longrightarrow> k = tid"
  shows "coordinator_inv (dismiss_call c tid occ ids)"
proof -
  have "shown (dismissToastSnapshot (queue c) tid occ ids) = {x \<in> shown (queue c). snd (snd x) \<notin> set ids}"
    unfolding shown_dismiss
  proof (rule set_eqI)
    fix x :: "jsstr \<times> (ToastOwner \<times> jsstr) \<times> jsstr"
    obtain k d oid where "x = (k, d, oid)" by (cases x) auto
    with here [rule_format, of k d oid] show "x \<in> shown (queue c) - {(tid, d, aid) | d aid. aid \<in> set ids} \<longleftrightarrow> x \<in> {x \<in> shown (queue c). snd (snd x) \<notin> set ids}"
      by auto
  qed
  then have "coordinator_inv (c\<lparr>actions := filter (\<lambda>p. fst p \<notin> set ids) (actions c),
      queue := dismissToastSnapshot (queue c) tid occ ids\<rparr>)"
    by (rule remove_inv [OF inv dismissToastSnapshot_inv [OF coordinator_invD(1) [OF inv]]])
  then show ?thesis using clear_inv by (simp add: dismiss_call_def fold_delete_action)
qed

lemma shown_own_identity:
  assumes inv: "coordinator_inv c" and own: "\<forall>op'. (operationId op, op') \<in> set (actions c) \<longrightarrow> op' = op"
  shows "shown (queue c) - {(k, op_identity op, operationId op) | k. True} = {x \<in> shown (queue c). snd (snd x) \<notin> {operationId op}}"
proof -
  have "d = op_identity op" if "(k, d, operationId op) \<in> shown (queue c)" for k d
  proof -
    from that have "(d, operationId op) \<in> snd ` shown (queue c)" by force
    then show ?thesis unfolding coordinator_invD(3) [OF inv] using own by (auto simp: offered_def)
  qed
  then show ?thesis by auto
qed

lemma settleRetry_inv:
  assumes inv: "coordinator_inv c" and known: "known_operation op"
    and own: "\<forall>op'. (operationId op, op') \<in> set (actions c) \<longrightarrow> op' = op"
  shows "\<exists>c'. settleRetry c op outcome fr = (None, c') \<and> coordinator_inv c'"
proof -
  note I = coordinator_invD [OF inv]
  obtain P where P: "projectOperationToast op outcome = Inr P" "ident (projected_identity P) = op_identity op"
    "\<And>t. projected_toast P = Some t \<Longrightarrow> ident t = op_identity op"
    "\<And>t a. projected_toast P = Some t \<Longrightarrow> input_action t = Some a \<Longrightarrow> action_id a = operationId op"
    using known by (rule projection) blast
  define settled where "settled = c\<lparr>actions := delete_action (operationId op) (actions c),
    queue := settleToastAction (queue c) (projected_identity P) (operationId op) (projected_toast P) (snd fr)\<rparr>"
  have "coordinator_inv (c\<lparr>actions := filter (\<lambda>p. fst p \<notin> {operationId op}) (actions c),
      queue := settleToastAction (queue c) (projected_identity P) (operationId op) (projected_toast P) (snd fr)\<rparr>)"
    using shown_own_identity [OF inv own]
    by (intro remove_inv [OF inv] settleToastAction_inv I(1)) (simp only: shown_settle P(2))
  then have settled_inv: "coordinator_inv (clearCapacityIfAvailable settled)"
    by (intro clear_inv) (simp add: settled_def delete_action_def)
  have settle: "settleRetry c op outcome fr =
      (case projected_toast P of
         None \<Rightarrow> (None, clearCapacityIfAvailable settled)
       | Some toast \<Rightarrow>
           if input_action toast \<noteq> None then
             if map_of (actions c) (operationId op) \<noteq> Some op then (None, c) else enqueue c toast fr
           else (None, clearCapacityIfAvailable settled))"
    by (simp only: settleRetry_def P(1) sum.case Let_def settled_def)
  show ?thesis
  proof (cases "\<exists>t. projected_toast P = Some t \<and> input_action t \<noteq> None")
    case True
    then obtain t a where t: "projected_toast P = Some t" "input_action t = Some a" by auto
    show ?thesis
    proof (cases "map_of (actions c) (operationId op) = Some op")
      case True
      then have "(ident t, action_id x) \<in> offered (actions c)" if "input_action t = Some x" for x
        using that P(3,4) t(1) by (auto simp: offered_def dest: map_of_SomeD)
      then obtain q where "enqueue c t fr = (None, c\<lparr>queue := q\<rparr>)" "coordinator_inv (c\<lparr>queue := q\<rparr>)"
        using enqueue_known [OF inv] by blast
      then show ?thesis unfolding settle using t True by simp
    qed (use settle t inv in simp)
  next
    case False
    then show ?thesis unfolding settle using settled_inv by (auto split: option.splits)
  qed
qed

text \<open>A call that is about to go on has left the list of calls in flight.\<close>

lemma resumed:
  assumes inv: "coordinator_inv c" and i: "i < length (pending c)"
  defines "rest \<equiv> take i (pending c) @ drop (Suc i) (pending c)"
  shows "pending c = take i (pending c) @ pending c ! i # drop (Suc i) (pending c)"
    and "executing (pending c) = set (executing_id (pending c ! i)) \<union> executing rest"
    and "\<And>p. p \<in> set rest \<Longrightarrow> pending_ok (queue c) (actions c) (executing (pending c)) (admissionSequence c) p"
    and "pending_ok (queue c) (actions c) (executing (pending c)) (admissionSequence c) (pending c ! i)"
    and "x \<in> set (executing_id (pending c ! i)) \<Longrightarrow> x \<notin> executing rest"
proof -
  show split: "pending c = take i (pending c) @ pending c ! i # drop (Suc i) (pending c)" by (rule id_take_nth_drop [OF i])
  have "executing (pending c) = executing (take i (pending c) @ pending c ! i # drop (Suc i) (pending c))"
    by (rule arg_cong [OF split])
  then show "executing (pending c) = set (executing_id (pending c ! i)) \<union> executing rest" by (auto simp: rest_def)
  have "set rest \<subseteq> set (pending c)" by (auto simp: rest_def dest: in_set_takeD in_set_dropD)
  then show "\<And>p. p \<in> set rest \<Longrightarrow> pending_ok (queue c) (actions c) (executing (pending c)) (admissionSequence c) p"
    using coordinator_invD(8) [OF inv] by blast
  show "pending_ok (queue c) (actions c) (executing (pending c)) (admissionSequence c) (pending c ! i)"
    using coordinator_invD(8) [OF inv] i by simp
  have "distinct (concat (map executing_id (take i (pending c) @ pending c ! i # drop (Suc i) (pending c))))"
    using coordinator_invD(5) [OF inv] unfolding split [symmetric] by (simp add: guards_flight_def)
  then show "x \<in> set (executing_id (pending c ! i)) \<Longrightarrow> x \<notin> executing rest"
    by (auto simp: rest_def executing_def)
qed

lemma continue_inv:
  assumes inv: "coordinator_inv c" and i: "i < length (pending c)"
    and step: "continue (c\<lparr>pending := take i (pending c) @ drop (Suc i) (pending c)\<rparr>) (pending c ! i) r fr = (resp, c')"
  shows "coordinator_inv c' \<and> (\<forall>e. resp = Failed e \<longrightarrow> (\<exists>op. pending c ! i = Executing op \<and> \<not> known_operation op))"
proof -
  define rest where "rest = take i (pending c) @ drop (Suc i) (pending c)"
  note I = coordinator_invD [OF inv]
  note R = resumed [OF inv i, folded rest_def]
  have rest_ok: "pending_ok (queue c) (actions c) (executing rest) (admissionSequence c) p" if "p \<in> set rest" for p
    by (rule pending_ok_anti [OF R(3) [OF that]]) (use R(2) in auto)
  have guards: "guards_flight f held (take i (pending c) @ pending c ! i # drop (Suc i) (pending c))"
    if "guards_flight f held (pending c)" for f held
    using that by (subst (asm) R(1))
  note drop_guard = guards_remove [OF guards, folded rest_def]
  show ?thesis
  proof (cases "pending c ! i")
    case (Executing op)
    define c1 where "c1 = c\<lparr>pending := rest, reservations := removeAll (operationId op) (reservations c)\<rparr>"
    have held: "operationId op \<in> set (reservations c)"
      using I(5) R(1,2) Executing by (auto simp: guards_flight_def executing_def)
    have "distinct (reservations c)" using I(5) by (simp add: guards_flight_def)
    with held have len: "length (reservations c1) < length (reservations c)"
      by (simp add: c1_def distinct_remove1_removeAll [symmetric] length_remove1) (metis Suc_pred length_pos_if_in_set lessI)
    then have "length (actions c1) + length (reservations c1) < MAX_ACTIONABLE_OPERATIONS" using I(4) by (simp add: c1_def)
    moreover have inv1: "coordinator_inv c1"
      using I len rest_ok drop_guard Executing by (simp add: coordinator_inv_def c1_def)
    moreover have "operationId op \<in> issued (admissionSequence c1)" "operationId op \<notin> fst ` set (actions c1)"
      "operationId op \<notin> executing (pending c1)"
      "\<And>p. p \<in> set (pending c1) \<Longrightarrow>
        pending_ok (queue c1) (actions c1) (insert (operationId op) (executing (pending c1))) (admissionSequence c1) p"
      using R Executing by (auto simp: c1_def)
    ultimately have "\<exists>c'. settleNew c1 op (outcome_of (operationId op) r) fr = (None, c') \<and> coordinator_inv c'"
      if "known_operation op" using that by (intro settleNew_inv)
    moreover have "\<not> known_operation op \<Longrightarrow> \<exists>e. settleNew c1 op (outcome_of (operationId op) r) fr = (Some e, c1)"
      using projection_unknown [of op "outcome_of (operationId op) r"] by (auto simp: settleNew_def)
    ultimately show ?thesis
      using step inv1 Executing by (cases "known_operation op") (auto simp: rest_def c1_def answer_def)
  next
    case (Retrying op)
    define c1 where "c1 = c\<lparr>pending := rest, retrying := removeAll (operationId op) (retrying c)\<rparr>"
    have "coordinator_inv c1" using I rest_ok drop_guard Retrying by (simp add: coordinator_inv_def c1_def)
    then have "\<exists>c'. settleRetry c1 op (outcome_of (operationId op) r) fr = (None, c') \<and> coordinator_inv c'"
      by (rule settleRetry_inv) (use R(4) Retrying in \<open>simp_all add: c1_def\<close>)
    then show ?thesis using step Retrying by (auto simp: rest_def c1_def answer_def)
  next
    case (Dismissing op tid occ ids)
    define c1 where "c1 = c\<lparr>pending := rest, dismissingToastIds := removeAll tid (dismissingToastIds c)\<rparr>"
    have inv1: "coordinator_inv c1" using I rest_ok drop_guard Dismissing by (simp add: coordinator_inv_def c1_def)
    moreover have "coordinator_inv (dismiss_call c1 tid occ ids)"
      by (rule dismiss_inv [OF inv1]) (use R(4) Dismissing in \<open>simp add: c1_def\<close>)
    ultimately show ?thesis using step Dismissing by (auto simp: rest_def c1_def Let_def)
  qed
qed

lemma admit_inv:
  assumes inv: "coordinator_inv c" and "admit c op uuid = (ad, c')"
  shows "c' = c\<lparr>admissionSequence := Suc (admissionSequence c)\<rparr> \<and> coordinator_inv c' \<and>
    operationId ad \<in> issued (admissionSequence c') \<and> operationId ad \<notin> issued (admissionSequence c)"
proof -
  have more: "issued (admissionSequence c) \<subseteq> issued (Suc (admissionSequence c))"
    by (rule subsetI, rule issued_mono [of "admissionSequence c"]) simp_all
  have c': "c' = c\<lparr>admissionSequence := Suc (admissionSequence c)\<rparr>"
    and ad: "operationId ad = uuid @ js '':'' @ nat_digits (Suc (admissionSequence c))"
    using assms(2) by (auto simp: admit_def Let_def)
  have "pending_ok q acts ex (admissionSequence c) p \<Longrightarrow> pending_ok q acts ex (Suc (admissionSequence c)) p" for q acts ex p
    using more by (cases p) auto
  moreover have "ledger_ok (admissionSequence c) acts \<Longrightarrow> ledger_ok (Suc (admissionSequence c)) acts" for acts
    using more by (auto simp: ledger_ok_def)
  ultimately have "coordinator_inv c'" using coordinator_invD [OF inv] by (simp add: coordinator_inv_def c')
  moreover have "operationId ad \<in> issued (admissionSequence c')" by (auto simp: c' ad issued_def)
  moreover have "operationId ad \<notin> issued (admissionSequence c)" unfolding ad by (rule fresh_id)
  ultimately show ?thesis using c' by simp
qed

lemma shown_action_unique:
  assumes inv: "coordinator_inv c" and x: "(k, d, oid) \<in> shown (queue c)" "(k', d', oid) \<in> shown (queue c)"
  shows "k = k' \<and> d = d'"
proof -
  note I = coordinator_invD [OF inv]
  have "(d, oid) \<in> snd ` shown (queue c)" "(d', oid) \<in> snd ` shown (queue c)" using x by force+
  then have "(d, oid) \<in> offered (actions c)" "(d', oid) \<in> offered (actions c)" unfolding I(3) .
  then have d: "d = d'" using I(2) unfolding offered_def ledger_ok_def by (auto dest: eq_key_imp_eq_value)
  obtain t where t: "t \<in> set (queue c)" "toast_id t = k" "ident t = d" using x(1) by (auto simp: shown_def)
  obtain t' where t': "t' \<in> set (queue c)" "toast_id t' = k'" "ident t' = d'" using x(2) by (auto simp: shown_def)
  have "t = t'" using I(1) t(1,3) t'(1,3) d distinct_key_eq [of ident "queue c" t t'] by (simp add: queue_inv_def)
  then show ?thesis using t t' d by simp
qed

lemma shown_ledger: "coordinator_inv c \<Longrightarrow> (k, d, oid) \<in> shown (queue c) \<Longrightarrow> oid \<in> fst ` set (actions c)"
proof -
  assume inv: "coordinator_inv c" and "(k, d, oid) \<in> shown (queue c)"
  then have "(d, oid) \<in> snd ` shown (queue c)" by force
  then show ?thesis unfolding coordinator_invD(3) [OF inv] offered_def by force
qed

lemma executing_new:
  assumes inv: "coordinator_inv c" and oid: "oid \<in> executing (pending c)"
  shows "oid \<notin> fst ` set (actions c) \<and> oid \<in> issued (admissionSequence c)"
proof -
  obtain p where p: "p \<in> set (pending c)" "oid \<in> set (executing_id p)" using oid by (auto simp: executing_def)
  obtain op where "p = Executing op" using p(2) by (cases p rule: pending_call.exhaust) simp_all
  then show ?thesis using p(2) coordinator_invD(8) [OF inv p(1)] by simp
qed

lemma add_dismissal_inv:
  assumes inv: "coordinator_inv c" and t: "t \<in> set (queue c)" and free: "toast_id t \<notin> set (dismissingToastIds c)"
  shows "coordinator_inv (c\<lparr>dismissingToastIds := List.insert (toast_id t) (dismissingToastIds c),
    pending := pending c @ [Dismissing op (toast_id t) occ (map action_id (toast_actions t))]\<rparr>)"
proof -
  note I = coordinator_invD [OF inv]
  let ?p = "Dismissing op (toast_id t) occ (map action_id (toast_actions t))"
  have mine: "(toast_id t, ident t, oid) \<in> shown (queue c)" if "oid \<in> action_id ` set (toast_actions t)" for oid
    using that shownI [OF t] by auto
  have led: "oid \<in> fst ` set (actions c)" if "oid \<in> action_id ` set (toast_actions t)" for oid
    using shown_ledger [OF inv mine [OF that]] .
  have "oid \<in> issued (admissionSequence c)" if "oid \<in> fst ` set (actions c)" for oid
    using that I(2) by (auto simp: ledger_ok_def)
  moreover have "oid \<notin> executing (pending c)" if "oid \<in> fst ` set (actions c)" for oid
    using that executing_new [OF inv] by blast
  moreover have "k = toast_id t" if "(k, d, oid) \<in> shown (queue c)" "oid \<in> action_id ` set (toast_actions t)" for k d oid
    using shown_action_unique [OF inv that(1) mine [OF that(2)]] by simp
  ultimately have "pending_ok (queue c) (actions c) (executing (pending c)) (admissionSequence c) ?p"
    using led by auto
  then show ?thesis
    using I free by (simp add: coordinator_inv_def guards_add)
qed

lemma recordHardCapacity_inv:
  "coordinator_inv c \<Longrightarrow> \<exists>q. recordHardCapacity c fr = (None, c\<lparr>queue := q\<rparr>) \<and> coordinator_inv (c\<lparr>queue := q\<rparr>)"
  unfolding recordHardCapacity_def by (rule enqueue_known) simp_all

lemma execute_inv:
  assumes inv: "coordinator_inv c" and step: "execute c op uuid fr = (resp, c')"
  shows "coordinator_inv c' \<and> (\<forall>e. resp \<noteq> Failed e)"
proof (cases "op_action op = ''toast.dismiss''")
  case True
  then have ex: "execute_dismissal c op uuid = (resp, c')" using step by (simp add: execute_def)
  show ?thesis
  proof (cases "\<exists>tid t. op_payload op = Toast_Id tid \<and> find (\<lambda>t. toast_id t = tid) (queue c) = Some t \<and> tid \<notin> set (dismissingToastIds c)")
    case True
    then obtain tid t where t: "op_payload op = Toast_Id tid" "find (\<lambda>t. toast_id t = tid) (queue c) = Some t"
      "tid \<notin> set (dismissingToastIds c)" by blast
    then have t': "t \<in> set (queue c)" "toast_id t = tid" by (auto dest: find_Some_mem)
    obtain ad c1 where ad: "admit c op uuid = (ad, c1)" by (cases "admit c op uuid") auto
    note A = admit_inv [OF inv ad]
    have "admit (c\<lparr>dismissingToastIds := List.insert tid (dismissingToastIds c)\<rparr>) op uuid =
        (ad, c1\<lparr>dismissingToastIds := List.insert tid (dismissingToastIds c)\<rparr>)"
      using ad by (auto simp: admit_def Let_def)
    then have "resp = Waiting ad \<and> c' = c1\<lparr>dismissingToastIds := List.insert tid (dismissingToastIds c1),
        pending := pending c1 @ [Dismissing ad tid (occurrences t) (map action_id (toast_actions t))]\<rparr>"
      using ex t A by (auto simp: execute_dismissal_def)
    moreover have "coordinator_inv c1" "t \<in> set (queue c1)" "toast_id t \<notin> set (dismissingToastIds c1)"
      using A t t' by auto
    ultimately show ?thesis using add_dismissal_inv [of c1 t ad "occurrences t"] t'(2) by blast
  next
    case False
    then show ?thesis using ex inv by (auto simp: execute_dismissal_def split: payload.splits option.splits if_splits)
  qed
next
  case False
  obtain ad c1 where ad: "admit c op uuid = (ad, c1)" by (cases "admit c op uuid") auto
  note A = admit_inv [OF inv ad]
  then have inv1: "coordinator_inv c1" by blast
  note I = coordinator_invD [OF inv1]
  show ?thesis
  proof (cases "length (actions c1) + length (reservations c1) \<ge> MAX_ACTIONABLE_OPERATIONS")
    case True
    obtain q where "recordHardCapacity c1 fr = (None, c1\<lparr>queue := q\<rparr>)" "coordinator_inv (c1\<lparr>queue := q\<rparr>)"
      using recordHardCapacity_inv [OF inv1] by blast
    then show ?thesis using step False True ad by (auto simp: execute_def)
  next
    case room: False
    then have c': "resp = Waiting ad" "c' = c1\<lparr>reservations := List.insert (operationId ad) (reservations c1),
        pending := pending c1 @ [Executing ad]\<rparr>"
      using step False ad by (auto simp: execute_def)
    have new: "operationId ad \<notin> issued (admissionSequence c)" and same: "pending c1 = pending c" "actions c1 = actions c"
      "queue c1 = queue c" "admissionSequence c1 = Suc (admissionSequence c)" using A by auto
    have "reservations c1 = reservations c" using A by simp
    then have "operationId ad \<notin> set (reservations c1)"
      using new executing_new [OF inv, of "operationId ad"] coordinator_invD(5) [OF inv] by (auto simp: guards_flight_def executing_def)
    moreover have "operationId ad \<notin> fst ` set (actions c1)"
      using new coordinator_invD(2) [OF inv] by (auto simp: same ledger_ok_def)
    moreover have "pending_ok (queue c1) (actions c1) (insert (operationId ad) (executing (pending c1))) (admissionSequence c1) p"
      if "p \<in> set (pending c1)" for p
      using coordinator_invD(8) [OF inv, of p] I(8) [OF that] that new by (cases p) (auto simp: same)
    moreover have "operationId ad \<in> issued (admissionSequence c1)" using A by blast
    ultimately show ?thesis
      using I room by (simp add: coordinator_inv_def c' guards_add)
  qed
qed

lemma retry_inv:
  assumes inv: "coordinator_inv c" and step: "retry c oid = (resp, c')"
  shows "coordinator_inv c' \<and> (\<forall>e. resp \<noteq> Failed e)"
proof (cases "\<exists>op. map_of (actions c) oid = Some op \<and> oid \<notin> set (retrying c)")
  case True
  then obtain op where op: "map_of (actions c) oid = Some op" "oid \<notin> set (retrying c)" by blast
  note I = coordinator_invD [OF inv]
  have mem: "(oid, op) \<in> set (actions c)" using op(1) by (rule map_of_SomeD)
  then have entry: "operationId op = oid" "known_operation op" "oid \<in> issued (admissionSequence c)"
    using I(2) by (auto simp: ledger_ok_def)
  have "op' = op" if "(oid, op') \<in> set (actions c)" for op'
    using that mem I(2) eq_key_imp_eq_value [of "actions c" oid op' op] by (simp add: ledger_ok_def)
  moreover have "oid \<notin> executing (pending c)" using executing_new [OF inv] mem by force
  ultimately have ok: "pending_ok (queue c) (actions c) (executing (pending c)) (admissionSequence c) (Retrying op)"
    using entry by simp
  have c': "resp = Waiting op" "c' = c\<lparr>retrying := List.insert oid (retrying c), pending := pending c @ [Retrying op]\<rparr>"
    using step op by (auto simp: retry_def)
  have "coordinator_inv c'" using I ok entry op(2) by (simp add: coordinator_inv_def c' guards_add)
  then show ?thesis using c'(1) by simp
next
  case False
  then show ?thesis using step inv by (auto simp: retry_def split: option.splits if_splits)
qed


section \<open>Every run of the coordinator\<close>

text \<open>
  The calls the application makes: notifications of its own (in \<open>StudioApp.tsx\<close>) carry no action, since only the
  coordinator can offer a retry; all other calls are unrestricted.
\<close>

fun plain_notice :: "coordinator_event \<Rightarrow> bool" where
  "plain_notice (Notify input fr) \<longleftrightarrow> input_action input = None"
| "plain_notice _ \<longleftrightarrow> True"

definition coordinator_step :: "coordinator \<Rightarrow> coordinator_event \<Rightarrow> coordinator" where
  "coordinator_step c e = (if plain_notice e then snd (coordinate c e) else c)"

lemma coordinate_inv:
  assumes inv: "coordinator_inv c" and plain: "plain_notice e" and step: "coordinate c e = (resp, c')"
  shows "coordinator_inv c' \<and>
    (\<forall>x. resp = Failed x \<longrightarrow>
      (\<exists>i r fr op. e = Resume i r fr \<and> i < length (pending c) \<and> pending c ! i = Executing op \<and> \<not> known_operation op))"
proof (cases e)
  case (Notify input fr)
  then obtain q where "enqueue c input fr = (None, c\<lparr>queue := q\<rparr>)" "coordinator_inv (c\<lparr>queue := q\<rparr>)"
    using enqueue_known [OF inv, of input fr] plain by auto
  then show ?thesis using step Notify by (auto simp: notify_def)
next
  case (Execute op uuid fr)
  then show ?thesis using execute_inv [OF inv] step by auto
next
  case (Retry oid)
  then show ?thesis using retry_inv [OF inv] step by auto
next
  case (Resume i r fr)
  show ?thesis
  proof (cases "i < length (pending c)")
    case True
    then show ?thesis using continue_inv [OF inv True] step Resume by (auto 0 3)
  qed (use step Resume inv in auto)
qed

lemma coordinator_init_inv: "coordinator_inv new_coordinator"
  by (simp add: coordinator_inv_def new_coordinator_def queue_inv_def ledger_ok_def offered_def guards_flight_def)

interpretation coordinating: step_system new_coordinator coordinator_step coordinator_inv
proof
  show "coordinator_inv (coordinator_step c e)" if "coordinator_inv c" for c e
    using coordinate_inv [OF that, of e] that by (cases "coordinate c e") (simp add: coordinator_step_def)
qed (rule coordinator_init_inv)

lemma retrying_not_executing:
  assumes inv: "coordinator_inv c"
  shows "set (concat (map retrying_id (pending c))) \<inter> executing (pending c) = {}"
proof -
  have "oid \<notin> executing (pending c)" if p: "p \<in> set (pending c)" "oid \<in> set (retrying_id p)" for p oid
  proof -
    obtain op where "p = Retrying op" using p(2) by (cases p rule: pending_call.exhaust) simp_all
    then show ?thesis using p(2) coordinator_invD(8) [OF inv p(1)] by simp
  qed
  then show ?thesis by auto
qed

text \<open>
  C7: at any moment of any interleaving of notifications, executions, retries, dismissals and answers of the
  dispatcher, at most six notifications are shown, at most five operations are retryable or running for the first time, no
  operation is in flight twice, and the retries on display are exactly those the ledger can
  perform, each under the identity of its own operation.
\<close>

theorem coordinator_consistent:
  assumes "reachable new_coordinator coordinator_step c"
  shows "length (queue c) \<le> 6 \<and> length (actions c) + length (reservations c) \<le> 5 \<and>
    snd ` shown (queue c) = {(op_identity op, oid) | oid op. (oid, op) \<in> set (actions c)} \<and>
    distinct (map fst (actions c)) \<and>
    distinct (concat (map executing_id (pending c))) \<and> distinct (concat (map retrying_id (pending c))) \<and>
    set (concat (map retrying_id (pending c))) \<inter> set (concat (map executing_id (pending c))) = {}"
proof -
  have inv: "coordinator_inv c" using assms by (rule coordinating.reachable_inv)
  note I = coordinator_invD [OF inv]
  have "length (queue c) \<le> 6" using I(1) by (simp add: queue_inv_def MAX_VISIBLE_TOASTS_def)
  moreover have "length (actions c) + length (reservations c) \<le> 5"
    using I(4) by (simp add: MAX_ACTIONABLE_OPERATIONS_def MAX_VISIBLE_TOASTS_def)
  moreover have "distinct (map fst (actions c))" using I(2) by (simp add: ledger_ok_def)
  moreover have "distinct (concat (map executing_id (pending c)))" "distinct (concat (map retrying_id (pending c)))"
    using I(5,6) by (simp_all only: guards_flight_def)
  ultimately show ?thesis using retrying_not_executing [OF inv] I(3) by (simp only: offered_def executing_def)
qed

text \<open>
  C33: the exception that \<open>enqueueToast\<close> raises for a queue full of actionable notifications is unreachable by the calls that the application makes, whose
  notifications through \<open>notify\<close> carry no action. A call fails only when the answer for an operation with an action outside the table arrives, which the types exclude.
\<close>

theorem coordinator_never_overflows:
  assumes "reachable new_coordinator coordinator_step c" and "plain_notice e" and "coordinate c e = (Failed msg, c')"
  shows "\<exists>i r fr op. e = Resume i r fr \<and> i < length (pending c) \<and> pending c ! i = Executing op \<and>
    map_of STUDIO_ACTIONS (admitted_action op) = None"
proof -
  have "coordinator_inv c" using assms(1) by (rule coordinating.reachable_inv)
  from coordinate_inv [OF this assms(2,3)] show ?thesis by (auto simp: known_operation_def)
qed

lemma actions_clear [simp]: "actions (clearCapacityIfAvailable c) = actions c"
  by (simp add: clearCapacityIfAvailable_def)

lemma settleRetry_completed:
  assumes "known_operation op" "completed_outcome outcome"
  shows "\<exists>c'. settleRetry c op outcome fr = (None, c') \<and> actions c' = delete_action (operationId op) (actions c)"
proof -
  obtain d where "map_of STUDIO_ACTIONS (admitted_action op) = Some d" using assms by (auto simp: known_operation_def)
  moreover have "failure outcome = None" using assms(2) by (cases outcome) auto
  ultimately show ?thesis by (simp add: settleRetry_def projectOperationToast_def ownerFor_def Let_def)
qed

lemma set_action_has: "map_of (set_action oid op acts) oid \<noteq> None"
proof (cases "map_of acts oid")
  case (Some old)
  then have "oid \<in> fst ` set acts" by (auto simp: rev_image_eqI dest: map_of_SomeD)
  then have "oid \<in> fst ` set (map (\<lambda>(k, v). if k = oid then (k, op) else (k, v)) acts)" by force
  then show ?thesis using Some by (simp only: set_action_def map_of_eq_None_iff) simp
qed (simp add: set_action_def map_add_def)

lemma settleNew_retryable:
  assumes "settleNew c op (Rejected reason True) fr = (None, c')"
  shows "hasAction c' (operationId op)"
  using assms
  by (auto simp: settleNew_def projectOperationToast_def ownerFor_def Let_def enqueue_def hasAction_def
      set_action_has [simplified] split: option.splits sum.splits)

text \<open>
  What an answer does to the ledger. A first execution that is rejected as retryable becomes
  retryable; a retry that completes is no longer retryable; a completed dismissal takes away every
  retry that the notification offered when the dismissal began.
\<close>

theorem answers_settle_operations:
  assumes "reachable new_coordinator coordinator_step c" and "i < length (pending c)"
    and "coordinate c (Resume i r fr) = (resp, c')"
  shows "(pending c ! i = Executing op \<and> known_operation op \<and> r = Returned (Rejected reason True) \<longrightarrow> hasAction c' (operationId op)) \<and>
    (pending c ! i = Retrying op \<and> completed_outcome (outcome_of (operationId op) r) \<longrightarrow> \<not> hasAction c' (operationId op)) \<and>
    (pending c ! i = Dismissing op tid occ ids \<and> completed_outcome (outcome_of (operationId op) r) \<longrightarrow>
      (\<forall>oid \<in> set ids. \<not> hasAction c' oid))"
proof (intro conjI impI)
  have inv: "coordinator_inv c" using assms(1) by (rule coordinating.reachable_inv)
  have step: "continue (c\<lparr>pending := take i (pending c) @ drop (Suc i) (pending c)\<rparr>) (pending c ! i) r fr = (resp, c')"
    using assms(2,3) by simp
  show "hasAction c' (operationId op)" if h: "pending c ! i = Executing op \<and> known_operation op \<and> r = Returned (Rejected reason True)"
  proof -
    have "resp \<noteq> Failed e" for e using continue_inv [OF inv assms(2) step] h by auto
    then have "settleNew (c\<lparr>pending := take i (pending c) @ drop (Suc i) (pending c),
        reservations := removeAll (operationId op) (reservations c)\<rparr>) op (Rejected reason True) fr = (None, c')"
      using step h by (auto simp: outcome_of_def answer_def Let_def split: prod.splits option.splits)
    then show ?thesis by (rule settleNew_retryable)
  qed
  show "\<not> hasAction c' (operationId op)" if h: "pending c ! i = Retrying op \<and> completed_outcome (outcome_of (operationId op) r)"
  proof -
    have "known_operation op" using resumed(4) [OF inv assms(2)] h by simp
    then show ?thesis
      using step h settleRetry_completed [of op "outcome_of (operationId op) r"
          "c\<lparr>pending := take i (pending c) @ drop (Suc i) (pending c), retrying := removeAll (operationId op) (retrying c)\<rparr>" fr]
      by (auto simp: answer_def hasAction_def delete_action_def map_of_eq_None_iff)
  qed
  show "\<forall>oid \<in> set ids. \<not> hasAction c' oid"
    if h: "pending c ! i = Dismissing op tid occ ids \<and> completed_outcome (outcome_of (operationId op) r)"
    using step h by (auto simp: Let_def dismiss_call_def fold_delete_action hasAction_def map_of_eq_None_iff)
qed


section \<open>A concrete run\<close>

definition demo_op :: StudioOperation where
  "demo_op = \<lparr>op_operationId = None, op_action = ''palette.open'', op_payload = Payload (TArr [])\<rparr>"

definition demo_admitted :: AdmittedOperation where
  "demo_admitted = \<lparr>admitted_action = ''palette.open'', admitted_payload = Payload (TArr []), operationId = js ''u:1''\<rparr>"

definition demo_running :: coordinator where
  "demo_running = new_coordinator\<lparr>reservations := [js ''u:1''], admissionSequence := 1, pending := [Executing demo_admitted]\<rparr>"

lemma demo_running_step: "coordinate new_coordinator (Execute demo_op (js ''u'') (js ''t'', 0)) = (Waiting demo_admitted, demo_running)"
  by (simp add: execute_def admit_def demo_op_def demo_admitted_def demo_running_def new_coordinator_def
      MAX_ACTIONABLE_OPERATIONS_def MAX_VISIBLE_TOASTS_def nat_digits.simps js_def)

lemma demo_running_reachable: "reachable new_coordinator coordinator_step demo_running"
  using reachable_step [OF reachable_init, of new_coordinator coordinator_step "Execute demo_op (js ''u'') (js ''t'', 0)"]
  by (simp only: coordinator_step_def plain_notice.simps demo_running_step if_True snd_conv)

lemma demo_known: "map_of STUDIO_ACTIONS ''palette.open'' = Some (action_R ''none'')"
  by code_simp

theorem coordinator_consistent_witness:
  "length (actions demo_running) + length (reservations demo_running) \<le> 5 \<and> snd ` shown (queue demo_running) = {} \<and>
   concat (map executing_id (pending demo_running)) = [js ''u:1'']"
  using coordinator_consistent [OF demo_running_reachable] by (simp add: demo_running_def demo_admitted_def new_coordinator_def)

theorem answers_settle_operations_witness:
  "hasAction (snd (coordinate demo_running (Resume 0 (Returned (Rejected (js ''busy'') True)) (js ''t'', 0)))) (js ''u:1'')"
proof -
  let ?e = "Resume 0 (Returned (Rejected (js ''busy'') True)) (js ''t'', 0)"
  obtain resp c' where c': "coordinate demo_running ?e = (resp, c')" by (cases "coordinate demo_running ?e") blast
  have "0 < length (pending demo_running)" "pending demo_running ! 0 = Executing demo_admitted" by (simp_all add: demo_running_def)
  then show ?thesis
    using answers_settle_operations [OF demo_running_reachable _ c', of demo_admitted "js ''busy''"] demo_known
    unfolding c' by (simp add: known_operation_def demo_admitted_def)
qed

text \<open>An operation whose action is not in the table, the only way a call can fail.\<close>

definition demo_stray :: AdmittedOperation where
  "demo_stray = \<lparr>admitted_action = ''x'', admitted_payload = Payload (TArr []), operationId = js ''u:1''\<rparr>"

theorem coordinator_never_overflows_witness:
  "\<exists>c msg c'. coordinate c (Resume 0 (Returned (Unavailable [])) (js ''t'', 0)) = (Failed msg, c') \<and>
     (\<exists>op. pending c ! 0 = Executing op \<and> map_of STUDIO_ACTIONS (admitted_action op) = None)"
proof -
  define c where "c = demo_running\<lparr>pending := [Executing demo_stray]\<rparr>"
  let ?e = "Resume 0 (Returned (Unavailable [])) (js ''t'', 0)"
  have "coordinate new_coordinator (Execute (demo_op\<lparr>op_action := ''x''\<rparr>) (js ''u'') (js ''t'', 0)) = (Waiting demo_stray, c)"
    by (simp add: execute_def admit_def demo_op_def demo_stray_def c_def demo_running_def new_coordinator_def
        MAX_ACTIONABLE_OPERATIONS_def MAX_VISIBLE_TOASTS_def nat_digits.simps js_def)
  then have reach: "reachable new_coordinator coordinator_step c"
    using reachable_step [OF reachable_init, of new_coordinator coordinator_step "Execute (demo_op\<lparr>op_action := ''x''\<rparr>) (js ''u'') (js ''t'', 0)"]
    by (simp only: coordinator_step_def plain_notice.simps if_True snd_conv)
  have "map_of STUDIO_ACTIONS ''x'' = None" by code_simp
  then obtain msg c' where step: "coordinate c ?e = (Failed msg, c')"
    by (simp add: c_def demo_stray_def demo_running_def settleNew_def projectOperationToast_def ownerFor_def answer_def Let_def)
  have "plain_notice ?e" by simp
  then have "\<exists>op. pending c ! 0 = Executing op \<and> map_of STUDIO_ACTIONS (admitted_action op) = None"
    using coordinator_never_overflows [OF reach _ step] by auto
  with step show ?thesis by blast
qed

end
