(* ===== verification/Usage_Event.thy ===== *)
theory Usage_Event
  imports Json "HOL-Library.AList" "HOL-Library.List_Lexorder" "HOL-Library.Product_Lexorder"
begin

text \<open>
  The events of the usage ledger, \<open>src/app/src/usageLedger.ts\<close>: their types, their validation, their identities and
  their order.

  An event arrives as an arbitrary value (\<open>jtree\<close>); validation reads its declared fields and the
  record \<open>UsageEvent\<close> is what it has read. Other fields of the object, which the ledger carries along without
  reading them, are dropped. Strings compare by code units. The numbers of a tree do not have a sign of zero, which validation tests, so an
  event comes with its signs: \<open>neg path\<close> says whether the zero at the path is a negative one.

  Shown: validation accepts exactly the well-formed events and reads them back, and the order of events is a
  linear order on their identities.
\<close>

section \<open>Events\<close>

datatype UsageProvenance = Measured | Provider_reported | Estimated | Unavailable_usage

record UsageMeasurement =
  measured_value :: "rat option"
  provenance :: UsageProvenance

datatype UsageAttemptRelationship = Root_attempt | Retry_attempt | Fallback_attempt

datatype usage_terminal = Completed_end | Failed_end | Cancelled_end

record UsageEvent =
  projectId :: jsstr
  workflowId :: jsstr
  eventId :: jsstr
  version :: int
  agentId :: jsstr
  attemptId :: jsstr
  rootAttemptId :: jsstr
  predecessorAttemptId :: "jsstr option"
  relationship :: UsageAttemptRelationship
  provider :: jsstr
  model :: jsstr
  role :: jsstr
  startedAtMs :: int
  endedAtMs :: "int option"
  toolTimeMs :: UsageMeasurement
  input_tokens :: UsageMeasurement
  cached_tokens :: UsageMeasurement
  output_tokens :: UsageMeasurement
  reasoning_tokens :: UsageMeasurement
  cost :: UsageMeasurement
  retries :: int
  cancelled :: bool
  fallback :: bool
  terminal :: "usage_terminal option"

definition USAGE_LEDGER_VERSION :: int where
  "USAGE_LEDGER_VERSION = 1"

fun provenance_name :: "UsageProvenance \<Rightarrow> string" where
  "provenance_name Measured = ''measured''"
| "provenance_name Provider_reported = ''provider-reported''"
| "provenance_name Estimated = ''estimated''"
| "provenance_name Unavailable_usage = ''unavailable''"

definition PROVENANCES :: "UsageProvenance list" where
  "PROVENANCES = [Measured, Provider_reported, Estimated, Unavailable_usage]"

fun relationship_name :: "UsageAttemptRelationship \<Rightarrow> string" where
  "relationship_name Root_attempt = ''root''"
| "relationship_name Retry_attempt = ''retry''"
| "relationship_name Fallback_attempt = ''fallback''"

fun terminal_name :: "usage_terminal \<Rightarrow> string" where
  "terminal_name Completed_end = ''completed''"
| "terminal_name Failed_end = ''failed''"
| "terminal_name Cancelled_end = ''cancelled''"

text \<open>The exceptions: a fixed message, or one that names the identifiers involved.\<close>

datatype usage_error = Invalid string | Conflict string "jsstr list" | Overflow string


section \<open>Validation\<close>

text \<open>A value: its tree and the paths at which a zero is negative.\<close>

type_synonym usage_value = "jtree \<times> (string list \<Rightarrow> bool)"

definition get :: "jtree \<Rightarrow> string \<Rightarrow> jtree" where
  "get v k = (case v of TObj fs \<Rightarrow> field fs k | _ \<Rightarrow> TUndef)"

fun is_object :: "jtree \<Rightarrow> bool" where
  "is_object (TPrim _) \<longleftrightarrow> False"
| "is_object _ \<longleftrightarrow> True"

fun safe_integer :: "jtree \<Rightarrow> int option" where
  "safe_integer (TPrim (PNum n)) = as_safe_integer n"
| "safe_integer _ = None"

definition isUsageProvenance :: "jtree \<Rightarrow> UsageProvenance option" where
  "isUsageProvenance v = find (\<lambda>p. v = TStr (js (provenance_name p))) PROVENANCES"

text \<open>The flag \<open>neg\<close> is \<open>Object.is(measurement.value, -0)\<close> for a value that is zero.\<close>

definition validateMeasurement :: "jtree \<Rightarrow> bool \<Rightarrow> string \<Rightarrow> bool \<Rightarrow> usage_error + UsageMeasurement" where
  "validateMeasurement m neg label requireSafeInteger =
     (if \<not> is_object m then Inl (Invalid (label @ '' must be a usage measurement.''))
      else case isUsageProvenance (get m ''provenance'') of
        None \<Rightarrow> Inl (Invalid (label @ '' has an unrecognized provenance.''))
      | Some Unavailable_usage \<Rightarrow>
          if get m ''value'' \<noteq> TNull then Inl (Invalid (label @ '' is unavailable and cannot have a value.''))
          else Inr \<lparr>measured_value = None, provenance = Unavailable_usage\<rparr>
      | Some p \<Rightarrow>
          (case get m ''value'' of
             TPrim (PNum (NumFin v)) \<Rightarrow>
               if v = 0 \<and> neg \<or> v < 0 then Inl (Invalid (label @ '' must be a finite, non-negative value.''))
               else if requireSafeInteger \<and> as_safe_integer (NumFin v) = None
               then Inl (Invalid (label @ '' must be a non-negative safe integer.''))
               else Inr \<lparr>measured_value = Some v, provenance = p\<rparr>
           | _ \<Rightarrow> Inl (Invalid (label @ '' must be a finite, non-negative value.''))))"

fun required_string :: "jtree \<Rightarrow> string \<Rightarrow> usage_error + jsstr" where
  "required_string (TPrim (PStr s)) label =
     (if js_trim s = [] then Inl (Invalid (label @ '' is required.'')) else Inr s)"
| "required_string _ label = Inl (Invalid (label @ '' is required.''))"

fun predecessor_field :: "jtree \<Rightarrow> usage_error + jsstr option" where
  "predecessor_field (TPrim PNull) = Inr None"
| "predecessor_field (TPrim (PStr s)) =
     (if js_trim s = [] then Inl (Invalid ''Predecessor attempt id must be null or a non-empty string.'') else Inr (Some s))"
| "predecessor_field _ = Inl (Invalid ''Predecessor attempt id must be null or a non-empty string.'')"

definition relationship_field :: "jtree \<Rightarrow> usage_error + UsageAttemptRelationship" where
  "relationship_field v =
     (case find (\<lambda>r. v = TStr (js (relationship_name r))) [Root_attempt, Retry_attempt, Fallback_attempt] of
        Some r \<Rightarrow> Inr r
      | None \<Rightarrow> Inl (Invalid ''Attempt relationship is invalid.''))"

definition check_link :: "UsageAttemptRelationship \<Rightarrow> jsstr \<Rightarrow> jsstr \<Rightarrow> jsstr option \<Rightarrow> usage_error + unit" where
  "check_link rel attempt rootId pred =
     (if rel = Root_attempt then
        if rootId \<noteq> attempt \<or> pred \<noteq> None
        then Inl (Invalid ''A root attempt must identify itself and have no predecessor.'') else Inr ()
      else if pred = None then Inl (Invalid ''A linked attempt requires a predecessor attempt id.'')
      else if pred = Some attempt \<or> rootId = attempt
      then Inl (Invalid ''A linked attempt must be distinct from its predecessor and root attempt.'') else Inr ())"

definition end_field :: "jtree \<Rightarrow> int \<Rightarrow> usage_error + int option" where
  "end_field v started =
     (if v = TNull then Inr None
      else case safe_integer v of
        Some e \<Rightarrow> if e < started then Inl (Invalid ''End time must be an epoch millisecond no earlier than the start time.'')
          else Inr (Some e)
      | None \<Rightarrow> Inl (Invalid ''End time must be an epoch millisecond no earlier than the start time.''))"

definition integer_field :: "jtree \<Rightarrow> int \<Rightarrow> string \<Rightarrow> usage_error + int" where
  "integer_field v least message =
     (case safe_integer v of
        Some i \<Rightarrow> if i < least then Inl (Invalid message) else Inr i
      | None \<Rightarrow> Inl (Invalid message))"

definition terminal_field :: "jtree \<Rightarrow> usage_error + usage_terminal option" where
  "terminal_field v =
     (if v = TNull then Inr None
      else case find (\<lambda>t. v = TStr (js (terminal_name t))) [Completed_end, Failed_end, Cancelled_end] of
        Some t \<Rightarrow> Inr (Some t)
      | None \<Rightarrow> Inl (Invalid ''Terminal state is invalid.''))"

definition check_end :: "usage_terminal option \<Rightarrow> int option \<Rightarrow> bool \<Rightarrow> usage_error + unit" where
  "check_end term ended canc =
     (if term \<noteq> None \<and> ended = None then Inl (Invalid ''A terminal record requires an end time.'')
      else if term \<noteq> None \<and> (term = Some Cancelled_end) \<noteq> canc
      then Inl (Invalid ''A terminal record has a conflicting cancelled state.'')
      else if canc \<and> term \<noteq> Some Cancelled_end
      then Inl (Invalid ''A cancelled event must have a cancelled terminal state.'') else Inr ())"

definition validateEvent :: "usage_value \<Rightarrow> usage_error + UsageEvent" where
  "validateEvent = (\<lambda>(ev, neg).
     (if \<not> is_object ev then Inl (Invalid ''Usage event must be an object.'')
      else if get ev ''ledgerVersion'' \<noteq> TInt USAGE_LEDGER_VERSION then Inl (Invalid ''Unsupported usage ledger version'')
      else
        ebind (required_string (get ev ''projectId'') ''project id'') (\<lambda>project.
        ebind (required_string (get ev ''workflowId'') ''workflow id'') (\<lambda>workflow.
        ebind (required_string (get ev ''eventId'') ''event id'') (\<lambda>event.
        ebind (required_string (get ev ''agentId'') ''agent id'') (\<lambda>agent.
        ebind (required_string (get ev ''attemptId'') ''attempt id'') (\<lambda>attempt.
        ebind (required_string (get ev ''rootAttemptId'') ''root attempt id'') (\<lambda>rootId.
        ebind (required_string (get ev ''provider'') ''provider'') (\<lambda>prov.
        ebind (required_string (get ev ''model'') ''model'') (\<lambda>mdl.
        ebind (required_string (get ev ''role'') ''role'') (\<lambda>rol.
        ebind (predecessor_field (get ev ''predecessorAttemptId'')) (\<lambda>pred.
        ebind (relationship_field (get ev ''relationship'')) (\<lambda>rel.
        ebind (check_link rel attempt rootId pred) (\<lambda>_.
        if get ev ''fallback'' \<noteq> TBool (rel = Fallback_attempt)
        then Inl (Invalid ''Fallback flag must match the fallback relationship.'')
        else
          ebind (integer_field (get ev ''version'') 1 ''Event version must be a positive safe integer.'') (\<lambda>ver.
          ebind (integer_field (get ev ''startedAtMs'') 0 ''Start time must be a non-negative epoch millisecond.'') (\<lambda>started.
          ebind (end_field (get ev ''endedAtMs'') started) (\<lambda>ended.
          ebind (integer_field (get ev ''retries'') 0 ''Retries must be a non-negative safe integer.'') (\<lambda>retr.
          case get ev ''cancelled'' of
            TPrim (PBool canc) \<Rightarrow>
              ebind (terminal_field (get ev ''terminal'')) (\<lambda>term.
              ebind (check_end term ended canc) (\<lambda>_.
              let tokens = get ev ''tokens'' in
              if \<not> is_object tokens then Inl (Invalid ''Tokens must be a measurement bundle.'')
              else
                ebind (validateMeasurement (get ev ''toolTimeMs'') (neg [''toolTimeMs'']) ''tool time'' False) (\<lambda>tool.
                ebind (validateMeasurement (get tokens ''input'') (neg [''tokens'', ''input'']) ''input tokens'' True) (\<lambda>tin.
                ebind (validateMeasurement (get tokens ''cached'') (neg [''tokens'', ''cached'']) ''cached tokens'' True) (\<lambda>tcached.
                ebind (validateMeasurement (get tokens ''output'') (neg [''tokens'', ''output'']) ''output tokens'' True) (\<lambda>tout.
                ebind (validateMeasurement (get tokens ''reasoning'') (neg [''tokens'', ''reasoning'']) ''reasoning tokens'' True) (\<lambda>treason.
                ebind (validateMeasurement (get ev ''cost'') (neg [''cost'']) ''cost'' False) (\<lambda>co.
                Inr \<lparr>projectId = project, workflowId = workflow, eventId = event, version = ver, agentId = agent,
                  attemptId = attempt, rootAttemptId = rootId, predecessorAttemptId = pred, relationship = rel,
                  provider = prov, model = mdl, role = rol, startedAtMs = started, endedAtMs = ended, toolTimeMs = tool,
                  input_tokens = tin, cached_tokens = tcached, output_tokens = tout, reasoning_tokens = treason, cost = co,
                  retries = retr, cancelled = canc, fallback = (rel = Fallback_attempt), terminal = term\<rparr>))))))))
          | _ \<Rightarrow> Inl (Invalid ''Cancelled and fallback must be boolean flags.'')))))))))))))))))))"


section \<open>Identities and order\<close>

definition eventKey :: "UsageEvent \<Rightarrow> jsstr" where
  "eventKey e = json_key (TArr [TStr (projectId e), TStr (workflowId e), TStr (agentId e), TStr (attemptId e), TStr (eventId e)])"

definition attempt_key :: "jsstr \<Rightarrow> jsstr \<Rightarrow> jsstr \<Rightarrow> jsstr \<Rightarrow> jsstr" where
  "attempt_key p w g a = json_key (TArr [TStr p, TStr w, TStr g, TStr a])"

definition attemptKey :: "UsageEvent \<Rightarrow> jsstr" where
  "attemptKey e = attempt_key (projectId e) (workflowId e) (agentId e) (attemptId e)"

definition relatedAttemptKey :: "UsageEvent \<Rightarrow> jsstr \<Rightarrow> jsstr" where
  "relatedAttemptKey e attempt = attempt_key (projectId e) (workflowId e) (agentId e) attempt"

definition nullable :: "('a \<Rightarrow> jtree) \<Rightarrow> 'a option \<Rightarrow> jtree" where
  "nullable f v = (case v of None \<Rightarrow> TNull | Some x \<Rightarrow> f x)"

definition measurement_tree :: "UsageMeasurement \<Rightarrow> jtree" where
  "measurement_tree m =
     TArr [nullable (\<lambda>v. TPrim (PNum (NumFin v))) (measured_value m), TStr (js (provenance_name (provenance m)))]"

text \<open>
  The array whose text is the fingerprint. Only equality of fingerprints matters, and the text of a number
  determines the number, so the array stands for its text.
\<close>

definition eventFingerprint :: "UsageEvent \<Rightarrow> jtree" where
  "eventFingerprint e =
     TArr [TInt USAGE_LEDGER_VERSION, TStr (projectId e), TStr (workflowId e), TStr (eventId e), TInt (version e),
       TStr (agentId e), TStr (attemptId e), TStr (rootAttemptId e), nullable TStr (predecessorAttemptId e),
       TStr (js (relationship_name (relationship e))), TStr (provider e), TStr (model e), TStr (role e),
       TInt (startedAtMs e), nullable TInt (endedAtMs e), measurement_tree (toolTimeMs e), measurement_tree (input_tokens e),
       measurement_tree (cached_tokens e), measurement_tree (output_tokens e), measurement_tree (reasoning_tokens e),
       measurement_tree (cost e), TInt (retries e), TBool (cancelled e), TBool (fallback e),
       nullable (\<lambda>t. TStr (js (terminal_name t))) (terminal e)]"

fun compare_pairs :: "(jsstr \<times> jsstr) list \<Rightarrow> int" where
  "compare_pairs [] = 0"
| "compare_pairs ((a, b) # rest) = (if a < b then - 1 else if a > b then 1 else compare_pairs rest)"

definition compareEvents :: "UsageEvent \<Rightarrow> UsageEvent \<Rightarrow> int" where
  "compareEvents l r =
     compare_pairs [(projectId l, projectId r), (workflowId l, workflowId r), (agentId l, agentId r),
       (attemptId l, attemptId r), (eventId l, eventId r)]"



section \<open>Keys and fingerprints\<close>

type_synonym attempt_identity = "jsstr \<times> jsstr \<times> jsstr \<times> jsstr"

definition attempt_of :: "UsageEvent \<Rightarrow> attempt_identity" where
  "attempt_of e = (projectId e, workflowId e, agentId e, attemptId e)"

definition order_key :: "UsageEvent \<Rightarrow> jsstr \<times> jsstr \<times> jsstr \<times> jsstr \<times> jsstr" where
  "order_key e = (projectId e, workflowId e, agentId e, attemptId e, eventId e)"

lemma eventKey_eq: "eventKey e = eventKey e' \<longleftrightarrow> order_key e = order_key e'"
  by (simp add: eventKey_def order_key_def json_key_inject)

lemma attempt_key_eq: "attempt_key p w g a = attempt_key p' w' g' a' \<longleftrightarrow> (p, w, g, a) = (p', w', g', a')"
  by (simp add: attempt_key_def json_key_inject)

lemma attemptKey_eq: "attemptKey e = attemptKey e' \<longleftrightarrow> attempt_of e = attempt_of e'"
  by (simp add: attemptKey_def attempt_of_def attempt_key_eq)

lemma eventKey_attemptKey: "eventKey e = eventKey e' \<Longrightarrow> attemptKey e = attemptKey e'"
  by (simp add: eventKey_eq attemptKey_eq order_key_def attempt_of_def)

lemma provenance_name_inject [simp]: "provenance_name p = provenance_name p' \<longleftrightarrow> p = p'"
  by (cases p; cases p') simp_all

lemma relationship_name_inject [simp]: "relationship_name r = relationship_name r' \<longleftrightarrow> r = r'"
  by (cases r; cases r') simp_all

lemma terminal_name_inject [simp]: "terminal_name t = terminal_name t' \<longleftrightarrow> t = t'"
  by (cases t; cases t') simp_all

lemma nullable_inject:
  assumes "\<And>x y. f x = f y \<longleftrightarrow> x = y" "\<And>x. f x \<noteq> TNull"
  shows "nullable f v = nullable f w \<longleftrightarrow> v = w"
  using assms(1) assms(2) [THEN not_sym] assms(2) by (cases v; cases w) (simp_all add: nullable_def)

lemma measurement_tree_inject [simp]: "measurement_tree m = measurement_tree m' \<longleftrightarrow> m = m'"
proof -
  have "nullable (\<lambda>v. TPrim (PNum (NumFin v))) v = nullable (\<lambda>v. TPrim (PNum (NumFin v))) w \<longleftrightarrow> v = w" for v w
    by (rule nullable_inject) simp_all
  then show ?thesis by (cases m; cases m') (simp add: measurement_tree_def)
qed

lemma eventFingerprint_inject: "eventFingerprint e = eventFingerprint e' \<longleftrightarrow> e = e'"
proof -
  have 1: "nullable TStr v = nullable TStr w \<longleftrightarrow> v = w" for v w by (rule nullable_inject) simp_all
  have 2: "nullable TInt v = nullable TInt w \<longleftrightarrow> v = w" for v w by (rule nullable_inject) simp_all
  have 3: "nullable (\<lambda>t. TStr (js (terminal_name t))) v = nullable (\<lambda>t. TStr (js (terminal_name t))) w \<longleftrightarrow> v = w" for v w
    by (rule nullable_inject) simp_all
  have "e = e'" if "eventFingerprint e = eventFingerprint e'"
    by (rule UsageEvent.equality) (use that in \<open>simp_all add: eventFingerprint_def 1 2 3\<close>)
  then show ?thesis by blast
qed


section \<open>The order of events\<close>

lemma compare_pairs_le: "compare_pairs ((a, b) # rest) \<le> 0 \<longleftrightarrow> a < b \<or> a = b \<and> compare_pairs rest \<le> 0"
  by auto

lemma compareEvents_le: "compareEvents l r \<le> 0 \<longleftrightarrow> order_key l \<le> order_key r"
  unfolding compareEvents_def compare_pairs_le order_key_def by (auto simp: less_eq_prod_def)

lemma js_sort_events: "js_sort compareEvents xs = sort_key order_key xs"
  by (rule js_sort_sort_key) (rule compareEvents_le)

lemma sorted_events_unique:
  assumes "sorted (map f xs)" "distinct (map f xs)" "sorted (map f ys)" "distinct (map f ys)" "set xs = set ys"
  shows "xs = ys"
proof -
  have "map f xs = map f ys" using assms by (intro sorted_distinct_set_unique) simp_all
  moreover have "inj_on f (set xs \<union> set ys)" using assms(2,5) by (simp add: distinct_map)
  ultimately show ?thesis by (rule map_inj_on)
qed


section \<open>Well-formed events\<close>

definition valid_measurement :: "bool \<Rightarrow> UsageMeasurement \<Rightarrow> bool" where
  "valid_measurement integral m \<longleftrightarrow>
     (case measured_value m of
        None \<Rightarrow> provenance m = Unavailable_usage
      | Some v \<Rightarrow> provenance m \<noteq> Unavailable_usage \<and> 0 \<le> v \<and> (integral \<longrightarrow> (\<exists>i. v = of_int i \<and> i \<le> MAX_SAFE_INTEGER)))"

definition filled :: "jsstr \<Rightarrow> bool" where
  "filled s \<longleftrightarrow> js_trim s \<noteq> []"

definition valid_event :: "UsageEvent \<Rightarrow> bool" where
  "valid_event e \<longleftrightarrow>
     list_all filled [projectId e, workflowId e, eventId e, agentId e, attemptId e, rootAttemptId e, provider e, model e, role e] \<and>
     (case predecessorAttemptId e of
        None \<Rightarrow> relationship e = Root_attempt \<and> rootAttemptId e = attemptId e
      | Some p \<Rightarrow> filled p \<and> relationship e \<noteq> Root_attempt \<and> p \<noteq> attemptId e \<and> rootAttemptId e \<noteq> attemptId e) \<and>
     fallback e = (relationship e = Fallback_attempt) \<and>
     1 \<le> version e \<and> version e \<le> MAX_SAFE_INTEGER \<and> 0 \<le> startedAtMs e \<and> startedAtMs e \<le> MAX_SAFE_INTEGER \<and>
     (case endedAtMs e of None \<Rightarrow> terminal e = None | Some t \<Rightarrow> startedAtMs e \<le> t \<and> t \<le> MAX_SAFE_INTEGER) \<and>
     0 \<le> retries e \<and> retries e \<le> MAX_SAFE_INTEGER \<and> cancelled e = (terminal e = Some Cancelled_end) \<and>
     valid_measurement False (toolTimeMs e) \<and> valid_measurement False (cost e) \<and>
     list_all (valid_measurement True) [input_tokens e, cached_tokens e, output_tokens e, reasoning_tokens e]"

lemma required_string_iff: "required_string v l = Inr s \<longleftrightarrow> v = TStr s \<and> filled s"
  by (cases "(v, l)" rule: required_string.cases) (auto simp: filled_def)

lemma predecessor_field_iff:
  "predecessor_field v = Inr p \<longleftrightarrow> v = nullable TStr p \<and> (\<forall>s. p = Some s \<longrightarrow> filled s)"
  by (cases v rule: predecessor_field.cases) (auto simp: filled_def nullable_def split: option.splits)

lemma relationship_field_iff: "relationship_field v = Inr r \<longleftrightarrow> v = TStr (js (relationship_name r))"
  by (cases r) (auto simp: relationship_field_def)

lemma terminal_field_iff: "terminal_field v = Inr t \<longleftrightarrow> v = nullable (\<lambda>t. TStr (js (terminal_name t))) t"
proof (cases t)
  case (Some x)
  then show ?thesis by (cases x) (auto simp: terminal_field_def nullable_def)
qed (auto simp: terminal_field_def nullable_def)

lemma safe_integer_iff: "safe_integer v = Some i \<longleftrightarrow> v = TInt i \<and> safe_int i"
  by (cases v rule: safe_integer.cases) (auto simp: as_safe_integer_eq_Some)

lemma integer_field_iff: "integer_field v k msg = Inr i \<longleftrightarrow> v = TInt i \<and> safe_int i \<and> k \<le> i"
  by (auto simp: integer_field_def safe_integer_iff as_safe_integer_def split: option.splits)

lemma end_field_iff:
  "end_field v s = Inr t \<longleftrightarrow> v = nullable TInt t \<and> (\<forall>i. t = Some i \<longrightarrow> safe_int i \<and> s \<le> i)"
  by (cases t) (auto simp: end_field_def nullable_def safe_integer_iff as_safe_integer_def split: option.splits)

lemma isUsageProvenance_iff: "isUsageProvenance v = Some p \<longleftrightarrow> v = TStr (js (provenance_name p))"
  by (cases p) (auto simp: isUsageProvenance_def PROVENANCES_def)

definition carries_measurement :: "jtree \<Rightarrow> bool \<Rightarrow> UsageMeasurement \<Rightarrow> bool" where
  "carries_measurement v neg m \<longleftrightarrow> \<not> (measured_value m = Some 0 \<and> neg) \<and>
     is_object v \<and> get v ''provenance'' = TStr (js (provenance_name (provenance m))) \<and>
     get v ''value'' = nullable (\<lambda>x. TPrim (PNum (NumFin x))) (measured_value m)"

lemma safe_value: "as_safe_integer (NumFin v) \<noteq> None \<and> 0 \<le> v \<longleftrightarrow> (\<exists>i. v = of_int i \<and> 0 \<le> i \<and> i \<le> MAX_SAFE_INTEGER)"
proof -
  have "as_safe_integer (NumFin v) \<noteq> None \<longleftrightarrow> (\<exists>i. v = of_int i \<and> safe_int i)"
    using as_safe_integer_eq_Some [of "NumFin v"] by (auto simp del: not_None_eq simp flip: not_None_eq)
  then show ?thesis by (auto simp: safe_int_def MAX_SAFE_INTEGER_def)
qed

lemma validateMeasurement_iff:
  "validateMeasurement v z l b = Inr m \<longleftrightarrow> carries_measurement v z m \<and> valid_measurement b m"
proof (cases "isUsageProvenance (get v ''provenance'')")
  case None
  then have "\<not> carries_measurement v z m" 
    using isUsageProvenance_iff [of "get v ''provenance''" "provenance m"] by (simp add: carries_measurement_def)
  with None show ?thesis by (simp add: validateMeasurement_def)
next
  case (Some p)
  then have p: "get v ''provenance'' = TStr (js (provenance_name p))" by (simp add: isUsageProvenance_iff)
  obtain mv mp where m: "m = \<lparr>measured_value = mv, provenance = mp\<rparr>" by (cases m)
  have carries: "carries_measurement v z m \<longleftrightarrow> \<not> (mv = Some 0 \<and> z) \<and> is_object v \<and> mp = p \<and> get v ''value'' = nullable (\<lambda>x. TPrim (PNum (NumFin x))) mv"
    using p by (auto simp: carries_measurement_def m)
  show ?thesis
  proof (cases "p = Unavailable_usage")
    case True
    then show ?thesis unfolding carries using Some
      by (auto simp: validateMeasurement_def valid_measurement_def m nullable_def split: option.splits)
  next
    case False
    show ?thesis
    proof (cases "\<exists>x. get v ''value'' = TPrim (PNum (NumFin x))")
      case True
      then obtain x where x: "get v ''value'' = TPrim (PNum (NumFin x))" by blast
      have "validateMeasurement v z l b =
          (if \<not> is_object v then Inl (Invalid (l @ '' must be a usage measurement.''))
           else if x = 0 \<and> z \<or> x < 0 then Inl (Invalid (l @ '' must be a finite, non-negative value.''))
           else if b \<and> as_safe_integer (NumFin x) = None then Inl (Invalid (l @ '' must be a non-negative safe integer.''))
           else Inr \<lparr>measured_value = Some x, provenance = p\<rparr>)"
        using False by (cases p) (simp_all add: validateMeasurement_def Some x)
      moreover have "carries_measurement v z m \<longleftrightarrow> \<not> (x = 0 \<and> z) \<and> is_object v \<and> mp = p \<and> mv = Some x"
        unfolding carries using x by (auto simp: nullable_def split: option.splits)
      ultimately show ?thesis
        using False safe_value [of x] by (auto simp: valid_measurement_def m MAX_SAFE_INTEGER_def)
    next
      case no: False
      then have "validateMeasurement v z l b \<noteq> Inr m"
        using False by (cases p) (simp_all add: validateMeasurement_def Some split: jtree.splits jsprim.splits jsnum.splits)
      moreover have "\<not> (carries_measurement v z m \<and> valid_measurement b m)"
        unfolding carries using no False by (auto simp: valid_measurement_def m nullable_def split: option.splits)
      ultimately show ?thesis by blast
    qed
  qed
qed

text \<open>What a value has to contain to be read as a given event.\<close>

definition carries :: "usage_value \<Rightarrow> UsageEvent \<Rightarrow> bool" where
  "carries = (\<lambda>(v, neg) e.
     is_object v \<and> get v ''ledgerVersion'' = TInt 1 \<and>
     get v ''projectId'' = TStr (projectId e) \<and> get v ''workflowId'' = TStr (workflowId e) \<and> get v ''eventId'' = TStr (eventId e) \<and>
     get v ''agentId'' = TStr (agentId e) \<and> get v ''attemptId'' = TStr (attemptId e) \<and>
     get v ''rootAttemptId'' = TStr (rootAttemptId e) \<and> get v ''provider'' = TStr (provider e) \<and>
     get v ''model'' = TStr (model e) \<and> get v ''role'' = TStr (role e) \<and>
     get v ''predecessorAttemptId'' = nullable TStr (predecessorAttemptId e) \<and>
     get v ''relationship'' = TStr (js (relationship_name (relationship e))) \<and>
     get v ''fallback'' = TBool (fallback e) \<and> get v ''version'' = TInt (version e) \<and>
     get v ''startedAtMs'' = TInt (startedAtMs e) \<and> get v ''endedAtMs'' = nullable TInt (endedAtMs e) \<and>
     get v ''retries'' = TInt (retries e) \<and> get v ''cancelled'' = TBool (cancelled e) \<and>
     get v ''terminal'' = nullable (\<lambda>t. TStr (js (terminal_name t))) (terminal e) \<and> is_object (get v ''tokens'') \<and>
     carries_measurement (get v ''toolTimeMs'') (neg [''toolTimeMs'']) (toolTimeMs e) \<and>
     carries_measurement (get (get v ''tokens'') ''input'') (neg [''tokens'', ''input'']) (input_tokens e) \<and>
     carries_measurement (get (get v ''tokens'') ''cached'') (neg [''tokens'', ''cached'']) (cached_tokens e) \<and>
     carries_measurement (get (get v ''tokens'') ''output'') (neg [''tokens'', ''output'']) (output_tokens e) \<and>
     carries_measurement (get (get v ''tokens'') ''reasoning'') (neg [''tokens'', ''reasoning'']) (reasoning_tokens e) \<and>
     carries_measurement (get v ''cost'') (neg [''cost'']) (cost e))"

lemma check_link_iff:
  "check_link rel a r p = Inr () \<longleftrightarrow>
     (case p of None \<Rightarrow> rel = Root_attempt \<and> r = a | Some q \<Rightarrow> rel \<noteq> Root_attempt \<and> q \<noteq> a \<and> r \<noteq> a)"
  by (auto simp: check_link_def split: option.split)

lemma check_end_iff:
  "check_end t e c = Inr () \<longleftrightarrow> (e = None \<longrightarrow> t = None) \<and> c = (t = Some Cancelled_end)"
  by (auto simp: check_end_def)

lemma unit_Inr_ex: "(\<exists>u. m = Inr u \<and> P) \<longleftrightarrow> m = Inr () \<and> P" for m :: "'e + unit"
  by auto

lemma cancelled_case_Inr:
  "(case v of TPrim (PBool c) \<Rightarrow> f c | _ \<Rightarrow> Inl err) = Inr y \<longleftrightarrow> (\<exists>c. v = TBool c \<and> f c = Inr y)"
  by (cases v) (auto split: jsprim.splits)

lemmas event_field_iffs =
  ok_iff required_string_iff predecessor_field_iff relationship_field_iff terminal_field_iff integer_field_iff end_field_iff
  validateMeasurement_iff cancelled_case_Inr Let_def

lemma safe_int_iff: "safe_int i \<and> k \<le> i \<longleftrightarrow> k \<le> i \<and> i \<le> MAX_SAFE_INTEGER" if "0 \<le> k"
  using that by (auto simp: safe_int_def MAX_SAFE_INTEGER_def)

lemma validateEvent_complete:
  assumes c: "carries (v, neg) e" and ok: "valid_event e"
  shows "validateEvent (v, neg) = Inr e"
proof -
  note C = c [unfolded carries_def prod.case] and V = ok [unfolded valid_event_def list.pred_inject]
  have strings: "required_string (get v ''projectId'') l = Inr (projectId e)" "required_string (get v ''workflowId'') l = Inr (workflowId e)"
    "required_string (get v ''eventId'') l = Inr (eventId e)" "required_string (get v ''agentId'') l = Inr (agentId e)"
    "required_string (get v ''attemptId'') l = Inr (attemptId e)" "required_string (get v ''rootAttemptId'') l = Inr (rootAttemptId e)"
    "required_string (get v ''provider'') l = Inr (provider e)" "required_string (get v ''model'') l = Inr (model e)"
    "required_string (get v ''role'') l = Inr (role e)" for l
    using C V by (simp_all only: required_string_iff simp_thms)
  have link: "predecessor_field (get v ''predecessorAttemptId'') = Inr (predecessorAttemptId e)"
    "relationship_field (get v ''relationship'') = Inr (relationship e)"
    "check_link (relationship e) (attemptId e) (rootAttemptId e) (predecessorAttemptId e) = Inr ()"
    using C V by (auto simp: predecessor_field_iff relationship_field_iff check_link_iff split: option.splits)
  have ints: "integer_field (get v ''version'') 1 l = Inr (version e)" "integer_field (get v ''startedAtMs'') 0 l = Inr (startedAtMs e)"
    "integer_field (get v ''retries'') 0 l = Inr (retries e)" for l
    using C V by (simp_all add: integer_field_iff safe_int_def MAX_SAFE_INTEGER_def)
  have ends: "end_field (get v ''endedAtMs'') (startedAtMs e) = Inr (endedAtMs e)"
    "terminal_field (get v ''terminal'') = Inr (terminal e)" "check_end (terminal e) (endedAtMs e) (cancelled e) = Inr ()"
    using C V by (auto simp: end_field_iff terminal_field_iff check_end_iff safe_int_def MAX_SAFE_INTEGER_def split: option.splits)
  have ms: "validateMeasurement (get v ''toolTimeMs'') (neg [''toolTimeMs'']) l False = Inr (toolTimeMs e)"
    "validateMeasurement (get v ''cost'') (neg [''cost'']) l False = Inr (cost e)"
    "validateMeasurement (get (get v ''tokens'') ''input'') (neg [''tokens'', ''input'']) l True = Inr (input_tokens e)"
    "validateMeasurement (get (get v ''tokens'') ''cached'') (neg [''tokens'', ''cached'']) l True = Inr (cached_tokens e)"
    "validateMeasurement (get (get v ''tokens'') ''output'') (neg [''tokens'', ''output'']) l True = Inr (output_tokens e)"
    "validateMeasurement (get (get v ''tokens'') ''reasoning'') (neg [''tokens'', ''reasoning'']) l True = Inr (reasoning_tokens e)" for l
    using C V by (simp_all only: validateMeasurement_iff simp_thms)
  have flags: "is_object v" "get v ''ledgerVersion'' = TInt 1" "is_object (get v ''tokens'')"
    "get v ''cancelled'' = TBool (cancelled e)" "get v ''fallback'' = TBool (relationship e = Fallback_attempt)"
    "fallback e = (relationship e = Fallback_attempt)"
    using C V by simp_all
  show ?thesis
    unfolding validateEvent_def prod.case USAGE_LEDGER_VERSION_def
    by (simp only: strings link ints ends ms flags ebind_simps Let_def if_False if_True simp_thms jtree.case jsprim.case)
      (rule arg_cong [of _ _ Inr], rule UsageEvent.equality, simp_all add: flags)
qed

lemma link_cases:
  assumes "check_link rel a r p = Inr u" "\<forall>s. p = Some s \<longrightarrow> filled s"
  shows "case p of None \<Rightarrow> rel = Root_attempt \<and> r = a
    | Some q \<Rightarrow> filled q \<and> rel \<noteq> Root_attempt \<and> q \<noteq> a \<and> r \<noteq> a"
  using assms check_link_iff [of rel a r p] by (auto split: option.splits)

lemma end_cases:
  assumes "check_end t e c = Inr u" "\<forall>i. e = Some i \<longrightarrow> safe_int i \<and> s \<le> i"
  shows "(case e of None \<Rightarrow> t = None | Some i \<Rightarrow> s \<le> i \<and> i \<le> MAX_SAFE_INTEGER) \<and> c = (t = Some Cancelled_end)"
  using assms check_end_iff [of t e c] by (auto simp: safe_int_def split: option.splits)

lemma validateEvent_sound:
  assumes "validateEvent (v, neg) = Inr e"
  shows "carries (v, neg) e \<and> valid_event e"
  using assms
  unfolding validateEvent_def prod.case event_field_iffs USAGE_LEDGER_VERSION_def
  apply (elim exE conjE)
  apply (drule sum.inject(2) [THEN iffD1])
  apply hypsubst
  apply (drule link_cases, assumption, drule end_cases, assumption)
  apply (unfold carries_def prod.case valid_event_def list.pred_inject UsageEvent.select_convs safe_int_def not_not)
  by (simp only: simp_thms list.pred_inject)

text \<open>
  C35: validation accepts a value exactly when its declared fields spell out a well-formed event, whatever
  other fields it has and with no negative zero among the measurements, and the event it goes on with is the one spelled out.
\<close>

theorem validateEvent_exact: "validateEvent v = Inr e \<longleftrightarrow> carries v e \<and> valid_event e"
  using validateEvent_complete validateEvent_sound by (cases v) blast


section \<open>An example\<close>

definition demo_measurement :: "rat \<Rightarrow> UsageMeasurement" where
  "demo_measurement v = \<lparr>measured_value = Some v, provenance = Measured\<rparr>"

definition demo_usage :: "int \<Rightarrow> rat \<Rightarrow> UsageEvent" where
  "demo_usage ver tokens = \<lparr>projectId = js ''p'', workflowId = js ''w'', eventId = js ''e'', version = ver, agentId = js ''g'',
     attemptId = js ''a'', rootAttemptId = js ''a'', predecessorAttemptId = None, relationship = Root_attempt,
     provider = js ''x'', model = js ''m'', role = js ''r'', startedAtMs = 0, endedAtMs = Some 5, toolTimeMs = demo_measurement 0,
     input_tokens = demo_measurement tokens, cached_tokens = demo_measurement 0, output_tokens = demo_measurement 0,
     reasoning_tokens = demo_measurement 0, cost = demo_measurement 0, retries = 0, cancelled = False, fallback = False,
     terminal = None\<rparr>"

lemma filled_js [simp]: "filled (js ''p'')" "filled (js ''w'')" "filled (js ''e'')" "filled (js ''g'')" "filled (js ''a'')"
  "filled (js ''x'')" "filled (js ''m'')" "filled (js ''r'')"
  by code_simp+

lemma demo_usage_valid:
  "1 \<le> v \<Longrightarrow> v \<le> 9 \<Longrightarrow> 0 \<le> n \<Longrightarrow> n \<le> 9 \<Longrightarrow> valid_event (demo_usage v (of_int n))"
  by (simp add: demo_usage_def valid_event_def valid_measurement_def demo_measurement_def MAX_SAFE_INTEGER_def
      exI [of "\<lambda>i. rat_of_int n = rat_of_int i \<and> i \<le> 9007199254740991" n])

text \<open>The value of an event as a client would write it.\<close>

definition measurement_object :: "UsageMeasurement \<Rightarrow> jtree" where
  "measurement_object m =
     jobj [(''value'', nullable (\<lambda>x. TPrim (PNum (NumFin x))) (measured_value m)), (''provenance'', TStr (js (provenance_name (provenance m))))]"

definition event_object :: "UsageEvent \<Rightarrow> usage_value" where
  "event_object e =
     (jobj [(''ledgerVersion'', TInt 1), (''projectId'', TStr (projectId e)), (''workflowId'', TStr (workflowId e)),
       (''eventId'', TStr (eventId e)), (''version'', TInt (version e)), (''agentId'', TStr (agentId e)),
       (''attemptId'', TStr (attemptId e)), (''rootAttemptId'', TStr (rootAttemptId e)),
       (''predecessorAttemptId'', nullable TStr (predecessorAttemptId e)),
       (''relationship'', TStr (js (relationship_name (relationship e)))), (''provider'', TStr (provider e)),
       (''model'', TStr (model e)), (''role'', TStr (role e)), (''startedAtMs'', TInt (startedAtMs e)),
       (''endedAtMs'', nullable TInt (endedAtMs e)), (''toolTimeMs'', measurement_object (toolTimeMs e)),
       (''tokens'', jobj [(''input'', measurement_object (input_tokens e)), (''cached'', measurement_object (cached_tokens e)),
          (''output'', measurement_object (output_tokens e)), (''reasoning'', measurement_object (reasoning_tokens e))]),
       (''cost'', measurement_object (cost e)), (''retries'', TInt (retries e)), (''cancelled'', TBool (cancelled e)),
       (''fallback'', TBool (fallback e)), (''terminal'', nullable (\<lambda>t. TStr (js (terminal_name t))) (terminal e))],
      \<lambda>_. False)"

lemma get_jobj: "get (jobj fs) k = (case map_of fs k of Some t \<Rightarrow> t | None \<Rightarrow> TUndef)"
  by (simp add: get_def jobj_def field_def)

lemma is_object_jobj: "is_object (jobj fs)"
  by (simp add: jobj_def)

lemma carries_event_object: "carries (event_object e) e"
proof -
  have "carries_measurement (measurement_object m) False m" for m
    by (simp add: carries_measurement_def measurement_object_def get_jobj is_object_jobj)
  then show ?thesis by (simp add: carries_def event_object_def get_jobj is_object_jobj)
qed

lemma validate_event_object: "valid_event e \<Longrightarrow> validateEvent (event_object e) = Inr e"
  using carries_event_object [of e] by (cases "event_object e") (simp add: validateEvent_complete)

end
