(* ===== verification/Usage_Lineage.thy ===== *)
theory Usage_Lineage
  imports Usage_Event
begin

text \<open>
  The lineage of attempts, \<open>reconcileAttemptLineage\<close> of \<open>src/app/src/usageLedger.ts\<close>: every attempt is
  followed through its predecessors to a root attempt, to the first absent predecessor, or to a contradiction
  (two different roots, or a cycle).

  Maps keep the order of insertion, so they are association lists. The loop over at most as many
  steps as there are attempts carries that number as fuel.

  Shown: the fuel is always enough, the answer for every attempt is the one a chain of predecessors
  justifies, and the traversal fails only if some attempt has no such chain, with a message that names two attempts of the chain with
  different roots or lists the attempts of a cycle.
\<close>

datatype resolution = Resolved | Unresolved jsstr

record UsageAttemptLineage =
  lineage_projectId :: jsstr
  lineage_workflowId :: jsstr
  lineage_agentId :: jsstr
  lineage_attemptId :: jsstr
  lineage_rootAttemptId :: jsstr
  lineage_predecessorAttemptId :: "jsstr option"
  lineage_relationship :: UsageAttemptRelationship
  lineage_resolution :: resolution

type_synonym attempts = "(jsstr \<times> UsageEvent) list"
type_synonym resolutions = "(jsstr \<times> resolution) list"

definition add_attempt :: "UsageEvent \<Rightarrow> attempts \<Rightarrow> attempts" where
  "add_attempt e A = (if map_of A (attemptKey e) \<noteq> None then A else AList.update (attemptKey e) e A)"

definition first_attempts :: "UsageEvent list \<Rightarrow> attempts" where
  "first_attempts events = fold add_attempt events []"

text \<open>The message of a cycle lists its attempts from the smallest identifier on.\<close>

definition smallest_index :: "UsageEvent list \<Rightarrow> nat" where
  "smallest_index cyc =
     foldl (\<lambda>smallest i. if attemptId (cyc ! i) < attemptId (cyc ! smallest) then i else smallest) 0 [0..<length cyc]"

definition cycle_ids :: "attempts \<Rightarrow> jsstr list \<Rightarrow> jsstr \<Rightarrow> jsstr list" where
  "cycle_ids A path key =
     (let cyc = map (\<lambda>k. the (map_of A k)) (dropWhile (\<lambda>k. k \<noteq> key) path);
          first = smallest_index cyc;
          ordered = drop first cyc @ take first cyc
      in map attemptId ordered @ [attemptId (hd ordered)])"

fun walk :: "attempts \<Rightarrow> resolutions \<Rightarrow> nat \<Rightarrow> jsstr \<Rightarrow> jsstr list \<Rightarrow> usage_error + (resolution option \<times> jsstr list)" where
  "walk A R 0 current path = Inr (None, path)"
| "walk A R (Suc steps) current path =
     (case map_of R current of
        Some cached \<Rightarrow> Inr (Some cached, path)
      | None \<Rightarrow>
          (case map_of A current of
             None \<Rightarrow> Inl (Invalid ''Cannot read properties of undefined'')
           | Some e \<Rightarrow>
               let path' = path @ [current] in
               (case predecessorAttemptId e of
                  None \<Rightarrow> Inr (Some Resolved, path')
                | Some p \<Rightarrow>
                    let key = relatedAttemptKey e p; predecessor = map_of A key in
                    if \<exists>e' \<in> set_option predecessor. rootAttemptId e' \<noteq> rootAttemptId e then
                      Inl (Conflict ''Attempt lineage root mismatch''
                        [projectId e, workflowId e, agentId e, attemptId e, rootAttemptId e,
                         attemptId (the predecessor), rootAttemptId (the predecessor)])
                    else if key \<in> set path' then
                      Inl (Conflict ''Cyclic attempt lineage'' ([projectId e, workflowId e, agentId e] @ cycle_ids A path' key))
                    else if predecessor = None then Inr (Some (Unresolved p), path')
                    else walk A R steps key path')))"

definition record_path :: "jsstr list \<Rightarrow> resolution \<Rightarrow> resolutions \<Rightarrow> resolutions" where
  "record_path path r R = fold (\<lambda>k. AList.update k r) path R"

fun resolve_all :: "attempts \<Rightarrow> jsstr list \<Rightarrow> resolutions \<Rightarrow> usage_error + resolutions" where
  "resolve_all A [] R = Inr R"
| "resolve_all A (k # ks) R =
     (if map_of R k \<noteq> None then resolve_all A ks R
      else
        ebind (walk A R (length A) k []) (\<lambda>(res, path).
          case res of
            None \<Rightarrow> Inl (Invalid ''Attempt lineage traversal exceeded the number of canonical attempts.'')
          | Some r \<Rightarrow> resolve_all A ks (record_path path r R)))"

definition lineage_of :: "UsageEvent \<Rightarrow> resolution \<Rightarrow> UsageAttemptLineage" where
  "lineage_of e r =
     \<lparr>lineage_projectId = projectId e, lineage_workflowId = workflowId e, lineage_agentId = agentId e,
      lineage_attemptId = attemptId e, lineage_rootAttemptId = rootAttemptId e,
      lineage_predecessorAttemptId = predecessorAttemptId e, lineage_relationship = relationship e, lineage_resolution = r\<rparr>"

definition reconcileAttemptLineage :: "UsageEvent list \<Rightarrow> usage_error + UsageAttemptLineage list" where
  "reconcileAttemptLineage events =
     (let A = first_attempts events in
      ebind (resolve_all A (map fst A) []) (\<lambda>R. Inr (map (\<lambda>(k, e). lineage_of e (the (map_of R k))) A)))"


section \<open>Chains of predecessors\<close>

text \<open>What the predecessors of an attempt say, if anything.\<close>

inductive traces :: "attempts \<Rightarrow> jsstr \<Rightarrow> resolution \<Rightarrow> bool" for A where
  trace_root: "map_of A k = Some e \<Longrightarrow> predecessorAttemptId e = None \<Longrightarrow> traces A k Resolved"
| trace_absent: "map_of A k = Some e \<Longrightarrow> predecessorAttemptId e = Some p \<Longrightarrow> map_of A (relatedAttemptKey e p) = None \<Longrightarrow>
    traces A k (Unresolved p)"
| trace_step: "map_of A k = Some e \<Longrightarrow> predecessorAttemptId e = Some p \<Longrightarrow> map_of A (relatedAttemptKey e p) = Some e' \<Longrightarrow>
    rootAttemptId e' = rootAttemptId e \<Longrightarrow> traces A (relatedAttemptKey e p) r \<Longrightarrow> traces A k r"

inductive_cases tracesE: "traces A k r"

definition precedes :: "attempts \<Rightarrow> (jsstr \<times> jsstr) set" where
  "precedes A = {(k, relatedAttemptKey e p) | k e p. map_of A k = Some e \<and> predecessorAttemptId e = Some p \<and>
     map_of A (relatedAttemptKey e p) \<noteq> None}"

lemma precedes_deterministic: "(k, l) \<in> precedes A \<Longrightarrow> (k, l') \<in> precedes A \<Longrightarrow> l = l'"
  by (auto simp: precedes_def)

lemma traced_not_cyclic: "traces A k r \<Longrightarrow> (k, k) \<notin> (precedes A)\<^sup>+"
proof (induction rule: traces.induct)
  case (trace_step k e p e' r)
  let ?l = "relatedAttemptKey e p"
  have kl: "(k, ?l) \<in> precedes A" using trace_step.hyps by (auto simp: precedes_def)
  show ?case
  proof
    assume "(k, k) \<in> (precedes A)\<^sup>+"
    then obtain m where m: "(k, m) \<in> precedes A" "(m, k) \<in> (precedes A)\<^sup>*" by (auto dest: tranclD)
    then have "m = ?l" using kl precedes_deterministic by blast
    then have "(?l, ?l) \<in> (precedes A)\<^sup>+" using m(2) kl by (auto intro: rtrancl_into_trancl1)
    with trace_step.IH show False by blast
  qed
qed (auto simp: precedes_def dest: tranclD)

lemma traces_unique: "traces A k r \<Longrightarrow> traces A k r' \<Longrightarrow> r = r'"
proof (induction arbitrary: r' rule: traces.induct)
  case (trace_root k e)
  then show ?case by (auto elim: tracesE)
next
  case (trace_absent k e p)
  from trace_absent.prems trace_absent.hyps show ?case by (auto elim: tracesE)
next
  case (trace_step k e p e' r)
  from trace_step.prems trace_step.hyps have "traces A (relatedAttemptKey e p) r'" by (auto elim: tracesE)
  then show ?case by (rule trace_step.IH)
qed


section \<open>Faults\<close>

text \<open>
  What a message of failure may say: that an attempt and its predecessor declare different roots, or the names of the attempts of a
  cycle of predecessors, from the least name round to it again.
\<close>

definition name_of :: "attempts \<Rightarrow> jsstr \<Rightarrow> jsstr" where
  "name_of A k = attemptId (the (map_of A k))"

definition is_cycle :: "attempts \<Rightarrow> jsstr list \<Rightarrow> bool" where
  "is_cycle A ks \<longleftrightarrow> ks \<noteq> [] \<and> distinct ks \<and> successively (\<lambda>k l. (k, l) \<in> precedes A) (ks @ [hd ks])"

definition lineage_fault :: "attempts \<Rightarrow> usage_error \<Rightarrow> bool" where
  "lineage_fault A err \<longleftrightarrow>
     (\<exists>k e p e'. map_of A k = Some e \<and> predecessorAttemptId e = Some p \<and> map_of A (relatedAttemptKey e p) = Some e' \<and>
        rootAttemptId e' \<noteq> rootAttemptId e \<and>
        err = Conflict ''Attempt lineage root mismatch''
          [projectId e, workflowId e, agentId e, attemptId e, rootAttemptId e, attemptId e', rootAttemptId e']) \<or>
     (\<exists>ks k e. is_cycle A ks \<and> k \<in> set ks \<and> map_of A k = Some e \<and> (\<forall>l \<in> set ks. name_of A (hd ks) \<le> name_of A l) \<and>
        err = Conflict ''Cyclic attempt lineage'' ([projectId e, workflowId e, agentId e] @ map (name_of A) (ks @ [hd ks])))"

lemma is_cycle_rotate:
  assumes "is_cycle A (u @ v)" "v \<noteq> []"
  shows "is_cycle A (v @ u)"
proof (cases "u = []")
  case False
  with assms show ?thesis by (auto simp: is_cycle_def successively_append_iff)
qed (use assms in simp)

lemma smallest_index:
  assumes "cyc \<noteq> []"
  shows "smallest_index cyc < length cyc \<and> (\<forall>e \<in> set cyc. attemptId (cyc ! smallest_index cyc) \<le> attemptId e)"
proof -
  let ?f = "\<lambda>s i. if attemptId (cyc ! i) < attemptId (cyc ! s) then i else s"
  have "n \<le> length cyc \<Longrightarrow> foldl ?f 0 [0..<n] < length cyc \<and>
      (\<forall>i < n. attemptId (cyc ! foldl ?f 0 [0..<n]) \<le> attemptId (cyc ! i))" for n
    using assms by (induction n) (auto simp: less_Suc_eq)
  from this [of "length cyc"] show ?thesis by (auto simp: smallest_index_def in_set_conv_nth)
qed

lemma is_cycle_least:
  assumes "is_cycle A c"
  defines "i \<equiv> smallest_index (map (\<lambda>k. the (map_of A k)) c)"
  shows "is_cycle A (drop i c @ take i c) \<and> set (drop i c @ take i c) = set c \<and>
    (\<forall>l \<in> set c. name_of A (hd (drop i c @ take i c)) \<le> name_of A l)"
proof -
  have "c \<noteq> []" using assms(1) by (simp add: is_cycle_def)
  then have i: "i < length c" "\<forall>k \<in> set c. name_of A (c ! i) \<le> name_of A k"
    using smallest_index [of "map (\<lambda>k. the (map_of A k)) c"] by (auto simp: i_def name_of_def)
  then have ne: "drop i c \<noteq> []" by simp
  have "is_cycle A (drop i c @ take i c)" by (rule is_cycle_rotate [OF _ ne]) (simp add: assms(1))
  moreover have "set (drop i c @ take i c) = set c" by (metis append_take_drop_id set_append sup_commute)
  moreover have "hd (drop i c @ take i c) = c ! i" using i(1) ne by (simp add: hd_drop_conv_nth)
  ultimately show ?thesis using i(2) by simp
qed

lemma cycle_ids_cycle:
  assumes "distinct path" "successively (\<lambda>k l. (k, l) \<in> precedes A) path" "key \<in> set path" "(last path, key) \<in> precedes A"
  shows "\<exists>ks. is_cycle A ks \<and> last path \<in> set ks \<and> (\<forall>l \<in> set ks. name_of A (hd ks) \<le> name_of A l) \<and>
    cycle_ids A path key = map (name_of A) (ks @ [hd ks])"
proof -
  define c where "c = dropWhile (\<lambda>k. k \<noteq> key) path"
  have path: "path = takeWhile (\<lambda>k. k \<noteq> key) path @ c" by (simp add: c_def)
  have ne: "c \<noteq> []" using assms(3) by (auto simp: c_def dropWhile_eq_Nil_conv)
  have hd: "hd c = key" using hd_dropWhile [of "\<lambda>k. k \<noteq> key" path] ne by (simp add: c_def)
  have last: "last c = last path" using ne path by (metis last_appendR)
  have "successively (\<lambda>k l. (k, l) \<in> precedes A) c" using assms(2) path by (metis successively_append_iff)
  moreover have "distinct c" using assms(1) by (simp add: c_def distinct_dropWhile)
  ultimately have cyc: "is_cycle A c" unfolding is_cycle_def successively_append_iff using ne assms(4) hd last by simp
  define i where "i = smallest_index (map (\<lambda>k. the (map_of A k)) c)"
  define ks where "ks = drop i c @ take i c"
  have least: "is_cycle A ks" "set ks = set c" "\<forall>l \<in> set c. name_of A (hd ks) \<le> name_of A l"
    using is_cycle_least [OF cyc] unfolding ks_def i_def by simp_all
  have ks: "ks \<noteq> []" using least(2) ne by auto
  have m: "map (\<lambda>k. the (map_of A k)) ks = drop i (map (\<lambda>k. the (map_of A k)) c) @ take i (map (\<lambda>k. the (map_of A k)) c)"
    by (simp add: ks_def drop_map take_map)
  have "cycle_ids A path key = map (name_of A) (ks @ [hd ks])"
    unfolding cycle_ids_def Let_def c_def [symmetric] i_def [symmetric] m [symmetric] using ks by (simp add: hd_map name_of_def)
  moreover have "last path \<in> set c" using last ne last_in_set by metis
  ultimately show ?thesis using least by (intro exI [of _ ks]) simp
qed


section \<open>The walk\<close>

definition cache_ok :: "attempts \<Rightarrow> resolutions \<Rightarrow> bool" where
  "cache_ok A R \<longleftrightarrow> (\<forall>k r. map_of R k = Some r \<longrightarrow> traces A k r)"

definition on_path :: "attempts \<Rightarrow> jsstr \<Rightarrow> jsstr list \<Rightarrow> bool" where
  "on_path A current path \<longleftrightarrow>
     distinct path \<and> successively (\<lambda>k l. (k, l) \<in> precedes A) (path @ [current]) \<and> set path \<subseteq> fst ` set A \<and> current \<in> fst ` set A \<and> current \<notin> set path \<and>
     (\<forall>k \<in> set path. (k, current) \<in> (precedes A)\<^sup>+ \<and> (\<forall>r. traces A current r \<longleftrightarrow> traces A k r))"

definition walk_ok :: "attempts \<Rightarrow> resolutions \<Rightarrow> jsstr \<Rightarrow> jsstr list \<Rightarrow> usage_error + (resolution option \<times> jsstr list) \<Rightarrow> bool" where
  "walk_ok A R current path result \<longleftrightarrow>
     (case result of
        Inl e \<Rightarrow> \<not> (\<exists>r. traces A current r) \<and> lineage_fault A e
      | Inr (res, path') \<Rightarrow>
          (\<exists>r. res = Some r \<and> traces A current r \<and> (\<forall>k \<in> set path'. traces A k r) \<and> set path \<subseteq> set path' \<and>
            (map_of R current = None \<longrightarrow> current \<in> set path')))"

lemma traces_pred:
  assumes "map_of A k = Some e" "predecessorAttemptId e = Some p" "map_of A (relatedAttemptKey e p) = Some e'"
    "rootAttemptId e' = rootAttemptId e"
  shows "traces A (relatedAttemptKey e p) r \<longleftrightarrow> traces A k r"
proof
  assume "traces A k r"
  then show "traces A (relatedAttemptKey e p) r" using assms by cases auto
qed (rule trace_step [OF assms])

lemma traces_mismatch:
  assumes "map_of A k = Some e" "predecessorAttemptId e = Some p" "map_of A (relatedAttemptKey e p) = Some e'"
    "rootAttemptId e' \<noteq> rootAttemptId e"
  shows "\<not> traces A k r"
proof
  assume "traces A k r"
  then show False using assms by cases auto
qed

lemma on_path_step:
  assumes on: "on_path A k path" and edge: "(k, l) \<in> precedes A" and new: "l \<notin> set (path @ [k])"
    and same: "\<And>r. traces A l r \<longleftrightarrow> traces A k r"
  shows "on_path A l (path @ [k])"
proof -
  have "l \<in> fst ` set A" using edge by (auto simp: precedes_def map_of_eq_None_iff simp flip: not_None_eq)
  moreover have "(x, l) \<in> (precedes A)\<^sup>+" if "x \<in> set (path @ [k])" for x
    using that on edge by (auto simp: on_path_def intro: trancl_into_trancl)
  ultimately show ?thesis using on new same edge by (simp add: on_path_def successively_append_iff)
qed

lemma walk_correct:
  assumes "cache_ok A R" "distinct (map fst A)" "on_path A current path" "length A \<le> length path + steps"
  shows "walk_ok A R current path (walk A R steps current path)"
  using assms
proof (induction steps arbitrary: current path)
  case 0
  then have on: "on_path A current path" and len: "length A \<le> length path" by simp_all
  have "card (set (current # path)) \<le> card (fst ` set A)" using on by (intro card_mono) (auto simp: on_path_def)
  also have "\<dots> \<le> length A" by (metis card_length length_map list.set_map)
  finally have False using on len by (simp add: on_path_def distinct_card)
  then show ?case ..
next
  case (Suc steps)
  note on = Suc.prems(3) [unfolded on_path_def]
  show ?case
  proof (cases "map_of R current")
    case (Some r)
    then have "traces A current r" using Suc.prems(1) by (simp add: cache_ok_def)
    then show ?thesis using Some on by (auto simp: walk_ok_def)
  next
    case uncached: None
    have "map_of A current \<noteq> None" using on by (simp add: map_of_eq_None_iff)
    then obtain e where e: "map_of A current = Some e" by blast
    show ?thesis
    proof (cases "predecessorAttemptId e")
      case None
      then have "traces A current Resolved" using e by (rule trace_root [rotated])
      then show ?thesis using uncached e None on by (auto simp: walk_ok_def Let_def)
    next
      case p: (Some p)
      let ?key = "relatedAttemptKey e p" and ?path = "path @ [current]"
      show ?thesis
      proof (cases "map_of A ?key")
        case absent: None
        then have "?key \<notin> set ?path" using on by (auto simp: map_of_eq_None_iff)
        moreover have "traces A current (Unresolved p)" using e p absent by (rule trace_absent)
        ultimately show ?thesis using uncached e p absent on by (auto simp: walk_ok_def Let_def)
      next
        case e': (Some e')
        have edge: "(current, ?key) \<in> precedes A" using e p e' by (auto simp: precedes_def)
        show ?thesis
        proof (cases "rootAttemptId e' = rootAttemptId e")
          case False
          then have "\<not> traces A current r" for r by (rule traces_mismatch [OF e p e'])
          moreover have "lineage_fault A (Conflict ''Attempt lineage root mismatch''
              [projectId e, workflowId e, agentId e, attemptId e, rootAttemptId e, attemptId e', rootAttemptId e'])"
            unfolding lineage_fault_def using e p e' False by blast
          ultimately show ?thesis using uncached e p e' False by (simp add: walk_ok_def Let_def)
        next
          case root: True
          note same = traces_pred [OF e p e' root]
          show ?thesis
          proof (cases "?key \<in> set ?path")
            case True
            then have "(?key, ?key) \<in> (precedes A)\<^sup>+" using on edge by (auto intro: trancl_into_trancl)
            then have "\<not> traces A current r" for r using traced_not_cyclic same by blast
            moreover from cycle_ids_cycle [of ?path A ?key] True on edge obtain ks where "is_cycle A ks" "current \<in> set ks"
              "\<forall>l \<in> set ks. name_of A (hd ks) \<le> name_of A l" "cycle_ids A ?path ?key = map (name_of A) (ks @ [hd ks])" by auto
            then have "lineage_fault A (Conflict ''Cyclic attempt lineage'' ([projectId e, workflowId e, agentId e] @ cycle_ids A ?path ?key))"
              unfolding lineage_fault_def using e by metis
            ultimately show ?thesis using uncached e p e' root True by (simp add: walk_ok_def Let_def)
          next
            case False
            have "on_path A ?key ?path" by (rule on_path_step [OF Suc.prems(3) edge False same])
            then have "walk_ok A R ?key ?path (walk A R steps ?key ?path)"
              using Suc.prems by (intro Suc.IH) simp_all
            then show ?thesis using uncached e p e' root False same
              by (auto simp: walk_ok_def Let_def split: sum.splits)
          qed
        qed
      qed
    qed
  qed
qed

lemma map_of_record_path: "map_of (record_path path r R) k = (if k \<in> set path then Some r else map_of R k)"
  unfolding record_path_def by (induction path arbitrary: R) (auto simp: update_conv')

lemma resolve_all_correct:
  assumes "distinct (map fst A)" "cache_ok A R" "set ks \<subseteq> fst ` set A"
  shows "case resolve_all A ks R of
    Inl e \<Rightarrow> lineage_fault A e \<and> (\<exists>k \<in> set ks. \<nexists>r. traces A k r)
  | Inr R' \<Rightarrow> cache_ok A R' \<and> (\<forall>k. k \<in> set ks \<or> map_of R k \<noteq> None \<longrightarrow> map_of R' k \<noteq> None)"
  using assms(2,3)
proof (induction ks arbitrary: R)
  case (Cons k ks)
  show ?case
  proof (cases "map_of R k")
    case (Some r)
    then show ?thesis using Cons.IH [OF Cons.prems(1)] Cons.prems(2)
      by (auto split: sum.splits)
  next
    case None
    have "on_path A k []" using Cons.prems(2) by (simp add: on_path_def)
    then have "walk_ok A R k [] (walk A R (length A) k [])"
      using Cons.prems(1) assms(1) by (intro walk_correct) simp_all
    then consider e where "walk A R (length A) k [] = Inl e" "\<nexists>r. traces A k r" "lineage_fault A e"
      | r path where "walk A R (length A) k [] = Inr (Some r, path)" "\<forall>l \<in> set path. traces A l r" "k \<in> set path"
      using None by (auto simp: walk_ok_def split: sum.splits)
    then show ?thesis
    proof cases
      case 1
      then show ?thesis using None by auto
    next
      case 2
      have "cache_ok A (record_path path r R)" using Cons.prems(1) 2(2) by (auto simp: cache_ok_def map_of_record_path)
      from Cons.IH [OF this] show ?thesis using Cons.prems(2) None 2(1,3)
        by (auto simp: map_of_record_path split: sum.splits if_splits)
    qed
  qed
qed simp

lemma first_attempts_snoc: "first_attempts (es @ [e]) = add_attempt e (first_attempts es)"
  by (simp add: first_attempts_def)

lemma map_of_first_attempts: "map_of (first_attempts es) k = find (\<lambda>e. attemptKey e = k) es"
proof (induction es rule: rev_induct)
  case (snoc e es)
  have "find (\<lambda>x. attemptKey x = k) (es @ [e]) =
      (case find (\<lambda>x. attemptKey x = k) es of None \<Rightarrow> if attemptKey e = k then Some e else None | Some x \<Rightarrow> Some x)"
    by (induction es) auto
  then show ?case using snoc by (auto simp: first_attempts_snoc add_attempt_def update_conv' split: option.splits)
qed (simp add: first_attempts_def)

lemma distinct_first_attempts: "distinct (map fst (first_attempts es))"
  by (induction es rule: rev_induct) (simp_all add: first_attempts_snoc add_attempt_def distinct_update, simp add: first_attempts_def)

lemma first_attempts_Some: "map_of (first_attempts es) k = Some e \<Longrightarrow> e \<in> set es \<and> attemptKey e = k"
  unfolding map_of_first_attempts by (rule find_Some_mem)

lemma first_attempts_None: "map_of (first_attempts es) k = None \<longleftrightarrow> (\<forall>e \<in> set es. attemptKey e \<noteq> k)"
  unfolding map_of_first_attempts by (rule find_None_conv)

lemma trace_meaning:
  assumes valid: "list_all valid_event es" and "traces (first_attempts es) k r" "map_of (first_attempts es) k = Some e"
  shows "case r of
      Resolved \<Rightarrow> \<exists>e' \<in> set es. attempt_of e' = (projectId e, workflowId e, agentId e, rootAttemptId e) \<and> relationship e' = Root_attempt
    | Unresolved p \<Rightarrow> \<forall>e' \<in> set es. attempt_of e' \<noteq> (projectId e, workflowId e, agentId e, p)"
  using assms(2,3)
proof (induction arbitrary: e rule: traces.induct)
  case (trace_root k e0)
  then have e0: "e0 = e" "e \<in> set es" by (auto dest: first_attempts_Some)
  then have "valid_event e" using valid by (simp add: list_all_iff)
  then have "rootAttemptId e = attemptId e" "relationship e = Root_attempt" using trace_root e0 by (simp_all add: valid_event_def)
  then show ?case using e0 by (auto simp: attempt_of_def)
next
  case (trace_absent k e0 p)
  then have "e0 = e" by simp
  then have "attemptKey e' \<noteq> relatedAttemptKey e p" if "e' \<in> set es" for e'
    using trace_absent that by (simp add: first_attempts_None)
  then show ?case by (simp add: attemptKey_def relatedAttemptKey_def attempt_key_eq attempt_of_def)
next
  case (trace_step k e0 p e' r)
  then have "e0 = e" by simp
  then have "attemptKey e' = relatedAttemptKey e p" using trace_step(3) by (simp add: first_attempts_Some)
  then have "projectId e' = projectId e" "workflowId e' = workflowId e" "agentId e' = agentId e"
    by (simp_all add: attemptKey_def relatedAttemptKey_def attempt_key_eq)
  with trace_step.IH [OF trace_step(3)] trace_step(4) \<open>e0 = e\<close> show ?case by (cases r) simp_all
qed

text \<open>
  C22: on valid events the traversal always ends within its step limit: it never fails for having exceeded it. It answers for every
  attempt, in order of first appearance, with the attempt's own link: \<open>resolved\<close> only if the declared root attempt is among the events, as
  a root, and \<open>unresolved\<close> only with a predecessor that is absent from them. When it fails, the message either names an attempt and its
  predecessor with different roots, or lists a cycle of predecessors from its least name on; and then some attempt's predecessors say nothing of its root.
\<close>

theorem lineage_exact:
  assumes "list_all valid_event events"
  shows "case reconcileAttemptLineage events of
      Inl err \<Rightarrow> lineage_fault (first_attempts events) err \<and>
        (\<exists>e \<in> set events. \<nexists>r. traces (first_attempts events) (attemptKey e) r)
    | Inr L \<Rightarrow>
        list_all2 (\<lambda>(k, e) l. l = lineage_of e (lineage_resolution l) \<and> traces (first_attempts events) k (lineage_resolution l) \<and>
          (case lineage_resolution l of
             Resolved \<Rightarrow> \<exists>e' \<in> set events. attempt_of e' = (projectId e, workflowId e, agentId e, rootAttemptId e) \<and> relationship e' = Root_attempt
           | Unresolved p \<Rightarrow> \<forall>e' \<in> set events. attempt_of e' \<noteq> (projectId e, workflowId e, agentId e, p))) (first_attempts events) L"
proof -
  let ?A = "first_attempts events"
  note correct = resolve_all_correct [OF distinct_first_attempts, of events "[]" "map fst ?A"]
  show ?thesis
  proof (cases "resolve_all ?A (map fst ?A) []")
    case (Inl err)
    then obtain k where k: "k \<in> fst ` set ?A" "\<nexists>r. traces ?A k r" "lineage_fault ?A err" using correct by (auto simp: cache_ok_def)
    then have "map_of ?A k \<noteq> None" by (simp add: map_of_eq_None_iff)
    then obtain e where "e \<in> set events" "attemptKey e = k" by (auto dest: first_attempts_Some)
    then show ?thesis using Inl k by (auto simp: reconcileAttemptLineage_def)
  next
    case (Inr R)
    then have R: "cache_ok ?A R" "\<And>k. k \<in> fst ` set ?A \<Longrightarrow> map_of R k \<noteq> None" using correct by (auto simp: cache_ok_def)
    have "traces ?A k (the (map_of R k))" if "(k, e) \<in> set ?A" for k e
      using R(2) [of k] R(1) that by (force simp: cache_ok_def)
    moreover have "map_of ?A k = Some e" if "(k, e) \<in> set ?A" for k e
      using that distinct_first_attempts by simp
    ultimately have "\<forall>(k, e) \<in> set ?A. traces ?A k (the (map_of R k)) \<and> (case the (map_of R k) of
             Resolved \<Rightarrow> \<exists>e' \<in> set events. attempt_of e' = (projectId e, workflowId e, agentId e, rootAttemptId e) \<and> relationship e' = Root_attempt
           | Unresolved p \<Rightarrow> \<forall>e' \<in> set events. attempt_of e' \<noteq> (projectId e, workflowId e, agentId e, p))"
      using trace_meaning [OF assms] by blast
    moreover have "reconcileAttemptLineage events = Inr (map (\<lambda>(k, e). lineage_of e (the (map_of R k))) ?A)"
      using Inr by (simp add: reconcileAttemptLineage_def)
    ultimately show ?thesis
      by (auto simp: list_all2_map2 lineage_of_def list_all2_same)
  qed
qed

theorem lineage_exact_witness:
  "reconcileAttemptLineage [demo_usage 1 (of_int 3)] = Inr [lineage_of (demo_usage 1 (of_int 3)) Resolved] \<and>
   traces (first_attempts [demo_usage 1 (of_int 3)]) (attemptKey (demo_usage 1 (of_int 3))) Resolved"
proof -
  let ?e = "demo_usage 1 (of_int 3)"
  have "predecessorAttemptId ?e = None" by (simp add: demo_usage_def)
  then have result: "reconcileAttemptLineage [?e] = Inr [lineage_of ?e Resolved]"
    by (simp add: reconcileAttemptLineage_def first_attempts_def add_attempt_def record_path_def Let_def)
  have "list_all valid_event [?e]" using demo_usage_valid [of 1 3] by simp
  from lineage_exact [OF this] show ?thesis
    unfolding result by (simp add: first_attempts_def add_attempt_def lineage_of_def)
qed

end
