(* ===== verification/Usage_Ledger.thy ===== *)
theory Usage_Ledger
  imports Usage_Lineage
begin

text \<open>
  Reconciliation of usage events, \<open>reconcileUsageEvents\<close> of \<open>src/app/src/usageLedger.ts\<close>: from a stream of revisions in any
  order to one canonical event per identity.

  Shown: the canonical events are the latest revisions of the input, one per identity, in the order of their
  identities; two streams with the same events, in whatever order and however often repeated, never
  reconcile to different results; and they are accepted together, unless an event has two different revisions under
  one version number, which the code notices only in some orders.
\<close>

record reconcile_state =
  latest :: "(jsstr \<times> UsageEvent) list"
  terminalByAttempt :: "(jsstr \<times> usage_terminal) list"
  relationshipByAttempt :: "(jsstr \<times> jsstr) list"
  latestTerminalByEvent :: "(jsstr \<times> UsageEvent) list"

record ReconciledUsageEvents =
  canonical_events :: "UsageEvent list"
  lineage :: "UsageAttemptLineage list"

definition empty_state :: reconcile_state where
  "empty_state = \<lparr>latest = [], terminalByAttempt = [], relationshipByAttempt = [], latestTerminalByEvent = []\<rparr>"

definition relation_text :: "UsageEvent \<Rightarrow> jsstr" where
  "relation_text e =
     json_key (TArr [TStr (rootAttemptId e), nullable TStr (predecessorAttemptId e), TStr (js (relationship_name (relationship e))),
       TBool (fallback e), TStr (provider e), TStr (model e), TStr (role e)])"

definition note_relation :: "UsageEvent \<Rightarrow> reconcile_state \<Rightarrow> usage_error + reconcile_state" where
  "note_relation e st =
     (case map_of (relationshipByAttempt st) (attemptKey e) of
        Some prev \<Rightarrow>
          if prev \<noteq> relation_text e then Inl (Conflict ''Conflicting attempt relationship'' [agentId e, attemptId e])
          else Inr (st\<lparr>relationshipByAttempt := AList.update (attemptKey e) (relation_text e) (relationshipByAttempt st)\<rparr>)
      | None \<Rightarrow> Inr (st\<lparr>relationshipByAttempt := AList.update (attemptKey e) (relation_text e) (relationshipByAttempt st)\<rparr>))"

definition note_terminal :: "UsageEvent \<Rightarrow> reconcile_state \<Rightarrow> usage_error + reconcile_state" where
  "note_terminal e st =
     (case terminal e of
        None \<Rightarrow> Inr st
      | Some t \<Rightarrow>
          if \<exists>prev \<in> set_option (map_of (terminalByAttempt st) (attemptKey e)). prev \<noteq> t
          then Inl (Conflict ''Conflicting terminal records'' [agentId e, attemptId e])
          else Inr (st\<lparr>terminalByAttempt := AList.update (attemptKey e) t (terminalByAttempt st),
            latestTerminalByEvent :=
              (case map_of (latestTerminalByEvent st) (eventKey e) of
                 None \<Rightarrow> AList.update (eventKey e) e (latestTerminalByEvent st)
               | Some prev \<Rightarrow>
                   if version e > version prev then AList.update (eventKey e) e (latestTerminalByEvent st)
                   else latestTerminalByEvent st)\<rparr>))"

definition note_revision :: "UsageEvent \<Rightarrow> reconcile_state \<Rightarrow> usage_error + reconcile_state" where
  "note_revision e st =
     (case map_of (latest st) (eventKey e) of
        None \<Rightarrow> Inr (st\<lparr>latest := AList.update (eventKey e) e (latest st)\<rparr>)
      | Some prev \<Rightarrow>
          if version prev = version e then
            if eventFingerprint prev \<noteq> eventFingerprint e
            then Inl (Conflict ''Conflicting revision'' [agentId e, attemptId e, eventId e]) else Inr st
          else if version e > version prev then Inr (st\<lparr>latest := AList.update (eventKey e) e (latest st)\<rparr>)
          else Inr st)"

definition accept_event :: "UsageEvent \<Rightarrow> reconcile_state \<Rightarrow> usage_error + reconcile_state" where
  "accept_event e st = ebind (note_relation e st) (\<lambda>st1. ebind (note_terminal e st1) (note_revision e))"

fun reconcile_loop :: "usage_value list \<Rightarrow> reconcile_state \<Rightarrow> usage_error + reconcile_state" where
  "reconcile_loop [] st = Inr st"
| "reconcile_loop (v # vs) st = ebind (validateEvent v) (\<lambda>e. ebind (accept_event e st) (reconcile_loop vs))"

definition check_events_closed :: "reconcile_state \<Rightarrow> usage_error + unit" where
  "check_events_closed st =
     (case find (\<lambda>(key, t). \<exists>c \<in> set_option (map_of (latest st) key). version c > version t \<and> terminal c = None)
        (latestTerminalByEvent st) of
        Some (key, t) \<Rightarrow> Inl (Conflict ''A terminal event cannot reopen'' [agentId t, attemptId t, eventId t])
      | None \<Rightarrow> Inr ())"

definition add_terminal_end :: "UsageEvent \<Rightarrow> (jsstr \<times> int) list \<Rightarrow> (jsstr \<times> int) list" where
  "add_terminal_end e m =
     (if terminal e = None then m
      else
        let terminalEnd = (case endedAtMs e of Some t \<Rightarrow> t | None \<Rightarrow> 0);
            known = (case map_of m (attemptKey e) of Some k \<Rightarrow> k | None \<Rightarrow> 0)
        in AList.update (attemptKey e) (max known terminalEnd) m)"

definition reopens :: "(jsstr \<times> int) list \<Rightarrow> UsageEvent \<Rightarrow> bool" where
  "reopens ends e \<longleftrightarrow>
     (case map_of ends (attemptKey e) of
        None \<Rightarrow> False
      | Some terminalEnd \<Rightarrow>
          terminal e = None \<and>
          (case endedAtMs e of None \<Rightarrow> True | Some t \<Rightarrow> startedAtMs e > terminalEnd \<or> t > terminalEnd))"

definition check_attempts_closed :: "UsageEvent list \<Rightarrow> usage_error + unit" where
  "check_attempts_closed events =
     (case find (reopens (fold add_terminal_end events [])) events of
        Some e \<Rightarrow> Inl (Conflict ''A terminal attempt cannot reopen'' [agentId e, attemptId e])
      | None \<Rightarrow> Inr ())"

definition reconcileUsageEvents :: "usage_value list \<Rightarrow> usage_error + ReconciledUsageEvents" where
  "reconcileUsageEvents events =
     ebind (reconcile_loop events empty_state) (\<lambda>st.
     ebind (check_events_closed st) (\<lambda>_.
     ebind (check_attempts_closed (map snd (latest st))) (\<lambda>_.
       let canonicalEvents = js_sort compareEvents (map snd (latest st)) in
       ebind (reconcileAttemptLineage canonicalEvents) (\<lambda>l.
         Inr \<lparr>canonical_events = canonicalEvents, lineage = l\<rparr>))))"


section \<open>What the loop has recorded\<close>

text \<open>The latest revision of its identity, with no other of the same version.\<close>

definition is_latest :: "UsageEvent set \<Rightarrow> UsageEvent \<Rightarrow> bool" where
  "is_latest E e \<longleftrightarrow> e \<in> E \<and> (\<forall>e' \<in> E. eventKey e' = eventKey e \<longrightarrow> version e' < version e \<or> e' = e)"

lemma is_latest_unique: "is_latest E e \<Longrightarrow> is_latest E e' \<Longrightarrow> eventKey e = eventKey e' \<Longrightarrow> e = e'"
  unfolding is_latest_def by (metis order_less_asym)

definition latest_ok :: "UsageEvent set \<Rightarrow> (jsstr \<times> UsageEvent) list \<Rightarrow> bool" where
  "latest_ok E L \<longleftrightarrow>
     distinct (map fst L) \<and> (\<forall>k e. map_of L k = Some e \<longrightarrow> is_latest E e \<and> eventKey e = k) \<and>
     (\<forall>e \<in> E. map_of L (eventKey e) \<noteq> None)"

definition terminals_ok :: "UsageEvent set \<Rightarrow> (jsstr \<times> UsageEvent) list \<Rightarrow> bool" where
  "terminals_ok E T \<longleftrightarrow>
     distinct (map fst T) \<and>
     (\<forall>k t. map_of T k = Some t \<longrightarrow> t \<in> E \<and> terminal t \<noteq> None \<and> eventKey t = k) \<and>
     (\<forall>e \<in> E. terminal e \<noteq> None \<longrightarrow> (\<exists>t. map_of T (eventKey e) = Some t \<and> version e \<le> version t))"

definition state_ok :: "UsageEvent set \<Rightarrow> reconcile_state \<Rightarrow> bool" where
  "state_ok E st \<longleftrightarrow>
     latest_ok E (latest st) \<and> terminals_ok E (latestTerminalByEvent st) \<and>
     (\<forall>k r. map_of (relationshipByAttempt st) k = Some r \<longleftrightarrow> (\<exists>e \<in> E. attemptKey e = k \<and> relation_text e = r)) \<and>
     (\<forall>k t. map_of (terminalByAttempt st) k = Some t \<longleftrightarrow> (\<exists>e \<in> E. attemptKey e = k \<and> terminal e = Some t))"

lemma state_ok_empty: "state_ok {} empty_state"
  by (simp add: state_ok_def latest_ok_def terminals_ok_def empty_state_def)

text \<open>Events that may follow each other in a stream.\<close>

definition agrees :: "UsageEvent \<Rightarrow> UsageEvent \<Rightarrow> bool" where
  "agrees e e' \<longleftrightarrow>
     (attemptKey e = attemptKey e' \<longrightarrow>
       relation_text e = relation_text e' \<and> (terminal e = None \<or> terminal e' = None \<or> terminal e = terminal e'))"

lemma note_relation_iff:
  assumes "state_ok E st"
  shows "note_relation e st = Inr st' \<longleftrightarrow>
    (\<forall>e' \<in> E. attemptKey e' = attemptKey e \<longrightarrow> relation_text e' = relation_text e) \<and>
    st' = st\<lparr>relationshipByAttempt := AList.update (attemptKey e) (relation_text e) (relationshipByAttempt st)\<rparr>"
proof (cases "map_of (relationshipByAttempt st) (attemptKey e)")
  case None
  then have "\<forall>e' \<in> E. attemptKey e' \<noteq> attemptKey e" using assms unfolding state_ok_def by (metis option.distinct(1))
  then show ?thesis using None by (auto simp: note_relation_def)
next
  case (Some r)
  then have "\<And>r'. (\<exists>e' \<in> E. attemptKey e' = attemptKey e \<and> relation_text e' = r') \<longleftrightarrow> r' = r"
    using assms unfolding state_ok_def by (metis option.inject)
  then have "r = relation_text e \<longleftrightarrow> (\<forall>e' \<in> E. attemptKey e' = attemptKey e \<longrightarrow> relation_text e' = relation_text e)" by metis
  then show ?thesis using Some by (auto simp: note_relation_def)
qed

lemma note_terminal_ok:
  assumes "state_ok E st"
  shows "(\<exists>st'. note_terminal e (st\<lparr>relationshipByAttempt := R\<rparr>) = Inr st') \<longleftrightarrow>
    (\<forall>e' \<in> E. attemptKey e' = attemptKey e \<longrightarrow> terminal e = None \<or> terminal e' = None \<or> terminal e = terminal e')"
proof (cases "terminal e")
  case (Some t)
  have known: "map_of (terminalByAttempt st) (attemptKey e) = Some t' \<longleftrightarrow> (\<exists>e' \<in> E. attemptKey e' = attemptKey e \<and> terminal e' = Some t')" for t'
    using assms unfolding state_ok_def by blast
  have "(\<exists>prev \<in> set_option (map_of (terminalByAttempt st) (attemptKey e)). prev \<noteq> t) \<longleftrightarrow>
      (\<exists>t'. map_of (terminalByAttempt st) (attemptKey e) = Some t' \<and> t' \<noteq> t)"
    by (cases "map_of (terminalByAttempt st) (attemptKey e)") simp_all
  also have "\<dots> \<longleftrightarrow> (\<exists>e' \<in> E. attemptKey e' = attemptKey e \<and> terminal e' \<noteq> None \<and> terminal e' \<noteq> Some t)"
    unfolding known by fastforce
  finally have conflict: "(\<exists>prev \<in> set_option (map_of (terminalByAttempt st) (attemptKey e)). prev \<noteq> t) \<longleftrightarrow>
      (\<exists>e' \<in> E. attemptKey e' = attemptKey e \<and> terminal e' \<noteq> None \<and> terminal e' \<noteq> Some t)" .
  have "(\<exists>st'. note_terminal e (st\<lparr>relationshipByAttempt := R\<rparr>) = Inr st') \<longleftrightarrow>
      \<not> (\<exists>prev \<in> set_option (map_of (terminalByAttempt st) (attemptKey e)). prev \<noteq> t)"
    by (simp add: note_terminal_def Some)
  also have "\<dots> \<longleftrightarrow> (\<forall>e' \<in> E. attemptKey e' = attemptKey e \<longrightarrow> terminal e = None \<or> terminal e' = None \<or> terminal e = terminal e')"
    unfolding conflict Some by fastforce
  finally show ?thesis .
qed (simp add: note_terminal_def)

lemma latest_insert:
  assumes ok: "latest_ok E L"
  shows "map_of L (eventKey e) = None \<Longrightarrow> latest_ok (insert e E) (AList.update (eventKey e) e L)"
    and "map_of L (eventKey e) = Some p \<Longrightarrow> version p < version e \<Longrightarrow> latest_ok (insert e E) (AList.update (eventKey e) e L)"
    and "map_of L (eventKey e) = Some p \<Longrightarrow> version e < version p \<or> e = p \<Longrightarrow> latest_ok (insert e E) L"
proof -
  have dist: "distinct (map fst L)" and there: "\<And>x. x \<in> E \<Longrightarrow> map_of L (eventKey x) \<noteq> None"
    and val: "\<And>k x. map_of L k = Some x \<Longrightarrow> is_latest E x \<and> eventKey x = k"
    using ok by (auto simp: latest_ok_def)
  have below: "version x < version e" if x: "x \<in> E" "eventKey x = eventKey e"
    "map_of L (eventKey e) = None \<or> (\<exists>p. map_of L (eventKey e) = Some p \<and> version p < version e)" for x
  proof -
    have "map_of L (eventKey e) \<noteq> None" using there [OF x(1)] x(2) by simp
    then obtain p where p: "map_of L (eventKey e) = Some p" "version p < version e" using x(3) by auto
    then have "is_latest E p" "eventKey p = eventKey e" using val by auto
    then show ?thesis using x(1,2) p(2) by (auto simp: is_latest_def)
  qed
  have other: "is_latest (insert e E) x" if "is_latest E x" "eventKey x \<noteq> eventKey e" for x
    using that by (auto simp: is_latest_def)
  have new: "latest_ok (insert e E) (AList.update (eventKey e) e L)"
    if "map_of L (eventKey e) = None \<or> (\<exists>p. map_of L (eventKey e) = Some p \<and> version p < version e)"
  proof -
    have "is_latest (insert e E) e" using below that by (auto simp: is_latest_def)
    then show ?thesis unfolding latest_ok_def update_conv' using distinct_update [OF dist] val other there by (auto split: if_splits)
  qed
  show "map_of L (eventKey e) = None \<Longrightarrow> latest_ok (insert e E) (AList.update (eventKey e) e L)"
    "map_of L (eventKey e) = Some p \<Longrightarrow> version p < version e \<Longrightarrow> latest_ok (insert e E) (AList.update (eventKey e) e L)"
    using new by blast+
  show "latest_ok (insert e E) L" if p: "map_of L (eventKey e) = Some p" and less: "version e < version p \<or> e = p"
  proof -
    have "is_latest (insert e E) p" using val [OF p] less by (auto simp: is_latest_def)
    then have "is_latest (insert e E) x" if "map_of L k = Some x" for k x
      using val [OF that] that p other by (cases "k = eventKey e") auto
    then show ?thesis using dist val there p by (auto simp: latest_ok_def)
  qed
qed

lemma note_revision_iff:
  assumes "latest_ok E (latest st)"
  shows "note_revision e st = Inr st' \<Longrightarrow> latest_ok (insert e E) (latest st') \<and> st' = st\<lparr>latest := latest st'\<rparr>"
    and "(\<exists>st'. note_revision e st = Inr st') \<longleftrightarrow>
      (\<forall>p. map_of (latest st) (eventKey e) = Some p \<and> version p = version e \<longrightarrow> p = e)"
proof -
  show "latest_ok (insert e E) (latest st') \<and> st' = st\<lparr>latest := latest st'\<rparr>" if "note_revision e st = Inr st'"
    using that latest_insert [OF assms, of e]
    by (auto simp: note_revision_def eventFingerprint_inject split: option.splits if_splits)
  show "(\<exists>st'. note_revision e st = Inr st') \<longleftrightarrow>
      (\<forall>p. map_of (latest st) (eventKey e) = Some p \<and> version p = version e \<longrightarrow> p = e)"
    by (auto simp: note_revision_def eventFingerprint_inject split: option.split)
qed

lemma terminals_insert:
  assumes ok: "terminals_ok E T"
  shows "terminal e = None \<Longrightarrow> terminals_ok (insert e E) T"
    and "terminal e \<noteq> None \<Longrightarrow> terminals_ok (insert e E)
      (case map_of T (eventKey e) of
         None \<Rightarrow> AList.update (eventKey e) e T
       | Some prev \<Rightarrow> if version e > version prev then AList.update (eventKey e) e T else T)"
proof -
  have dist: "distinct (map fst T)"
    and val: "\<And>k t. map_of T k = Some t \<Longrightarrow> t \<in> E \<and> terminal t \<noteq> None \<and> eventKey t = k"
    and cover: "\<And>x. x \<in> E \<Longrightarrow> terminal x \<noteq> None \<Longrightarrow> \<exists>t. map_of T (eventKey x) = Some t \<and> version x \<le> version t"
    using ok by (auto simp: terminals_ok_def)
  show "terminal e = None \<Longrightarrow> terminals_ok (insert e E) T" using dist val cover by (auto simp: terminals_ok_def)
  assume e: "terminal e \<noteq> None"
  have new: "terminals_ok (insert e E) (AList.update (eventKey e) e T)"
    if less: "\<And>p. map_of T (eventKey e) = Some p \<Longrightarrow> version p < version e"
  proof -
    have "\<exists>t. map_of (AList.update (eventKey e) e T) (eventKey x) = Some t \<and> version x \<le> version t"
      if "x \<in> insert e E" "terminal x \<noteq> None" for x
    proof (cases "eventKey x = eventKey e")
      case True
      then have "version x \<le> version e" using that cover [of x] less by fastforce
      then show ?thesis using True by (simp add: update_conv')
    next
      case False
      then show ?thesis using that cover [of x] by (auto simp: update_conv')
    qed
    then show ?thesis using distinct_update [OF dist] val e by (auto simp: terminals_ok_def update_conv' split: if_splits)
  qed
  have old: "terminals_ok (insert e E) T" if "map_of T (eventKey e) = Some p" "version e \<le> version p" for p
    using dist val cover that by (auto simp: terminals_ok_def)
  show "terminals_ok (insert e E)
      (case map_of T (eventKey e) of
         None \<Rightarrow> AList.update (eventKey e) e T
       | Some prev \<Rightarrow> if version e > version prev then AList.update (eventKey e) e T else T)"
    using new old by (auto split: option.split)
qed

lemma agrees_refl [simp]: "agrees e e"
  by (simp add: agrees_def)

lemma agrees_sym: "agrees e e' \<Longrightarrow> agrees e' e"
  by (auto simp: agrees_def)

lemma note_terminal_latest: "note_terminal e st = Inr st' \<Longrightarrow> latest st' = latest st"
  by (auto simp: note_terminal_def split: option.splits if_splits)

lemma accept_event_iff:
  assumes ok: "state_ok E st"
  shows "(\<exists>st'. accept_event e st = Inr st') \<longleftrightarrow>
    (\<forall>e' \<in> E. agrees e' e) \<and> (\<forall>p. map_of (latest st) (eventKey e) = Some p \<and> version p = version e \<longrightarrow> p = e)"
proof -
  let ?st1 = "st\<lparr>relationshipByAttempt := AList.update (attemptKey e) (relation_text e) (relationshipByAttempt st)\<rparr>"
  have "(\<exists>st'. accept_event e st = Inr st') \<longleftrightarrow>
      (\<forall>e' \<in> E. attemptKey e' = attemptKey e \<longrightarrow> relation_text e' = relation_text e) \<and>
      (\<exists>st2. note_terminal e ?st1 = Inr st2 \<and> (\<exists>st'. note_revision e st2 = Inr st'))"
    unfolding accept_event_def ebind_Inr_iff note_relation_iff [OF ok] by blast
  also have "(\<exists>st2. note_terminal e ?st1 = Inr st2 \<and> (\<exists>st'. note_revision e st2 = Inr st')) \<longleftrightarrow>
      (\<exists>st2. note_terminal e ?st1 = Inr st2) \<and> (\<forall>p. map_of (latest st) (eventKey e) = Some p \<and> version p = version e \<longrightarrow> p = e)"
  proof -
    have "(\<exists>st'. note_revision e st2 = Inr st') \<longleftrightarrow> (\<forall>p. map_of (latest st) (eventKey e) = Some p \<and> version p = version e \<longrightarrow> p = e)"
      if "note_terminal e ?st1 = Inr st2" for st2
    proof -
      have same: "latest st2 = latest st" using note_terminal_latest [OF that] by simp
      have "latest_ok E (latest st2)" using ok unfolding state_ok_def same by (rule conjunct1)
      then show ?thesis unfolding same [symmetric] by (rule note_revision_iff(2))
    qed
    then show ?thesis by blast
  qed
  also have "(\<exists>st2. note_terminal e ?st1 = Inr st2) \<longleftrightarrow>
      (\<forall>e' \<in> E. attemptKey e' = attemptKey e \<longrightarrow> terminal e = None \<or> terminal e' = None \<or> terminal e = terminal e')"
    by (rule note_terminal_ok [OF ok])
  finally show ?thesis unfolding agrees_def by fastforce
qed

lemma accept_event_ok:
  assumes ok: "state_ok E st" and acc: "accept_event e st = Inr st'"
  shows "state_ok (insert e E) st'"
proof -
  let ?st1 = "st\<lparr>relationshipByAttempt := AList.update (attemptKey e) (relation_text e) (relationshipByAttempt st)\<rparr>"
  obtain st2 where rel: "\<forall>e' \<in> E. attemptKey e' = attemptKey e \<longrightarrow> relation_text e' = relation_text e"
    and st2: "note_terminal e ?st1 = Inr st2" and st': "note_revision e st2 = Inr st'"
    using acc unfolding accept_event_def ebind_Inr_iff note_relation_iff [OF ok] by blast
  have parts: "latest_ok E (latest st)" "terminals_ok E (latestTerminalByEvent st)"
    "\<And>k r. map_of (relationshipByAttempt st) k = Some r \<longleftrightarrow> (\<exists>e \<in> E. attemptKey e = k \<and> relation_text e = r)"
    "\<And>k t. map_of (terminalByAttempt st) k = Some t \<longleftrightarrow> (\<exists>e \<in> E. attemptKey e = k \<and> terminal e = Some t)"
    using ok unfolding state_ok_def by blast+
  have "latest_ok E (latest st2)" using note_terminal_latest [OF st2] parts(1) by simp
  from note_revision_iff(1) [OF this st'] have L: "latest_ok (insert e E) (latest st')" and same: "st' = st2\<lparr>latest := latest st'\<rparr>"
    by auto
  have T: "terminals_ok (insert e E) (latestTerminalByEvent st2)"
    using st2 terminals_insert [OF parts(2), of e] by (auto simp: note_terminal_def split: option.splits if_splits)
  have R: "map_of (relationshipByAttempt st2) k = Some r \<longleftrightarrow> (\<exists>x \<in> insert e E. attemptKey x = k \<and> relation_text x = r)" for k r
  proof -
    have "relationshipByAttempt st2 = AList.update (attemptKey e) (relation_text e) (relationshipByAttempt st)"
      using st2 by (auto simp: note_terminal_def split: option.splits if_splits)
    then show ?thesis using rel parts(3) [of k r] by (auto simp: update_conv')
  qed
  have agree: "\<forall>e' \<in> E. attemptKey e' = attemptKey e \<longrightarrow> terminal e = None \<or> terminal e' = None \<or> terminal e = terminal e'"
    using note_terminal_ok [OF ok, of e] st2 by blast
  have A: "map_of (terminalByAttempt st2) k = Some t \<longleftrightarrow> (\<exists>x \<in> insert e E. attemptKey x = k \<and> terminal x = Some t)" for k t
  proof -
    have "terminalByAttempt st2 = (case terminal e of None \<Rightarrow> terminalByAttempt st | Some t \<Rightarrow> AList.update (attemptKey e) t (terminalByAttempt st))"
      using st2 by (auto simp: note_terminal_def split: option.splits if_splits)
    then show ?thesis using agree parts(4) [of k t] by (auto simp: update_conv' split: option.splits)
  qed
  have sel: "latestTerminalByEvent st' = latestTerminalByEvent st2" "relationshipByAttempt st' = relationshipByAttempt st2"
    "terminalByAttempt st' = terminalByAttempt st2" by (subst same, simp)+
  show ?thesis unfolding state_ok_def sel using L T R A by blast
qed

fun accept_all :: "UsageEvent list \<Rightarrow> reconcile_state \<Rightarrow> usage_error + reconcile_state" where
  "accept_all [] st = Inr st"
| "accept_all (e # es) st = ebind (accept_event e st) (accept_all es)"

lemma reconcile_loop_iff:
  "reconcile_loop vs st = Inr st' \<longleftrightarrow>
     (\<exists>es. list_all2 (\<lambda>v e. validateEvent v = Inr e) vs es \<and> accept_all es st = Inr st')"
proof (induction vs arbitrary: st)
  case (Cons v vs)
  have "reconcile_loop (v # vs) st = Inr st' \<longleftrightarrow>
      (\<exists>e. validateEvent v = Inr e \<and> (\<exists>st1. accept_event e st = Inr st1 \<and> reconcile_loop vs st1 = Inr st'))"
    by (simp add: ebind_Inr_iff)
  also have "\<dots> \<longleftrightarrow> (\<exists>e es. validateEvent v = Inr e \<and> list_all2 (\<lambda>v e. validateEvent v = Inr e) vs es \<and>
      (\<exists>st1. accept_event e st = Inr st1 \<and> accept_all es st1 = Inr st'))"
    unfolding Cons.IH by blast
  also have "\<dots> \<longleftrightarrow> (\<exists>es. list_all2 (\<lambda>v e. validateEvent v = Inr e) (v # vs) es \<and> accept_all es st = Inr st')"
    unfolding list_all2_Cons1 by (simp add: ebind_Inr_iff ex_simps(1,2) [symmetric] del: ex_simps)
  finally show ?case .
qed simp

lemma accept_all_ok: "state_ok E st \<Longrightarrow> accept_all es st = Inr st' \<Longrightarrow> state_ok (E \<union> set es) st'"
proof (induction es arbitrary: E st)
  case (Cons e es)
  from Cons.prems(2) obtain st1 where "accept_event e st = Inr st1" "accept_all es st1 = Inr st'" by (auto simp: ebind_Inr_iff)
  with Cons.IH [OF accept_event_ok [OF Cons.prems(1)]] show ?case by simp
qed simp

text \<open>No two different revisions of an event have the same version.\<close>

definition single_revisions :: "UsageEvent set \<Rightarrow> bool" where
  "single_revisions E \<longleftrightarrow> (\<forall>e \<in> E. \<forall>e' \<in> E. eventKey e = eventKey e' \<and> version e = version e' \<longrightarrow> e = e')"

lemma accept_all_iff:
  assumes "state_ok E st" "single_revisions (E \<union> set es)"
  shows "(\<exists>st'. accept_all es st = Inr st') \<longleftrightarrow> (\<forall>e \<in> set es. \<forall>e' \<in> E \<union> set es. agrees e' e)"
  using assms
proof (induction es arbitrary: E st)
  case (Cons e es)
  have "p = e" if "map_of (latest st) (eventKey e) = Some p" "version p = version e" for p
  proof -
    have "p \<in> E" "eventKey p = eventKey e" using that(1) Cons.prems(1) by (auto simp: state_ok_def latest_ok_def is_latest_def)
    then show ?thesis using that(2) Cons.prems(2) by (auto simp: single_revisions_def)
  qed
  then have head: "(\<exists>st1. accept_event e st = Inr st1) \<longleftrightarrow> (\<forall>e' \<in> E. agrees e' e)"
    using accept_event_iff [OF Cons.prems(1), of e] by blast
  have tail: "(\<exists>st'. accept_all es st1 = Inr st') \<longleftrightarrow> (\<forall>x \<in> set es. \<forall>e' \<in> insert e E \<union> set es. agrees e' x)"
    if "accept_event e st = Inr st1" for st1
    using Cons.prems(2) by (intro Cons.IH accept_event_ok [OF Cons.prems(1) that]) simp
  have "(\<exists>st'. accept_all (e # es) st = Inr st') \<longleftrightarrow>
      (\<forall>e' \<in> E. agrees e' e) \<and> (\<forall>x \<in> set es. \<forall>e' \<in> insert e E \<union> set es. agrees e' x)"
    using head tail by (auto simp: ebind_Inr_iff)
  also have "\<dots> \<longleftrightarrow> (\<forall>x \<in> set (e # es). \<forall>e' \<in> E \<union> set (e # es). agrees e' x)"
    using agrees_sym by (simp add: ball_Un) blast
  finally show ?case .
qed simp


section \<open>The checks after the loop\<close>

lemma latest_lookup:
  assumes "latest_ok E L" "is_latest E c"
  shows "map_of L (eventKey c) = Some c"
proof -
  have "c \<in> E" using assms(2) by (simp add: is_latest_def)
  then have "map_of L (eventKey c) \<noteq> None" using assms(1) unfolding latest_ok_def by blast
  then obtain x where x: "map_of L (eventKey c) = Some x" by blast
  then have "is_latest E x" "eventKey x = eventKey c" using assms(1) by (simp_all add: latest_ok_def)
  then show ?thesis using x is_latest_unique [OF _ assms(2)] by simp
qed

lemma latest_values:
  assumes "latest_ok E L"
  shows "set (map snd L) = {e. is_latest E e}" "distinct (map order_key (map snd L))"
proof -
  have entry: "is_latest E e \<and> eventKey e = k" if "(k, e) \<in> set L" for k e
    using that assms by (simp add: latest_ok_def)
  show "set (map snd L) = {e. is_latest E e}"
  proof (intro equalityI subsetI)
    fix e assume "e \<in> {e. is_latest E e}"
    then have "map_of L (eventKey e) = Some e" using latest_lookup [OF assms] by simp
    then show "e \<in> set (map snd L)" by (force dest: map_of_SomeD)
  qed (use entry in force)
  have "map (eventKey \<circ> snd) L = map fst L" using entry by (intro map_cong) auto
  then have "distinct (map eventKey (map snd L))" using assms by (simp only: map_map latest_ok_def)
  then show "distinct (map order_key (map snd L))"
    by (simp add: distinct_map inj_on_def eventKey_eq)
qed

definition reopened_event :: "UsageEvent set \<Rightarrow> bool" where
  "reopened_event E \<longleftrightarrow>
     (\<exists>c t. is_latest E c \<and> t \<in> E \<and> eventKey t = eventKey c \<and> terminal t \<noteq> None \<and> terminal c = None)"

lemma check_events_closed_iff:
  assumes ok: "state_ok E st"
  shows "check_events_closed st = Inr () \<longleftrightarrow> \<not> reopened_event E"
proof -
  have L: "latest_ok E (latest st)" and T: "terminals_ok E (latestTerminalByEvent st)" using ok unfolding state_ok_def by blast+
  have entry: "t \<in> E \<and> terminal t \<noteq> None \<and> eventKey t = k" if "(k, t) \<in> set (latestTerminalByEvent st)" for k t
    using that T by (simp add: terminals_ok_def)
  have "(\<exists>k t. (k, t) \<in> set (latestTerminalByEvent st) \<and> (\<exists>c. map_of (latest st) k = Some c \<and> version c > version t \<and> terminal c = None)) \<longleftrightarrow>
      reopened_event E"
  proof
    assume "\<exists>k t. (k, t) \<in> set (latestTerminalByEvent st) \<and> (\<exists>c. map_of (latest st) k = Some c \<and> version c > version t \<and> terminal c = None)"
    then obtain k t c where kt: "(k, t) \<in> set (latestTerminalByEvent st)" "map_of (latest st) k = Some c" "terminal c = None" by blast
    then have "is_latest E c" "eventKey c = k" using L by (simp_all add: latest_ok_def)
    then show "reopened_event E" using entry [OF kt(1)] kt(3) unfolding reopened_event_def by metis
  next
    assume "reopened_event E"
    then obtain c t where ct: "is_latest E c" "t \<in> E" "eventKey t = eventKey c" "terminal t \<noteq> None" "terminal c = None"
      unfolding reopened_event_def by blast
    then obtain t' where t': "map_of (latestTerminalByEvent st) (eventKey c) = Some t'" using T unfolding terminals_ok_def by metis
    then have mem: "(eventKey c, t') \<in> set (latestTerminalByEvent st)" by (rule map_of_SomeD)
    from entry [OF mem] have "t' \<in> E" "eventKey t' = eventKey c" "t' \<noteq> c" using ct(5) by auto
    then have "version t' < version c" using ct(1) by (auto simp: is_latest_def)
    then show "\<exists>k t. (k, t) \<in> set (latestTerminalByEvent st) \<and> (\<exists>c. map_of (latest st) k = Some c \<and> version c > version t \<and> terminal c = None)"
      using mem latest_lookup [OF L ct(1)] ct(5) by blast
  qed
  moreover have "check_events_closed st = Inr () \<longleftrightarrow>
      \<not> (\<exists>k t. (k, t) \<in> set (latestTerminalByEvent st) \<and> (\<exists>c. map_of (latest st) k = Some c \<and> version c > version t \<and> terminal c = None))"
    by (auto simp: check_events_closed_def find_None_conv elem_set split: option.split dest!: find_Some_mem) 
  ultimately show ?thesis by simp
qed

definition ends_of :: "UsageEvent set \<Rightarrow> jsstr \<Rightarrow> int set" where
  "ends_of S k = (\<lambda>t. the (endedAtMs t)) ` {t \<in> S. attemptKey t = k \<and> terminal t \<noteq> None}"

lemma map_of_terminal_ends:
  assumes "\<forall>e \<in> set es. valid_event e"
  shows "map_of (fold add_terminal_end es []) k = (if ends_of (set es) k = {} then None else Some (Max (ends_of (set es) k)))"
  using assms
proof (induction es rule: rev_induct)
  case Nil
  then show ?case by (simp add: ends_of_def)
next
  case (snoc e es)
  have fin: "finite (ends_of (set es) k)" by (simp add: ends_of_def)
  show ?case
  proof (cases "terminal e \<noteq> None \<and> attemptKey e = k")
    case True
    then have "valid_event e" using snoc.prems by simp
    then obtain t where t: "endedAtMs e = Some t" "0 \<le> t" using True by (auto simp: valid_event_def split: option.splits)
    have "{x \<in> set (es @ [e]). attemptKey x = k \<and> terminal x \<noteq> None} = insert e {x \<in> set es. attemptKey x = k \<and> terminal x \<noteq> None}"
      using True by auto
    then have "ends_of (set (es @ [e])) k = insert t (ends_of (set es) k)" using t by (simp add: ends_of_def)
    then show ?thesis using snoc fin True t
      by (auto simp: add_terminal_end_def update_conv' Let_def max.commute)
  next
    case False
    then have "ends_of (set (es @ [e])) k = ends_of (set es) k" by (auto simp: ends_of_def)
    then show ?thesis using snoc False by (auto simp: add_terminal_end_def update_conv' Let_def)
  qed
qed

definition reopened_attempt :: "UsageEvent set \<Rightarrow> bool" where
  "reopened_attempt S \<longleftrightarrow>
     (\<exists>e \<in> S. ends_of S (attemptKey e) \<noteq> {} \<and> terminal e = None \<and>
       (case endedAtMs e of
          None \<Rightarrow> True
        | Some t \<Rightarrow> startedAtMs e > Max (ends_of S (attemptKey e)) \<or> t > Max (ends_of S (attemptKey e))))"

lemma check_attempts_closed_iff:
  assumes "\<forall>e \<in> set es. valid_event e"
  shows "check_attempts_closed es = Inr () \<longleftrightarrow> \<not> reopened_attempt (set es)"
proof -
  have "reopens (fold add_terminal_end es []) e \<longleftrightarrow> ends_of (set es) (attemptKey e) \<noteq> {} \<and> terminal e = None \<and>
      (case endedAtMs e of None \<Rightarrow> True
        | Some t \<Rightarrow> startedAtMs e > Max (ends_of (set es) (attemptKey e)) \<or> t > Max (ends_of (set es) (attemptKey e)))" for e
    unfolding reopens_def map_of_terminal_ends [OF assms] by simp
  moreover have "check_attempts_closed es = Inr () \<longleftrightarrow> \<not> (\<exists>e \<in> set es. reopens (fold add_terminal_end es []) e)"
    by (auto simp: check_attempts_closed_def find_None_conv split: option.split dest: find_Some_mem)
  ultimately show ?thesis by (simp add: reopened_attempt_def)
qed


section \<open>The result\<close>

text \<open>The events a stream spells out, and what it means to be the reconciliation of a set of events.\<close>

definition spelled :: "usage_value list \<Rightarrow> UsageEvent set" where
  "spelled vs = {e. \<exists>v \<in> set vs. validateEvent v = Inr e}"

definition reconciles :: "UsageEvent set \<Rightarrow> ReconciledUsageEvents \<Rightarrow> bool" where
  "reconciles E r \<longleftrightarrow>
     \<not> reopened_event E \<and> \<not> reopened_attempt {e. is_latest E e} \<and>
     set (canonical_events r) = {e. is_latest E e} \<and>
     sorted (map order_key (canonical_events r)) \<and> distinct (map order_key (canonical_events r)) \<and>
     reconcileAttemptLineage (canonical_events r) = Inr (lineage r)"

lemma reconciles_unique: "reconciles E r \<Longrightarrow> reconciles E r' \<Longrightarrow> r = r'"
proof -
  assume r: "reconciles E r" and r': "reconciles E r'"
  have eq: "canonical_events r = canonical_events r'"
    using r r' unfolding reconciles_def by (intro sorted_events_unique [of order_key]) simp_all
  moreover have "lineage r = lineage r'"
    using r r' eq unfolding reconciles_def by (metis sum.inject(2))
  ultimately show ?thesis by (cases r; cases r') simp
qed

lemma finish_iff:
  assumes ok: "state_ok E st" and valid: "\<forall>e \<in> E. valid_event e"
  shows "ebind (check_events_closed st) (\<lambda>_. ebind (check_attempts_closed (map snd (latest st))) (\<lambda>_.
       let canonicalEvents = js_sort compareEvents (map snd (latest st)) in
       ebind (reconcileAttemptLineage canonicalEvents) (\<lambda>l. Inr \<lparr>canonical_events = canonicalEvents, lineage = l\<rparr>))) = Inr r \<longleftrightarrow>
     reconciles E r"
proof -
  let ?xs = "map snd (latest st)"
  have "latest_ok E (latest st)" using ok unfolding state_ok_def by blast
  note V = latest_values [OF this]
  have "\<forall>e \<in> set ?xs. valid_event e" unfolding V using valid by (simp add: is_latest_def)
  from check_attempts_closed_iff [OF this] have att: "check_attempts_closed ?xs = Inr () \<longleftrightarrow> \<not> reopened_attempt {e. is_latest E e}"
    unfolding V .
  have "distinct ?xs" "inj_on order_key (set ?xs)" using V(2) unfolding distinct_map [of order_key] by blast+
  then have srt: "set (sort_key order_key ?xs) = {e. is_latest E e}" "sorted (map order_key (sort_key order_key ?xs))"
    "distinct (map order_key (sort_key order_key ?xs))"
    using V(1) by (simp_all add: distinct_map [of order_key])
  have "canonical_events r = sort_key order_key ?xs" if "reconciles E r"
    using that srt unfolding reconciles_def by (intro sorted_events_unique [of order_key]) simp_all
  then have "reconciles E r \<longleftrightarrow> \<not> reopened_event E \<and> \<not> reopened_attempt {e. is_latest E e} \<and>
      canonical_events r = sort_key order_key ?xs \<and> reconcileAttemptLineage (sort_key order_key ?xs) = Inr (lineage r)"
    using srt unfolding reconciles_def by metis
  moreover have "r = \<lparr>canonical_events = xs, lineage = l\<rparr> \<longleftrightarrow> canonical_events r = xs \<and> lineage r = l" for xs l
    by (cases r) auto
  ultimately show ?thesis
    unfolding ebind_Inr_iff js_sort_events Let_def
    using check_events_closed_iff [OF ok] att by (auto simp: eq_commute [of _ r])
qed

lemma spelled_list: "list_all2 (\<lambda>v e. validateEvent v = Inr e) vs es \<Longrightarrow> set es = spelled vs"
  unfolding spelled_def by (induction rule: list_all2_induct) auto

lemma spelled_valid: "\<forall>e \<in> spelled vs. valid_event e"
  using validateEvent_sound by (auto simp: spelled_def)

lemma reconcile_iff:
  "reconcileUsageEvents vs = Inr r \<longleftrightarrow>
     (\<exists>es st. list_all2 (\<lambda>v e. validateEvent v = Inr e) vs es \<and> accept_all es empty_state = Inr st) \<and> reconciles (spelled vs) r"
proof -
  have "reconcileUsageEvents vs = Inr r \<longleftrightarrow>
      (\<exists>st. reconcile_loop vs empty_state = Inr st \<and> reconciles (spelled vs) r)"
  proof -
    have "state_ok (spelled vs) st" if loop: "reconcile_loop vs empty_state = Inr st" for st
    proof -
      obtain es where es: "list_all2 (\<lambda>v e. validateEvent v = Inr e) vs es" "accept_all es empty_state = Inr st"
        using loop unfolding reconcile_loop_iff by blast
      from accept_all_ok [OF state_ok_empty es(2)] show ?thesis using spelled_list [OF es(1)] by simp
    qed
    then show ?thesis
      unfolding reconcileUsageEvents_def ebind_Inr_iff [of "reconcile_loop vs empty_state"]
      using finish_iff [OF _ spelled_valid] by blast
  qed
  then show ?thesis unfolding reconcile_loop_iff by blast
qed

text \<open>
  The reconciliation of a stream that is accepted consists of the latest revision of every event of the stream,
  and of nothing else: one event per identity, in ascending order of the identities. So a
  revision replaces its predecessors and is never counted beside them.
\<close>

theorem reconcile_canonical:
  assumes "reconcileUsageEvents vs = Inr r"
  shows "set (canonical_events r) = {e. is_latest (spelled vs) e} \<and> sorted (map order_key (canonical_events r)) \<and>
    distinct (map order_key (canonical_events r)) \<and> (\<forall>v \<in> set vs. \<exists>e. validateEvent v = Inr e \<and>
      (\<exists>e' \<in> set (canonical_events r). eventKey e' = eventKey e \<and> version e \<le> version e'))"
proof -
  obtain es st where es: "list_all2 (\<lambda>v e. validateEvent v = Inr e) vs es" "accept_all es empty_state = Inr st"
    and r: "reconciles (spelled vs) r" using assms unfolding reconcile_iff by blast
  have E: "set es = spelled vs" by (rule spelled_list [OF es(1)])
  have ok: "latest_ok (spelled vs) (latest st)"
    using accept_all_ok [OF state_ok_empty es(2)] unfolding E state_ok_def by simp
  have "\<exists>e. validateEvent v = Inr e \<and> (\<exists>e' \<in> set (canonical_events r). eventKey e' = eventKey e \<and> version e \<le> version e')"
    if "v \<in> set vs" for v
  proof -
    have "\<exists>e. validateEvent v = Inr e" using es(1) that by (induction rule: list_all2_induct) auto
    then obtain e where e: "validateEvent v = Inr e" by blast
    then have mem: "e \<in> spelled vs" using that by (auto simp: spelled_def)
    then have "map_of (latest st) (eventKey e) \<noteq> None" using ok unfolding latest_ok_def by blast
    then obtain x where "map_of (latest st) (eventKey e) = Some x" by blast
    then have x: "is_latest (spelled vs) x" "eventKey x = eventKey e" using ok by (simp_all add: latest_ok_def)
    then have "version e \<le> version x" using mem by (auto simp: is_latest_def)
    then show ?thesis using e x r by (auto simp: reconciles_def)
  qed
  then show ?thesis using r by (simp add: reconciles_def)
qed

lemma list_all2_total: "(\<exists>es. list_all2 (\<lambda>v e. f v = Inr e) ws es) \<longleftrightarrow> (\<forall>v \<in> set ws. \<exists>e. f v = Inr e)"
  by (induction ws) (auto simp: list_all2_Cons1)

text \<open>
  C8: replay. Two streams with the same members, in whatever order and with whatever repetitions, never
  reconcile to different results; and if no event has two different revisions with one version number, the one
  is accepted exactly when the other is.
\<close>

theorem reconcile_replay:
  assumes "set vs = set vs'"
  shows "(reconcileUsageEvents vs = Inr r \<and> reconcileUsageEvents vs' = Inr r' \<longrightarrow> r = r') \<and>
    (single_revisions (spelled vs) \<longrightarrow> (reconcileUsageEvents vs = Inr r) = (reconcileUsageEvents vs' = Inr r))"
proof (intro conjI impI)
  have E: "spelled vs' = spelled vs" using assms by (simp add: spelled_def)
  show "r = r'" if "reconcileUsageEvents vs = Inr r \<and> reconcileUsageEvents vs' = Inr r'"
    using that unfolding reconcile_iff E by (blast intro: reconciles_unique)
  assume single: "single_revisions (spelled vs)"
  have accepted: "(\<exists>es st. list_all2 (\<lambda>v e. validateEvent v = Inr e) ws es \<and> accept_all es empty_state = Inr st) \<longleftrightarrow>
      (\<forall>v \<in> set vs. \<exists>e. validateEvent v = Inr e) \<and> (\<forall>e \<in> spelled vs. \<forall>e' \<in> spelled vs. agrees e' e)"
    if "set ws = set vs" for ws
  proof -
    have ws: "spelled ws = spelled vs" using that by (simp add: spelled_def)
    have "(\<exists>st. accept_all es empty_state = Inr st) \<longleftrightarrow> (\<forall>e \<in> spelled vs. \<forall>e' \<in> spelled vs. agrees e' e)"
      if "list_all2 (\<lambda>v e. validateEvent v = Inr e) ws es" for es
      using accept_all_iff [OF state_ok_empty, of es] single spelled_list [OF that] ws by simp
    moreover have "(\<exists>es. list_all2 (\<lambda>v e. validateEvent v = Inr e) ws es) \<longleftrightarrow> (\<forall>v \<in> set ws. \<exists>e. validateEvent v = Inr e)"
      by (rule list_all2_total)
    ultimately have "(\<exists>es st. list_all2 (\<lambda>v e. validateEvent v = Inr e) ws es \<and> accept_all es empty_state = Inr st) \<longleftrightarrow>
      (\<forall>v \<in> set ws. \<exists>e. validateEvent v = Inr e) \<and> (\<forall>e \<in> spelled vs. \<forall>e' \<in> spelled vs. agrees e' e)" by blast
    then show ?thesis unfolding that .
  qed
  show "(reconcileUsageEvents vs = Inr r) = (reconcileUsageEvents vs' = Inr r)"
    unfolding reconcile_iff E accepted [OF refl] accepted [OF assms [symmetric]] ..
qed


section \<open>The order of arrival\<close>

abbreviation demo_stream :: "(int \<times> int) list \<Rightarrow> usage_value list" where
  "demo_stream ps \<equiv> map (\<lambda>(v, n). event_object (demo_usage v (of_int n))) ps"

definition demo_event_key :: jsstr where "demo_event_key = eventKey (demo_usage 1 0)"

definition demo_attempt_key :: jsstr where "demo_attempt_key = attemptKey (demo_usage 1 0)"

definition demo_relation :: jsstr where "demo_relation = relation_text (demo_usage 1 0)"

lemma demo_keys:
  "eventKey (demo_usage v n) = demo_event_key" "attemptKey (demo_usage v n) = demo_attempt_key"
  "relation_text (demo_usage v n) = demo_relation" "version (demo_usage v n) = v"
  "terminal (demo_usage v n) = None" "predecessorAttemptId (demo_usage v n) = None"
  by (simp_all add: demo_event_key_def demo_attempt_key_def demo_relation_def eventKey_def attemptKey_def relation_text_def demo_usage_def)

lemma demo_differ: "demo_usage v m = demo_usage w n \<longleftrightarrow> v = w \<and> m = n"
  by (auto simp: demo_usage_def demo_measurement_def)

lemma demo_validates:
  "1 \<le> v \<Longrightarrow> v \<le> 9 \<Longrightarrow> 0 \<le> n \<Longrightarrow> n \<le> 9 \<Longrightarrow>
   validateEvent (event_object (demo_usage v (of_int n))) = Inr (demo_usage v (of_int n))"
  by (rule validate_event_object [OF demo_usage_valid])

lemmas demo_simps = demo_validates demo_keys demo_differ accept_event_def note_relation_def note_terminal_def note_revision_def
  eventFingerprint_inject empty_state_def

lemma demo_accepted:
  assumes "reconcile_loop vs empty_state = Inr st" "latestTerminalByEvent st = []" "map snd (latest st) = [demo_usage 2 5]"
  shows "\<exists>r. reconcileUsageEvents vs = Inr r \<and> canonical_events r = [demo_usage 2 5]"
proof -
  have "check_events_closed st = Inr ()" by (simp add: check_events_closed_def assms(2))
  moreover have "check_attempts_closed (map snd (latest st)) = Inr ()"
    by (simp add: check_attempts_closed_def assms(3) reopens_def add_terminal_end_def demo_keys)
  moreover have "js_sort compareEvents (map snd (latest st)) = [demo_usage 2 5]" by (simp add: assms(3) js_sort_def)
  moreover have "reconcileAttemptLineage [demo_usage 2 5] = Inr [lineage_of (demo_usage 2 5) Resolved]"
    by (simp add: reconcileAttemptLineage_def first_attempts_def add_attempt_def record_path_def Let_def demo_keys(6))
  ultimately show ?thesis unfolding reconcileUsageEvents_def assms(1) by simp
qed

lemma demo_in_order: "\<exists>r. reconcileUsageEvents (demo_stream [(1, 3), (2, 5)]) = Inr r \<and> canonical_events r = [demo_usage 2 5]"
proof -
  have "\<exists>st. reconcile_loop (demo_stream [(1, 3), (2, 5)]) empty_state = Inr st \<and> latestTerminalByEvent st = [] \<and>
      map snd (latest st) = [demo_usage 2 5]"
    by (simp add: demo_simps del: of_int_numeral)
  then show ?thesis by (elim exE conjE) (rule demo_accepted)
qed

text \<open>
  Acceptance depends on the order of arrival. Two different revisions with version 1 are a conflict when they arrive one
  after the other, but when version 2 arrives between them the second is silently ignored.
\<close>

theorem conflict_detection_depends_on_order:
  "(\<exists>err. reconcileUsageEvents (demo_stream [(1, 3), (1, 4), (2, 5)]) = Inl err) \<and>
   (\<exists>r. reconcileUsageEvents (demo_stream [(1, 3), (2, 5), (1, 4)]) = Inr r \<and> canonical_events r = [demo_usage 2 5])"
proof
  show "\<exists>err. reconcileUsageEvents (demo_stream [(1, 3), (1, 4), (2, 5)]) = Inl err"
    by (simp add: reconcileUsageEvents_def demo_simps del: of_int_numeral)
  have "\<exists>st. reconcile_loop (demo_stream [(1, 3), (2, 5), (1, 4)]) empty_state = Inr st \<and> latestTerminalByEvent st = [] \<and>
      map snd (latest st) = [demo_usage 2 5]"
    by (simp add: demo_simps del: of_int_numeral)
  then show "\<exists>r. reconcileUsageEvents (demo_stream [(1, 3), (2, 5), (1, 4)]) = Inr r \<and> canonical_events r = [demo_usage 2 5]"
    by (elim exE conjE) (rule demo_accepted)
qed

theorem reconcile_canonical_witness:
  "\<exists>r. reconcileUsageEvents (demo_stream [(1, 3), (2, 5)]) = Inr r \<and>
     {e. is_latest (spelled (demo_stream [(1, 3), (2, 5)])) e} = {demo_usage 2 5}"
proof -
  obtain r where r: "reconcileUsageEvents (demo_stream [(1, 3), (2, 5)]) = Inr r" "canonical_events r = [demo_usage 2 5]"
    using demo_in_order by blast
  have "{e. is_latest (spelled (demo_stream [(1, 3), (2, 5)])) e} = set (canonical_events r)"
    using reconcile_canonical [OF r(1)] by (rule conjunct1 [THEN sym])
  then show ?thesis unfolding r(2) using r(1) by (intro exI [of _ r]) simp
qed

theorem reconcile_replay_witness:
  "\<exists>r. reconcileUsageEvents (demo_stream [(2, 5), (1, 3), (2, 5)]) = Inr r \<and> canonical_events r = [demo_usage 2 5]"
proof -
  obtain r where r: "reconcileUsageEvents (demo_stream [(1, 3), (2, 5)]) = Inr r" "canonical_events r = [demo_usage 2 5]"
    using demo_in_order by blast
  have same: "set (demo_stream [(1, 3), (2, 5)]) = set (demo_stream [(2, 5), (1, 3), (2, 5)])" by auto
  have "spelled (demo_stream [(1, 3), (2, 5)]) = {demo_usage 1 (of_int 3), demo_usage 2 (of_int 5)}"
    by (auto simp: spelled_def demo_validates simp del: of_int_numeral)
  then have "single_revisions (spelled (demo_stream [(1, 3), (2, 5)]))"
    by (auto simp: single_revisions_def demo_keys)
  then show ?thesis using reconcile_replay [OF same, of r] r by blast
qed

end
