(* ===== verification/Usage_Totals.thy ===== *)
theory Usage_Totals
  imports Usage_Ledger
begin

text \<open>
  Aggregation of usage, the remaining functions of \<open>src/app/src/usageLedger.ts\<close>: totals over the canonical events, per
  attempt, and per project, workflow and agent.

  Sums are sums of doubles (\<open>to_double\<close> rounds), checked for overflow and, for token counts, for being
  safe integers. The \<open>Map\<close> of groups under construction is an association list.

  Shown: the totals of token counts are exact, every canonical event is counted once over all and once in its own
  attempt or scope, and nothing else is counted.
\<close>

section \<open>Sums\<close>

record KnownProvenanceContribution =
  contributed :: rat
  eventCount :: nat

record MutableUsageMeasurementAggregate =
  knownTotal :: rat
  by_measured :: KnownProvenanceContribution
  by_provider_reported :: KnownProvenanceContribution
  by_estimated :: KnownProvenanceContribution
  by_unavailable :: nat

record UsageMeasurementAggregate = MutableUsageMeasurementAggregate +
  aggregate_total :: "rat option"

record 'm UsageTotals =
  total_toolTimeMs :: 'm
  total_input :: 'm
  total_cached :: 'm
  total_output :: 'm
  total_reasoning :: 'm
  total_cost :: 'm

type_synonym running_totals = "MutableUsageMeasurementAggregate UsageTotals"
type_synonym final_totals = "UsageMeasurementAggregate UsageTotals"

definition emptyMeasurementAggregate :: MutableUsageMeasurementAggregate where
  "emptyMeasurementAggregate =
     \<lparr>knownTotal = 0, by_measured = \<lparr>contributed = 0, eventCount = 0\<rparr>,
      by_provider_reported = \<lparr>contributed = 0, eventCount = 0\<rparr>, by_estimated = \<lparr>contributed = 0, eventCount = 0\<rparr>, by_unavailable = 0\<rparr>"

definition emptyTotals :: running_totals where
  "emptyTotals =
     \<lparr>total_toolTimeMs = emptyMeasurementAggregate, total_input = emptyMeasurementAggregate,
      total_cached = emptyMeasurementAggregate, total_output = emptyMeasurementAggregate,
      total_reasoning = emptyMeasurementAggregate, total_cost = emptyMeasurementAggregate\<rparr>"

definition checkedSum :: "rat \<Rightarrow> rat \<Rightarrow> string \<Rightarrow> bool \<Rightarrow> usage_error + rat" where
  "checkedSum left right label requireSafeInteger =
     (case to_double (left + right) of
        NumFin s \<Rightarrow>
          if requireSafeInteger \<and> as_safe_integer (NumFin s) = None then Inl (Overflow label) else Inr s
      | _ \<Rightarrow> Inl (Overflow label))"

fun contribution :: "UsageProvenance \<Rightarrow> MutableUsageMeasurementAggregate \<Rightarrow> KnownProvenanceContribution" where
  "contribution Measured t = by_measured t"
| "contribution Provider_reported t = by_provider_reported t"
| "contribution _ t = by_estimated t"

fun set_contribution ::
  "UsageProvenance \<Rightarrow> KnownProvenanceContribution \<Rightarrow> MutableUsageMeasurementAggregate \<Rightarrow> MutableUsageMeasurementAggregate" where
  "set_contribution Measured c t = t\<lparr>by_measured := c\<rparr>"
| "set_contribution Provider_reported c t = t\<lparr>by_provider_reported := c\<rparr>"
| "set_contribution _ c t = t\<lparr>by_estimated := c\<rparr>"

definition addMeasurement ::
  "string \<Rightarrow> bool \<Rightarrow> UsageMeasurement \<Rightarrow> MutableUsageMeasurementAggregate \<Rightarrow> usage_error + MutableUsageMeasurementAggregate" where
  "addMeasurement label requireSafeInteger m t =
     (if provenance m = Unavailable_usage then Inr (t\<lparr>by_unavailable := by_unavailable t + 1\<rparr>)
      else
        let c = contribution (provenance m) t; value = (case measured_value m of Some v \<Rightarrow> v | None \<Rightarrow> 0) in
        ebind (checkedSum (contributed c) value label requireSafeInteger) (\<lambda>s.
        ebind (checkedSum (knownTotal t) value label requireSafeInteger) (\<lambda>known.
          Inr ((set_contribution (provenance m) \<lparr>contributed = s, eventCount = eventCount c + 1\<rparr> t)\<lparr>knownTotal := known\<rparr>))))"

definition addEvent :: "UsageEvent \<Rightarrow> running_totals \<Rightarrow> usage_error + running_totals" where
  "addEvent e t =
     ebind (addMeasurement ''tool time'' False (toolTimeMs e) (total_toolTimeMs t)) (\<lambda>tool.
     ebind (addMeasurement ''input tokens'' True (input_tokens e) (total_input t)) (\<lambda>tin.
     ebind (addMeasurement ''cached tokens'' True (cached_tokens e) (total_cached t)) (\<lambda>tcached.
     ebind (addMeasurement ''output tokens'' True (output_tokens e) (total_output t)) (\<lambda>tout.
     ebind (addMeasurement ''reasoning tokens'' True (reasoning_tokens e) (total_reasoning t)) (\<lambda>treason.
     ebind (addMeasurement ''cost'' False (cost e) (total_cost t)) (\<lambda>co.
       Inr \<lparr>total_toolTimeMs = tool, total_input = tin, total_cached = tcached, total_output = tout,
            total_reasoning = treason, total_cost = co\<rparr>))))))"

definition finishMeasurement :: "MutableUsageMeasurementAggregate \<Rightarrow> UsageMeasurementAggregate" where
  "finishMeasurement t =
     \<lparr>knownTotal = knownTotal t, by_measured = by_measured t, by_provider_reported = by_provider_reported t,
      by_estimated = by_estimated t, by_unavailable = by_unavailable t,
      aggregate_total = (if by_unavailable t = 0 then Some (knownTotal t) else None)\<rparr>"

definition finishTotals :: "running_totals \<Rightarrow> final_totals" where
  "finishTotals t =
     \<lparr>total_toolTimeMs = finishMeasurement (total_toolTimeMs t), total_input = finishMeasurement (total_input t),
      total_cached = finishMeasurement (total_cached t), total_output = finishMeasurement (total_output t),
      total_reasoning = finishMeasurement (total_reasoning t), total_cost = finishMeasurement (total_cost t)\<rparr>"


section \<open>Attempts\<close>

record 't UsageAttemptAggregate =
  att_projectId :: jsstr
  att_workflowId :: jsstr
  att_agentId :: jsstr
  att_attemptId :: jsstr
  att_rootAttemptId :: jsstr
  att_predecessorAttemptId :: "jsstr option"
  att_relationship :: UsageAttemptRelationship
  att_resolution :: resolution
  att_provider :: jsstr
  att_model :: jsstr
  att_role :: jsstr
  att_events :: "UsageEvent list"
  att_startedAtMs :: int
  att_endedAtMs :: "int option"
  att_retries :: int
  att_cancelled :: bool
  att_fallback :: bool
  att_terminal :: "usage_terminal option"
  att_totals :: 't

record 't MutableAttemptAggregate = "'t UsageAttemptAggregate" +
  hasOpenEvent :: bool

record UsageAggregate =
  agg_events :: "UsageEvent list"
  agg_lineage :: "UsageAttemptLineage list"
  agg_totals :: final_totals
  agg_attempts :: "final_totals UsageAttemptAggregate list"

definition lineageKey :: "UsageAttemptLineage \<Rightarrow> jsstr" where
  "lineageKey l = attempt_key (lineage_projectId l) (lineage_workflowId l) (lineage_agentId l) (lineage_attemptId l)"

definition lineageByAttempt :: "UsageAttemptLineage list \<Rightarrow> (jsstr \<times> UsageAttemptLineage) list" where
  "lineageByAttempt ls = fold (\<lambda>l. AList.update (lineageKey l) l) ls []"

definition new_attempt :: "UsageEvent \<Rightarrow> UsageAttemptLineage \<Rightarrow> running_totals MutableAttemptAggregate" where
  "new_attempt e l =
     \<lparr>att_projectId = projectId e, att_workflowId = workflowId e, att_agentId = agentId e, att_attemptId = attemptId e,
      att_rootAttemptId = rootAttemptId e, att_predecessorAttemptId = predecessorAttemptId e, att_relationship = relationship e,
      att_resolution = lineage_resolution l, att_provider = provider e, att_model = model e, att_role = role e, att_events = [],
      att_startedAtMs = startedAtMs e, att_endedAtMs = endedAtMs e, att_retries = retries e, att_cancelled = cancelled e,
      att_fallback = fallback e, att_terminal = terminal e, att_totals = emptyTotals, hasOpenEvent = (endedAtMs e = None)\<rparr>"

definition extend_attempt :: "UsageEvent \<Rightarrow> running_totals MutableAttemptAggregate \<Rightarrow> usage_error + running_totals MutableAttemptAggregate" where
  "extend_attempt e a =
     ebind (addEvent e (att_totals a)) (\<lambda>t.
       Inr (a\<lparr>att_events := att_events a @ [e], att_startedAtMs := min (att_startedAtMs a) (startedAtMs e),
            att_endedAtMs :=
              (case endedAtMs e of
                 None \<Rightarrow> att_endedAtMs a
               | Some x \<Rightarrow> if att_endedAtMs a = None \<or> x > the (att_endedAtMs a) then Some x else att_endedAtMs a),
            att_retries := max (att_retries a) (retries e), att_cancelled := att_cancelled a \<or> cancelled e,
            att_fallback := att_fallback a \<or> fallback e,
            att_terminal := (if att_terminal a = None then terminal e else att_terminal a), att_totals := t,
            hasOpenEvent := hasOpenEvent a \<or> endedAtMs e = None\<rparr>))"

type_synonym attempt_groups = "(jsstr \<times> running_totals MutableAttemptAggregate) list"

fun aggregate_loop ::
  "(jsstr \<times> UsageAttemptLineage) list \<Rightarrow> UsageEvent list \<Rightarrow> running_totals \<times> attempt_groups \<Rightarrow> usage_error + running_totals \<times> attempt_groups" where
  "aggregate_loop L [] acc = Inr acc"
| "aggregate_loop L (e # es) (t, groups) =
     ebind (addEvent e t) (\<lambda>t'.
     ebind (case map_of groups (attemptKey e) of
              Some a \<Rightarrow> Inr a
            | None \<Rightarrow>
                (case map_of L (attemptKey e) of
                   Some l \<Rightarrow> Inr (new_attempt e l)
                 | None \<Rightarrow> Inl (Invalid ''Cannot read properties of undefined''))) (\<lambda>a.
     ebind (extend_attempt e a) (\<lambda>a'.
       aggregate_loop L es (t', AList.update (attemptKey e) a' groups))))"

definition compareAttempts :: "('t, 'm) UsageAttemptAggregate_scheme \<Rightarrow> ('t, 'm) UsageAttemptAggregate_scheme \<Rightarrow> int" where
  "compareAttempts l r =
     compare_pairs [(att_projectId l, att_projectId r), (att_workflowId l, att_workflowId r), (att_agentId l, att_agentId r),
       (att_attemptId l, att_attemptId r)]"

definition finish_attempt :: "running_totals MutableAttemptAggregate \<Rightarrow> final_totals UsageAttemptAggregate" where
  "finish_attempt a =
     \<lparr>att_projectId = att_projectId a, att_workflowId = att_workflowId a, att_agentId = att_agentId a, att_attemptId = att_attemptId a,
      att_rootAttemptId = att_rootAttemptId a, att_predecessorAttemptId = att_predecessorAttemptId a,
      att_relationship = att_relationship a, att_resolution = att_resolution a, att_provider = att_provider a,
      att_model = att_model a, att_role = att_role a, att_events = att_events a, att_startedAtMs = att_startedAtMs a,
      att_endedAtMs = (if hasOpenEvent a then None else att_endedAtMs a), att_retries = att_retries a,
      att_cancelled = att_cancelled a, att_fallback = att_fallback a, att_terminal = att_terminal a,
      att_totals = finishTotals (att_totals a)\<rparr>"

definition aggregateUsageEvents :: "usage_value list \<Rightarrow> usage_error + UsageAggregate" where
  "aggregateUsageEvents events =
     ebind (reconcileUsageEvents events) (\<lambda>reconciled.
     ebind (aggregate_loop (lineageByAttempt (lineage reconciled)) (canonical_events reconciled) (emptyTotals, [])) (\<lambda>(t, groups).
       Inr \<lparr>agg_events = canonical_events reconciled, agg_lineage = lineage reconciled, agg_totals = finishTotals t,
            agg_attempts = map finish_attempt (js_sort compareAttempts (map snd groups))\<rparr>))"


section \<open>Scopes\<close>

record 'i UsageScopeAggregate =
  scope_identity :: 'i
  scope_events :: "UsageEvent list"
  scope_lineage :: "UsageAttemptLineage list"
  scope_totals :: final_totals

record 'i MutableScopeAggregate =
  group_identity :: 'i
  group_events :: "UsageEvent list"
  group_totals :: running_totals

fun scope_loop ::
  "(UsageEvent \<Rightarrow> 'i) \<Rightarrow> (UsageEvent \<Rightarrow> jsstr) \<Rightarrow> UsageEvent list \<Rightarrow> (jsstr \<times> 'i MutableScopeAggregate) list \<Rightarrow>
   usage_error + (jsstr \<times> 'i MutableScopeAggregate) list" where
  "scope_loop identityFor keyFor [] groups = Inr groups"
| "scope_loop identityFor keyFor (e # es) groups =
     (let g = (case map_of groups (keyFor e) of
                 Some g \<Rightarrow> g
               | None \<Rightarrow> \<lparr>group_identity = identityFor e, group_events = [], group_totals = emptyTotals\<rparr>)
      in ebind (addEvent e (group_totals g)) (\<lambda>t.
         scope_loop identityFor keyFor es
           (AList.update (keyFor e) (g\<lparr>group_events := group_events g @ [e], group_totals := t\<rparr>) groups)))"

definition aggregateByScope ::
  "usage_value list \<Rightarrow> (UsageEvent \<Rightarrow> 'i) \<Rightarrow> (UsageEvent \<Rightarrow> jsstr) \<Rightarrow> usage_error + 'i UsageScopeAggregate list" where
  "aggregateByScope events identityFor keyFor =
     ebind (reconcileUsageEvents events) (\<lambda>reconciled.
     ebind (scope_loop identityFor keyFor (canonical_events reconciled) []) (\<lambda>groups.
       Inr (map (\<lambda>g.
         \<lparr>scope_identity = group_identity g, scope_events = group_events g,
          scope_lineage = filter (\<lambda>l. lineageKey l \<in> attemptKey ` set (group_events g)) (lineage reconciled),
          scope_totals = finishTotals (group_totals g)\<rparr>) (map snd groups))))"

definition aggregateUsageByProject :: "usage_value list \<Rightarrow> usage_error + jsstr UsageScopeAggregate list" where
  "aggregateUsageByProject events =
     aggregateByScope events projectId (\<lambda>e. json_key (TArr [TStr (projectId e)]))"

definition aggregateUsageByWorkflow :: "usage_value list \<Rightarrow> usage_error + (jsstr \<times> jsstr) UsageScopeAggregate list" where
  "aggregateUsageByWorkflow events =
     aggregateByScope events (\<lambda>e. (projectId e, workflowId e)) (\<lambda>e. json_key (TArr [TStr (projectId e), TStr (workflowId e)]))"

definition aggregateUsageByAgent :: "usage_value list \<Rightarrow> usage_error + (jsstr \<times> jsstr \<times> jsstr) UsageScopeAggregate list" where
  "aggregateUsageByAgent events =
     aggregateByScope events (\<lambda>e. (projectId e, workflowId e, agentId e))
       (\<lambda>e. json_key (TArr [TStr (projectId e), TStr (workflowId e), TStr (agentId e)]))"


section \<open>Token counts are exact\<close>

lemma bitlen_54: "9007199254740992 \<le> n \<Longrightarrow> n < 18014398509481984 \<Longrightarrow> bitlen n = 54" for n :: int
  using bitlen_le_iff_power [of n 54] bitlen_ge_iff_power [of 54 n] by simp

lemma as_safe_num_int_None: "as_safe_integer (num_int k) = None \<longleftrightarrow> \<not> safe_int k"
  by (simp add: as_safe_integer_def)

text \<open>Beyond the safe integers, up to twice their range, a sum is rounded to an even number and stays unsafe.\<close>

lemma to_double_unsafe:
  assumes "MAX_SAFE_INTEGER < n" "n \<le> 2 * MAX_SAFE_INTEGER"
  shows "as_safe_integer (to_double (of_int n)) = None"
proof -
  have n: "9007199254740992 \<le> n" "n < 18014398509481984" using assms by (simp_all add: MAX_SAFE_INTEGER_def)
  have q: "quotient_of \<bar>of_int n\<bar> = (n, 1)" using quotient_of_int [of n] n by (simp add: Rat.of_int_def)
  have one: "bitlen 1 = 1" by (simp add: bitlen_def floorlog_def)
  have pow: "pow2 53 \<le> \<bar>of_int n\<bar>" using n by (simp add: pow2_def)
  have "exponent2 \<bar>of_int n\<bar> = 53" unfolding exponent2_def q Let_def prod.case one bitlen_54 [OF n] using pow by simp
  then have e: "max (- 1074) (exponent2 \<bar>of_int n\<bar> - 52) = 1" by simp
  define m where "m = round_half_even (of_int n / pow2 1)"
  have two: "pow2 1 = 2" by (simp add: pow2_def)
  have fl: "\<lfloor>of_int n / (2 :: rat)\<rfloor> = n div 2" by (metis floor_divide_of_int_eq of_int_numeral)
  have "n div 2 \<le> m" "m \<le> n div 2 + 1" unfolding m_def round_half_even_def two fl Let_def by auto
  then have m: "4503599627370496 \<le> m" "m \<le> 9007199254740992" using n by linarith+
  have td: "to_double (of_int n) = num_int (2 * m)"
  proof -
    have "\<bar>2 * rat_of_int m\<bar> \<le> 2 ^ 54" using m by simp
    also have "\<dots> < 2 ^ 1024" by (rule power_strict_increasing) simp_all
    finally have "\<not> 2 ^ 1024 \<le> \<bar>2 * rat_of_int m\<bar>" by simp
    moreover have "rat_of_int n \<noteq> 0" using n by simp
    ultimately show ?thesis
      by (simp only: to_double_def Let_def e m_def [symmetric] if_False) (simp only: two if_False of_int_mult of_int_numeral)
  qed
  have "\<not> safe_int (2 * m)" using m by (simp add: safe_int_def MAX_SAFE_INTEGER_def)
  then show ?thesis unfolding td as_safe_num_int_None .
qed

definition safe_count :: "rat \<Rightarrow> bool" where
  "safe_count x \<longleftrightarrow> (\<exists>i. x = of_int i \<and> 0 \<le> i \<and> i \<le> MAX_SAFE_INTEGER)"

lemma checkedSum_exact:
  assumes "safe_count x" "safe_count y" "checkedSum x y label True = Inr s"
  shows "s = x + y \<and> safe_count s"
proof -
  obtain i j where i: "x = of_int i" "0 \<le> i" "i \<le> MAX_SAFE_INTEGER" and j: "y = of_int j" "0 \<le> j" "j \<le> MAX_SAFE_INTEGER"
    using assms(1,2) by (auto simp: safe_count_def)
  have "i + j \<le> MAX_SAFE_INTEGER"
  proof (rule ccontr)
    assume "\<not> i + j \<le> MAX_SAFE_INTEGER"
    then have "as_safe_integer (to_double (of_int (i + j))) = None" using i j by (intro to_double_unsafe) simp_all
    then show False using assms(3) i j by (auto simp: checkedSum_def split: jsnum.splits)
  qed
  then have "safe_int (i + j)" using i j by (simp add: safe_int_def MAX_SAFE_INTEGER_def)
  from to_double_safe [OF this] have "to_double (x + y) = num_int (i + j)" using i j by simp
  moreover have "as_safe_integer (num_int (i + j)) = Some (i + j)" using \<open>safe_int (i + j)\<close> by (intro as_safe_integer_eq_Some [THEN iffD2]) simp
  ultimately have "s = of_int (i + j)" using assms(3) by (simp add: checkedSum_def)
  moreover have "safe_count (of_int (i + j))"
    unfolding safe_count_def using i j \<open>i + j \<le> MAX_SAFE_INTEGER\<close> by (intro exI [of _ "i + j"]) simp
  ultimately show ?thesis using i j by simp
qed

definition count_of :: "UsageMeasurement \<Rightarrow> rat" where
  "count_of m = (case measured_value m of Some v \<Rightarrow> v | None \<Rightarrow> 0)"

text \<open>An aggregate that tells the truth about a list of measurements.\<close>

definition tallies :: "UsageMeasurement list \<Rightarrow> ('a) MutableUsageMeasurementAggregate_scheme \<Rightarrow> bool" where
  "tallies ms t \<longleftrightarrow>
     knownTotal t = sum_list (map count_of ms) \<and>
     by_unavailable t = length (filter (\<lambda>m. provenance m = Unavailable_usage) ms) \<and>
     by_measured t = \<lparr>contributed = sum_list (map count_of (filter (\<lambda>m. provenance m = Measured) ms)),
       eventCount = length (filter (\<lambda>m. provenance m = Measured) ms)\<rparr> \<and>
     by_provider_reported t = \<lparr>contributed = sum_list (map count_of (filter (\<lambda>m. provenance m = Provider_reported) ms)),
       eventCount = length (filter (\<lambda>m. provenance m = Provider_reported) ms)\<rparr> \<and>
     by_estimated t = \<lparr>contributed = sum_list (map count_of (filter (\<lambda>m. provenance m = Estimated) ms)),
       eventCount = length (filter (\<lambda>m. provenance m = Estimated) ms)\<rparr>"

definition safe_aggregate :: "MutableUsageMeasurementAggregate \<Rightarrow> bool" where
  "safe_aggregate t \<longleftrightarrow>
     safe_count (knownTotal t) \<and> safe_count (contributed (by_measured t)) \<and>
     safe_count (contributed (by_provider_reported t)) \<and> safe_count (contributed (by_estimated t))"

lemma safe_aggregate_contribution: "safe_aggregate t \<Longrightarrow> safe_count (contributed (contribution p t))"
  by (cases p) (simp_all add: safe_aggregate_def)

lemma safe_count_of: "valid_measurement True m \<Longrightarrow> safe_count (count_of m)"
  by (auto simp: valid_measurement_def count_of_def safe_count_def MAX_SAFE_INTEGER_def split: option.splits)

lemma addMeasurement_tallies:
  assumes t: "tallies ms t" "safe_aggregate t" and m: "valid_measurement True m"
    and add: "addMeasurement label True m t = Inr t'"
  shows "tallies (ms @ [m]) t' \<and> safe_aggregate t'"
proof (cases "provenance m = Unavailable_usage")
  case True
  then have "count_of m = 0" using m by (auto simp: valid_measurement_def count_of_def split: option.splits)
  then show ?thesis using True t add by (auto simp: addMeasurement_def tallies_def safe_aggregate_def)
next
  case False
  let ?p = "provenance m"
  let ?c = "contribution ?p t"
  obtain s k where s: "checkedSum (contributed ?c) (count_of m) label True = Inr s"
    and k: "checkedSum (knownTotal t) (count_of m) label True = Inr k"
    and t': "t' = (set_contribution ?p \<lparr>contributed = s, eventCount = eventCount ?c + 1\<rparr> t)\<lparr>knownTotal := k\<rparr>"
    using add False by (auto simp: addMeasurement_def Let_def ebind_Inr_iff count_of_def)
  have "safe_count (knownTotal t)" using t(2) by (simp add: safe_aggregate_def)
  from checkedSum_exact [OF this safe_count_of [OF m] k]
  have k': "k = knownTotal t + count_of m" "safe_count k" by blast+
  from checkedSum_exact [OF safe_aggregate_contribution [OF t(2)] safe_count_of [OF m] s]
  have s': "s = contributed ?c + count_of m" "safe_count s" by blast+
  show ?thesis
    using False t k' s' by (cases ?p) (simp_all add: t' tallies_def safe_aggregate_def)
qed

fun sum_measurements ::
  "string \<Rightarrow> bool \<Rightarrow> UsageMeasurement list \<Rightarrow> MutableUsageMeasurementAggregate \<Rightarrow> usage_error + MutableUsageMeasurementAggregate" where
  "sum_measurements label safe [] t = Inr t"
| "sum_measurements label safe (m # ms) t = ebind (addMeasurement label safe m t) (sum_measurements label safe ms)"

fun add_events :: "UsageEvent list \<Rightarrow> running_totals \<Rightarrow> usage_error + running_totals" where
  "add_events [] t = Inr t"
| "add_events (e # es) t = ebind (addEvent e t) (add_events es)"

lemma add_events_append: "add_events (es @ es') t = ebind (add_events es t) (add_events es')"
proof (induction es arbitrary: t)
  case (Cons e es)
  then show ?case by (cases "addEvent e t") simp_all
qed simp

lemma sum_measurements_tallies:
  "tallies ms t \<Longrightarrow> safe_aggregate t \<Longrightarrow> list_all (valid_measurement True) ms' \<Longrightarrow> sum_measurements label True ms' t = Inr t' \<Longrightarrow>
   tallies (ms @ ms') t'"
proof (induction ms' arbitrary: ms t)
  case (Cons m ms')
  then obtain u where u: "addMeasurement label True m t = Inr u" "sum_measurements label True ms' u = Inr t'"
    by (auto simp: ebind_Inr_iff)
  have "tallies (ms @ [m]) u \<and> safe_aggregate u"
    using Cons.prems(3) by (intro addMeasurement_tallies [OF Cons.prems(1,2) _ u(1)]) simp
  then show ?case using Cons.IH [of "ms @ [m]" u] Cons.prems(3) u(2) by simp
qed simp

lemma add_events_project:
  "add_events es t = Inr t' \<Longrightarrow>
     sum_measurements ''tool time'' False (map toolTimeMs es) (total_toolTimeMs t) = Inr (total_toolTimeMs t') \<and>
     sum_measurements ''input tokens'' True (map input_tokens es) (total_input t) = Inr (total_input t') \<and>
     sum_measurements ''cached tokens'' True (map cached_tokens es) (total_cached t) = Inr (total_cached t') \<and>
     sum_measurements ''output tokens'' True (map output_tokens es) (total_output t) = Inr (total_output t') \<and>
     sum_measurements ''reasoning tokens'' True (map reasoning_tokens es) (total_reasoning t) = Inr (total_reasoning t') \<and>
     sum_measurements ''cost'' False (map cost es) (total_cost t) = Inr (total_cost t')"
proof (induction es arbitrary: t)
  case (Cons e es)
  then obtain u where u: "addEvent e t = Inr u" "add_events es u = Inr t'" by (auto simp: ebind_Inr_iff)
  have "addMeasurement ''tool time'' False (toolTimeMs e) (total_toolTimeMs t) = Inr (total_toolTimeMs u)"
    "addMeasurement ''input tokens'' True (input_tokens e) (total_input t) = Inr (total_input u)"
    "addMeasurement ''cached tokens'' True (cached_tokens e) (total_cached t) = Inr (total_cached u)"
    "addMeasurement ''output tokens'' True (output_tokens e) (total_output t) = Inr (total_output u)"
    "addMeasurement ''reasoning tokens'' True (reasoning_tokens e) (total_reasoning t) = Inr (total_reasoning u)"
    "addMeasurement ''cost'' False (cost e) (total_cost t) = Inr (total_cost u)"
    using u(1) by (auto simp: addEvent_def ebind_Inr_iff)
  then show ?case using Cons.IH [OF u(2)] by simp
qed simp

text \<open>Final totals that are the sums over a list of events, and exact in their token counts.\<close>

definition totals_of :: "UsageEvent list \<Rightarrow> final_totals \<Rightarrow> bool" where
  "totals_of es t \<longleftrightarrow> (\<exists>t'. add_events es emptyTotals = Inr t' \<and> t = finishTotals t')"

definition exact_count :: "UsageMeasurement list \<Rightarrow> UsageMeasurementAggregate \<Rightarrow> bool" where
  "exact_count ms a \<longleftrightarrow>
     tallies ms a \<and>
     aggregate_total a = (if \<exists>m \<in> set ms. measured_value m = None then None else Some (sum_list (map count_of ms)))"

definition exact_tokens :: "UsageEvent list \<Rightarrow> final_totals \<Rightarrow> bool" where
  "exact_tokens es t \<longleftrightarrow>
     exact_count (map input_tokens es) (total_input t) \<and> exact_count (map cached_tokens es) (total_cached t) \<and>
     exact_count (map output_tokens es) (total_output t) \<and> exact_count (map reasoning_tokens es) (total_reasoning t)"

lemma tallies_empty: "tallies [] emptyMeasurementAggregate \<and> safe_aggregate emptyMeasurementAggregate"
  by (simp add: tallies_def safe_aggregate_def safe_count_def emptyMeasurementAggregate_def MAX_SAFE_INTEGER_def
      exI [of "\<lambda>i. (0 :: rat) = of_int i \<and> 0 \<le> i \<and> i \<le> 9007199254740991" 0])

lemma sum_measurements_exact:
  assumes "list_all (valid_measurement True) ms" "sum_measurements label True ms emptyMeasurementAggregate = Inr t"
  shows "exact_count ms (finishMeasurement t)"
proof -
  have t: "tallies ms t" using sum_measurements_tallies [OF conjunct1 [OF tallies_empty] conjunct2 [OF tallies_empty] assms] by simp
  have "measured_value m = None \<longleftrightarrow> provenance m = Unavailable_usage" if "m \<in> set ms" for m
    using that assms(1) by (auto simp: list_all_iff valid_measurement_def split: option.splits)
  then have "by_unavailable t = 0 \<longleftrightarrow> \<not> (\<exists>m \<in> set ms. measured_value m = None)"
    using t by (auto simp: tallies_def filter_empty_conv)
  then show ?thesis using t by (simp add: exact_count_def tallies_def finishMeasurement_def)
qed

lemma totals_exact:
  assumes "totals_of es t" "list_all valid_event es"
  shows "exact_tokens es t"
proof -
  obtain t' where t': "add_events es emptyTotals = Inr t'" "t = finishTotals t'" using assms(1) by (auto simp: totals_of_def)
  have valid: "list_all (valid_measurement True) (map input_tokens es)" "list_all (valid_measurement True) (map cached_tokens es)"
    "list_all (valid_measurement True) (map output_tokens es)" "list_all (valid_measurement True) (map reasoning_tokens es)"
    using assms(2) by (simp_all add: list_all_iff valid_event_def)
  note P = add_events_project [OF t'(1)]
  show ?thesis unfolding exact_tokens_def t'(2)
    using P valid [THEN sum_measurements_exact] by (simp add: emptyTotals_def finishTotals_def) blast
qed


section \<open>Every event in its own group\<close>

definition groups_ok :: "UsageEvent list \<Rightarrow> (UsageEvent \<Rightarrow> jsstr) \<Rightarrow> ('g \<Rightarrow> UsageEvent list) \<Rightarrow> ('g \<Rightarrow> running_totals) \<Rightarrow> (jsstr \<times> 'g) list \<Rightarrow> bool" where
  "groups_ok es key evs tot groups \<longleftrightarrow>
     distinct (map fst groups) \<and>
     (\<forall>k. map_of groups k = None \<longrightarrow> (\<forall>e \<in> set es. key e \<noteq> k)) \<and>
     (\<forall>k g. map_of groups k = Some g \<longrightarrow>
        evs g = filter (\<lambda>e. key e = k) es \<and> evs g \<noteq> [] \<and> add_events (evs g) emptyTotals = Inr (tot g))"

lemma groups_ok_Nil: "groups_ok [] key evs tot []"
  by (simp add: groups_ok_def)

lemma groups_okD:
  assumes "groups_ok es key evs tot groups"
  shows "distinct (map fst groups)" "map_of groups k = None \<Longrightarrow> filter (\<lambda>e. key e = k) es = []"
    "map_of groups k = Some g \<Longrightarrow> evs g = filter (\<lambda>e. key e = k) es \<and> evs g \<noteq> [] \<and> add_events (evs g) emptyTotals = Inr (tot g)"
proof -
  show "filter (\<lambda>e. key e = k) es = []" if "map_of groups k = None"
    using assms that unfolding groups_ok_def filter_empty_conv by blast
qed (use assms in \<open>unfold groups_ok_def, blast+\<close>)

lemma groups_ok_snoc:
  assumes ok: "groups_ok es key evs tot groups"
    and old: "case map_of groups (key e) of None \<Rightarrow> evs g = [] \<and> tot g = emptyTotals | Some h \<Rightarrow> evs g = evs h \<and> tot g = tot h"
    and add: "addEvent e (tot g) = Inr t" and new: "evs g' = evs g @ [e]" "tot g' = t"
  shows "groups_ok (es @ [e]) key evs tot (AList.update (key e) g' groups)"
proof -
  have dist: "distinct (map fst groups)"
    and none: "\<And>k. map_of groups k = None \<Longrightarrow> filter (\<lambda>e. key e = k) es = []"
    and some: "\<And>k h. map_of groups k = Some h \<Longrightarrow>
      evs h = filter (\<lambda>e. key e = k) es \<and> evs h \<noteq> [] \<and> add_events (evs h) emptyTotals = Inr (tot h)"
    using groups_okD [OF ok] by blast+
  have g: "evs g = filter (\<lambda>x. key x = key e) es" and tg: "add_events (evs g) emptyTotals = Inr (tot g)"
    using old none [of "key e"] some [of "key e"] by (cases "map_of groups (key e)"; auto)+
  have "add_events (evs g') emptyTotals = Inr (tot g')"
    unfolding new add_events_append tg using add by simp
  then have g': "evs g' = filter (\<lambda>x. key x = key e) (es @ [e]) \<and> evs g' \<noteq> [] \<and> add_events (evs g') emptyTotals = Inr (tot g')"
    using new(1) g by simp
  show ?thesis unfolding groups_ok_def
  proof (intro conjI allI impI)
    show "distinct (map fst (AList.update (key e) g' groups))" by (rule distinct_update [OF dist])
  next
    fix k assume "map_of (AList.update (key e) g' groups) k = None"
    then have "key e \<noteq> k" "map_of groups k = None" by (auto simp: update_conv' split: if_splits)
    then show "\<forall>x \<in> set (es @ [e]). key x \<noteq> k" using none [of k] by (auto simp: filter_empty_conv)
  next
    fix k h assume h: "map_of (AList.update (key e) g' groups) k = Some h"
    have "evs h = filter (\<lambda>x. key x = k) (es @ [e]) \<and> evs h \<noteq> [] \<and> add_events (evs h) emptyTotals = Inr (tot h)"
    proof (cases "k = key e")
      case True
      then have "h = g'" using h by (simp add: update_conv')
      then show ?thesis using g' True by blast
    next
      case False
      then have "map_of groups k = Some h" using h by (simp add: update_conv')
      from some [OF this] False show ?thesis by auto
    qed
    then show "evs h = filter (\<lambda>x. key x = k) (es @ [e])" "evs h \<noteq> []" "add_events (evs h) emptyTotals = Inr (tot h)" by blast+
  qed
qed

lemma scope_loop_groups:
  "scope_loop identityFor key es groups = Inr groups' \<Longrightarrow> groups_ok done key group_events group_totals groups \<Longrightarrow>
   (\<forall>k g. map_of groups k = Some g \<longrightarrow> (\<exists>e \<in> set done. key e = k \<and> group_identity g = identityFor e)) \<Longrightarrow>
   groups_ok (done @ es) key group_events group_totals groups' \<and>
   (\<forall>k g. map_of groups' k = Some g \<longrightarrow> (\<exists>e \<in> set (done @ es). key e = k \<and> group_identity g = identityFor e))"
proof (induction es arbitrary: groups "done")
  case (Cons e es)
  let ?g = "case map_of groups (key e) of Some g \<Rightarrow> g
    | None \<Rightarrow> \<lparr>group_identity = identityFor e, group_events = [], group_totals = emptyTotals\<rparr>"
  obtain t where t: "addEvent e (group_totals ?g) = Inr t"
    and rest: "scope_loop identityFor key es (AList.update (key e) (?g\<lparr>group_events := group_events ?g @ [e], group_totals := t\<rparr>) groups) = Inr groups'"
    using Cons.prems(1) by (auto simp: Let_def ebind_Inr_iff)
  have A: "groups_ok (done @ [e]) key group_events group_totals
      (AList.update (key e) (?g\<lparr>group_events := group_events ?g @ [e], group_totals := t\<rparr>) groups)"
    using Cons.prems(2) t by (intro groups_ok_snoc [where g = ?g and t = t]) (simp_all split: option.split)
  have B: "\<forall>k g. map_of (AList.update (key e) (?g\<lparr>group_events := group_events ?g @ [e], group_totals := t\<rparr>) groups) k = Some g \<longrightarrow>
      (\<exists>x \<in> set (done @ [e]). key x = k \<and> group_identity g = identityFor x)"
    using Cons.prems(3) by (auto simp: update_conv' split: option.splits if_splits)
  show ?case using Cons.IH [OF rest A B] by simp
qed simp

lemma extend_attempt_Inr:
  "extend_attempt e a = Inr a' \<Longrightarrow> addEvent e (att_totals a) = Inr (att_totals a') \<and> att_events a' = att_events a @ [e] \<and>
    (att_projectId a', att_workflowId a', att_agentId a', att_attemptId a') =
    (att_projectId a, att_workflowId a, att_agentId a, att_attemptId a)"
  by (auto simp: extend_attempt_def ebind_Inr_iff)

definition attempt_identity_of :: "('t, 'm) UsageAttemptAggregate_scheme \<Rightarrow> attempt_identity" where
  "attempt_identity_of a = (att_projectId a, att_workflowId a, att_agentId a, att_attemptId a)"

lemma aggregate_loop_groups:
  "aggregate_loop L es (t, groups) = Inr (t', groups') \<Longrightarrow> groups_ok done attemptKey att_events att_totals groups \<Longrightarrow>
   (\<forall>k g. map_of groups k = Some g \<longrightarrow> (\<exists>e \<in> set done. attemptKey e = k \<and> attempt_identity_of g = attempt_of e)) \<Longrightarrow>
   add_events es t = Inr t' \<and> groups_ok (done @ es) attemptKey att_events att_totals groups' \<and>
   (\<forall>k g. map_of groups' k = Some g \<longrightarrow> (\<exists>e \<in> set (done @ es). attemptKey e = k \<and> attempt_identity_of g = attempt_of e))"
proof (induction es arbitrary: t groups "done")
  case (Cons e es)
  obtain t1 a a' where t1: "addEvent e t = Inr t1" and a': "extend_attempt e a = Inr a'"
    and rest: "aggregate_loop L es (t1, AList.update (attemptKey e) a' groups) = Inr (t', groups')"
    and a: "(case map_of groups (attemptKey e) of Some a \<Rightarrow> Inr a
            | None \<Rightarrow>
                (case map_of L (attemptKey e) of
                   Some l \<Rightarrow> Inr (new_attempt e l)
                 | None \<Rightarrow> Inl (Invalid ''Cannot read properties of undefined''))) = Inr a"
    using Cons.prems(1) by (auto simp: ebind_Inr_iff)
  note X = extend_attempt_Inr [OF a']
  have origin: "case map_of groups (attemptKey e) of None \<Rightarrow> att_events a = [] \<and> att_totals a = emptyTotals \<and> attempt_identity_of a = attempt_of e
      | Some h \<Rightarrow> a = h"
    using a by (auto simp: new_attempt_def attempt_identity_of_def attempt_of_def split: option.splits)
  have A: "groups_ok (done @ [e]) attemptKey att_events att_totals (AList.update (attemptKey e) a' groups)"
    using Cons.prems(2) X origin
    by (intro groups_ok_snoc [where g = a and t = "att_totals a'"]) (auto split: option.splits)
  have "attempt_identity_of a' = attempt_identity_of a" using X by (simp add: attempt_identity_of_def)
  then have B: "\<forall>k g. map_of (AList.update (attemptKey e) a' groups) k = Some g \<longrightarrow>
      (\<exists>x \<in> set (done @ [e]). attemptKey x = k \<and> attempt_identity_of g = attempt_of x)"
    using Cons.prems(3) origin by (auto simp: update_conv' split: option.splits if_splits)
  show ?case using Cons.IH [OF rest A B] t1 by simp
qed simp


section \<open>What the aggregates say\<close>

lemma canonical_valid: "reconcileUsageEvents vs = Inr r \<Longrightarrow> list_all valid_event (canonical_events r)"
  using spelled_valid [of vs] by (auto simp: reconcile_iff reconciles_def is_latest_def list_all_iff)

lemma groups_values:
  assumes "groups_ok es key evs tot groups" "g \<in> set (map snd groups)"
  shows "\<exists>k. map_of groups k = Some g"
  using assms by (auto simp: groups_ok_def)


lemma attempt_group:
  assumes ok: "groups_ok es attemptKey att_events att_totals groups" and g: "map_of groups k = Some g"
    and e: "attemptKey e = k" "attempt_identity_of g = attempt_of e"
  shows "att_events g = filter (\<lambda>x. attempt_of x = attempt_identity_of g) es" "att_events g \<noteq> []"
    "totals_of (att_events g) (finishTotals (att_totals g))"
proof -
  have G: "att_events g = filter (\<lambda>x. attemptKey x = k) es" "att_events g \<noteq> []" "add_events (att_events g) emptyTotals = Inr (att_totals g)"
    using groups_okD(3) [OF ok g] by blast+
  have "attemptKey x = k \<longleftrightarrow> attempt_of x = attempt_identity_of g" for x unfolding e(2) e(1) [symmetric] by (rule attemptKey_eq)
  then show "att_events g = filter (\<lambda>x. attempt_of x = attempt_identity_of g) es" using G(1) by simp
  show "att_events g \<noteq> []" by (rule G(2))
  show "totals_of (att_events g) (finishTotals (att_totals g))" unfolding totals_of_def using G(3) by blast
qed

definition named_groups :: "UsageEvent list \<Rightarrow> attempt_groups \<Rightarrow> bool" where
  "named_groups es groups \<longleftrightarrow>
     distinct (map fst groups) \<and> (\<forall>e \<in> set es. attemptKey e \<in> fst ` set groups) \<and>
     (\<forall>(k, g) \<in> set groups. \<exists>e \<in> set es. attemptKey e = k \<and> attempt_identity_of g = attempt_of e)"

lemma named_group_inj:
  assumes "named_groups es groups"
  shows "inj_on (\<lambda>p. attempt_identity_of (snd p)) (set groups)"
proof (rule inj_onI)
  fix p q assume p: "p \<in> set groups" and q: "q \<in> set groups" and same: "attempt_identity_of (snd p) = attempt_identity_of (snd q)"
  obtain e where e: "attemptKey e = fst p" "attempt_identity_of (snd p) = attempt_of e"
    using assms p by (fastforce simp: named_groups_def)
  obtain e' where e': "attemptKey e' = fst q" "attempt_identity_of (snd q) = attempt_of e'"
    using assms q by (fastforce simp: named_groups_def)
  have "fst p = fst q" using e e' same attemptKey_eq [of e e'] by simp
  then show "p = q" using assms p q distinct_key_eq [of fst groups p q] by (simp add: named_groups_def)
qed

lemma named_group_idents:
  assumes "named_groups es groups"
  shows "(\<lambda>p. attempt_identity_of (snd p)) ` set groups = attempt_of ` set es"
proof (intro equalityI subsetI)
  fix i assume "i \<in> attempt_of ` set es"
  then obtain e where e: "e \<in> set es" "i = attempt_of e" by blast
  then obtain p where p: "p \<in> set groups" "fst p = attemptKey e" using assms by (auto simp: named_groups_def)
  then obtain e' where e': "attemptKey e' = fst p" "attempt_identity_of (snd p) = attempt_of e'"
    using assms by (fastforce simp: named_groups_def)
  have "attempt_identity_of (snd p) = i" using e(2) e' p(2) attemptKey_eq [of e' e] by simp
  then show "i \<in> (\<lambda>p. attempt_identity_of (snd p)) ` set groups" using p(1) by blast
qed (use assms in \<open>fastforce simp: named_groups_def\<close>)

text \<open>
  The attempts of an aggregate divide the canonical events among them. Each attempt appears once and holds exactly
  its own events, in order; its totals are the sums over them, with exact token counts; and every
  canonical event is in the attempt it names.
\<close>

theorem attempts_partition_events:
  assumes "aggregateUsageEvents vs = Inr a"
  shows "list_all (\<lambda>x. att_events x = filter (\<lambda>e. attempt_of e = attempt_identity_of x) (agg_events a) \<and> att_events x \<noteq> [] \<and>
      totals_of (att_events x) (att_totals x) \<and> exact_tokens (att_events x) (att_totals x)) (agg_attempts a) \<and>
    attempt_identity_of ` set (agg_attempts a) = attempt_of ` set (agg_events a) \<and>
    length (agg_attempts a) = card (attempt_of ` set (agg_events a))"
proof -
  obtain r t groups where r: "reconcileUsageEvents vs = Inr r"
    and loop: "aggregate_loop (lineageByAttempt (lineage r)) (canonical_events r) (emptyTotals, []) = Inr (t, groups)"
    and a: "a = \<lparr>agg_events = canonical_events r, agg_lineage = lineage r, agg_totals = finishTotals t,
      agg_attempts = map finish_attempt (js_sort compareAttempts (map snd groups))\<rparr>"
    using assms by (auto simp: aggregateUsageEvents_def ebind_Inr_iff)
  let ?es = "canonical_events r"
  from aggregate_loop_groups [OF loop groups_ok_Nil]
  have ok: "groups_ok ?es attemptKey att_events att_totals groups"
    and named: "\<forall>k g. map_of groups k = Some g \<longrightarrow> (\<exists>e \<in> set ?es. attemptKey e = k \<and> attempt_identity_of g = attempt_of e)"
    by simp_all
  have lookup: "map_of groups (fst p) = Some (snd p)" if "p \<in> set groups" for p using that groups_okD(1) [OF ok] by simp
  have "attemptKey e \<in> fst ` set groups" if "e \<in> set ?es" for e
    using groups_okD(2) [OF ok, of "attemptKey e"] that by (auto simp: filter_empty_conv map_of_eq_None_iff)
  then have ng: "named_groups ?es groups"
    unfolding named_groups_def using groups_okD(1) [OF ok] lookup named by fastforce
  have attempts: "set (agg_attempts a) = finish_attempt ` snd ` set groups" "length (agg_attempts a) = length groups"
    by (simp_all add: a js_sort_permutes)
  have fin: "attempt_identity_of (finish_attempt g) = attempt_identity_of g" "att_events (finish_attempt g) = att_events g"
    "att_totals (finish_attempt g) = finishTotals (att_totals g)" for g
    by (simp_all add: finish_attempt_def attempt_identity_of_def)
  have each: "att_events x = filter (\<lambda>e. attempt_of e = attempt_identity_of x) ?es \<and> att_events x \<noteq> [] \<and>
      totals_of (att_events x) (att_totals x) \<and> exact_tokens (att_events x) (att_totals x)" if "x \<in> set (agg_attempts a)" for x
  proof -
    obtain p where p: "p \<in> set groups" "x = finish_attempt (snd p)" using \<open>x \<in> set (agg_attempts a)\<close> unfolding attempts(1) by blast
    obtain e where e: "attemptKey e = fst p" "attempt_identity_of (snd p) = attempt_of e" using named lookup [OF p(1)] by blast
    note G = attempt_group [OF ok lookup [OF p(1)] e]
    have "list_all valid_event (att_events (snd p))"
      using canonical_valid [OF r] unfolding G(1) by (simp add: list_all_iff)
    from totals_exact [OF G(3) this] G show ?thesis unfolding p(2) fin by blast
  qed
  have "attempt_identity_of ` set (agg_attempts a) = (\<lambda>p. attempt_identity_of (snd p)) ` set groups"
    unfolding attempts(1) by (simp add: image_image fin)
  also have "\<dots> = attempt_of ` set ?es" by (rule named_group_idents [OF ng])
  finally have idents: "attempt_identity_of ` set (agg_attempts a) = attempt_of ` set ?es" .
  have "length groups = card (set groups)" using groups_okD(1) [OF ok] by (simp add: distinct_card distinct_map)
  also have "\<dots> = card (attempt_of ` set ?es)"
    unfolding named_group_idents [OF ng, symmetric] by (rule card_image [OF named_group_inj [OF ng], symmetric])
  finally have len: "length (agg_attempts a) = card (attempt_of ` set ?es)" using attempts(2) by simp
  have events: "agg_events a = ?es" by (simp add: a)
  show ?thesis unfolding list_all_iff events using each idents len by blast
qed


section \<open>Scopes\<close>

text \<open>The contract of a scope: its key stands for its identity.\<close>

definition divides :: "usage_value list \<Rightarrow> (UsageEvent \<Rightarrow> 'i) \<Rightarrow> 'i UsageScopeAggregate list \<Rightarrow> bool" where
  "divides vs identityFor scopes \<longleftrightarrow>
     (\<exists>r. reconcileUsageEvents vs = Inr r \<and>
       (\<forall>s \<in> set scopes. scope_events s = filter (\<lambda>e. identityFor e = scope_identity s) (canonical_events r) \<and> scope_events s \<noteq> [] \<and>
         totals_of (scope_events s) (scope_totals s) \<and> exact_tokens (scope_events s) (scope_totals s) \<and>
         scope_lineage s = filter (\<lambda>l. lineageKey l \<in> attemptKey ` set (scope_events s)) (lineage r)) \<and>
       scope_identity ` set scopes = identityFor ` set (canonical_events r))"

locale usage_scope =
  fixes identityFor :: "UsageEvent \<Rightarrow> 'i" and keyFor :: "UsageEvent \<Rightarrow> jsstr"
  assumes key_identity: "keyFor e = keyFor e' \<longleftrightarrow> identityFor e = identityFor e'"
begin

lemma scopes_divide:
  assumes "aggregateByScope vs identityFor keyFor = Inr scopes"
  shows "divides vs identityFor scopes"
proof -
  define final where "final r g = \<lparr>scope_identity = group_identity g, scope_events = group_events g,
      scope_lineage = filter (\<lambda>l. lineageKey l \<in> attemptKey ` set (group_events g)) (lineage r),
      scope_totals = finishTotals (group_totals g)\<rparr>" for r :: ReconciledUsageEvents and g :: "'i MutableScopeAggregate"
  obtain r groups where r: "reconcileUsageEvents vs = Inr r"
    and loop: "scope_loop identityFor keyFor (canonical_events r) [] = Inr groups" and scopes: "scopes = map (final r) (map snd groups)"
    using assms by (auto simp: aggregateByScope_def ebind_Inr_iff final_def)
  let ?es = "canonical_events r"
  from scope_loop_groups [OF loop groups_ok_Nil]
  have ok: "groups_ok ?es keyFor group_events group_totals groups"
    and named: "\<forall>k g. map_of groups k = Some g \<longrightarrow> (\<exists>e \<in> set ?es. keyFor e = k \<and> group_identity g = identityFor e)"
    by simp_all
  have lookup: "map_of groups (fst p) = Some (snd p)" if "p \<in> set groups" for p using that groups_okD(1) [OF ok] by simp
  have each: "group_events (snd p) = filter (\<lambda>e. identityFor e = group_identity (snd p)) ?es \<and> group_events (snd p) \<noteq> [] \<and>
      totals_of (group_events (snd p)) (finishTotals (group_totals (snd p))) \<and>
      exact_tokens (group_events (snd p)) (finishTotals (group_totals (snd p))) \<and> group_identity (snd p) \<in> identityFor ` set ?es"
    if p: "p \<in> set groups" for p
  proof -
    obtain e where e: "e \<in> set ?es" "keyFor e = fst p" "group_identity (snd p) = identityFor e" using named lookup [OF p] by blast
    have same: "(\<lambda>x. keyFor x = fst p) = (\<lambda>x. identityFor x = group_identity (snd p))"
      unfolding e(3) e(2) [symmetric] by (rule ext) (rule key_identity)
    note G = groups_okD(3) [OF ok lookup [OF p]]
    then have tot: "totals_of (group_events (snd p)) (finishTotals (group_totals (snd p)))" unfolding totals_of_def by blast
    have "list_all valid_event (group_events (snd p))" using G canonical_valid [OF r] by (auto simp: list_all_iff)
    from totals_exact [OF tot this] tot G e show ?thesis unfolding same by blast
  qed
  have "identityFor e \<in> group_identity ` snd ` set groups" if "e \<in> set ?es" for e
  proof -
    have "map_of groups (keyFor e) \<noteq> None" using groups_okD(2) [OF ok, of "keyFor e"] that by (auto simp: filter_empty_conv)
    then obtain g where g: "map_of groups (keyFor e) = Some g" by blast
    then obtain e' where "keyFor e' = keyFor e" "group_identity g = identityFor e'" using named by blast
    then have "group_identity g = identityFor e" using key_identity by simp
    then show ?thesis using map_of_SomeD [OF g] by force
  qed
  then have idents: "group_identity ` snd ` set groups = identityFor ` set ?es" using each by blast
  have sel: "scope_identity (final r g) = group_identity g" "scope_events (final r g) = group_events g"
    "scope_totals (final r g) = finishTotals (group_totals g)"
    "scope_lineage (final r g) = filter (\<lambda>l. lineageKey l \<in> attemptKey ` set (group_events g)) (lineage r)" for g
    by (simp_all add: final_def)
  have "scope_events s = filter (\<lambda>e. identityFor e = scope_identity s) ?es \<and> scope_events s \<noteq> [] \<and>
      totals_of (scope_events s) (scope_totals s) \<and> exact_tokens (scope_events s) (scope_totals s) \<and>
      scope_lineage s = filter (\<lambda>l. lineageKey l \<in> attemptKey ` set (scope_events s)) (lineage r)" if "s \<in> set scopes" for s
  proof -
    obtain p where p: "p \<in> set groups" "s = final r (snd p)" using \<open>s \<in> set scopes\<close> unfolding scopes by auto
    show ?thesis unfolding p(2) sel using each [OF p(1)] by blast
  qed
  moreover have "scope_identity ` set scopes = identityFor ` set ?es"
    unfolding idents [symmetric] by (simp add: scopes image_image sel)
  ultimately show ?thesis unfolding divides_def using r by blast
qed

end

interpretation by_project: usage_scope projectId "\<lambda>e. json_key (TArr [TStr (projectId e)])"
  by unfold_locales (simp add: json_key_inject)

interpretation by_workflow: usage_scope "\<lambda>e. (projectId e, workflowId e)" "\<lambda>e. json_key (TArr [TStr (projectId e), TStr (workflowId e)])"
  by unfold_locales (simp add: json_key_inject)

interpretation by_agent: usage_scope "\<lambda>e. (projectId e, workflowId e, agentId e)"
  "\<lambda>e. json_key (TArr [TStr (projectId e), TStr (workflowId e), TStr (agentId e)])"
  by unfold_locales (simp add: json_key_inject)

text \<open>
  The aggregates by project, by workflow and by agent each divide the canonical events among their scopes, which are
  exactly those that occur, with totals that are sums over the scope's own events and the lineage of its own attempts.
\<close>

theorem scopes_partition_events:
  "(aggregateUsageByProject vs = Inr ps \<longrightarrow> divides vs projectId ps) \<and>
   (aggregateUsageByWorkflow vs = Inr ws \<longrightarrow> divides vs (\<lambda>e. (projectId e, workflowId e)) ws) \<and>
   (aggregateUsageByAgent vs = Inr gs \<longrightarrow> divides vs (\<lambda>e. (projectId e, workflowId e, agentId e)) gs)"
  unfolding aggregateUsageByProject_def aggregateUsageByWorkflow_def aggregateUsageByAgent_def
  using by_project.scopes_divide by_workflow.scopes_divide by_agent.scopes_divide by blast


section \<open>An example\<close>

lemma to_double_simps [simp]: "to_double 0 = NumFin 0" "to_double 5 = NumFin 5"
  using to_double_safe [of 0] to_double_safe [of 5] by (simp_all add: safe_int_def MAX_SAFE_INTEGER_def)

lemma as_safe_simps [simp]: "as_safe_integer (NumFin 0) = Some 0" "as_safe_integer (NumFin 5) = Some 5"
  by (simp_all add: as_safe_integer_eq_Some safe_int_def MAX_SAFE_INTEGER_def)

lemma demo_addEvent:
  "\<exists>t. addEvent (demo_usage 2 5) emptyTotals = Inr t \<and> knownTotal (total_input t) = 5 \<and> by_unavailable (total_input t) = 0"
  by (simp add: addEvent_def demo_usage_def demo_measurement_def addMeasurement_def checkedSum_def emptyTotals_def
      emptyMeasurementAggregate_def Let_def)

lemma demo_aggregate: "\<exists>a. aggregateUsageEvents (demo_stream [(1, 3), (2, 5)]) = Inr a"
proof -
  obtain r where r: "reconcileUsageEvents (demo_stream [(1, 3), (2, 5)]) = Inr r" "canonical_events r = [demo_usage 2 5]"
    using demo_in_order by blast
  have "reconcileAttemptLineage [demo_usage 2 5] = Inr (lineage r)"
    using r unfolding reconcile_iff reconciles_def by simp
  moreover have "reconcileAttemptLineage [demo_usage 2 5] = Inr [lineage_of (demo_usage 2 5) Resolved]"
    by (simp add: reconcileAttemptLineage_def first_attempts_def add_attempt_def record_path_def Let_def demo_keys(6))
  ultimately have l: "lineage r = [lineage_of (demo_usage 2 5) Resolved]" by simp
  obtain t where t: "addEvent (demo_usage 2 5) emptyTotals = Inr t" using demo_addEvent by blast
  have key: "lineageKey (lineage_of (demo_usage 2 5) Resolved) = attemptKey (demo_usage 2 5)"
    by (simp add: lineageKey_def lineage_of_def attemptKey_def)
  show ?thesis
    unfolding aggregateUsageEvents_def r(1) ebind_simps r(2) l
    by (simp add: lineageByAttempt_def key t extend_attempt_def new_attempt_def)
qed


theorem attempts_partition_events_witness:
  "\<exists>a. aggregateUsageEvents (demo_stream [(1, 3), (2, 5)]) = Inr a \<and> length (agg_attempts a) = card (attempt_of ` set (agg_events a))"
  using demo_aggregate attempts_partition_events by blast

theorem scopes_partition_events_witness:
  "\<exists>ps. aggregateUsageByProject (demo_stream [(1, 3), (2, 5)]) = Inr ps \<and> divides (demo_stream [(1, 3), (2, 5)]) projectId ps"
proof -
  obtain r where r: "reconcileUsageEvents (demo_stream [(1, 3), (2, 5)]) = Inr r" "canonical_events r = [demo_usage 2 5]"
    using demo_in_order by blast
  obtain t where t: "addEvent (demo_usage 2 5) emptyTotals = Inr t" using demo_addEvent by blast
  have "\<exists>ps. aggregateUsageByProject (demo_stream [(1, 3), (2, 5)]) = Inr ps"
    unfolding aggregateUsageByProject_def aggregateByScope_def r(1) ebind_simps r(2) by (simp add: t)
  then show ?thesis using scopes_partition_events by blast
qed

end
