(* ===== verification/Spec2Isabelle.thy ===== *)
theory Spec2Isabelle
  imports Parent_Transcript Graph_Migration Project_Reducer Approval_Reducer Editor_Buffer Toast_Coordinator Usage_Totals
begin

text \<open>
  \<^bold>\<open>Verification of the domain core of Prime Studio.\<close>

  Prime Studio is a desktop application around an agent runtime. Its TypeScript keeps the decisions that must not go wrong in
  pure modules: which projects and chats exist and how they are stored, what a tool may do, how the work of several
  agents is ordered, which drafts and notifications are kept, what was spent. This library models those modules and proves what they promise.

  \<^bold>\<open>Language.\<close> The theory \<open>JS_Base\<close> is the prelude: strings as lists of UTF-16 code units, numbers as exact rationals with the
  non-finite values, values, objects in a store of addresses with property descriptors, the trees that \<open>JSON.parse\<close>
  returns (\<open>jtree\<close>), exceptions as \<open>Inl\<close>, and the lemmas on lists, options and records that the components share.
  \<open>Json_Number\<close> reads number literals with rounding to doubles and prints numbers by their shortest decimals; every binary64 value is
  printed and read back. \<open>Json\<close> models \<open>JSON.parse\<close> and \<open>JSON.stringify\<close> from the language standard and gives the
  round trip as an interpretation of the locale \<open>codec\<close>; \<open>json_key\<close> is the text that the code uses as a key of maps, proved
  injective. \<open>Step_System\<close> holds the interface of every state machine: the locale \<open>step_system\<close> (an initial
  state, a step, an invariant) and its extension \<open>monotone_system\<close> (a relation that only grows). Each reducer below
  interprets one of them on its own step function, and its theorems on reachable states rest on that interpretation.

  \<^bold>\<open>Project chats\<close> (\<open>src/app/src/domain/projectChats\<close>).
  \<^item> \<open>Validation\<close> models \<open>validation.ts\<close>: identifiers, labels, session file names and the bounded UTF-8 length. Each test is shown
    to decide its grammar; labels with a trailing unpaired surrogate are the exception, which is recorded as a theorem.
  \<^item> \<open>Strict_Json\<close> models the hand-written scanner of \<open>strictJson.ts\<close>. It is recursive with fuel; the fuel (the length
    of the text plus one) always suffices, and the scanner accepts exactly the texts that \<open>JSON.parse\<close> accepts, without
    repeated keys, up to its size and depth.
  \<^item> \<open>Strict_Snapshot\<close> models \<open>strictSnapshot.ts\<close> over the store, with sharing and cycles: accepted graphs are trees within
    the limits, returned unchanged, and every tree within the limits is accepted.
  \<^item> \<open>Project_Contract\<close> has the types of \<open>contract.ts\<close> and the validity of a state; \<open>Serialization\<close> models
    \<open>serialization.ts\<close>: decoding accepts exactly the valid states, saving and loading is a round trip, migrations end and carry
    version 1 over.
  \<^item> \<open>Project_Reducer\<close> models \<open>reducer.ts\<close>, command by command: every state reachable from the initial one is valid,
    an applied command changes an abstract store of chats exactly as specified (a refinement), accepted commands apply,
    and the two commands that pass their guards and yet never apply are identified.

  \<^bold>\<open>Approvals\<close> (\<open>src/app/src/domain/approval\<close>).
  \<^item> \<open>Sha256\<close> shows that the hand-written digest of \<open>contract.ts\<close> is SHA-256. The standard is stated without the code's definitions: its constants
    are the leading bits of roots of primes, proved equal to the tables of the code.
  \<^item> \<open>Approval_Contract\<close> models the rest of \<open>contract.ts\<close>: the registry of trusted adapters, the mint of evidence and the two verifiers.
    They accept exactly well-formed claims with registered evidence, and a piece of evidence never serves two claims.
  \<^item> \<open>Approval_Reducer\<close> models \<open>reducer.ts\<close>: an attempt is allowed exactly under the documented conditions; no grant has two
    attempts in flight, no attempt is allowed twice, lost authority stays lost, the history only grows, and a completion needs the
    verifier's consent. The adapters' functions, the clock and the completion verifier are parameters.

  \<^bold>\<open>Orchestration\<close> (\<open>src/app/src/domain/orchestrationGraph.ts\<close>).
  \<^item> \<open>Graph_Model\<close> has the data of the graph, its validation and its creation, \<open>Graph_Events\<close> the dispatch of tasks and \<open>applyEvent\<close>
    with every event. \<open>Graph_Cycles\<close> treats the searches for cycles as interpretations of the locale \<open>cycle_search\<close>: a search reports nothing
    exactly if there is no cycle. \<open>Graph_Valid\<close> shows that \<open>validateGraph\<close> decides the declarative predicate \<open>valid_graph\<close>.
  \<^item> \<open>Graph_Invariant\<close> says when a change keeps the invariant, \<open>Graph_Safety\<close> that every event does, and \<open>Graph_Runs\<close> interprets \<open>monotone_system\<close>
    on runs. \<open>Graph_Properties\<close> has the theorems: graphs stay valid, work follows dependencies and reviews, history grows, a cancellation
    affects exactly the closure of the task, and on every valid graph what is offered for dispatch can be started. It also records two ways in which an accepted event
    yields an invalid graph.
  \<^item> \<open>Graph_Snapshot\<close> has \<open>serializeGraph\<close>, \<open>restoreGraph\<close>, the readers of every part and the migration of version 1, which replays the records.
    \<open>Graph_Restore\<close> shows that a valid graph is restored as it was and that whatever is restored can be saved; \<open>Graph_Migration\<close>, that a
    version 1 snapshot of a graph of a run restores that graph. The hypotheses on numbers and sizes (\<open>binary64_graph\<close>, \<open>array_sizes\<close>) say
    what every JavaScript number and array satisfies.

  \<^bold>\<open>The surface.\<close>
  \<^item> \<open>Editor_Buffer\<close> models \<open>features/editor/editorBufferStore.ts\<close>: the limits on unsaved drafts hold in every run, and eviction
    keeps the longest recent suffix that fits.
  \<^item> \<open>Studio_Operations\<close> models \<open>contracts/studioOperations.ts\<close> (the table of actions, control bindings, dispatch) and
    \<open>components/operationToasts.ts\<close>: a dispatch returns only outcomes its authority may report.
  \<^item> \<open>Toast_Queue\<close> models \<open>components/toastQueue.ts\<close> and \<open>Toast_Coordinator\<close> models \<open>components/toastOperationCoordinator.ts\<close>. Its asynchronous
    methods are split at their \<open>await\<close>, so the theorems hold for every interleaving: the retries on display are
    exactly those that can be performed, and the capacity exception of the queue is unreachable.
  \<^item> \<open>Parent_Transcript\<close> models \<open>entities/messages/parentTranscriptReducer.ts\<close>, whose events carry arbitrary trees: the window is bounded in messages
    and characters and shows text only, it has the newest messages and is cut only when full, a message that fits is shown as it was sent, and the
    events on which the reducer throws are characterised.

  \<^bold>\<open>Usage\<close> (\<open>src/app/src/usageLedger.ts\<close>).
  \<^item> \<open>Usage_Event\<close>: validation, identities, fingerprints and order of events. \<open>Usage_Lineage\<close>: the traversal of predecessors, whose
    step limit (the number of attempts) is shown to be enough and whose failures name a contradiction or a cycle that is there. \<open>Usage_Ledger\<close>: reconciliation yields the latest revisions and does not depend on
    the order of arrival, but for one kind of conflict, which is recorded. \<open>Usage_Totals\<close>: token totals are exact integers, and attempts and scopes
    (interpretations of the locale \<open>usage_scope\<close>) divide the events.

  \<^bold>\<open>This theory\<close> joins the two halves of the approval component: whatever the reducer has allowed rests on evidence
  that the registry minted for both the grant and the attempt, with one and the same target and digest.

  \<^bold>\<open>Modelling choices.\<close> A property read through a proxy or an inherited getter is not modelled: objects have data
  and accessor descriptors of their own only. Negative zero is not told from zero, except where the code tests for it (the measurements of usage events, which come with the signs of their zeros). A frozen copy is the value itself. The text of an error is
  kept where the code fixes it; where it interpolates identifiers, the error carries them. Random identifiers and times are arguments.

  \<^bold>\<open>Not modelled.\<close> The provider contract, the scheduler, the artifact domain, computer use, and provider
  authentication are pure modules of the same style, not yet translated; the browser policy rests on the platform's URL
  parser; the session reducer over raw runtime events, the IPC clients and the harness sidecar are mostly input and output; the React
  components, the Rust backend and the build scripts are outside this library.
\<close>


section \<open>Allowed attempts rest on minted evidence\<close>

text \<open>Every step of the reducer is, for the registry, a step of its own or none.\<close>

lemma reduceApprovalAt_registry:
  "snd (reduceApprovalAt st au h act t ac) = au \<or> (\<exists>ev. snd (reduceApprovalAt st au h act t ac) = authority_step au ev)"
proof (cases act)
  case (Issue v)
  then have "snd (reduceApprovalAt st au h act t ac) = authority_step au (Verify_Grant h v)"
    by (auto split: sum.split)
  then show ?thesis by blast
next
  case (Authorize v)
  then have "snd (reduceApprovalAt st au h act t ac) = authority_step au (Verify_Attempt h v)"
    by (auto split: sum.split)
  then show ?thesis by blast
qed auto

lemma approval_step_registry:
  "snd (approval_step s e) = snd s \<or> (\<exists>ev. snd (approval_step s e) = authority_step (snd s) ev)"
proof (cases s; cases e)
  fix st au h input clock ac
  assume s: "s = (st, au)" and e: "e = Reduce h input clock ac"
  obtain st' au' where r: "approvalReducer st au h input clock ac = (st', au')" by force
  have "au' = au \<or> (\<exists>act t. au' = snd (reduceApprovalAt st au h act t ac))"
    using approvalReducer_cases [OF r] by (metis snd_conv)
  then have "au' = au \<or> (\<exists>ev. au' = authority_step au ev)" using reduceApprovalAt_registry by metis
  then show ?thesis by (simp add: s e r)
qed auto

lemma reachable_registry:
  assumes "reachable (createApprovalState, new_authority defs) approval_step s"
  shows "reachable (new_authority defs) authority_step (snd s)"
  using assms
proof induction
  case (reachable_step s e)
  show ?case using approval_step_registry [of s e] reachable_step.IH by (auto intro: reachable.reachable_step)
qed (simp add: reachable_init)

text \<open>
  C13: every attempt that the reducer has allowed rests on two pieces of evidence that the registry holds, one for the grant
  and one for the attempt. Each was minted by an adapter registered for its action, whose function accepted the
  target, and both carry the digest of the same arguments and agree in adapter, action and target.
\<close>

theorem allowed_rests_on_minted_evidence:
  assumes "reachable (createApprovalState, new_authority defs) approval_step (st, au)" and "d \<in> set (allows st)"
  shows "\<exists>g args. decision_grant d = Some g \<and>
    grantEvidence au (ev_ref (evidence g)) = Some (evidence g) \<and>
    attemptEvidence au (ev_ref (evidence (decision_attempt d))) = Some (evidence (decision_attempt d)) \<and>
    Approval_Contract.provenance au (evidence g) \<and> Approval_Contract.provenance au (evidence (decision_attempt d)) \<and>
    same_evidence (evidence g) (evidence (decision_attempt d)) \<and>
    ev_argumentsDigest (evidence g) = js ''sha256:'' @ sha256Hex args \<and>
    ev_argumentsDigest (evidence (decision_attempt d)) = js ''sha256:'' @ sha256Hex args"
proof -
  have inv: "state_inv st" "registered st au" using approvals.reachable_inv [OF assms(1)] by (simp_all add: approval_inv_def)
  from state_invD(3) [OF inv(1) assms(2)] obtain x r where
    d: "attempts st (attempt_id (decision_attempt d)) = Some x" "attempt x = decision_attempt d"
      "grants st (grantId (decision_attempt d)) = Some r" "decision_grant d = Some (grant r)"
      "claims_agree (grant r) (decision_attempt d)"
    unfolding decision_ok_def by blast
  have same: "same_evidence (evidence (grant r)) (evidence (decision_attempt d))" using d(5) by (simp add: claims_agree_def)
  have held: "grantEvidence au (ev_ref (evidence (grant r))) = Some (evidence (grant r))"
    "attemptEvidence au (ev_ref (evidence (decision_attempt d))) = Some (evidence (decision_attempt d))"
    using inv(2) d(1,3) unfolding registered_def d(2) [symmetric] by blast+
  note minted = reachable_provenance [OF reachable_registry [OF assms(1), unfolded snd_conv]]
  have prov: "Approval_Contract.provenance au (evidence (grant r))" by (rule minted) (rule disjI1 [OF held(1)])
  have prov': "Approval_Contract.provenance au (evidence (decision_attempt d))" by (rule minted) (rule disjI2 [OF held(2)])
  from prov obtain args where "ev_argumentsDigest (evidence (grant r)) = js ''sha256:'' @ sha256Hex args"
    unfolding Approval_Contract.provenance_def by blast
  then show ?thesis using d(4) held prov prov' same unfolding same_evidence_iff by metis
qed

theorem allowed_rests_on_minted_evidence_witness:
  "\<exists>g. map decision_grant (allows (fst demo_allowed)) = [Some g] \<and> Approval_Contract.provenance (snd demo_allowed) (evidence g)"
proof -
  have one: "allows (fst demo_allowed) = [\<lparr>verdict = Allow, decision_reason = None, decided_at = 15,
      decision_attempt = demo_attempt, decision_grant = Some demo_grant\<rparr>]"
    by (simp add: demo_allowed_eq allow_def demo_issued_state_def createApprovalState_def)
  have "reachable (createApprovalState, new_authority demo_defs) approval_step (fst demo_allowed, snd demo_allowed)"
    using demo_reachable_allowed by simp
  from allowed_rests_on_minted_evidence [OF this, unfolded one] show ?thesis by (auto simp: one)
qed

end
